(* ===== verification/QPrelude.thy ===== *)
theory QPrelude
  imports Main "HOL-Library.Word" "HOL-Library.Monad_Syntax"
begin

text \<open>
  Shared vocabulary of the development: the C integer types as words, bounded
  reads and writes of a memory object, little-endian byte strings, and the
  generic lemmas about them that every component uses.

  A memory object is the list of its cells.  Reading or writing outside it is
  the value \<open>None\<close>, so a theorem that a routine returns \<open>Some\<close> is also the
  statement that the routine stays inside its objects.
\<close>

unbundle bit_operations_syntax

type_synonym u8 = "8 word"
type_synonym u16 = "16 word"
type_synonym u32 = "32 word"
type_synonym u64 = "64 word"

named_theorems mem_simps \<open>bounded reads and writes inside an object\<close>
named_theorems byte_simps \<open>little-endian byte strings\<close>

subsection \<open>Bounded memory\<close>

definition rd :: "'a list \<Rightarrow> nat \<Rightarrow> 'a option" where
  "rd m i = (if i < length m then Some (m ! i) else None)"

definition wr :: "'a list \<Rightarrow> nat \<Rightarrow> 'a \<Rightarrow> 'a list option" where
  "wr m i x = (if i < length m then Some (m[i := x]) else None)"

definition blit :: "'a list \<Rightarrow> nat \<Rightarrow> 'a list \<Rightarrow> 'a list option" where
  "blit m off xs =
     (if off + length xs \<le> length m
      then Some (take off m @ xs @ drop (off + length xs) m) else None)"

definition grab :: "'a list \<Rightarrow> nat \<Rightarrow> nat \<Rightarrow> 'a list option" where
  "grab m off n = (if off + n \<le> length m then Some (take n (drop off m)) else None)"

lemma rd_inside [mem_simps]: "i < length m \<Longrightarrow> rd m i = Some (m ! i)"
  by (simp add: rd_def)

lemma wr_inside [mem_simps]: "i < length m \<Longrightarrow> wr m i x = Some (m[i := x])"
  by (simp add: wr_def)

lemma blit_inside [mem_simps]:
  "off + length xs \<le> length m \<Longrightarrow>
   blit m off xs = Some (take off m @ xs @ drop (off + length xs) m)"
  by (simp add: blit_def)

lemma grab_inside [mem_simps]:
  "off + n \<le> length m \<Longrightarrow> grab m off n = Some (take n (drop off m))"
  by (simp add: grab_def)

lemma rd_eq_Some [simp]: "rd m i = Some x \<longleftrightarrow> i < length m \<and> x = m ! i"
  by (auto simp: rd_def)

lemma wr_eq_Some [simp]: "wr m i x = Some m' \<longleftrightarrow> i < length m \<and> m' = m[i := x]"
  by (auto simp: wr_def)

lemma length_blit: "blit m off xs = Some m' \<Longrightarrow> length m' = length m"
  by (auto simp: blit_def split: if_splits)

lemma length_grab: "grab m off n = Some xs \<Longrightarrow> length xs = n"
  by (auto simp: grab_def split: if_splits)

lemma nth_blit:
  assumes "blit m off xs = Some m'" "i < length m"
  shows "m' ! i = (if off \<le> i \<and> i < off + length xs then xs ! (i - off) else m ! i)"
  using assms by (auto simp: blit_def nth_append min_def split: if_splits)

lemma blit_list_update_snoc:
  assumes "off + length xs < length m"
  shows "(take off m @ xs @ drop (off + length xs) m)[off + length xs := x] =
         take off m @ (xs @ [x]) @ drop (off + length (xs @ [x])) m"
proof (rule nth_equalityI)
  show "length ((take off m @ xs @ drop (off + length xs) m)[off + length xs := x]) =
        length (take off m @ (xs @ [x]) @ drop (off + length (xs @ [x])) m)"
    using assms by simp
next
  fix i
  assume i: "i < length ((take off m @ xs @ drop (off + length xs) m)[off + length xs := x])"
  show "(take off m @ xs @ drop (off + length xs) m)[off + length xs := x] ! i =
        (take off m @ (xs @ [x]) @ drop (off + length (xs @ [x])) m) ! i"
    using assms i by (auto simp: nth_list_update nth_append min_def)
qed

subsection \<open>Little-endian byte strings\<close>

fun le_bytes :: "nat \<Rightarrow> 'a::len word \<Rightarrow> u8 list" where
  "le_bytes 0 w = []"
| "le_bytes (Suc n) w = ucast w # le_bytes n (drop_bit 8 w)"

fun le_val :: "u8 list \<Rightarrow> nat" where
  "le_val [] = 0"
| "le_val (b # bs) = unat b + 256 * le_val bs"

lemma length_le_bytes [simp]: "length (le_bytes n w) = n"
  by (induction n arbitrary: w) auto

lemma unat_u8_less [simp]: "unat (b :: u8) < 256"
  using unsigned_less [of b] by simp

lemma unat_ucast_u8: "unat (ucast (w :: 'a::len word) :: u8) = unat w mod 256"
  by (simp add: unsigned_ucast_eq take_bit_eq_mod)

lemma unat_drop_bit_div: "unat (drop_bit n (w :: 'a::len word)) = unat w div 2 ^ n"
  by (simp only: unat_drop_bit_eq) (simp add: drop_bit_eq_div)

lemma unat_take_bit_mod: "unat (take_bit n (w :: 'a::len word)) = unat w mod 2 ^ n"
  by (simp only: unsigned_take_bit_eq) (simp add: take_bit_eq_mod)

lemma unat_push_bit_mult:
  assumes "unat (w :: 'a::len word) * 2 ^ n < 2 ^ LENGTH('a)"
  shows "unat (push_bit n w) = unat w * 2 ^ n"
proof -
  have "unat (push_bit n w) = take_bit LENGTH('a) (push_bit n (unat w))"
    by (rule unsigned_push_bit_eq)
  then show ?thesis
    using assms by (simp add: push_bit_eq_mult take_bit_nat_eq_self)
qed

lemma unat_ucast_up:
  assumes "LENGTH('b) \<le> LENGTH('a)"
  shows "unat (ucast (b :: 'b::len word) :: 'a::len word) = unat b"
proof -
  have "unat b < 2 ^ LENGTH('b)" by (rule unsigned_less)
  also have "\<dots> \<le> 2 ^ LENGTH('a)" using assms by (intro power_increasing) auto
  finally show ?thesis by (simp add: unsigned_ucast_eq take_bit_nat_eq_self)
qed

lemma unat_drop_bit8: "unat (drop_bit 8 (w :: 'a::len word)) = unat w div 256"
  by (simp only: unat_drop_bit_div) simp

lemma le_val_le_bytes [byte_simps]:
  "le_val (le_bytes n (w :: 'a::len word)) = unat w mod 256 ^ n"
proof (induction n arbitrary: w)
  case 0
  then show ?case by simp
next
  case (Suc n)
  have "le_val (le_bytes (Suc n) w) = unat w mod 256 + 256 * ((unat w div 256) mod 256 ^ n)"
    by (simp add: Suc unat_ucast_u8 unat_drop_bit8)
  also have "\<dots> = unat w mod (256 * 256 ^ n)"
    by (simp add: mod_mult2_eq)
  finally show ?case by simp
qed

lemma le_val_bound [byte_simps]: "le_val bs < 256 ^ length bs"
proof (induction bs)
  case Nil
  then show ?case by simp
next
  case (Cons b bs)
  define P :: nat where "P = 256 ^ length bs"
  have "unat b + 256 * le_val bs < 256 * P"
    using unat_u8_less [of b] Cons unfolding P_def [symmetric] by linarith
  then show ?case by (simp add: P_def)
qed

lemma le_bytes_of_nat_le_val [byte_simps]:
  assumes "length bs = n" "8 * n \<le> LENGTH('a)"
  shows "le_bytes n (of_nat (le_val bs) :: 'a::len word) = bs"
  using assms
proof (induction bs arbitrary: n)
  case Nil
  then show ?case by simp
next
  case (Cons b bs)
  then obtain k where n: "n = Suc k" and k: "length bs = k" by auto
  have b: "unat b < 256" by simp
  have "le_val (b # bs) < 256 ^ Suc k"
    using le_val_bound [of "b # bs"] k by simp
  also have "(256::nat) ^ Suc k = 2 ^ (8 * Suc k)"
    by (subst power_mult) simp
  also have "\<dots> \<le> 2 ^ LENGTH('a)"
    using Cons.prems n by (intro power_increasing) auto
  finally have lt: "le_val (b # bs) < 2 ^ LENGTH('a)" .
  have u: "unat (of_nat (le_val (b # bs)) :: 'a word) = le_val (b # bs)"
    using lt by (simp add: unsigned_of_nat take_bit_nat_eq_self del: le_val.simps)
  have hd: "ucast (of_nat (le_val (b # bs)) :: 'a word) = b"
    using b by (intro word_unat_eq_iff [THEN iffD2]) (simp add: unat_ucast_u8 u del: le_val.simps, simp)
  have tl: "drop_bit 8 (of_nat (le_val (b # bs)) :: 'a word) = of_nat (le_val bs)"
  proof (rule word_unat_eq_iff [THEN iffD2])
    have "le_val bs < 2 ^ LENGTH('a)" using lt by simp
    then have "unat (of_nat (le_val bs) :: 'a word) = le_val bs"
      by (simp add: unsigned_of_nat take_bit_nat_eq_self)
    then show "unat (drop_bit 8 (of_nat (le_val (b # bs)) :: 'a word)) =
               unat (of_nat (le_val bs) :: 'a word)"
      using b by (simp only: unat_drop_bit8 u) simp
  qed
  show ?case
    using Cons.IH [OF k] Cons.prems n hd tl by (simp del: le_val.simps)
qed

subsection \<open>Unsigned arithmetic that may wrap\<close>

lemma unat_of_nat_small: "n < 2 ^ LENGTH('a) \<Longrightarrow> unat (of_nat n :: 'a::len word) = n"
  by (simp add: unsigned_of_nat take_bit_nat_eq_self)

lemma unat_add_no_wrap:
  "unat x + unat y < 2 ^ LENGTH('a) \<Longrightarrow> unat (x + y :: 'a::len word) = unat x + unat y"
  by (simp add: unat_add_lem [symmetric])

lemma unat_add_wrap:
  assumes "2 ^ LENGTH('a) \<le> unat x + unat y"
  shows "unat (x + y :: 'a::len word) = unat x + unat y - 2 ^ LENGTH('a)"
proof -
  have "unat x + unat y - 2 ^ LENGTH('a) < 2 ^ LENGTH('a)"
    using unsigned_less [of x, where 'a = nat] unsigned_less [of y, where 'a = nat] by linarith
  then have "(unat x + unat y) mod 2 ^ LENGTH('a) = unat x + unat y - 2 ^ LENGTH('a)"
    using assms by (metis le_mod_geq mod_less)
  then show ?thesis by (simp add: unat_word_ariths)
qed

text \<open>The C idiom \<open>x + y < y\<close> detects exactly the sums that do not fit.\<close>

lemma add_wraps_iff:
  "(x + y :: 'a::len word) < y \<longleftrightarrow> 2 ^ LENGTH('a) \<le> unat x + unat y"
proof (cases "2 ^ LENGTH('a) \<le> unat x + unat y")
  case True
  have "unat x < 2 ^ LENGTH('a)" by simp
  then have "unat (x + y) < unat y"
    unfolding unat_add_wrap [OF True] using True unsigned_less [of y, where 'a = nat] by linarith
  with True show ?thesis by (simp add: word_less_nat_alt)
next
  case False
  then show ?thesis by (simp add: word_less_nat_alt unat_add_no_wrap)
qed

lemma unat_sub_le: "y \<le> x \<Longrightarrow> unat (x - y :: 'a::len word) = unat x - unat y"
  by (simp add: unat_sub)

subsection \<open>Disjoint bit fields\<close>

lemma take_bit_small:
  fixes x :: "'a::len word"
  assumes "unat x < 2 ^ k"
  shows "take_bit k x = x"
  by (rule word_unat_eq_iff [THEN iffD2])
     (simp add: unsigned_take_bit_eq take_bit_nat_eq_self assms)

lemma or_high_low:
  fixes x y :: "'a::len word"
  assumes "unat x < 2 ^ k"
  shows "x OR push_bit k y = x + push_bit k y"
proof (rule disjunctive_add_eq_or [symmetric])
  have "take_bit k x AND push_bit k y = 0"
    by (rule bit_word_eqI) (auto simp: bit_simps)
  then show "x AND push_bit k y = 0" by (simp add: take_bit_small assms)
qed

text \<open>Induction on two numbers, the first one first.\<close>

lemma lex_induct:
  fixes f g :: "'a \<Rightarrow> nat"
  assumes "\<And>x. (\<And>y. f y < f x \<or> f y = f x \<and> g y < g x \<Longrightarrow> P y) \<Longrightarrow> P x"
  shows "P x"
proof (rule wf_induct_rule [of "inv_image (less_than <*lex*> less_than) (\<lambda>x. (f x, g x))"])
  fix x
  assume "\<And>y. (y, x) \<in> inv_image (less_than <*lex*> less_than) (\<lambda>x. (f x, g x)) \<Longrightarrow> P y"
  then show "P x" by (rule assms) auto
qed auto

subsection \<open>Walking a list of nodes\<close>

text \<open>The successor of a node in a list, \<open>None\<close> for the head of the list.\<close>

fun list_first :: "'a list \<Rightarrow> 'a option" where
  "list_first [] = None"
| "list_first (x # xs) = Some x"

fun list_next :: "'a list \<Rightarrow> 'a \<Rightarrow> 'a option" where
  "list_next [] p = None"
| "list_next (x # xs) p = (if x = p then list_first xs else list_next xs p)"

end
