(* ===== verification/Cutils.thy ===== *)
theory Cutils
  imports QPrelude
begin

text \<open>
  \<open>src/src/deps/cutils.c\<close> and \<open>cutils.h\<close>: the bounded C string routines, the
  growable byte buffer \<open>DynBuf\<close>, and the byte-order and surrogate helpers.

  A \<open>char *\<close> is the memory object from the pointer to the object's end, its
  terminating zero included; \<open>is_cstr s m\<close> says that \<open>m\<close> holds the string \<open>s\<close>.
  A routine that would read or write outside its objects returns \<open>None\<close>.
\<close>

section \<open>C strings\<close>

definition is_cstr :: "u8 list \<Rightarrow> u8 list \<Rightarrow> bool" where
  "is_cstr s m \<longleftrightarrow> 0 \<notin> set s \<and> (\<exists>r. m = s @ 0 # r)"

fun c_strlen :: "u8 list \<Rightarrow> nat option" where
  "c_strlen [] = None"
| "c_strlen (c # m) = (if c = 0 then Some 0 else map_option Suc (c_strlen m))"

text \<open>\<open>pstrcpy\<close>: the loop's state is the write index \<open>q\<close> and the unread source.\<close>

fun pstrcpy_loop :: "u8 list \<Rightarrow> nat \<Rightarrow> nat \<Rightarrow> u8 list \<Rightarrow> u8 list option" where
  "pstrcpy_loop buf n q [] = None"
| "pstrcpy_loop buf n q (c # str) =
     (if c = 0 \<or> q \<ge> n - 1 then wr buf q 0
      else do { buf' \<leftarrow> wr buf q c; pstrcpy_loop buf' n (Suc q) str })"

definition pstrcpy :: "u8 list \<Rightarrow> int \<Rightarrow> u8 list \<Rightarrow> u8 list option" where
  "pstrcpy buf buf_size str =
     (if buf_size \<le> 0 then Some buf else pstrcpy_loop buf (nat buf_size) 0 str)"

definition pstrcat :: "u8 list \<Rightarrow> int \<Rightarrow> u8 list \<Rightarrow> u8 list option" where
  "pstrcat buf buf_size s = do {
     len \<leftarrow> c_strlen buf;
     if int len < buf_size then do {
       tl \<leftarrow> pstrcpy (drop len buf) (buf_size - int len) s;
       Some (take len buf @ tl) }
     else Some buf }"

text \<open>\<open>strstart\<close>: the inner option is the C result, \<open>Some p\<close> with \<open>*ptr = p\<close> for 1.\<close>

fun strstart :: "u8 list \<Rightarrow> u8 list \<Rightarrow> u8 list option option" where
  "strstart p [] = None"
| "strstart p (q # qs) =
     (if q = 0 then Some (Some p)
      else case p of [] \<Rightarrow> None
           | c # cs \<Rightarrow> if c \<noteq> q then Some None else strstart cs qs)"

definition has_suffix :: "u8 list \<Rightarrow> u8 list \<Rightarrow> bool option" where
  "has_suffix str suffix = do {
     len \<leftarrow> c_strlen str;
     slen \<leftarrow> c_strlen suffix;
     if len \<ge> slen then do {
       a \<leftarrow> grab str (len - slen) slen;
       b \<leftarrow> grab suffix 0 slen;
       Some (a = b) }
     else Some False }"

lemma is_cstrE:
  assumes "is_cstr s m"
  obtains r where "m = s @ 0 # r" "0 \<notin> set s"
  using assms by (auto simp: is_cstr_def)

lemma is_cstr_Cons:
  "is_cstr s (c # m) \<longleftrightarrow> (if c = 0 then s = [] else \<exists>t. s = c # t \<and> is_cstr t m)"
  by (cases s) (auto simp: is_cstr_def)

lemma is_cstr_Nil [simp]: "\<not> is_cstr s []"
  by (simp add: is_cstr_def)

lemma c_strlen_cstr: "is_cstr s m \<Longrightarrow> c_strlen m = Some (length s)"
  by (induction m arbitrary: s) (auto simp: is_cstr_Cons split: if_splits)

lemma pstrcpy_loop_cstr:
  assumes "is_cstr s str" "n \<le> length buf" "q < n"
  shows "pstrcpy_loop buf n q str =
         blit buf q (take (n - 1 - q) s @ [0])"
  using assms
proof (induction str arbitrary: buf q s)
  case Nil
  then show ?case by simp
next
  case (Cons c str)
  show ?case
  proof (cases "c = 0 \<or> q \<ge> n - 1")
    case True
    then have "take (n - 1 - q) s = []"
      using Cons.prems by (auto simp: is_cstr_Cons split: if_splits)
    then show ?thesis
      using True Cons.prems by (simp add: wr_def blit_def upd_conv_take_nth_drop del: take_eq_Nil)
  next
    case False
    then obtain t where t: "s = c # t" "is_cstr t str"
      using Cons.prems by (auto simp: is_cstr_Cons split: if_splits)
    define d where "d = n - 1 - Suc q"
    have d: "n - 1 - q = Suc d" using False unfolding d_def by linarith
    have sq: "Suc q < n" using False by linarith
    have "pstrcpy_loop buf n q (c # str) = pstrcpy_loop (buf[q := c]) n (Suc q) str"
      using False Cons.prems by (simp add: wr_def)
    also have "\<dots> = blit (buf[q := c]) (Suc q) (take d t @ [0])"
      using Cons.IH [OF t(2), of "buf[q := c]" "Suc q"] sq Cons.prems
      by (simp add: d_def)
    also have "\<dots> = blit buf q (take (Suc d) s @ [0])"
      using Cons.prems t d False
      by (auto simp: blit_def take_Suc_conv_app_nth drop_update_cancel min_def)
    finally show ?thesis by (simp only: d)
  qed
qed

lemma pstrcpy_cstr:
  assumes "is_cstr s str" "0 < n" "nat n \<le> length buf"
  shows "pstrcpy buf n str = blit buf 0 (take (nat n - 1) s @ [0])"
  using assms pstrcpy_loop_cstr [of s str "nat n" buf 0] by (simp add: pstrcpy_def)

text \<open>
  \<open>pstrcpy\<close> keeps its destination inside \<open>buf_size\<close>, leaves a terminated string
  there, and that string is the source truncated to \<open>buf_size - 1\<close> characters.
\<close>

lemma pstrcpy_result:
  assumes "is_cstr s str" "0 < n" "nat n \<le> length buf"
  shows "\<exists>m. pstrcpy buf n str = Some m \<and> length m = length buf \<and>
             is_cstr (take (nat n - 1) s) m \<and> drop (nat n) m = drop (nat n) buf"
proof -
  let ?t = "take (nat n - 1) s"
  have len: "length ?t + 1 \<le> nat n" using assms by simp
  have m: "pstrcpy buf n str = Some (?t @ 0 # drop (length ?t + 1) buf)"
    using assms len by (simp add: pstrcpy_cstr blit_def)
  have "0 \<notin> set ?t"
    using assms(1) by (auto simp: is_cstr_def dest: in_set_takeD)
  then have "is_cstr ?t (?t @ 0 # drop (length ?t + 1) buf)"
    by (auto simp: is_cstr_def)
  moreover have "drop (nat n) (?t @ 0 # drop (length ?t + 1) buf) = drop (nat n) buf"
    using len by (simp add: drop_Cons' del: length_take)
  ultimately show ?thesis
    using m len assms(3) by simp
qed

lemma pstrcat_result:
  assumes "is_cstr a buf" "is_cstr s str" "length a < nat n" "nat n \<le> length buf"
  shows "\<exists>m. pstrcat buf n str = Some m \<and> length m = length buf \<and>
             is_cstr (take (nat n - 1) (a @ s)) m"
proof -
  let ?b = "drop (length a) buf"
  let ?n = "n - int (length a)"
  have n: "0 < ?n" "nat ?n \<le> length ?b" "nat ?n = nat n - length a"
    using assms by auto
  obtain m where m: "pstrcpy ?b ?n str = Some m" "length m = length ?b"
    "is_cstr (take (nat ?n - 1) s) m"
    using pstrcpy_result [OF assms(2) n(1,2)] by blast
  from assms(1) obtain r where a: "buf = a @ 0 # r" "0 \<notin> set a" by (rule is_cstrE)
  have "pstrcat buf n str = Some (a @ m)"
    using assms(3) m(1) a n(1) unfolding pstrcat_def c_strlen_cstr [OF assms(1)] by simp
  moreover have "is_cstr (a @ take (nat ?n - 1) s) (a @ m)"
    using m(3) a(2) by (auto simp: is_cstr_def)
  moreover have "a @ take (nat ?n - 1) s = take (nat n - 1) (a @ s)"
    using n(3) assms(3) by simp
  ultimately show ?thesis using m(2) a by simp
qed

lemma strstart_cstr:
  assumes "is_cstr v val" "is_cstr s str"
  shows "strstart str val =
         Some (if \<exists>t. s = v @ t then Some (drop (length v) str) else None)"
  using assms
proof (induction str val arbitrary: s v rule: strstart.induct)
  case (1 p)
  then show ?case by simp
next
  case (2 p q qs)
  show ?case
  proof (cases "q = 0 \<or> p = []")
    case True
    with "2.prems" show ?thesis by (auto simp: is_cstr_Cons split: if_splits)
  next
    case False
    then obtain c cs where p: "p = c # cs" by (cases p) auto
    from False "2.prems" obtain v' where v: "v = q # v'" "is_cstr v' qs"
      by (auto simp: is_cstr_Cons)
    show ?thesis
    proof (cases "c = q")
      case True
      with False p "2.prems" obtain s' where s: "s = c # s'" "is_cstr s' cs"
        by (auto simp: is_cstr_Cons)
      have "strstart cs qs =
            Some (if \<exists>t. s' = v' @ t then Some (drop (length v') cs) else None)"
        using "2.IH" [OF _ p _ v(2) s(2)] False True by blast
      with False True p v s show ?thesis by auto
    next
      case ne: False
      with False p "2.prems" v show ?thesis
        by (auto simp: is_cstr_Cons split: if_splits)
    qed
  qed
qed

lemma has_suffix_cstr:
  assumes "is_cstr s str" "is_cstr v suffix"
  shows "has_suffix str suffix = Some (\<exists>t. s = t @ v)"
proof -
  from assms obtain r r' where m: "str = s @ 0 # r" "suffix = v @ 0 # r'"
    by (auto elim!: is_cstrE)
  show ?thesis
  proof (cases "length v \<le> length s")
    case True
    have "drop (length s - length v) s = v \<longleftrightarrow> (\<exists>t. s = t @ v)"
      by (metis append_eq_conv_conj append_take_drop_id length_append add_diff_cancel_right')
    then show ?thesis
      using True m unfolding has_suffix_def c_strlen_cstr [OF assms(1)] c_strlen_cstr [OF assms(2)]
      by (simp add: grab_def)
  next
    case False
    then have "\<not> (\<exists>t. s = t @ v)" by auto
    with False show ?thesis
      by (simp add: has_suffix_def c_strlen_cstr [OF assms(1)] c_strlen_cstr [OF assms(2)])
  qed
qed

section \<open>Growable byte buffers\<close>

text \<open>
  \<open>DynBuf\<close>.  \<open>db_buf\<close> is the memory object behind \<open>s->buf\<close>, \<open>None\<close> for the null
  pointer; its allocator \<open>s->realloc_func\<close> is a field, as in the code.  It gets the
  old object and the new size and returns the new object, or \<open>None\<close> for null.
  The field itself is \<open>None\<close> after \<open>dbuf_free\<close>, which clears the whole struct.
\<close>

type_synonym 'a allocate = "'a list option \<Rightarrow> u64 \<Rightarrow> 'a list option"
type_synonym realloc_fn = "u8 allocate"

record dynbuf =
  db_buf :: "u8 list option"
  db_size :: u64
  db_allocated :: u64
  db_error :: bool
  db_realloc :: "realloc_fn option"

text \<open>\<open>realloc\<close> of the C library over a policy \<open>ok\<close> that says which sizes can be had.\<close>

definition libc_realloc :: "(u64 \<Rightarrow> bool) \<Rightarrow> 'a::zero allocate" where
  "libc_realloc ok p n =
     (if ok n
      then (let b = (case p of None \<Rightarrow> [] | Some b \<Rightarrow> b)
            in Some (take (unat n) b @ replicate (unat n - length b) 0))
      else None)"

definition dbuf_init2 :: "realloc_fn \<Rightarrow> dynbuf" where
  "dbuf_init2 f = \<lparr>db_buf = None, db_size = 0, db_allocated = 0, db_error = False,
                  db_realloc = Some f\<rparr>"

text \<open>
  The result pairs the C return value (\<open>0\<close> or \<open>-1\<close>) with the new buffer; the whole
  result is \<open>None\<close> when the code would call a null function pointer or leave its
  memory objects.
\<close>

definition dbuf_claim :: "dynbuf \<Rightarrow> u64 \<Rightarrow> (int \<times> dynbuf) option" where
  "dbuf_claim s len =
     (let new_size = db_size s + len in
      if new_size < len then Some (-1, s)
      else if new_size > db_allocated s then
        if db_error s then Some (-1, s)
        else (let size = db_allocated s + db_allocated s div 2 in
          if size < db_allocated s then Some (-1, s)
          else (let new_size' = (if size > new_size then size else new_size) in
            case db_realloc s of
              None \<Rightarrow> None
            | Some f \<Rightarrow>
                (case f (db_buf s) new_size' of
                   None \<Rightarrow> Some (-1, s\<lparr>db_error := True\<rparr>)
                 | Some b \<Rightarrow> Some (0, s\<lparr>db_buf := Some b, db_allocated := new_size'\<rparr>))))
      else Some (0, s))"

definition db_bytes :: "dynbuf \<Rightarrow> u8 list" where
  "db_bytes s = (case db_buf s of None \<Rightarrow> [] | Some b \<Rightarrow> b)"

text \<open>The bytes stored so far, the buffer's abstract value.\<close>

definition db_contents :: "dynbuf \<Rightarrow> u8 list" where
  "db_contents s = take (unat (db_size s)) (db_bytes s)"

text \<open>Writing \<open>xs\<close> at \<open>s->buf + s->size\<close> and advancing the size.\<close>

definition dbuf_store :: "dynbuf \<Rightarrow> u8 list \<Rightarrow> dynbuf option" where
  "dbuf_store s xs = do {
     b \<leftarrow> blit (db_bytes s) (unat (db_size s)) xs;
     Some (s\<lparr>db_buf := (if xs = [] then db_buf s else Some b),
             db_size := db_size s + of_nat (length xs)\<rparr>) }"

text \<open>The claim made by the callers only when the free room is too small.\<close>

definition dbuf_room :: "dynbuf \<Rightarrow> u64 \<Rightarrow> (int \<times> dynbuf) option" where
  "dbuf_room s len =
     (if db_allocated s - db_size s < len then dbuf_claim s len else Some (0, s))"

definition dbuf_put :: "dynbuf \<Rightarrow> u8 list \<Rightarrow> (int \<times> dynbuf) option" where
  "dbuf_put s data = do {
     (r, s') \<leftarrow> dbuf_room s (of_nat (length data));
     if r \<noteq> 0 then Some (-1, s')
     else map_option (Pair 0) (dbuf_store s' data) }"

text \<open>
  \<open>dbuf_put_self\<close> copies a range of the buffer to its end with \<open>memcpy\<close>, whose
  behaviour is undefined when source and destination overlap.
\<close>

definition dbuf_put_self :: "dynbuf \<Rightarrow> u64 \<Rightarrow> u64 \<Rightarrow> (int \<times> dynbuf) option" where
  "dbuf_put_self s offset len = do {
     (r, s') \<leftarrow> dbuf_room s len;
     if r \<noteq> 0 then Some (-1, s')
     else if len \<noteq> 0 \<and> unat offset + unat len > unat (db_size s') \<and>
             unat (db_size s') + unat len > unat offset then None
     else do {
       xs \<leftarrow> grab (db_bytes s') (unat offset) (unat len);
       map_option (Pair 0) (dbuf_store s' xs) } }"

text \<open>\<open>dbuf_putc\<close>, \<open>dbuf_put_u16/u32/u64\<close>: the inline fast path and the slow call.\<close>

definition dbuf_put_inline :: "dynbuf \<Rightarrow> u8 list \<Rightarrow> (int \<times> dynbuf) option" where
  "dbuf_put_inline s xs =
     (if db_allocated s - db_size s < of_nat (length xs) then dbuf_put s xs
      else map_option (Pair 0) (dbuf_store s xs))"

definition dbuf_putc :: "dynbuf \<Rightarrow> u8 \<Rightarrow> (int \<times> dynbuf) option" where
  "dbuf_putc s c = dbuf_put_inline s [c]"

definition dbuf_put_u16 :: "dynbuf \<Rightarrow> u16 \<Rightarrow> (int \<times> dynbuf) option" where
  "dbuf_put_u16 s v = dbuf_put_inline s (le_bytes 2 v)"

definition dbuf_put_u32 :: "dynbuf \<Rightarrow> u32 \<Rightarrow> (int \<times> dynbuf) option" where
  "dbuf_put_u32 s v = dbuf_put_inline s (le_bytes 4 v)"

definition dbuf_put_u64 :: "dynbuf \<Rightarrow> u64 \<Rightarrow> (int \<times> dynbuf) option" where
  "dbuf_put_u64 s v = dbuf_put_inline s (le_bytes 8 v)"

definition dbuf_putstr :: "dynbuf \<Rightarrow> u8 list \<Rightarrow> (int \<times> dynbuf) option" where
  "dbuf_putstr s str = do {
     n \<leftarrow> c_strlen str;
     xs \<leftarrow> grab str 0 n;
     dbuf_put s xs }"

text \<open>
  \<open>dbuf_printf\<close> on the text \<open>out\<close> that \<open>vsnprintf\<close> formats: short texts go through a
  128-byte local buffer, longer ones are formatted in place with their terminator.
\<close>

definition dbuf_printf :: "dynbuf \<Rightarrow> u8 list \<Rightarrow> (int \<times> dynbuf) option" where
  "dbuf_printf s out =
     (if length out < 128 then dbuf_put s out
      else do {
        (r, s') \<leftarrow> dbuf_claim s (of_nat (length out) + 1);
        if r \<noteq> 0 then Some (-1, s')
        else do {
          b \<leftarrow> blit (db_bytes s') (unat (db_size s'))
                 (take (unat (db_allocated s' - db_size s') - 1) out @ [0]);
          Some (0, s'\<lparr>db_buf := Some b, db_size := db_size s' + of_nat (length out)\<rparr>) } })"

definition dbuf_free :: "dynbuf \<Rightarrow> dynbuf option" where
  "dbuf_free s =
     (if db_buf s \<noteq> None \<and> db_realloc s = None then None
      else Some \<lparr>db_buf = None, db_size = 0, db_allocated = 0, db_error = False,
                 db_realloc = None\<rparr>)"

subsection \<open>The buffer as a list of bytes\<close>

definition db_ok :: "dynbuf \<Rightarrow> bool" where
  "db_ok s \<longleftrightarrow> db_size s \<le> db_allocated s \<and> length (db_bytes s) = unat (db_allocated s)"

text \<open>What a reallocation function, counting in cells, promises its client.\<close>

locale allocator =
  fixes ralloc :: "'a allocate"
  assumes ralloc_size: "ralloc p n = Some b \<Longrightarrow> length b = unat n"
    and ralloc_keeps:
      "ralloc p n = Some b \<Longrightarrow> k \<le> unat n \<Longrightarrow>
       k \<le> length (case p of None \<Rightarrow> [] | Some a \<Rightarrow> a) \<Longrightarrow>
       take k b = take k (case p of None \<Rightarrow> [] | Some a \<Rightarrow> a)"

locale buf_allocator = allocator ralloc for ralloc :: realloc_fn
begin

lemma claim_cases:
  assumes "db_ok s" "db_realloc s = Some ralloc"
  obtains
    (fail) s' where "dbuf_claim s len = Some (-1, s')" "db_contents s' = db_contents s"
      "db_ok s'" "db_realloc s' = Some ralloc" "db_size s' = db_size s"
      "db_error s' \<or> unat (db_size s) + unat len \<ge> 2 ^ 64 \<or>
       unat (db_allocated s) + unat (db_allocated s) div 2 \<ge> 2 ^ 64"
  | (room) s' where "dbuf_claim s len = Some (0, s')" "db_contents s' = db_contents s"
      "db_ok s'" "db_realloc s' = Some ralloc" "db_size s' = db_size s"
      "unat (db_size s) + unat len \<le> unat (db_allocated s')"
      "db_error s' = db_error s"
proof -
  let ?new = "db_size s + len"
  have size: "unat (db_size s) \<le> unat (db_allocated s)"
    and bytes: "length (db_bytes s) = unat (db_allocated s)"
    using assms(1) by (auto simp: db_ok_def word_le_nat_alt)
  show thesis
  proof (cases "2 ^ 64 \<le> unat (db_size s) + unat len")
    case True
    then have "dbuf_claim s len = Some (-1, s)"
      by (simp add: dbuf_claim_def add_wraps_iff)
    with True assms show thesis by (intro fail [of s]) auto
  next
    case False
    then have new: "unat ?new = unat (db_size s) + unat len" "\<not> ?new < len"
      by (simp_all add: unat_add_no_wrap add_wraps_iff)
    show thesis
    proof (cases "?new > db_allocated s")
      case gt: True
      let ?g = "db_allocated s + db_allocated s div 2"
      have half: "unat (db_allocated s div 2) = unat (db_allocated s) div 2"
        by (simp add: unat_div)
      have "?g < db_allocated s \<longleftrightarrow> 2 ^ LENGTH(64) \<le> unat (db_allocated s div 2) + unat (db_allocated s)"
        by (subst add.commute) (rule add_wraps_iff)
      then have wraps: "?g < db_allocated s \<longleftrightarrow>
          2 ^ 64 \<le> unat (db_allocated s) + unat (db_allocated s) div 2"
        unfolding half by (simp only: len_num0 len_num1 len_bit0 len_bit1 add.commute) simp
      show thesis
      proof (cases "db_error s \<or> ?g < db_allocated s")
        case True
        have "db_error s \<or> unat (db_allocated s) + unat (db_allocated s) div 2 \<ge> 2 ^ 64"
          using True wraps by blast
        moreover have "dbuf_claim s len = Some (-1, s)"
          using True gt new by (auto simp: dbuf_claim_def Let_def)
        ultimately show thesis using assms by (intro fail [of s]) auto
      next
        case no: False
        define sz where "sz = (if ?g > ?new then ?g else ?new)"
        have eq: "dbuf_claim s len =
          (case ralloc (db_buf s) sz of
             None \<Rightarrow> Some (-1, s\<lparr>db_error := True\<rparr>)
           | Some b \<Rightarrow> Some (0, s\<lparr>db_buf := Some b, db_allocated := sz\<rparr>))"
          using no gt new assms(2) by (simp add: dbuf_claim_def Let_def sz_def cong: option.case_cong)
        have sz: "unat ?new \<le> unat sz"
          by (auto simp: sz_def word_less_nat_alt)
        show thesis
        proof (cases "ralloc (db_buf s) sz")
          case None
          with eq assms show thesis
            by (intro fail [of "s\<lparr>db_error := True\<rparr>"])
               (auto simp: db_contents_def db_bytes_def db_ok_def)
        next
          case (Some b)
          let ?s = "s\<lparr>db_buf := Some b, db_allocated := sz\<rparr>"
          have "take (unat (db_size s)) b = db_contents s"
            using ralloc_keeps [OF Some, of "unat (db_size s)"] sz new(1) size bytes
            by (simp add: db_contents_def db_bytes_def)
          moreover have "length b = unat sz" by (rule ralloc_size [OF Some])
          ultimately show thesis
            using eq Some assms sz new(1)
            by (intro room [of ?s])
               (auto simp: db_contents_def db_bytes_def db_ok_def word_le_nat_alt)
        qed
      qed
    next
      case le: False
      then have "dbuf_claim s len = Some (0, s)"
        using new by (simp add: dbuf_claim_def Let_def)
      with le new assms show thesis
        by (intro room [of s]) (auto simp: word_less_nat_alt)
    qed
  qed
qed

lemma room_cases:
  assumes "db_ok s" "db_realloc s = Some ralloc"
  obtains
    (fail) s' where "dbuf_room s len = Some (-1, s')" "db_contents s' = db_contents s"
      "db_ok s'" "db_realloc s' = Some ralloc"
  | (room) s' where "dbuf_room s len = Some (0, s')" "db_contents s' = db_contents s"
      "db_ok s'" "db_realloc s' = Some ralloc" "db_size s' = db_size s"
      "unat (db_size s) + unat len \<le> unat (db_allocated s')"
proof (cases "db_allocated s - db_size s < len")
  case True
  then have "dbuf_room s len = dbuf_claim s len" by (simp add: dbuf_room_def)
  then show thesis
    by (cases rule: claim_cases [OF assms, of len]) (auto intro: fail room)
next
  case False
  have "unat (db_allocated s - db_size s) = unat (db_allocated s) - unat (db_size s)"
    "unat (db_size s) \<le> unat (db_allocated s)"
    using assms(1) by (auto simp: db_ok_def unat_sub_le word_le_nat_alt)
  with False have "unat (db_size s) + unat len \<le> unat (db_allocated s)"
    by (simp add: word_less_nat_alt)
  with False assms show thesis by (intro room [of s]) (auto simp: dbuf_room_def)
qed

lemma store_room:
  assumes "db_ok s" "unat (db_size s) + length xs \<le> unat (db_allocated s)"
  shows "\<exists>s'. dbuf_store s xs = Some s' \<and> db_ok s' \<and> db_realloc s' = db_realloc s \<and>
              db_contents s' = db_contents s @ xs"
proof -
  have bytes: "length (db_bytes s) = unat (db_allocated s)"
    and size: "unat (db_size s) \<le> unat (db_allocated s)"
    using assms(1) by (auto simp: db_ok_def word_le_nat_alt)
  have lt: "unat (db_size s) + length xs < 2 ^ 64"
    using assms(2) unsigned_less [of "db_allocated s", where 'a = nat] by simp
  have sz: "unat (db_size s + of_nat (length xs)) = unat (db_size s) + length xs"
    using lt by (subst unat_add_no_wrap) (auto simp: unsigned_of_nat take_bit_nat_eq_self)
  let ?b = "take (unat (db_size s)) (db_bytes s) @ xs @
            drop (unat (db_size s) + length xs) (db_bytes s)"
  let ?s = "s\<lparr>db_buf := (if xs = [] then db_buf s else Some ?b),
              db_size := db_size s + of_nat (length xs)\<rparr>"
  have "dbuf_store s xs = Some ?s"
    using assms(2) bytes by (simp add: dbuf_store_def blit_def)
  moreover have "db_bytes ?s = ?b"
    by (auto simp: db_bytes_def)
  then have "db_ok ?s" "db_contents ?s = db_contents s @ xs"
    using assms(2) bytes size sz by (auto simp: db_ok_def db_contents_def word_le_nat_alt)
  ultimately show ?thesis by simp
qed

text \<open>
  \<open>dbuf_put\<close> refines list append: it never leaves its memory, and it either appends
  exactly \<open>data\<close> and returns 0, or returns -1 with the contents unchanged.
\<close>

lemma put_appends:
  assumes "db_ok s" "db_realloc s = Some ralloc" "length data < 2 ^ 64"
  shows "\<exists>r s'. dbuf_put s data = Some (r, s') \<and> db_ok s' \<and> db_realloc s' = Some ralloc \<and>
           (r = 0 \<and> db_contents s' = db_contents s @ data \<or>
            r = -1 \<and> db_contents s' = db_contents s)"
proof (cases rule: room_cases [OF assms(1,2), of "of_nat (length data)"])
  case (1 s')
  then show ?thesis by (simp add: dbuf_put_def)
next
  case room: (2 s')
  have "unat (of_nat (length data) :: u64) = length data"
    using assms(3) by (simp add: unsigned_of_nat take_bit_nat_eq_self)
  with room have fits: "unat (db_size s') + length data \<le> unat (db_allocated s')" by simp
  from store_room [OF room(3) fits] obtain s'' where
    "dbuf_store s' data = Some s''" "db_ok s''" "db_realloc s'' = db_realloc s'"
    "db_contents s'' = db_contents s' @ data" by blast
  with room show ?thesis by (simp add: dbuf_put_def)
qed

lemma put_self_appends:
  assumes "db_ok s" "db_realloc s = Some ralloc"
    and "unat offset + unat len \<le> unat (db_size s)"
  shows "\<exists>r s'. dbuf_put_self s offset len = Some (r, s') \<and> db_ok s' \<and>
           (r = 0 \<and> db_contents s' =
              db_contents s @ take (unat len) (drop (unat offset) (db_contents s)) \<or>
            r = -1 \<and> db_contents s' = db_contents s)"
proof (cases rule: room_cases [OF assms(1,2), of len])
  case (1 s')
  then show ?thesis by (simp add: dbuf_put_self_def)
next
  case room: (2 s')
  let ?xs = "take (unat len) (drop (unat offset) (db_bytes s'))"
  have bytes: "length (db_bytes s') = unat (db_allocated s')"
    using room(3) by (simp add: db_ok_def)
  have len: "length ?xs = unat len"
    using room(5,6) assms(3) bytes by simp
  have "?xs = take (unat len) (drop (unat offset) (db_contents s'))"
    using room(5) assms(3) by (simp add: db_contents_def drop_take min_def)
  moreover from store_room [OF room(3), of ?xs] room(5,6) len obtain s'' where
    "dbuf_store s' ?xs = Some s''" "db_ok s''" "db_contents s'' = db_contents s' @ ?xs"
    by auto
  moreover have "grab (db_bytes s') (unat offset) (unat len) = Some ?xs"
    using room(5,6) assms(3) bytes by (simp add: grab_def)
  ultimately show ?thesis
    using room assms(3) by (simp add: dbuf_put_self_def)
qed

lemma printf_appends:
  assumes "db_ok s" "db_realloc s = Some ralloc" "length out < 2 ^ 64 - 1"
  shows "\<exists>r s'. dbuf_printf s out = Some (r, s') \<and> db_ok s' \<and>
           (r = 0 \<and> db_contents s' = db_contents s @ out \<or>
            r = -1 \<and> db_contents s' = db_contents s)"
proof (cases "length out < 128")
  case True
  with put_appends [OF assms(1,2), of out] show ?thesis
    by (auto simp: dbuf_printf_def)
next
  case False
  have n: "unat (of_nat (length out) :: u64) = length out"
    using assms(3) by (simp add: unsigned_of_nat take_bit_nat_eq_self)
  have n1: "unat (of_nat (length out) + 1 :: u64) = length out + 1"
    using assms(3) n by (subst unat_add_no_wrap) auto
  show ?thesis
  proof (cases rule: claim_cases [OF assms(1,2), of "of_nat (length out) + 1"])
    case (1 s')
    with False show ?thesis by (simp add: dbuf_printf_def)
  next
    case claimed: (2 s')
    have fits: "unat (db_size s') + (length out + 1) \<le> unat (db_allocated s')"
      using claimed(5,6) n1 by simp
    have free: "unat (db_allocated s' - db_size s') = unat (db_allocated s') - unat (db_size s')"
      using claimed(3) by (simp add: db_ok_def unat_sub_le)
    have lt: "unat (db_size s') + length out < 2 ^ 64"
      using fits unsigned_less [of "db_allocated s'", where 'a = nat] by simp
    have sz: "unat (db_size s' + of_nat (length out)) = unat (db_size s') + length out"
      using lt n by (subst unat_add_no_wrap) auto
    have all: "take (unat (db_allocated s' - db_size s') - 1) out = out"
      using fits free by simp
    have bytes: "length (db_bytes s') = unat (db_allocated s')"
      using claimed(3) by (simp add: db_ok_def)
    let ?b = "take (unat (db_size s')) (db_bytes s') @ (out @ [0]) @
              drop (unat (db_size s') + (length out + 1)) (db_bytes s')"
    let ?s = "s'\<lparr>db_buf := Some ?b, db_size := db_size s' + of_nat (length out)\<rparr>"
    have "dbuf_printf s out = Some (0, ?s)"
      using False claimed(1) all fits bytes by (simp add: dbuf_printf_def blit_def)
    moreover have "db_bytes ?s = ?b" by (simp add: db_bytes_def)
    then have "db_ok ?s" "db_contents ?s = db_contents s' @ out"
      using fits bytes sz by (auto simp: db_ok_def db_contents_def word_le_nat_alt)
    ultimately show ?thesis using claimed(2) by simp
  qed
qed

end

text \<open>The C library's \<open>realloc\<close>, the default allocator of \<open>dbuf_init\<close>, keeps the promise.\<close>

interpretation libc: allocator "libc_realloc ok" for ok
proof unfold_locales
  fix p n b
  assume "libc_realloc ok p n = Some b"
  then show "length b = unat n"
    by (auto simp: libc_realloc_def Let_def split: if_splits)
next
  fix p n b k
  assume "libc_realloc ok p n = Some b" "k \<le> unat n"
    "k \<le> length (case p of None \<Rightarrow> [] | Some a \<Rightarrow> a)"
  then show "take k b = take k (case p of None \<Rightarrow> [] | Some a \<Rightarrow> a)"
    by (auto simp: libc_realloc_def Let_def min_def split: if_splits)
qed

interpretation libc_buf: buf_allocator "libc_realloc ok" for ok ..

text \<open>The inline fast paths of \<open>cutils.h\<close> do what the out-of-line function does.\<close>

lemma dbuf_put_inline_eq: "dbuf_put_inline s xs = dbuf_put s xs"
  by (simp add: dbuf_put_inline_def dbuf_put_def dbuf_room_def)

lemma db_ok_init [simp]: "db_ok (dbuf_init2 f)" "db_contents (dbuf_init2 f) = []"
  by (simp_all add: dbuf_init2_def db_ok_def db_contents_def db_bytes_def)

text \<open>A sequence of \<open>dbuf_put\<close> calls whose return values the caller ignores.\<close>

fun dbuf_put_all :: "dynbuf \<Rightarrow> u8 list list \<Rightarrow> dynbuf option" where
  "dbuf_put_all s [] = Some s"
| "dbuf_put_all s (d # ds) = do { (r, s') \<leftarrow> dbuf_put s d; dbuf_put_all s' ds }"

section \<open>Byte order, surrogates, hexadecimal digits\<close>

definition bswap16 :: "u16 \<Rightarrow> u16" where
  "bswap16 x = drop_bit 8 x OR push_bit 8 x"

definition bswap32 :: "u32 \<Rightarrow> u32" where
  "bswap32 v =
     drop_bit 24 (v AND 0xff000000) OR drop_bit 8 (v AND 0x00ff0000) OR
     push_bit 8 (v AND 0x0000ff00) OR push_bit 24 (v AND 0x000000ff)"

definition bswap64 :: "u64 \<Rightarrow> u64" where
  "bswap64 v =
     drop_bit (7 * 8) (v AND push_bit (7 * 8) 0xff) OR
     drop_bit (5 * 8) (v AND push_bit (6 * 8) 0xff) OR
     drop_bit (3 * 8) (v AND push_bit (5 * 8) 0xff) OR
     drop_bit (1 * 8) (v AND push_bit (4 * 8) 0xff) OR
     push_bit (1 * 8) (v AND push_bit (3 * 8) 0xff) OR
     push_bit (3 * 8) (v AND push_bit (2 * 8) 0xff) OR
     push_bit (5 * 8) (v AND push_bit (1 * 8) 0xff) OR
     push_bit (7 * 8) (v AND push_bit (0 * 8) 0xff)"

definition is_surrogate :: "u32 \<Rightarrow> bool" where
  "is_surrogate c \<longleftrightarrow> drop_bit 11 c = drop_bit 11 0xD800"

definition is_hi_surrogate :: "u32 \<Rightarrow> bool" where
  "is_hi_surrogate c \<longleftrightarrow> drop_bit 10 c = drop_bit 10 0xD800"

definition is_lo_surrogate :: "u32 \<Rightarrow> bool" where
  "is_lo_surrogate c \<longleftrightarrow> drop_bit 10 c = drop_bit 10 0xDC00"

definition get_hi_surrogate :: "u32 \<Rightarrow> u32" where
  "get_hi_surrogate c = drop_bit 10 c - drop_bit 10 0x10000 + 0xD800"

definition get_lo_surrogate :: "u32 \<Rightarrow> u32" where
  "get_lo_surrogate c = (c AND 0x3FF) OR 0xDC00"

definition from_surrogate :: "u32 \<Rightarrow> u32 \<Rightarrow> u32" where
  "from_surrogate hi lo = 0x10000 + 0x400 * (hi - 0xD800) + (lo - 0xDC00)"

definition from_hex :: "int \<Rightarrow> int" where
  "from_hex c =
     (if 48 \<le> c \<and> c \<le> 57 then c - 48
      else if 65 \<le> c \<and> c \<le> 70 then c - 65 + 10
      else if 97 \<le> c \<and> c \<le> 102 then c - 97 + 10
      else -1)"

text \<open>A byte swap reverses the bytes of its argument.\<close>

lemma le_bytes_bswap16: "le_bytes 2 (bswap16 v) = rev (le_bytes 2 v)"
proof -
  have e: "le_bytes 2 w = [ucast w, ucast (drop_bit 8 w)]" for w :: u16
    by (simp add: eval_nat_numeral)
  have p: "ucast (bswap16 v) = (ucast (drop_bit 8 v) :: u8)" 
   "ucast (drop_bit 8 (bswap16 v)) = (ucast v :: u8)"
   unfolding bswap16_def by (rule bit_word_eqI; auto simp: bit_simps simp del: push_bit_numeral)+
  show ?thesis by (simp add: e p)
qed

lemma le_bytes_bswap32: "le_bytes 4 (bswap32 v) = rev (le_bytes 4 v)"
proof -
  have m: "(0xff000000::u32) = push_bit 24 (mask 8)" "(0xff0000::u32) = push_bit 16 (mask 8)"
    "(0xff00::u32) = push_bit 8 (mask 8)" "(0xff::u32) = mask 8"
    by (simp_all add: mask_eq_exp_minus_1)
  have e: "le_bytes 4 w = [ucast w, ucast (drop_bit 8 w), ucast (drop_bit 16 w),
      ucast (drop_bit 24 w)]" for w :: u32
    by (simp add: eval_nat_numeral)
  show ?thesis
    unfolding e bswap32_def m by (auto intro!: bit_word_eqI simp: bit_simps)
qed

lemma le_bytes_bswap64: "le_bytes 8 (bswap64 v) = rev (le_bytes 8 v)"
proof -
  have m: "(0xff::u64) = mask 8"
    by (simp_all add: mask_eq_exp_minus_1)
  have e: "le_bytes 8 w = [ucast w, ucast (drop_bit 8 w), ucast (drop_bit 16 w), ucast (drop_bit 24 w),
     ucast (drop_bit 32 w), ucast (drop_bit 40 w), ucast (drop_bit 48 w), ucast (drop_bit 56 w)]" for w :: u64
    by (simp add: eval_nat_numeral)
  show ?thesis unfolding e bswap64_def m
  by (auto intro!: bit_word_eqI simp: bit_simps)
qed

lemma is_surrogate_iff: "is_surrogate c \<longleftrightarrow> is_hi_surrogate c \<or> is_lo_surrogate c"
proof -
  have "is_hi_surrogate c \<longleftrightarrow> unat c div 1024 = 54"
    "is_lo_surrogate c \<longleftrightarrow> unat c div 1024 = 55"
    "is_surrogate c \<longleftrightarrow> unat c div 2048 = 27"
    by (simp_all add: is_hi_surrogate_def is_lo_surrogate_def is_surrogate_def word_unat_eq_iff unat_drop_bit_div)
  moreover have "unat c div 2048 = unat c div 1024 div 2"
    by (simp flip: div_mult2_eq)
  moreover have "k div 2 = 27 \<longleftrightarrow> k = 54 \<or> k = 55" for k :: nat by arith
  ultimately show ?thesis by simp
qed

lemma surrogate_values:
  assumes "0x10000 \<le> c" "c < 0x110000"
  shows "unat (get_hi_surrogate c) = unat c div 1024 - 64 + 55296"
    "unat (get_lo_surrogate c) = unat c mod 1024 + 56320"
proof -
  have a: "unat c \<ge> 65536" "unat c < 1114112" using assms by (auto simp: word_le_nat_alt word_less_nat_alt)
  show "unat (get_hi_surrogate c) = unat c div 1024 - 64 + 55296"
    using a unfolding get_hi_surrogate_def
    by (simp add: unat_word_ariths unat_sub_if_size unat_drop_bit_div word_size)
  have "(c AND 0x3FF) = take_bit 10 c" by (simp add: take_bit_eq_mask mask_eq_exp_minus_1)
  moreover have "unat (take_bit 10 c) < 2 ^ 10"
    using take_bit_nat_less_exp [of 10 "unat c"] by (simp only: unsigned_take_bit_eq)
  ultimately have "get_lo_surrogate c = take_bit 10 c + 0xDC00"
    using or_high_low[of "take_bit 10 c" 10 55] by (simp add: get_lo_surrogate_def)
  then show "unat (get_lo_surrogate c) = unat c mod 1024 + 56320"
    by (simp add: unat_word_ariths unsigned_take_bit_eq take_bit_eq_mod)
qed

lemma surrogate_pair:
  assumes "0x10000 \<le> c" "c < 0x110000"
  shows "is_hi_surrogate (get_hi_surrogate c)" "is_lo_surrogate (get_lo_surrogate c)" "from_surrogate (get_hi_surrogate c) (get_lo_surrogate c) = c"
proof -
  have a: "unat c \<ge> 65536" "unat c < 1114112" using assms by (auto simp: word_le_nat_alt word_less_nat_alt)
  note hi = surrogate_values(1) [OF assms] and lo = surrogate_values(2) [OF assms]
  show "is_hi_surrogate (get_hi_surrogate c)" "is_lo_surrogate (get_lo_surrogate c)"
    using a by (simp_all add: is_hi_surrogate_def is_lo_surrogate_def word_unat_eq_iff unat_drop_bit_div hi lo)
  show "from_surrogate (get_hi_surrogate c) (get_lo_surrogate c) = c"
    unfolding from_surrogate_def word_unat_eq_iff
    using a by (simp add: unat_word_ariths unat_sub_if_size hi lo word_size)
qed

end
