(* ===== verification/Cutils_Proofs.thy ===== *)
theory Cutils_Proofs
  imports Cutils
begin

text \<open>
  The properties of \<open>cutils\<close>: bounded C string copies, prefix and suffix tests, the
  growable buffer as a list of bytes with a sticky error flag, byte swaps and
  surrogate pairs.
\<close>

section \<open>Strings\<close>

text \<open>
  \<open>pstrcpy\<close> and \<open>pstrcat\<close> write at most \<open>buf_size\<close> bytes, always leave a
  terminated string, and that string is the source (or the concatenation) truncated
  to \<open>buf_size - 1\<close> characters.
\<close>

theorem pstrcpy_pstrcat_bounded:
  assumes "is_cstr a buf" "is_cstr s str" "length a < nat n" "nat n \<le> length buf"
  shows "(\<exists>m. pstrcpy buf n str = Some m \<and> length m = length buf \<and>
              is_cstr (take (nat n - 1) s) m \<and> drop (nat n) m = drop (nat n) buf) \<and>
         (\<exists>m. pstrcat buf n str = Some m \<and> length m = length buf \<and>
              is_cstr (take (nat n - 1) (a @ s)) m)"
  using pstrcpy_result [OF assms(2), of n buf] pstrcat_result [OF assms] assms(3,4) by simp

lemma pstrcpy_pstrcat_bounded_witness:
  "\<exists>m. pstrcat [104, 105, 0, 9, 9] 4 [33, 33, 33, 0] = Some m \<and> is_cstr [104, 105, 33] m"
  using pstrcpy_pstrcat_bounded [of "[104, 105]" "[104, 105, 0, 9, 9]" "[33, 33, 33]" "[33, 33, 33, 0]" 4]
  by (auto simp: is_cstr_Cons)

text \<open>
  on terminated strings \<open>strstart\<close> returns the rest of the string exactly when the
  second argument is a prefix, and \<open>has_suffix\<close> is true exactly when it is a suffix.
\<close>

theorem strstart_has_suffix_correct:
  assumes "is_cstr s str" "is_cstr v val"
  shows "strstart str val =
           Some (if \<exists>t. s = v @ t then Some (drop (length v) str) else None) \<and>
         has_suffix str val = Some (\<exists>t. s = t @ v)"
  using strstart_cstr [OF assms(2,1)] has_suffix_cstr [OF assms] by simp

lemma strstart_has_suffix_correct_witness:
  "strstart [97, 98, 99, 0] [97, 0] = Some (Some [98, 99, 0]) \<and>
   has_suffix [97, 98, 99, 0] [97, 0] = Some (\<exists>t. [97, 98, 99] = t @ [97 :: u8])"
  using strstart_has_suffix_correct [of "[97, 98, 99]" "[97, 98, 99, 0]" "[97]" "[97, 0]"]
  by (auto simp: is_cstr_Cons)

section \<open>The sticky error flag of the buffer\<close>

lemma db_size_contents: "db_ok s \<Longrightarrow> unat (db_size s) = length (db_contents s)"
  by (auto simp: db_ok_def db_contents_def word_le_nat_alt)

lemma store_flag:
  "dbuf_store s xs = Some s' \<Longrightarrow> db_error s' = db_error s \<and> db_allocated s' = db_allocated s"
  by (auto simp: dbuf_store_def split: Option.bind_splits)

lemma unat_grow:
  assumes "unat a + unat a div 2 < 2 ^ 64"
  shows "unat (a + a div 2 :: u64) = unat a + unat a div 2"
  using assms by (subst unat_add_no_wrap) (simp_all add: unat_div)

lemma grow_bound:
  fixes a B :: nat
  assumes "a < B" shows "2 * (a + a div 2) \<le> 3 * B"
proof -
  have "a div 2 * 2 \<le> a" by (rule div_times_less_eq_dividend)
  with assms show ?thesis by (simp add: algebra_simps)
qed

lemma claim_flag:
  assumes claim: "dbuf_claim s len = Some (r, s')" and ok: "db_ok s"
    and small: "unat (db_size s) + unat len \<le> B" "B \<le> 2 ^ 62" "2 * unat (db_allocated s) \<le> 3 * B"
  shows "(db_error s \<longrightarrow> db_error s') \<and> (r \<noteq> 0 \<longrightarrow> db_error s') \<and> 2 * unat (db_allocated s') \<le> 3 * B"
proof -
  let ?g = "db_allocated s + db_allocated s div 2"
  have new: "unat (db_size s + len) = unat (db_size s) + unat len"
    using small by (intro unat_add_no_wrap) simp
  have g: "unat ?g = unat (db_allocated s) + unat (db_allocated s) div 2"
    using small by (intro unat_grow) simp
  have nw: "\<not> db_size s + len < len" "\<not> ?g < db_allocated s"
    by (simp_all add: word_less_nat_alt new g)
  have le: "2 * unat ?g \<le> 3 * B" if "db_allocated s < db_size s + len"
    unfolding g using that small(1) by (intro grow_bound) (simp add: word_less_nat_alt new)
  show ?thesis
  proof (cases "db_allocated s < db_size s + len")
    case False
    with claim nw small(3) show ?thesis by (auto simp: dbuf_claim_def Let_def)
  next
    case True
    have "2 * unat (if ?g > db_size s + len then ?g else db_size s + len) \<le> 3 * B"
      using le [OF True] small(1) by (simp add: new)
    with True claim nw small(3) show ?thesis
      by (auto simp: dbuf_claim_def Let_def split: if_splits option.splits)
  qed
qed

lemma put_flag:
  assumes put: "dbuf_put s data = Some (r, s')" and ok: "db_ok s"
    and small: "unat (db_size s) + length data \<le> B" "B \<le> 2 ^ 62" "2 * unat (db_allocated s) \<le> 3 * B"
  shows "(db_error s \<longrightarrow> db_error s') \<and> (r \<noteq> 0 \<longrightarrow> db_error s') \<and> 2 * unat (db_allocated s') \<le> 3 * B"
proof -
  have n: "unat (of_nat (length data) :: u64) = length data"
    using small(1,2) by (intro unat_of_nat_small) simp
  from put obtain q t where room: "dbuf_room s (of_nat (length data)) = Some (q, t)"
    and rest: "if q \<noteq> 0 then r = -1 \<and> s' = t else r = 0 \<and> dbuf_store t data = Some s'"
    by (auto simp: dbuf_put_def split: Option.bind_splits if_splits)
  have "(db_error s \<longrightarrow> db_error t) \<and> (q \<noteq> 0 \<longrightarrow> db_error t) \<and> 2 * unat (db_allocated t) \<le> 3 * B"
    using room claim_flag [OF _ ok, of "of_nat (length data)" q t B] small
    by (auto simp: dbuf_room_def n split: if_splits)
  with rest store_flag [of t data s'] show ?thesis by (auto split: if_splits)
qed

context buf_allocator begin

lemma put_all_flag:
  assumes "db_ok s" "db_realloc s = Some ralloc"
    "unat (db_size s) + length (concat ds) \<le> B" "B \<le> 2 ^ 62" "2 * unat (db_allocated s) \<le> 3 * B"
  shows "\<exists>s'. dbuf_put_all s ds = Some s' \<and> db_ok s' \<and> (db_error s \<longrightarrow> db_error s') \<and>
    (\<not> db_error s' \<longrightarrow> db_contents s' = db_contents s @ concat ds)"
  using assms
proof (induction ds arbitrary: s)
  case Nil
  then show ?case by simp
next
  case (Cons d ds)
  have "length d < 2 ^ 64" using Cons.prems(3,4) by simp
  from put_appends [OF Cons.prems(1,2) this] obtain r t where
    put: "dbuf_put s d = Some (r, t)" "db_ok t" "db_realloc t = Some ralloc"
      "r = 0 \<and> db_contents t = db_contents s @ d \<or> r = -1 \<and> db_contents t = db_contents s" by blast
  have fl: "(db_error s \<longrightarrow> db_error t) \<and> (r \<noteq> 0 \<longrightarrow> db_error t) \<and> 2 * unat (db_allocated t) \<le> 3 * B"
    by (rule put_flag [OF put(1) Cons.prems(1) _ Cons.prems(4,5)]) (use Cons.prems(3) in simp)
  have "unat (db_size t) + length (concat ds) \<le> B"
    using put(4) Cons.prems(3) db_size_contents [OF put(2)] db_size_contents [OF Cons.prems(1)] by auto
  from Cons.IH [OF put(2,3) this Cons.prems(4)] fl put show ?case by auto
qed

end

text \<open>
  C6: callers of \<open>dbuf_put\<close> may ignore its return value and look at \<open>dbuf_error\<close> once
  at the end: whatever allocations were refused on the way, no write left the buffer,
  and if the flag is clear the buffer holds every byte that was put, in order.
\<close>

theorem dbuf_error_sticky:
  assumes "length (concat ds) \<le> 2 ^ 62"
  shows "\<exists>s. dbuf_put_all (dbuf_init2 (libc_realloc ok)) ds = Some s \<and> db_ok s \<and>
    (\<not> db_error s \<longrightarrow> db_contents s = concat ds)"
proof -
  have init: "db_realloc (dbuf_init2 (libc_realloc ok)) = Some (libc_realloc ok)"
    "db_size (dbuf_init2 (libc_realloc ok)) = 0" "db_allocated (dbuf_init2 (libc_realloc ok)) = 0"
    by (simp_all add: dbuf_init2_def)
  show ?thesis
    using libc_buf.put_all_flag [OF db_ok_init(1) init(1), of ds "2 ^ 62"] assms init db_ok_init(2)
    by auto
qed

lemma dbuf_error_sticky_witness:
  "\<exists>s. dbuf_put_all (dbuf_init2 (libc_realloc (\<lambda>n. n \<le> 4))) [[1, 2], [3, 4, 5], [6]] = Some s \<and> db_ok s"
  using dbuf_error_sticky [of "[[1, 2], [3, 4, 5], [6]]" "\<lambda>n. n \<le> 4"] by auto

text \<open>
  C25: \<open>dbuf_put_self\<close> and \<open>dbuf_printf\<close> refine list append as well: they stay inside
  their memory and append exactly the copied range or the formatted text, or return
  \<open>-1\<close> and leave the contents as they were.
\<close>

theorem dbuf_put_self_printf_append:
  assumes "db_ok s" "db_realloc s = Some (libc_realloc ok)"
    "unat offset + unat len \<le> unat (db_size s)" "length out < 2 ^ 64 - 1"
  shows "(\<exists>r s'. dbuf_put_self s offset len = Some (r, s') \<and> db_ok s' \<and>
           (r = 0 \<and> db_contents s' =
              db_contents s @ take (unat len) (drop (unat offset) (db_contents s)) \<or>
            r = -1 \<and> db_contents s' = db_contents s)) \<and>
         (\<exists>r s'. dbuf_printf s out = Some (r, s') \<and> db_ok s' \<and>
           (r = 0 \<and> db_contents s' = db_contents s @ out \<or>
            r = -1 \<and> db_contents s' = db_contents s))"
  using libc_buf.put_self_appends [OF assms(1-3)] libc_buf.printf_appends [OF assms(1,2,4)] ..

lemma dbuf_put_self_printf_append_witness:
  "\<exists>r s'. dbuf_put_self \<lparr>db_buf = Some [7, 8, 0], db_size = 2, db_allocated = 3, db_error = False,
       db_realloc = Some (libc_realloc (\<lambda>_. True))\<rparr> 0 2 = Some (r, s') \<and> db_ok s'"
  using dbuf_put_self_printf_append [of "\<lparr>db_buf = Some [7, 8, 0], db_size = 2, db_allocated = 3,
      db_error = False, db_realloc = Some (libc_realloc (\<lambda>_. True))\<rparr>" "\<lambda>_. True" 0 2 "[]"]
  by (auto simp: db_ok_def db_bytes_def)

section \<open>Words\<close>

text \<open>\<open>bswap16\<close>, \<open>bswap32\<close> and \<open>bswap64\<close> reverse the bytes of their argument.\<close>

theorem bswap_reverses_bytes:
  "le_bytes 2 (bswap16 v) = rev (le_bytes 2 v) \<and>
   le_bytes 4 (bswap32 w) = rev (le_bytes 4 w) \<and>
   le_bytes 8 (bswap64 x) = rev (le_bytes 8 x)"
  by (simp only: le_bytes_bswap16 le_bytes_bswap32 le_bytes_bswap64)

text \<open>
  splitting a supplementary code point gives a high and a low surrogate that
  \<open>from_surrogate\<close> joins again, and every surrogate is a high or a low one.
\<close>

theorem surrogates_roundtrip:
  assumes "0x10000 \<le> c" "c < 0x110000"
  shows "is_hi_surrogate (get_hi_surrogate c) \<and> is_lo_surrogate (get_lo_surrogate c) \<and>
    from_surrogate (get_hi_surrogate c) (get_lo_surrogate c) = c \<and>
    (is_surrogate d \<longleftrightarrow> is_hi_surrogate d \<or> is_lo_surrogate d)"
  using surrogate_pair [OF assms] is_surrogate_iff by blast

lemma surrogates_roundtrip_witness:
  "from_surrogate (get_hi_surrogate 0x1F600) (get_lo_surrogate 0x1F600) = 0x1F600"
  using surrogates_roundtrip [of "0x1F600" 0] by simp

end
