(* ===== verification/Utf8.thy ===== *)
theory Utf8
  imports QPrelude
begin

text \<open>
  The UTF-8 encoder and decoder of \<open>src/src/deps/cutils.c\<close>: \<open>unicode_to_utf8\<close> and
  \<open>unicode_from_utf8\<close>, which handle the original 31-bit form of up to six bytes.
\<close>

section \<open>Encoding\<close>

text \<open>\<open>*q++ = (x & 0x3f) | 0x80\<close>, a continuation byte.\<close>

definition utf8_cont :: "u32 \<Rightarrow> u8" where
  "utf8_cont x = ucast ((x AND 0x3f) OR 0x80)"

text \<open>The bytes stored at \<open>buf\<close>; their number is the C return value.\<close>

definition unicode_to_utf8 :: "u32 \<Rightarrow> u8 list" where
  "unicode_to_utf8 c =
     (if c < 0x80 then [ucast c]
      else if c \<ge> 0x80000000 then []
      else
        (if c < 0x800 then [ucast (drop_bit 6 c OR 0xc0)]
         else
           (if c < 0x10000 then [ucast (drop_bit 12 c OR 0xe0)]
            else
              (if c < 0x00200000 then [ucast (drop_bit 18 c OR 0xf0)]
               else
                 (if c < 0x04000000 then [ucast (drop_bit 24 c OR 0xf8)]
                  else [ucast (drop_bit 30 c OR 0xfc), utf8_cont (drop_bit 24 c)])
                 @ [utf8_cont (drop_bit 18 c)])
              @ [utf8_cont (drop_bit 12 c)])
           @ [utf8_cont (drop_bit 6 c)])
        @ [utf8_cont c])"

section \<open>Decoding\<close>

text \<open>The \<open>switch\<close> on the first byte: the number of continuation bytes.\<close>

definition utf8_extra :: "u8 \<Rightarrow> nat option" where
  "utf8_extra c =
     (if 0xc0 \<le> c \<and> c \<le> 0xdf then Some 1
      else if 0xe0 \<le> c \<and> c \<le> 0xef then Some 2
      else if 0xf0 \<le> c \<and> c \<le> 0xf7 then Some 3
      else if 0xf8 \<le> c \<and> c \<le> 0xfb then Some 4
      else if 0xfc \<le> c \<and> c \<le> 0xfd then Some 5
      else None)"

definition utf8_min_code :: "u32 list" where
  "utf8_min_code = [0x80, 0x800, 0x10000, 0x00200000, 0x04000000]"

definition utf8_first_code_mask :: "u32 list" where
  "utf8_first_code_mask = [0x1f, 0xf, 0x7, 0x3, 0x1]"

text \<open>
  The loop over the continuation bytes.  The outer option is a read past the end of
  the object, the inner one the C result: \<open>None\<close> for -1, else the code point and the
  updated pointer.
\<close>

fun utf8_loop :: "nat \<Rightarrow> u32 \<Rightarrow> u8 list \<Rightarrow> (u32 \<times> u8 list) option option" where
  "utf8_loop 0 c p = Some (Some (c, p))"
| "utf8_loop (Suc l) c [] = None"
| "utf8_loop (Suc l) c (b # p) =
     (if b < 0x80 \<or> b \<ge> 0xc0 then Some None
      else utf8_loop l (push_bit 6 c OR ucast (b AND 0x3f)) p)"

definition unicode_from_utf8 :: "u8 list \<Rightarrow> int \<Rightarrow> (u32 \<times> u8 list) option option" where
  "unicode_from_utf8 p max_len =
     (case p of
        [] \<Rightarrow> None
      | c # p' \<Rightarrow>
          if c < 0x80 then Some (Some (ucast c, p'))
          else (case utf8_extra c of
                  None \<Rightarrow> Some None
                | Some l \<Rightarrow>
                    if int l > max_len - 1 then Some None
                    else (case utf8_loop l (ucast c AND utf8_first_code_mask ! (l - 1)) p' of
                            None \<Rightarrow> None
                          | Some None \<Rightarrow> Some None
                          | Some (Some (c', r)) \<Rightarrow>
                              if c' < utf8_min_code ! (l - 1) then Some None
                              else Some (Some (c', r)))))"

section \<open>The bytes of a code point\<close>

text \<open>The uniform description: a lead byte carrying the top bits, then \<open>l\<close> groups of six.\<close>

definition utf8_conts :: "nat \<Rightarrow> u32 \<Rightarrow> u8 list" where
  "utf8_conts l c = map (\<lambda>i. utf8_cont (drop_bit (6 * i) c)) (rev [0..<l])"

definition utf8_mark :: "nat \<Rightarrow> u32" where
  "utf8_mark l = push_bit (6 - l) (2 ^ (l + 2) - 2)"

lemma nat_1_to_5: "1 \<le> l \<Longrightarrow> l \<le> 5 \<Longrightarrow> l = 1 \<or> l = 2 \<or> l = 3 \<or> l = 4 \<or> l = (5::nat)"
  by arith

lemma utf8_conts_0 [simp]: "utf8_conts 0 c = []"
  by (simp add: utf8_conts_def)

lemma utf8_conts_Suc: "utf8_conts (Suc l) c = utf8_cont (drop_bit (6 * l) c) # utf8_conts l c"
  by (simp add: utf8_conts_def)

lemma length_utf8_conts [simp]: "length (utf8_conts l c) = l"
  by (simp add: utf8_conts_def)

lemma utf8_conts_numeral:
  "utf8_conts 1 c = [utf8_cont c]"
  "utf8_conts 2 c = [utf8_cont (drop_bit 6 c), utf8_cont c]"
  "utf8_conts 3 c = [utf8_cont (drop_bit 12 c), utf8_cont (drop_bit 6 c), utf8_cont c]"
  "utf8_conts 4 c = [utf8_cont (drop_bit 18 c), utf8_cont (drop_bit 12 c),
     utf8_cont (drop_bit 6 c), utf8_cont c]"
  "utf8_conts 5 c = [utf8_cont (drop_bit 24 c), utf8_cont (drop_bit 18 c),
     utf8_cont (drop_bit 12 c), utf8_cont (drop_bit 6 c), utf8_cont c]"
  by (simp_all add: utf8_conts_def eval_nat_numeral)

lemma utf8_mark_numeral:
  "utf8_mark 1 = 0xc0" "utf8_mark 2 = 0xe0" "utf8_mark 3 = 0xf0" "utf8_mark 4 = 0xf8"
  "utf8_mark 5 = 0xfc"
  by (simp_all add: utf8_mark_def)

lemma unicode_to_utf8_multi:
  assumes "1 \<le> l" "l \<le> 5" "utf8_min_code ! (l - 1) \<le> c" "unat c < 2 ^ (6 + 5 * l)"
  shows "unicode_to_utf8 c = ucast (drop_bit (6 * l) c OR utf8_mark l) # utf8_conts l c"
  using nat_1_to_5 [OF assms(1,2)] assms(3,4)
  by (elim disjE)
     (simp_all add: unicode_to_utf8_def utf8_min_code_def utf8_mark_numeral utf8_conts_numeral
        utf8_conts_numeral(1) [simplified] utf8_mark_numeral(1) [simplified]
        word_less_nat_alt word_le_nat_alt)

text \<open>Every code point below \<open>2 ^ 31\<close> has exactly one such length, or is below 128.\<close>

lemma utf8_length_exists:
  assumes "0x80 \<le> c" "c < 0x80000000"
  obtains l where "1 \<le> l" "l \<le> 5" "utf8_min_code ! (l - 1) \<le> c" "unat c < 2 ^ (6 + 5 * l)"
proof -
  consider "c < 0x800" | "0x800 \<le> c" "c < 0x10000" | "0x10000 \<le> c" "c < 0x200000"
    | "0x200000 \<le> c" "c < 0x4000000" | "0x4000000 \<le> c"
    by fastforce
  then show thesis
    by cases
      (rule that [of 1], use assms in \<open>simp_all add: utf8_min_code_def word_less_nat_alt\<close>,
       rule that [of 2], simp_all add: utf8_min_code_def word_less_nat_alt,
       rule that [of 3], simp_all add: utf8_min_code_def word_less_nat_alt,
       rule that [of 4], simp_all add: utf8_min_code_def word_less_nat_alt,
       rule that [of 5], use assms in \<open>simp_all add: utf8_min_code_def word_less_nat_alt\<close>)
qed

section \<open>One continuation byte\<close>

lemma unat_ucast_u8_u32: "unat (ucast (b :: u8) :: u32) = unat b"
  by (rule unat_ucast_up) simp

lemma utf8_cont_take_bit: "utf8_cont x = ucast (take_bit 6 x + 0x80)"
proof -
  have "(x AND 0x3f) = take_bit 6 x" by (simp add: take_bit_eq_mask mask_eq_exp_minus_1)
  moreover have "unat (take_bit 6 x) < 2 ^ 6"
    using take_bit_nat_less_exp [of 6 "unat x"] by (simp only: unsigned_take_bit_eq)
  ultimately show ?thesis
    using or_high_low [of "take_bit 6 x" 6 2] by (simp add: utf8_cont_def)
qed

lemma unat_utf8_cont: "unat (utf8_cont x) = unat x mod 64 + 128"
proof -
  have "unat (take_bit 6 x + 0x80) = unat x mod 64 + 128"
    by (subst unat_add_no_wrap) (simp_all only: unat_take_bit_mod, simp_all)
  then show ?thesis unfolding utf8_cont_take_bit by (simp add: unat_ucast_u8)
qed

lemma utf8_cont_range: "\<not> utf8_cont x < 0x80" "\<not> utf8_cont x \<ge> 0xc0"
  by (simp_all add: word_less_nat_alt word_le_nat_alt unat_utf8_cont)

lemma cont_payload: "ucast (b AND 0x3f :: u8) = (take_bit 6 (ucast b) :: u32)"
proof -
  have "(b AND 0x3f) = take_bit 6 b" by (simp add: take_bit_eq_mask mask_eq_exp_minus_1)
  then show ?thesis by (auto intro!: bit_word_eqI simp: bit_simps)
qed

lemma mod_64_shift: "(x + 128) mod 64 = x mod (64 :: nat)"
  using mod_mult_self1 [of x 2 64] by simp

lemma payload_utf8_cont: "(ucast (utf8_cont x AND 0x3f) :: u32) = take_bit 6 x"
  unfolding cont_payload
  by (rule word_unat_eq_iff [THEN iffD2])
     (simp only: unat_take_bit_mod unat_ucast_u8_u32 unat_utf8_cont, simp add: mod_64_shift)

text \<open>Decoding one continuation byte undoes one shift of the encoder.\<close>

lemma utf8_loop_cont:
  "utf8_loop (Suc l) (drop_bit (k + 6) c) (utf8_cont (drop_bit k c) # p) =
   utf8_loop l (drop_bit k c) p"
proof -
  have "push_bit 6 (drop_bit (k + 6) c) OR take_bit 6 (drop_bit k c) = drop_bit k c"
    by (rule bit_word_eqI) (auto simp: bit_simps)
  then show ?thesis
    by (simp add: utf8_cont_range payload_utf8_cont)
qed

lemma utf8_loop_conts:
  "utf8_loop l (drop_bit (6 * l) c) (utf8_conts l c @ r) = Some (Some (c, r))"
proof (induction l)
  case 0
  then show ?case by simp
next
  case (Suc l)
  then show ?case
    using utf8_loop_cont [of l "6 * l" c "utf8_conts l c @ r"]
    by (simp add: utf8_conts_Suc algebra_simps)
qed

text \<open>Conversely, what the loop accepts are the continuation bytes of its result.\<close>

lemma utf8_cont_unique:
  assumes "0x80 \<le> b" "b < 0xc0" "unat c < 2 ^ 26"
  defines "c' \<equiv> push_bit 6 c OR ucast (b AND 0x3f)"
  shows "utf8_cont c' = b" "drop_bit 6 c' = c" "unat c' = 64 * unat c + (unat b - 128)"
proof -
  have b: "unat b = (unat b - 128) + 128" "unat b - 128 < 64"
    using assms(1,2) by (auto simp: word_less_nat_alt word_le_nat_alt)
  have t: "unat (take_bit 6 (ucast b :: u32)) = unat b - 128"
  proof -
    have "unat b mod 64 = unat b - 128" using b mod_64_shift [of "unat b - 128"] by simp
    then show ?thesis
      by (simp only: unat_take_bit_mod unat_ucast_u8_u32) simp
  qed
  have c': "c' = take_bit 6 (ucast b) + push_bit 6 c"
    using or_high_low [of "take_bit 6 (ucast b :: u32)" 6 c] t b(2)
    by (simp add: c'_def cont_payload or.commute)
  have "unat (push_bit 6 c) = 64 * unat c"
    using assms(3) unat_push_bit_mult [of c 6] by simp
  then show u: "unat c' = 64 * unat c + (unat b - 128)"
    unfolding c' using t b assms(3) by (subst unat_add_no_wrap) simp_all
  obtain d where d: "unat b - 128 = d" "d < 64" "unat b = d + 128" using b by metis
  show "utf8_cont c' = b"
    using d by (simp add: word_unat_eq_iff unat_utf8_cont u)
  show "drop_bit 6 c' = c"
    using d by (simp add: word_unat_eq_iff unat_drop_bit_div u)
qed

lemma utf8_loop_Some:
  assumes "utf8_loop l c p = Some (Some (c', r))" "(unat c + 1) * 64 ^ l \<le> 2 ^ 32"
  shows "p = utf8_conts l c' @ r \<and> drop_bit (6 * l) c' = c \<and> unat c' < (unat c + 1) * 64 ^ l"
  using assms
proof (induction l c p arbitrary: c' r rule: utf8_loop.induct)
  case (1 c p)
  then show ?case by simp
next
  case (2 l c)
  then show ?case by simp
next
  case (3 l c b p)
  let ?c = "push_bit 6 c OR ucast (b AND 0x3f)"
  have P: "(1::nat) \<le> 64 ^ l" by simp
  from "3.prems" have b: "0x80 \<le> b" "b < 0xc0" and rec: "utf8_loop l ?c p = Some (Some (c', r))"
    by (auto simp: not_less not_le split: if_splits)
  have "(unat c + 1) * 64 \<le> (unat c + 1) * (64 * 64 ^ l)"
    using P by (intro mult_le_mono) auto
  with "3.prems"(2) have c26: "unat c < 2 ^ 26" by simp
  note uniq = utf8_cont_unique [OF b c26]
  have b': "unat b - 128 < 64" using b by (auto simp: word_less_nat_alt word_le_nat_alt)
  have grow: "(unat ?c + 1) * 64 ^ l \<le> (unat c + 1) * 64 ^ Suc l"
    unfolding uniq(3) power_Suc using b'
    by (subst mult.assoc [symmetric], intro mult_le_mono) auto
  with "3.prems"(2) have "(unat ?c + 1) * 64 ^ l \<le> 2 ^ 32" by linarith
  from "3.IH" [OF _ rec this] b
  have IH: "p = utf8_conts l c' @ r" "drop_bit (6 * l) c' = ?c" "unat c' < (unat ?c + 1) * 64 ^ l"
    by (auto simp: not_less not_le)
  have "drop_bit (6 * Suc l) c' = drop_bit 6 (drop_bit (6 * l) c')"
    by (simp add: algebra_simps)
  with IH uniq grow show ?case by (auto simp: utf8_conts_Suc)
qed

section \<open>The lead byte\<close>

lemma utf8_mark_nat: "1 \<le> l \<Longrightarrow> l \<le> 5 \<Longrightarrow> unat (utf8_mark l) = 256 - 2 ^ (7 - l)"
  by (drule (1) nat_1_to_5)
     (elim disjE; simp add: utf8_mark_numeral utf8_mark_numeral(1) [simplified])

text \<open>The first-byte table row by row: range, mask and payload width \<open>6 - l\<close>.\<close>

lemma utf8_extra_iff:
  "utf8_extra b = Some l \<longleftrightarrow>
   1 \<le> l \<and> l \<le> 5 \<and> unat (utf8_mark l) \<le> unat b \<and> unat b < unat (utf8_mark l) + 2 ^ (6 - l)"
proof
  assume "utf8_extra b = Some l"
  then show "1 \<le> l \<and> l \<le> 5 \<and> unat (utf8_mark l) \<le> unat b \<and> unat b < unat (utf8_mark l) + 2 ^ (6 - l)"
    by (auto simp: utf8_extra_def word_le_nat_alt utf8_mark_numeral
        utf8_mark_numeral(1) [simplified] split: if_splits)
next
  assume a: "1 \<le> l \<and> l \<le> 5 \<and> unat (utf8_mark l) \<le> unat b \<and> unat b < unat (utf8_mark l) + 2 ^ (6 - l)"
  then have "l = 1 \<or> l = 2 \<or> l = 3 \<or> l = 4 \<or> l = 5" by (intro nat_1_to_5) auto
  with a show "utf8_extra b = Some l"
    by (elim disjE) (simp_all add: utf8_extra_def word_le_nat_alt utf8_mark_numeral
        utf8_mark_numeral(1) [simplified])
qed

lemma first_code_mask: "1 \<le> l \<Longrightarrow> l \<le> 5 \<Longrightarrow> utf8_first_code_mask ! (l - 1) = mask (6 - l)"
  by (drule (1) nat_1_to_5) (elim disjE; simp add: utf8_first_code_mask_def mask_eq_exp_minus_1)

lemma utf8_mark_mod:
  assumes "1 \<le> l" "l \<le> 5" "x < 2 ^ (6 - l)"
  shows "(x + unat (utf8_mark l)) mod 2 ^ (6 - l) = x"
proof -
  have "unat (utf8_mark l) mod 2 ^ (6 - l) = 0"
    using nat_1_to_5 [OF assms(1,2)]
    by (elim disjE) (simp_all add: utf8_mark_numeral utf8_mark_numeral(1) [simplified])
  then have "(x + unat (utf8_mark l)) mod 2 ^ (6 - l) = x mod 2 ^ (6 - l)"
    by (metis add_0_right mod_add_right_eq)
  with assms(3) show ?thesis by simp
qed

lemma lead_byte:
  fixes x :: u32
  assumes "1 \<le> l" "l \<le> 5" "unat x < 2 ^ (6 - l)"
  shows "unat (ucast (x OR utf8_mark l) :: u8) = unat x + unat (utf8_mark l)"
    and "ucast (ucast (x OR utf8_mark l) :: u8) AND utf8_first_code_mask ! (l - 1) = x"
proof -
  have "x OR utf8_mark l = x + utf8_mark l"
    using or_high_low [OF assms(3), of "2 ^ (l + 2) - 2"] by (simp add: utf8_mark_def)
  moreover have lt: "unat x + unat (utf8_mark l) < 256"
    using nat_1_to_5 [OF assms(1,2)] assms(3)
    by (elim disjE) (simp_all add: utf8_mark_numeral utf8_mark_numeral(1) [simplified])
  ultimately have or: "unat (x OR utf8_mark l) = unat x + unat (utf8_mark l)"
    by (simp add: unat_add_no_wrap)
  with lt show u: "unat (ucast (x OR utf8_mark l) :: u8) = unat x + unat (utf8_mark l)"
    by (simp add: unat_ucast_u8)
  have "(unat x + unat (utf8_mark l)) mod 2 ^ (6 - l) = unat x"
    using assms by (rule utf8_mark_mod)
  then show "ucast (ucast (x OR utf8_mark l) :: u8) AND utf8_first_code_mask ! (l - 1) = x"
    unfolding first_code_mask [OF assms(1,2)] take_bit_eq_mask [symmetric] word_unat_eq_iff
    by (simp only: unat_take_bit_mod unat_ucast_u8_u32 u)
qed

lemma lead_byte_unique:
  assumes "utf8_extra b = Some l"
  defines "x \<equiv> ucast b AND utf8_first_code_mask ! (l - 1) :: u32"
  shows "unat x < 2 ^ (6 - l)" "ucast (x OR utf8_mark l) = b"
proof -
  from assms(1) have l: "1 \<le> l" "l \<le> 5"
    and b: "unat (utf8_mark l) \<le> unat b" "unat b < unat (utf8_mark l) + 2 ^ (6 - l)"
    by (auto simp: utf8_extra_iff)
  have "unat x = unat b mod 2 ^ (6 - l)"
    unfolding x_def first_code_mask [OF l] take_bit_eq_mask [symmetric]
    by (simp only: unat_take_bit_mod unat_ucast_u8_u32)
  also have "\<dots> = unat b - unat (utf8_mark l)"
    using utf8_mark_mod [OF l, of "unat b - unat (utf8_mark l)"] b by simp
  finally have x: "unat x = unat b - unat (utf8_mark l)" .
  with b show lt: "unat x < 2 ^ (6 - l)" by linarith
  show "ucast (x OR utf8_mark l) = b"
    using lead_byte(1) [OF l lt] b by (simp add: word_unat_eq_iff x)
qed

section \<open>Encoder and decoder are inverse\<close>

lemma decode_encoded:
  assumes "c < 0x80000000" "int (length (unicode_to_utf8 c)) \<le> max_len"
  shows "unicode_from_utf8 (unicode_to_utf8 c @ r) max_len = Some (Some (c, r))"
proof (cases "c < 0x80")
  case True
  have u: "unat (ucast c :: u8) = unat c"
    using True by (simp add: unat_ucast_u8 word_less_nat_alt)
  have "ucast (ucast c :: u8) = c"
    by (rule word_unat_eq_iff [THEN iffD2]) (simp only: unat_ucast_u8_u32 u)
  with True u show ?thesis
    by (simp add: unicode_to_utf8_def unicode_from_utf8_def word_less_nat_alt)
next
  case False
  then obtain l where l: "1 \<le> l" "l \<le> 5" "utf8_min_code ! (l - 1) \<le> c" "unat c < 2 ^ (6 + 5 * l)"
    using assms(1) utf8_length_exists [of c] not_less by blast
  let ?x = "drop_bit (6 * l) c"
  have enc: "unicode_to_utf8 c = ucast (?x OR utf8_mark l) # utf8_conts l c"
    by (rule unicode_to_utf8_multi [OF l])
  have x: "unat ?x < 2 ^ (6 - l)"
  proof -
    have "(2::nat) ^ (6 - l) * 2 ^ (6 * l) = 2 ^ (6 + 5 * l)"
      using nat_1_to_5 [OF l(1,2)] by (elim disjE) simp_all
    with l(4) have "unat c < 2 ^ (6 - l) * 2 ^ (6 * l)" by simp
    then show ?thesis by (simp add: unat_drop_bit_div less_mult_imp_div_less)
  qed
  note lead = lead_byte [OF l(1,2) x]
  have extra: "utf8_extra (ucast (?x OR utf8_mark l)) = Some l"
    using l x lead(1) by (simp add: utf8_extra_iff)
  have "128 \<le> unat (utf8_mark l)"
    using nat_1_to_5 [OF l(1,2)]
    by (elim disjE) (simp_all add: utf8_mark_numeral utf8_mark_numeral(1) [simplified])
  then have nascii: "\<not> (ucast (?x OR utf8_mark l) :: u8) < 0x80"
    using lead(1) by (simp add: word_less_nat_alt)
  have max: "\<not> int l > max_len - 1" using assms(2) enc by simp
  show ?thesis
    unfolding enc unicode_from_utf8_def using extra nascii max l(3) lead(2)
    by (simp add: utf8_loop_conts linorder_not_less [symmetric])
qed

text \<open>
  C24: decoding what \<open>unicode_to_utf8\<close> encodes gives the code point back and leaves the
  rest of the input, for every code point below \<open>2^31\<close> (one to six bytes).
\<close>

theorem unicode_from_to_utf8:
  assumes "c < 0x80000000" "int (length (unicode_to_utf8 c)) \<le> max_len"
  shows "unicode_from_utf8 (unicode_to_utf8 c @ r) max_len = Some (Some (c, r))"
  using assms by (rule decode_encoded)

lemma unicode_from_to_utf8_witness:
  "unicode_from_utf8 (unicode_to_utf8 0x1F600 @ [7]) 6 = Some (Some (0x1F600, [7]))"
proof -
  have "length (unicode_to_utf8 0x1F600) = 4" by code_simp
  then show ?thesis by (intro unicode_from_to_utf8) simp_all
qed

text \<open>
  C23: the decoder accepts nothing but encodings: whatever it takes from the input is
  exactly what \<open>unicode_to_utf8\<close> writes for the code point it returns (so overlong
  forms are rejected) and the code point is below \<open>2^31\<close>.
\<close>

theorem unicode_to_from_utf8:
  assumes "unicode_from_utf8 p max_len = Some (Some (c, r))"
  shows "p = unicode_to_utf8 c @ r \<and> c < 0x80000000"
proof -
  from assms obtain b p' where p: "p = b # p'"
    by (auto simp: unicode_from_utf8_def split: list.splits)
  show ?thesis
  proof (cases "b < 0x80")
    case True
    with assms p have c: "c = ucast b" "r = p'" by (auto simp: unicode_from_utf8_def)
    then have u: "unat c = unat b" by (simp add: unat_ucast_u8_u32)
    have "ucast c = b"
      using True by (simp add: word_unat_eq_iff unat_ucast_u8 u word_less_nat_alt)
    with True u c p show ?thesis
      by (simp add: unicode_to_utf8_def word_less_nat_alt)
  next
    case False
    with assms p obtain l where l: "utf8_extra b = Some l"
      and rec: "utf8_loop l (ucast b AND utf8_first_code_mask ! (l - 1)) p' = Some (Some (c, r))"
      and min: "utf8_min_code ! (l - 1) \<le> c"
      by (auto simp: unicode_from_utf8_def not_less split: option.splits if_splits)
    let ?x = "ucast b AND utf8_first_code_mask ! (l - 1) :: u32"
    note lead = lead_byte_unique [OF l]
    have l15: "1 \<le> l" "l \<le> 5" using l by (auto simp: utf8_extra_iff)
    have pow: "(2::nat) ^ (6 - l) * 64 ^ l = 2 ^ (6 + 5 * l)"
      using nat_1_to_5 [OF l15] by (elim disjE) simp_all
    have bnd: "(unat ?x + 1) * 64 ^ l \<le> 2 ^ (6 + 5 * l)"
      unfolding pow [symmetric] using lead(1) by (intro mult_le_mono) auto
    have "(2::nat) ^ (6 + 5 * l) \<le> 2 ^ 31" using l15 by (intro power_increasing) auto
    with bnd have "(unat ?x + 1) * 64 ^ l \<le> 2 ^ 32" by simp
    from utf8_loop_Some [OF rec this]
    have loop: "p' = utf8_conts l c @ r" "drop_bit (6 * l) c = ?x" "unat c < (unat ?x + 1) * 64 ^ l"
      by auto
    have "unat c < 2 ^ (6 + 5 * l)" using loop(3) bnd by linarith
    from unicode_to_utf8_multi [OF l15 min this] loop lead(2) p
    have "p = unicode_to_utf8 c @ r" by simp
    moreover have "unat c < 2 ^ 31"
      using loop(3) bnd \<open>(2::nat) ^ (6 + 5 * l) \<le> 2 ^ 31\<close> by linarith
    then have "c < 0x80000000" by (simp add: word_less_nat_alt)
    ultimately show ?thesis ..
  qed
qed

lemma unicode_to_from_utf8_witness:
  "[0xe2, 0x82, 0xac, 0x21] = unicode_to_utf8 0x20ac @ [0x21]"
proof -
  have "unicode_from_utf8 [0xe2, 0x82, 0xac, 0x21] 6 = Some (Some (0x20ac, [0x21]))"
    by code_simp
  from unicode_to_from_utf8 [OF this] show ?thesis by simp
qed

end
