(* ===== verification/RQSort.thy ===== *)
theory RQSort
  imports QPrelude "HOL-Library.Multiset"
begin

text \<open>
  \<open>rqsort\<close> of \<open>src/src/deps/cutils.c\<close>: three-way quicksort with an explicit stack,
  insertion sort on short fragments and heapsort beyond fifty levels.

  The array is the list of its elements and a pointer into it is an element index
  (the code's byte offset divided by \<open>size\<close>).  Reading or swapping outside the array
  and pushing on a full stack are \<open>None\<close>.  The comparison function with its opaque
  argument is a parameter \<open>cmp\<close>; nothing is assumed of it until the last section.
\<close>

type_synonym 'a cmp = "'a \<Rightarrow> 'a \<Rightarrow> int"

section \<open>Exchanging elements\<close>

definition swp :: "'a list \<Rightarrow> nat \<Rightarrow> nat \<Rightarrow> 'a list option" where
  "swp xs i j = do {
     a \<leftarrow> rd xs i;
     b \<leftarrow> rd xs j;
     ys \<leftarrow> wr xs i b;
     wr ys j a }"

text \<open>\<open>swap_block\<close>: the \<open>n\<close> elements at \<open>i\<close> against those at \<open>j\<close>, one after the other.\<close>

fun swp_block :: "'a list \<Rightarrow> nat \<Rightarrow> nat \<Rightarrow> nat \<Rightarrow> 'a list option" where
  "swp_block xs i j 0 = Some xs"
| "swp_block xs i j (Suc n) = do { ys \<leftarrow> swp xs i j; swp_block ys (Suc i) (Suc j) n }"

subsection \<open>The byte-level exchange routines\<close>

text \<open>
  \<open>exchange_bytes\<close>, \<open>exchange_int16s\<close>, \<open>exchange_int32s\<close>, \<open>exchange_int64s\<close> and
  \<open>exchange_int128s\<close> swap \<open>n\<close> units of \<open>w\<close> bytes at two places; the
  \<open>exchange_one_\<close> variants swap a single unit whatever size they are given.
\<close>

fun exchange_units :: "nat \<Rightarrow> nat \<Rightarrow> u8 list \<Rightarrow> u8 list \<Rightarrow> u8 list \<times> u8 list" where
  "exchange_units w 0 a b = (a, b)"
| "exchange_units w (Suc n) a b =
     (let (a', b') = exchange_units w n (drop w a) (drop w b)
      in (take w b @ a', take w a @ b'))"

datatype exchange_f = ExchangeOne nat | ExchangeMany nat

fun exchange :: "exchange_f \<Rightarrow> u8 list \<Rightarrow> u8 list \<Rightarrow> nat \<Rightarrow> u8 list \<times> u8 list" where
  "exchange (ExchangeOne w) a b sz = exchange_units w 1 a b"
| "exchange (ExchangeMany w) a b sz = exchange_units w (sz div w) a b"

definition exchange_func :: "u64 \<Rightarrow> u64 \<Rightarrow> exchange_f" where
  "exchange_func base sz =
     (let k = unat ((base OR sz) AND 15) in
      if k = 0 then (if sz = 16 then ExchangeOne 16 else ExchangeMany 16)
      else if k = 8 then (if sz = 8 then ExchangeOne 8 else ExchangeMany 8)
      else if k = 4 \<or> k = 12 then (if sz = 4 then ExchangeOne 4 else ExchangeMany 4)
      else if k = 2 \<or> k = 6 \<or> k = 10 \<or> k = 14 then
        (if sz = 2 then ExchangeOne 2 else ExchangeMany 2)
      else (if sz = 1 then ExchangeOne 1 else ExchangeMany 1))"

section \<open>Heapsort\<close>

text \<open>
  The sift-down loop \<open>for (r = i; (c = r * 2 + size) < n; r = c)\<close>, in elements.
\<close>

function sift_down :: "'a cmp \<Rightarrow> 'a list \<Rightarrow> nat \<Rightarrow> nat \<Rightarrow> 'a list option" where
  "sift_down cmp xs r n =
     (let c = r * 2 + 1 in
      if c < n then do {
        c' \<leftarrow> (if c < n - 1 then do {
                 a \<leftarrow> rd xs c;
                 b \<leftarrow> rd xs (c + 1);
                 Some (if cmp a b \<le> 0 then c + 1 else c) }
               else Some c);
        a \<leftarrow> rd xs r;
        b \<leftarrow> rd xs c';
        if cmp a b > 0 then Some xs
        else do { ys \<leftarrow> swp xs r c'; sift_down cmp ys c' n } }
      else Some xs)"
  by pat_completeness auto
termination
  by (relation "measure (\<lambda>(cmp, xs, r, n). n - r)")
     (auto simp: Let_def split: if_splits Option.bind_splits)


declare sift_down.simps [simp del]

text \<open>\<open>heapsortx\<close>: build the heap from the last parent down, then move maxima to the end.\<close>

fun heap_build :: "'a cmp \<Rightarrow> 'a list \<Rightarrow> nat \<Rightarrow> nat \<Rightarrow> 'a list option" where
  "heap_build cmp xs 0 n = Some xs"
| "heap_build cmp xs (Suc i) n = do { ys \<leftarrow> sift_down cmp xs i n; heap_build cmp ys i n }"

fun heap_drain :: "'a cmp \<Rightarrow> 'a list \<Rightarrow> nat \<Rightarrow> 'a list option" where
  "heap_drain cmp xs 0 = Some xs"
| "heap_drain cmp xs (Suc i) = do {
     ys \<leftarrow> swp xs 0 (Suc i);
     zs \<leftarrow> sift_down cmp ys 0 (Suc i);
     heap_drain cmp zs i }"

definition heapsortx :: "'a cmp \<Rightarrow> 'a list \<Rightarrow> nat \<Rightarrow> 'a list option" where
  "heapsortx cmp xs nmemb =
     (if nmemb > 1 then do {
        ys \<leftarrow> heap_build cmp xs (nmemb div 2) nmemb;
        heap_drain cmp ys (nmemb - 1) }
      else Some xs)"

section \<open>Quicksort\<close>

text \<open>\<open>med3\<close> on pointers into the array.\<close>

definition med3 :: "'a cmp \<Rightarrow> 'a list \<Rightarrow> nat \<Rightarrow> nat \<Rightarrow> nat \<Rightarrow> nat option" where
  "med3 cmp xs i j k = do {
     a \<leftarrow> rd xs i;
     b \<leftarrow> rd xs j;
     c \<leftarrow> rd xs k;
     Some (if cmp a b < 0
           then (if cmp b c < 0 then j else if cmp a c < 0 then k else i)
           else (if cmp b c > 0 then j else if cmp a c < 0 then i else k)) }"

text \<open>
  The partition loop.  \<open>pi\<close>, \<open>pj\<close>, \<open>plt\<close>, \<open>pgt\<close> are the code's pointers; its counters
  \<open>i\<close>, \<open>lt\<close>, \<open>gt\<close> move together with \<open>pi\<close>, \<open>plt\<close>, \<open>pgt\<close> and are their distances to \<open>ptr\<close>.
\<close>

function part_up :: "'a cmp \<Rightarrow> 'a list \<Rightarrow> nat \<Rightarrow> nat \<Rightarrow> nat \<Rightarrow> nat \<Rightarrow> ('a list \<times> nat \<times> nat) option" where
  "part_up cmp xs ptr pi pj plt =
     (if pi < pj then do {
        p \<leftarrow> rd xs ptr;
        e \<leftarrow> rd xs pi;
        if cmp p e \<ge> 0 then
          (if cmp p e = 0 then do {
             ys \<leftarrow> swp xs plt pi;
             part_up cmp ys ptr (pi + 1) pj (plt + 1) }
           else part_up cmp xs ptr (pi + 1) pj plt)
        else Some (xs, pi, plt) }
      else Some (xs, pi, plt))"
  by pat_completeness auto
termination
  by (relation "measure (\<lambda>(cmp, xs, ptr, pi, pj, plt). pj - pi)") auto

declare part_up.simps [simp del]

function part_down :: "'a cmp \<Rightarrow> 'a list \<Rightarrow> nat \<Rightarrow> nat \<Rightarrow> nat \<Rightarrow> nat \<Rightarrow> ('a list \<times> nat \<times> nat) option" where
  "part_down cmp xs ptr pi pj pgt =
     (let pj' = pj - 1 in
      if pi < pj' then do {
        p \<leftarrow> rd xs ptr;
        e \<leftarrow> rd xs pj';
        if cmp p e \<le> 0 then
          (if cmp p e = 0 then do {
             ys \<leftarrow> swp xs (pgt - 1) pj';
             part_down cmp ys ptr pi pj' (pgt - 1) }
           else part_down cmp xs ptr pi pj' pgt)
        else Some (xs, pj', pgt) }
      else Some (xs, pj', pgt))"
  by pat_completeness auto
termination
  by (relation "measure (\<lambda>(cmp, xs, ptr, pi, pj, pgt). pj - pi)") (auto simp: Let_def)

declare part_down.simps [simp del]

text \<open>The loop \<open>for (;;)\<close> around them; the result is the array with \<open>pi\<close>, \<open>plt\<close> and \<open>pgt\<close>.\<close>

lemma part_up_bounds:
  "part_up cmp xs ptr pi pj plt = Some (ys, pi', plt') \<Longrightarrow> pi \<le> pi'"
proof (induction cmp xs ptr pi pj plt rule: part_up.induct)
  case (1 cmp xs ptr pi pj plt)
  from "1.prems" show ?case
    by (subst (asm) part_up.simps)
       (fastforce split: if_splits Option.bind_splits dest: "1.IH")
qed

lemma part_down_bounds:
  "part_down cmp xs ptr pi pj pgt = Some (ys, pj', pgt') \<Longrightarrow> pj' \<le> pj - 1"
proof (induction pj arbitrary: xs pgt rule: less_induct)
  case (less pj)
  have IH: "part_down cmp xs' ptr pi (pj - 1) pgt'' = Some (ys, pj', pgt') \<Longrightarrow> pi < pj - 1 \<Longrightarrow>
     pj' \<le> pj - 1" for xs' pgt''
    using less.IH [of "pj - 1" xs' pgt''] by simp
  from less.prems show ?case
    by (subst (asm) part_down.simps)
       (auto simp: Let_def IH [simplified] split: if_splits Option.bind_splits)
qed

function part_loop :: "'a cmp \<Rightarrow> 'a list \<Rightarrow> nat \<Rightarrow> nat \<Rightarrow> nat \<Rightarrow> nat \<Rightarrow> nat \<Rightarrow>
    ('a list \<times> nat \<times> nat \<times> nat) option" where
  "part_loop cmp xs ptr pi pj plt pgt = do {
     (ys, pi', plt') \<leftarrow> part_up cmp xs ptr pi pj plt;
     (zs, pj', pgt') \<leftarrow> part_down cmp ys ptr pi' pj pgt;
     if pi' \<ge> pj' then Some (zs, pi', plt', pgt')
     else do {
       ws \<leftarrow> swp zs pi' pj';
       part_loop cmp ws ptr (pi' + 1) pj' plt' pgt' } }"
  by pat_completeness auto
termination
  by (relation "measure (\<lambda>(cmp, xs, ptr, pi, pj, plt, pgt). pj - pi)")
     (auto dest!: part_up_bounds part_down_bounds)

declare part_loop.simps [simp del]

text \<open>One partitioning step: the array, the counts \<open>lt\<close> and \<open>gt\<close>, the pointer \<open>pgt\<close>.\<close>

definition qs_split :: "'a cmp \<Rightarrow> 'a list \<Rightarrow> nat \<Rightarrow> nat \<Rightarrow> ('a list \<times> nat \<times> nat \<times> nat) option" where
  "qs_split cmp xs ptr nmemb = do {
     let m4 = nmemb div 4;
     m \<leftarrow> med3 cmp xs (ptr + m4) (ptr + 2 * m4) (ptr + 3 * m4);
     xs1 \<leftarrow> swp xs ptr m;
     let hi = ptr + nmemb;
     (xs2, pi, plt, pgt) \<leftarrow> part_loop cmp xs1 ptr (ptr + 1) hi (ptr + 1) hi;
     let span = plt - ptr;
     let span2 = pi - plt;
     let lt = pi - plt;
     let span = (if span > span2 then span2 else span);
     xs3 \<leftarrow> swp_block xs2 ptr (pi - span) span;
     let span = hi - pgt;
     let span2 = pgt - pi;
     let pgt' = hi - span2;
     let gt = nmemb - (pgt - pi);
     let span = (if span > span2 then span2 else span);
     xs4 \<leftarrow> swp_block xs3 pi (hi - span) span;
     Some (xs4, lt, gt, pgt') }"

text \<open>The insertion sort of the short fragments.\<close>

fun ins_inner :: "'a cmp \<Rightarrow> 'a list \<Rightarrow> nat \<Rightarrow> nat \<Rightarrow> 'a list option" where
  "ins_inner cmp xs ptr 0 = Some xs"
| "ins_inner cmp xs ptr (Suc j) =
     (if Suc j > ptr then do {
        a \<leftarrow> rd xs j;
        b \<leftarrow> rd xs (Suc j);
        if cmp a b > 0 then do { ys \<leftarrow> swp xs (Suc j) j; ins_inner cmp ys ptr j }
        else Some xs }
      else Some xs)"

function ins_outer :: "'a cmp \<Rightarrow> 'a list \<Rightarrow> nat \<Rightarrow> nat \<Rightarrow> nat \<Rightarrow> 'a list option" where
  "ins_outer cmp xs ptr pi hi =
     (if pi < hi then do { ys \<leftarrow> ins_inner cmp xs ptr pi; ins_outer cmp ys ptr (pi + 1) hi }
      else Some xs)"
  by pat_completeness auto
termination
  by (relation "measure (\<lambda>(cmp, xs, ptr, pi, hi). hi - pi)") auto

declare ins_outer.simps [simp del]

text \<open>\<open>stack[50]\<close> and \<open>sp\<close>: a list of at most fifty segments \<open>(base, count, depth)\<close>.\<close>

type_synonym seg = "nat \<times> nat \<times> nat"

definition push_seg :: "seg \<Rightarrow> seg list \<Rightarrow> seg list option" where
  "push_seg x st = (if length st < 50 then Some (x # st) else None)"

text \<open>The inner \<open>while (nmemb > 6)\<close>: it leaves a fragment for the insertion sort.\<close>

function qs_narrow :: "'a cmp \<Rightarrow> 'a list \<Rightarrow> seg list \<Rightarrow> nat \<Rightarrow> nat \<Rightarrow> nat \<Rightarrow>
    ('a list \<times> seg list \<times> nat \<times> nat) option" where
  "qs_narrow cmp xs st ptr nmemb depth =
     (if nmemb > 6 then
        let depth' = depth + 1 in
        if depth' > 50 then do {
          fragment \<leftarrow> grab xs ptr nmemb;
          sorted \<leftarrow> heapsortx cmp fragment nmemb;
          ys \<leftarrow> blit xs ptr sorted;
          Some (ys, st, ptr, 0) }
        else do {
          (ys, lt, gt, pgt) \<leftarrow> qs_split cmp xs ptr nmemb;
          if lt > nmemb - gt then do {
            st' \<leftarrow> push_seg (ptr, lt, depth') st;
            qs_narrow cmp ys st' pgt (nmemb - gt) depth' }
          else do {
            st' \<leftarrow> push_seg (pgt, nmemb - gt, depth') st;
            qs_narrow cmp ys st' ptr lt depth' } }
      else Some (xs, st, ptr, nmemb))"
  by pat_completeness auto
termination
  by (relation "measure (\<lambda>(cmp, xs, st, ptr, nmemb, depth). 51 - depth)") (auto simp: Let_def)

declare qs_narrow.simps [simp del]

definition stack_weight :: "seg list \<Rightarrow> nat" where
  "stack_weight st = (\<Sum>(b, c, d) \<leftarrow> st. 2 ^ (51 - d))"

lemma push_seg_Some [simp]:
  "push_seg x st = Some st' \<longleftrightarrow> length st < 50 \<and> st' = x # st"
  by (auto simp: push_seg_def)

lemma qs_narrow_split:
  assumes "nmemb > 6" "depth < 50" "qs_split cmp xs ptr nmemb = Some (ys, lt, gt, pgt)"
  shows "qs_narrow cmp xs st ptr nmemb depth =
    (if lt > nmemb - gt then do {
       st' \<leftarrow> push_seg (ptr, lt, depth + 1) st;
       qs_narrow cmp ys st' pgt (nmemb - gt) (depth + 1) }
     else do {
       st' \<leftarrow> push_seg (pgt, nmemb - gt, depth + 1) st;
       qs_narrow cmp ys st' ptr lt (depth + 1) })"
  using assms by (subst qs_narrow.simps) simp

lemma qs_narrow_weight:
  "qs_narrow cmp xs st ptr nmemb depth = Some (ys, st', ptr', nmemb') \<Longrightarrow>
   stack_weight st' < stack_weight st + 2 ^ (51 - depth)"
proof (induction "51 - depth" arbitrary: xs st ptr nmemb depth rule: less_induct)
  case less
  show ?case
  proof (cases "nmemb > 6 \<and> depth < 50")
    case False
    with less.prems show ?thesis
      by (subst (asm) qs_narrow.simps) (auto simp: Let_def split: if_splits Option.bind_splits)
  next
    case True
    then obtain zs lt gt pgt where sp: "qs_split cmp xs ptr nmemb = Some (zs, lt, gt, pgt)"
      using less.prems by (subst (asm) qs_narrow.simps) (auto split: Option.bind_splits)
    define seg where "seg = (if lt > nmemb - gt then (ptr, lt, depth + 1) else (pgt, nmemb - gt, depth + 1))"
    obtain p n where "qs_narrow cmp zs (seg # st) p n (depth + 1) = Some (ys, st', ptr', nmemb')"
      using less.prems True qs_narrow_split [OF _ _ sp, of depth st]
      by (auto simp: seg_def split: if_splits Option.bind_splits)
    then have "stack_weight st' < stack_weight (seg # st) + 2 ^ (51 - (depth + 1))"
      using True by (intro less.hyps) auto
    moreover have "stack_weight (seg # st) = stack_weight st + 2 ^ (50 - depth)"
      by (simp add: stack_weight_def seg_def)
    moreover have "51 - depth = Suc (50 - depth)" using True by arith
    then have "(2::nat) ^ (51 - depth) = 2 * 2 ^ (50 - depth)" by simp
    ultimately show ?thesis by simp
  qed
qed

text \<open>The outer \<open>while (sp > stack)\<close>.\<close>

function rqs_loop :: "'a cmp \<Rightarrow> 'a list \<Rightarrow> seg list \<Rightarrow> 'a list option" where
  "rqs_loop cmp xs [] = Some xs"
| "rqs_loop cmp xs ((base, n, depth) # st) = do {
     (ys, st', ptr, nmemb) \<leftarrow> qs_narrow cmp xs st base n depth;
     zs \<leftarrow> ins_outer cmp ys ptr (ptr + 1) (ptr + nmemb);
     rqs_loop cmp zs st' }"
  by pat_completeness auto
termination
  by (relation "measure (\<lambda>(cmp, xs, st). stack_weight st)")
     (auto simp: stack_weight_def dest: qs_narrow_weight)

definition rqsort :: "'a cmp \<Rightarrow> 'a list \<Rightarrow> nat \<Rightarrow> 'a list option" where
  "rqsort cmp xs nmemb = (if nmemb < 2 then Some xs else rqs_loop cmp xs [(0, nmemb, 0)])"

end
