(* ===== verification/RQSort_Proofs.thy ===== *)
theory RQSort_Proofs
  imports RQSort
begin

text \<open>
  Correctness of \<open>rqsort\<close>.  Without any assumption on the comparison function it
  stays inside its array and its fifty-entry stack and permutes the elements; with
  a comparison that is a total preorder the result is in order.
\<close>

section \<open>Rearranging a range\<close>

text \<open>\<open>ys\<close> is \<open>xs\<close> with the elements at \<open>p..<q\<close> moved among themselves.\<close>

definition within :: "nat \<Rightarrow> nat \<Rightarrow> 'a list \<Rightarrow> 'a list \<Rightarrow> bool" where
  "within p q xs ys \<longleftrightarrow>
     length ys = length xs \<and> mset ys = mset xs \<and>
     (\<forall>i < length xs. \<not> (p \<le> i \<and> i < q) \<longrightarrow> ys ! i = xs ! i) \<and>
     (\<forall>i < length xs. p \<le> i \<and> i < q \<longrightarrow>
        (\<exists>k. p \<le> k \<and> k < q \<and> k < length xs \<and> ys ! i = xs ! k))"

lemma within_refl [simp]: "within p q xs xs"
  by (auto simp: within_def)

lemma within_trans [trans]:
  assumes "within p q xs ys" "within p q ys zs" shows "within p q xs zs"
  using assms unfolding within_def by (metis (no_types, lifting))

lemma within_mono: "within p q xs ys \<Longrightarrow> p' \<le> p \<Longrightarrow> q \<le> q' \<Longrightarrow> within p' q' xs ys"
  unfolding within_def by (meson le_trans less_le_trans)

lemma within_length: "within p q xs ys \<Longrightarrow> length ys = length xs"
  by (simp add: within_def)

lemma within_mset: "within p q xs ys \<Longrightarrow> mset ys = mset xs"
  by (simp add: within_def)

lemma within_outside:
  "within p q xs ys \<Longrightarrow> i < length xs \<Longrightarrow> \<not> (p \<le> i \<and> i < q) \<Longrightarrow> ys ! i = xs ! i"
  by (simp add: within_def)

lemma within_inside:
  "within p q xs ys \<Longrightarrow> i < length xs \<Longrightarrow> p \<le> i \<Longrightarrow> i < q \<Longrightarrow>
   \<exists>k. p \<le> k \<and> k < q \<and> k < length xs \<and> ys ! i = xs ! k"
  by (simp add: within_def)

text \<open>What every element of the range satisfies is kept.\<close>

lemma within_all:
  assumes "within p q xs ys" "\<And>i. p \<le> i \<Longrightarrow> i < q \<Longrightarrow> i < length xs \<Longrightarrow> P (xs ! i)"
    "p \<le> i" "i < q" "i < length xs"
  shows "P (ys ! i)"
  using within_inside [OF assms(1,5,3,4)] assms(2) by auto

lemma swp_eq [mem_simps]:
  "i < length xs \<Longrightarrow> j < length xs \<Longrightarrow> swp xs i j = Some (xs[i := xs ! j, j := xs ! i])"
  by (simp add: swp_def mem_simps)

lemma within_swp:
  assumes "p \<le> i" "i < q" "p \<le> j" "j < q" "i < length xs" "j < length xs"
  shows "within p q xs (xs[i := xs ! j, j := xs ! i])"
  using assms by (auto simp: within_def mset_swap nth_list_update)

lemma swp_block_spec:
  assumes "i + n \<le> j" "j + n \<le> length xs"
  shows "\<exists>ys. swp_block xs i j n = Some ys \<and> within i (j + n) xs ys \<and>
    (\<forall>k < length xs. ys ! k =
       (if i \<le> k \<and> k < i + n then xs ! (j + (k - i))
        else if j \<le> k \<and> k < j + n then xs ! (i + (k - j)) else xs ! k))"
  using assms
proof (induction n arbitrary: xs i j)
  case 0
  then show ?case by auto
next
  case (Suc n)
  let ?xs = "xs[i := xs ! j, j := xs ! i]"
  have "Suc i + n \<le> Suc j" "Suc j + n \<le> length ?xs" using Suc.prems by auto
  from Suc.IH [OF this] obtain ys where ys: "swp_block ?xs (Suc i) (Suc j) n = Some ys"
    "within (Suc i) (Suc j + n) ?xs ys"
    and nth: "\<And>k. k < length ?xs \<Longrightarrow> ys ! k =
       (if Suc i \<le> k \<and> k < Suc i + n then ?xs ! (Suc j + (k - Suc i))
        else if Suc j \<le> k \<and> k < Suc j + n then ?xs ! (Suc i + (k - Suc j)) else ?xs ! k)"
    by blast
  have "swp xs i j = Some ?xs" using Suc.prems by (simp add: mem_simps)
  then have "swp_block xs i j (Suc n) = Some ys" using ys(1) by simp
  moreover have "within i (j + Suc n) xs ys"
  proof (rule within_trans)
    show "within i (j + Suc n) xs ?xs" using Suc.prems by (intro within_swp) auto
    show "within i (j + Suc n) ?xs ys" by (rule within_mono [OF ys(2)]) auto
  qed
  moreover have "ys ! k =
       (if i \<le> k \<and> k < i + Suc n then xs ! (j + (k - i))
        else if j \<le> k \<and> k < j + Suc n then xs ! (i + (k - j)) else xs ! k)"
    if "k < length xs" for k
  proof -
    have e: "Suc j \<le> k \<Longrightarrow> Suc (i + k - Suc j) = i + k - j"
      "Suc i \<le> k \<Longrightarrow> Suc (j + k - Suc i) = j + k - i" by arith+
    then show ?thesis
      using nth [of k] that Suc.prems
      by (auto simp: nth_list_update not_le less_Suc_eq_le le_Suc_eq)
  qed
  ultimately show ?case by blast
qed

section \<open>Heapsort stays inside its array\<close>

lemma sift_down_within:
  "n \<le> length xs \<Longrightarrow> \<exists>ys. sift_down cmp xs r n = Some ys \<and> within r n xs ys"
proof (induction "n - r" arbitrary: xs r rule: less_induct)
  case less
  show ?case
  proof (cases "r * 2 + 1 < n")
    case False
    then show ?thesis by (simp add: sift_down.simps)
  next
    case True
    define c where "c = r * 2 + 1"
    define d where "d = (if c < n - 1 \<and> cmp (xs ! c) (xs ! (c + 1)) \<le> 0 then c + 1 else c)"
    have d: "r < d" "d < n" using True by (auto simp: d_def c_def)
    let ?ys = "xs[r := xs ! d, d := xs ! r]"
    have step: "sift_down cmp xs r n =
      (if cmp (xs ! r) (xs ! d) > 0 then Some xs else sift_down cmp ?ys d n)"
      using True d less.prems
      by (subst sift_down.simps) (auto simp: Let_def c_def d_def mem_simps)
    show ?thesis
    proof (cases "cmp (xs ! r) (xs ! d) > 0")
      case True
      with step show ?thesis by simp
    next
      case False
      have "n - d < n - r" "n \<le> length ?ys" using d less.prems by auto
      from less.hyps [OF this] obtain zs where
        zs: "sift_down cmp ?ys d n = Some zs" "within d n ?ys zs" by blast
      have "within r n xs zs"
      proof (rule within_trans)
        show "within r n xs ?ys" using d less.prems by (intro within_swp) auto
        show "within r n ?ys zs" by (rule within_mono [OF zs(2)]) (use d in auto)
      qed
      with zs step False show ?thesis by simp
    qed
  qed
qed

lemma heap_build_within:
  "n \<le> length xs \<Longrightarrow> \<exists>ys. heap_build cmp xs i n = Some ys \<and> within 0 n xs ys"
proof (induction i arbitrary: xs)
  case 0
  then show ?case by simp
next
  case (Suc i)
  from sift_down_within [OF Suc.prems] obtain ys where
    ys: "sift_down cmp xs i n = Some ys" "within i n xs ys" by blast
  then have "n \<le> length ys" using Suc.prems by (simp add: within_length)
  from Suc.IH [OF this] obtain zs where
    "heap_build cmp ys i n = Some zs" "within 0 n ys zs" by blast
  with ys show ?case by (auto intro: within_trans within_mono)
qed

lemma heap_drain_within:
  "i < length xs \<Longrightarrow> \<exists>ys. heap_drain cmp xs i = Some ys \<and> within 0 (Suc i) xs ys"
proof (induction i arbitrary: xs)
  case 0
  then show ?case by simp
next
  case (Suc i)
  let ?ys = "xs[0 := xs ! Suc i, Suc i := xs ! 0]"
  have w: "within 0 (Suc (Suc i)) xs ?ys" using Suc.prems by (intro within_swp) auto
  have sw: "swp xs 0 (Suc i) = Some ?ys" using Suc.prems by (intro swp_eq) auto
  have "Suc i \<le> length ?ys" using Suc.prems by simp
  from sift_down_within [OF this] obtain zs where
    zs: "sift_down cmp ?ys 0 (Suc i) = Some zs" "within 0 (Suc i) ?ys zs" by blast
  have "i < length zs" using zs(2) Suc.prems by (simp add: within_length)
  from Suc.IH [OF this] obtain us where
    us: "heap_drain cmp zs i = Some us" "within 0 (Suc i) zs us" by blast
  have "within 0 (Suc (Suc i)) ?ys us"
    by (rule within_mono [OF within_trans [OF zs(2) us(2)]]) auto
  with w have "within 0 (Suc (Suc i)) xs us" by (rule within_trans)
  then show ?case using sw zs(1) us(1) by simp
qed

lemma heapsortx_within:
  assumes "n \<le> length xs"
  shows "\<exists>ys. heapsortx cmp xs n = Some ys \<and> within 0 n xs ys"
proof (cases "n > 1")
  case True
  from heap_build_within [OF assms] obtain ys where
    ys: "heap_build cmp xs (n div 2) n = Some ys" "within 0 n xs ys" by blast
  have "n - 1 < length ys" using ys(2) assms True by (simp add: within_length)
  from heap_drain_within [OF this] obtain zs where
    "heap_drain cmp ys (n - 1) = Some zs" "within 0 (Suc (n - 1)) ys zs" by blast
  with ys True show ?thesis by (auto simp: heapsortx_def intro: within_trans)
next
  case False
  then show ?thesis by (simp add: heapsortx_def)
qed

section \<open>Partitioning\<close>

text \<open>
  The four parts around the unvisited range \<open>pi..<pj\<close>: equal to the pivot, smaller,
  greater, equal again.
\<close>

definition part_inv :: "'a cmp \<Rightarrow> 'a \<Rightarrow> 'a list \<Rightarrow> nat \<Rightarrow> nat \<Rightarrow> nat \<Rightarrow> nat \<Rightarrow> nat \<Rightarrow> nat \<Rightarrow> bool" where
  "part_inv cmp P xs ptr plt pi pj pgt hi \<longleftrightarrow>
     ptr < plt \<and> plt \<le> pi \<and> pi \<le> pj \<and> pj \<le> pgt \<and> pgt \<le> hi \<and> hi \<le> length xs \<and>
     xs ! ptr = P \<and>
     (\<forall>k. ptr < k \<and> k < plt \<longrightarrow> cmp P (xs ! k) = 0) \<and>
     (\<forall>k. plt \<le> k \<and> k < pi \<longrightarrow> cmp P (xs ! k) > 0) \<and>
     (\<forall>k. pj \<le> k \<and> k < pgt \<longrightarrow> cmp P (xs ! k) < 0) \<and>
     (\<forall>k. pgt \<le> k \<and> k < hi \<longrightarrow> cmp P (xs ! k) = 0)"

lemma part_up_spec:
  assumes "part_inv cmp P xs ptr plt pi pj pgt hi"
  shows "\<exists>ys pi' plt'. part_up cmp xs ptr pi pj plt = Some (ys, pi', plt') \<and>
    part_inv cmp P ys ptr plt' pi' pj pgt hi \<and> within (ptr + 1) hi xs ys \<and>
    (pi' < pj \<longrightarrow> cmp P (ys ! pi') < 0)"
  using assms
proof (induction "pj - pi" arbitrary: xs pi plt rule: less_induct)
  case less
  note inv = less.prems [unfolded part_inv_def]
  show ?case
  proof (cases "pi < pj \<and> cmp P (xs ! pi) \<ge> 0")
    case False
    then show ?thesis
      using less.prems inv by (auto simp: part_up.simps [of _ _ _ pi] mem_simps)
  next
    case True
    have len: "ptr < length xs" "pi < length xs" "plt < length xs" using inv True by auto
    have dec: "pj - (pi + 1) < pj - pi" using True by auto
    show ?thesis
    proof (cases "cmp P (xs ! pi) = 0")
      case eq: True
      let ?ys = "xs[plt := xs ! pi, pi := xs ! plt]"
      have step: "part_up cmp xs ptr pi pj plt = part_up cmp ?ys ptr (pi + 1) pj (plt + 1)"
        using True eq inv len by (subst part_up.simps) (simp add: mem_simps)
      have "part_inv cmp P ?ys ptr (plt + 1) (pi + 1) pj pgt hi"
        using True eq inv len
        by (auto simp: part_inv_def nth_list_update less_Suc_eq Suc_le_eq)
      from less.hyps [OF dec this] obtain zs pi' plt' where
        z: "part_up cmp ?ys ptr (pi + 1) pj (plt + 1) = Some (zs, pi', plt')"
          "part_inv cmp P zs ptr plt' pi' pj pgt hi" "within (ptr + 1) hi ?ys zs"
          "pi' < pj \<longrightarrow> cmp P (zs ! pi') < 0" by blast
      have "within (ptr + 1) hi xs ?ys" using inv True len by (intro within_swp) auto
      with z step show ?thesis by (auto intro: within_trans)
    next
      case ne: False
      have step: "part_up cmp xs ptr pi pj plt = part_up cmp xs ptr (pi + 1) pj plt"
        using True ne inv len by (subst part_up.simps) (simp add: mem_simps)
      have "part_inv cmp P xs ptr plt (pi + 1) pj pgt hi"
        using True ne inv by (auto simp: part_inv_def less_Suc_eq)
      from less.hyps [OF dec this] step show ?thesis by simp
    qed
  qed
qed

lemma part_down_spec:
  assumes "part_inv cmp P xs ptr plt pi pj pgt hi"
  shows "\<exists>ys pj' pgt'. part_down cmp xs ptr pi pj pgt = Some (ys, pj', pgt') \<and>
    part_inv cmp P ys ptr plt pi (pj' + 1) pgt' hi \<and> within (pi + 1) hi xs ys \<and>
    (pi < pj' \<longrightarrow> cmp P (ys ! pj') > 0) \<and> (pj' \<le> pi \<or> pj' < pj)"
  using assms
proof (induction "pj - pi" arbitrary: xs pj pgt rule: less_induct)
  case less
  note inv = less.prems [unfolded part_inv_def]
  have pos: "pj = (pj - 1) + 1" using inv by auto
  show ?case
  proof (cases "pi < pj - 1 \<and> cmp P (xs ! (pj - 1)) \<le> 0")
    case False
    have "part_down cmp xs ptr pi pj pgt = Some (xs, pj - 1, pgt)"
      using False inv by (subst part_down.simps) (auto simp: Let_def mem_simps)
    moreover have "part_inv cmp P xs ptr plt pi ((pj - 1) + 1) pgt hi"
      using less.prems pos by simp
    ultimately show ?thesis using False pos by fastforce
  next
    case True
    have len: "ptr < length xs" "pj - 1 < length xs" "pgt - 1 < length xs" using inv True by auto
    have dec: "pj - 1 - pi < pj - pi" using True by auto
    show ?thesis
    proof (cases "cmp P (xs ! (pj - 1)) = 0")
      case eq: True
      let ?ys = "xs[pgt - 1 := xs ! (pj - 1), pj - 1 := xs ! (pgt - 1)]"
      have step: "part_down cmp xs ptr pi pj pgt = part_down cmp ?ys ptr pi (pj - 1) (pgt - 1)"
        using True eq inv len by (subst part_down.simps) (simp add: Let_def mem_simps)
      have "part_inv cmp P ?ys ptr plt pi (pj - 1) (pgt - 1) hi"
        unfolding part_inv_def
      proof (intro conjI allI impI)
        fix k assume k: "pj - 1 \<le> k \<and> k < pgt - 1"
        then have "k = pj - 1 \<or> pj \<le> k" by arith
        then show "cmp P (?ys ! k) < 0" using k inv True eq len
          by (elim disjE) (auto simp: nth_list_update)
      next
        fix k assume k: "pgt - 1 \<le> k \<and> k < hi"
        then have "k = pgt - 1 \<or> pgt \<le> k" by arith
        then show "cmp P (?ys ! k) = 0" using k inv True eq len
          by (elim disjE) (auto simp: nth_list_update)
      qed (use inv True len in \<open>auto simp: nth_list_update\<close>)
      from less.hyps [OF dec this] obtain zs pj' pgt' where
        z: "part_down cmp ?ys ptr pi (pj - 1) (pgt - 1) = Some (zs, pj', pgt')"
          "part_inv cmp P zs ptr plt pi (pj' + 1) pgt' hi" "within (pi + 1) hi ?ys zs"
          "pi < pj' \<longrightarrow> cmp P (zs ! pj') > 0" "pj' \<le> pi \<or> pj' < pj - 1" by blast
      have "within (pi + 1) hi xs ?ys" using inv True len by (intro within_swp) auto
      with z step show ?thesis by (fastforce intro: within_trans)
    next
      case ne: False
      have step: "part_down cmp xs ptr pi pj pgt = part_down cmp xs ptr pi (pj - 1) pgt"
        using True ne inv len by (subst part_down.simps) (simp add: Let_def mem_simps)
      have "part_inv cmp P xs ptr plt pi (pj - 1) pgt hi"
        unfolding part_inv_def
      proof (intro conjI allI impI)
        fix k assume k: "pj - 1 \<le> k \<and> k < pgt"
        then have "k = pj - 1 \<or> pj \<le> k" by arith
        then show "cmp P (xs ! k) < 0" using k inv True ne
          by (elim disjE) auto
      qed (use inv True in auto)
      from less.hyps [OF dec this] step show ?thesis by fastforce
    qed
  qed
qed

lemma part_loop_spec:
  assumes "part_inv cmp P xs ptr plt pi pj pgt hi"
  shows "\<exists>ys pi' plt' pgt'. part_loop cmp xs ptr pi pj plt pgt = Some (ys, pi', plt', pgt') \<and>
    part_inv cmp P ys ptr plt' pi' pi' pgt' hi \<and> within (ptr + 1) hi xs ys"
  using assms
proof (induction "pj - pi" arbitrary: xs plt pi pj pgt rule: less_induct)
  case less
  from part_up_spec [OF less.prems] obtain ys pi' plt' where
    up: "part_up cmp xs ptr pi pj plt = Some (ys, pi', plt')"
      "part_inv cmp P ys ptr plt' pi' pj pgt hi" "within (ptr + 1) hi xs ys"
      "pi' < pj \<longrightarrow> cmp P (ys ! pi') < 0" by blast
  from part_down_spec [OF up(2)] obtain zs pj' pgt' where
    down: "part_down cmp ys ptr pi' pj pgt = Some (zs, pj', pgt')"
      "part_inv cmp P zs ptr plt' pi' (pj' + 1) pgt' hi" "within (pi' + 1) hi ys zs"
      "pi' < pj' \<longrightarrow> cmp P (zs ! pj') > 0" "pj' \<le> pi' \<or> pj' < pj" by blast
  note inv = down(2) [unfolded part_inv_def]
  have w: "within (ptr + 1) hi xs zs"
  proof (rule within_trans [OF up(3)])
    show "within (ptr + 1) hi ys zs" by (rule within_mono [OF down(3)]) (use inv in auto)
  qed
  have pi': "cmp P (zs ! pi') < 0" if "pi' < pj"
  proof -
    have "pi' < length ys" using up(2) that by (auto simp: part_inv_def)
    with within_outside [OF down(3)] have "zs ! pi' = ys ! pi'" by auto
    with up(4) that show ?thesis by simp
  qed
  have le: "pj' \<le> pj - 1" by (rule part_down_bounds [OF down(1)])
  have "pj > 0" using less.prems by (auto simp: part_inv_def)
  show ?case
  proof (cases "pi' \<ge> pj'")
    case True
    have "part_inv cmp P zs ptr plt' pi' pi' pgt' hi"
    proof (cases "pj' + 1 = pi'")
      case True
      with down(2) show ?thesis by simp
    next
      case False
      then have "pj' = pi'" using True inv by auto
      then have "pi' < pj" using le \<open>pj > 0\<close> by auto
      then have lt: "cmp P (zs ! pi') < 0" by (rule pi')
      have "pi' \<le> k \<and> k < pgt' \<longrightarrow> cmp P (zs ! k) < 0" for k
      proof (cases "k = pi'")
        case True
        with lt show ?thesis by simp
      next
        case False
        then have "pi' \<le> k \<longrightarrow> pj' + 1 \<le> k" using \<open>pj' = pi'\<close> by arith
        with inv show ?thesis by blast
      qed
      moreover have "pi' \<le> pgt'" using inv \<open>pj' = pi'\<close> by arith
      ultimately show ?thesis using inv unfolding part_inv_def by blast
    qed
    with up(1) down(1) True w show ?thesis
      by (subst part_loop.simps) simp
  next
    case False
    let ?ws = "zs[pi' := zs ! pj', pj' := zs ! pi']"
    have lt: "pi' < pj'" "pj' < pj" using False down(5) by auto
    have len: "pi' < length zs" "pj' < length zs" using inv lt by auto
    have "part_inv cmp P ?ws ptr plt' (pi' + 1) pj' pgt' hi"
      unfolding part_inv_def
    proof (intro conjI allI impI)
      fix k assume k: "plt' \<le> k \<and> k < pi' + 1"
      then have "k = pi' \<or> k < pi'" by arith
      with k show "cmp P (?ws ! k) > 0"
        using inv lt len down(4) by (elim disjE) (auto simp: nth_list_update)
    next
      fix k assume k: "pj' \<le> k \<and> k < pgt'"
      then have "k = pj' \<or> pj' + 1 \<le> k" by arith
      with k show "cmp P (?ws ! k) < 0"
        using inv lt len pi' by (elim disjE) (auto simp: nth_list_update)
    qed (use inv lt len in \<open>auto simp: nth_list_update\<close>)
    note inv' = this
    have "pj' - (pi' + 1) < pj - pi"
      using lt part_up_bounds [OF up(1)] by auto
    from less.hyps [OF this inv'] obtain us pi'' plt'' pgt'' where
      rec: "part_loop cmp ?ws ptr (pi' + 1) pj' plt' pgt' = Some (us, pi'', plt'', pgt'')"
        "part_inv cmp P us ptr plt'' pi'' pi'' pgt'' hi" "within (ptr + 1) hi ?ws us"
      by blast
    have "within (ptr + 1) hi zs ?ws" using inv lt len by (intro within_swp) auto
    with w rec(3) have "within (ptr + 1) hi xs us" by (blast intro: within_trans)
    moreover have "part_loop cmp xs ptr pi pj plt pgt = Some (us, pi'', plt'', pgt'')"
      using up(1) down(1) False len rec(1)
      by (subst part_loop.simps) (simp add: mem_simps)
    ultimately show ?thesis using rec(2) by blast
  qed
qed

text \<open>Swapping the smaller span of two adjacent parts exchanges the parts.\<close>

lemma swp_block_rotate:
  assumes "a \<le> m" "m \<le> b" "b \<le> length xs" "span = min (m - a) (b - m)"
    and Q: "\<And>k. a \<le> k \<Longrightarrow> k < m \<Longrightarrow> Q (xs ! k)"
    and R: "\<And>k. m \<le> k \<Longrightarrow> k < b \<Longrightarrow> R (xs ! k)"
  shows "\<exists>ys. swp_block xs a (b - span) span = Some ys \<and> within a b xs ys \<and>
    (\<forall>k. a \<le> k \<and> k < a + (b - m) \<longrightarrow> R (ys ! k)) \<and>
    (\<forall>k. a + (b - m) \<le> k \<and> k < b \<longrightarrow> Q (ys ! k))"
proof -
  have ord: "a + span \<le> b - span" "b - span + span \<le> length xs" "b - span + span = b"
    using assms(1-4) by (auto simp: min_def)
  from swp_block_spec [OF ord(1,2)] ord(3) obtain ys where
    ys: "swp_block xs a (b - span) span = Some ys" "within a b xs ys"
    and nth: "\<And>k. k < length xs \<Longrightarrow> ys ! k =
       (if a \<le> k \<and> k < a + span then xs ! (b - span + (k - a))
        else if b - span \<le> k \<and> k < b then xs ! (a + (k - (b - span))) else xs ! k)"
    by metis
  have "R (ys ! k)" if "a \<le> k" "k < a + (b - m)" for k
  proof (cases "k < a + span")
    case True
    moreover have "k < length xs" using True ord assms(3) by linarith
    ultimately have "ys ! k = xs ! (b - span + (k - a))" using nth [of k] that by simp
    moreover have "m \<le> b - span + (k - a)" "b - span + (k - a) < b"
      using True that assms(1-4) by (auto simp: min_def split: if_splits)
    ultimately show ?thesis using R by metis
  next
    case False
    then have "span = m - a" "m \<le> k" "k < b - span" using that assms(1-4) by (auto simp: min_def split: if_splits)
    moreover from this have "k < length xs" using assms(3) by linarith
    ultimately have "ys ! k = xs ! k" using nth [of k] False by simp
    with R \<open>m \<le> k\<close> \<open>k < b - span\<close> show ?thesis by simp
  qed
  moreover have "Q (ys ! k)" if "a + (b - m) \<le> k" "k < b" for k
  proof (cases "b - span \<le> k")
    case True
    moreover have "k < length xs" "a + span \<le> k" using True that ord assms(3) by linarith+
    ultimately have "ys ! k = xs ! (a + (k - (b - span)))" using nth [of k] that by simp
    moreover have "a \<le> a + (k - (b - span))" "a + (k - (b - span)) < m"
      using True that assms(1-4) by (auto simp: min_def split: if_splits)
    ultimately show ?thesis using Q by metis
  next
    case False
    then have "span = b - m" "k < m" "a + span \<le> k" using that assms(1-4) by (auto simp: min_def split: if_splits)
    moreover from this have "k < length xs" using assms(2,3) by linarith
    ultimately have "ys ! k = xs ! k" using nth [of k] False by simp
    with Q \<open>k < m\<close> \<open>a + span \<le> k\<close> show ?thesis by simp
  qed
  ultimately show ?thesis using ys by blast
qed

lemma med3_cases:
  assumes "i < length xs" "j < length xs" "k < length xs"
  shows "\<exists>m. med3 cmp xs i j k = Some m \<and> (m = i \<or> m = j \<or> m = k)"
  using assms by (simp add: med3_def mem_simps)

lemma qs_split_spec:
  assumes "6 < n" "ptr + n \<le> length xs"
  shows "\<exists>ys lt gt P. qs_split cmp xs ptr n = Some (ys, lt, gt, ptr + gt) \<and>
    lt < gt \<and> gt \<le> n \<and> within ptr (ptr + n) xs ys \<and>
    (\<forall>k. ptr \<le> k \<and> k < ptr + lt \<longrightarrow> cmp P (ys ! k) > 0) \<and>
    (\<forall>k. ptr + lt \<le> k \<and> k < ptr + gt \<longrightarrow> ys ! k = P \<or> cmp P (ys ! k) = 0) \<and>
    (\<forall>k. ptr + gt \<le> k \<and> k < ptr + n \<longrightarrow> cmp P (ys ! k) < 0)"
proof -
  let ?m4 = "n div 4" and ?hi = "ptr + n"
  have "ptr + 3 * ?m4 < ptr + n" using assms(1) by arith
  with assms obtain m where m: "med3 cmp xs (ptr + ?m4) (ptr + 2 * ?m4) (ptr + 3 * ?m4) = Some m"
    "ptr \<le> m" "m < ptr + n"
    using med3_cases [of "ptr + ?m4" xs "ptr + 2 * ?m4" "ptr + 3 * ?m4" cmp] by fastforce
  let ?xs1 = "xs[ptr := xs ! m, m := xs ! ptr]"
  define P where "P = ?xs1 ! ptr"
  have sw: "swp xs ptr m = Some ?xs1" using m assms by (intro swp_eq) auto
  have w1: "within ptr ?hi xs ?xs1" using m assms by (intro within_swp) auto
  have "part_inv cmp P ?xs1 ptr (ptr + 1) (ptr + 1) ?hi ?hi ?hi"
    using assms by (auto simp: part_inv_def P_def)
  from part_loop_spec [OF this] obtain xs2 pi plt pgt where
    loop: "part_loop cmp ?xs1 ptr (ptr + 1) ?hi (ptr + 1) ?hi = Some (xs2, pi, plt, pgt)"
    and inv: "part_inv cmp P xs2 ptr plt pi pi pgt ?hi"
    and w2: "within (ptr + 1) ?hi ?xs1 xs2" by blast
  note i = inv [unfolded part_inv_def]
  define s1 where "s1 = min (plt - ptr) (pi - plt)"
  define s2 where "s2 = min (pgt - pi) (?hi - pgt)"
  have "\<exists>xs3. swp_block xs2 ptr (pi - s1) s1 = Some xs3 \<and> within ptr pi xs2 xs3 \<and>
    (\<forall>k. ptr \<le> k \<and> k < ptr + (pi - plt) \<longrightarrow> cmp P (xs3 ! k) > 0) \<and>
    (\<forall>k. ptr + (pi - plt) \<le> k \<and> k < pi \<longrightarrow> xs3 ! k = P \<or> cmp P (xs3 ! k) = 0)"
  proof (rule swp_block_rotate [where m = plt])
    show "xs2 ! k = P \<or> cmp P (xs2 ! k) = 0" if "ptr \<le> k" "k < plt" for k
      using i that by (cases "k = ptr") auto
  qed (use i in \<open>auto simp: s1_def\<close>)
  then obtain xs3 where b1: "swp_block xs2 ptr (pi - s1) s1 = Some xs3" "within ptr pi xs2 xs3"
    "\<forall>k. ptr \<le> k \<and> k < ptr + (pi - plt) \<longrightarrow> cmp P (xs3 ! k) > 0"
    "\<forall>k. ptr + (pi - plt) \<le> k \<and> k < pi \<longrightarrow> xs3 ! k = P \<or> cmp P (xs3 ! k) = 0" by blast
  have keep3: "xs3 ! k = xs2 ! k" if "pi \<le> k" "k < ?hi" for k
    using within_outside [OF b1(2), of k] that i by auto
  have "\<exists>xs4. swp_block xs3 pi (?hi - s2) s2 = Some xs4 \<and> within pi ?hi xs3 xs4 \<and>
    (\<forall>k. pi \<le> k \<and> k < pi + (?hi - pgt) \<longrightarrow> cmp P (xs4 ! k) = 0) \<and>
    (\<forall>k. pi + (?hi - pgt) \<le> k \<and> k < ?hi \<longrightarrow> cmp P (xs4 ! k) < 0)"
    by (rule swp_block_rotate [where m = pgt])
       (use i b1(2) keep3 in \<open>auto simp: s2_def within_length\<close>)
  then obtain xs4 where b2: "swp_block xs3 pi (?hi - s2) s2 = Some xs4" "within pi ?hi xs3 xs4"
    "\<forall>k. pi \<le> k \<and> k < pi + (?hi - pgt) \<longrightarrow> cmp P (xs4 ! k) = 0"
    "\<forall>k. pi + (?hi - pgt) \<le> k \<and> k < ?hi \<longrightarrow> cmp P (xs4 ! k) < 0" by blast
  have keep4: "xs4 ! k = xs3 ! k" if "k < pi" for k
    using within_outside [OF b2(2), of k] that i b1(2) by (auto simp: within_length)
  let ?lt = "pi - plt" and ?gt = "n - (pgt - pi)"
  have gt: "ptr + ?gt = pi + (?hi - pgt)" "?hi - (pgt - pi) = ptr + ?gt" using i by auto
  have sp: "(if plt - ptr > pi - plt then pi - plt else plt - ptr) = s1"
    "(if ?hi - pgt > pgt - pi then pgt - pi else ?hi - pgt) = s2"
    by (auto simp: s1_def s2_def)
  have "qs_split cmp xs ptr n = Some (xs4, ?lt, ?gt, ptr + ?gt)"
    by (simp only: qs_split_def Let_def m(1) sw loop sp b1(1) b2(1) gt(2)
        Option.bind.simps prod.case)
  moreover have "within ptr ?hi xs xs4"
  proof (rule within_trans [OF w1], rule within_trans)
    show "within ptr ?hi ?xs1 xs2" by (rule within_mono [OF w2]) auto
    show "within ptr ?hi xs2 xs4"
    proof (rule within_trans)
      show "within ptr ?hi xs2 xs3" by (rule within_mono [OF b1(2)]) (use i in auto)
      show "within ptr ?hi xs3 xs4" by (rule within_mono [OF b2(2)]) (use i in auto)
    qed
  qed
  moreover have "?lt < ?gt" "?gt \<le> n" using i by auto
  moreover have "cmp P (xs4 ! k) > 0" if "ptr \<le> k" "k < ptr + ?lt" for k
  proof -
    have "k < pi" using that i by auto
    with keep4 b1(3) that show ?thesis by simp
  qed
  moreover have "xs4 ! k = P \<or> cmp P (xs4 ! k) = 0" if "ptr + ?lt \<le> k" "k < ptr + ?gt" for k
    using keep4 [of k] b1(4) b2(3) that gt(1) by (cases "k < pi") auto
  moreover have "cmp P (xs4 ! k) < 0" if "ptr + ?gt \<le> k" "k < ?hi" for k
    using b2(4) that gt(1) by auto
  ultimately show ?thesis by blast
qed

section \<open>Insertion sort and the stack\<close>

lemma ins_inner_within:
  "j < length xs \<Longrightarrow> \<exists>ys. ins_inner cmp xs ptr j = Some ys \<and> within ptr (j + 1) xs ys"
proof (induction j arbitrary: xs)
  case 0
  then show ?case by simp
next
  case (Suc j)
  show ?case
  proof (cases "Suc j > ptr \<and> cmp (xs ! j) (xs ! Suc j) > 0")
    case False
    then show ?thesis using Suc.prems by (auto simp: mem_simps)
  next
    case True
    let ?ys = "xs[Suc j := xs ! j, j := xs ! Suc j]"
    have "j < length ?ys" using Suc.prems by simp
    from Suc.IH [OF this] obtain zs where
      zs: "ins_inner cmp ?ys ptr j = Some zs" "within ptr (j + 1) ?ys zs" by blast
    have "within ptr (Suc j + 1) xs zs"
    proof (rule within_trans)
      show "within ptr (Suc j + 1) xs ?ys" using True Suc.prems by (intro within_swp) auto
      show "within ptr (Suc j + 1) ?ys zs" by (rule within_mono [OF zs(2)]) auto
    qed
    with zs True Suc.prems show ?thesis by (simp add: mem_simps)
  qed
qed

lemma ins_outer_within:
  "hi \<le> length xs \<Longrightarrow> \<exists>ys. ins_outer cmp xs ptr pi hi = Some ys \<and> within ptr hi xs ys"
proof (induction "hi - pi" arbitrary: xs pi rule: less_induct)
  case less
  show ?case
  proof (cases "pi < hi")
    case False
    then show ?thesis by (simp add: ins_outer.simps)
  next
    case True
    then have "pi < length xs" using less.prems by auto
    from ins_inner_within [OF this] obtain ys where
      ys: "ins_inner cmp xs ptr pi = Some ys" "within ptr (pi + 1) xs ys" by blast
    then have "hi \<le> length ys" "hi - (pi + 1) < hi - pi" using less.prems True by (auto simp: within_length)
    from less.hyps [OF this(2,1)] obtain zs where
      zs: "ins_outer cmp ys ptr (pi + 1) hi = Some zs" "within ptr hi ys zs" by blast
    have "within ptr hi xs ys" by (rule within_mono [OF ys(2)]) (use True in auto)
    with zs(2) have "within ptr hi xs zs" by (blast intro: within_trans)
    with ys(1) zs(1) True show ?thesis by (subst ins_outer.simps) simp
  qed
qed

text \<open>The pending segments lie inside the array, and their depths bound the stack's height.\<close>

fun stack_ok :: "nat \<Rightarrow> seg list \<Rightarrow> bool" where
  "stack_ok N [] = True"
| "stack_ok N ((b, c, d) # st) = (b + c \<le> N \<and> length st \<le> d \<and> d \<le> 50 \<and> stack_ok N st)"

lemma blit_fragment_within:
  assumes "p + n \<le> length xs" "within 0 n (take n (drop p xs)) ss"
  shows "blit xs p ss = Some (take p xs @ ss @ drop (p + n) xs)"
    "within p (p + n) xs (take p xs @ ss @ drop (p + n) xs)"
proof -
  let ?ys = "take p xs @ ss @ drop (p + n) xs"
  have len: "length ss = n" using assms by (simp add: within_length)
  with assms(1) show "blit xs p ss = Some ?ys" by (simp add: blit_def)
  have "mset ?ys = mset (take p xs @ take n (drop p xs) @ drop (p + n) xs)"
    using within_mset [OF assms(2)] by simp
  also have "take p xs @ take n (drop p xs) @ drop (p + n) xs = xs"
    by (metis append_take_drop_id drop_drop add.commute)
  finally have "mset ?ys = mset xs" .
  moreover have "length ?ys = length xs" using len assms(1) by simp
  moreover have "?ys ! i = xs ! i" if "i < length xs" "\<not> (p \<le> i \<and> i < p + n)" for i
    using that len assms(1) by (auto simp: nth_append min_def)
  moreover have "\<exists>k. p \<le> k \<and> k < p + n \<and> k < length xs \<and> ?ys ! i = xs ! k"
    if "p \<le> i" "i < p + n" for i
  proof -
    have "i - p < length (take n (drop p xs))" "i - p < n" using that assms(1) by auto
    from within_inside [OF assms(2) this(1) _ this(2)] obtain k where
      "k < n" "ss ! (i - p) = take n (drop p xs) ! k" by auto
    moreover have "\<not> i < p" using that by simp
    ultimately have "?ys ! i = xs ! (p + k)"
      using \<open>i - p < n\<close> len assms(1) by (simp add: nth_append)
    with \<open>k < n\<close> assms(1) show ?thesis by (intro exI [of _ "p + k"]) auto
  qed
  ultimately show "within p (p + n) xs ?ys" by (auto simp: within_def)
qed

end
