(* ===== verification/RQSort_Order.thy ===== *)
theory RQSort_Order
  imports RQSort_Proofs
begin

text \<open>
  The order half of the correctness of \<open>rqsort\<close>: what its comparison argument must
  promise is a locale, and under it heapsort, insertion sort and the quicksort loop
  put their range in order.
\<close>

section \<open>The contract of the comparison function\<close>

locale preorder_cmp =
  fixes cmp :: "'a cmp"
  assumes flip: "cmp a b > 0 \<longleftrightarrow> cmp b a < 0"
    and trans: "cmp a b \<le> 0 \<Longrightarrow> cmp b c \<le> 0 \<Longrightarrow> cmp a c \<le> 0"

definition ordered :: "'a cmp \<Rightarrow> 'a list \<Rightarrow> nat \<Rightarrow> nat \<Rightarrow> bool" where
  "ordered cmp xs p q \<longleftrightarrow> (\<forall>i j. p \<le> i \<and> i < j \<and> j < q \<longrightarrow> cmp (xs ! i) (xs ! j) \<le> 0)"

definition heap :: "'a cmp \<Rightarrow> 'a list \<Rightarrow> nat \<Rightarrow> nat \<Rightarrow> bool" where
  "heap cmp xs lo n \<longleftrightarrow>
     (\<forall>i c. lo \<le> i \<and> (c = 2 * i + 1 \<or> c = 2 * i + 2) \<and> c < n \<longrightarrow> cmp (xs ! c) (xs ! i) \<le> 0)"

context preorder_cmp begin

lemma refl: "cmp a a \<le> 0"
  using flip [of a a] by auto

lemma ge_le: "cmp a b \<ge> 0 \<Longrightarrow> cmp b a \<le> 0"
  using flip [of b a] by auto

lemma total: "cmp a b \<le> 0 \<or> cmp b a \<le> 0"
  using ge_le [of a b] by linarith

subsection \<open>Heapsort\<close>

lemma sift_down_heap:
  assumes "n \<le> length xs" "lo \<le> r" "sift_down cmp xs r n = Some ys"
    and "\<And>i c. lo \<le> i \<Longrightarrow> i \<noteq> r \<Longrightarrow> c = 2 * i + 1 \<or> c = 2 * i + 2 \<Longrightarrow> c < n \<Longrightarrow>
           cmp (xs ! c) (xs ! i) \<le> 0"
    and "\<And>i c. lo \<le> i \<Longrightarrow> r = 2 * i + 1 \<or> r = 2 * i + 2 \<Longrightarrow>
           c = 2 * r + 1 \<or> c = 2 * r + 2 \<Longrightarrow> c < n \<Longrightarrow> cmp (xs ! c) (xs ! i) \<le> 0"
  shows "heap cmp ys lo n"
  using assms
proof (induction "n - r" arbitrary: xs r rule: less_induct)
  case less
  note other = less.prems(4) and grand = less.prems(5)
  show ?case
  proof (cases "r * 2 + 1 < n")
    case False
    then have "ys = xs" using less.prems(3) by (simp add: sift_down.simps)
    with False other show ?thesis unfolding heap_def by (metis (no_types) Suc_eq_plus1
          add_2_eq_Suc' less_SucI mult.commute not_less_eq)
  next
    case True
    define d where "d = (if r * 2 + 1 < n - 1 \<and> cmp (xs ! (r * 2 + 1)) (xs ! (r * 2 + 1 + 1)) \<le> 0
      then r * 2 + 1 + 1 else r * 2 + 1)"
    have d: "r < d" "d < n" "d = 2 * r + 1 \<or> d = 2 * r + 2" using True by (auto simp: d_def)
    have big: "cmp (xs ! c) (xs ! d) \<le> 0" if "c = 2 * r + 1 \<or> c = 2 * r + 2" "c < n" for c
    proof (cases "c = d")
      case True
      then show ?thesis by (simp add: refl)
    next
      case False
      with that have "c = 2 * r + 1 \<and> d = 2 * r + 2 \<or> c = 2 * r + 2 \<and> d = 2 * r + 1"
        using d(3) by auto
      then show ?thesis
      proof
        assume "c = 2 * r + 1 \<and> d = 2 * r + 2"
        then show ?thesis by (auto simp: d_def mult.commute split: if_splits)
      next
        assume c: "c = 2 * r + 2 \<and> d = 2 * r + 1"
        then have "r * 2 + 1 < n - 1" using that by auto
        with c have "\<not> cmp (xs ! (2 * r + 1)) (xs ! (2 * r + 2)) \<le> 0"
          by (auto simp: d_def mult.commute split: if_splits)
        then have "cmp (xs ! (2 * r + 2)) (xs ! (2 * r + 1)) \<le> 0" using total by blast
        with c show ?thesis by simp
      qed
    qed
    let ?ys = "xs[r := xs ! d, d := xs ! r]"
    have step: "sift_down cmp xs r n =
      (if cmp (xs ! r) (xs ! d) > 0 then Some xs else sift_down cmp ?ys d n)"
      using True d less.prems(1)
      by (subst sift_down.simps) (auto simp: Let_def d_def mem_simps)
    show ?thesis
    proof (cases "cmp (xs ! r) (xs ! d) > 0")
      case True
      then have "ys = xs" "cmp (xs ! d) (xs ! r) \<le> 0"
        using less.prems(3) step ge_le [of "xs ! r" "xs ! d"] by auto
      with other big show ?thesis unfolding heap_def by (metis trans)
    next
      case False
      have len: "r < length xs" "d < length xs" using d less.prems(1) by auto
      have nth: "?ys ! k = (if k = r then xs ! d else if k = d then xs ! r else xs ! k)" for k
        using len by (auto simp: nth_list_update)
      show ?thesis
      proof (rule less.hyps [of d ?ys])
        show "n - d < n - r" "n \<le> length ?ys" "lo \<le> d" using d less.prems(1,2) by auto
        show "sift_down cmp ?ys d n = Some ys" using step False less.prems(3) by simp
      next
        fix i c assume a: "lo \<le> i" "i \<noteq> d" "c = 2 * i + 1 \<or> c = 2 * i + 2" "c < n"
        show "cmp (?ys ! c) (?ys ! i) \<le> 0"
        proof (cases "i = r")
          case True
          with a have "c \<noteq> r" by auto
          with True a big [of c] False d show ?thesis by (auto simp: nth)
        next
          case ne: False
          have "c \<noteq> d"
          proof
            assume "c = d"
            with a(3) d(3) have "i = r" by linarith
            with ne show False ..
          qed
          show ?thesis
          proof (cases "c = r")
            case True
            with grand [of i d] a d have "cmp (xs ! d) (xs ! i) \<le> 0" by auto
            with True ne a show ?thesis by (simp add: nth)
          next
            case False
            with other [of i c] ne a \<open>c \<noteq> d\<close> show ?thesis by (simp add: nth)
          qed
        qed
      next
        fix i c assume a: "lo \<le> i" "d = 2 * i + 1 \<or> d = 2 * i + 2"
          "c = 2 * d + 1 \<or> c = 2 * d + 2" "c < n"
        from a(2) d(3) have "i = r" by linarith
        moreover from a(3) d(1) have "c \<noteq> r" "c \<noteq> d" by linarith+
        moreover have "lo \<le> d" "d \<noteq> r" using d less.prems(2) by linarith+
        ultimately show "cmp (?ys ! c) (?ys ! i) \<le> 0"
          using other [OF _ _ a(3,4)] by (simp add: nth)
      qed
    qed
  qed
qed

lemma heap_build_heap:
  assumes "n \<le> length xs" "heap_build cmp xs i n = Some ys" "heap cmp xs i n"
  shows "heap cmp ys 0 n"
  using assms
proof (induction i arbitrary: xs)
  case 0
  then show ?case by simp
next
  case (Suc i)
  from sift_down_within [OF Suc.prems(1), of cmp i] obtain zs where
    zs: "sift_down cmp xs i n = Some zs" "within i n xs zs" by blast
  have "heap cmp zs i n"
    by (rule sift_down_heap [OF Suc.prems(1) _ zs(1)])
       (use Suc.prems(3) in \<open>auto simp: heap_def Suc_le_eq\<close>)
  moreover have "heap_build cmp zs i n = Some ys" "n \<le> length zs"
    using Suc.prems zs by (auto simp: within_length)
  ultimately show ?case using Suc.IH by blast
qed

lemma heap_root_max:
  assumes "heap cmp xs 0 n" "i < n"
  shows "cmp (xs ! i) (xs ! 0) \<le> 0"
  using assms(2)
proof (induction i rule: less_induct)
  case (less i)
  show ?case
  proof (cases "i = 0")
    case True
    then show ?thesis by (simp add: refl)
  next
    case False
    define p where "p = (i - 1) div 2"
    have p: "p < i" "i = 2 * p + 1 \<or> i = 2 * p + 2" using False unfolding p_def by arith+
    with assms(1) less.prems have "cmp (xs ! i) (xs ! p) \<le> 0" by (auto simp: heap_def)
    moreover have "cmp (xs ! p) (xs ! 0) \<le> 0" using less.IH p less.prems by auto
    ultimately show ?thesis by (rule trans)
  qed
qed

lemma heap_drain_ordered:
  assumes "i < n" "n \<le> length xs" "heap_drain cmp xs i = Some ys" "heap cmp xs 0 (Suc i)"
    and "\<And>a b. a \<le> i \<Longrightarrow> i < b \<Longrightarrow> b < n \<Longrightarrow> cmp (xs ! a) (xs ! b) \<le> 0"
    and "ordered cmp xs (Suc i) n"
  shows "ordered cmp ys 0 n"
  using assms
proof (induction i arbitrary: xs)
  case 0
  show ?case unfolding ordered_def
  proof (intro allI impI)
    fix a b assume ab: "0 \<le> a \<and> a < b \<and> b < n"
    have "ys = xs" using "0.prems"(3) by simp
    with ab "0.prems"(5) [of 0 b] "0.prems"(6) show "cmp (ys ! a) (ys ! b) \<le> 0"
      by (cases "a = 0") (auto simp: ordered_def)
  qed
next
  case (Suc i)
  let ?ys = "xs[0 := xs ! Suc i, Suc i := xs ! 0]"
  have len: "0 < length xs" "Suc i < length xs" "Suc i \<le> length ?ys" using Suc.prems by auto
  have nth: "?ys ! k = (if k = 0 then xs ! Suc i else if k = Suc i then xs ! 0 else xs ! k)" for k
    using len by (auto simp: nth_list_update)
  from sift_down_within [OF len(3), of cmp 0] obtain zs where
    zs: "sift_down cmp ?ys 0 (Suc i) = Some zs" "within 0 (Suc i) ?ys zs" by blast
  have keep: "zs ! b = ?ys ! b" if "Suc i \<le> b" "b < n" for b
    using within_outside [OF zs(2), of b] that Suc.prems(2) by auto
  have max: "cmp (xs ! a) (xs ! 0) \<le> 0" if "a \<le> Suc i" for a
    using heap_root_max [OF Suc.prems(4)] that by auto
  show ?case
  proof (rule Suc.IH)
    show "i < n" "n \<le> length zs" using Suc.prems zs(2) by (auto simp: within_length)
    show "heap_drain cmp zs i = Some ys"
      using Suc.prems(3) zs(1) len by (simp add: mem_simps)
    show "heap cmp zs 0 (Suc i)"
      by (rule sift_down_heap [OF len(3) _ zs(1)])
         (use Suc.prems(4) in \<open>auto simp: nth heap_def\<close>)
  next
    fix a b assume ab: "a \<le> i" "i < b" "b < n"
    have "cmp (?ys ! k) (zs ! b) \<le> 0" if "k < Suc i" for k
    proof (cases "b = Suc i")
      case True
      then have "zs ! b = xs ! 0" using keep [of b] ab by (simp add: nth)
      with max [of k] max [of "Suc i"] that show ?thesis by (auto simp: nth)
    next
      case False
      then have "zs ! b = xs ! b" "Suc i < b" using keep [of b] ab by (auto simp: nth)
      with Suc.prems(5) [of _ b] that ab show ?thesis by (auto simp: nth)
    qed
    from within_all [OF zs(2), of "\<lambda>e. cmp e (zs ! b) \<le> 0" a] this ab len
    show "cmp (zs ! a) (zs ! b) \<le> 0" by auto
  next
    show "ordered cmp zs (Suc i) n" unfolding ordered_def
    proof (intro allI impI)
      fix a b assume ab: "Suc i \<le> a \<and> a < b \<and> b < n"
      then have e: "zs ! a = ?ys ! a" "zs ! b = xs ! b" using keep [of a] keep [of b] by (auto simp: nth)
      show "cmp (zs ! a) (zs ! b) \<le> 0"
      proof (cases "a = Suc i")
        case True
        with ab Suc.prems(5) [of 0 b] e show ?thesis by (simp add: nth)
      next
        case False
        with ab Suc.prems(6) e show ?thesis by (simp add: nth ordered_def)
      qed
    qed
  qed
qed

lemma heapsortx_ordered:
  assumes "n \<le> length xs" "heapsortx cmp xs n = Some ys"
  shows "ordered cmp ys 0 n"
proof (cases "n > 1")
  case False
  then show ?thesis by (auto simp: ordered_def)
next
  case True
  from heap_build_within [OF assms(1), of cmp "n div 2"] obtain zs where
    zs: "heap_build cmp xs (n div 2) n = Some zs" "within 0 n xs zs" by blast
  have "heap cmp zs 0 n"
    by (rule heap_build_heap [OF assms(1) zs(1)]) (auto simp: heap_def)
  moreover have "heap_drain cmp zs (n - 1) = Some ys"
    using assms(2) True zs(1) by (simp add: heapsortx_def)
  moreover have "n - 1 < n" "Suc (n - 1) = n" "n \<le> length zs"
    using True assms(1) zs(2) by (auto simp: within_length)
  moreover have "ordered cmp zs n n" by (simp add: ordered_def)
  ultimately show ?thesis
    using heap_drain_ordered [of "n - 1" n zs ys] by fastforce
qed

subsection \<open>Insertion sort\<close>

lemma ins_inner_ordered:
  assumes "ins_inner cmp xs ptr j = Some ys" "ptr \<le> j" "j \<le> m" "m < length xs"
    and "\<And>i k. ptr \<le> i \<Longrightarrow> i < k \<Longrightarrow> k \<le> m \<Longrightarrow> k \<noteq> j \<Longrightarrow> cmp (xs ! i) (xs ! k) \<le> 0"
  shows "ordered cmp ys ptr (m + 1)"
  using assms
proof (induction j arbitrary: xs)
  case 0
  then show ?case by (auto simp: ordered_def)
next
  case (Suc j)
  note pairs = Suc.prems(5)
  show ?case
  proof (cases "Suc j > ptr \<and> cmp (xs ! j) (xs ! Suc j) > 0")
    case False
    then have "ys = xs" using Suc.prems by (auto simp: mem_simps split: if_splits)
    have "cmp (xs ! i) (xs ! k) \<le> 0" if "ptr \<le> i" "i < k" "k \<le> m" for i k
    proof (cases "k = Suc j")
      case True
      then have le: "cmp (xs ! j) (xs ! Suc j) \<le> 0" using False that by auto
      show ?thesis
      proof (cases "i = j")
        case True
        with le \<open>k = Suc j\<close> show ?thesis by simp
      next
        case False
        with that \<open>k = Suc j\<close> have "cmp (xs ! i) (xs ! j) \<le> 0" by (intro pairs) auto
        with le \<open>k = Suc j\<close> show ?thesis by (auto intro: trans)
      qed
    next
      case False
      with that show ?thesis by (intro pairs) auto
    qed
    with \<open>ys = xs\<close> show ?thesis by (auto simp: ordered_def)
  next
    case True
    let ?ys = "xs[Suc j := xs ! j, j := xs ! Suc j]"
    have len: "Suc j < length xs" using Suc.prems by auto
    have nth: "?ys ! k = (if k = j then xs ! Suc j else if k = Suc j then xs ! j else xs ! k)" for k
      using len by (auto simp: nth_list_update)
    have le: "cmp (xs ! Suc j) (xs ! j) \<le> 0" using True flip by fastforce
    show ?thesis
    proof (rule Suc.IH)
      show "ins_inner cmp ?ys ptr j = Some ys"
        using Suc.prems(1) True len by (simp add: mem_simps)
      show "ptr \<le> j" "j \<le> m" "m < length ?ys" using True Suc.prems by auto
    next
      fix i k assume ik: "ptr \<le> i" "i < k" "k \<le> m" "k \<noteq> j"
      consider "k = Suc j" "i = j" | "k = Suc j" "i < j" | "k < j" | "k > Suc j" "i = j"
        | "k > Suc j" "i = Suc j" | "k > Suc j" "i \<noteq> j" "i \<noteq> Suc j"
        using ik by linarith
      then show "cmp (?ys ! i) (?ys ! k) \<le> 0"
        by cases (use ik le pairs [of i j] pairs [of "Suc j" k] pairs [of j k] pairs [of i k]
            True in \<open>auto simp: nth\<close>)
    qed
  qed
qed

lemma ins_outer_ordered:
  assumes "ins_outer cmp xs ptr pi hi = Some ys" "hi \<le> length xs" "ptr < pi"
    "ordered cmp xs ptr pi"
  shows "ordered cmp ys ptr hi"
  using assms
proof (induction "hi - pi" arbitrary: xs pi rule: less_induct)
  case less
  show ?case
  proof (cases "pi < hi")
    case False
    then have "ys = xs" using less.prems(1) by (simp add: ins_outer.simps)
    with False less.prems show ?thesis by (auto simp: ordered_def)
  next
    case True
    then have "pi < length xs" using less.prems by auto
    from ins_inner_within [OF this, of cmp ptr] obtain zs where
      zs: "ins_inner cmp xs ptr pi = Some zs" "within ptr (pi + 1) xs zs" by blast
    have "ordered cmp zs ptr (pi + 1)"
      by (rule ins_inner_ordered [OF zs(1) _ order.refl \<open>pi < length xs\<close>])
         (use less.prems in \<open>auto simp: ordered_def\<close>)
    moreover have "ins_outer cmp zs ptr (pi + 1) hi = Some ys"
      using less.prems(1) zs(1) True by (subst (asm) ins_outer.simps) simp
    ultimately show ?thesis
      using True less.prems zs(2) less.hyps [of "pi + 1" zs] by (auto simp: within_length)
  qed
qed

end

section \<open>The pending segments\<close>

fun covers :: "nat \<Rightarrow> seg \<Rightarrow> bool" where
  "covers i (b, c, d) \<longleftrightarrow> b \<le> i \<and> i < b + c"

text \<open>
  The segments still to be sorted are disjoint, and two elements of the first \<open>N\<close>
  that are not in one of them are already in order.
\<close>

definition pend :: "'a cmp \<Rightarrow> nat \<Rightarrow> seg list \<Rightarrow> 'a list \<Rightarrow> bool" where
  "pend cmp N segs xs \<longleftrightarrow>
     (\<forall>i. length (filter (covers i) segs) \<le> 1) \<and>
     (\<forall>i j. i < j \<and> j < N \<longrightarrow>
        (\<exists>s \<in> set segs. covers i s \<and> covers j s) \<or> cmp (xs ! i) (xs ! j) \<le> 0)"

lemma pend_swap: "pend cmp N (a # b # segs) xs = pend cmp N (b # a # segs) xs"
  by (auto simp: pend_def)

lemma pend_outside:
  assumes "pend cmp N ((p, n, d) # segs) xs" "p \<le> i" "i < p + n" "s \<in> set segs"
  shows "\<not> covers i s"
proof
  assume "covers i s"
  with assms(4) have "0 < length (filter (covers i) segs)" by (auto simp: filter_empty_conv)
  moreover have "length (filter (covers i) ((p, n, d) # segs)) \<le> 1"
    using assms(1) by (simp only: pend_def)
  ultimately show False using assms(2,3) by simp
qed

lemma pend_within:
  assumes "pend cmp N ((p, n, d) # segs) xs" "within p (p + n) xs ys" "N \<le> length xs"
    "p + n \<le> N"
  shows "pend cmp N ((p, n, d) # segs) ys"
  unfolding pend_def
proof (intro conjI allI impI)
  show "length (filter (covers i) ((p, n, d) # segs)) \<le> 1" for i
    using assms(1) by (simp only: pend_def)
next
  fix i j assume ij: "i < j \<and> j < N"
  let ?in = "\<lambda>i. p \<le> i \<and> i < p + n"
  have old: "(\<exists>s \<in> set ((p, n, d) # segs). covers a s \<and> covers b s) \<or> cmp (xs ! a) (xs ! b) \<le> 0"
    if "a < b" "b < N" for a b
    using assms(1) that by (simp only: pend_def)
  have le: "cmp (xs ! a) (xs ! b) \<le> 0" if "a < b" "b < N" "?in a \<noteq> ?in b" for a b
    using old [OF that(1,2)] that(3) pend_outside [OF assms(1)] by auto
  have len: "i < length xs" "j < length xs" using ij assms(3) by auto
  consider "?in i" "?in j" | "\<not> ?in i" "\<not> ?in j" | "?in i" "\<not> ?in j" | "\<not> ?in i" "?in j" by blast
  then show "(\<exists>s \<in> set ((p, n, d) # segs). covers i s \<and> covers j s) \<or> cmp (ys ! i) (ys ! j) \<le> 0"
  proof cases
    case 1
    then show ?thesis by auto
  next
    case 2
    with old [of i j] ij within_outside [OF assms(2) len(1)] within_outside [OF assms(2) len(2)]
    show ?thesis by simp
  next
    case 3
    then have j: "p + n \<le> j" "ys ! j = xs ! j"
      using ij within_outside [OF assms(2) len(2)] by auto
    have "cmp (xs ! k) (ys ! j) \<le> 0" if "p \<le> k" "k < p + n" for k
      using le [of k j] that j ij by auto
    with within_all [OF assms(2), of "\<lambda>e. cmp e (ys ! j) \<le> 0" i] 3 len show ?thesis by auto
  next
    case 4
    then have i: "i < p" "ys ! i = xs ! i"
      using ij within_outside [OF assms(2) len(1)] by auto
    from within_inside [OF assms(2) len(2)] 4 obtain k where
      k: "p \<le> k" "k < p + n" "k < length xs" "ys ! j = xs ! k" by auto
    with le [of i k] i assms(4) show ?thesis by auto
  qed
qed

lemma pend_done:
  assumes "pend cmp N ((p, n, d) # segs) xs" "ordered cmp xs p (p + n)"
  shows "pend cmp N segs xs"
  unfolding pend_def
proof (intro conjI allI impI)
  fix i
  have "length (filter (covers i) ((p, n, d) # segs)) \<le> 1"
    using assms(1) by (simp only: pend_def)
  then show "length (filter (covers i) segs) \<le> 1" by (simp split: if_splits)
next
  fix i j assume ij: "i < j \<and> j < N"
  with assms(1) have "(\<exists>s \<in> set ((p, n, d) # segs). covers i s \<and> covers j s) \<or>
      cmp (xs ! i) (xs ! j) \<le> 0" by (simp only: pend_def)
  then show "(\<exists>s \<in> set segs. covers i s \<and> covers j s) \<or> cmp (xs ! i) (xs ! j) \<le> 0"
  proof (elim disjE bexE conjE)
    fix s assume s: "s \<in> set ((p, n, d) # segs)" "covers i s" "covers j s"
    show ?thesis
    proof (cases "s = (p, n, d)")
      case True
      with s ij assms(2) show ?thesis by (simp add: ordered_def)
    next
      case False
      with s show ?thesis by auto
    qed
  qed simp
qed

lemma pend_split:
  assumes "pend cmp N ((p, n, d) # segs) xs" "lt \<le> gt" "gt \<le> n"
    and "\<And>i j. p \<le> i \<Longrightarrow> i < j \<Longrightarrow> j < p + n \<Longrightarrow> \<not> j < p + lt \<Longrightarrow> \<not> p + gt \<le> i \<Longrightarrow>
           cmp (xs ! i) (xs ! j) \<le> 0"
  shows "pend cmp N ((p, lt, d1) # (p + gt, n - gt, d2) # segs) xs"
  unfolding pend_def
proof (intro conjI allI impI)
  fix i
  have "length (filter (covers i) ((p, n, d) # segs)) \<le> 1"
    using assms(1) by (simp only: pend_def)
  then show "length (filter (covers i) ((p, lt, d1) # (p + gt, n - gt, d2) # segs)) \<le> 1"
    using assms(2,3) by (auto split: if_splits)
next
  fix i j assume ij: "i < j \<and> j < N"
  with assms(1) have "(\<exists>s \<in> set ((p, n, d) # segs). covers i s \<and> covers j s) \<or>
      cmp (xs ! i) (xs ! j) \<le> 0" by (simp only: pend_def)
  with assms(2,3) assms(4) [of i j] ij
  show "(\<exists>s \<in> set ((p, lt, d1) # (p + gt, n - gt, d2) # segs). covers i s \<and> covers j s) \<or>
      cmp (xs ! i) (xs ! j) \<le> 0"
    using assms(2,3) by (auto simp: not_le not_less)
qed

section \<open>The loops\<close>

text \<open>Three-way partitioning puts the three parts in order.\<close>

context preorder_cmp begin

lemma le_pivot: "cmp P a > 0 \<or> a = P \<or> cmp P a = 0 \<Longrightarrow> cmp a P \<le> 0"
  using ge_le [of P a] refl by auto

lemma pivot_le: "a = P \<or> cmp P a = 0 \<or> cmp P a < 0 \<Longrightarrow> cmp P a \<le> 0"
  using refl by auto

lemma split_parts_ordered:
  assumes "\<forall>k. p \<le> k \<and> k < p + lt \<longrightarrow> cmp P (xs ! k) > 0"
    and "\<forall>k. p + lt \<le> k \<and> k < p + gt \<longrightarrow> xs ! k = P \<or> cmp P (xs ! k) = 0"
    and "\<forall>k. p + gt \<le> k \<and> k < p + n \<longrightarrow> cmp P (xs ! k) < 0"
    and "p \<le> i" "i < j" "j < p + n" "\<not> j < p + lt" "\<not> p + gt \<le> i"
  shows "cmp (xs ! i) (xs ! j) \<le> 0"
proof (rule trans)
  show "cmp (xs ! i) P \<le> 0"
    using assms by (intro le_pivot) (metis linorder_not_less)
  show "cmp P (xs ! j) \<le> 0"
    using assms by (intro pivot_le) (metis linorder_not_less)
qed

end

lemma qs_narrow_spec:
  assumes "stack_ok N st" "ptr + n \<le> N" "length st \<le> depth" "depth \<le> 50" "N \<le> length xs"
  shows "\<exists>ys st' p' n'. qs_narrow cmp xs st ptr n depth = Some (ys, st', p', n') \<and>
    stack_ok N st' \<and> p' + n' \<le> N \<and> within 0 N xs ys \<and>
    (preorder_cmp cmp \<longrightarrow> pend cmp N ((ptr, n, depth) # st) xs \<longrightarrow>
       pend cmp N ((p', n', 0) # st') ys)"
  using assms
proof (induction "51 - depth" arbitrary: xs st ptr n depth rule: less_induct)
  case less
  note pre = less.prems
  show ?case
  proof (cases "6 < n")
    case False
    then have "qs_narrow cmp xs st ptr n depth = Some (xs, st, ptr, n)"
      by (subst qs_narrow.simps) simp
    with pre show ?thesis by (auto simp: pend_def)
  next
    case n: True
    show ?thesis
    proof (cases "depth < 50")
      case False
      let ?f = "take n (drop ptr xs)"
      have f: "grab xs ptr n = Some ?f" "n \<le> length ?f" using pre by (auto simp: grab_def)
      from heapsortx_within [OF f(2)] obtain ss where
        ss: "heapsortx cmp ?f n = Some ss" "within 0 n ?f ss" by blast
      let ?ys = "take ptr xs @ ss @ drop (ptr + n) xs"
      have fit: "ptr + n \<le> length xs" using pre by simp
      note b = blit_fragment_within [OF fit ss(2)]
      have "qs_narrow cmp xs st ptr n depth = Some (?ys, st, ptr, 0)"
        using n False f(1) ss(1) b(1) by (subst qs_narrow.simps) (simp add: Let_def)
      moreover have "within 0 N xs ?ys" by (rule within_mono [OF b(2)]) (use pre in auto)
      moreover have "pend cmp N ((ptr, 0, 0) # st) ?ys"
        if c: "preorder_cmp cmp" and p: "pend cmp N ((ptr, n, depth) # st) xs"
      proof -
        have o: "ordered cmp ss 0 n" by (rule preorder_cmp.heapsortx_ordered [OF c f(2) ss(1)])
        have len: "length ss = n" using ss(2) f(2) by (auto simp: within_length)
        have "ordered cmp ?ys ptr (ptr + n)" unfolding ordered_def
        proof (intro allI impI)
          fix i j assume ij: "ptr \<le> i \<and> i < j \<and> j < ptr + n"
          then have "?ys ! i = ss ! (i - ptr)" "?ys ! j = ss ! (j - ptr)"
            using len fit by (auto simp: nth_append)
          moreover have "cmp (ss ! (i - ptr)) (ss ! (j - ptr)) \<le> 0"
            by (rule o [unfolded ordered_def, rule_format]) (use ij in auto)
          ultimately show "cmp (?ys ! i) (?ys ! j) \<le> 0" by simp
        qed
        with pend_within [OF p b(2) pre(5,2)] have "pend cmp N st ?ys" by (blast intro: pend_done)
        then show ?thesis by (auto simp: pend_def)
      qed
      ultimately show ?thesis using pre by auto
    next
      case True
      have fit: "ptr + n \<le> length xs" using pre by simp
      from qs_split_spec [OF n fit, of cmp] obtain ys lt gt P where
        sp: "qs_split cmp xs ptr n = Some (ys, lt, gt, ptr + gt)" "lt < gt" "gt \<le> n"
        and w: "within ptr (ptr + n) xs ys"
        and parts: "\<forall>k. ptr \<le> k \<and> k < ptr + lt \<longrightarrow> cmp P (ys ! k) > 0"
          "\<forall>k. ptr + lt \<le> k \<and> k < ptr + gt \<longrightarrow> ys ! k = P \<or> cmp P (ys ! k) = 0"
          "\<forall>k. ptr + gt \<le> k \<and> k < ptr + n \<longrightarrow> cmp P (ys ! k) < 0" by blast
      have wN: "within 0 N xs ys" by (rule within_mono [OF w]) (use pre in auto)
      have order: "pend cmp N ((ptr, lt, depth + 1) # (ptr + gt, n - gt, depth + 1) # st) ys"
        if c: "preorder_cmp cmp" and p: "pend cmp N ((ptr, n, depth) # st) xs"
        using pend_split [OF pend_within [OF p w pre(5,2)] less_imp_le [OF sp(2)] sp(3)
            preorder_cmp.split_parts_ordered [OF c parts]] by blast
      define big where "big = (lt > n - gt)"
      define p' where "p' = (if big then ptr + gt else ptr)"
      define n' where "n' = (if big then n - gt else lt)"
      define seg where "seg = (if big then (ptr, lt, depth + 1) else (ptr + gt, n - gt, depth + 1))"
      have run: "qs_narrow cmp xs st ptr n depth = qs_narrow cmp ys (seg # st) p' n' (depth + 1)"
        using qs_narrow_split [OF n True sp(1), of st] pre True
        by (auto simp: big_def p'_def n'_def seg_def push_seg_def)
      have "stack_ok N (seg # st)" "p' + n' \<le> N" "length (seg # st) \<le> depth + 1"
        "depth + 1 \<le> 50" "N \<le> length ys"
        using pre sp True w by (auto simp: seg_def p'_def n'_def within_length)
      from less.hyps [OF _ this] True obtain zs st' p'' n'' where
        rec: "qs_narrow cmp ys (seg # st) p' n' (depth + 1) = Some (zs, st', p'', n'')"
          "stack_ok N st'" "p'' + n'' \<le> N" "within 0 N ys zs"
        and pz: "preorder_cmp cmp \<longrightarrow> pend cmp N ((p', n', depth + 1) # seg # st) ys \<longrightarrow>
           pend cmp N ((p'', n'', 0) # st') zs" by force
      have "within 0 N xs zs" using wN rec(4) by (rule within_trans)
      moreover have "pend cmp N ((p', n', depth + 1) # seg # st) ys"
        if "preorder_cmp cmp" "pend cmp N ((ptr, n, depth) # st) xs"
        using order [OF that] by (cases big) (auto simp: p'_def n'_def seg_def intro: pend_swap [THEN iffD1])
      ultimately show ?thesis using run rec pz by auto
    qed
  qed
qed

lemma rqs_loop_spec:
  assumes "stack_ok N st" "N \<le> length xs"
  shows "\<exists>ys. rqs_loop cmp xs st = Some ys \<and> within 0 N xs ys \<and>
    (preorder_cmp cmp \<longrightarrow> pend cmp N st xs \<longrightarrow> pend cmp N [] ys)"
  using assms
proof (induction cmp xs st rule: rqs_loop.induct)
  case (1 cmp xs)
  then show ?case by simp
next
  case (2 cmp xs base n depth st)
  then obtain ys st' p m where nar: "qs_narrow cmp xs st base n depth = Some (ys, st', p, m)"
      "stack_ok N st'" "p + m \<le> N" "within 0 N xs ys"
    and np: "preorder_cmp cmp \<longrightarrow> pend cmp N ((base, n, depth) # st) xs \<longrightarrow>
       pend cmp N ((p, m, 0) # st') ys"
    using qs_narrow_spec [of N st base n depth xs cmp] by auto
  have len: "length ys = length xs" using nar(4) by (rule within_length)
  then have fit: "p + m \<le> length ys" using nar(3) 2(3) by simp
  from ins_outer_within [OF fit] obtain zs where
    ins: "ins_outer cmp ys p (p + 1) (p + m) = Some zs" "within p (p + m) ys zs" by blast
  have wz: "within 0 N ys zs" by (rule within_mono [OF ins(2)]) (use nar(3) in auto)
  have "N \<le> length zs" using 2(3) len within_length [OF ins(2)] by simp
  from "2.IH" [OF nar(1) refl refl refl ins(1) nar(2) this] obtain vs where
    rec: "rqs_loop cmp zs st' = Some vs" "within 0 N zs vs"
      "preorder_cmp cmp \<longrightarrow> pend cmp N st' zs \<longrightarrow> pend cmp N [] vs" by blast
  have "pend cmp N [] vs"
    if c: "preorder_cmp cmp" and q: "pend cmp N ((base, n, depth) # st) xs"
  proof -
    have "pend cmp N ((p, m, 0) # st') ys" using np c q by blast
    then have "pend cmp N ((p, m, 0) # st') zs"
      by (rule pend_within [OF _ ins(2)]) (use nar(3) 2(3) len in auto)
    moreover have "ordered cmp zs p (p + m)"
      by (rule preorder_cmp.ins_outer_ordered [OF c ins(1) fit]) (auto simp: ordered_def)
    ultimately have "pend cmp N st' zs" by (rule pend_done)
    with rec(3) c show ?thesis by blast
  qed
  moreover have "within 0 N xs vs"
    using nar(4) within_trans [OF wz rec(2)] by (rule within_trans)
  ultimately show ?case using nar(1) ins(1) rec(1) by simp
qed

text \<open>The whole sort.\<close>

lemma rqsort_within:
  assumes "n \<le> length xs"
  shows "\<exists>ys. rqsort cmp xs n = Some ys \<and> within 0 n xs ys"
  using rqs_loop_spec [of n "[(0, n, 0)]" xs cmp] assms by (auto simp: rqsort_def)

lemma within_take_drop:
  assumes "within 0 n xs ys"
  shows "drop n ys = drop n xs" "mset (take n ys) = mset (take n xs)"
proof -
  have len: "length ys = length xs" using assms by (rule within_length)
  show d: "drop n ys = drop n xs"
    by (rule nth_equalityI) (use len within_outside [OF assms] in auto)
  have "mset (take n ys) + mset (drop n ys) = mset (take n xs) + mset (drop n xs)"
    using within_mset [OF assms] by (metis append_take_drop_id mset_append)
  then show "mset (take n ys) = mset (take n xs)" by (simp add: d)
qed

lemma rqsort_ordered:
  assumes "preorder_cmp cmp" "n \<le> length xs" "rqsort cmp xs n = Some ys"
  shows "ordered cmp ys 0 n"
proof (cases "n < 2")
  case True
  then show ?thesis by (auto simp: ordered_def)
next
  case False
  have "pend cmp n [(0, n, 0)] xs" by (auto simp: pend_def)
  with rqs_loop_spec [of n "[(0, n, 0)]" xs cmp] assms False
  have "pend cmp n [] ys" by (auto simp: rqsort_def)
  then show ?thesis by (auto simp: pend_def ordered_def)
qed

text \<open>
  C3: \<open>rqsort\<close> terminates and is safe for every comparison function, even an
  inconsistent one: it never reads or writes outside the first \<open>nmemb\<close> elements,
  never overflows its fifty-entry stack, and permutes those elements.
\<close>

theorem rqsort_safe_permutation:
  assumes "nmemb \<le> length xs"
  shows "\<exists>ys. rqsort cmp xs nmemb = Some ys \<and> length ys = length xs \<and>
    mset (take nmemb ys) = mset (take nmemb xs) \<and> drop nmemb ys = drop nmemb xs"
  using rqsort_within [OF assms, of cmp] within_take_drop within_length by blast

lemma rqsort_safe_permutation_witness:
  "\<exists>ys. rqsort (\<lambda>a b. 1) [3, 1, 2 :: nat] 2 = Some ys \<and> mset (take 2 ys) = {#1, 3#}"
  using rqsort_safe_permutation [of 2 "[3, 1, 2 :: nat]" "\<lambda>a b. 1"]
  by (auto simp: add_mset_commute)

text \<open>
  C2: with a comparison that is antisymmetric in sign and transitive, \<open>rqsort\<close> sorts:
  in its result no element compares greater than a later one.
\<close>

theorem rqsort_sorts:
  assumes "\<And>a b. cmp a b > 0 \<longleftrightarrow> cmp b a < 0"
    and "\<And>a b c. cmp a b \<le> 0 \<Longrightarrow> cmp b c \<le> 0 \<Longrightarrow> cmp a c \<le> 0"
    and "nmemb \<le> length xs"
  shows "\<exists>ys. rqsort cmp xs nmemb = Some ys \<and> mset (take nmemb ys) = mset (take nmemb xs) \<and>
    sorted_wrt (\<lambda>a b. cmp a b \<le> 0) (take nmemb ys)"
proof -
  have c: "preorder_cmp cmp" using assms(1,2) by unfold_locales
  from rqsort_within [OF assms(3)] obtain ys where
    y: "rqsort cmp xs nmemb = Some ys" "within 0 nmemb xs ys" by blast
  have "ordered cmp ys 0 nmemb" by (rule rqsort_ordered [OF c assms(3) y(1)])
  then have "sorted_wrt (\<lambda>a b. cmp a b \<le> 0) (take nmemb ys)"
    by (simp add: sorted_wrt_iff_nth_less ordered_def)
  with y within_take_drop [OF y(2)] show ?thesis by blast
qed

lemma rqsort_sorts_witness:
  "\<exists>ys. rqsort (\<lambda>a b. a - b) [3, 1, 2 :: int] 3 = Some ys \<and> sorted (take 3 ys)"
  using rqsort_sorts [of "\<lambda>a b. a - b" 3 "[3, 1, 2 :: int]"] by auto

section \<open>The byte-level exchange\<close>

lemma exchange_units_swaps:
  "length a = n * w \<Longrightarrow> length b = n * w \<Longrightarrow> exchange_units w n a b = (b, a)"
  by (induction w n a b rule: exchange_units.induct) (auto simp: Let_def)

text \<open>The low bits of \<open>base | size\<close> decide which power of two divides the size.\<close>

lemma low_bits_dvd:
  fixes base sz :: u64
  assumes "unat ((base OR sz) AND 15) mod 2 ^ n = 0" "n \<le> 4"
  shows "2 ^ n dvd unat sz"
proof -
  have "unat (take_bit n ((base OR sz) AND 15)) = 0"
    using assms(1) by (simp only: unat_take_bit_mod)
  then have z: "take_bit n ((base OR sz) AND mask 4) = 0"
    by (simp add: unat_eq_zero mask_eq_exp_minus_1)
  have "take_bit n sz = 0"
  proof (rule bit_word_eqI)
    fix i
    have "\<not> bit (take_bit n ((base OR sz) AND mask 4)) i" unfolding z by simp
    then show "bit (take_bit n sz) i = bit (0 :: u64) i"
      using assms(2) by (auto simp: bit_simps)
  qed
  then have "unat (take_bit n sz) = 0" by simp
  then show ?thesis by (simp add: unat_take_bit_mod dvd_eq_mod_eq_0)
qed

text \<open>
  whichever routine \<open>exchange_func\<close> picks from the alignment of the array and the
  element size, it exchanges exactly the two elements.
\<close>

theorem exchange_func_swaps:
  assumes "length a = unat sz" "length b = unat sz"
  shows "exchange (exchange_func base sz) a b (unat sz) = (b, a)"
proof -
  let ?k = "(base OR sz) AND 15"
  have many: "exchange_units w (unat sz div w) a b = (b, a)" if "w dvd unat sz" for w
    using that assms by (intro exchange_units_swaps) auto
  have one: "exchange_units (unat sz) 1 a b = (b, a)"
    using assms by (intro exchange_units_swaps) auto
  have d: "2 ^ n dvd unat sz" if "unat ?k = j" "n \<le> 4" "j mod 2 ^ n = 0" for n j
    using that by (intro low_bits_dvd [of base sz]) simp_all
  show ?thesis
    using d [of 0 4] d [of 8 3] d [of 4 2] d [of 12 2] d [of 2 1] d [of 6 1] d [of 10 1]
      d [of 14 1] many [of 16] many [of 8] many [of 4] many [of 2] many [of 1] one
    by (auto simp: exchange_func_def Let_def unat_arith_simps)
qed

lemma exchange_func_swaps_witness:
  "exchange (exchange_func 8 4) [1, 2, 3, 4] [5, 6, 7, 8] 4 = ([5, 6, 7, 8], [1, 2, 3, 4])"
  using exchange_func_swaps [of "[1, 2, 3, 4]" 4 "[5, 6, 7, 8]" 8] by simp

end
