(* ===== verification/CharRange.thy ===== *)
theory CharRange
  imports Cutils RQSort_Order
begin

text \<open>
  The character ranges of \<open>src/src/deps/libunicode.c\<close> that regular expression classes
  are compiled to: \<open>cr_init\<close>, \<open>cr_realloc\<close>, \<open>cr_copy\<close>, \<open>cr_add_point\<close>,
  \<open>cr_add_interval\<close>, \<open>cr_compress\<close>, \<open>cr_op\<close>, \<open>cr_op1\<close>, \<open>cr_union_interval\<close>,
  \<open>cr_invert\<close> and \<open>cr_sort_and_remove_overlap\<close>.

  A range is a growable array of points; the code points in it are those that an
  odd number of points do not exceed.  The operations are shown to be the set
  operations on that meaning and to leave strictly increasing points.
\<close>

section \<open>State and storage\<close>

type_synonym cr_alloc = "u32 allocate"

record charrange =
  cr_len :: nat
  cr_size :: nat
  cr_points :: "u32 list option"
  cr_realloc_func :: cr_alloc

text \<open>The memory object behind \<open>cr->points\<close> and the points in use.\<close>

definition cr_words :: "charrange \<Rightarrow> u32 list" where
  "cr_words cr = (case cr_points cr of None \<Rightarrow> [] | Some b \<Rightarrow> b)"

definition cr_list :: "charrange \<Rightarrow> u32 list" where
  "cr_list cr = take (cr_len cr) (cr_words cr)"

definition cr_ok :: "charrange \<Rightarrow> bool" where
  "cr_ok cr \<longleftrightarrow> cr_len cr \<le> cr_size cr \<and> length (cr_words cr) = cr_size cr"

text \<open>\<open>cr_init\<close>: a null \<open>realloc_func\<close> selects \<open>cr_default_realloc\<close>, the C library's.\<close>

definition cr_init :: "(u64 \<Rightarrow> bool) \<Rightarrow> cr_alloc option \<Rightarrow> charrange" where
  "cr_init ok f = \<lparr>cr_len = 0, cr_size = 0, cr_points = None,
     cr_realloc_func = (case f of Some g \<Rightarrow> g | None \<Rightarrow> libc_realloc ok)\<rparr>"

text \<open>
  The counters are C \<open>int\<close>s; the product \<open>cr->size * 3\<close> overflowing is \<open>None\<close>, as
  are accesses outside the memory object.  The allocator counts in points.
\<close>

definition INT_MAX :: nat where
  "INT_MAX = 2147483647"

definition cr_realloc :: "charrange \<Rightarrow> nat \<Rightarrow> (int \<times> charrange) option" where
  "cr_realloc cr n =
     (if n > cr_size cr then
        if cr_size cr * 3 > INT_MAX then None
        else (let new_size = max n (cr_size cr * 3 div 2) in
          case cr_realloc_func cr (cr_points cr) (of_nat new_size) of
            None \<Rightarrow> Some (-1, cr)
          | Some b \<Rightarrow> Some (0, cr\<lparr>cr_points := Some b, cr_size := new_size\<rparr>))
      else Some (0, cr))"

definition cr_copy :: "charrange \<Rightarrow> charrange \<Rightarrow> (int \<times> charrange) option" where
  "cr_copy cr cr1 = do {
     (r, cr') \<leftarrow> cr_realloc cr (cr_len cr1);
     if r \<noteq> 0 then Some (-1, cr')
     else do {
       xs \<leftarrow> grab (cr_words cr1) 0 (cr_len cr1);
       b \<leftarrow> blit (cr_words cr') 0 xs;
       Some (0, cr'\<lparr>cr_points := (if xs = [] then cr_points cr' else Some b),
                    cr_len := cr_len cr1\<rparr>) } }"

text \<open>The writes \<open>cr->points[cr->len++] = v\<close> of one or two points.\<close>

fun cr_push :: "charrange \<Rightarrow> u32 list \<Rightarrow> charrange option" where
  "cr_push cr [] = Some cr"
| "cr_push cr (v # vs) = do {
     b \<leftarrow> wr (cr_words cr) (cr_len cr) v;
     cr_push (cr\<lparr>cr_points := Some b, cr_len := cr_len cr + 1\<rparr>) vs }"

definition cr_add_point :: "charrange \<Rightarrow> u32 \<Rightarrow> (int \<times> charrange) option" where
  "cr_add_point cr v = do {
     (r, cr') \<leftarrow> (if cr_len cr \<ge> cr_size cr then cr_realloc cr (cr_len cr + 1) else Some (0, cr));
     if r \<noteq> 0 then Some (-1, cr')
     else map_option (Pair 0) (cr_push cr' [v]) }"

definition cr_add_interval :: "charrange \<Rightarrow> u32 \<Rightarrow> u32 \<Rightarrow> (int \<times> charrange) option" where
  "cr_add_interval cr c1 c2 = do {
     (r, cr') \<leftarrow> (if cr_len cr + 2 > cr_size cr then cr_realloc cr (cr_len cr + 2) else Some (0, cr));
     if r \<noteq> 0 then Some (-1, cr')
     else map_option (Pair 0) (cr_push cr' [c1, c2]) }"

section \<open>Merging adjacent intervals in place\<close>

text \<open>\<open>cr_compress\<close>: the run of touching intervals that starts at \<open>j\<close>, then the outer loop.\<close>

function compress_run :: "u32 list \<Rightarrow> nat \<Rightarrow> nat \<Rightarrow> nat option" where
  "compress_run pt len j =
     (if j + 3 < len then do {
        a \<leftarrow> rd pt (j + 1);
        b \<leftarrow> rd pt (j + 2);
        if a = b then compress_run pt len (j + 2) else Some j }
      else Some j)"
  by pat_completeness auto
termination
  by (relation "measure (\<lambda>(pt, len, j). len - j)") auto

declare compress_run.simps [simp del]

lemma compress_run_ge: "compress_run pt len j = Some j' \<Longrightarrow> j \<le> j'"
proof (induction pt len j rule: compress_run.induct)
  case (1 pt len j)
  from 1(2) show ?case
    by (subst (asm) compress_run.simps)
       (auto simp del: rd_eq_Some split: if_splits Option.bind_splits dest: 1(1))
qed

function compress_loop :: "u32 list \<Rightarrow> nat \<Rightarrow> nat \<Rightarrow> nat \<Rightarrow> (u32 list \<times> nat) option" where
  "compress_loop pt len i k =
     (if i + 1 < len then do {
        a \<leftarrow> rd pt i;
        b \<leftarrow> rd pt (i + 1);
        if a = b then compress_loop pt len (i + 2) k
        else do {
          j \<leftarrow> compress_run pt len i;
          x \<leftarrow> rd pt i;
          pt1 \<leftarrow> wr pt k x;
          y \<leftarrow> rd pt1 (j + 1);
          pt2 \<leftarrow> wr pt1 (k + 1) y;
          compress_loop pt2 len (j + 2) (k + 2) } }
      else Some (pt, k))"
  by pat_completeness auto
termination
  by (relation "measure (\<lambda>(pt, len, i, k). len - i)") (auto dest: compress_run_ge)

declare compress_loop.simps [simp del]

definition cr_compress :: "charrange \<Rightarrow> charrange option" where
  "cr_compress cr = do {
     (pt, k) \<leftarrow> compress_loop (cr_words cr) (cr_len cr) 0 0;
     Some (cr\<lparr>cr_points := map_option (\<lambda>_. pt) (cr_points cr), cr_len := k\<rparr>) }"

section \<open>Set operations\<close>

datatype cr_op_enum = CR_OP_UNION | CR_OP_INTER | CR_OP_XOR | CR_OP_SUB

text \<open>One more point from \<open>a\<close> or \<open>b\<close> in increasing order, with the advanced indices.\<close>

definition cr_op_next :: "u32 list \<Rightarrow> u32 list \<Rightarrow> nat \<Rightarrow> nat \<Rightarrow> (u32 \<times> nat \<times> nat) option" where
  "cr_op_next a b i j =
     (if i < length a \<and> j < length b then
        if a ! i < b ! j then Some (a ! i, i + 1, j)
        else if a ! i = b ! j then Some (a ! i, i + 1, j + 1)
        else Some (b ! j, i, j + 1)
      else if i < length a then Some (a ! i, i + 1, j)
      else if j < length b then Some (b ! j, i, j + 1)
      else None)"

fun cr_is_in :: "cr_op_enum \<Rightarrow> bool \<Rightarrow> bool \<Rightarrow> bool" where
  "cr_is_in CR_OP_UNION p q = (p \<or> q)"
| "cr_is_in CR_OP_INTER p q = (p \<and> q)"
| "cr_is_in CR_OP_XOR p q = (p \<noteq> q)"
| "cr_is_in CR_OP_SUB p q = (p \<and> \<not> q)"

function cr_op_loop :: "charrange \<Rightarrow> u32 list \<Rightarrow> u32 list \<Rightarrow> cr_op_enum \<Rightarrow> nat \<Rightarrow> nat \<Rightarrow>
    (int \<times> charrange) option" where
  "cr_op_loop cr a b op i j =
     (case cr_op_next a b i j of
        None \<Rightarrow> Some (0, cr)
      | Some (v, i', j') \<Rightarrow>
          if cr_is_in op (odd i') (odd j') \<noteq> odd (cr_len cr) then do {
            (r, cr') \<leftarrow> cr_add_point cr v;
            if r \<noteq> 0 then Some (-1, cr') else cr_op_loop cr' a b op i' j' }
          else cr_op_loop cr a b op i' j')"
  by pat_completeness auto
termination
  by (relation "measure (\<lambda>(cr, a, b, op, i, j). (length a - i) + (length b - j))")
     (auto simp: cr_op_next_def split: if_splits)

declare cr_op_loop.simps [simp del]

definition cr_op :: "charrange \<Rightarrow> u32 list \<Rightarrow> u32 list \<Rightarrow> cr_op_enum \<Rightarrow> (int \<times> charrange) option" where
  "cr_op cr a b op = do {
     (r, cr') \<leftarrow> cr_op_loop cr a b op 0 0;
     if r \<noteq> 0 then Some (-1, cr')
     else map_option (Pair 0) (cr_compress cr') }"

text \<open>\<open>cr_op1\<close> detaches the old points, computes into fresh ones and frees the old.\<close>

definition cr_op1 :: "charrange \<Rightarrow> u32 list \<Rightarrow> cr_op_enum \<Rightarrow> (int \<times> charrange) option" where
  "cr_op1 cr b op = do {
     a \<leftarrow> grab (cr_words cr) 0 (cr_len cr);
     cr_op (cr\<lparr>cr_len := 0, cr_size := 0, cr_points := None\<rparr>) a b op }"

definition cr_union_interval :: "charrange \<Rightarrow> u32 \<Rightarrow> u32 \<Rightarrow> (int \<times> charrange) option" where
  "cr_union_interval cr c1 c2 = cr_op1 cr [c1, c2 + 1] CR_OP_UNION"

definition cr_invert :: "charrange \<Rightarrow> (int \<times> charrange) option" where
  "cr_invert cr = do {
     (r, cr') \<leftarrow> cr_realloc cr (cr_len cr + 2);
     if r \<noteq> 0 then Some (-1, cr')
     else do {
       xs \<leftarrow> grab (cr_words cr') 0 (cr_len cr);
       pt1 \<leftarrow> blit (cr_words cr') 1 xs;
       pt2 \<leftarrow> wr pt1 0 0;
       pt3 \<leftarrow> wr pt2 (cr_len cr + 1) (- 1);
       map_option (Pair 0)
         (cr_compress (cr'\<lparr>cr_points := Some pt3, cr_len := cr_len cr + 2\<rparr>)) } }"

section \<open>Sorting and merging overlapping intervals\<close>

text \<open>\<open>rqsort\<close> moves elements of two points; \<open>point_cmp\<close> compares the first of each.\<close>

definition point_cmp :: "(u32 \<times> u32) cmp" where
  "point_cmp p q = (if fst p > fst q then 1 else 0) - (if fst p < fst q then 1 else 0)"

fun pairs_of :: "u32 list \<Rightarrow> (u32 \<times> u32) list" where
  "pairs_of (x # y # r) = (x, y) # pairs_of r"
| "pairs_of _ = []"

definition points_of :: "(u32 \<times> u32) list \<Rightarrow> u32 list" where
  "points_of ps = concat (map (\<lambda>(x, y). [x, y]) ps)"

text \<open>The inner loop over the intervals that start inside \<open>[start, end]\<close>.\<close>

function overlap_run :: "u32 list \<Rightarrow> nat \<Rightarrow> u32 \<Rightarrow> nat \<Rightarrow> (u32 \<times> nat) option" where
  "overlap_run pt len fin i =
     (if i < len then do {
        start1 \<leftarrow> rd pt i;
        end1 \<leftarrow> rd pt (i + 1);
        if start1 > fin then Some (fin, i)
        else if end1 \<le> fin then overlap_run pt len fin (i + 2)
        else overlap_run pt len end1 (i + 2) }
      else Some (fin, i))"
  by pat_completeness auto
termination
  by (relation "measure (\<lambda>(pt, len, fin, i). len - i)") auto

declare overlap_run.simps [simp del]

lemma overlap_run_ge: "overlap_run pt len fin i = Some (e, i') \<Longrightarrow> i \<le> i'"
proof (induction pt len fin i rule: overlap_run.induct)
  case (1 pt len fin i)
  from 1(3) show ?case
    by (subst (asm) overlap_run.simps)
       (auto simp del: rd_eq_Some split: if_splits Option.bind_splits dest: 1(1,2))
qed

function overlap_loop :: "u32 list \<Rightarrow> nat \<Rightarrow> nat \<Rightarrow> nat \<Rightarrow> (u32 list \<times> nat) option" where
  "overlap_loop pt len i j =
     (if i < len then do {
        start \<leftarrow> rd pt i;
        fin \<leftarrow> rd pt (i + 1);
        (fin', i') \<leftarrow> overlap_run pt len fin (i + 2);
        pt1 \<leftarrow> wr pt j start;
        pt2 \<leftarrow> wr pt1 (j + 1) fin';
        overlap_loop pt2 len i' (j + 2) }
      else Some (pt, j))"
  by pat_completeness auto
termination
  by (relation "measure (\<lambda>(pt, len, i, j). len - i)") (auto dest!: overlap_run_ge)

declare overlap_loop.simps [simp del]

definition cr_sort_and_remove_overlap :: "charrange \<Rightarrow> charrange option" where
  "cr_sort_and_remove_overlap cr = do {
     ps \<leftarrow> rqsort point_cmp (pairs_of (cr_words cr)) (cr_len cr div 2);
     pt \<leftarrow> blit (cr_words cr) 0 (points_of ps);
     (pt', j) \<leftarrow> overlap_loop pt (cr_len cr) 0 0;
     Some (cr\<lparr>cr_points := map_option (\<lambda>_. pt') (cr_points cr), cr_len := j\<rparr>) }"

end
