(* ===== verification/CharRange_Proofs.thy ===== *)
theory CharRange_Proofs
  imports CharRange
begin

text \<open>
  The operations on character ranges compute the set operations.  The set of a list
  of points is counted by parity; \<open>cr_canon\<close> is the header's invariant (an even
  number of points in increasing order).
\<close>

section \<open>The meaning of a list of points\<close>

definition cr_cnt :: "u32 list \<Rightarrow> u32 \<Rightarrow> nat" where
  "cr_cnt xs v = length (filter (\<lambda>p. p \<le> v) xs)"

definition cr_set :: "u32 list \<Rightarrow> u32 set" where
  "cr_set xs = {v. odd (cr_cnt xs v)}"

definition cr_canon :: "u32 list \<Rightarrow> bool" where
  "cr_canon xs \<longleftrightarrow> sorted_wrt (<) xs \<and> even (length xs)"

lemma cr_cnt_simps [simp]:
  "cr_cnt [] v = 0"
  "cr_cnt (x # xs) v = (if x \<le> v then Suc (cr_cnt xs v) else cr_cnt xs v)"
  "cr_cnt (xs @ ys) v = cr_cnt xs v + cr_cnt ys v"
  by (simp_all add: cr_cnt_def)

lemma cr_cnt_all: "(\<And>p. p \<in> set xs \<Longrightarrow> p \<le> v) \<Longrightarrow> cr_cnt xs v = length xs"
  by (simp add: cr_cnt_def)

lemma cr_cnt_none: "(\<And>p. p \<in> set xs \<Longrightarrow> v < p) \<Longrightarrow> cr_cnt xs v = 0"
  by (auto simp: cr_cnt_def filter_empty_conv not_le)

section \<open>Merging adjacent intervals\<close>

text \<open>What \<open>cr_compress\<close> computes, on lists.\<close>

fun compress_pts :: "u32 list \<Rightarrow> u32 list"
and run_pts :: "u32 \<Rightarrow> u32 \<Rightarrow> u32 list \<Rightarrow> u32 list" where
  "compress_pts (x # y # r) = (if x = y then compress_pts r else run_pts x y r)"
| "compress_pts [x] = []"
| "compress_pts [] = []"
| "run_pts x y (z # w # r) =
     (if y = z then run_pts x w r else x # y # compress_pts (z # w # r))"
| "run_pts x y [z] = [x, y]"
| "run_pts x y [] = [x, y]"

lemma short_listE:
  assumes "length xs \<le> 1" obtains "xs = []" | z where "xs = [z]"
  using assms by (cases xs) auto

lemma compress_run_pts:
  assumes "j + 1 < len" "len \<le> length pt"
  shows "\<exists>j'. compress_run pt len j = Some j' \<and> j \<le> j' \<and> j' + 1 < len \<and>
    run_pts x (pt ! (j + 1)) (drop (j + 2) (take len pt)) =
    x # pt ! (j' + 1) # compress_pts (drop (j' + 2) (take len pt))"
  using assms
proof (induction pt len j rule: compress_run.induct)
  case (1 pt len j)
  let ?t = "take len pt"
  have t: "length ?t = len" "\<And>i. i < len \<Longrightarrow> ?t ! i = pt ! i" using "1.prems" by auto
  show ?case
  proof (cases "j + 3 < len")
    case False
    then have "length (drop (j + 2) ?t) \<le> 1" using t by simp
    then consider "drop (j + 2) ?t = []" | z where "drop (j + 2) ?t = [z]"
      by (rule short_listE)
    then show ?thesis using False "1.prems" by cases (simp_all add: compress_run.simps)
  next
    case True
    then have d: "drop (j + 2) ?t = pt ! (j + 2) # pt ! (j + 3) # drop (j + 4) ?t"
      using t Cons_nth_drop_Suc [of "j + 2" ?t] Cons_nth_drop_Suc [of "j + 3" ?t]
      by (simp add: eval_nat_numeral)
    show ?thesis
    proof (cases "pt ! (j + 1) = pt ! (j + 2)")
      case same: True
      have r: "rd pt (j + 1) = Some (pt ! (j + 1))" "rd pt (j + 2) = Some (pt ! (j + 2))"
        using True "1.prems" by simp_all
      have "j + 2 + 1 < len" using True by simp
      from "1.IH" [OF True r same this "1.prems"(2)] obtain j' where
        "compress_run pt len (j + 2) = Some j'" "j + 2 \<le> j'" "j' + 1 < len"
        "run_pts x (pt ! (j + 2 + 1)) (drop (j + 2 + 2) ?t) =
         x # pt ! (j' + 1) # compress_pts (drop (j' + 2) ?t)" by blast
      then show ?thesis using True same d "1.prems"
        by (intro exI [of _ j'], subst compress_run.simps) (simp add: eval_nat_numeral mem_simps)
    next
      case False
      then show ?thesis using True "1.prems" d
        by (subst compress_run.simps) (auto simp: mem_simps)
    qed
  qed
qed

lemma compress_loop_pts:
  assumes "k \<le> i" "i \<le> len + 1" "k \<le> len" "len \<le> length pt"
  shows "\<exists>pt' k'. compress_loop pt len i k = Some (pt', k') \<and> length pt' = length pt \<and>
    k' \<le> len \<and> take k' pt' = take k pt @ compress_pts (drop i (take len pt))"
  using assms
proof (induction pt len i k rule: compress_loop.induct)
  case (1 pt len i k)
  let ?t = "take len pt"
  have t: "length ?t = len" "\<And>j. j < len \<Longrightarrow> ?t ! j = pt ! j" using "1.prems" by auto
  show ?case
  proof (cases "i + 1 < len")
    case False
    then have "length (drop i ?t) \<le> 1" using t by simp
    then consider "drop i ?t = []" | z where "drop i ?t = [z]"
      by (rule short_listE)
    then show ?thesis using False "1.prems" by cases (simp_all add: compress_loop.simps)
  next
    case True
    have r: "rd pt i = Some (pt ! i)" "rd pt (i + 1) = Some (pt ! (i + 1))"
      using True "1.prems" by simp_all
    have d: "drop i ?t = pt ! i # pt ! (i + 1) # drop (i + 2) ?t"
      using t True Cons_nth_drop_Suc [of i ?t] Cons_nth_drop_Suc [of "i + 1" ?t] by simp
    show ?thesis
    proof (cases "pt ! i = pt ! (i + 1)")
      case same: True
      from "1.IH"(1) [OF True r same] "1.prems" True same d show ?thesis
        by (subst compress_loop.simps) (simp add: mem_simps)
    next
      case False
      obtain j where j: "compress_run pt len i = Some j" "i \<le> j" "j + 1 < len"
        and run: "run_pts (pt ! i) (pt ! (i + 1)) (drop (i + 2) ?t) =
          pt ! i # pt ! (j + 1) # compress_pts (drop (j + 2) ?t)"
        using compress_run_pts [of i len pt "pt ! i"] True "1.prems"(4) by auto
      let ?p1 = "pt[k := pt ! i]" and ?p2 = "pt[k := pt ! i, k + 1 := pt ! (j + 1)]"
      have b: "k < length pt" "k + 1 < length pt" "j + 1 < length pt"
        using True "1.prems" j by auto
      have y: "?p1 ! (j + 1) = pt ! (j + 1)" using "1.prems" j by simp
      have w: "wr pt k (pt ! i) = Some ?p1" "rd ?p1 (j + 1) = Some (?p1 ! (j + 1))"
        "wr ?p1 (k + 1) (?p1 ! (j + 1)) = Some ?p2"
        using b y by simp_all
      have keep: "drop (j + 2) (take len ?p2) = drop (j + 2) ?t"
        using "1.prems"(1) j by (simp add: take_update_swap)
      have "k + 2 \<le> j + 2" "j + 2 \<le> len + 1" "k + 2 \<le> len" "len \<le> length ?p2"
        using "1.prems" j True by auto
      from "1.IH"(2) [OF True r False j(1) r(1) w this] obtain pt' k' where
        rec: "compress_loop ?p2 len (j + 2) (k + 2) = Some (pt', k')" "length pt' = length pt"
          "k' \<le> len" "take k' pt' = take (k + 2) ?p2 @ compress_pts (drop (j + 2) ?t)"
        unfolding keep by auto
      have "take (k + 2) ?p2 = take k pt @ [pt ! i, pt ! (j + 1)]"
        using b by (simp add: take_Suc_conv_app_nth list_update_append)
      moreover have "compress_loop pt len i k = compress_loop ?p2 len (j + 2) (k + 2)"
        using True False b y j(1) "1.prems"(4) by (subst compress_loop.simps) (simp add: mem_simps)
      ultimately show ?thesis using rec run False d by simp
    qed
  qed
qed

lemma run_pts_subset: "set (compress_pts xs) \<subseteq> set xs" "set (run_pts x y r) \<subseteq> set (x # y # r)"
  by (induction xs and x y r rule: compress_pts_run_pts.induct) (auto split: if_splits)

lemma compress_parity:
  "even (length xs) \<Longrightarrow> odd (cr_cnt (compress_pts xs) v) = odd (cr_cnt xs v)"
  "even (length r) \<Longrightarrow> odd (cr_cnt (run_pts x y r) v) = odd (cr_cnt (x # y # r) v)"
  by (induction xs and x y r rule: compress_pts_run_pts.induct) auto

lemma compress_length: "even (length (compress_pts xs))" "even (length (run_pts x y r))"
  by (induction xs and x y r rule: compress_pts_run_pts.induct) auto

lemma compress_strict:
  "sorted xs \<Longrightarrow> sorted_wrt (<) (compress_pts xs)"
  "sorted (x # y # r) \<Longrightarrow> x \<noteq> y \<Longrightarrow> sorted_wrt (<) (run_pts x y r)"
proof (induction xs and x y r rule: compress_pts_run_pts.induct)
  case (4 x y z w r)
  show ?case
  proof (cases "y = z")
    case True
    with 4 show ?thesis by auto
  next
    case False
    have "y < z" using 4(3) False by auto
    then have "\<forall>p \<in> set (compress_pts (z # w # r)). y < p"
      using run_pts_subset(1) [of "z # w # r"] 4(3) by fastforce
    with False 4 show ?thesis by fastforce
  qed
qed auto

theorem compress_canon:
  assumes "sorted xs" "even (length xs)"
  shows "cr_canon (compress_pts xs)" "cr_set (compress_pts xs) = cr_set xs"
  using assms compress_strict(1) compress_parity(1) compress_length(1)
  by (simp_all add: cr_canon_def cr_set_def)

lemma cr_compress_list:
  assumes "cr_ok cr"
  shows "\<exists>cr'. cr_compress cr = Some cr' \<and> cr_ok cr' \<and>
    cr_list cr' = compress_pts (cr_list cr) \<and> cr_realloc_func cr' = cr_realloc_func cr"
proof -
  have "cr_len cr \<le> length (cr_words cr)" using assms by (simp add: cr_ok_def)
  from compress_loop_pts [of 0 0 "cr_len cr" "cr_words cr", OF _ _ _ this] obtain pt k where
    "compress_loop (cr_words cr) (cr_len cr) 0 0 = Some (pt, k)" "length pt = length (cr_words cr)"
    "k \<le> cr_len cr" "take k pt = compress_pts (cr_list cr)" by (auto simp: cr_list_def)
  with assms show ?thesis
    by (cases "cr_points cr") (auto simp: cr_compress_def cr_ok_def cr_list_def cr_words_def)
qed

section \<open>Merging two lists of points\<close>

text \<open>The points \<open>cr_op\<close> adds, on lists.\<close>

function op_points :: "u32 list \<Rightarrow> u32 list \<Rightarrow> cr_op_enum \<Rightarrow> nat \<Rightarrow> nat \<Rightarrow> u32 list \<Rightarrow> u32 list" where
  "op_points a b op i j out =
     (case cr_op_next a b i j of
        None \<Rightarrow> out
      | Some (v, i', j') \<Rightarrow>
          op_points a b op i' j'
            (if cr_is_in op (odd i') (odd j') \<noteq> odd (length out) then out @ [v] else out))"
  by pat_completeness auto
termination
  by (relation "measure (\<lambda>(a, b, op, i, j, out). (length a - i) + (length b - j))")
     (auto simp: cr_op_next_def split: if_splits)

declare op_points.simps [simp del]

lemma cr_op_next_None: "cr_op_next a b i j = None \<longleftrightarrow> length a \<le> i \<and> length b \<le> j"
  by (auto simp: cr_op_next_def)

lemma cr_op_next_measure:
  "cr_op_next a b i j = Some (v, i', j') \<Longrightarrow>
   (length a - i') + (length b - j') < (length a - i) + (length b - j)"
  by (auto simp: cr_op_next_def split: if_splits)

lemma op_points_length:
  "length (op_points a b op i j out) \<le> length out + (length a - i) + (length b - j)"
proof (induction a b op i j out rule: op_points.induct)
  case (1 a b op i j out)
  show ?case
  proof (cases "cr_op_next a b i j")
    case None
    then show ?thesis by (simp add: op_points.simps)
  next
    case (Some t)
    then obtain v i' j' where t: "cr_op_next a b i j = Some (v, i', j')" by (cases t) auto
    from "1.IH" [OF t refl refl] cr_op_next_measure [OF t] t show ?thesis
      by (subst op_points.simps) (auto split: if_splits)
  qed
qed

text \<open>
  Between two points the prefixes taken so far hold every point below the ones to
  come, so the parity of the output is the operation on the parities of the inputs.
\<close>

definition op_inv :: "u32 list \<Rightarrow> u32 list \<Rightarrow> cr_op_enum \<Rightarrow> nat \<Rightarrow> nat \<Rightarrow> u32 list \<Rightarrow> bool" where
  "op_inv a b op i j out \<longleftrightarrow>
     i \<le> length a \<and> j \<le> length b \<and> sorted out \<and>
     (\<forall>p \<in> set (take i a) \<union> set (take j b). \<forall>q \<in> set (drop i a) \<union> set (drop j b). p \<le> q) \<and>
     set out \<subseteq> set (take i a) \<union> set (take j b) \<and>
     odd (length out) = cr_is_in op (odd i) (odd j) \<and>
     (\<forall>v. odd (cr_cnt out v) =
        cr_is_in op (odd (cr_cnt (take i a) v)) (odd (cr_cnt (take j b) v)))"

lemma sorted_drop_head: "sorted xs \<Longrightarrow> i < length xs \<Longrightarrow> \<forall>q \<in> set (drop i xs). xs ! i \<le> q"
  by (auto simp: in_set_conv_nth sorted_nth_mono)

lemma cr_op_next_step:
  assumes nx: "cr_op_next a b i j = Some (v, i', j')" and s: "sorted a" "sorted b"
    and inv: "op_inv a b op i j out"
  shows "i' \<le> length a" "j' \<le> length b"
    "\<exists>xs. set xs \<subseteq> {v} \<and> take i' a = take i a @ xs" "\<exists>ys. set ys \<subseteq> {v} \<and> take j' b = take j b @ ys"
    "v \<in> set (take i' a) \<union> set (take j' b)"
    "\<forall>q \<in> set (drop i' a) \<union> set (drop j' b). v \<le> q"
    "\<forall>p \<in> set (take i' a) \<union> set (take j' b). p \<le> v"
proof -
  have le: "i \<le> length a" "j \<le> length b"
    and cross: "\<And>p q. p \<in> set (take i a) \<union> set (take j b) \<Longrightarrow>
      q \<in> set (drop i a) \<union> set (drop j b) \<Longrightarrow> p \<le> q"
    using inv by (auto simp: op_inv_def)
  have ha: "\<And>q. i < length a \<Longrightarrow> q \<in> set (drop i a) \<Longrightarrow> a ! i \<le> q"
    and hb: "\<And>q. j < length b \<Longrightarrow> q \<in> set (drop j b) \<Longrightarrow> b ! j \<le> q"
    using sorted_drop_head s by blast+
  have da: "i < length a \<Longrightarrow> drop i a = a ! i # drop (Suc i) a"
    and db: "j < length b \<Longrightarrow> drop j b = b ! j # drop (Suc j) b"
    by (simp_all add: Cons_nth_drop_Suc)
  have ta: "i < length a \<Longrightarrow> take (Suc i) a = take i a @ [a ! i]"
    and tb: "j < length b \<Longrightarrow> take (Suc j) b = take j b @ [b ! j]"
    by (simp_all add: take_Suc_conv_app_nth)
  consider (a) "i < length a" "v = a ! i" "i' = Suc i" "j' = j" "j < length b \<Longrightarrow> v < b ! j"
    | (ab) "i < length a" "j < length b" "v = a ! i" "v = b ! j" "i' = Suc i" "j' = Suc j"
    | (b) "j < length b" "v = b ! j" "i' = i" "j' = Suc j" "i < length a \<Longrightarrow> v < a ! i"
    using nx by (auto simp: cr_op_next_def split: if_splits)
  note cs = this
  show "i' \<le> length a" by (cases rule: cs) (use le in auto)
  show "j' \<le> length b" by (cases rule: cs) (use le in auto)
  show "\<exists>xs. set xs \<subseteq> {v} \<and> take i' a = take i a @ xs"
    by (cases rule: cs) (use ta in auto)
  show "\<exists>ys. set ys \<subseteq> {v} \<and> take j' b = take j b @ ys"
    by (cases rule: cs) (use tb in auto)
  have vin: "v \<in> set (drop i a) \<union> set (drop j b)" by (cases rule: cs) (use da db in auto)
  show "v \<in> set (take i' a) \<union> set (take j' b)" by (cases rule: cs) (use ta tb in auto)
  have loa: "v \<le> q" if q: "q \<in> set (drop i a)" for q
  proof -
    have "i < length a" using q by (cases "i < length a") auto
    with ha [OF this q] show ?thesis by (cases rule: cs) auto
  qed
  have lob: "v \<le> q" if q: "q \<in> set (drop j b)" for q
  proof -
    have "j < length b" using q by (cases "j < length b") auto
    with hb [OF this q] show ?thesis by (cases rule: cs) auto
  qed
  have "set (drop i' a) \<subseteq> set (drop i a)" by (cases rule: cs) (use da in auto)
  moreover have "set (drop j' b) \<subseteq> set (drop j b)" by (cases rule: cs) (use db in auto)
  ultimately show "\<forall>q \<in> set (drop i' a) \<union> set (drop j' b). v \<le> q" using loa lob by blast
  have "set (take i' a) \<subseteq> insert v (set (take i a))" by (cases rule: cs) (use ta in auto)
  moreover have "set (take j' b) \<subseteq> insert v (set (take j b))" by (cases rule: cs) (use tb in auto)
  ultimately show "\<forall>p \<in> set (take i' a) \<union> set (take j' b). p \<le> v"
    using cross vin by blast
qed

lemma op_inv_step:
  assumes nx: "cr_op_next a b i j = Some (v, i', j')" and s: "sorted a" "sorted b"
    and inv: "op_inv a b op i j out"
  shows "op_inv a b op i' j'
    (if cr_is_in op (odd i') (odd j') \<noteq> odd (length out) then out @ [v] else out)"
    (is "op_inv a b op i' j' ?out")
proof -
  note st = cr_op_next_step [OF nx s inv]
  obtain xs ys where x: "set xs \<subseteq> {v}" "take i' a = take i a @ xs"
    and y: "set ys \<subseteq> {v}" "take j' b = take j b @ ys" using st(3,4) by blast
  have old: "sorted out" "set out \<subseteq> set (take i a) \<union> set (take j b)"
    "odd (length out) = cr_is_in op (odd i) (odd j)"
    and par: "\<And>v. odd (cr_cnt out v) =
        cr_is_in op (odd (cr_cnt (take i a) v)) (odd (cr_cnt (take j b) v))"
    using inv by (auto simp: op_inv_def)
  have top: "\<forall>p \<in> set out. p \<le> v" using old(2) st(7) x(2) y(2) by auto
  have sub: "set ?out \<subseteq> set (take i' a) \<union> set (take j' b)"
    using old(2) st(5) x(2) y(2) by auto
  have srt: "sorted ?out" using old(1) top by (auto simp: sorted_append)
  have len: "odd (length ?out) = cr_is_in op (odd i') (odd j')" by auto
  have "odd (cr_cnt ?out w) =
      cr_is_in op (odd (cr_cnt (take i' a) w)) (odd (cr_cnt (take j' b) w))" for w
  proof (cases "v \<le> w")
    case True
    have "cr_cnt ?out w = length ?out"
      by (rule cr_cnt_all) (use sub st(7) True in force)
    moreover have "cr_cnt (take i' a) w = i'" "cr_cnt (take j' b) w = j'"
      using st(1,2,7) True by (subst cr_cnt_all; force)+
    ultimately show ?thesis using len by simp
  next
    case False
    have "cr_cnt xs w = 0" "cr_cnt ys w = 0"
      using x(1) y(1) False by (intro cr_cnt_none; auto)+
    then have "cr_cnt (take i' a) w = cr_cnt (take i a) w" "cr_cnt (take j' b) w = cr_cnt (take j b) w"
      using x(2) y(2) by auto
    moreover have "cr_cnt ?out w = cr_cnt out w" using False by simp
    ultimately show ?thesis using par by simp
  qed
  moreover have "\<forall>p \<in> set (take i' a) \<union> set (take j' b). \<forall>q \<in> set (drop i' a) \<union> set (drop j' b). p \<le> q"
    using st(6,7) by (meson order_trans)
  ultimately show ?thesis using st(1,2) sub srt len unfolding op_inv_def by blast
qed

lemma op_points_inv:
  assumes "sorted a" "sorted b" "op_inv a b op i j out"
  shows "op_inv a b op (length a) (length b) (op_points a b op i j out)"
  using assms
proof (induction a b op i j out rule: op_points.induct)
  case (1 a b op i j out)
  show ?case
  proof (cases "cr_op_next a b i j")
    case None
    with 1(4) have "i = length a" "j = length b" by (auto simp: cr_op_next_None op_inv_def)
    with None 1(4) show ?thesis by (simp add: op_points.simps)
  next
    case (Some t)
    then obtain v i' j' where t: "cr_op_next a b i j = Some (v, i', j')" by (cases t) auto
    from 1(1) [OF t refl refl 1(2,3) op_inv_step [OF t 1(2-4)]] t show ?thesis
      by (subst op_points.simps) (simp split del: if_split)
  qed
qed

text \<open>The four operations on sets of code points.\<close>

fun cr_op_set :: "cr_op_enum \<Rightarrow> u32 set \<Rightarrow> u32 set \<Rightarrow> u32 set" where
  "cr_op_set CR_OP_UNION A B = A \<union> B"
| "cr_op_set CR_OP_INTER A B = A \<inter> B"
| "cr_op_set CR_OP_XOR A B = (A - B) \<union> (B - A)"
| "cr_op_set CR_OP_SUB A B = A - B"

lemma cr_is_in_set: "{v. cr_is_in op (v \<in> A) (v \<in> B)} = cr_op_set op A B"
  by (cases op) auto

lemma op_points_set:
  fixes op :: cr_op_enum
  assumes "sorted a" "sorted b" "even (length a)" "even (length b)"
  defines "out \<equiv> op_points a b op 0 0 []"
  shows "sorted out" "even (length out)" "cr_set out = cr_op_set op (cr_set a) (cr_set b)"
proof -
  have "op_inv a b op 0 0 []" by (cases op) (auto simp: op_inv_def)
  from op_points_inv [OF assms(1,2) this]
  have inv: "op_inv a b op (length a) (length b) out" unfolding out_def .
  then show "sorted out" by (simp add: op_inv_def)
  from inv have "odd (length out) = cr_is_in op False False"
    using assms(3,4) by (simp add: op_inv_def)
  then show "even (length out)" by (cases op) auto
  from inv show "cr_set out = cr_op_set op (cr_set a) (cr_set b)"
    by (simp add: op_inv_def cr_set_def flip: cr_is_in_set)
qed

section \<open>Storage\<close>

text \<open>
  With an allocator that keeps its promise and fewer than \<open>CR_MAX\<close> points no counter
  overflows: an operation gives the new points, or \<open>-1\<close> when the allocator refused.
\<close>

definition CR_MAX :: nat where
  "CR_MAX = 2 ^ 28"

locale cr_allocator = allocator ralloc for ralloc :: cr_alloc
begin

lemma realloc_cases:
  assumes "cr_ok cr" "cr_realloc_func cr = ralloc" "n \<le> CR_MAX"
  obtains
    (fail) "cr_realloc cr n = Some (-1, cr)" "\<exists>p k. ralloc p k = None"
  | (room) cr' where "cr_realloc cr n = Some (0, cr')" "cr_ok cr'" "cr_list cr' = cr_list cr"
      "cr_len cr' = cr_len cr" "cr_realloc_func cr' = ralloc" "n \<le> cr_size cr'"
proof (cases "n > cr_size cr")
  case False
  then have "cr_realloc cr n = Some (0, cr)" by (simp add: cr_realloc_def)
  with assms False show thesis by (intro room) auto
next
  case True
  let ?m = "max n (cr_size cr * 3 div 2)"
  have bound: "\<not> cr_size cr * 3 > INT_MAX" "?m < 2 ^ 64"
    using True assms(3) by (auto simp: INT_MAX_def CR_MAX_def)
  then have m: "unat (of_nat ?m :: u64) = ?m" by (intro unat_of_nat_small) simp
  show thesis
  proof (cases "ralloc (cr_points cr) (of_nat ?m)")
    case None
    with True bound assms(2) have "cr_realloc cr n = Some (-1, cr)"
      by (simp add: cr_realloc_def Let_def)
    with None show thesis by (intro fail) auto
  next
    case (Some b)
    have len: "length b = ?m" using ralloc_size [OF Some] m by simp
    have "cr_len cr \<le> length (cr_words cr)" using assms(1) by (simp add: cr_ok_def)
    moreover have "cr_len cr \<le> ?m"
      using True assms(1) by (simp add: cr_ok_def le_max_iff_disj)
    ultimately have "take (cr_len cr) b = take (cr_len cr) (cr_words cr)"
      using ralloc_keeps [OF Some, of "cr_len cr"] m by (simp add: cr_words_def)
    with True bound assms Some len show thesis
      by (intro room [of "cr\<lparr>cr_points := Some b, cr_size := ?m\<rparr>"])
         (auto simp: cr_realloc_def Let_def cr_ok_def cr_list_def cr_words_def)
  qed
qed

end

lemma cr_push_list:
  assumes "cr_ok cr" "cr_len cr + length vs \<le> cr_size cr"
  shows "\<exists>cr'. cr_push cr vs = Some cr' \<and> cr_ok cr' \<and> cr_list cr' = cr_list cr @ vs \<and>
    cr_len cr' = cr_len cr + length vs \<and> cr_realloc_func cr' = cr_realloc_func cr"
  using assms
proof (induction vs arbitrary: cr)
  case Nil
  then show ?case by simp
next
  case (Cons v vs)
  let ?cr = "cr\<lparr>cr_points := Some ((cr_words cr)[cr_len cr := v]), cr_len := cr_len cr + 1\<rparr>"
  have fit: "cr_len cr < length (cr_words cr)" using Cons.prems by (simp add: cr_ok_def)
  have "cr_ok ?cr" "cr_len ?cr + length vs \<le> cr_size ?cr"
    using Cons.prems by (auto simp: cr_ok_def cr_words_def)
  from Cons.IH [OF this] obtain cr' where
    "cr_push ?cr vs = Some cr'" "cr_ok cr'" "cr_list cr' = cr_list ?cr @ vs"
    "cr_len cr' = cr_len ?cr + length vs" "cr_realloc_func cr' = cr_realloc_func cr" by auto
  moreover have "cr_list ?cr = cr_list cr @ [v]"
    using fit by (simp add: cr_list_def cr_words_def take_Suc_conv_app_nth)
  ultimately show ?case using fit by (simp add: mem_simps)
qed

context cr_allocator begin

text \<open>The outcome of an operation: new points, or \<open>-1\<close> after a refused allocation.\<close>

definition gives :: "(int \<times> charrange) option \<Rightarrow> u32 list \<Rightarrow> bool" where
  "gives r xs \<longleftrightarrow>
     (\<exists>cr. r = Some (0, cr) \<and> cr_ok cr \<and> cr_realloc_func cr = ralloc \<and> cr_list cr = xs) \<or>
     (\<exists>cr. r = Some (-1, cr)) \<and> (\<exists>p k. ralloc p k = None)"

lemma add_point_cases:
  assumes "cr_ok cr" "cr_realloc_func cr = ralloc" "cr_len cr < CR_MAX"
  obtains
    (fail) cr' where "cr_add_point cr v = Some (-1, cr')" "\<exists>p k. ralloc p k = None"
  | (room) cr' where "cr_add_point cr v = Some (0, cr')" "cr_ok cr'"
      "cr_realloc_func cr' = ralloc" "cr_list cr' = cr_list cr @ [v]"
      "cr_len cr' = cr_len cr + 1"
proof (cases "cr_len cr \<ge> cr_size cr")
  case False
  then have "cr_len cr + length [v] \<le> cr_size cr" by simp
  from cr_push_list [OF assms(1) this] obtain cr' where
    "cr_push cr [v] = Some cr'" "cr_ok cr'" "cr_list cr' = cr_list cr @ [v]"
    "cr_len cr' = cr_len cr + 1" "cr_realloc_func cr' = cr_realloc_func cr" by auto
  with False assms(2) room [of cr'] show thesis
    by (simp add: cr_add_point_def del: cr_push.simps)
next
  case True
  from assms(3) have "cr_len cr + 1 \<le> CR_MAX" by simp
  from assms(1,2) this show thesis
  proof (cases rule: realloc_cases)
    case fail
    with True that(1) show thesis by (auto simp: cr_add_point_def)
  next
    case (room c)
    from cr_push_list [OF room(2), of "[v]"] room(4,6) obtain cr' where
      "cr_push c [v] = Some cr'" "cr_ok cr'" "cr_list cr' = cr_list c @ [v]"
      "cr_len cr' = cr_len c + 1" "cr_realloc_func cr' = cr_realloc_func c" by auto
    with True room that(2) [of cr'] show thesis
      by (simp add: cr_add_point_def del: cr_push.simps)
  qed
qed

lemma op_loop_gives:
  assumes "cr_ok cr" "cr_realloc_func cr = ralloc"
    "cr_len cr + (length a - i) + (length b - j) \<le> CR_MAX"
  shows "gives (cr_op_loop cr a b op i j) (op_points a b op i j (cr_list cr))"
  using assms
proof (induction cr a b op i j rule: cr_op_loop.induct)
  case (1 cr a b op i j)
  note prem = "1.prems"
  have ll: "length (cr_list cr) = cr_len cr" using prem(1) by (simp add: cr_list_def cr_ok_def)
  show ?case
  proof (cases "cr_op_next a b i j")
    case None
    with prem show ?thesis by (auto simp: gives_def op_points.simps cr_op_loop.simps)
  next
    case (Some t)
    then obtain v i' j' where t: "cr_op_next a b i j = Some (v, i', j')" by (cases t) auto
    note m = cr_op_next_measure [OF t]
    show ?thesis
    proof (cases "cr_is_in op (odd i') (odd j') \<noteq> odd (cr_len cr)")
      case False
      from 1(2) [OF t refl refl False prem(1,2)] m prem(3) t False ll show ?thesis
        by (subst cr_op_loop.simps, subst op_points.simps) simp
    next
      case True
      have "cr_len cr < CR_MAX" using m prem(3) by linarith
      from prem(1,2) this show ?thesis
      proof (cases rule: add_point_cases [where v = v])
        case (fail c)
        then show ?thesis using t True
          by (subst cr_op_loop.simps) (auto simp: gives_def)
      next
        case (room c)
        have "cr_len c + (length a - i') + (length b - j') \<le> CR_MAX"
          using room(5) m prem(3) by linarith
        from 1(1) [OF t refl refl True room(1) refl _ room(2,3) this] t True room ll
        show ?thesis
          by (subst cr_op_loop.simps, subst op_points.simps) simp
      qed
    qed
  qed
qed

lemma compress_gives:
  assumes "cr_ok cr" "cr_realloc_func cr = ralloc"
  shows "gives (map_option (Pair 0) (cr_compress cr)) (compress_pts (cr_list cr))"
  using cr_compress_list [OF assms(1)] assms(2) by (auto simp: gives_def)

lemma op_gives:
  assumes "cr_ok cr" "cr_realloc_func cr = ralloc" "cr_len cr = 0"
    "length a + length b \<le> CR_MAX"
  shows "gives (cr_op cr a b op) (compress_pts (op_points a b op 0 0 []))"
proof -
  have "cr_list cr = []" using assms(3) by (simp add: cr_list_def)
  with op_loop_gives [OF assms(1,2), of a 0 b 0 op] assms(3,4)
  have "gives (cr_op_loop cr a b op 0 0) (op_points a b op 0 0 [])" by simp
  then show ?thesis
    using compress_gives by (force simp: gives_def cr_op_def)
qed

text \<open>The result of \<open>cr_op\<close> is canonical and denotes the set operation.\<close>

definition gives_set :: "(int \<times> charrange) option \<Rightarrow> u32 set \<Rightarrow> bool" where
  "gives_set r V \<longleftrightarrow> (\<exists>xs. gives r xs \<and> cr_canon xs \<and> cr_set xs = V)"

lemma op_gives_set:
  assumes "cr_ok cr" "cr_realloc_func cr = ralloc" "cr_len cr = 0"
    "length a + length b \<le> CR_MAX" "sorted a" "sorted b" "even (length a)" "even (length b)"
  shows "gives_set (cr_op cr a b op) (cr_op_set op (cr_set a) (cr_set b))"
  using op_gives [OF assms(1-4)] compress_canon op_points_set [OF assms(5-8), of op]
  unfolding gives_set_def by metis

lemma op1_gives_set:
  assumes "cr_ok cr" "cr_realloc_func cr = ralloc" "cr_len cr + length b \<le> CR_MAX"
    "sorted (cr_list cr)" "sorted b" "even (cr_len cr)" "even (length b)"
  shows "gives_set (cr_op1 cr b op) (cr_op_set op (cr_set (cr_list cr)) (cr_set b))"
proof -
  let ?z = "cr\<lparr>cr_len := 0, cr_size := 0, cr_points := None\<rparr>"
  have len: "length (cr_list cr) = cr_len cr" and fit: "cr_len cr \<le> length (cr_words cr)"
    using assms(1) by (simp_all add: cr_list_def cr_ok_def)
  have "gives_set (cr_op ?z (cr_list cr) b op) (cr_op_set op (cr_set (cr_list cr)) (cr_set b))"
    using assms len by (intro op_gives_set) (auto simp: cr_ok_def cr_words_def)
  with fit show ?thesis by (simp add: cr_op1_def mem_simps cr_list_def)
qed

lemma invert_gives:
  assumes "cr_ok cr" "cr_realloc_func cr = ralloc" "cr_len cr + 2 \<le> CR_MAX"
  shows "gives (cr_invert cr) (compress_pts (0 # cr_list cr @ [- 1]))"
  using assms
proof (cases rule: realloc_cases)
  case fail
  then show ?thesis by (auto simp: gives_def cr_invert_def)
next
  case (room c)
  let ?n = "cr_len cr" and ?w = "cr_words c"
  have n: "?n + 2 \<le> length ?w" "cr_list cr = take ?n ?w" "length (take ?n ?w) = ?n"
    using room assms(1) by (auto simp: cr_ok_def cr_list_def)
  let ?p1 = "take 1 ?w @ take ?n ?w @ drop (1 + ?n) ?w"
  let ?p3 = "?p1[0 := 0, ?n + 1 := - 1]"
  let ?c = "c\<lparr>cr_points := Some ?p3, cr_len := ?n + 2\<rparr>"
  have b: "blit ?w 1 (take ?n ?w) = Some ?p1" using n(1) by (simp add: blit_def)
  have l1: "length ?p1 = length ?w" using n(1) by simp
  have w1: "take 1 ?w = [?w ! 0]" using n(1) by (cases ?w) auto
  have w2: "drop (1 + ?n) ?w = ?w ! Suc ?n # drop (?n + 2) ?w"
    using n(1) by (simp add: Cons_nth_drop_Suc)
  have "take (?n + 2) ?p3 = 0 # take ?n ?w @ [- 1]"
    unfolding w1 w2 using n by (simp add: list_update_append)
  then have lst: "cr_list ?c = 0 # cr_list cr @ [- 1]"
    using n(2) by (simp add: cr_list_def cr_words_def)
  have "cr_ok ?c" using room(2) n(1) l1 by (auto simp: cr_ok_def cr_words_def)
  from compress_gives [OF this] lst
  have "gives (map_option (Pair 0) (cr_compress ?c)) (compress_pts (0 # cr_list cr @ [- 1]))"
    using room(5) by simp
  moreover have "cr_invert cr = map_option (Pair 0) (cr_compress ?c)"
    using room(1) b n l1 by (simp add: cr_invert_def grab_inside wr_def)
  ultimately show ?thesis by simp
qed

lemma invert_gives_set:
  assumes "cr_ok cr" "cr_realloc_func cr = ralloc" "cr_len cr + 2 \<le> CR_MAX"
    "sorted (cr_list cr)" "even (cr_len cr)"
  shows "gives_set (cr_invert cr) (- cr_set (cr_list cr) - {- 1})"
proof -
  let ?xs = "cr_list cr" and ?zs = "0 # cr_list cr @ [- 1]"
  have len: "even (length ?xs)" using assms(1,5) by (simp add: cr_list_def cr_ok_def)
  then have all: "even (cr_cnt ?xs (- 1))" by (simp add: cr_cnt_all)
  have "sorted ?zs" "even (length ?zs)"
    using assms(4) len by (auto simp: sorted_append)
  moreover have "cr_set ?zs = - cr_set ?xs - {- 1}"
    using all by (auto simp: cr_set_def split: if_splits dest: antisym)
  ultimately show ?thesis
    using compress_canon [of ?zs] invert_gives [OF assms(1-3)] unfolding gives_set_def by metis
qed

end

text \<open>The default allocator keeps the contract.\<close>

interpretation libc_cr: cr_allocator "libc_realloc ok" for ok ..

section \<open>Sorting and merging overlapping intervals\<close>

interpretation point_order: preorder_cmp point_cmp
  by unfold_locales (auto simp: point_cmp_def split: if_splits)

fun merge_run :: "u32 \<Rightarrow> u32 \<Rightarrow> (u32 \<times> u32) list \<Rightarrow> (u32 \<times> u32) list" where
  "merge_run s e [] = [(s, e)]"
| "merge_run s e ((s1, e1) # r) =
     (if s1 > e then (s, e) # merge_run s1 e1 r
      else if e1 \<le> e then merge_run s e r else merge_run s e1 r)"

fun merge_pairs :: "(u32 \<times> u32) list \<Rightarrow> (u32 \<times> u32) list" where
  "merge_pairs [] = []"
| "merge_pairs ((s, e) # r) = merge_run s e r"

lemma even_room:
  fixes i len :: nat
  assumes "even len" "even i" "i < len" shows "i + 1 < len" "i + 2 \<le> len"
  using assms by (auto elim!: evenE)

lemma pairs_of_drop:
  assumes "even len" "even i" "i < len" "len \<le> length pt"
  shows "pairs_of (drop i (take len pt)) =
    (pt ! i, pt ! (i + 1)) # pairs_of (drop (i + 2) (take len pt))"
  using even_room [OF assms(1-3)] assms(4) Cons_nth_drop_Suc [of i "take len pt"]
    Cons_nth_drop_Suc [of "i + 1" "take len pt"]
  by (metis One_nat_def Suc_eq_plus1 add_2_eq_Suc' assms(3) length_take min.absorb2 nth_take
      pairs_of.simps(1))

lemma overlap_run_pairs:
  assumes "even len" "even i" "i \<le> len" "len \<le> length pt"
  shows "\<exists>e' i'. overlap_run pt len e i = Some (e', i') \<and> i \<le> i' \<and> i' \<le> len \<and> even i' \<and>
    merge_run s e (pairs_of (drop i (take len pt))) =
    (s, e') # merge_pairs (pairs_of (drop i' (take len pt)))"
  using assms
proof (induction pt len e i rule: overlap_run.induct)
  case (1 pt len e i)
  note prem = "1.prems"
  show ?case
  proof (cases "i < len")
    case False
    with prem show ?thesis by (simp add: overlap_run.simps)
  next
    case True
    note room = even_room [OF prem(1,2) True]
    note pr = pairs_of_drop [OF prem(1,2) True prem(4)]
    have r: "rd pt i = Some (pt ! i)" "rd pt (i + 1) = Some (pt ! (i + 1))"
      using room prem(4) by simp_all
    consider (far) "pt ! i > e" | (inside) "\<not> pt ! i > e" "pt ! (i + 1) \<le> e"
      | (extend) "\<not> pt ! i > e" "\<not> pt ! (i + 1) \<le> e" by blast
    then show ?thesis
    proof cases
      case far
      then have "overlap_run pt len e i = Some (e, i)"
        using True by (subst overlap_run.simps) (simp only: r if_True bind.bind_lunit)
      then show ?thesis using far prem pr by simp
    next
      case inside
      have "overlap_run pt len e i = overlap_run pt len e (i + 2)"
        using True inside by (subst overlap_run.simps) (simp only: r if_True if_False bind.bind_lunit)
      with "1.IH"(1) [OF True r inside prem(1) _ room(2) prem(4)] pr inside prem(2)
      show ?thesis by (auto simp: not_less)
    next
      case extend
      have "overlap_run pt len e i = overlap_run pt len (pt ! (i + 1)) (i + 2)"
        using True extend by (subst overlap_run.simps) (simp only: r if_True if_False bind.bind_lunit)
      with "1.IH"(2) [OF True r extend prem(1) _ room(2) prem(4)] pr extend prem(2)
      show ?thesis by (auto simp: not_less)
    qed
  qed
qed

lemma points_of_simps [simp]:
  "points_of [] = []" "points_of ((x, y) # ps) = x # y # points_of ps"
  by (simp_all add: points_of_def)

lemma overlap_loop_pairs:
  assumes "even len" "even i" "i \<le> len" "len \<le> length pt" "j \<le> i"
  shows "\<exists>pt' k. overlap_loop pt len i j = Some (pt', k) \<and> length pt' = length pt \<and> k \<le> len \<and>
    take k pt' = take j pt @ points_of (merge_pairs (pairs_of (drop i (take len pt))))"
  using assms
proof (induction pt len i j rule: overlap_loop.induct)
  case (1 pt len i j)
  note prem = "1.prems"
  show ?case
  proof (cases "i < len")
    case False
    with prem show ?thesis by (simp add: overlap_loop.simps)
  next
    case True
    note room = even_room [OF prem(1,2) True]
    note pr = pairs_of_drop [OF prem(1,2) True prem(4)]
    have "even (i + 2)" using prem(2) by simp
    from overlap_run_pairs [OF prem(1) this room(2) prem(4), of "pt ! (i + 1)" "pt ! i"]
    obtain e i' where run: "overlap_run pt len (pt ! (i + 1)) (i + 2) = Some (e, i')"
        "i + 2 \<le> i'" "i' \<le> len" "even i'"
      and merged: "merge_run (pt ! i) (pt ! (i + 1)) (pairs_of (drop (i + 2) (take len pt))) =
        (pt ! i, e) # merge_pairs (pairs_of (drop i' (take len pt)))" by auto
    let ?p1 = "pt[j := pt ! i]" and ?p2 = "pt[j := pt ! i, j + 1 := e]"
    have b: "i < length pt" "i + 1 < length pt" "j < length pt" "j + 1 < length pt"
      using room prem(4,5) by auto
    have r: "rd pt i = Some (pt ! i)" "rd pt (i + 1) = Some (pt ! (i + 1))"
      "wr pt j (pt ! i) = Some ?p1" "wr ?p1 (j + 1) e = Some ?p2" using b by simp_all
    have step: "overlap_loop pt len i j = overlap_loop ?p2 len i' (j + 2)"
      using True by (subst overlap_loop.simps)
        (simp only: r run(1) if_True bind.bind_lunit prod.case)
    have keep: "drop i' (take len ?p2) = drop i' (take len pt)"
      using prem(5) run(2) by (simp add: take_update_swap)
    have "len \<le> length ?p2" "j + 2 \<le> i'" using prem(4,5) run(2) by auto
    from "1.IH" [OF True r(1,2) run(1) refl r(3,4) prem(1) run(4,3) this] obtain pt' k where
      rec: "overlap_loop ?p2 len i' (j + 2) = Some (pt', k)" "length pt' = length pt" "k \<le> len"
        "take k pt' = take (j + 2) ?p2 @
           points_of (merge_pairs (pairs_of (drop i' (take len pt))))"
      unfolding keep by auto
    have "take (j + 2) ?p2 = take j pt @ [pt ! i, e]"
      using b by (simp add: take_Suc_conv_app_nth list_update_append)
    then show ?thesis using rec step merged pr by simp
  qed
qed

text \<open>The union of half-open intervals, and what merging keeps of it.\<close>

definition ivals :: "(u32 \<times> u32) list \<Rightarrow> u32 set" where
  "ivals ps = {v. \<exists>(s, e) \<in> set ps. s \<le> v \<and> v < e}"

lemma ivals_simps [simp]:
  "ivals [] = {}" "ivals ((s, e) # ps) = {v. s \<le> v \<and> v < e} \<union> ivals ps"
  by (auto simp: ivals_def)

lemma ivals_mset: "mset ps = mset qs \<Longrightarrow> ivals ps = ivals qs"
  by (simp add: ivals_def flip: set_mset_mset)

lemma merge_run_ivals:
  "sorted (s # map fst ps) \<Longrightarrow> ivals (merge_run s e ps) = {v. s \<le> v \<and> v < e} \<union> ivals ps"
proof (induction s e ps rule: merge_run.induct)
  case (2 s e s1 e1 r)
  have st: "s \<le> s1" "sorted (s # map fst r)" "sorted (s1 # map fst r)" using 2(4) by auto
  consider (far) "s1 > e" | (inside) "\<not> s1 > e" "e1 \<le> e" | (extend) "\<not> s1 > e" "\<not> e1 \<le> e" by blast
  then show ?case
  proof cases
    case far
    with 2(1) [OF far st(3)] show ?thesis by simp
  next
    case inside
    have "{v. s1 \<le> v \<and> v < e1} \<subseteq> {v. s \<le> v \<and> v < e}"
      using order_trans [OF st(1)] less_le_trans [OF _ inside(2)] by blast
    then have "{v. s \<le> v \<and> v < e} \<union> {v. s1 \<le> v \<and> v < e1} = {v. s \<le> v \<and> v < e}" by blast
    with 2(2) [OF inside st(2)] inside show ?thesis by (simp flip: Un_assoc)
  next
    case extend
    have "{v. s \<le> v \<and> v < e1} = {v. s \<le> v \<and> v < e} \<union> {v. s1 \<le> v \<and> v < e1}"
    proof (intro set_eqI iffI)
      fix v assume "v \<in> {v. s \<le> v \<and> v < e1}"
      then show "v \<in> {v. s \<le> v \<and> v < e} \<union> {v. s1 \<le> v \<and> v < e1}"
        using extend(1) order_trans [of s1 e v] by (cases "v < e") (auto simp: not_less)
    next
      fix v assume "v \<in> {v. s \<le> v \<and> v < e} \<union> {v. s1 \<le> v \<and> v < e1}"
      then show "v \<in> {v. s \<le> v \<and> v < e1}"
        using extend(2) order_trans [OF st(1)] less_trans [of v e e1] by (auto simp: not_le)
    qed
    with 2(3) [OF extend st(2)] extend show ?thesis by (simp add: Un_assoc)
  qed
qed simp

lemma merge_run_head: "\<forall>p \<in> set (points_of (merge_run s e ps)). s \<le> p"
  if "s \<le> e" "sorted (s # map fst ps)" "\<forall>(a, b) \<in> set ps. a < b"
  using that
proof (induction s e ps rule: merge_run.induct)
  case (2 s e s1 e1 r)
  have st: "s \<le> s1" "sorted (s # map fst r)" "sorted (s1 # map fst r)"
    "s1 \<le> e1" "\<forall>(a, b) \<in> set r. a < b" using 2(5,6) by auto
  consider (far) "s1 > e" | (inside) "\<not> s1 > e" "e1 \<le> e" | (extend) "\<not> s1 > e" "\<not> e1 \<le> e" by blast
  then show ?case
  proof cases
    case far
    have "\<forall>p \<in> set (points_of (merge_run s1 e1 r)). s \<le> p"
      using 2(1) [OF far st(4,3,5)] order_trans [OF st(1)] by blast
    with far 2(4) show ?thesis by simp
  next
    case inside
    with 2(2) [OF inside 2(4) st(2,5)] show ?thesis by simp
  next
    case extend
    have "s \<le> e1" using extend 2(4) by auto
    with extend 2(3) [OF extend _ st(2,5)] show ?thesis by simp
  qed
qed auto

lemma merge_run_strict:
  assumes "s < e" "sorted (s # map fst ps)" "\<forall>(a, b) \<in> set ps. a < b"
  shows "sorted_wrt (<) (points_of (merge_run s e ps))"
  using assms
proof (induction s e ps rule: merge_run.induct)
  case (2 s e s1 e1 r)
  have st: "s \<le> s1" "sorted (s # map fst r)" "sorted (s1 # map fst r)"
    "s1 < e1" "\<forall>(a, b) \<in> set r. a < b" using 2(5,6) by auto
  consider (far) "s1 > e" | (inside) "\<not> s1 > e" "e1 \<le> e" | (extend) "\<not> s1 > e" "\<not> e1 \<le> e" by blast
  then show ?case
  proof cases
    case far
    have "\<forall>p \<in> set (points_of (merge_run s1 e1 r)). s1 \<le> p"
      by (rule merge_run_head [OF less_imp_le [OF st(4)] st(3,5)])
    then have e: "\<forall>p \<in> set (points_of (merge_run s1 e1 r)). e < p"
      using less_le_trans [OF far] by blast
    then have "\<forall>p \<in> set (points_of (merge_run s1 e1 r)). s < p"
      using less_trans [OF 2(4)] by blast
    with far e 2(1) [OF far st(4,3,5)] 2(4) show ?thesis by simp
  next
    case inside
    with 2(2) [OF inside 2(4) st(2,5)] show ?thesis by simp
  next
    case extend
    then have "s < e1" using 2(4) by auto
    with extend 2(3) [OF extend _ st(2,5)] show ?thesis by simp
  qed
qed simp

lemma merge_pairs_spec:
  assumes "sorted (map fst ps)" "\<forall>(a, b) \<in> set ps. a < b"
  shows "ivals (merge_pairs ps) = ivals ps" "sorted_wrt (<) (points_of (merge_pairs ps))"
proof (atomize (full), cases ps)
  case (Cons p r)
  with assms show "ivals (merge_pairs ps) = ivals ps \<and> sorted_wrt (<) (points_of (merge_pairs ps))"
    using merge_run_ivals [of "fst p" r] merge_run_strict [of "fst p" "snd p" r]
    by (cases p) auto
qed simp

text \<open>For increasing points the parity of the count and the union of intervals agree.\<close>

lemma even_points_of [simp]: "even (length (points_of ps))"
  by (induction ps) (auto simp: points_of_def)

lemma cr_set_ivals: "sorted_wrt (<) (points_of ps) \<Longrightarrow> cr_set (points_of ps) = ivals ps"
proof (induction ps)
  case (Cons p ps)
  obtain s e where p: "p = (s, e)" by (cases p)
  have se: "s < e" and rest: "\<forall>q \<in> set (points_of ps). e < q" using Cons.prems p by auto
  have "v \<notin> cr_set (points_of ps)" if "v < e" for v
  proof -
    have "cr_cnt (points_of ps) v = 0"
      by (rule cr_cnt_none) (use rest that less_trans in blast)
    then show ?thesis by (simp add: cr_set_def)
  qed
  moreover have "ivals ps = cr_set (points_of ps)" using Cons p by simp
  ultimately show ?case using se p by (auto simp: cr_set_def not_le)
qed (simp add: cr_set_def)

lemma pairs_of_append:
  "even (length xs) \<Longrightarrow> pairs_of (xs @ ys) = pairs_of xs @ pairs_of ys"
  by (induction xs rule: pairs_of.induct) auto

lemma pairs_points: "even (length xs) \<Longrightarrow> points_of (pairs_of xs) = xs"
  by (induction xs rule: pairs_of.induct) auto

lemma points_pairs [simp]: "pairs_of (points_of ps) = ps"
  by (induction ps) (auto simp: points_of_def)

lemma length_pairs_of [simp]: "length (pairs_of xs) = length xs div 2"
  by (induction xs rule: pairs_of.induct) auto

lemma length_points_of [simp]: "length (points_of ps) = 2 * length ps"
  by (induction ps) (auto simp: points_of_def)

lemma points_of_append [simp]: "points_of (xs @ ys) = points_of xs @ points_of ys"
  by (simp add: points_of_def)

lemma rqsort_points:
  assumes "n \<le> length ps"
  shows "\<exists>qs. rqsort point_cmp ps n = Some qs \<and> length qs = length ps \<and>
    mset (take n qs) = mset (take n ps) \<and> drop n qs = drop n ps \<and> sorted (map fst (take n qs))"
proof -
  from rqsort_within [OF assms] obtain qs where
    q: "rqsort point_cmp ps n = Some qs" "within 0 n ps qs" by blast
  have "ordered point_cmp qs 0 n"
    by (rule rqsort_ordered [OF point_order.preorder_cmp_axioms assms q(1)])
  then have "sorted (map fst (take n qs))"
    using assms by (auto simp: ordered_def sorted_iff_nth_mono_less point_cmp_def split: if_splits)
      (metis linorder_not_le order_less_asym)
  then show ?thesis using q within_take_drop [OF q(2)] within_length [OF q(2)] by blast
qed

lemma take_pairs_of_Cons:
  "take n ((x, y) # pairs_of r) =
   (if n = 0 then [] else (x, y) # take (n - 1) (pairs_of r))"
  "pairs_of (take (2 * n) (x # y # r)) =
   (if n = 0 then [] else (x, y) # pairs_of (take (2 * (n - 1)) r))"
  by (cases n; simp)+

lemma take_pairs_of: "take n (pairs_of xs) = pairs_of (take (2 * n) xs)"
proof (induction "length xs" arbitrary: n xs rule: less_induct)
  case less
  consider "length xs \<le> 1" | x y r where "xs = x # y # r"
    by (cases xs; cases "tl xs") auto
  then show ?case
  proof cases
    case 1
    then show ?thesis by (cases rule: short_listE) (cases n; simp)+
  next
    case 2
    with less [of r] show ?thesis by (simp only: take_pairs_of_Cons pairs_of.simps) simp
  qed
qed

lemma take_points_of: "take (2 * n) (points_of ps) = points_of (take n ps)"
proof (induction ps arbitrary: n)
  case (Cons p ps)
  then show ?case by (cases p; cases n) simp_all
qed simp

lemma sort_overlap_spec:
  assumes ok: "cr_ok cr" "even (cr_len cr)"
    and ne: "\<forall>(a, b) \<in> set (pairs_of (cr_list cr)). a < b"
  shows "\<exists>cr'. cr_sort_and_remove_overlap cr = Some cr' \<and> cr_ok cr' \<and>
    cr_realloc_func cr' = cr_realloc_func cr \<and> cr_canon (cr_list cr') \<and>
    cr_set (cr_list cr') = ivals (pairs_of (cr_list cr))"
proof -
  let ?w = "cr_words cr" and ?len = "cr_len cr" and ?n = "cr_len cr div 2"
  have len: "2 * ?n = ?len" using ok(2) by simp
  have fit: "?len \<le> length ?w" using ok(1) by (simp add: cr_ok_def)
  then have "?n \<le> length (pairs_of ?w)" by (simp add: div_le_mono)
  from rqsort_points [OF this] obtain qs where
    q: "rqsort point_cmp (pairs_of ?w) ?n = Some qs" "length qs = length ?w div 2"
      "mset (take ?n qs) = mset (take ?n (pairs_of ?w))" "sorted (map fst (take ?n qs))" by auto
  let ?qs = "take ?n qs"
  have ps: "take ?n (pairs_of ?w) = pairs_of (cr_list cr)"
    by (simp only: take_pairs_of len cr_list_def)
  let ?pt = "points_of qs @ drop (length (points_of qs)) ?w"
  have b: "blit ?w 0 (points_of qs) = Some ?pt" using q(2) by (simp add: blit_def)
  have lpt: "length ?pt = length ?w" using q(2) by simp
  have "?n \<le> length ?w div 2" using fit by (rule div_le_mono)
  then have "?len \<le> length (points_of qs)" using q(2) len by simp
  then have tpt: "take ?len ?pt = points_of ?qs" by (simp flip: take_points_of add: len)
  from overlap_loop_pairs [OF ok(2) even_zero le0 _ le0, of ?pt] lpt fit tpt
  obtain pt' k where run: "overlap_loop ?pt ?len 0 0 = Some (pt', k)" "length pt' = length ?w"
      "k \<le> ?len" "take k pt' = points_of (merge_pairs ?qs)" by auto
  have "set_mset (mset ?qs) = set_mset (mset (pairs_of (cr_list cr)))"
    by (simp only: q(3) ps)
  then have "\<forall>(a, b) \<in> set ?qs. a < b" using ne by simp
  note m = merge_pairs_spec [OF q(4) this]
  have can: "cr_canon (points_of (merge_pairs ?qs))" using m(2) by (simp add: cr_canon_def)
  have "cr_set (points_of (merge_pairs ?qs)) = ivals (pairs_of (cr_list cr))"
    using m cr_set_ivals ivals_mset [OF q(3)] ps by simp
  moreover have "cr_sort_and_remove_overlap cr =
      Some (cr\<lparr>cr_points := map_option (\<lambda>_. pt') (cr_points cr), cr_len := k\<rparr>)" (is "_ = Some ?cr")
    using q(1) b run(1) by (simp add: cr_sort_and_remove_overlap_def)
  moreover have "cr_ok ?cr" "cr_list ?cr = take k pt'"
    using ok(1) run(2,3) by (auto simp: cr_ok_def cr_list_def cr_words_def split: option.splits)
  ultimately show ?thesis using can run(4) by auto
qed

section \<open>The properties\<close>

lemma libc_refuses: "\<exists>p k. libc_realloc ok p k = None \<Longrightarrow> \<exists>k. \<not> ok k"
  by (auto simp: libc_realloc_def Let_def split: if_splits)

lemma libc_outcome:
  assumes "libc_cr.gives_set ok r V"
  shows "\<exists>ret cr'. r = Some (ret, cr') \<and>
    (ret = 0 \<and> cr_ok cr' \<and> cr_canon (cr_list cr') \<and> cr_set (cr_list cr') = V \<or>
     ret = -1 \<and> (\<exists>k. \<not> ok k))"
  using assms libc_refuses [of ok]
  unfolding libc_cr.gives_set_def libc_cr.gives_def by blast

text \<open>
  C1: \<open>cr_op\<close> on two increasing lists of points never leaves its memory, and unless
  the allocator refuses (\<open>-1\<close>) it leaves strictly increasing points that denote the
  union, intersection, symmetric difference or difference of the two sets.
\<close>

theorem cr_op_correct:
  assumes "cr_ok cr" "cr_realloc_func cr = libc_realloc ok" "cr_len cr = 0"
    "length a + length b \<le> CR_MAX" "sorted a" "sorted b" "even (length a)" "even (length b)"
  shows "\<exists>ret cr'. cr_op cr a b op = Some (ret, cr') \<and>
    (ret = 0 \<and> cr_ok cr' \<and> cr_canon (cr_list cr') \<and>
       cr_set (cr_list cr') = cr_op_set op (cr_set a) (cr_set b) \<or>
     ret = -1 \<and> (\<exists>k. \<not> ok k))"
  by (rule libc_outcome [OF libc_cr.op_gives_set [OF assms]])

lemma cr_op_correct_witness:
  "\<exists>cr'. cr_op (cr_init (\<lambda>_. True) None) [10, 20] [15, 30] CR_OP_INTER = Some (0, cr') \<and>
     cr_canon (cr_list cr') \<and> cr_set (cr_list cr') = cr_set [10, 20] \<inter> cr_set [15, 30]"
  using cr_op_correct [of "cr_init (\<lambda>_. True) None" "\<lambda>_. True" "[10, 20]" "[15, 30]" CR_OP_INTER]
  by (auto simp: cr_init_def cr_ok_def cr_words_def CR_MAX_def)

text \<open>
  C5: \<open>cr_invert\<close> complements a range within the code points below \<open>UINT32_MAX\<close>.
\<close>

theorem cr_invert_correct:
  assumes "cr_ok cr" "cr_realloc_func cr = libc_realloc ok" "cr_len cr + 2 \<le> CR_MAX"
    "sorted (cr_list cr)" "even (cr_len cr)"
  shows "\<exists>ret cr'. cr_invert cr = Some (ret, cr') \<and>
    (ret = 0 \<and> cr_ok cr' \<and> cr_canon (cr_list cr') \<and>
       cr_set (cr_list cr') = - cr_set (cr_list cr) - {- 1} \<or>
     ret = -1 \<and> (\<exists>k. \<not> ok k))"
  by (rule libc_outcome [OF libc_cr.invert_gives_set [OF assms]])

lemma cr_invert_correct_witness:
  "\<exists>cr'. cr_invert (cr_init (\<lambda>_. True) None) = Some (0, cr') \<and> cr_set (cr_list cr') = - {- 1}"
  using cr_invert_correct [of "cr_init (\<lambda>_. True) None" "\<lambda>_. True"]
  by (auto simp: cr_init_def cr_ok_def cr_words_def cr_list_def cr_set_def CR_MAX_def)

lemma word_less_succ:
  assumes "(c :: u32) < - 1" shows "v < c + 1 \<longleftrightarrow> v \<le> c"
proof -
  have "unat c < unat (- 1 :: u32)" using assms by (simp only: word_less_nat_alt)
  then have "unat c < 4294967295" by (simp add: unsigned_minus_1_eq_mask mask_eq_exp_minus_1)
  then have "unat (c + 1) = unat c + 1" by (subst unat_add_no_wrap) auto
  then show ?thesis by (simp only: word_less_nat_alt word_le_nat_alt) auto
qed

text \<open>
  \<open>cr_union_interval\<close> adds the closed interval \<open>c1..c2\<close> to a range, provided
  \<open>c2 + 1\<close> does not wrap.
\<close>

theorem cr_union_interval_correct:
  assumes "cr_ok cr" "cr_realloc_func cr = libc_realloc ok" "cr_len cr + 2 \<le> CR_MAX"
    "cr_canon (cr_list cr)" "c1 \<le> c2" "c2 < - 1"
  shows "\<exists>ret cr'. cr_union_interval cr c1 c2 = Some (ret, cr') \<and>
    (ret = 0 \<and> cr_ok cr' \<and> cr_canon (cr_list cr') \<and>
       cr_set (cr_list cr') = cr_set (cr_list cr) \<union> {c1..c2} \<or>
     ret = -1 \<and> (\<exists>k. \<not> ok k))"
proof -
  have c2: "c2 < c2 + 1" using word_less_succ [OF assms(6)] by simp
  have "length (cr_list cr) = cr_len cr" using assms(1) by (simp add: cr_list_def cr_ok_def)
  then have "sorted (cr_list cr)" "even (cr_len cr)"
    using assms(4) by (auto simp: cr_canon_def intro: strict_sorted_imp_sorted)
  moreover have "sorted [c1, c2 + 1]" using assms(5) c2 by auto
  moreover have "cr_set [c1, c2 + 1] = {c1..c2}"
  proof (rule set_eqI)
    fix v
    have "c2 + 1 \<le> v \<longleftrightarrow> \<not> v \<le> c2" using word_less_succ [OF assms(6), of v] by auto
    moreover have "v \<le> c2 \<or> c1 \<le> v" using order_trans [OF assms(5)] linear by blast
    ultimately show "v \<in> cr_set [c1, c2 + 1] \<longleftrightarrow> v \<in> {c1..c2}" by (auto simp: cr_set_def)
  qed
  ultimately show ?thesis
    using libc_outcome [OF libc_cr.op1_gives_set [OF assms(1,2), of "[c1, c2 + 1]" CR_OP_UNION]]
      assms(3) by (simp add: cr_union_interval_def)
qed

lemma cr_union_interval_correct_witness:
  "\<exists>cr'. cr_union_interval (cr_init (\<lambda>_. True) None) 97 122 = Some (0, cr') \<and>
     cr_set (cr_list cr') = {97..122}"
  using cr_union_interval_correct [of "cr_init (\<lambda>_. True) None" "\<lambda>_. True" 97 122]
  by (auto simp: cr_init_def cr_ok_def cr_words_def cr_list_def cr_set_def cr_canon_def CR_MAX_def)

text \<open>
  C4: \<open>cr_sort_and_remove_overlap\<close> turns any list of non-empty intervals, in any order
  and overlapping, into strictly increasing points of their union, in place.
\<close>

theorem cr_sort_and_remove_overlap_correct:
  assumes "cr_ok cr" "even (cr_len cr)" "\<forall>(a, b) \<in> set (pairs_of (cr_list cr)). a < b"
  shows "\<exists>cr'. cr_sort_and_remove_overlap cr = Some cr' \<and> cr_ok cr' \<and> cr_canon (cr_list cr') \<and>
    cr_set (cr_list cr') = {v. \<exists>(a, b) \<in> set (pairs_of (cr_list cr)). a \<le> v \<and> v < b}"
  using sort_overlap_spec [OF assms] by (auto simp: ivals_def)

lemma cr_sort_and_remove_overlap_correct_witness:
  "\<exists>cr'. cr_sort_and_remove_overlap
      \<lparr>cr_len = 4, cr_size = 4, cr_points = Some [5, 9, 1, 6], cr_realloc_func = libc_realloc (\<lambda>_. True)\<rparr>
      = Some cr' \<and> cr_canon (cr_list cr')"
  using cr_sort_and_remove_overlap_correct [of "\<lparr>cr_len = 4, cr_size = 4,
      cr_points = Some [5, 9, 1, 6], cr_realloc_func = libc_realloc (\<lambda>_. True)\<rparr>"]
  by (auto simp: cr_ok_def cr_words_def cr_list_def)

end
