(* ===== verification/JsMem.thy ===== *)
theory JsMem
  imports QPrelude
begin

text \<open>
  The memory and exception interface of the runtime in \<open>src/src/core/quickjs.c\<close>, as the
  engine's own code sees it: \<open>js_malloc\<close>, \<open>js_realloc\<close> and \<open>js_free\<close> over the function
  table \<open>rt->mf\<close> that the embedder supplies, the pending exception of the runtime and the
  convention that a failing operation throws and returns \<open>NULL\<close>.

  The function table is a parameter: \<open>mf_ok k n\<close> says whether the \<open>k\<close>-th request, for \<open>n\<close>
  bytes, succeeds, and \<open>mf_junk k\<close> is what the new block holds before it is written.  The
  runtime counts the live blocks, so that every theorem also says what an operation
  allocates, and that its error paths release what they took.  The contents of the array
  buffers, which typed arrays share, are part of the runtime (\<open>abufs\<close>).
\<close>

section \<open>The runtime\<close>

datatype js_error = RangeError string | TypeError string | InternalError string

record malloc_funcs =
  mf_ok :: "nat \<Rightarrow> nat \<Rightarrow> bool"
  mf_junk :: "nat \<Rightarrow> nat \<Rightarrow> 64 word"

record js_rt =
  mseq :: nat
  live :: int
  exc :: "js_error option"
  abufs :: "8 word list list"

text \<open>
  A value or the \<open>NULL\<close> that goes with a pending exception; an operation that would leave
  its objects is \<open>None\<close>.
\<close>

datatype 'a ret = Null | Ret 'a

type_synonym 'a js = "js_rt \<Rightarrow> ('a ret \<times> js_rt) option"

definition js_return :: "'a \<Rightarrow> 'a js" where
  "js_return x = (\<lambda>rt. Some (Ret x, rt))"

definition js_throw :: "js_error \<Rightarrow> 'a js" where
  "js_throw e = (\<lambda>rt. Some (Null, rt\<lparr>exc := Some e\<rparr>))"

definition js_lift :: "'a option \<Rightarrow> 'a js" where
  "js_lift m = (\<lambda>rt. map_option (\<lambda>x. (Ret x, rt)) m)"

text \<open>\<open>js_try m h k\<close> is \<open>x = m; if (!x) { h; return NULL; } k\<close>.\<close>

definition js_try :: "'a js \<Rightarrow> unit js \<Rightarrow> ('a \<Rightarrow> 'b js) \<Rightarrow> 'b js" where
  "js_try m h k = (\<lambda>rt. case m rt of
       None \<Rightarrow> None
     | Some (Null, rt1) \<Rightarrow> map_option (\<lambda>(_, rt2). (Null, rt2)) (h rt1)
     | Some (Ret x, rt1) \<Rightarrow> k x rt1)"

definition js_bind :: "'a js \<Rightarrow> ('a \<Rightarrow> 'b js) \<Rightarrow> 'b js" where
  "js_bind m k = js_try m (js_return ()) k"

text \<open>A call whose failure the caller does not look at.\<close>

definition js_ignore :: "'a js \<Rightarrow> 'b js \<Rightarrow> 'b js" where
  "js_ignore m k = (\<lambda>rt. case m rt of None \<Rightarrow> None | Some (_, rt1) \<Rightarrow> k rt1)"

definition JS_ThrowOutOfMemory :: "'a js" where
  "JS_ThrowOutOfMemory = js_throw (InternalError ''out of memory'')"

definition js_malloc_rt :: "malloc_funcs \<Rightarrow> nat \<Rightarrow> js_rt \<Rightarrow> nat ret \<times> js_rt" where
  "js_malloc_rt mf nbytes rt =
     (if mf_ok mf (mseq rt) nbytes
      then (Ret (mseq rt), rt\<lparr>mseq := mseq rt + 1, live := live rt + 1\<rparr>)
      else (Null, rt\<lparr>mseq := mseq rt + 1\<rparr>))"

definition js_malloc :: "malloc_funcs \<Rightarrow> nat \<Rightarrow> nat js" where
  "js_malloc mf nbytes = (\<lambda>rt. case js_malloc_rt mf nbytes rt of
       (Ret p, rt1) \<Rightarrow> Some (Ret p, rt1)
     | (Null, rt1) \<Rightarrow> JS_ThrowOutOfMemory rt1)"

definition js_free_rt :: "js_rt \<Rightarrow> js_rt" where
  "js_free_rt rt = rt\<lparr>live := live rt - 1\<rparr>"

definition js_free :: "'a \<Rightarrow> unit js" where
  "js_free p = (\<lambda>rt. Some (Ret (), js_free_rt rt))"

text \<open>Reallocation of a block to a size that is not zero: the block stays, moved or not.\<close>

definition js_realloc_rt :: "malloc_funcs \<Rightarrow> nat \<Rightarrow> js_rt \<Rightarrow> nat ret \<times> js_rt" where
  "js_realloc_rt mf nbytes rt =
     (if mf_ok mf (mseq rt) nbytes
      then (Ret (mseq rt), rt\<lparr>mseq := mseq rt + 1\<rparr>)
      else (Null, rt\<lparr>mseq := mseq rt + 1\<rparr>))"

definition js_realloc :: "malloc_funcs \<Rightarrow> nat \<Rightarrow> nat js" where
  "js_realloc mf nbytes = (\<lambda>rt. case js_realloc_rt mf nbytes rt of
       (Ret p, rt1) \<Rightarrow> Some (Ret p, rt1)
     | (Null, rt1) \<Rightarrow> JS_ThrowOutOfMemory rt1)"

section \<open>What an operation promises\<close>

definition mf_may_fail :: "malloc_funcs \<Rightarrow> bool" where
  "mf_may_fail mf = (\<exists>k n. \<not> mf_ok mf k n)"

text \<open>
  \<open>js_sat mf E de d P m\<close>: from every state \<open>m\<close> stays inside its objects and ends; a value it
  returns satisfies \<open>P\<close> and the live blocks have grown by \<open>d\<close>; when it returns \<open>NULL\<close> they
  have grown by \<open>de\<close> and the pending exception is one of \<open>E\<close>, or is out of memory after the
  allocator has failed.
\<close>

definition js_sat ::
  "malloc_funcs \<Rightarrow> (js_error \<Rightarrow> bool) \<Rightarrow> int \<Rightarrow> int \<Rightarrow> ('a \<Rightarrow> bool) \<Rightarrow> 'a js \<Rightarrow> bool" where
  "js_sat mf E de d P m = (\<forall>rt. \<exists>r rt'. m rt = Some (r, rt') \<and>
     (case r of
        Null \<Rightarrow> live rt' = live rt + de \<and>
          (\<exists>e. exc rt' = Some e \<and> (E e \<or> e = InternalError ''out of memory'' \<and> mf_may_fail mf))
      | Ret x \<Rightarrow> P x \<and> live rt' = live rt + d \<and>
          (exc rt' = exc rt \<or> mf_may_fail mf)))"

named_theorems js_rules \<open>rules for the contracts of runtime operations\<close>

lemma js_satI:
  assumes "\<And>rt. \<exists>r rt'. m rt = Some (r, rt') \<and>
     (case r of
        Null \<Rightarrow> live rt' = live rt + de \<and>
          (\<exists>e. exc rt' = Some e \<and> (E e \<or> e = InternalError ''out of memory'' \<and> mf_may_fail mf))
      | Ret x \<Rightarrow> P x \<and> live rt' = live rt + d \<and>
          (exc rt' = exc rt \<or> mf_may_fail mf))"
  shows "js_sat mf E de d P m"
  using assms unfolding js_sat_def by blast

lemma js_sat_cases:
  assumes "js_sat mf E de d P m"
  obtains (null) rt' e where "m rt = Some (Null, rt')" "live rt' = live rt + de"
      "exc rt' = Some e" "E e \<or> e = InternalError ''out of memory'' \<and> mf_may_fail mf"
  | (ret) x rt' where "m rt = Some (Ret x, rt')" "P x" "live rt' = live rt + d"
      "exc rt' = exc rt \<or> mf_may_fail mf"
proof -
  from assms obtain r rt' where "m rt = Some (r, rt')" and
    "case r of
        Null \<Rightarrow> live rt' = live rt + de \<and>
          (\<exists>e. exc rt' = Some e \<and> (E e \<or> e = InternalError ''out of memory'' \<and> mf_may_fail mf))
      | Ret x \<Rightarrow> P x \<and> live rt' = live rt + d \<and> (exc rt' = exc rt \<or> mf_may_fail mf)"
    unfolding js_sat_def by blast
  then show thesis using null ret by (cases r) auto
qed

lemma js_sat_mono:
  assumes "js_sat mf E de d P m" "\<And>e. E e \<Longrightarrow> E' e" "\<And>x. P x \<Longrightarrow> P' x"
  shows "js_sat mf E' de d P' m"
proof (rule js_satI)
  fix rt
  from assms(1) show "\<exists>r rt'. m rt = Some (r, rt') \<and>
     (case r of
        Null \<Rightarrow> live rt' = live rt + de \<and>
          (\<exists>e. exc rt' = Some e \<and> (E' e \<or> e = InternalError ''out of memory'' \<and> mf_may_fail mf))
      | Ret x \<Rightarrow> P' x \<and> live rt' = live rt + d \<and> (exc rt' = exc rt \<or> mf_may_fail mf))"
    by (cases rule: js_sat_cases [of _ _ _ _ _ _ rt]) (use assms(2,3) in auto)
qed

lemma js_sat_return [js_rules]: "P x \<Longrightarrow> js_sat mf E de 0 P (js_return x)"
  by (rule js_satI) (simp add: js_return_def)

lemma js_sat_throw [js_rules]: "E e \<Longrightarrow> js_sat mf E 0 d P (js_throw e)"
  by (rule js_satI) (simp add: js_throw_def)

lemma js_sat_lift [js_rules]: "m = Some x \<Longrightarrow> P x \<Longrightarrow> js_sat mf E de 0 P (js_lift m)"
  by (rule js_satI) (simp add: js_lift_def)

lemma js_sat_malloc [js_rules]: "js_sat mf E 0 1 (\<lambda>_. True) (js_malloc mf n)"
proof (rule js_satI)
  fix rt
  show "\<exists>r rt'. js_malloc mf n rt = Some (r, rt') \<and>
     (case r of
        Null \<Rightarrow> live rt' = live rt + 0 \<and>
          (\<exists>e. exc rt' = Some e \<and> (E e \<or> e = InternalError ''out of memory'' \<and> mf_may_fail mf))
      | Ret x \<Rightarrow> True \<and> live rt' = live rt + 1 \<and> (exc rt' = exc rt \<or> mf_may_fail mf))"
    by (cases "mf_ok mf (mseq rt) n")
      (auto simp: js_malloc_def js_malloc_rt_def JS_ThrowOutOfMemory_def js_throw_def mf_may_fail_def)
qed

lemma js_sat_realloc [js_rules]: "js_sat mf E 0 0 (\<lambda>_. True) (js_realloc mf n)"
proof (rule js_satI)
  fix rt
  show "\<exists>r rt'. js_realloc mf n rt = Some (r, rt') \<and>
     (case r of
        Null \<Rightarrow> live rt' = live rt + 0 \<and>
          (\<exists>e. exc rt' = Some e \<and> (E e \<or> e = InternalError ''out of memory'' \<and> mf_may_fail mf))
      | Ret x \<Rightarrow> True \<and> live rt' = live rt + 0 \<and> (exc rt' = exc rt \<or> mf_may_fail mf))"
    by (cases "mf_ok mf (mseq rt) n")
      (auto simp: js_realloc_def js_realloc_rt_def JS_ThrowOutOfMemory_def js_throw_def mf_may_fail_def)
qed

lemma js_sat_free [js_rules]: "js_sat mf E de (- 1) (\<lambda>_. True) (js_free p)"
  by (rule js_satI) (simp add: js_free_def js_free_rt_def)

lemma js_sat_try:
  assumes m: "js_sat mf E de1 d1 Q m"
    and h: "js_sat mf (\<lambda>_. False) dh dh (\<lambda>_. True) h" and exc: "\<And>rt r rt'. h rt = Some (r, rt') \<Longrightarrow> exc rt' = exc rt"
    and k: "\<And>x. Q x \<Longrightarrow> js_sat mf E (de1 + dh - d1) d2 P (k x)"
  shows "js_sat mf E (de1 + dh) (d1 + d2) P (js_try m h k)"
proof (rule js_satI)
  fix rt
  show "\<exists>r rt'. js_try m h k rt = Some (r, rt') \<and>
     (case r of
        Null \<Rightarrow> live rt' = live rt + (de1 + dh) \<and>
          (\<exists>e. exc rt' = Some e \<and> (E e \<or> e = InternalError ''out of memory'' \<and> mf_may_fail mf))
      | Ret x \<Rightarrow> P x \<and> live rt' = live rt + (d1 + d2) \<and> (exc rt' = exc rt \<or> mf_may_fail mf))"
  proof (cases rule: js_sat_cases [OF m, of rt])
    case (1 rt1 e)
    show ?thesis
      by (cases rule: js_sat_cases [OF h, of rt1]) (use 1 exc [of rt1] in \<open>auto simp: js_try_def\<close>)
  next
    case (2 x rt1)
    show ?thesis
      by (cases rule: js_sat_cases [OF k [OF 2(2)], of rt1]) (use 2 in \<open>auto simp: js_try_def\<close>)
  qed
qed

lemma js_sat_try_free:
  assumes "js_sat mf E (de + 1) d1 Q m" "\<And>x. Q x \<Longrightarrow> js_sat mf E (de - d1) (d - d1) P (k x)"
  shows "js_sat mf E de d P (js_try m (js_free p) k)"
proof -
  have "exc rt' = exc rt" if "js_free p rt = Some (r, rt')" for rt r rt'
    using that by (auto simp: js_free_def js_free_rt_def)
  from js_sat_try [OF assms(1) js_sat_free this, where ?d2.0 = "d - d1" and P = P and k = k] assms(2) show ?thesis by simp
qed

lemma js_sat_bind:
  assumes "js_sat mf E de d1 Q m" "\<And>x. Q x \<Longrightarrow> js_sat mf E (de - d1) (d - d1) P (k x)"
  shows "js_sat mf E de d P (js_bind m k)"
  using js_sat_try [OF assms(1), of 0 "js_return ()" "d - d1" P k] assms(2)
  by (simp add: js_bind_def js_sat_return) (simp add: js_return_def)

lemma js_sat_bind_lift:
  assumes "m = Some x" "js_sat mf E de d P (k x)"
  shows "js_sat mf E de d P (js_bind (js_lift m) k)"
  using assms by (simp add: js_bind_def js_try_def js_lift_def)

lemma js_sat_ignore:
  assumes "js_sat mf E 0 0 Q m" "js_sat mf (\<lambda>_. False) de d P k"
  assumes "mf_may_fail mf \<or> (\<forall>rt. \<exists>x rt'. m rt = Some (Ret x, rt'))"
  shows "js_sat mf E de d P (js_ignore m k)"
proof (rule js_satI)
  fix rt
  show "\<exists>r rt'. js_ignore m k rt = Some (r, rt') \<and>
     (case r of
        Null \<Rightarrow> live rt' = live rt + de \<and>
          (\<exists>e. exc rt' = Some e \<and> (E e \<or> e = InternalError ''out of memory'' \<and> mf_may_fail mf))
      | Ret x \<Rightarrow> P x \<and> live rt' = live rt + d \<and> (exc rt' = exc rt \<or> mf_may_fail mf))"
  proof (cases rule: js_sat_cases [OF assms(1), of rt])
    case (1 rt1 e)
    then have f: "mf_may_fail mf" using assms(3) by (metis option.inject prod.inject ret.distinct(1))
    show ?thesis
      by (cases rule: js_sat_cases [OF assms(2), of rt1]) (use 1 f in \<open>auto simp: js_ignore_def\<close>)
  next
    case (2 x rt1)
    show ?thesis
      by (cases rule: js_sat_cases [OF assms(2), of rt1]) (use 2 in \<open>auto simp: js_ignore_def\<close>)
  qed
qed

lemma realloc_succeeds: "mf_may_fail mf \<or> (\<forall>rt. \<exists>x rt'. js_realloc mf n rt = Some (Ret x, rt'))"
  by (auto simp: mf_may_fail_def js_realloc_def js_realloc_rt_def)

text \<open>An allocator that never fails, for evaluating the operations.\<close>

definition good_mf :: malloc_funcs where
  "good_mf = \<lparr>mf_ok = \<lambda>_ _. True, mf_junk = \<lambda>_ _. 0xDEADBEEF\<rparr>"

definition rt0 :: js_rt where
  "rt0 = \<lparr>mseq = 0, live = 0, exc = None, abufs = []\<rparr>"

lemma good_mf_ok [simp]: "\<not> mf_may_fail good_mf"
  by (simp add: mf_may_fail_def good_mf_def)

end
