(* ===== verification/MpLimb.thy ===== *)
theory MpLimb
  imports QPrelude
begin

text \<open>
  The multi-precision layer under the BigInt of \<open>src/src/core/quickjs.c\<close> (the 64-bit
  configuration): \<open>ADDC\<close>, \<open>mp_add\<close>, \<open>mp_sub\<close>, \<open>mp_neg\<close>, \<open>mp_mul1\<close>, \<open>mp_div1\<close>,
  \<open>mp_add_mul1\<close>, \<open>mp_mul_basecase\<close>, \<open>mp_sub_mul1\<close>, \<open>mp_shl\<close> and \<open>mp_shr\<close>.

  A routine gets the limbs at each of its pointers as a list, least significant limb
  first, and returns the limbs it stores there with the word it returns.  The code
  often stores over an operand; each limb is read before it is written, so this is
  the list function as well.
\<close>

type_synonym limb = "64 word"
type_synonym dlimb = "128 word"

section \<open>The code\<close>

definition ADDC :: "limb \<Rightarrow> limb \<Rightarrow> limb \<Rightarrow> limb \<times> limb" where
  "ADDC op1 op2 carry_in =
     (let a = op1 + op2;
          k1 = of_bool (a < op1);
          a' = a + carry_in
      in (a', of_bool (a' < carry_in) OR k1))"

fun mp_add :: "limb list \<Rightarrow> limb list \<Rightarrow> limb \<Rightarrow> limb list \<times> limb" where
  "mp_add (x # xs) (y # ys) carry =
     (let (r, carry') = ADDC x y carry; (rs, k) = mp_add xs ys carry' in (r # rs, k))"
| "mp_add _ _ carry = ([], carry)"

fun mp_sub :: "limb list \<Rightarrow> limb list \<Rightarrow> limb \<Rightarrow> limb list \<times> limb" where
  "mp_sub (x # xs) (y # ys) k =
     (let a = x - y;
          k1 = of_bool (a > x);
          v = a - k;
          k' = of_bool (v > a) OR k1;
          (rs, c) = mp_sub xs ys k'
      in (v # rs, c))"
| "mp_sub _ _ k = ([], k)"

fun mp_neg_loop :: "limb list \<Rightarrow> limb \<Rightarrow> limb list \<times> limb" where
  "mp_neg_loop [] carry = ([], carry)"
| "mp_neg_loop (y # ys) carry =
     (let v = NOT y + carry; (rs, c) = mp_neg_loop ys (of_bool (v < carry)) in (v # rs, c))"

definition mp_neg :: "limb list \<Rightarrow> limb list \<times> limb" where
  "mp_neg ys = mp_neg_loop ys 1"

fun mp_mul1 :: "limb list \<Rightarrow> limb \<Rightarrow> limb \<Rightarrow> limb list \<times> limb" where
  "mp_mul1 [] b l = ([], l)"
| "mp_mul1 (x # xs) b l =
     (let t = (ucast x * ucast b + ucast l :: dlimb);
          (rs, h) = mp_mul1 xs b (ucast (drop_bit 64 t))
      in (ucast t # rs, h))"

text \<open>The loop of \<open>mp_div1\<close> runs from the most significant limb down.\<close>

fun mp_div1 :: "limb list \<Rightarrow> limb \<Rightarrow> limb \<Rightarrow> limb list \<times> limb" where
  "mp_div1 [] b r = ([], r)"
| "mp_div1 (x # xs) b r =
     (let (qs, r') = mp_div1 xs b r;
          a1 = (push_bit 64 (ucast r') OR ucast x :: dlimb)
      in (ucast (a1 div ucast b) # qs, ucast (a1 mod ucast b)))"

fun mp_add_mul1_loop :: "limb list \<Rightarrow> limb list \<Rightarrow> limb \<Rightarrow> limb \<Rightarrow> limb list \<times> limb" where
  "mp_add_mul1_loop (r # rs) (x # xs) b l =
     (let t = (ucast x * ucast b + ucast l + ucast r :: dlimb);
          (ts, h) = mp_add_mul1_loop rs xs b (ucast (drop_bit 64 t))
      in (ucast t # ts, h))"
| "mp_add_mul1_loop _ _ b l = ([], l)"

definition mp_add_mul1 :: "limb list \<Rightarrow> limb list \<Rightarrow> limb \<Rightarrow> limb list \<times> limb" where
  "mp_add_mul1 tabr taba b = mp_add_mul1_loop tabr taba b 0"

fun mp_sub_mul1_loop :: "limb list \<Rightarrow> limb list \<Rightarrow> limb \<Rightarrow> limb \<Rightarrow> limb list \<times> limb" where
  "mp_sub_mul1_loop (r # rs) (x # xs) b l =
     (let t = (ucast r - ucast x * ucast b - ucast l :: dlimb);
          (ts, h) = mp_sub_mul1_loop rs xs b (ucast (- drop_bit 64 t))
      in (ucast t # ts, h))"
| "mp_sub_mul1_loop _ _ b l = ([], l)"

definition mp_sub_mul1 :: "limb list \<Rightarrow> limb list \<Rightarrow> limb \<Rightarrow> limb list \<times> limb" where
  "mp_sub_mul1 tabr taba b = mp_sub_mul1_loop tabr taba b 0"

text \<open>
  \<open>mp_mul_basecase\<close> writes through \<open>result\<close>: the low limbs by \<open>mp_mul1\<close>, then one
  \<open>mp_add_mul1\<close> at every further offset.  \<open>None\<close> is a write outside \<open>result\<close>.
\<close>

fun mp_mul_rows :: "limb list \<Rightarrow> limb list \<Rightarrow> nat \<Rightarrow> limb list \<Rightarrow> limb list option" where
  "mp_mul_rows result op1 i [] = Some result"
| "mp_mul_rows result op1 i (b # bs) = do {
     row \<leftarrow> grab result i (length op1);
     let (row', r) = mp_add_mul1 row op1 b;
     res1 \<leftarrow> blit result i row';
     res2 \<leftarrow> wr res1 (i + length op1) r;
     mp_mul_rows res2 op1 (i + 1) bs }"

definition mp_mul_basecase :: "limb list \<Rightarrow> limb list \<Rightarrow> limb list \<Rightarrow> limb list option" where
  "mp_mul_basecase result op1 op2 = do {
     b \<leftarrow> rd op2 0;
     let (row, h) = mp_mul1 op1 b 0;
     res1 \<leftarrow> blit result 0 row;
     res2 \<leftarrow> wr res1 (length op1) h;
     mp_mul_rows res2 op1 1 (tl op2) }"

fun mp_shl_loop :: "limb list \<Rightarrow> nat \<Rightarrow> limb \<Rightarrow> limb list \<times> limb" where
  "mp_shl_loop [] shift l = ([], l)"
| "mp_shl_loop (v # vs) shift l =
     (let (rs, h) = mp_shl_loop vs shift (drop_bit (64 - shift) v)
      in ((push_bit shift v OR l) # rs, h))"

definition mp_shl :: "limb list \<Rightarrow> nat \<Rightarrow> limb list \<times> limb" where
  "mp_shl taba shift = mp_shl_loop taba shift 0"

text \<open>The loop of \<open>mp_shr\<close> runs downwards; it returns the limb it read last.\<close>

fun mp_shr_loop :: "limb list \<Rightarrow> nat \<Rightarrow> limb \<Rightarrow> limb list \<times> limb" where
  "mp_shr_loop [] shift l = ([], l)"
| "mp_shr_loop (a # as) shift l =
     (let (rs, l') = mp_shr_loop as shift l
      in ((drop_bit shift a OR push_bit (64 - shift) l') # rs, a))"

definition mp_shr :: "limb list \<Rightarrow> nat \<Rightarrow> limb \<Rightarrow> limb list \<times> limb" where
  "mp_shr tab shift high =
     (let (rs, l) = mp_shr_loop tab shift high in (rs, l AND (push_bit shift 1 - 1)))"

section \<open>The value of a limb array\<close>

definition BASE :: nat where
  "BASE = 2 ^ 64"

fun limbs_val :: "limb list \<Rightarrow> nat" where
  "limbs_val [] = 0"
| "limbs_val (x # xs) = unat x + BASE * limbs_val xs"

lemma BASE_pos [simp]: "0 < BASE" "BASE \<noteq> 0" "1 < BASE" "Suc 0 < BASE"
  by (simp_all add: BASE_def)

lemma unat_limb [simp]: "unat (x :: limb) < BASE"
  using unsigned_less [of x, where 'a = nat] by (simp add: BASE_def)

lemma unat_dlimb: "unat (t :: dlimb) < BASE * BASE"
  using unsigned_less [of t, where 'a = nat] by (simp add: BASE_def)

lemma limbs_val_append: "limbs_val (xs @ ys) = limbs_val xs + BASE ^ length xs * limbs_val ys"
  by (induction xs) (simp_all add: algebra_simps)

lemma limbs_val_less: "limbs_val xs < BASE ^ length xs"
proof (induction xs)
  case (Cons x xs)
  have "unat x + BASE * limbs_val xs < BASE + BASE * limbs_val xs" by simp
  also have "\<dots> = BASE * (limbs_val xs + 1)" by simp
  also have "\<dots> \<le> BASE * BASE ^ length xs" using Cons by (intro mult_le_mono2) simp
  finally show ?case by simp
qed simp

lemma limbs_val_zeros [simp]: "limbs_val (replicate n 0) = 0"
  by (induction n) simp_all

lemma limbs_val_inj: "length xs = length ys \<Longrightarrow> limbs_val xs = limbs_val ys \<Longrightarrow> xs = ys"
proof (induction xs ys rule: list_induct2)
  case (Cons x xs y ys)
  have eq: "unat x + BASE * limbs_val xs = unat y + BASE * limbs_val ys" using Cons.prems by simp
  have m: "(unat a + BASE * k) mod BASE = unat a" for a :: limb and k by simp
  have d: "(unat a + BASE * k) div BASE = k" for a :: limb and k by simp
  have "unat x = unat y" using arg_cong [OF eq, of "\<lambda>v. v mod BASE"] unfolding m .
  moreover have "limbs_val xs = limbs_val ys" using arg_cong [OF eq, of "\<lambda>v. v div BASE"] unfolding d .
  ultimately show ?case using Cons.IH by (simp add: word_unat_eq_iff)
qed simp

section \<open>Single limb steps\<close>

lemma carry_add:
  "unat (x + y :: limb) + BASE * of_bool (x + y < x) = unat x + unat y"
proof (cases "unat x + unat y < BASE")
  case True
  then have "unat (x + y) = unat x + unat y" by (intro unat_add_no_wrap) (simp add: BASE_def)
  then show ?thesis by (simp add: word_less_nat_alt)
next
  case False
  then have "unat (x + y) = unat x + unat y - BASE"
    using unat_add_wrap [of x y] by (simp add: BASE_def)
  moreover from this have "unat (x + y) < unat x" using False unat_limb [of y] by linarith
  ultimately show ?thesis using False by (simp add: word_less_nat_alt)
qed

lemma borrow_sub:
  "unat (x - y :: limb) + unat y = unat x + BASE * of_bool (x - y > x)"
proof (cases "y \<le> x")
  case True
  then have "unat (x - y) = unat x - unat y" "unat y \<le> unat x"
    by (simp_all add: unat_sub_le word_le_nat_alt)
  then show ?thesis by (simp add: word_less_nat_alt)
next
  case False
  then have lt: "unat x < unat y" by (simp add: word_le_nat_alt)
  then have "unat (x - y) = BASE + unat x - unat y"
    by (simp add: unat_sub_if_size word_size BASE_def)
  moreover from this have "unat x < unat (x - y)" using lt unat_limb [of y] by linarith
  ultimately show ?thesis using lt unat_limb [of y] by (simp add: word_less_nat_alt del: unat_limb)
qed

lemma ADDC_spec:
  assumes "ADDC x y c = (r, c')" "c \<le> 1"
  shows "unat r + BASE * unat c' = unat x + unat y + unat c" "c' \<le> 1"
proof -
  have c: "unat c \<le> 1" using assms(2) by (simp add: word_le_nat_alt)
  let ?a = "x + y"
  have r: "r = ?a + c" and c': "c' = of_bool (?a + c < c) OR of_bool (?a < x)"
    using assms(1) by (auto simp: ADDC_def Let_def)
  have 1: "unat ?a + BASE * of_bool (?a < x) = unat x + unat y" by (rule carry_add)
  have 2: "unat (?a + c) + BASE * of_bool (?a + c < c) = unat ?a + unat c"
    using carry_add [of c ?a] by (simp add: add.commute)
  have "\<not> (?a + c < c \<and> ?a < x)"
  proof
    assume both: "?a + c < c \<and> ?a < x"
    then have "unat ?a + BASE = unat x + unat y" "unat (?a + c) + BASE = unat ?a + unat c"
      using 1 2 by simp_all
    then show False using c unat_limb [of x] unat_limb [of y] by linarith
  qed
  then show "c' \<le> 1" "unat r + BASE * unat c' = unat x + unat y + unat c"
    using 1 2 unfolding r c' by (auto simp: of_bool_def)
qed

lemma dlimb_split:
  "unat (t :: dlimb) = unat (ucast t :: limb) + BASE * unat (ucast (drop_bit 64 t) :: limb)"
proof -
  have lo: "unat (ucast t :: limb) = unat t mod BASE"
    by (simp add: unsigned_ucast_eq unsigned_take_bit_eq take_bit_eq_mod BASE_def)
  have "unat t div BASE < BASE" using unat_dlimb [of t] by (simp add: less_mult_imp_div_less)
  then have "unat (ucast (drop_bit 64 t) :: limb) = unat t div BASE"
    by (simp add: unsigned_ucast_eq take_bit_eq_mod unat_drop_bit_div BASE_def)
  with lo show ?thesis by simp
qed

lemma unat_dlimb_ucast [simp]: "unat (ucast (x :: limb) :: dlimb) = unat x"
  by (rule unat_ucast_up) simp

section \<open>Addition, subtraction, negation\<close>

lemma mp_add_spec:
  assumes "mp_add xs ys c = (rs, c')" "length xs = length ys" "c \<le> 1"
  shows "length rs = length xs \<and> c' \<le> 1 \<and>
    limbs_val rs + BASE ^ length xs * unat c' = limbs_val xs + limbs_val ys + unat c"
  using assms(2,1,3)
proof (induction xs ys arbitrary: c rs c' rule: list_induct2)
  case (Cons x xs y ys)
  obtain r k where k: "ADDC x y c = (r, k)" by (cases "ADDC x y c")
  obtain ts where t: "mp_add xs ys k = (ts, c')" "rs = r # ts"
    using Cons.prems(1) k by (auto split: prod.splits)
  note st = ADDC_spec [OF k Cons.prems(2)]
  from Cons.IH [OF t(1) st(2)] have len: "length ts = length xs" "c' \<le> 1"
    and rec: "limbs_val ts + BASE ^ length xs * unat c' = limbs_val xs + limbs_val ys + unat k" by auto
  have "limbs_val rs + BASE ^ length (x # xs) * unat c' =
      unat r + BASE * (limbs_val ts + BASE ^ length xs * unat c')"
    using t(2) by (simp add: algebra_simps)
  also have "\<dots> = (unat r + BASE * unat k) + BASE * (limbs_val xs + limbs_val ys)"
    unfolding rec by (simp add: algebra_simps)
  also have "\<dots> = limbs_val (x # xs) + limbs_val (y # ys) + unat c"
    unfolding st(1) by (simp add: algebra_simps)
  finally show ?case using len t(2) by simp
qed simp

lemma mp_sub_step:
  fixes x y k :: limb
  assumes "k \<le> 1"
  defines "a \<equiv> x - y"
  defines "c \<equiv> of_bool (a - k > a) OR of_bool (a > x) :: limb"
  shows "unat (a - k) + unat y + unat k = unat x + BASE * unat c" "c \<le> 1"
proof -
  have k: "unat k \<le> 1" using assms(1) by (simp add: word_le_nat_alt)
  have 1: "unat a + unat y = unat x + BASE * of_bool (a > x)" unfolding a_def by (rule borrow_sub)
  have 2: "unat (a - k) + unat k = unat a + BASE * of_bool (a - k > a)" by (rule borrow_sub)
  have "\<not> (a - k > a \<and> a > x)"
  proof
    assume "a - k > a \<and> a > x"
    then have "unat a + unat y = unat x + BASE" "unat (a - k) + unat k = unat a + BASE"
      using 1 2 by simp_all
    moreover have "unat (a - k) < BASE" "unat y < BASE" by simp_all
    ultimately show False using k by linarith
  qed
  then show "c \<le> 1" "unat (a - k) + unat y + unat k = unat x + BASE * unat c"
    using 1 2 unfolding c_def by (auto simp: of_bool_def)
qed

lemma mp_sub_spec:
  assumes "mp_sub xs ys c = (rs, c')" "length xs = length ys" "c \<le> 1"
  shows "length rs = length xs \<and> c' \<le> 1 \<and>
    limbs_val rs + limbs_val ys + unat c = limbs_val xs + BASE ^ length xs * unat c'"
  using assms(2,1,3)
proof (induction xs ys arbitrary: c rs c' rule: list_induct2)
  case (Cons x xs y ys)
  let ?a = "x - y"
  let ?k = "of_bool (?a - c > ?a) OR of_bool (?a > x) :: limb"
  obtain ts where t: "mp_sub xs ys ?k = (ts, c')" "rs = (?a - c) # ts"
    using Cons.prems(1) by (auto simp: Let_def split: prod.splits)
  note st = mp_sub_step [OF Cons.prems(2), of x y]
  from Cons.IH [OF t(1) st(2)] have len: "length ts = length xs" "c' \<le> 1"
    and rec: "limbs_val ts + limbs_val ys + unat ?k = limbs_val xs + BASE ^ length xs * unat c'" by auto
  have "limbs_val rs + limbs_val (y # ys) + unat c =
      (unat (?a - c) + unat y + unat c) + BASE * (limbs_val ts + limbs_val ys)"
    using t(2) by (simp add: algebra_simps)
  also have "\<dots> = unat x + BASE * (limbs_val ts + limbs_val ys + unat ?k)"
    unfolding st(1) by (simp add: algebra_simps)
  also have "\<dots> = limbs_val (x # xs) + BASE ^ length (x # xs) * unat c'"
    unfolding rec by (simp add: algebra_simps)
  finally show ?case using len t(2) by simp
qed simp

lemma unat_not_limb: "unat (NOT (y :: limb)) = BASE - 1 - unat y"
proof -
  have "NOT y = - 1 - y" by (simp add: not_eq_complement)
  moreover have "unat (- 1 :: limb) = BASE - 1"
    by (simp add: unsigned_minus_1_eq_mask mask_eq_exp_minus_1 BASE_def)
  ultimately show ?thesis using unat_sub_le [of y "- 1"] by simp
qed

lemma mp_neg_loop_spec:
  assumes "mp_neg_loop ys c = (rs, c')" "c \<le> 1"
  shows "length rs = length ys \<and> c' \<le> 1 \<and>
    limbs_val rs + limbs_val ys + 1 + BASE ^ length ys * unat c' = BASE ^ length ys + unat c"
  using assms
proof (induction ys arbitrary: c rs c')
  case (Cons y ys)
  let ?v = "NOT y + c"
  obtain ts where t: "mp_neg_loop ys (of_bool (?v < c)) = (ts, c')" "rs = ?v # ts"
    using Cons.prems(1) by (auto simp: Let_def split: prod.splits)
  have st: "unat ?v + BASE * of_bool (?v < c) + unat y + 1 = BASE + unat c"
    using carry_add [of c "NOT y"] unat_limb [of y]
    by (simp add: add.commute unat_not_limb del: unat_limb)
  have k: "unat (of_bool (?v < c) :: limb) = of_bool (?v < c)" "of_bool (?v < c) \<le> (1 :: limb)"
    by (simp_all add: of_bool_def)
  from Cons.IH [OF t(1) k(2)] have len: "length ts = length ys" "c' \<le> 1"
    and rec: "limbs_val ts + limbs_val ys + 1 + BASE ^ length ys * unat c' =
      BASE ^ length ys + of_bool (?v < c)" unfolding k(1) by auto
  have "limbs_val rs + limbs_val (y # ys) + 1 + BASE ^ length (y # ys) * unat c' + BASE =
      unat ?v + unat y + 1 + BASE * (limbs_val ts + limbs_val ys + 1 + BASE ^ length ys * unat c')"
    using t(2) by (simp add: algebra_simps)
  also have "\<dots> = BASE ^ length (y # ys) + (unat ?v + BASE * of_bool (?v < c) + unat y + 1)"
    unfolding rec by (simp add: algebra_simps)
  also have "\<dots> = BASE ^ length (y # ys) + unat c + BASE" unfolding st by simp
  finally show ?case using len t(2) by simp
qed simp

text \<open>\<open>mp_neg\<close> is negation modulo a power of the base.\<close>

lemma mp_neg_spec:
  assumes "mp_neg ys = (rs, c')"
  shows "length rs = length ys \<and>
    limbs_val rs = (if limbs_val ys = 0 then 0 else BASE ^ length ys - limbs_val ys)"
proof -
  from mp_neg_loop_spec [of ys 1 rs c'] assms
  have len: "length rs = length ys" "unat c' \<le> 1"
    and val: "limbs_val rs + limbs_val ys + BASE ^ length ys * unat c' = BASE ^ length ys"
    by (auto simp: mp_neg_def word_le_nat_alt)
  have "unat c' = 0 \<or> unat c' = 1" using len(2) by linarith
  with val len(1) limbs_val_less [of rs] limbs_val_less [of ys] show ?thesis by auto
qed

section \<open>Multiplication\<close>

lemma mul_limb_bound:
  fixes x b :: limb and l r :: nat
  assumes "l < BASE" "r < BASE"
  shows "unat x * unat b + l + r < BASE * BASE"
proof -
  have "unat x \<le> BASE - 1" "unat b \<le> BASE - 1" using unat_limb [of x] unat_limb [of b] by linarith+
  then have "unat x * unat b \<le> (BASE - 1) * (BASE - 1)" by (rule mult_le_mono)
  moreover have "l \<le> BASE - 1" "r \<le> BASE - 1" using assms by linarith+
  moreover have "(BASE - 1) * (BASE - 1) + (BASE - 1) + (BASE - 1) < BASE * BASE"
    by (simp add: BASE_def)
  ultimately show ?thesis by linarith
qed

lemma unat_dlimb_mac:
  fixes x b :: limb
  assumes "unat l < BASE" "unat r < BASE"
  shows "unat (ucast x * ucast b + l + r :: dlimb) = unat x * unat b + unat l + unat r"
proof -
  have lt: "unat x * unat b + unat l + unat r < 2 ^ 128"
    using mul_limb_bound [OF assms, of x b] by (simp add: BASE_def)
  then show ?thesis
    by (simp add: unat_word_ariths mod_less)
qed

lemma mp_mul1_spec:
  assumes "mp_mul1 xs b l = (rs, h)"
  shows "length rs = length xs \<and>
    limbs_val rs + BASE ^ length xs * unat h = limbs_val xs * unat b + unat l"
  using assms
proof (induction xs arbitrary: l rs)
  case (Cons x xs)
  let ?t = "ucast x * ucast b + ucast l :: dlimb"
  obtain ts where t: "mp_mul1 xs b (ucast (drop_bit 64 ?t)) = (ts, h)" "rs = ucast ?t # ts"
    using Cons.prems by (auto simp: Let_def split: prod.splits)
  have val: "unat ?t = unat x * unat b + unat l"
    using unat_dlimb_mac [of "ucast l" 0 x b] by simp
  from Cons.IH [OF t(1)] have len: "length ts = length xs"
    and rec: "limbs_val ts + BASE ^ length xs * unat h =
      limbs_val xs * unat b + unat (ucast (drop_bit 64 ?t) :: limb)" by auto
  have "limbs_val rs + BASE ^ length (x # xs) * unat h =
      unat (ucast ?t :: limb) + BASE * (limbs_val ts + BASE ^ length xs * unat h)"
    using t(2) by (simp add: algebra_simps)
  also have "\<dots> = unat ?t + BASE * (limbs_val xs * unat b)"
    unfolding rec dlimb_split [of ?t] by (simp add: algebra_simps)
  also have "\<dots> = limbs_val (x # xs) * unat b + unat l"
    unfolding val by (simp add: algebra_simps)
  finally show ?case using len t(2) by simp
qed simp

lemma mp_add_mul1_loop_spec:
  assumes "mp_add_mul1_loop rs xs b l = (ts, h)" "length rs = length xs"
  shows "length ts = length rs \<and>
    limbs_val ts + BASE ^ length rs * unat h = limbs_val rs + limbs_val xs * unat b + unat l"
  using assms(2,1)
proof (induction rs xs arbitrary: l ts rule: list_induct2)
  case (Cons r rs x xs)
  let ?t = "ucast x * ucast b + ucast l + ucast r :: dlimb"
  obtain us where t: "mp_add_mul1_loop rs xs b (ucast (drop_bit 64 ?t)) = (us, h)" "ts = ucast ?t # us"
    using Cons.prems by (auto simp: Let_def split: prod.splits)
  have val: "unat ?t = unat x * unat b + unat l + unat r"
    using unat_dlimb_mac [of "ucast l" "ucast r" x b] by simp
  from Cons.IH [OF t(1)] have len: "length us = length rs"
    and rec: "limbs_val us + BASE ^ length rs * unat h =
      limbs_val rs + limbs_val xs * unat b + unat (ucast (drop_bit 64 ?t) :: limb)" by auto
  have "limbs_val ts + BASE ^ length (r # rs) * unat h =
      unat (ucast ?t :: limb) + BASE * (limbs_val us + BASE ^ length rs * unat h)"
    using t(2) by (simp add: algebra_simps)
  also have "\<dots> = unat ?t + BASE * (limbs_val rs + limbs_val xs * unat b)"
    unfolding rec dlimb_split [of ?t] by (simp add: algebra_simps)
  also have "\<dots> = limbs_val (r # rs) + limbs_val (x # xs) * unat b + unat l"
    unfolding val by (simp add: algebra_simps)
  finally show ?case using len t(2) by simp
qed simp

lemma mp_add_mul1_spec:
  assumes "mp_add_mul1 rs xs b = (ts, h)" "length rs = length xs"
  shows "length ts = length rs"
    "limbs_val ts + BASE ^ length rs * unat h = limbs_val rs + limbs_val xs * unat b"
  using mp_add_mul1_loop_spec [of rs xs b 0 ts h] assms by (auto simp: mp_add_mul1_def)

lemma mp_mul_rows_spec:
  assumes "i + length op1 + length bs \<le> length res" "op1 \<noteq> []"
  shows "\<exists>res'. mp_mul_rows res op1 i bs = Some res' \<and> length res' = length res \<and>
    drop (i + length op1 + length bs) res' = drop (i + length op1 + length bs) res \<and>
    limbs_val (take (i + length op1 + length bs) res') =
    limbs_val (take (i + length op1) res) + BASE ^ i * (limbs_val op1 * limbs_val bs)"
  using assms
proof (induction bs arbitrary: i res)
  case (Cons b bs)
  let ?n = "length op1"
  let ?row = "take ?n (drop i res)"
  have fit: "i + ?n < length res" using Cons.prems(1) by simp
  then have lrow: "length ?row = ?n" by simp
  obtain ts h where t: "mp_add_mul1 ?row op1 b = (ts, h)" by (cases "mp_add_mul1 ?row op1 b")
  note m = mp_add_mul1_spec [OF t lrow]
  have lts: "length ts = ?n" using m(1) lrow by simp
  let ?r1 = "take i res @ ts @ drop (i + ?n) res"
  let ?r2 = "take i res @ (ts @ [h]) @ drop (i + ?n + 1) res"
  have b1: "blit res i ts = Some ?r1" using fit lts by (simp add: blit_def)
  have r2: "?r1[i + ?n := h] = ?r2"
    using blit_list_update_snoc [of i ts res h] fit lts by (simp add: add.assoc)
  then have w: "wr ?r1 (i + ?n) h = Some ?r2" using fit lts by (simp add: wr_def)
  have step: "mp_mul_rows res op1 i (b # bs) = mp_mul_rows ?r2 op1 (i + 1) bs"
    using fit t b1 r2 lts by (simp add: grab_inside wr_def)
  have len2: "length ?r2 = length res" using fit lts by simp
  have "i + 1 + ?n + length bs \<le> length ?r2" using Cons.prems(1) len2 by simp
  from Cons.IH [OF this Cons.prems(2)] obtain res' where
    rec: "mp_mul_rows ?r2 op1 (i + 1) bs = Some res'" "length res' = length res"
      "drop (i + 1 + ?n + length bs) res' = drop (i + 1 + ?n + length bs) ?r2"
      "limbs_val (take (i + 1 + ?n + length bs) res') =
       limbs_val (take (i + 1 + ?n) ?r2) + BASE ^ (i + 1) * (limbs_val op1 * limbs_val bs)"
    unfolding len2 by blast
  have "take (i + 1 + ?n) ?r2 = take i res @ ts @ [h]" using fit lts by simp
  moreover have "take (i + ?n) res = take i res @ ?row" by (simp add: take_add)
  moreover have "length (take i res) = i" using fit by simp
  ultimately have "limbs_val (take (i + 1 + ?n) ?r2) =
      limbs_val (take (i + ?n) res) + BASE ^ i * (limbs_val op1 * unat b)"
    using m lts lrow by (simp add: limbs_val_append algebra_simps)
  then have "limbs_val (take (i + 1 + ?n + length bs) res') = limbs_val (take (i + ?n) res) +
      BASE ^ i * (limbs_val op1 * limbs_val (b # bs))"
    using rec(4) by (simp add: algebra_simps)
  moreover have "drop (i + 1 + ?n + length bs) ?r2 = drop (i + 1 + ?n + length bs) res"
    using fit lts by (simp add: ac_simps)
  ultimately show ?case using step rec(1-3) by simp
qed simp

lemma mp_mul_basecase_spec:
  assumes "length res = length op1 + length op2" "op1 \<noteq> []" "op2 \<noteq> []"
  shows "\<exists>res'. mp_mul_basecase res op1 op2 = Some res' \<and> length res' = length res \<and>
    limbs_val res' = limbs_val op1 * limbs_val op2"
proof -
  obtain b bs where op2: "op2 = b # bs" using assms(3) by (cases op2) auto
  obtain ts h where t: "mp_mul1 op1 b 0 = (ts, h)" by (cases "mp_mul1 op1 b 0")
  have m: "length ts = length op1" "limbs_val ts + BASE ^ length op1 * unat h = limbs_val op1 * unat b"
    using mp_mul1_spec [OF t] by auto
  let ?r1 = "ts @ drop (length op1) res" and ?r2 = "(ts @ [h]) @ drop (length op1 + 1) res"
  have fit: "length op1 < length res" using assms(1) op2 by simp
  have b1: "blit res 0 ts = Some ?r1" using fit m by (simp add: blit_def)
  have r2: "?r1[length op1 := h] = ?r2"
    using blit_list_update_snoc [of 0 ts res h] fit m by simp
  then have w: "wr ?r1 (length op1) h = Some ?r2" using fit m by (simp add: wr_def)
  have step: "mp_mul_basecase res op1 op2 = mp_mul_rows ?r2 op1 1 bs"
    using t b1 r2 fit m op2 by (simp add: mp_mul_basecase_def rd_def wr_def)
  have len2: "length ?r2 = length res" using fit m by simp
  have "1 + length op1 + length bs \<le> length ?r2" using assms(1) op2 len2 by simp
  from mp_mul_rows_spec [OF this assms(2)] obtain res' where
    "mp_mul_rows ?r2 op1 1 bs = Some res'" "length res' = length res"
    "limbs_val (take (1 + length op1 + length bs) res') =
     limbs_val (take (1 + length op1) ?r2) + BASE ^ 1 * (limbs_val op1 * limbs_val bs)"
    unfolding len2 by blast
  moreover have "take (1 + length op1) ?r2 = ts @ [h]" using m by simp
  moreover have "1 + length op1 + length bs = length res" using assms(1) op2 by simp
  ultimately show ?thesis using step m op2 by (simp add: limbs_val_append algebra_simps)
qed

section \<open>Multiply and subtract\<close>

lemma sub_mul_step:
  fixes r x b l :: limb
  defines "t \<equiv> ucast r - ucast x * ucast b - ucast l :: dlimb"
  shows "unat (ucast t :: limb) + (unat x * unat b + unat l) =
    unat r + BASE * unat (ucast (- drop_bit 64 t) :: limb)"
proof -
  let ?X = "unat x * unat b + unat l" and ?m = "ucast x * ucast b + ucast l :: dlimb"
  have X: "unat ?m = ?X" using unat_dlimb_mac [of "ucast l" 0 x b] by simp
  have t: "t = ucast r - ?m" by (simp add: t_def algebra_simps)
  have Xle: "?X \<le> BASE * BASE - BASE"
  proof -
    have "?X + (BASE - 1) < BASE * BASE" using mul_limb_bound [of "unat l" "BASE - 1" x b] by simp
    then show ?thesis using BASE_pos(1) by linarith
  qed
  show ?thesis
  proof (cases "?X \<le> unat r")
    case True
    then have le: "?m \<le> ucast r" using X by (simp add: word_le_nat_alt)
    have ut: "unat t = unat r - ?X" using unat_sub_le [OF le] X by (simp add: t)
    have lt: "unat t < BASE" using ut unat_limb [of r] by linarith
    then have "unat (drop_bit 64 t) = 0" by (simp add: unat_drop_bit_div BASE_def)
    then have z: "drop_bit 64 t = 0" by (simp only: unat_eq_zero)
    have "unat (ucast t :: limb) = unat t" using dlimb_split [of t] by (simp add: z)
    with True ut z show ?thesis by simp
  next
    case False
    have big: "(2::nat) ^ 128 = BASE * BASE" by (simp add: BASE_def)
    have "unat t = unat (ucast r :: dlimb) + 2 ^ 128 - unat ?m"
      unfolding t using False X by (subst unat_sub_if_size) (simp add: word_size)
    then have ut: "unat t = BASE * BASE + unat r - ?X"
      unfolding X big unat_dlimb_ucast by (simp only: add.commute)
    have "BASE \<le> unat t" using Xle False unfolding ut by linarith
    then have pos: "1 \<le> unat t div BASE" using div_le_mono [of BASE "unat t" BASE] by simp
    define h where "h = unat t div BASE"
    have h: "1 \<le> h" "h < BASE"
      using pos unat_dlimb [of t] by (auto simp: h_def less_mult_imp_div_less)
    have uh: "unat (drop_bit 64 t) = h" by (simp add: unat_drop_bit_div h_def BASE_def)
    have "unat (0 - drop_bit 64 t) = unat (0 :: dlimb) + 2 ^ 128 - unat (drop_bit 64 t)"
      using h uh by (subst unat_sub_if_size) (simp add: word_size)
    then have "unat (- drop_bit 64 t) = BASE * BASE - h" unfolding uh big by simp
    then have "unat (ucast (- drop_bit 64 t) :: limb) = (BASE * BASE - h) mod BASE"
      by (simp add: unsigned_ucast_eq take_bit_eq_mod BASE_def)
    also have "BASE * BASE - h = (BASE - h) + BASE * (BASE - 1)"
      using h by (simp add: diff_mult_distrib2)
    also have "\<dots> mod BASE = BASE - h" using h by (simp only: mod_mult_self2) simp
    finally have l': "unat (ucast (- drop_bit 64 t) :: limb) = BASE - h" .
    have lo: "unat (ucast t :: limb) = unat t mod BASE"
      by (simp add: unsigned_ucast_eq take_bit_eq_mod BASE_def)
    have "unat t mod BASE + BASE * h = unat t" by (simp add: h_def)
    moreover have "BASE * (BASE - h) + BASE * h = BASE * BASE"
      using h by (simp flip: add_mult_distrib2)
    moreover have "unat t + ?X = BASE * BASE + unat r" using Xle ut by linarith
    ultimately show ?thesis unfolding l' lo by linarith
  qed
qed

lemma mp_sub_mul1_loop_spec:
  assumes "mp_sub_mul1_loop rs xs b l = (ts, h)" "length rs = length xs"
  shows "length ts = length rs \<and>
    limbs_val ts + limbs_val xs * unat b + unat l = limbs_val rs + BASE ^ length rs * unat h"
  using assms(2,1)
proof (induction rs xs arbitrary: l ts rule: list_induct2)
  case (Cons r rs x xs)
  let ?t = "ucast r - ucast x * ucast b - ucast l :: dlimb"
  obtain us where t: "mp_sub_mul1_loop rs xs b (ucast (- drop_bit 64 ?t)) = (us, h)" "ts = ucast ?t # us"
    using Cons.prems by (auto simp: Let_def split: prod.splits)
  from Cons.IH [OF t(1)] have len: "length us = length rs"
    and rec: "limbs_val us + limbs_val xs * unat b + unat (ucast (- drop_bit 64 ?t) :: limb) =
      limbs_val rs + BASE ^ length rs * unat h" by auto
  have "limbs_val ts + limbs_val (x # xs) * unat b + unat l =
      unat (ucast ?t :: limb) + (unat x * unat b + unat l) + BASE * (limbs_val us + limbs_val xs * unat b)"
    using t(2) by (simp add: algebra_simps)
  also have "\<dots> = unat r + BASE * (limbs_val us + limbs_val xs * unat b +
      unat (ucast (- drop_bit 64 ?t) :: limb))"
    unfolding sub_mul_step by (simp add: algebra_simps)
  also have "\<dots> = limbs_val (r # rs) + BASE ^ length (r # rs) * unat h"
    unfolding rec by (simp add: algebra_simps)
  finally show ?case using len t(2) by simp
qed simp

lemma mp_sub_mul1_spec:
  assumes "mp_sub_mul1 rs xs b = (ts, h)" "length rs = length xs"
  shows "length ts = length rs"
    "limbs_val ts + limbs_val xs * unat b = limbs_val rs + BASE ^ length rs * unat h"
  using mp_sub_mul1_loop_spec [of rs xs b 0 ts h] assms by (auto simp: mp_sub_mul1_def)

section \<open>Division by a limb and shifts\<close>

lemma unat_push_or:
  fixes hi lo :: "'a::len word"
  assumes "unat lo < 2 ^ k" "unat hi < 2 ^ (LENGTH('a) - k)" "k \<le> LENGTH('a)"
  shows "unat (push_bit k hi OR lo) = unat hi * 2 ^ k + unat lo"
proof -
  have pow: "(2::nat) ^ (LENGTH('a) - k) * 2 ^ k = 2 ^ LENGTH('a)"
    using assms(3) by (simp flip: power_add)
  have "(unat hi + 1) * 2 ^ k \<le> 2 ^ (LENGTH('a) - k) * 2 ^ k"
    using assms(2) by (intro mult_le_mono1) simp
  then have fit: "unat hi * 2 ^ k + 2 ^ k \<le> 2 ^ LENGTH('a)" unfolding pow by simp
  then have p: "unat (push_bit k hi) = unat hi * 2 ^ k"
    by (intro unat_push_bit_mult) (rule less_le_trans [OF _ fit], simp)
  have "unat (lo + push_bit k hi) = unat lo + unat (push_bit k hi)"
    using assms(1) fit unfolding p[symmetric] by (intro unat_add_no_wrap) (simp add: p)
  moreover have "push_bit k hi OR lo = lo + push_bit k hi"
    using or_high_low [OF assms(1), of hi] by (simp add: or.commute)
  ultimately show ?thesis using p by simp
qed

lemma unat_pair: "unat (push_bit 64 (ucast a1) OR ucast a0 :: dlimb) = unat a1 * BASE + unat a0"
  for a1 a0 :: limb
proof -
  have "unat (push_bit 64 (ucast a1) OR ucast a0 :: dlimb) =
      unat (ucast a1 :: dlimb) * 2 ^ 64 + unat (ucast a0 :: dlimb)"
    using unat_limb [of a1] unat_limb [of a0] unfolding BASE_def
    by (intro unat_push_or) simp_all
  then show ?thesis by (simp add: BASE_def)
qed

lemma unat_ucast_limb: "unat (t :: dlimb) < BASE \<Longrightarrow> unat (ucast t :: limb) = unat t"
  by (simp add: unsigned_ucast_eq take_bit_nat_eq_self BASE_def)

lemma div_limb_step:
  fixes r x b :: limb
  assumes "r < b"
  defines "t \<equiv> push_bit 64 (ucast r) OR ucast x :: dlimb"
  shows "unat (ucast (t div ucast b) :: limb) = (unat r * BASE + unat x) div unat b"
    and "unat (ucast (t mod ucast b) :: limb) = (unat r * BASE + unat x) mod unat b"
proof -
  have t: "unat t = unat r * BASE + unat x" unfolding t_def by (rule unat_pair)
  have rb: "unat r < unat b" using assms(1) by (simp add: word_less_nat_alt)
  have "unat r * BASE + unat x < (unat r + 1) * BASE" by simp
  also have "\<dots> \<le> BASE * unat b"
    unfolding mult.commute [of BASE] using rb by (intro mult_le_mono1) simp
  finally have "(unat r * BASE + unat x) div unat b < BASE" by (rule less_mult_imp_div_less)
  then show "unat (ucast (t div ucast b) :: limb) = (unat r * BASE + unat x) div unat b"
    by (subst unat_ucast_limb) (simp_all add: unat_div t)
  have "(unat r * BASE + unat x) mod unat b < unat b" using rb by (intro mod_less_divisor) simp
  then have "(unat r * BASE + unat x) mod unat b < BASE" using unat_limb [of b] by (rule less_trans)
  then show "unat (ucast (t mod ucast b) :: limb) = (unat r * BASE + unat x) mod unat b"
    by (subst unat_ucast_limb) (simp_all add: unat_mod t)
qed

lemma mp_div1_spec:
  assumes "mp_div1 xs b r = (qs, r')" "r < b"
  shows "length qs = length xs \<and> r' < b \<and>
    limbs_val qs * unat b + unat r' = limbs_val xs + BASE ^ length xs * unat r"
  using assms
proof (induction xs arbitrary: qs r')
  case (Cons x xs)
  obtain ts s where t: "mp_div1 xs b r = (ts, s)" by (cases "mp_div1 xs b r")
  from Cons.IH [OF t Cons.prems(2)] have len: "length ts = length xs" and s: "s < b"
    and rec: "limbs_val ts * unat b + unat s = limbs_val xs + BASE ^ length xs * unat r" by auto
  let ?n = "unat s * BASE + unat x"
  have qs: "qs = ucast ((push_bit 64 (ucast s) OR ucast x :: dlimb) div ucast b) # ts"
    and r': "r' = ucast ((push_bit 64 (ucast s) OR ucast x :: dlimb) mod ucast b)"
    using Cons.prems(1) t by (simp_all add: Let_def)
  note st = div_limb_step [OF s, of x]
  have "unat r' < unat b"
    unfolding r' st using s by (intro mod_less_divisor) (simp add: word_less_nat_alt)
  then have "r' < b" by (simp add: word_less_nat_alt)
  moreover have "limbs_val qs * unat b + unat r' =
      ((?n div unat b) * unat b + ?n mod unat b) + BASE * (limbs_val ts * unat b)"
    unfolding r' qs using st by (simp add: algebra_simps)
  then have "limbs_val qs * unat b + unat r' =
      limbs_val (x # xs) + BASE ^ length (x # xs) * unat r"
    unfolding div_mult_mod_eq using rec by (simp add: algebra_simps) (metis add_mult_distrib2)
  ultimately show ?case using len qs by simp
qed simp

lemma shl_limb_step:
  fixes v l :: limb
  assumes "s < 64" "0 < s" "unat l < 2 ^ s"
  shows "unat (push_bit s v OR l) + BASE * unat (drop_bit (64 - s) v) = unat v * 2 ^ s + unat l"
    "unat (drop_bit (64 - s) v) < 2 ^ s"
proof -
  have pow: "(2::nat) ^ (64 - s) * 2 ^ s = BASE" using assms by (simp add: BASE_def flip: power_add)
  let ?lo = "take_bit (64 - s) v"
  have lo: "unat ?lo = unat v mod 2 ^ (64 - s)" by (rule unat_take_bit_mod)
  have "push_bit s v = push_bit s ?lo"
    by (rule bit_word_eqI) (auto simp: bit_simps)
  moreover have "unat (push_bit s ?lo OR l) = unat ?lo * 2 ^ s + unat l"
    using assms by (intro unat_push_or) (simp_all add: lo)
  ultimately have or: "unat (push_bit s v OR l) = (unat v mod 2 ^ (64 - s)) * 2 ^ s + unat l"
    by (simp only: lo)
  have "unat v * 2 ^ s = (unat v mod 2 ^ (64 - s) + 2 ^ (64 - s) * (unat v div 2 ^ (64 - s))) * 2 ^ s"
    by simp
  also have "\<dots> = (unat v mod 2 ^ (64 - s)) * 2 ^ s + BASE * (unat v div 2 ^ (64 - s))"
    by (simp only: distrib_left distrib_right ac_simps flip: pow)
  finally show "unat (push_bit s v OR l) + BASE * unat (drop_bit (64 - s) v) = unat v * 2 ^ s + unat l"
    unfolding or unat_drop_bit_div by simp
  show "unat (drop_bit (64 - s) v) < 2 ^ s"
    unfolding unat_drop_bit_div
    by (rule less_mult_imp_div_less) (use unat_limb [of v] pow in \<open>simp add: mult.commute\<close>)
qed

lemma mp_shl_loop_spec:
  assumes "mp_shl_loop xs s l = (rs, h)" "s < 64" "0 < s" "unat l < 2 ^ s"
  shows "length rs = length xs \<and> unat h < 2 ^ s \<and>
    limbs_val rs + BASE ^ length xs * unat h = limbs_val xs * 2 ^ s + unat l"
  using assms
proof (induction xs arbitrary: l rs)
  case (Cons v vs)
  obtain ts where t: "mp_shl_loop vs s (drop_bit (64 - s) v) = (ts, h)" "rs = (push_bit s v OR l) # ts"
    using Cons.prems(1) by (auto split: prod.splits)
  note st = shl_limb_step [OF Cons.prems(2-4), of v]
  from Cons.IH [OF t(1) Cons.prems(2,3) st(2)] have len: "length ts = length vs" "unat h < 2 ^ s"
    and rec: "limbs_val ts + BASE ^ length vs * unat h = limbs_val vs * 2 ^ s + unat (drop_bit (64 - s) v)"
    by auto
  have "limbs_val rs + BASE ^ length (v # vs) * unat h =
      unat (push_bit s v OR l) + BASE * (limbs_val ts + BASE ^ length vs * unat h)"
    using t(2) by (simp add: algebra_simps)
  also have "\<dots> = (unat (push_bit s v OR l) + BASE * unat (drop_bit (64 - s) v)) + BASE * (limbs_val vs * 2 ^ s)"
    unfolding rec by (simp add: algebra_simps)
  also have "\<dots> = limbs_val (v # vs) * 2 ^ s + unat l"
    unfolding st(1) by (simp add: algebra_simps)
  finally show ?case using len t(2) by simp
qed simp

lemma mp_shl_spec:
  assumes "mp_shl xs s = (rs, h)" "s < 64" "0 < s"
  shows "length rs = length xs" "unat h < 2 ^ s"
    "limbs_val rs + BASE ^ length xs * unat h = limbs_val xs * 2 ^ s"
  using mp_shl_loop_spec [of xs s 0 rs h] assms by (auto simp: mp_shl_def)

text \<open>The limbs above a limb contribute their low bits to it when shifting right.\<close>

lemma shr_limb_step:
  fixes a l :: limb
  assumes "s < 64" "0 < s" "unat l mod 2 ^ s = W mod 2 ^ s"
  shows "unat (drop_bit s a OR push_bit (64 - s) l) + BASE * (W div 2 ^ s) =
    (unat a + BASE * W) div 2 ^ s"
proof -
  have pow: "(2::nat) ^ (64 - s) * 2 ^ s = BASE" using assms by (simp add: BASE_def flip: power_add)
  have hi: "unat (take_bit s l) = W mod 2 ^ s" using assms(3) by (simp add: unat_take_bit_mod)
  have lo: "unat (drop_bit s a) < 2 ^ (64 - s)"
    unfolding unat_drop_bit_div
    by (rule less_mult_imp_div_less) (use unat_limb [of a] pow in simp)
  have "push_bit (64 - s) l = push_bit (64 - s) (take_bit s l)"
    by (rule bit_word_eqI) (use assms in \<open>auto simp: bit_simps\<close>)
  moreover have "unat (push_bit (64 - s) (take_bit s l) OR drop_bit s a) =
      (W mod 2 ^ s) * 2 ^ (64 - s) + unat (drop_bit s a)"
    using lo assms(1) by (subst unat_push_or) (simp_all add: hi)
  ultimately have or: "unat (drop_bit s a OR push_bit (64 - s) l) =
      (W mod 2 ^ s) * 2 ^ (64 - s) + unat a div 2 ^ s"
    by (simp add: or.commute unat_drop_bit_div)
  have "(unat a + BASE * W) div 2 ^ s = (unat a + (2 ^ (64 - s) * W) * 2 ^ s) div 2 ^ s"
    by (simp only: ac_simps flip: pow)
  also have "\<dots> = 2 ^ (64 - s) * W + unat a div 2 ^ s"
    by (subst div_mult_self1) simp_all
  also have "2 ^ (64 - s) * W = 2 ^ (64 - s) * (W mod 2 ^ s + 2 ^ s * (W div 2 ^ s))" by simp
  also have "\<dots> = (W mod 2 ^ s) * 2 ^ (64 - s) + BASE * (W div 2 ^ s)"
    by (simp only: distrib_left ac_simps flip: pow)
  finally show ?thesis unfolding or by simp
qed

lemma mp_shr_loop_spec:
  assumes "mp_shr_loop xs s high = (rs, l)" "s < 64" "0 < s"
  shows "length rs = length xs \<and>
    unat l mod 2 ^ s = (limbs_val xs + BASE ^ length xs * unat high) mod 2 ^ s \<and>
    limbs_val rs = ((limbs_val xs + BASE ^ length xs * unat high) div 2 ^ s) mod BASE ^ length xs"
  using assms
proof (induction xs arbitrary: rs l)
  case (Cons a as)
  let ?W = "limbs_val as + BASE ^ length as * unat high"
  obtain ts l' where t: "mp_shr_loop as s high = (ts, l')" by (cases "mp_shr_loop as s high")
  have rs: "rs = (drop_bit s a OR push_bit (64 - s) l') # ts" and l: "l = a"
    using Cons.prems(1) unfolding mp_shr_loop.simps t Let_def prod.case prod.inject by metis+
  from Cons.IH [OF t Cons.prems(2,3)] have len: "length ts = length as"
    and low: "unat l' mod 2 ^ s = ?W mod 2 ^ s"
    and val: "limbs_val ts = (?W div 2 ^ s) mod BASE ^ length as" by auto
  have tot: "limbs_val (a # as) + BASE ^ length (a # as) * unat high = unat a + BASE * ?W"
    by (simp add: algebra_simps)
  have dvd: "(2::nat) ^ s dvd BASE" unfolding BASE_def using Cons.prems(2) by (intro le_imp_power_dvd) simp
  then have "(unat a + BASE * ?W) mod 2 ^ s = unat a mod 2 ^ s"
    by (metis dvd_mult2 mod_add_right_eq add_0_right dvd_imp_mod_0)
  moreover have "limbs_val rs = ((unat a + BASE * ?W) div 2 ^ s) mod BASE ^ length (a # as)"
  proof -
    let ?x = "unat (drop_bit s a OR push_bit (64 - s) l')"
    have "((unat a + BASE * ?W) div 2 ^ s) mod (BASE * BASE ^ length as) =
        (?x + BASE * (?W div 2 ^ s)) mod (BASE * BASE ^ length as)"
      unfolding shr_limb_step [OF Cons.prems(2,3) low] ..
    also have "\<dots> = ?x + BASE * ((?W div 2 ^ s) mod BASE ^ length as)"
      by (simp add: mod_mult2_eq)
    finally show ?thesis using rs val by simp
  qed
  ultimately show ?case using len rs l unfolding tot by simp
qed simp

lemma mp_shr_spec:
  assumes "mp_shr xs s high = (rs, r)" "s < 64" "0 < s"
  shows "length rs = length xs"
    "limbs_val rs = ((limbs_val xs + BASE ^ length xs * unat high) div 2 ^ s) mod BASE ^ length xs"
    "unat r = (limbs_val xs + BASE ^ length xs * unat high) mod 2 ^ s"
proof -
  obtain ts l where t: "mp_shr_loop xs s high = (ts, l)" "rs = ts" "r = l AND (push_bit s 1 - 1)"
    using assms(1) by (auto simp: mp_shr_def split: prod.splits)
  note sp = mp_shr_loop_spec [OF t(1) assms(2,3)]
  have "push_bit s 1 - 1 = (mask s :: limb)" by (simp add: mask_eq_exp_minus_1 push_bit_eq_mult)
  then have "unat r = unat l mod 2 ^ s"
    using t(3) by (simp only: take_bit_eq_mask [symmetric] unat_take_bit_mod)
  with sp show "unat r = (limbs_val xs + BASE ^ length xs * unat high) mod 2 ^ s" by metis
  show "length rs = length xs"
    "limbs_val rs = ((limbs_val xs + BASE ^ length xs * unat high) div 2 ^ s) mod BASE ^ length xs"
    using sp unfolding t(2) by blast+
qed

end
