(* ===== verification/MpDiv.thy ===== *)
theory MpDiv
  imports MpLimb
begin

text \<open>
  Division in the multi-precision layer of \<open>src/src/core/quickjs.c\<close>: the two-by-one
  division with a precomputed inverse (\<open>udiv1norm_init\<close>, \<open>udiv1norm\<close>), division by one
  normalised limb (\<open>mp_div1norm\<close>) and schoolbook long division (\<open>mp_divnorm\<close>).
\<close>

section \<open>The code\<close>

definition udiv1norm_init :: "limb \<Rightarrow> limb" where
  "udiv1norm_init d =
     (let a1 = - d - 1; a0 = - 1
      in ucast ((push_bit 64 (ucast (a1 :: limb)) OR ucast (a0 :: limb) :: dlimb) div ucast d))"

text \<open>The quotient and the remainder of \<open>a1 * 2^64 + a0\<close>.\<close>

definition udiv1norm :: "limb \<Rightarrow> limb \<Rightarrow> limb \<Rightarrow> limb \<Rightarrow> limb \<times> limb" where
  "udiv1norm a1 a0 d d_inv =
     (let n1m = signed_drop_bit 63 a0;
          n_adj = a0 + (n1m AND d);
          a = (ucast d_inv * ucast (a1 - n1m) + ucast n_adj :: dlimb);
          q = ucast (drop_bit 64 a) + a1;
          a = ((push_bit 64 (ucast a1) OR ucast a0) - ucast q * ucast d - ucast d :: dlimb);
          ah = ucast (drop_bit 64 a) :: limb
      in (q + (1 + ah), ucast a + (ah AND d)))"

definition UDIV1NORM_THRESHOLD :: nat where
  "UDIV1NORM_THRESHOLD = 3"

fun mp_div1norm_loop :: "limb list \<Rightarrow> limb \<Rightarrow> limb \<Rightarrow> limb \<Rightarrow> limb list \<times> limb" where
  "mp_div1norm_loop [] b b_inv r = ([], r)"
| "mp_div1norm_loop (x # xs) b b_inv r =
     (let (qs, r') = mp_div1norm_loop xs b b_inv r; (q, r'') = udiv1norm r' x b b_inv
      in (q # qs, r''))"

definition mp_div1norm :: "limb list \<Rightarrow> limb \<Rightarrow> limb \<Rightarrow> limb list \<times> limb" where
  "mp_div1norm taba b r =
     (if length taba \<ge> UDIV1NORM_THRESHOLD
      then mp_div1norm_loop taba b (udiv1norm_init b) r
      else mp_div1 taba b r)"

text \<open>The comparison loop of the first step of \<open>mp_divnorm\<close>, most significant limb first.\<close>

fun divnorm_ge :: "limb list \<Rightarrow> limb list \<Rightarrow> bool" where
  "divnorm_ge (x # xs) (y # ys) = (if x \<noteq> y then \<not> x < y else divnorm_ge xs ys)"
| "divnorm_ge _ _ = True"

text \<open>
  The correction \<open>for(;;)\<close> loop on the low limbs \<open>win\<close> and the top limb of the window.
\<close>

partial_function (option) divnorm_fix ::
  "limb list \<Rightarrow> limb list \<Rightarrow> limb \<Rightarrow> limb \<Rightarrow> (limb list \<times> limb \<times> limb) option" where
  "divnorm_fix tabb win hi q =
     (if snd (mp_add win tabb 0) \<noteq> 0 \<and> hi + 1 = 0
      then Some (fst (mp_add win tabb 0), hi + 1, q - 1)
      else divnorm_fix tabb (fst (mp_add win tabb 0))
             (if snd (mp_add win tabb 0) \<noteq> 0 then hi + 1 else hi) (q - 1))"

definition divnorm_qhat :: "limb \<Rightarrow> limb \<Rightarrow> limb \<Rightarrow> limb \<Rightarrow> limb" where
  "divnorm_qhat hi mid b1 b1_inv =
     (if hi \<ge> b1 then - 1
      else if b1_inv \<noteq> 0 then fst (udiv1norm hi mid b1 b1_inv)
      else ucast ((push_bit 64 (ucast hi) OR ucast mid :: dlimb) div ucast b1))"

fun divnorm_loop :: "limb list \<Rightarrow> limb \<Rightarrow> limb \<Rightarrow> limb list \<Rightarrow> limb list \<Rightarrow> nat \<Rightarrow>
    (limb list \<times> limb list) option" where
  "divnorm_loop tabb b1 b1_inv tabq taba 0 = Some (tabq, taba)"
| "divnorm_loop tabb b1 b1_inv tabq taba (Suc i) = do {
     hi \<leftarrow> rd taba (i + length tabb);
     mid \<leftarrow> rd taba (i + length tabb - 1);
     let q = divnorm_qhat hi mid b1 b1_inv;
     win \<leftarrow> grab taba i (length tabb);
     let (win', r) = mp_sub_mul1 win tabb q;
     let a = hi - r;
     (win'', a', q') \<leftarrow> (if a > hi then divnorm_fix tabb win' a q else Some (win', a, q));
     taba1 \<leftarrow> blit taba i win'';
     taba2 \<leftarrow> wr taba1 (i + length tabb) a';
     tabq1 \<leftarrow> wr tabq i q';
     divnorm_loop tabb b1 b1_inv tabq1 taba2 i }"

text \<open>\<open>mp_divnorm\<close> returns the arrays \<open>tabq\<close> and \<open>taba\<close> as it leaves them.\<close>

definition mp_divnorm :: "limb list \<Rightarrow> limb list \<Rightarrow> limb list \<Rightarrow> (limb list \<times> limb list) option" where
  "mp_divnorm tabq taba tabb = do {
     let nb = length tabb;
     b1 \<leftarrow> rd tabb (nb - 1);
     if nb = 1 then do {
       let (qs, r) = mp_div1norm taba b1 0;
       tabq1 \<leftarrow> blit tabq 0 qs;
       taba1 \<leftarrow> wr taba 0 r;
       Some (tabq1, taba1) }
     else do {
       let n = length taba - nb;
       let b1_inv = (if n \<ge> UDIV1NORM_THRESHOLD then udiv1norm_init b1 else 0);
       high \<leftarrow> grab taba n nb;
       let q = divnorm_ge (rev high) (rev tabb);
       tabq1 \<leftarrow> wr tabq n (of_bool q);
       taba1 \<leftarrow> (if q then blit taba n (fst (mp_sub high tabb 0)) else Some taba);
       divnorm_loop tabb b1 b1_inv tabq1 taba1 n } }"

section \<open>Two-by-one division with an inverse\<close>

lemma normalized_double: "0x8000000000000000 \<le> (d :: limb) \<Longrightarrow> BASE \<le> 2 * unat d"
  by (simp add: word_le_nat_alt BASE_def)

lemma unat_limb_minus_1: "unat (- 1 :: limb) = BASE - 1"
  by (simp add: unsigned_minus_1_eq_mask mask_eq_exp_minus_1 BASE_def)

lemma udiv1norm_init_spec:
  assumes "0x8000000000000000 \<le> d"
  shows "unat (udiv1norm_init d) + BASE = (BASE * BASE - 1) div unat d"
proof -
  have d: "BASE \<le> 2 * unat d" "unat d < BASE" using normalized_double [OF assms] by auto
  then have d0: "0 < unat d" using BASE_pos(1) by linarith
  have na: "unat (- d - 1) = BASE - 1 - unat d"
    using unat_not_limb [of d] by (simp add: not_eq_complement)
  let ?t = "push_bit 64 (ucast (- d - 1 :: limb)) OR ucast (- 1 :: limb) :: dlimb"
  have "BASE - 1 - unat d + unat d + 1 = BASE" using d(2) by linarith
  then have "(BASE - 1 - unat d + unat d + 1) * BASE = BASE * BASE" by (rule arg_cong)
  then have "(BASE - 1 - unat d) * BASE + unat d * BASE + BASE = BASE * BASE"
    by (simp only: distrib_right mult_1)
  moreover have "unat ?t = (BASE - 1 - unat d) * BASE + (BASE - 1)"
    unfolding unat_pair na unat_limb_minus_1 ..
  ultimately have t: "unat ?t + unat d * BASE = BASE * BASE - 1" using BASE_pos(1) by linarith
  then have "(BASE * BASE - 1) div unat d = (unat ?t + unat d * BASE) div unat d" by simp
  also have "\<dots> = BASE + unat ?t div unat d" using d0 by (intro div_mult_self2) simp
  finally have q: "(BASE * BASE - 1) div unat d = BASE + unat ?t div unat d" .
  have "unat ?t div unat d < BASE"
  proof (rule less_mult_imp_div_less)
    have "BASE * BASE \<le> BASE * (2 * unat d)" using d(1) by (rule mult_le_mono2)
    also have "BASE * (2 * unat d) = BASE * unat d + unat d * BASE"
      by (simp only: mult_2 distrib_left mult.commute)
    finally have "BASE * BASE \<le> BASE * unat d + unat d * BASE" .
    moreover have "0 < BASE * BASE" by simp
    ultimately show "unat ?t < BASE * unat d" using t by linarith
  qed
  then show ?thesis
    unfolding q by (simp add: udiv1norm_init_def Let_def unat_ucast_limb unat_div)
qed

text \<open>The estimate of the quotient is right or one too small, over the integers.\<close>

lemma udiv_estimate:
  fixes b d m a1 a0 n q t k :: int
  assumes d: "b \<le> 2 * d" "0 < d" "d < b" and inv: "(m + b) * d = b * b - k" "1 \<le> k" "k \<le> d"
    and a: "0 \<le> a1" "a1 < d" "0 \<le> a0" "a0 < b"
    and n: "n = 0 \<and> 2 * a0 < b \<or> n = 1 \<and> b \<le> 2 * a0"
    and t: "m * (a1 + n) + a0 + n * (d - b) = b * (q - a1) + t" "0 \<le> t" "t < b"
  shows "q * d \<le> a1 * b + a0" "a1 * b + a0 < (q + 2) * d"
proof -
  have md: "m * d = b * b - k - b * d" using inv(1) by (simp add: algebra_simps)
  have "b * q = b * a1 + m * (a1 + n) + a0 + n * (d - b) - t"
    using t(1) by (simp add: algebra_simps)
  then have "(b * q) * d = (b * a1 + m * (a1 + n) + a0 + n * (d - b) - t) * d" by simp
  also have "\<dots> = b * a1 * d + (m * d) * (a1 + n) + a0 * d + n * (d - b) * d - t * d"
    by (simp add: algebra_simps)
  also have "\<dots> = b * (b * a1 + a0) - (a0 * (b - d) + a1 * k - n * ((b - d) * (b - d) - k)) - t * d"
    unfolding md by (simp add: algebra_simps)
  finally have key: "b * (a1 * b + a0) - (b * q) * d =
      a0 * (b - d) + a1 * k - n * ((b - d) * (b - d) - k) + t * d"
    by (simp add: algebra_simps)
  let ?e = "a0 * (b - d) + a1 * k - n * ((b - d) * (b - d) - k) + t * d"
  have pos: "0 \<le> a1 * k" "0 \<le> t * d" using a inv t d by simp_all
  have up: "a1 * k \<le> (d - 1) * d" "t * d \<le> (b - 1) * d"
    using a inv t d by (auto intro!: mult_mono)
  have "0 \<le> ?e \<and> ?e < b * (2 * d)"
    using n
  proof
    assume n0: "n = 0 \<and> 2 * a0 < b"
    have "0 \<le> a0 * (b - d)" using a d by simp
    moreover have "a0 * (b - d) \<le> d * (b - d)"
      using n0 d by (intro mult_right_mono) linarith+
    moreover have "d * (b - d) + (d - 1) * d + (b - 1) * d < b * (2 * d)"
      using d by (simp add: algebra_simps)
    ultimately show ?thesis using n0 pos up by simp
  next
    assume n1: "n = 1 \<and> b \<le> 2 * a0"
    have "(b - d) * (b - d) \<le> a0 * (b - d)" using n1 d by (intro mult_right_mono) linarith+
    moreover have "a0 * (b - d) - (b - d) * (b - d) = (a0 - (b - d)) * (b - d)"
      by (simp add: algebra_simps)
    moreover have "(a0 - (b - d)) * (b - d) \<le> (d - 1) * (b - d)"
      using a d by (intro mult_right_mono) linarith+
    moreover have "(d - 1) * (b - d) + d + (d - 1) * d + (b - 1) * d < b * (2 * d)"
      using d by (simp add: algebra_simps)
    moreover have "?e = a0 * (b - d) + a1 * k - ((b - d) * (b - d) - k) + t * d" using n1 by simp
    ultimately show ?thesis using pos up inv(2,3) by linarith
  qed
  then have "b * (q * d) \<le> b * (a1 * b + a0)" "b * (a1 * b + a0) < b * ((q + 2) * d)"
    using key by (simp_all add: algebra_simps)
  then show "q * d \<le> a1 * b + a0" "a1 * b + a0 < (q + 2) * d"
    using d by simp_all
qed

lemma high_bit_limb: "bit (x :: limb) 63 \<longleftrightarrow> BASE \<le> 2 * unat x"
proof -
  have "bit x 63 \<longleftrightarrow> odd (unat x div 2 ^ 63)"
  proof -
    have "bit (unat x) 63 = bit x 63" by (simp add: bit_unsigned_iff)
    then show ?thesis by (simp add: bit_iff_odd [of "unat x"])
  qed
  moreover have "unat x div 2 ^ 63 = (if BASE \<le> 2 * unat x then 1 else 0)"
  proof (cases "BASE \<le> 2 * unat x")
    case True
    then have "unat x = 2 ^ 63 + (unat x - 2 ^ 63)" "unat x - 2 ^ 63 < 2 ^ 63"
      using unat_limb [of x] by (auto simp: BASE_def simp del: unat_limb)
    then have "unat x div 2 ^ 63 = 1 + (unat x - 2 ^ 63) div 2 ^ 63"
      by (metis div_add_self1 add.commute power_not_zero zero_neq_numeral)
    with True \<open>unat x - 2 ^ 63 < 2 ^ 63\<close> show ?thesis by simp
  next
    case False
    then show ?thesis by (simp add: BASE_def)
  qed
  ultimately show ?thesis by simp
qed

lemma sign_limb: "signed_drop_bit 63 (x :: limb) = (if BASE \<le> 2 * unat x then - 1 else 0)"
proof (rule bit_word_eqI)
  fix i assume "i < LENGTH(64)"
  then show "bit (signed_drop_bit 63 x) i = bit (if BASE \<le> 2 * unat x then - 1 else 0 :: limb) i"
    using high_bit_limb [of x] by (cases i) (auto simp: bit_signed_drop_bit_iff)
qed

lemma udiv_correct_high:
  fixes t d :: nat and a :: dlimb
  assumes "unat a = BASE * BASE + t - d" "t < d" "d < BASE"
  shows "ucast (drop_bit 64 a) = (- 1 :: limb)" "unat (ucast a :: limb) = BASE + t - d"
proof -
  have e: "BASE * BASE + t - d = (BASE + t - d) + (BASE - 1) * BASE"
    using assms(2,3) by (simp add: diff_mult_distrib)
  have lt: "BASE + t - d < BASE" using assms by linarith
  have "unat a div BASE = BASE - 1" unfolding assms(1) e using lt by simp
  then have "unat (ucast (drop_bit 64 a) :: limb) = BASE - 1"
    by (subst unat_ucast_limb) (simp_all add: unat_drop_bit_div BASE_def)
  then show "ucast (drop_bit 64 a) = (- 1 :: limb)"
    by (simp only: word_unat_eq_iff unat_limb_minus_1)
  have "unat a mod BASE = BASE + t - d" unfolding assms(1) e using lt by simp
  then show "unat (ucast a :: limb) = BASE + t - d"
    by (simp add: unsigned_ucast_eq unsigned_take_bit_eq take_bit_eq_mod BASE_def)
qed

lemma udiv_estimate_nat:
  fixes b d m a1 a0 n u z t k :: nat
  assumes "b \<le> 2 * d" "d < b" "(m + b) * d + k = b * b" "1 \<le> k" "k \<le> d" "a1 < d" "a0 < b"
    and n: "n = 0 \<and> 2 * a0 < b \<or> n = 1 \<and> b \<le> 2 * a0"
    and u: "u + n * b = a0 + n * d" and t: "m * (a1 + n) + u = b * z + t" "t < b"
  shows "(a1 + z) * d \<le> a1 * b + a0" "a1 * b + a0 < (a1 + z + 2) * d"
proof -
  have k: "(int m + int b) * int d = int b * int b - int k"
    using arg_cong [OF assms(3), of int] by simp
  have "int u = int a0 + int n * (int d - int b)"
    using arg_cong [OF u, of int] by (simp add: algebra_simps)
  then have tt: "int m * (int a1 + int n) + int a0 + int n * (int d - int b) =
      int b * (int (a1 + z) - int a1) + int t"
    using arg_cong [OF t(1), of int] by simp
  have nn: "int n = 0 \<and> 2 * int a0 < int b \<or> int n = 1 \<and> int b \<le> 2 * int a0" using n by auto
  note e = udiv_estimate [OF _ _ _ k _ _ _ _ _ _ nn tt]
  have "int ((a1 + z) * d) \<le> int (a1 * b + a0)" "int (a1 * b + a0) < int ((a1 + z + 2) * d)"
    using e assms(1,2,4-7) t(2) by (simp_all add: algebra_simps)
  then show "(a1 + z) * d \<le> a1 * b + a0" "a1 * b + a0 < (a1 + z + 2) * d"
    by (simp_all only: of_nat_le_iff of_nat_less_iff)
qed

lemma unat_sub_gt:
  "unat x < unat y \<Longrightarrow> unat (x - y :: 'a::len word) = unat x + 2 ^ LENGTH('a) - unat y"
  by (simp add: unat_sub_if_size word_size)

lemma div_mod_eqI: "n = q * d + r \<Longrightarrow> r < d \<Longrightarrow> q = n div d \<and> r = n mod (d :: nat)"
  by simp

lemma udiv1norm_spec:
  assumes d: "0x8000000000000000 \<le> d" and a1: "a1 < d"
    and div: "udiv1norm a1 a0 d (udiv1norm_init d) = (q, r)"
  shows "unat q = (unat a1 * BASE + unat a0) div unat d"
    "unat r = (unat a1 * BASE + unat a0) mod unat d"
proof -
  let ?m = "unat (udiv1norm_init d)" and ?N = "unat a1 * BASE + unat a0"
  define n where "n = (if BASE \<le> 2 * unat a0 then 1 else 0 :: nat)"
  have dd: "BASE \<le> 2 * unat d" by (rule normalized_double [OF d])
  have ad: "unat a1 < unat d" using a1 by (simp add: word_less_nat_alt)
  have Nlt: "?N < BASE * unat d"
  proof -
    have "?N < (unat a1 + 1) * BASE" by simp
    also have "\<dots> \<le> unat d * BASE" using ad by (intro mult_le_mono1) simp
    finally show ?thesis by (simp add: mult.commute)
  qed
  define n1m where "n1m = signed_drop_bit 63 a0"
  have n1: "unat (a1 - n1m) = unat a1 + n"
  proof -
    have "unat (a1 + 1) = unat a1 + 1"
      using ad unat_limb [of d] by (subst unat_add_no_wrap) (simp_all add: BASE_def)
    then show ?thesis by (simp add: n1m_def sign_limb n_def)
  qed
  have na: "unat (a0 + (n1m AND d)) + n * BASE = unat a0 + n * unat d"
  proof (cases "BASE \<le> 2 * unat a0")
    case True
    have "(2::nat) ^ LENGTH(64) \<le> unat a0 + unat d" using True dd by (simp add: BASE_def)
    from unat_add_wrap [OF this] True dd show ?thesis
      by (simp add: n1m_def sign_limb n_def BASE_def)
  next
    case False
    then show ?thesis by (simp add: n1m_def sign_limb n_def)
  qed
  define t where "t = (ucast (udiv1norm_init d) * ucast (a1 - n1m) + ucast (a0 + (n1m AND d)) :: dlimb)"
  have ut: "unat t = ?m * (unat a1 + n) + unat (a0 + (n1m AND d))"
    unfolding t_def using unat_dlimb_mac [of "ucast (a0 + (n1m AND d))" 0] by (simp add: n1)
  define q0 where "q0 = unat a1 + unat t div BASE"
  define k where "k = BASE * BASE - (?m + BASE) * unat d"
  have mle: "(?m + BASE) * unat d \<le> BASE * BASE - 1" "BASE * BASE - 1 < (?m + BASE) * unat d + unat d"
    unfolding udiv1norm_init_spec [OF d]
    using ad dividend_less_div_times [of "unat d" "BASE * BASE - 1"]
    by (simp_all add: div_times_less_eq_dividend add.commute)
  have BB: "0 < BASE * BASE" by simp
  have k: "(?m + BASE) * unat d + k = BASE * BASE" "1 \<le> k" "k \<le> unat d"
    using mle BB unfolding k_def by linarith+
  have nn: "n = 0 \<and> 2 * unat a0 < BASE \<or> n = 1 \<and> BASE \<le> 2 * unat a0" by (auto simp: n_def)
  have tt: "?m * (unat a1 + n) + unat (a0 + (n1m AND d)) = BASE * (unat t div BASE) + unat t mod BASE"
    unfolding ut [symmetric] by simp
  have lo: "q0 * unat d \<le> ?N" and hi: "?N < (q0 + 2) * unat d"
    unfolding q0_def
    by (rule udiv_estimate_nat [OF dd unat_limb k ad unat_limb nn na tt]; simp)+
  have q0: "q0 < BASE"
  proof (rule ccontr)
    assume "\<not> q0 < BASE"
    then have "BASE * unat d \<le> q0 * unat d" by simp
    with lo Nlt show False by linarith
  qed
  define qe where "qe = ucast (drop_bit 64 t) + a1"
  have "unat (ucast (drop_bit 64 t) :: limb) = unat t div BASE"
    using unat_dlimb [of t]
    by (subst unat_ucast_limb) (simp_all add: unat_drop_bit_div less_mult_imp_div_less BASE_def)
  then have qe: "unat qe = q0"
    unfolding qe_def using q0 by (subst unat_add_no_wrap) (simp_all add: q0_def BASE_def)
  define a where "a = ((push_bit 64 (ucast a1) OR ucast a0) - ucast qe * ucast d - ucast d :: dlimb)"
  define s where "s = ?N - q0 * unat d"
  have N: "?N = q0 * unat d + s" "s < 2 * unat d" using lo hi by (auto simp: s_def algebra_simps)
  let ?x = "push_bit 64 (ucast a1) OR ucast a0 :: dlimb" and ?y = "ucast qe * ucast d + ucast d :: dlimb"
  have ux: "unat ?x = q0 * unat d + s" unfolding unat_pair N(1) ..
  have uy: "unat ?y = q0 * unat d + unat d"
    using unat_dlimb_mac [of "ucast d" 0 qe d] qe by simp
  have axy: "a = ?x - ?y" by (simp add: a_def algebra_simps)
  have res: "q = qe + (1 + ucast (drop_bit 64 a))" "r = ucast a + (ucast (drop_bit 64 a) AND d)"
    using div unfolding udiv1norm_def Let_def n1m_def [symmetric] t_def [symmetric] qe_def [symmetric]
      a_def [symmetric] by auto
  have goal: "unat q = ?N div unat d \<and> unat r = ?N mod unat d"
  proof (cases "unat d \<le> s")
    case True
    then have "?y \<le> ?x" using ux uy by (simp add: word_le_nat_alt)
    then have ua: "unat a = s - unat d" unfolding axy using ux uy by (simp add: unat_sub_le)
    then have lt: "unat a < BASE" using N(2) unat_limb [of d] by linarith
    then have z: "drop_bit 64 a = 0" by (simp add: unat_eq_zero [symmetric] unat_drop_bit_div BASE_def)
    have "(q0 + 1) * unat d \<le> ?N" using N(1) True by simp
    then have "q0 + 1 < BASE" using Nlt by (metis le_less_trans mult_less_cancel2)
    then have "unat q = q0 + 1"
      using res(1) z qe by (simp add: unat_add_no_wrap BASE_def)
    moreover have "unat r = s - unat d" using res(2) z ua lt by (simp add: unat_ucast_limb)
    moreover have "?N = (q0 + 1) * unat d + (s - unat d)" using N(1) True by simp
    moreover have "s - unat d < unat d" using N(2) True by linarith
    ultimately show ?thesis using div_mod_eqI [of ?N "q0 + 1" "unat d" "s - unat d"] by simp
  next
    case False
    then have lt: "unat ?x < unat ?y" unfolding ux uy by simp
    have "(2::nat) ^ LENGTH(128) = BASE * BASE" by (simp add: BASE_def)
    with unat_sub_gt [OF lt] have ua: "unat a = BASE * BASE + s - unat d"
      unfolding axy ux uy by simp
    note h = udiv_correct_high [OF ua _ unat_limb]
    have sd: "s < unat d" using False by simp
    have "unat r = unat (ucast a + d)" using res(2) h(1) [OF sd] by simp
    also have "\<dots> = s"
      using h(2) [OF sd] sd unat_limb [of d]
      by (subst unat_add_wrap) (simp_all add: BASE_def del: unat_limb)
    finally have "unat r = s" .
    moreover have "unat q = q0" using res(1) h(1) [OF sd] qe by simp
    ultimately show ?thesis using div_mod_eqI [OF N(1) sd] by simp
  qed
  then show "unat q = ?N div unat d" "unat r = ?N mod unat d" by blast+
qed

section \<open>Division by one normalised limb\<close>

lemma mp_div1norm_loop_spec:
  assumes "mp_div1norm_loop xs b (udiv1norm_init b) r = (qs, r')" "r < b" "0x8000000000000000 \<le> b"
  shows "length qs = length xs \<and> r' < b \<and>
    limbs_val qs * unat b + unat r' = limbs_val xs + BASE ^ length xs * unat r"
  using assms(1,2)
proof (induction xs arbitrary: qs r')
  case (Cons x xs)
  obtain ts s where t: "mp_div1norm_loop xs b (udiv1norm_init b) r = (ts, s)"
    by (cases "mp_div1norm_loop xs b (udiv1norm_init b) r")
  obtain q u where u: "udiv1norm s x b (udiv1norm_init b) = (q, u)"
    by (cases "udiv1norm s x b (udiv1norm_init b)")
  have res: "qs = q # ts" "r' = u" using Cons.prems(1) t u by simp_all
  from Cons.IH [OF t Cons.prems(2)] have len: "length ts = length xs" and s: "s < b"
    and rec: "limbs_val ts * unat b + unat s = limbs_val xs + BASE ^ length xs * unat r" by auto
  note st = udiv1norm_spec [OF assms(3) s u]
  have b0: "0 < unat b" using s by (simp add: word_less_nat_alt)
  have "unat u < unat b" unfolding st by (rule mod_less_divisor [OF b0])
  then have "r' < b" by (simp add: res word_less_nat_alt)
  moreover have "unat q * unat b + unat u = unat s * BASE + unat x"
    unfolding st by (rule div_mult_mod_eq)
  then have "limbs_val qs * unat b + unat r' = unat x + BASE * (limbs_val ts * unat b + unat s)"
    by (simp add: res algebra_simps)
  then have "limbs_val qs * unat b + unat r' = limbs_val (x # xs) + BASE ^ length (x # xs) * unat r"
    unfolding rec by (simp add: algebra_simps)
  ultimately show ?case using len res by simp
qed simp

lemma mp_div1norm_spec:
  assumes "mp_div1norm xs b r = (qs, r')" "r < b" "0x8000000000000000 \<le> b"
  shows "length qs = length xs \<and> r' < b \<and>
    limbs_val qs * unat b + unat r' = limbs_val xs + BASE ^ length xs * unat r"
  using assms mp_div1norm_loop_spec [of xs b r qs r'] mp_div1_spec [of xs b r qs r']
  by (simp add: mp_div1norm_def split: if_splits)

section \<open>Long division\<close>

lemma divnorm_ge_iff:
  "length xs = length ys \<Longrightarrow>
   divnorm_ge (rev xs) (rev ys) \<longleftrightarrow> limbs_val ys \<le> limbs_val xs"
proof (induction xs ys rule: rev_induct2)
  case (4 x xs y ys)
  have len: "length xs = length ys" using 4 by simp
  have v: "limbs_val (zs @ [z]) = limbs_val zs + BASE ^ length zs * unat z" for zs z
    by (simp add: limbs_val_append)
  have lt: "limbs_val us + BASE ^ length us * unat u < limbs_val vs + BASE ^ length vs * unat v"
    if "unat u < unat v" "length us = length vs" for us vs :: "limb list" and u v :: limb
  proof -
    have "limbs_val us + BASE ^ length us * unat u < BASE ^ length us * (unat u + 1)"
      using limbs_val_less [of us] by simp
    also have "\<dots> \<le> BASE ^ length us * unat v" using that by (intro mult_le_mono2) simp
    finally show ?thesis using that by simp
  qed
  consider "unat x < unat y" | "unat y < unat x" | "x = y"
    using linorder_neqE_nat word_unat_eq_iff by blast
  then show ?case
  proof cases
    case 1
    with lt [OF 1 len] show ?thesis by (auto simp: v word_less_nat_alt)
  next
    case 2
    with lt [OF 2, of ys xs] len show ?thesis by (auto simp: v word_less_nat_alt)
  next
    case 3
    with 4 len show ?thesis by (simp add: v)
  qed
qed auto

text \<open>
  The correction loop adds the divisor until the window, a negative number modulo a
  power of the base, becomes non-negative.
\<close>

lemma divnorm_fix_spec:
  assumes "length win = length tabb" "0 < k"
    and "BASE ^ (length tabb + 1) \<le> limbs_val (win @ [hi]) + k * limbs_val tabb"
    and "limbs_val (win @ [hi]) + (k - 1) * limbs_val tabb < BASE ^ (length tabb + 1)"
  shows "\<exists>win'. divnorm_fix tabb win hi q = Some (win', 0, q - of_nat k) \<and>
    length win' = length tabb \<and>
    limbs_val win' + BASE ^ (length tabb + 1) = limbs_val (win @ [hi]) + k * limbs_val tabb"
  using assms
proof (induction k arbitrary: win hi q)
  case (Suc k)
  let ?n = "length tabb"
  obtain rs c where add: "mp_add win tabb 0 = (rs, c)" by (cases "mp_add win tabb 0")
  from mp_add_spec [OF add Suc.prems(1)] have len: "length rs = ?n" and c1: "unat c \<le> 1"
    and val: "limbs_val rs + BASE ^ ?n * unat c = limbs_val win + limbs_val tabb"
    using Suc.prems(1) by (auto simp: word_le_nat_alt)
  have w: "limbs_val (win @ [hi]) = limbs_val win + BASE ^ ?n * unat hi"
    using Suc.prems(1) by (simp add: limbs_val_append)
  show ?case
  proof (cases "c \<noteq> 0 \<and> hi + 1 = 0")
    case True
    then have "unat c = 1" using c1 by (metis le_less less_one unat_eq_zero)
    moreover have "hi = - 1" using True by (metis add_eq_0_iff2)
    then have "unat hi = BASE - 1" by (simp only: unat_limb_minus_1)
    then have "unat hi + 1 = BASE" by simp
    then have "BASE ^ ?n * (unat hi + 1) = BASE ^ (?n + 1)" by simp
    then have "BASE ^ ?n * unat hi + BASE ^ ?n = BASE ^ (?n + 1)" by simp
    ultimately have sum: "limbs_val (win @ [hi]) + limbs_val tabb = limbs_val rs + BASE ^ (?n + 1)"
      using val w by simp
    have "k = 0"
    proof (rule ccontr)
      assume "k \<noteq> 0"
      then have "1 * limbs_val tabb \<le> k * limbs_val tabb" by (intro mult_le_mono1) simp
      moreover have "limbs_val (win @ [hi]) + k * limbs_val tabb < BASE ^ (?n + 1)"
        using Suc.prems(4) by simp
      ultimately show False using sum by linarith
    qed
    with True sum len add show ?thesis by (subst divnorm_fix.simps) simp
  next
    case False
    let ?hi = "if c \<noteq> 0 then hi + 1 else hi"
    have hi: "unat ?hi = unat hi + unat c"
    proof (cases "c = 0")
      case c: False
      then have "unat c = 1" using c1 by (metis le_less less_one unat_eq_zero)
      moreover have "hi + 1 \<noteq> 0" using False c by simp
      then have "unat (hi + 1) = unat hi + 1"
        using unatSuc [of hi] by (simp add: add.commute)
      ultimately show ?thesis using c by simp
    qed simp
    have sum: "limbs_val (rs @ [?hi]) = limbs_val (win @ [hi]) + limbs_val tabb"
    proof -
      have "limbs_val (rs @ [?hi]) = limbs_val rs + BASE ^ ?n * unat ?hi"
        unfolding limbs_val_append len by simp
      also have "\<dots> = limbs_val rs + BASE ^ ?n * unat c + BASE ^ ?n * unat hi"
        unfolding hi by (simp add: algebra_simps)
      finally show ?thesis unfolding val w by simp
    qed
    have "limbs_val (rs @ [?hi]) < BASE ^ (?n + 1)"
      using limbs_val_less [of "rs @ [?hi]"] len by simp
    then have "k \<noteq> 0" using Suc.prems(3) sum by (cases k) simp_all
    have "BASE ^ (?n + 1) \<le> limbs_val (rs @ [?hi]) + k * limbs_val tabb"
      "limbs_val (rs @ [?hi]) + (k - 1) * limbs_val tabb < BASE ^ (?n + 1)"
      using Suc.prems(3,4) \<open>k \<noteq> 0\<close> unfolding sum by (cases k; simp)+
    from Suc.IH [OF len _ this, of "q - 1"] \<open>k \<noteq> 0\<close> obtain win' where
      "divnorm_fix tabb rs ?hi (q - 1) = Some (win', 0, q - 1 - of_nat k)" "length win' = ?n"
      "limbs_val win' + BASE ^ (?n + 1) = limbs_val (rs @ [?hi]) + k * limbs_val tabb" by blast
    moreover have "divnorm_fix tabb win hi q = divnorm_fix tabb rs ?hi (q - 1)"
      by (subst divnorm_fix.simps) (simp only: add fst_conv snd_conv False if_False)
    ultimately show ?thesis unfolding sum by (simp add: algebra_simps)
  qed
qed simp

lemma divnorm_qhat_spec:
  assumes "0x8000000000000000 \<le> b1" "b1_inv = 0 \<or> b1_inv = udiv1norm_init b1"
  shows "unat (divnorm_qhat hi mid b1 b1_inv) =
    (if unat b1 \<le> unat hi then BASE - 1 else (unat hi * BASE + unat mid) div unat b1)"
proof (cases "hi \<ge> b1")
  case True
  then show ?thesis by (simp add: divnorm_qhat_def word_le_nat_alt unat_limb_minus_1)
next
  case False
  then have lt: "hi < b1" by simp
  obtain q r where u: "udiv1norm hi mid b1 (udiv1norm_init b1) = (q, r)"
    by (cases "udiv1norm hi mid b1 (udiv1norm_init b1)")
  show ?thesis
    using False assms(2) udiv1norm_spec(1) [OF assms(1) lt u] div_limb_step(1) [OF lt, of mid] u
    by (auto simp: divnorm_qhat_def word_le_nat_alt)
qed

text \<open>The estimated digit is never too small.\<close>

lemma qhat_ge:
  fixes W D R low hi mid b1 n :: nat
  assumes W: "W = low + BASE ^ n * (mid + BASE * hi)" "low < BASE ^ n"
    and D: "BASE ^ n * b1 \<le> D" "0 < b1" and WD: "W < BASE * D"
  shows "W div D \<le> (if b1 \<le> hi then BASE - 1 else (hi * BASE + mid) div b1)"
proof -
  have D0: "0 < D" using D by (metis BASE_pos(1) less_le_trans nat_0_less_mult_iff zero_less_power)
  have "W div D < BASE" using WD by (rule less_mult_imp_div_less)
  moreover have "W div D \<le> (hi * BASE + mid) div b1"
  proof -
    have "W div D \<le> W div (BASE ^ n * b1)" using D by (intro div_le_mono2) simp_all
    also have "\<dots> = W div BASE ^ n div b1" by (rule div_mult2_eq)
    also have "W div BASE ^ n = mid + BASE * hi" unfolding W(1) using W(2) by simp
    finally show ?thesis by (simp add: ac_simps)
  qed
  ultimately show ?thesis by auto
qed

text \<open>One step of the long division: the window becomes the remainder.\<close>

lemma divnorm_step:
  fixes hi q :: limb
  assumes len: "length win = length tabb"
    and W: "W = limbs_val (win @ [hi])" and D: "D = limbs_val tabb" "0 < D"
    and lt: "W < BASE * D" and q: "W div D \<le> unat q"
    and sub: "mp_sub_mul1 win tabb q = (ws, r)"
  shows "\<exists>win' q'. (if hi - r > hi then divnorm_fix tabb ws (hi - r) q else Some (ws, hi - r, q)) =
      Some (win', 0, q') \<and> length win' = length tabb \<and>
      unat q' = W div D \<and> limbs_val win' = W mod D"
proof -
  let ?n = "length tabb"
  note sm = mp_sub_mul1_spec [OF sub len]
  have lws: "length ws = ?n" using sm(1) len by simp
  have bs: "unat (hi - r) + unat r = unat hi + BASE * of_bool (hi - r > hi)" by (rule borrow_sub)
  have W': "W = limbs_val win + BASE ^ ?n * unat hi" using W len by (simp add: limbs_val_append)
  have A: "limbs_val (ws @ [hi - r]) = limbs_val ws + BASE ^ ?n * unat (hi - r)"
    using lws by (simp add: limbs_val_append)
  have key: "limbs_val (ws @ [hi - r]) + unat q * D = W + BASE ^ (?n + 1) * of_bool (hi - r > hi)"
  proof -
    have "limbs_val (ws @ [hi - r]) + unat q * D =
        limbs_val win + BASE ^ ?n * (unat (hi - r) + unat r)"
      unfolding A D(1) using sm(2) len by (simp add: algebra_simps)
    also have "\<dots> = W + BASE ^ (?n + 1) * of_bool (hi - r > hi)"
      unfolding bs W' by (simp add: algebra_simps)
    finally show ?thesis .
  qed
  have Dlt: "D < BASE ^ ?n" unfolding D(1) by (rule limbs_val_less)
  have div: "W = W div D * D + W mod D" "W mod D < D" using D(2) by simp_all
  show ?thesis
  proof (cases "hi - r > hi")
    case False
    then have e: "limbs_val (ws @ [hi - r]) + unat q * D = W" using key by simp
    have "unat q \<le> W div D"
    proof -
      have "unat q * D \<le> W" using e by simp
      then show ?thesis using D(2) by (simp add: less_eq_div_iff_mult_less_eq)
    qed
    with q have uq: "unat q = W div D" by simp
    then have rem: "limbs_val (ws @ [hi - r]) = W mod D"
      using e div(1) unfolding uq by linarith
    have "unat (hi - r) = 0"
    proof (rule ccontr)
      assume "unat (hi - r) \<noteq> 0"
      then have "BASE ^ ?n \<le> BASE ^ ?n * unat (hi - r)" by simp
      then show False using rem A div(2) Dlt by linarith
    qed
    then have "hi - r = 0" by (simp only: unat_eq_zero)
    then show ?thesis using False rem uq lws by (simp add: limbs_val_append)
  next
    case True
    then have e: "limbs_val (ws @ [hi - r]) + unat q * D = W + BASE ^ (?n + 1)" using key by simp
    have lta: "limbs_val (ws @ [hi - r]) < BASE ^ (?n + 1)"
      using limbs_val_less [of "ws @ [hi - r]"] lws by simp
    define k where "k = unat q - W div D"
    have uq: "unat q = W div D + k" using q by (simp add: k_def)
    have e2: "limbs_val (ws @ [hi - r]) + k * D = W mod D + BASE ^ (?n + 1)"
      using e div(1) unfolding uq distrib_right by linarith
    have k0: "0 < k" using e2 lta by (cases k) auto
    then have "k * D = (k - 1) * D + D" by (cases k) simp_all
    then have "limbs_val (ws @ [hi - r]) + (k - 1) * D < BASE ^ (?n + 1)"
      using e2 div(2) by linarith
    with divnorm_fix_spec [OF lws k0, of "hi - r" q] e2 D(1) obtain win' where
      f: "divnorm_fix tabb ws (hi - r) q = Some (win', 0, q - of_nat k)" "length win' = ?n"
      "limbs_val win' + BASE ^ (?n + 1) = W mod D + BASE ^ (?n + 1)" by auto
    have "k < BASE" using uq unat_limb [of q] by linarith
    then have uk: "unat (of_nat k :: limb) = k" by (intro unat_of_nat_small) (simp add: BASE_def)
    then have "unat (q - of_nat k) = W div D"
      using uq by (subst unat_sub_le) (simp_all add: word_le_nat_alt)
    then show ?thesis using True f by simp
  qed
qed

lemma top_limb_bound:
  assumes "xs \<noteq> []"
  shows "BASE ^ (length xs - 1) * unat (last xs) \<le> limbs_val xs"
proof -
  have "limbs_val xs = limbs_val (butlast xs @ [last xs])" using assms by simp
  also have "\<dots> = limbs_val (butlast xs) + BASE ^ (length xs - 1) * unat (last xs)"
    unfolding limbs_val_append by simp
  finally show ?thesis by simp
qed

lemma divnorm_loop_spec:
  assumes tabb: "length tabb \<ge> 2" "last tabb = b1" "0x8000000000000000 \<le> b1"
      "b1_inv = 0 \<or> b1_inv = udiv1norm_init b1"
    and "i + length tabb \<le> length taba" "i \<le> length tabq"
    and "limbs_val (take (length tabb) (drop i taba)) < limbs_val tabb"
  shows "\<exists>tabq' taba'. divnorm_loop tabb b1 b1_inv tabq taba i = Some (tabq', taba') \<and>
    length tabq' = length tabq \<and> length taba' = length taba \<and> drop i tabq' = drop i tabq \<and>
    limbs_val (take (length tabb) taba') < limbs_val tabb \<and>
    limbs_val (take (i + length tabb) taba) =
      limbs_val (take i tabq') * limbs_val tabb + limbs_val (take (length tabb) taba')"
  using assms(5-7)
proof (induction i arbitrary: taba tabq)
  case 0
  then show ?case by auto
next
  case (Suc i)
  let ?n = "length tabb" and ?D = "limbs_val tabb"
  note prem = Suc.prems
  have tb: "tabb \<noteq> []" using tabb(1) by auto
  have D: "BASE ^ (?n - 1) * unat b1 \<le> ?D" using top_limb_bound [OF tb] tabb(2) by simp
  have b0: "0 < unat b1" using normalized_double [OF tabb(3)] BASE_pos(1) by linarith
  then have "0 < BASE ^ (?n - 1) * unat b1" by simp
  with D have D0: "0 < ?D" by linarith
  have fit: "i + ?n < length taba" using prem(1) by simp
  let ?win = "take ?n (drop i taba)" and ?hi = "taba ! (i + ?n)" and ?mid = "taba ! (i + ?n - 1)"
  have lwin: "length ?win = ?n" using fit by simp
  define W where "W = limbs_val (?win @ [?hi])"
  have full: "?win @ [?hi] = take (?n + 1) (drop i taba)"
    using fit by (simp add: take_Suc_conv_app_nth)
  have WD: "W < BASE * ?D"
  proof -
    have "?win @ [?hi] = taba ! i # take ?n (drop (Suc i) taba)"
      unfolding full using fit by (simp flip: Cons_nth_drop_Suc)
    then have "W = unat (taba ! i) + BASE * limbs_val (take ?n (drop (Suc i) taba))"
      by (simp add: W_def)
    also have "\<dots> < BASE + BASE * limbs_val (take ?n (drop (Suc i) taba))" by simp
    also have "\<dots> \<le> BASE * ?D" using prem(3) by (metis Suc_leI mult_Suc_right mult_le_mono2)
    finally show ?thesis .
  qed
  define q where "q = divnorm_qhat ?hi ?mid b1 b1_inv"
  have qge: "W div ?D \<le> unat q"
  proof -
    let ?low = "take (?n - 1) (drop i taba)"
    have "take (Suc (?n - 1)) (drop i taba) = ?low @ [drop i taba ! (?n - 1)]"
      using fit tabb(1) by (intro take_Suc_conv_app_nth) simp
    moreover have "Suc (?n - 1) = ?n" "drop i taba ! (?n - 1) = ?mid"
      using fit tabb(1) by simp_all
    ultimately have "?win = ?low @ [?mid]" by (simp only:)
    moreover have ll: "length ?low = ?n - 1" using fit by simp
    ultimately have "W = limbs_val ?low + BASE ^ (?n - 1) * (unat ?mid + BASE * unat ?hi)"
      by (simp add: W_def limbs_val_append)
    moreover have "limbs_val ?low < BASE ^ (?n - 1)" using limbs_val_less [of ?low] ll by simp
    ultimately show ?thesis
      unfolding q_def divnorm_qhat_spec [OF tabb(3,4)] by (rule qhat_ge [OF _ _ D b0 WD])
  qed
  obtain ws r where sub: "mp_sub_mul1 ?win tabb q = (ws, r)" by (cases "mp_sub_mul1 ?win tabb q")
  from divnorm_step [OF lwin W_def refl D0 WD qge sub] obtain win' q' where
    st: "(if ?hi - r > ?hi then divnorm_fix tabb ws (?hi - r) q else Some (ws, ?hi - r, q)) =
        Some (win', 0, q')" "length win' = ?n" "unat q' = W div ?D" "limbs_val win' = W mod ?D" by blast
  let ?a1 = "take i taba @ win' @ drop (i + ?n) taba"
  let ?a2 = "?a1[i + ?n := 0]" and ?q1 = "tabq[i := q']"
  have b: "blit taba i win' = Some ?a1" using fit st(2) by (simp add: blit_def)
  have la: "length ?a2 = length taba" using fit st(2) by simp
  have w: "wr ?a1 (i + ?n) 0 = Some ?a2" using fit st(2) by (simp add: wr_def)
  have wq: "wr tabq i q' = Some ?q1" using prem(2) by (simp add: wr_def)
  have rds: "rd taba (i + ?n) = Some ?hi" "rd taba (i + ?n - 1) = Some ?mid"
    "grab taba i ?n = Some ?win" using fit by (simp_all add: rd_def grab_def)
  have step: "divnorm_loop tabb b1 b1_inv tabq taba (Suc i) = divnorm_loop tabb b1 b1_inv ?q1 ?a2 i"
    by (simp only: divnorm_loop.simps rds Option.bind.simps Let_def sub q_def [symmetric]
        prod.case st(1) b w wq)
  have win2: "take ?n (drop i ?a2) = win'" using fit st(2) by (simp add: list_update_append)
  have "limbs_val (take ?n (drop i ?a2)) < ?D" unfolding win2 st(4) using D0 by simp
  moreover have "i + ?n \<le> length ?a2" using fit la by simp
  moreover have "i \<le> length ?q1" using prem(2) by simp
  ultimately obtain tabq' taba' where
    rec: "divnorm_loop tabb b1 b1_inv ?q1 ?a2 i = Some (tabq', taba')" "length tabq' = length ?q1"
      "length taba' = length ?a2" "drop i tabq' = drop i ?q1" "limbs_val (take ?n taba') < ?D"
      "limbs_val (take (i + ?n) ?a2) = limbs_val (take i tabq') * ?D + limbs_val (take ?n taba')"
    using Suc.IH by blast
  have low: "take (i + ?n) ?a2 = take i taba @ win'" using fit st(2) by simp
  have split: "take (Suc i + ?n) taba = take i taba @ ?win @ [?hi]"
    unfolding full by (simp only: take_add [symmetric]) simp
  have li: "length (take i taba) = i" using fit by simp
  have "limbs_val (take (Suc i + ?n) taba) = limbs_val (take i taba) + BASE ^ i * W"
    unfolding split limbs_val_append [of "take i taba"] li W_def ..
  also have "W = unat q' * ?D + limbs_val win'" unfolding st(3,4) by (rule div_mult_mod_eq [symmetric])
  also have "limbs_val (take i taba) + BASE ^ i * (unat q' * ?D + limbs_val win') =
      limbs_val (take (i + ?n) ?a2) + BASE ^ i * unat q' * ?D"
    unfolding low limbs_val_append li by (simp add: algebra_simps)
  also have "\<dots> = (limbs_val (take i tabq') + BASE ^ i * unat q') * ?D + limbs_val (take ?n taba')"
    unfolding rec(6) by (simp add: algebra_simps)
  also have "limbs_val (take i tabq') + BASE ^ i * unat q' = limbs_val (take (Suc i) tabq')"
  proof -
    have iq: "i < length tabq'" using prem(2) rec(2) by simp
    have "drop i tabq' ! 0 = drop i ?q1 ! 0" using rec(4) by simp
    then have "tabq' ! i = q'" using iq rec(2) by simp
    then have "take (Suc i) tabq' = take i tabq' @ [q']" using iq by (simp add: take_Suc_conv_app_nth)
    then show ?thesis using iq by (simp add: limbs_val_append)
  qed
  finally have val: "limbs_val (take (Suc i + ?n) taba) =
    limbs_val (take (Suc i) tabq') * ?D + limbs_val (take ?n taba')" .
  have "drop (Suc i) tabq' = drop 1 (drop i tabq')" by simp
  also have "\<dots> = drop (Suc i) tabq" unfolding rec(4) by simp
  finally have "drop (Suc i) tabq' = drop (Suc i) tabq" .
  moreover have "length tabq' = length tabq" "length taba' = length taba" using rec(2,3) la by simp_all
  ultimately show ?case using step rec(1,5) val by auto
qed

lemma mp_divnorm_spec:
  assumes "tabb \<noteq> []" "0x8000000000000000 \<le> last tabb" "length tabb \<le> length taba"
    "length taba - length tabb + 1 \<le> length tabq"
  shows "\<exists>tabq' taba'. mp_divnorm tabq taba tabb = Some (tabq', taba') \<and>
    length tabq' = length tabq \<and> length taba' = length taba \<and>
    limbs_val (take (length taba - length tabb + 1) tabq') = limbs_val taba div limbs_val tabb \<and>
    limbs_val (take (length tabb) taba') = limbs_val taba mod limbs_val tabb"
proof -
  let ?n = "length tabb" and ?D = "limbs_val tabb" and ?k = "length taba - length tabb"
  let ?b1 = "last tabb"
  have b1: "rd tabb (?n - 1) = Some ?b1" using assms(1) by (simp add: rd_def last_conv_nth)
  have b0: "0 < unat ?b1" using normalized_double [OF assms(2)] BASE_pos(1) by linarith
  have D: "BASE ^ (?n - 1) * unat ?b1 \<le> ?D" by (rule top_limb_bound [OF assms(1)])
  have D0: "0 < ?D" using less_le_trans [OF _ D, of 0] b0 by simp
  show ?thesis
  proof (cases "?n = 1")
    case True
    then obtain b where b: "tabb = [b]" by (cases tabb) auto
    obtain qs r where d: "mp_div1norm taba ?b1 0 = (qs, r)" by (cases "mp_div1norm taba ?b1 0")
    have "0 < ?b1" using b0 by (simp add: word_less_nat_alt)
    from mp_div1norm_spec [OF d this assms(2)] have
      len: "length qs = length taba" and r: "unat r < unat b"
      and val: "limbs_val taba = limbs_val qs * unat b + unat r"
      using b by (auto simp: word_less_nat_alt)
    note dm = div_mod_eqI [OF val r]
    have a1: "taba \<noteq> []" using assms(3) True by auto
    have fit: "length qs \<le> length tabq" "?k + 1 = length qs" using assms(3,4) True len by simp_all
    have bl: "blit tabq 0 qs = Some (qs @ drop (length qs) tabq)" using fit(1) by (simp add: blit_def)
    have wr0: "wr taba 0 r = Some (taba[0 := r])" using a1 by (simp add: wr_def)
    have "mp_divnorm tabq taba tabb = Some (qs @ drop (length qs) tabq, taba[0 := r])"
      unfolding mp_divnorm_def Let_def b1 Option.bind.simps if_P [OF True] d prod.case bl wr0 ..
    moreover have "take (?k + 1) (qs @ drop (length qs) tabq) = qs" unfolding fit(2) by simp
    moreover have "take ?n (taba[0 := r]) = [r]" using a1 True by (cases taba) simp_all
    ultimately show ?thesis using dm b fit by simp
  next
    case False
    then have n2: "2 \<le> ?n" using assms(1) by (cases tabb; cases "tl tabb") auto
    let ?high = "drop ?k taba" and ?low = "take ?k taba"
    have lh: "length ?high = ?n" using assms(3) by simp
    have ll: "length ?low = ?k" using assms(3) by simp
    have A: "limbs_val taba = limbs_val ?low + BASE ^ ?k * limbs_val ?high"
      using limbs_val_append [of ?low ?high] ll by simp
    define inv where "inv = (if UDIV1NORM_THRESHOLD \<le> ?k then udiv1norm_init ?b1 else 0)"
    define q where "q = (?D \<le> limbs_val ?high)"
    define h2 where "h2 = (if q then fst (mp_sub ?high tabb 0) else ?high)"
    have h2: "length h2 = ?n" "limbs_val ?high = of_bool q * ?D + limbs_val h2" "limbs_val h2 < ?D"
    proof -
      obtain rs c where s: "mp_sub ?high tabb 0 = (rs, c)" by (cases "mp_sub ?high tabb 0")
      from mp_sub_spec [OF s lh] have sl: "length rs = ?n" and c: "unat c \<le> 1"
        and sv: "limbs_val rs + ?D = limbs_val ?high + BASE ^ ?n * unat c"
        using lh by (auto simp: word_le_nat_alt)
      show "length h2 = ?n" using s sl lh by (simp add: h2_def)
      have top: "limbs_val ?high < 2 * ?D"
      proof -
        have "limbs_val ?high < BASE ^ ?n" using limbs_val_less [of ?high] lh by simp
        also have "\<dots> = BASE ^ (?n - 1) * BASE"
          using n2 by (cases ?n) simp_all
        also have "\<dots> \<le> BASE ^ (?n - 1) * (2 * unat ?b1)"
          by (intro mult_le_mono2 normalized_double [OF assms(2)])
        also have "\<dots> \<le> 2 * ?D" using D by simp
        finally show ?thesis .
      qed
      have "q \<Longrightarrow> unat c = 0"
      proof (rule ccontr)
        assume "q" "unat c \<noteq> 0"
        then have "unat c = 1" using c by linarith
        then have "BASE ^ ?n \<le> limbs_val rs" using sv \<open>q\<close> by (simp add: q_def)
        then show False using limbs_val_less [of rs] sl by simp
      qed
      then show "limbs_val ?high = of_bool q * ?D + limbs_val h2" "limbs_val h2 < ?D"
        using sv s top by (auto simp: h2_def q_def)
    qed
    let ?q1 = "tabq[?k := of_bool q]" and ?a1 = "?low @ h2"
    have hi: "grab taba ?k ?n = Some ?high" using assms(3) by (simp add: grab_def)
    have ge: "divnorm_ge (rev ?high) (rev tabb) = q"
      unfolding q_def by (rule divnorm_ge_iff [OF lh])
    have wq: "wr tabq ?k (of_bool q) = Some ?q1" using assms(4) by (simp add: wr_def)
    have wa: "(if q then blit taba ?k (fst (mp_sub ?high tabb 0)) else Some taba) = Some ?a1"
      using h2(1) assms(3) by (auto simp: h2_def blit_def)
    have step: "mp_divnorm tabq taba tabb = divnorm_loop tabb ?b1 inv ?q1 ?a1 ?k"
      using False by (simp only: mp_divnorm_def Let_def b1 hi ge wq wa Option.bind.simps if_False inv_def)
    have la: "length ?a1 = length taba" using h2(1) ll assms(3) by simp
    have win: "take ?n (drop ?k ?a1) = h2" using ll h2(1) by simp
    have pre: "?k + ?n \<le> length ?a1" "?k \<le> length ?q1" "limbs_val (take ?n (drop ?k ?a1)) < ?D"
      using la assms(3,4) h2(3) unfolding win by simp_all
    have "inv = 0 \<or> inv = udiv1norm_init ?b1" by (simp add: inv_def)
    from divnorm_loop_spec [OF n2 refl assms(2) this pre] obtain tabq' taba' where
      rec: "divnorm_loop tabb ?b1 inv ?q1 ?a1 ?k = Some (tabq', taba')" "length tabq' = length ?q1"
        "length taba' = length ?a1" "drop ?k tabq' = drop ?k ?q1" "limbs_val (take ?n taba') < ?D"
        "limbs_val (take (?k + ?n) ?a1) = limbs_val (take ?k tabq') * ?D + limbs_val (take ?n taba')"
      by blast
    have kq: "?k < length tabq'" using assms(4) rec(2) by simp
    have "drop ?k tabq' ! 0 = drop ?k ?q1 ! 0" using rec(4) by simp
    then have "tabq' ! ?k = of_bool q" using kq rec(2) by simp
    then have "take (?k + 1) tabq' = take ?k tabq' @ [of_bool q]"
      using kq by (simp add: take_Suc_conv_app_nth)
    then have tq: "limbs_val (take (?k + 1) tabq') = limbs_val (take ?k tabq') + BASE ^ ?k * of_bool q"
      using kq by (simp add: limbs_val_append)
    have "?k + ?n = length ?a1" using la assms(3) by simp
    then have "limbs_val ?low + BASE ^ ?k * limbs_val h2 = limbs_val (take ?k tabq') * ?D + limbs_val (take ?n taba')"
      using rec(6) ll by (simp add: limbs_val_append)
    then have "limbs_val taba = limbs_val (take (?k + 1) tabq') * ?D + limbs_val (take ?n taba')"
      unfolding A h2(2) tq by (simp add: algebra_simps)
    from div_mod_eqI [OF this rec(5)] step rec(1-3) la show ?thesis by auto
  qed
qed

end
