(* ===== verification/BigInt.thy ===== *)
theory BigInt
  imports JsMem MpDiv
begin

text \<open>
  The BigInt operations of \<open>src/src/core/quickjs.c\<close> (\<open>js_bigint_new\<close> to \<open>js_bigint_cmp\<close>).
  A \<open>JSBigInt\<close> is the list \<open>tab\<close> of its limbs, least significant first, in two's
  complement; \<open>len\<close> is the length of the list.  Operations run in the runtime of \<open>JsMem\<close>:
  they may throw, and they allocate their result.
\<close>

section \<open>Allocation and normalisation\<close>

type_synonym bigint = "limb list"

definition JS_LIMB_BITS :: nat where "JS_LIMB_BITS = 64"

definition JS_BIGINT_MAX_SIZE :: nat where
  "JS_BIGINT_MAX_SIZE = (1024 * 1024) div JS_LIMB_BITS"

fun bit_length :: "nat \<Rightarrow> nat" where
  "bit_length n = (if n = 0 then 0 else Suc (bit_length (n div 2)))"

declare bit_length.simps [simp del]

definition js_limb_clz :: "limb \<Rightarrow> nat" where
  "js_limb_clz a = JS_LIMB_BITS - bit_length (unat a)"

definition js_limb_safe_clz :: "limb \<Rightarrow> nat" where
  "js_limb_safe_clz a = (if a = 0 then JS_LIMB_BITS else js_limb_clz a)"

text \<open>\<open>sizeof(JSBigInt)\<close> is 8: the reference count and the length.\<close>

definition js_bigint_new :: "malloc_funcs \<Rightarrow> nat \<Rightarrow> bigint js" where
  "js_bigint_new mf len =
     (if len > JS_BIGINT_MAX_SIZE then js_throw (RangeError ''BigInt is too large to allocate'')
      else js_bind (js_malloc mf (8 + len * 8)) (\<lambda>p.
           js_return (map (mf_junk mf p) [0..<len])))"

definition js_bigint_set_si :: "limb \<Rightarrow> bigint" where
  "js_bigint_set_si a = [a]"

definition js_bigint_new_si :: "malloc_funcs \<Rightarrow> limb \<Rightarrow> bigint js" where
  "js_bigint_new_si mf a = js_bind (js_bigint_new mf 1) (\<lambda>r. js_lift (wr r 0 a))"

definition js_bigint_new_si64 :: "malloc_funcs \<Rightarrow> limb \<Rightarrow> bigint js" where
  "js_bigint_new_si64 mf a = js_bigint_new_si mf a"

definition js_bigint_new_ui64 :: "malloc_funcs \<Rightarrow> limb \<Rightarrow> bigint js" where
  "js_bigint_new_ui64 mf a =
     (if a \<le> 0x7FFFFFFFFFFFFFFF then js_bigint_new_si64 mf a
      else js_bind (js_bigint_new mf ((65 + JS_LIMB_BITS - 1) div JS_LIMB_BITS)) (\<lambda>r.
           js_lift (do { r1 \<leftarrow> wr r 0 a; wr r1 1 0 })))"

definition js_bigint_new_di :: "malloc_funcs \<Rightarrow> dlimb \<Rightarrow> bigint js" where
  "js_bigint_new_di mf a =
     (if a = scast (ucast a :: limb)
      then js_bind (js_bigint_new mf 1) (\<lambda>r. js_lift (wr r 0 (ucast a)))
      else js_bind (js_bigint_new mf 2) (\<lambda>r.
           js_lift (do { r1 \<leftarrow> wr r 0 (ucast a); wr r1 1 (ucast (signed_drop_bit 64 a)) })))"

text \<open>The loop that drops redundant high limbs; it stops at one limb.\<close>

fun normal_len :: "limb list \<Rightarrow> nat \<Rightarrow> nat" where
  "normal_len tab 0 = 0"
| "normal_len tab (Suc 0) = Suc 0"
| "normal_len tab (Suc (Suc k)) =
     (let v = tab ! Suc k
      in if (v \<noteq> 0 \<and> v \<noteq> - 1) \<or> v AND 1 \<noteq> drop_bit (JS_LIMB_BITS - 1) (tab ! k)
         then Suc (Suc k) else normal_len tab (Suc k))"

text \<open>A reallocation that fails is not an error here: the block is kept.\<close>

definition js_bigint_normalize1 :: "malloc_funcs \<Rightarrow> bigint \<Rightarrow> nat \<Rightarrow> bigint js" where
  "js_bigint_normalize1 mf a l0 =
     (let l = normal_len a l0
      in if l \<noteq> length a
         then js_ignore (js_realloc mf (8 + l * 8)) (js_lift (grab a 0 l))
         else js_return a)"

definition js_bigint_normalize :: "malloc_funcs \<Rightarrow> bigint \<Rightarrow> bigint js" where
  "js_bigint_normalize mf a = js_bigint_normalize1 mf a (length a)"

definition js_bigint_sign :: "bigint \<Rightarrow> limb" where
  "js_bigint_sign a = drop_bit (JS_LIMB_BITS - 1) (last a)"

definition js_bigint_get_si_sat :: "bigint \<Rightarrow> int" where
  "js_bigint_get_si_sat a =
     (if length a = 1 then sint (hd a)
      else if js_bigint_sign a \<noteq> 0 then - (2 ^ 63) else 2 ^ 63 - 1)"

definition js_bigint_extend :: "malloc_funcs \<Rightarrow> bigint \<Rightarrow> limb \<Rightarrow> bigint js" where
  "js_bigint_extend mf r op1 =
     (let n2 = length r
      in if (op1 \<noteq> 0 \<and> op1 \<noteq> - 1) \<or> op1 AND 1 \<noteq> drop_bit (JS_LIMB_BITS - 1) (last r)
         then js_try (js_realloc mf (8 + (n2 + 1) * 8)) (js_free r) (\<lambda>_. js_return (r @ [op1]))
         else js_bigint_normalize mf r)"

section \<open>Arithmetic\<close>

text \<open>
  The three loops of \<open>js_bigint_add\<close>: the common part, then the part where one operand is
  extended by its sign.
\<close>

fun bigint_add_loop ::
  "limb list \<Rightarrow> limb list \<Rightarrow> limb \<Rightarrow> limb \<Rightarrow> limb \<Rightarrow> limb \<Rightarrow> limb list \<times> limb" where
  "bigint_add_loop (x # xs) (y # ys) neg a_sign b_sign carry =
     (let (v, carry') = ADDC x (y XOR neg) carry;
          (rs, k) = bigint_add_loop xs ys neg a_sign b_sign carry' in (v # rs, k))"
| "bigint_add_loop (x # xs) [] neg a_sign b_sign carry =
     (let (v, carry') = ADDC x b_sign carry;
          (rs, k) = bigint_add_loop xs [] neg a_sign b_sign carry' in (v # rs, k))"
| "bigint_add_loop [] (y # ys) neg a_sign b_sign carry =
     (let (v, carry') = ADDC a_sign (y XOR neg) carry;
          (rs, k) = bigint_add_loop [] ys neg a_sign b_sign carry' in (v # rs, k))"
| "bigint_add_loop [] [] neg a_sign b_sign carry = ([], carry)"

definition js_bigint_add :: "malloc_funcs \<Rightarrow> bigint \<Rightarrow> bigint \<Rightarrow> bool \<Rightarrow> bigint js" where
  "js_bigint_add mf a b b_neg =
     js_bind (js_bigint_new mf (max (length a) (length b))) (\<lambda>r.
     let neg = - of_bool b_neg;
         a_sign = - js_bigint_sign a;
         b_sign = (- js_bigint_sign b) XOR neg;
         (tab, carry) = bigint_add_loop a b neg a_sign b_sign (of_bool b_neg)
     in js_bind (js_lift (blit r 0 tab)) (\<lambda>r.
        js_bigint_extend mf r (a_sign + b_sign + carry)))"

definition js_bigint_neg :: "malloc_funcs \<Rightarrow> bigint \<Rightarrow> bigint js" where
  "js_bigint_neg mf a = js_bigint_add mf (js_bigint_set_si 0) a True"

text \<open>\<open>mp_sub\<close> on the limbs of \<open>r\<close> from index \<open>k\<close> on, in place.\<close>

definition mp_sub_at :: "limb list \<Rightarrow> nat \<Rightarrow> limb list \<Rightarrow> limb list option" where
  "mp_sub_at r k b = do { w \<leftarrow> grab r k (length b); blit r k (fst (mp_sub w b 0)) }"

definition js_bigint_mul :: "malloc_funcs \<Rightarrow> bigint \<Rightarrow> bigint \<Rightarrow> bigint js" where
  "js_bigint_mul mf a b =
     js_bind (js_bigint_new mf (length a + length b)) (\<lambda>r.
     js_bind (js_lift (mp_mul_basecase r a b)) (\<lambda>r.
     js_bind (js_lift (if js_bigint_sign a \<noteq> 0 then mp_sub_at r (length a) b else Some r)) (\<lambda>r.
     js_bind (js_lift (if js_bigint_sign b \<noteq> 0 then mp_sub_at r (length b) a else Some r)) (\<lambda>r.
     js_bigint_normalize mf r))))"

text \<open>\<open>while (n > 1 && tab[n - 1] == 0) n--;\<close>\<close>

fun strip_zeros :: "limb list \<Rightarrow> nat \<Rightarrow> nat" where
  "strip_zeros tab 0 = 0"
| "strip_zeros tab (Suc 0) = Suc 0"
| "strip_zeros tab (Suc (Suc k)) =
     (if tab ! Suc k = 0 then strip_zeros tab (Suc k) else Suc (Suc k))"

definition abs_limbs :: "bigint \<Rightarrow> limb list" where
  "abs_limbs a = (if js_bigint_sign a \<noteq> 0 then fst (mp_neg a) else a)"

text \<open>
  The normalisation of the divisor: both operands are shifted, the dividend (in a block
  with spare limbs) may gain a limb.
\<close>

definition divrem_shift :: "nat \<Rightarrow> limb list \<Rightarrow> nat \<Rightarrow> limb list \<Rightarrow> (limb list \<times> nat \<times> limb list) option" where
  "divrem_shift shift r na tabb =
     (if shift \<noteq> 0 then do {
        let tabb1 = fst (mp_shl tabb shift);
        w \<leftarrow> grab r 0 na;
        let (w1, h) = mp_shl w shift;
        r1 \<leftarrow> blit r 0 w1;
        if h \<noteq> 0 then do { r2 \<leftarrow> wr r1 na h; Some (r2, na + 1, tabb1) }
        else Some (r1, na, tabb1) }
      else Some (r, na, tabb))"

definition divrem_core :: "limb list \<Rightarrow> limb list \<Rightarrow> nat \<Rightarrow> limb list \<Rightarrow> (limb list \<times> limb list) option" where
  "divrem_core q r na tabb = do {
     w \<leftarrow> grab r 0 na;
     (q1, w1) \<leftarrow> mp_divnorm q w tabb;
     r1 \<leftarrow> blit r 0 w1;
     Some (q1, r1) }"

definition divrem_rem :: "limb list \<Rightarrow> nat \<Rightarrow> nat \<Rightarrow> bool \<Rightarrow> limb list option" where
  "divrem_rem r nb shift neg = do {
     w \<leftarrow> grab r 0 nb;
     r1 \<leftarrow> (if shift \<noteq> 0 then blit r 0 (fst (mp_shr w shift 0)) else Some r);
     r2 \<leftarrow> wr r1 nb 0;
     if neg then do { w2 \<leftarrow> grab r2 0 (nb + 1); blit r2 0 (fst (mp_neg w2)) }
     else Some r2 }"

definition divrem_quot :: "limb list \<Rightarrow> nat \<Rightarrow> nat \<Rightarrow> bool \<Rightarrow> limb list option" where
  "divrem_quot q na nb neg = do {
     q1 \<leftarrow> wr q (na - nb + 1) 0;
     Some (if neg then fst (mp_neg q1) else q1) }"

text \<open>The small dividend: the remainder is a copy of \<open>a\<close>, the quotient is zero.\<close>

definition divrem_small :: "malloc_funcs \<Rightarrow> bigint \<Rightarrow> bool \<Rightarrow> bigint js" where
  "divrem_small mf a is_rem =
     (if is_rem
      then js_bind (js_bigint_new mf (length a)) (\<lambda>r. js_lift (blit r 0 a))
      else js_bigint_new_si mf 0)"

definition divrem_finish ::
  "malloc_funcs \<Rightarrow> bool \<Rightarrow> bool \<Rightarrow> bool \<Rightarrow> nat \<Rightarrow> nat \<Rightarrow> nat \<Rightarrow> limb list \<Rightarrow> limb list \<Rightarrow> bigint js" where
  "divrem_finish mf is_rem a_sign b_sign na nb shift q r =
     (if is_rem then
        js_bind (js_free q) (\<lambda>_.
        js_bind (js_lift (divrem_rem r nb shift a_sign)) (\<lambda>r.
        js_bigint_normalize1 mf r (nb + 1)))
      else
        js_bind (js_free r) (\<lambda>_.
        js_bind (js_lift (divrem_quot q na nb (a_sign \<noteq> b_sign))) (\<lambda>q.
        js_bigint_normalize mf q)))"

text \<open>The long division; \<open>p\<close> is the block of \<open>tabb\<close>.\<close>

definition divrem_long ::
  "malloc_funcs \<Rightarrow> bool \<Rightarrow> bool \<Rightarrow> bool \<Rightarrow> limb list \<Rightarrow> nat \<Rightarrow> limb list \<Rightarrow> nat \<Rightarrow> bigint js" where
  "divrem_long mf is_rem a_sign b_sign r na tabb p =
     (let nb = length tabb; shift = js_limb_clz (tabb ! (nb - 1)) in
      js_bind (js_lift (divrem_shift shift r na tabb)) (\<lambda>(r, na, tabb).
      js_try (js_bigint_new mf (na - nb + 2)) (js_bind (js_free r) (\<lambda>_. js_free p)) (\<lambda>q.
      js_bind (js_lift (divrem_core q r na tabb)) (\<lambda>(q, r).
      js_bind (js_free p) (\<lambda>_.
      divrem_finish mf is_rem a_sign b_sign na nb shift q r)))))"

definition js_bigint_divrem :: "malloc_funcs \<Rightarrow> bigint \<Rightarrow> bigint \<Rightarrow> bool \<Rightarrow> bigint js" where
  "js_bigint_divrem mf a b is_rem =
     (if length b = 1 \<and> hd b = 0 then js_throw (RangeError ''BigInt division by zero'')
      else
        let a_sign = js_bigint_sign a \<noteq> 0; b_sign = js_bigint_sign b \<noteq> 0 in
        js_bind (js_bigint_new mf (length a + 2)) (\<lambda>r0.
        js_bind (js_lift (blit r0 0 (abs_limbs a))) (\<lambda>r.
        let na = strip_zeros r (length a) in
        js_try (js_malloc mf (length b * 8)) (js_free r) (\<lambda>p.
        let tabb = abs_limbs b; nb = strip_zeros tabb (length b) in
        if na < nb then
          js_bind (js_free r) (\<lambda>_. js_bind (js_free p) (\<lambda>_. divrem_small mf a is_rem))
        else divrem_long mf is_rem a_sign b_sign r na (take nb tabb) p))))"

section \<open>Bitwise operations and shifts\<close>

datatype logic_op = OP_or | OP_and | OP_xor

fun logic_limb :: "logic_op \<Rightarrow> limb \<Rightarrow> limb \<Rightarrow> limb" where
  "logic_limb OP_or x y = x OR y"
| "logic_limb OP_and x y = x AND y"
| "logic_limb OP_xor x y = x XOR y"

text \<open>The two loops of each case: \<open>b\<close> is the shorter operand, extended by its sign.\<close>

fun logic_loop :: "logic_op \<Rightarrow> limb list \<Rightarrow> limb list \<Rightarrow> limb \<Rightarrow> limb list" where
  "logic_loop op1 (x # xs) (y # ys) b_sign = logic_limb op1 x y # logic_loop op1 xs ys b_sign"
| "logic_loop op1 (x # xs) [] b_sign = logic_limb op1 x b_sign # logic_loop op1 xs [] b_sign"
| "logic_loop op1 [] ys b_sign = []"

definition js_bigint_logic :: "malloc_funcs \<Rightarrow> bigint \<Rightarrow> bigint \<Rightarrow> logic_op \<Rightarrow> bigint js" where
  "js_bigint_logic mf a0 b0 op1 =
     (let (a, b) = (if length a0 < length b0 then (b0, a0) else (a0, b0));
          b_sign = - js_bigint_sign b
      in js_bind (js_bigint_new mf (length a)) (\<lambda>r.
         js_bind (js_lift (blit r 0 (logic_loop op1 a b b_sign))) (\<lambda>r.
         js_bigint_normalize mf r)))"

definition js_bigint_not :: "malloc_funcs \<Rightarrow> bigint \<Rightarrow> bigint js" where
  "js_bigint_not mf a =
     js_bind (js_bigint_new mf (length a)) (\<lambda>r.
     js_lift (blit r 0 (map (\<lambda>x. NOT x) a)))"

definition js_bigint_shl :: "malloc_funcs \<Rightarrow> bigint \<Rightarrow> u32 \<Rightarrow> bigint js" where
  "js_bigint_shl mf a shift1 =
     (if length a = 1 \<and> hd a = 0 then js_bigint_new_si mf 0
      else
        let d = unat shift1 div JS_LIMB_BITS; shift = unat shift1 mod JS_LIMB_BITS in
        js_bind (js_bigint_new mf (length a + d)) (\<lambda>r.
        js_bind (js_lift (blit r 0 (replicate d 0))) (\<lambda>r.
        if shift = 0 then js_lift (blit r d a)
        else
          let (tab, l) = mp_shl a shift;
              l = (if js_bigint_sign a \<noteq> 0 then l OR push_bit shift (- 1) else l)
          in js_bind (js_lift (blit r d tab)) (\<lambda>r. js_bigint_extend mf r l))))"

definition js_bigint_shr :: "malloc_funcs \<Rightarrow> bigint \<Rightarrow> u32 \<Rightarrow> bigint js" where
  "js_bigint_shr mf a shift1 =
     (let d = unat shift1 div JS_LIMB_BITS; shift = unat shift1 mod JS_LIMB_BITS;
          a_sign = js_bigint_sign a
      in if d \<ge> length a then js_bigint_new_si mf (- a_sign)
         else
           let n1 = length a - d in
           js_bind (js_bigint_new mf n1) (\<lambda>r.
           if shift = 0 then js_lift (do { w \<leftarrow> grab a d n1; blit r 0 w })
           else
             js_bind (js_lift (do { w \<leftarrow> grab a d n1; blit r 0 (fst (mp_shr w shift (- a_sign))) })) (\<lambda>r.
             js_bigint_normalize mf r)))"

section \<open>Exponentiation\<close>

definition clz32 :: "u32 \<Rightarrow> nat" where
  "clz32 a = 32 - bit_length (unat a)"

text \<open>
  The square-and-multiply loop, for bits \<open>i - 1\<close> down to \<open>0\<close> of the exponent.  When a
  multiplication fails the loop returns without releasing \<open>r\<close>.
\<close>

fun pow_loop :: "malloc_funcs \<Rightarrow> bigint \<Rightarrow> u32 \<Rightarrow> nat \<Rightarrow> bigint \<Rightarrow> bigint js" where
  "pow_loop mf a e 0 r = js_return r"
| "pow_loop mf a e (Suc i) r =
     js_bind (js_bigint_mul mf r r) (\<lambda>r1.
     js_bind (js_free r) (\<lambda>_.
     if drop_bit i e AND 1 \<noteq> 0
     then js_bind (js_bigint_mul mf r1 a) (\<lambda>r2.
          js_bind (js_free r1) (\<lambda>_. pow_loop mf a e i r2))
     else pow_loop mf a e i r1))"

definition pow_overflow :: "bigint js" where
  "pow_overflow = js_throw (RangeError ''BigInt is too large'')"

definition pow_general :: "malloc_funcs \<Rightarrow> bigint \<Rightarrow> bigint \<Rightarrow> bigint js" where
  "pow_general mf a b =
     (if length b > 1 then pow_overflow
      else if hd b > 0x7FFFFFFF then pow_overflow
      else
        let e = ucast (hd b) :: u32; n_bits = 32 - clz32 e in
        js_bind (js_bigint_new mf (length a)) (\<lambda>r.
        js_bind (js_lift (blit r 0 a)) (\<lambda>r. pow_loop mf a e (n_bits - 1) r)))"

text \<open>A power of two: one limb is set in a block of zeros.\<close>

definition pow_two :: "malloc_funcs \<Rightarrow> nat \<Rightarrow> bool \<Rightarrow> bigint \<Rightarrow> bigint js" where
  "pow_two mf n neg b =
     (if length b > 1 then pow_overflow
      else if hd b > 0x7FFFFFFF then pow_overflow
      else
        let e = unat (hd b) * n in
        if e > JS_BIGINT_MAX_SIZE * JS_LIMB_BITS then pow_overflow
        else
          let is_neg = neg \<and> hd b AND 1 \<noteq> 0;
              len = (e + JS_LIMB_BITS + 1 - of_bool is_neg) div JS_LIMB_BITS in
          js_bind (js_bigint_new mf len) (\<lambda>r.
          js_lift (wr (replicate (length r) 0) (e div JS_LIMB_BITS)
                      (push_bit (e mod JS_LIMB_BITS) (1 - 2 * of_bool is_neg)))))"

definition js_bigint_pow :: "malloc_funcs \<Rightarrow> bigint \<Rightarrow> bigint \<Rightarrow> bigint js" where
  "js_bigint_pow mf a b =
     (if js_bigint_sign b \<noteq> 0 then js_throw (RangeError ''BigInt negative exponent'')
      else if length b = 1 \<and> hd b = 0 then js_bigint_new_si mf 1
      else if length a = 1 then
        let v = hd a in
        if v \<le> 1 then js_bigint_new_si mf v
        else if v = - 1 then js_bigint_new_si mf (1 - 2 * (hd b AND 1))
        else
          let is_neg = v <s 0; v1 = (if is_neg then - v else v) in
          if v1 AND (v1 - 1) = 0
          then pow_two mf (JS_LIMB_BITS - 1 - js_limb_clz v1) is_neg b
          else pow_general mf a b
      else pow_general mf a b)"

section \<open>Comparison\<close>

fun bigint_cmp_loop :: "limb list \<Rightarrow> limb list \<Rightarrow> int" where
  "bigint_cmp_loop (x # xs) (y # ys) =
     (if x \<noteq> y then (if x < y then - 1 else 1) else bigint_cmp_loop xs ys)"
| "bigint_cmp_loop _ _ = 0"

definition js_bigint_cmp :: "bigint \<Rightarrow> bigint \<Rightarrow> int" where
  "js_bigint_cmp a b =
     (let a_sign = uint (js_bigint_sign a); b_sign = uint (js_bigint_sign b)
      in if a_sign \<noteq> b_sign then 1 - 2 * a_sign
         else if length a \<noteq> length b
              then (if length a < length b then 2 * a_sign - 1 else 1 - 2 * a_sign)
              else bigint_cmp_loop (rev a) (rev b))"

end
