(* ===== verification/BigInt_Core.thy ===== *)
theory BigInt_Core
  imports BigInt
begin

text \<open>
  The integer a \<open>JSBigInt\<close> stands for, its normal form, and the contracts of allocation,
  normalisation and extension on which the arithmetic of \<open>BigInt_Arith\<close> rests.
\<close>

section \<open>Two's complement values\<close>

definition neg_limb :: "limb \<Rightarrow> bool" where
  "neg_limb x \<longleftrightarrow> 2 ^ 63 \<le> unat x"

definition sval :: "bigint \<Rightarrow> int" where
  "sval a = int (limbs_val a) - of_bool (neg_limb (last a)) * int (BASE ^ length a)"

definition redundant :: "limb \<Rightarrow> limb \<Rightarrow> bool" where
  "redundant x y \<longleftrightarrow> x = - of_bool (neg_limb y)"

definition normal :: "bigint \<Rightarrow> bool" where
  "normal a \<longleftrightarrow> a \<noteq> [] \<and> (1 < length a \<longrightarrow> \<not> redundant (last a) (last (butlast a)))"

lemma BASE_double: "BASE = 2 * 2 ^ 63"
  by (simp add: BASE_def)

lemma drop_bit_63: "drop_bit 63 (x :: limb) = of_bool (neg_limb x)"
proof (rule word_unat_eq_iff [THEN iffD2])
  have "unat x < 2 * 2 ^ 63" using unat_limb [of x] by (simp add: BASE_double)
  then have "unat x div 2 ^ 63 = of_bool (neg_limb x)"
    by (cases "neg_limb x") (simp_all add: neg_limb_def div_nat_eqI)
  then show "unat (drop_bit 63 x) = unat (of_bool (neg_limb x) :: limb)"
    by (simp add: unat_drop_bit_div)
qed

lemma js_bigint_sign_eq: "js_bigint_sign a = of_bool (neg_limb (last a))"
  by (simp add: js_bigint_sign_def JS_LIMB_BITS_def drop_bit_63)

lemma neg_limb_simps [simp]: "\<not> neg_limb 0" "neg_limb (- 1)" "\<not> neg_limb 1"
  by (simp_all add: neg_limb_def unsigned_minus_1_eq_mask mask_eq_exp_minus_1)

lemma neg_limb_NOT [simp]: "neg_limb (NOT x) \<longleftrightarrow> \<not> neg_limb x"
  using unat_limb [of x] by (simp add: neg_limb_def unat_not_limb BASE_double; linarith)

lemma sint_limb: "sint (x :: limb) = int (unat x) - of_bool (neg_limb x) * int BASE"
proof -
  have "sint x = signed_take_bit 63 (int (unat x))"
    by (simp add: sint_uint)
  also have "\<dots> = int (unat x) - of_bool (bit x 63) * 2 ^ 64"
  proof -
    have "take_bit 64 (int (unat x)) = int (unat x)"
    proof (rule take_bit_int_eq_self)
      have "int (unat x) < int (2 ^ 64)" using unat_limb [of x] by (simp only: BASE_def of_nat_less_iff)
      then show "int (unat x) < 2 ^ 64" by (simp only: of_nat_power of_nat_numeral)
    qed (rule of_nat_0_le_iff)
    then show ?thesis
      using signed_take_bit_eq_take_bit_minus [of 63 "int (unat x)"]
      by (simp add: bit_simps)
  qed
  also have "bit x 63 = neg_limb x"
    using drop_bit_63 [of x] by (auto simp: bit_iff_odd_drop_bit)
  finally show ?thesis by (simp add: BASE_def)
qed

lemma neg_limb_sint: "neg_limb x \<longleftrightarrow> sint x < 0"
proof -
  have "int (unat x) < int BASE" "0 \<le> int (unat x)" using unat_limb [of x] by (simp_all only: of_nat_less_iff of_nat_0_le_iff)
  then show ?thesis unfolding sint_limb by (cases "neg_limb x") simp_all
qed

lemma unat_neg_limb: "v \<noteq> 0 \<Longrightarrow> unat (- v :: limb) = BASE - unat v"
proof -
  assume "v \<noteq> 0"
  have "- v = NOT (v - 1)" by (simp add: not_eq_complement)
  moreover have "unat (v - 1) = unat v - 1" by (rule unat_minus_one [OF \<open>v \<noteq> 0\<close>])
  ultimately show ?thesis using \<open>v \<noteq> 0\<close> by (simp add: unat_not_limb unat_gt_0)
qed

lemma redundant_iff:
  "\<not> ((v \<noteq> 0 \<and> v \<noteq> - 1) \<or> v AND 1 \<noteq> drop_bit (JS_LIMB_BITS - 1) w) \<longleftrightarrow> redundant v w"
proof -
  have "(0 :: limb) \<noteq> - 1" "(- 1 :: limb) AND 1 = 1" by simp_all
  then show ?thesis
    by (cases "neg_limb w") (auto simp: redundant_def drop_bit_63 JS_LIMB_BITS_def)
qed

lemma redundant_if:
  "(if (v \<noteq> 0 \<and> v \<noteq> - 1) \<or> v AND 1 \<noteq> drop_bit (JS_LIMB_BITS - 1) w then p else q) =
   (if redundant v w then q else p)"
  using redundant_iff [of v w] by (simp only: if_not_P split: if_split) blast

lemma sval_single [simp]: "sval [x] = sint x"
  by (simp add: sval_def sint_limb)

lemma sval_snoc: "sval (a @ [x]) = int (limbs_val a) + int (BASE ^ length a) * sint x"
  by (simp add: sval_def sint_limb limbs_val_append algebra_simps)

lemma sval_range:
  assumes "a \<noteq> []"
  shows "2 * sval a < int (BASE ^ length a)" "- int (BASE ^ length a) \<le> 2 * sval a"
proof -
  obtain xs x where a: "a = xs @ [x]" using assms by (cases a rule: rev_cases) auto
  define P where "P = int (BASE ^ length xs)"
  have P: "0 < P" by (simp add: P_def)
  have low: "0 \<le> int (limbs_val xs)" "int (limbs_val xs) < P"
    using limbs_val_less [of xs] by (simp_all add: P_def)
  have x: "- 9223372036854775808 \<le> sint x" "sint x \<le> 9223372036854775807"
    using sint_range_size [of x] by (simp_all add: word_size)
  have v: "sval a = int (limbs_val xs) + P * sint x" by (simp add: a sval_snoc P_def)
  have B: "int (BASE ^ length a) = 18446744073709551616 * P" by (simp add: a P_def BASE_def)
  define T where "T = P * sint x"
  have "P * sint x \<le> P * 9223372036854775807" "P * (- 9223372036854775808) \<le> P * sint x"
    using x P by (intro mult_left_mono; simp)+
  then have "T \<le> 9223372036854775807 * P" "- (9223372036854775808 * P) \<le> T"
    by (simp_all only: T_def mult.commute mult_minus_right)
  then show "2 * sval a < int (BASE ^ length a)" "- int (BASE ^ length a) \<le> 2 * sval a"
    unfolding v B T_def [symmetric] distrib_left using low by - linarith+
qed

lemma sval_cong: "sval a = int (limbs_val a) - k * int (BASE ^ length a)"
  if "k = of_bool (neg_limb (last a))" using that by (simp add: sval_def)

text \<open>The value is determined by its residue and its range.\<close>

lemma sval_eqI:
  assumes "a \<noteq> []" "int (limbs_val a) = v + k * int (BASE ^ length a)"
    "2 * v < int (BASE ^ length a)" "- int (BASE ^ length a) \<le> 2 * v"
  shows "sval a = v"
proof -
  define B where "B = int (BASE ^ length a)"
  define m where "m = k - of_bool (neg_limb (last a))"
  have m: "sval a = v + m * B"
    using assms(2) by (simp add: sval_def B_def m_def left_diff_distrib)
  have "2 * sval a < B" "- B \<le> 2 * sval a" "2 * v < B" "- B \<le> 2 * v"
    using sval_range [OF assms(1)] assms(3,4) by (simp_all add: B_def)
  moreover define M where "M = m * B"
  ultimately have "M < B" "- B < M" unfolding m distrib_left by - linarith+
  then have lt: "m * B < 1 * B" "(- 1) * B < m * B" by (simp_all add: M_def)
  have "0 < B" by (simp add: B_def)
  then have "m < 1" "- 1 < m" using lt by (simp_all only: mult_less_cancel_right_pos)
  then show ?thesis using m by simp
qed

lemma sval_inj:
  assumes "length a = length b" "a \<noteq> []" "sval a = sval b"
  shows "a = b"
proof (rule limbs_val_inj [OF assms(1)])
  define B where "B = int (BASE ^ length a)"
  have r: "0 \<le> int (limbs_val a)" "int (limbs_val a) < B" "0 \<le> int (limbs_val b)" "int (limbs_val b) < B"
    using limbs_val_less [of a] limbs_val_less [of b] assms(1) by (simp_all add: B_def)
  have "int (limbs_val a) - int (limbs_val b) =
      (of_bool (neg_limb (last a)) - of_bool (neg_limb (last b))) * B"
    using assms(1,3) by (simp add: sval_def B_def algebra_simps)
  then show "limbs_val a = limbs_val b"
    using r by (cases "neg_limb (last a)"; cases "neg_limb (last b)") simp_all
qed

lemma sval_redundant: "redundant x (last a) \<Longrightarrow> sval (a @ [x]) = sval a"
  unfolding sval_snoc redundant_def by (simp add: sval_def)

lemma sval_nonneg_iff: "a \<noteq> [] \<Longrightarrow> sval a < 0 \<longleftrightarrow> neg_limb (last a)"
  using limbs_val_less [of a] by (auto simp: sval_def)

lemma sval_nonneg: "\<not> neg_limb (last a) \<Longrightarrow> sval a = int (limbs_val a)"
  by (simp add: sval_def)

text \<open>Sign extension.\<close>

definition sign_ext :: "bigint \<Rightarrow> nat \<Rightarrow> bigint" where
  "sign_ext a n = a @ replicate (n - length a) (- of_bool (neg_limb (last a)))"

lemma last_sign_ext: "a \<noteq> [] \<Longrightarrow> neg_limb (last (sign_ext a n)) = neg_limb (last a)"
  by (cases "n - length a") (auto simp: sign_ext_def)

lemma sval_replicate:
  "a \<noteq> [] \<Longrightarrow> sval (a @ replicate k (- of_bool (neg_limb (last a)))) = sval a"
proof (induction k)
  case (Suc k)
  let ?s = "- of_bool (neg_limb (last a)) :: limb"
  have "replicate (Suc k) ?s = replicate k ?s @ [?s]" by (simp add: replicate_append_same)
  moreover have "redundant ?s (last (a @ replicate k ?s))"
    by (cases k) (auto simp: redundant_def)
  ultimately show ?case
    using sval_redundant [of ?s "a @ replicate k ?s"] Suc by simp
qed simp

lemma sval_sign_ext [simp]: "a \<noteq> [] \<Longrightarrow> sval (sign_ext a n) = sval a"
  by (simp add: sign_ext_def sval_replicate)

lemma length_sign_ext [simp]: "length a \<le> n \<Longrightarrow> length (sign_ext a n) = n"
  by (simp add: sign_ext_def)

lemma limbs_val_sign_ext:
  assumes "a \<noteq> []" "length a \<le> n"
  shows "int (limbs_val (sign_ext a n)) = sval a + of_bool (neg_limb (last a)) * int (BASE ^ n)"
  using sval_sign_ext [OF assms(1), of n] assms
  by (simp add: sval_def last_sign_ext del: sval_sign_ext)

lemma sval_map_NOT: "a \<noteq> [] \<Longrightarrow> sval (map (\<lambda>x. NOT x) a) = - 1 - sval a"
proof -
  assume a: "a \<noteq> []"
  have "limbs_val (map (\<lambda>x. NOT x) a) + limbs_val a + 1 = BASE ^ length a"
  proof (induction a)
    case (Cons x xs)
    have "unat (NOT x) + unat x + 1 = BASE" using unat_limb [of x] unat_not_limb [of x] by linarith
    then have "limbs_val (map (\<lambda>x. NOT x) (x # xs)) + limbs_val (x # xs) + 1 =
      BASE * (limbs_val (map (\<lambda>x. NOT x) xs) + limbs_val xs + 1)" by (simp add: algebra_simps)
    then show ?case unfolding Cons by simp
  qed simp
  then have "int (limbs_val (map (\<lambda>x. NOT x) a)) = int (BASE ^ length a) - 1 - int (limbs_val a)"
    by linarith
  then show ?thesis using a by (simp add: sval_def last_map)
qed

section \<open>Normal forms\<close>

lemma normal_not_empty [simp]: "normal a \<Longrightarrow> a \<noteq> []"
  by (simp add: normal_def)

lemma normal_single [simp]: "normal [x]"
  by (simp add: normal_def)

lemma normal_snoc: "normal (a @ [x]) \<longleftrightarrow> (a \<noteq> [] \<longrightarrow> \<not> redundant x (last a))"
  by (auto simp: normal_def)

lemma normal_len_spec:
  "1 \<le> l \<Longrightarrow> l \<le> length a \<Longrightarrow>
   1 \<le> normal_len a l \<and> normal_len a l \<le> l \<and> normal (take (normal_len a l) a) \<and>
   sval (take (normal_len a l) a) = sval (take l a)"
proof (induction a l rule: normal_len.induct)
  case (2 tab)
  then show ?case by (cases tab) simp_all
next
  case (3 tab k)
  have t1: "take (Suc (Suc k)) tab = take (Suc k) tab @ [tab ! Suc k]"
    using 3(3) by (simp add: take_Suc_conv_app_nth)
  have l1: "last (take (Suc k) tab) = tab ! k"
    using 3(3) by (simp add: take_Suc_conv_app_nth)
  have ne: "take (Suc k) tab \<noteq> []" using 3(3) by auto
  show ?case
  proof (cases "redundant (tab ! Suc k) (tab ! k)")
    case True
    then have n: "normal_len tab (Suc (Suc k)) = normal_len tab (Suc k)"
      by (simp only: normal_len.simps Let_def redundant_if if_True)
    have "sval (take (Suc (Suc k)) tab) = sval (take (Suc k) tab)"
      unfolding t1 by (rule sval_redundant) (use True l1 in simp)
    moreover have "1 \<le> normal_len tab (Suc k) \<and> normal_len tab (Suc k) \<le> Suc k \<and>
        normal (take (normal_len tab (Suc k)) tab) \<and>
        sval (take (normal_len tab (Suc k)) tab) = sval (take (Suc k) tab)"
      using 3(1) [OF refl] redundant_iff [of "tab ! Suc k" "tab ! k"] True 3(3) by simp
    ultimately show ?thesis unfolding n by simp
  next
    case False
    then have "normal_len tab (Suc (Suc k)) = Suc (Suc k)"
      by (simp only: normal_len.simps Let_def redundant_if if_False)
    then show ?thesis using False l1 ne by (simp add: t1 normal_snoc)
  qed
qed simp

text \<open>Equal values have equal normal forms.\<close>

lemma normal_bound:
  assumes "normal (a @ [x])" "a \<noteq> []"
  shows "2 * sval (a @ [x]) \<ge> int (BASE ^ length a) \<or> 2 * sval (a @ [x]) < - int (BASE ^ length a)"
proof (rule ccontr)
  assume "\<not> ?thesis"
  then have "2 * sval (a @ [x]) < int (BASE ^ length a)" "- int (BASE ^ length a) \<le> 2 * sval (a @ [x])"
    by simp_all
  moreover have "int (limbs_val a) = sval (a @ [x]) + (- sint x) * int (BASE ^ length a)"
    by (simp add: sval_snoc)
  ultimately have eq: "sval a = sval (a @ [x])" using sval_eqI [OF assms(2)] by blast
  have "sval (a @ [x]) = sval (a @ [- of_bool (neg_limb (last a))])"
    using sval_redundant [of "- of_bool (neg_limb (last a))" a] eq by (simp add: redundant_def)
  then have "x = - of_bool (neg_limb (last a))"
    using sval_inj [of "a @ [x]" "a @ [- of_bool (neg_limb (last a))]"] by simp
  then show False using assms by (simp add: normal_snoc redundant_def)
qed

lemma normal_lower:
  assumes "normal x" "sval x \<noteq> 0"
  shows "int (BASE ^ (length x - 1)) \<le> 2 * \<bar>sval x\<bar>"
proof -
  obtain xs y where x: "x = xs @ [y]" using normal_not_empty [OF assms(1)] by (cases x rule: rev_cases) auto
  show ?thesis
  proof (cases "xs = []")
    case True
    then show ?thesis using assms(2) x by simp
  next
    case False
    then show ?thesis using normal_bound [of xs y] assms(1) unfolding x by auto
  qed
qed

lemma normal_length_le:
  assumes "normal a" "b \<noteq> []" "2 * sval a < int (BASE ^ length b)" "- int (BASE ^ length b) \<le> 2 * sval a"
  shows "length a \<le> length b"
proof (rule ccontr)
  assume lt: "\<not> ?thesis"
  obtain xs x where a: "a = xs @ [x]" using normal_not_empty [OF assms(1)] by (cases a rule: rev_cases) auto
  have "length b \<le> length xs" "xs \<noteq> []" using lt assms(2) a by (cases xs; cases b; simp)+
  then have "BASE ^ length b \<le> BASE ^ length xs"
    by (intro power_increasing) (simp_all add: Suc_leI)
  then have "int (BASE ^ length b) \<le> int (BASE ^ length xs)" by (simp only: of_nat_le_iff)
  then show False
    using normal_bound [of xs x] assms(1,3,4) \<open>xs \<noteq> []\<close> unfolding a by linarith
qed

lemma normal_unique:
  assumes "normal a" "normal b" "sval a = sval b"
  shows "a = b"
proof -
  have "length a \<le> length b" "length b \<le> length a"
    using normal_length_le [OF assms(1), of b] normal_length_le [OF assms(2), of a]
      sval_range [of a] sval_range [of b] assms by simp_all
  then show ?thesis using sval_inj [of a b] assms by simp
qed

section \<open>Allocation, normalisation, extension\<close>

definition too_large :: "js_error \<Rightarrow> bool" where
  "too_large e \<longleftrightarrow> e = RangeError ''BigInt is too large to allocate''"

lemma js_bigint_new_sat:
  assumes "JS_BIGINT_MAX_SIZE < len \<Longrightarrow> E (RangeError ''BigInt is too large to allocate'')"
  shows "js_sat mf E 0 1 (\<lambda>r. length r = len) (js_bigint_new mf len)"
  using assms unfolding js_bigint_new_def
  by (auto intro!: js_sat_throw js_sat_bind [OF js_sat_malloc] js_sat_return)

lemma js_bigint_new_si_sat: "js_sat mf E 0 1 (\<lambda>r. r = [a]) (js_bigint_new_si mf a)"
  unfolding js_bigint_new_si_def
proof (rule js_sat_bind [OF js_bigint_new_sat])
  show "js_sat mf E (0 - 1) (1 - 1) (\<lambda>r. r = [a]) (js_lift (wr r 0 a))" if "length r = 1" for r
    using that by (cases r) (auto intro!: js_sat_lift simp: wr_def)
qed (simp add: JS_BIGINT_MAX_SIZE_def JS_LIMB_BITS_def)

lemma js_bigint_normalize1_sat:
  assumes "1 \<le> l" "l \<le> length a"
  shows "js_sat mf E de 0 (\<lambda>r. normal r \<and> sval r = sval (take l a)) (js_bigint_normalize1 mf a l)"
proof (cases "normal_len a l = length a")
  case True
  then have "js_bigint_normalize1 mf a l = js_return a" by (simp add: js_bigint_normalize1_def)
  moreover have "normal (take (length a) a) \<and> sval (take (length a) a) = sval (take l a)"
    using normal_len_spec [OF assms] unfolding True by blast
  then have "normal a \<and> sval a = sval (take l a)" unfolding take_all [OF order_refl] .
  then have "js_sat mf E de 0 (\<lambda>r. normal r \<and> sval r = sval (take l a)) (js_return a)"
    by (rule js_sat_return)
  ultimately show ?thesis by (simp only:)
next
  case False
  note spec = normal_len_spec [OF assms]
  have "grab a 0 (normal_len a l) = Some (take (normal_len a l) a)"
    using spec assms by (simp add: grab_def)
  then have "js_sat mf (\<lambda>_. False) de 0 (\<lambda>r. normal r \<and> sval r = sval (take l a))
      (js_lift (grab a 0 (normal_len a l)))"
    by (rule js_sat_lift) (use spec in simp)
  from js_sat_ignore [OF js_sat_realloc this realloc_succeeds] show ?thesis
    using False by (simp add: js_bigint_normalize1_def Let_def)
qed

lemma js_bigint_normalize_sat:
  assumes "a \<noteq> []"
  shows "js_sat mf E de 0 (\<lambda>r. normal r \<and> sval r = sval a) (js_bigint_normalize mf a)"
  using js_bigint_normalize1_sat [of "length a" a] assms
  by (simp add: js_bigint_normalize_def Suc_le_eq)

lemma js_bigint_extend_sat:
  assumes "r \<noteq> []"
  shows "js_sat mf E (- 1) 0
    (\<lambda>x. normal x \<and> sval x = int (limbs_val r) + int (BASE ^ length r) * sint op1)
    (js_bigint_extend mf r op1)"
proof (cases "redundant op1 (last r)")
  case True
  then have "sval r = int (limbs_val r) + int (BASE ^ length r) * sint op1"
    using sval_redundant [of op1 r] by (simp add: sval_snoc)
  then show ?thesis
    using True js_bigint_normalize_sat [OF assms]
    by (simp only: js_bigint_extend_def Let_def redundant_if if_True)
next
  case False
  then have "js_bigint_extend mf r op1 =
      js_try (js_realloc mf (8 + (length r + 1) * 8)) (js_free r) (\<lambda>_. js_return (r @ [op1]))"
    by (simp only: js_bigint_extend_def Let_def redundant_if if_False)
  moreover have "js_sat mf E (- 1) 0 P
      (js_try (js_realloc mf (8 + (length r + 1) * 8)) (js_free r) (\<lambda>_. js_return (r @ [op1])))"
    if "P (r @ [op1])" for P
    by (rule js_sat_try_free [where ?d1.0 = 0 and Q = "\<lambda>_. True"])
      (use that js_sat_realloc js_sat_return in auto)
  ultimately show ?thesis using False assms by (simp add: normal_snoc sval_snoc)
qed

end
