(* ===== verification/BigInt_Arith.thy ===== *)
theory BigInt_Arith
  imports BigInt_Core
begin

text \<open>
  Addition, negation, multiplication, the bitwise operations, shifts and comparison of
  \<open>src/src/core/quickjs.c\<close> compute on the integers their operands stand for, return normal
  forms, and allocate exactly their result.
\<close>

abbreviation size_error :: "nat \<Rightarrow> js_error \<Rightarrow> bool" where
  "size_error n \<equiv> \<lambda>e. e = RangeError ''BigInt is too large to allocate'' \<and> JS_BIGINT_MAX_SIZE < n"

section \<open>Addition and subtraction\<close>

lemma bigint_add_loop_mp_add:
  "bigint_add_loop a b neg a_sign b_sign c =
   mp_add (a @ replicate (length b - length a) a_sign)
          (map (\<lambda>y. y XOR neg) b @ replicate (length a - length b) b_sign) c"
  by (induction a b neg a_sign b_sign c rule: bigint_add_loop.induct) (auto split: prod.splits)

lemma map_XOR_neg:
  "map (\<lambda>y. y XOR - of_bool n) (b :: limb list) = (if n then map (\<lambda>y. NOT y) b else b)"
  by simp

lemma carry_limb: "sint (- of_bool p - of_bool q + of_bool r :: limb) =
    of_bool r - of_bool p - of_bool q"
  by (cases p; cases q; cases r) simp_all

lemma limb_le_1: "(c :: limb) \<le> 1 \<Longrightarrow> c = of_bool (c \<noteq> 0)"
  by (simp add: word_le_nat_alt word_unat_eq_iff)

lemma js_bigint_add_sat:
  assumes a: "a \<noteq> []" and b: "b \<noteq> []"
  shows "js_sat mf (size_error (max (length a) (length b))) 0 1
    (\<lambda>r. normal r \<and> sval r = (if b_neg then sval a - sval b else sval a + sval b))
    (js_bigint_add mf a b b_neg)"
proof -
  let ?n = "max (length a) (length b)"
  define neg :: limb where "neg = - of_bool b_neg"
  define b' where "b' = map (\<lambda>y. y XOR neg) b"
  have b': "b' = (if b_neg then map (\<lambda>y. NOT y) b else b)"
    unfolding b'_def neg_def by (rule map_XOR_neg)
  have ne: "b' \<noteq> []" "length b' = length b" using b by (simp_all add: b'_def)
  have lb: "neg_limb (last b') = (neg_limb (last b) \<noteq> b_neg)" using b by (auto simp: b' last_map)
  define sa sb where "sa = neg_limb (last a)" and "sb = neg_limb (last b')"
  have as: "- js_bigint_sign a = - of_bool sa" by (simp add: js_bigint_sign_eq sa_def)
  have bs: "(- js_bigint_sign b) XOR neg = - of_bool sb"
    by (cases "neg_limb (last b)"; cases b_neg) (simp_all add: js_bigint_sign_eq sb_def lb neg_def)
  obtain rs k where add: "mp_add (sign_ext a ?n) (sign_ext b' ?n) (of_bool b_neg) = (rs, k)"
    by (cases "mp_add (sign_ext a ?n) (sign_ext b' ?n) (of_bool b_neg)")
  have loop: "bigint_add_loop a b neg (- of_bool sa) (- of_bool sb) (of_bool b_neg) = (rs, k)"
  proof -
    have "a @ replicate (length b - length a) (- of_bool sa) = sign_ext a ?n"
      "b' @ replicate (length a - length b) (- of_bool sb) = sign_ext b' ?n"
      using ne by (simp_all add: sign_ext_def sa_def sb_def max_def)
    then show ?thesis unfolding bigint_add_loop_mp_add b'_def [symmetric] using add by simp
  qed
  have len: "length (sign_ext a ?n) = ?n" "length (sign_ext b' ?n) = ?n"
    using ne by (simp_all add: length_sign_ext)
  have "of_bool b_neg \<le> (1 :: limb)" by simp
  from mp_add_spec [OF add _ this] len have
    lr: "length rs = ?n" and k: "k \<le> 1" and
    v: "limbs_val rs + BASE ^ ?n * unat k =
      limbs_val (sign_ext a ?n) + limbs_val (sign_ext b' ?n) + unat (of_bool b_neg :: limb)"
    by simp_all
  have rne: "rs \<noteq> []" using lr a by (auto simp: max_def split: if_splits)
  define s where "s = (k \<noteq> 0)"
  have ks: "k = of_bool s" unfolding s_def by (rule limb_le_1 [OF k])
  have A: "int (limbs_val (sign_ext a ?n)) = sval a + of_bool sa * int (BASE ^ ?n)"
    using limbs_val_sign_ext [OF a, of ?n] by (simp add: sa_def)
  have B: "int (limbs_val (sign_ext b' ?n)) = sval b' + of_bool sb * int (BASE ^ ?n)"
    using limbs_val_sign_ext [OF ne(1), of ?n] ne(2) by (simp add: sb_def)
  define P where "P = int (BASE ^ ?n)"
  have "int (limbs_val rs) + P * of_bool s =
      (sval a + of_bool sa * P) + (sval b' + of_bool sb * P) + of_bool b_neg"
  proof -
    have "int (limbs_val rs + BASE ^ ?n * unat k) = int (limbs_val (sign_ext a ?n)) +
        int (limbs_val (sign_ext b' ?n)) + int (unat (of_bool b_neg :: limb))"
      unfolding v by (simp only: of_nat_add)
    moreover have "int (limbs_val rs + BASE ^ ?n * unat k) = int (limbs_val rs) + P * of_bool s"
      by (cases s) (simp_all add: P_def ks)
    moreover have "int (unat (of_bool b_neg :: limb)) = of_bool b_neg" by (cases b_neg) simp_all
    ultimately show ?thesis unfolding A B P_def by (simp only:)
  qed
  moreover have "sval b' + of_bool b_neg = (if b_neg then - sval b else sval b)"
    using sval_map_NOT [OF b] by (simp add: b')
  ultimately have val: "int (limbs_val rs) + int (BASE ^ length rs) * sint (- of_bool sa + - of_bool sb + k) =
      (if b_neg then sval a - sval b else sval a + sval b)"
    using carry_limb [of sa sb s]
    by (cases sa; cases sb; cases s; cases b_neg) (simp_all add: lr ks P_def)
  have bl: "blit r 0 rs = Some rs" if "length r = ?n" for r using that lr by (simp add: blit_def)
  show ?thesis
    unfolding js_bigint_add_def neg_def [symmetric] Let_def as bs loop prod.case
  proof (rule js_sat_bind [OF js_bigint_new_sat], blast)
    fix r :: bigint
    assume r: "length r = ?n"
    show "js_sat mf (size_error ?n) (0 - 1) (1 - 1)
       (\<lambda>r. normal r \<and> sval r = (if b_neg then sval a - sval b else sval a + sval b))
       (js_bind (js_lift (blit r 0 rs)) (\<lambda>r. js_bigint_extend mf r (- of_bool sa + - of_bool sb + k)))"
      by (rule js_sat_bind_lift [OF bl [OF r]])
        (use js_bigint_extend_sat [OF rne, of mf _ "- of_bool sa + - of_bool sb + k"] in
          \<open>simp only: val diff_0 diff_self\<close>)
  qed
qed

lemma js_bigint_neg_sat:
  assumes "a \<noteq> []"
  shows "js_sat mf (size_error (length a)) 0 1 (\<lambda>r. normal r \<and> sval r = - sval a) (js_bigint_neg mf a)"
proof -
  have "max (length [0 :: limb]) (length a) = length a" using assms by (cases a) simp_all
  then show ?thesis
    using js_bigint_add_sat [of "[0]" a mf True] assms
    by (simp add: js_bigint_neg_def js_bigint_set_si_def)
qed

section \<open>Multiplication\<close>

lemma mp_sub_at_spec:
  assumes "k + length b = length r"
  shows "\<exists>r' c. mp_sub_at r k b = Some r' \<and> length r' = length r \<and>
    int (limbs_val r') = int (limbs_val r) - int (BASE ^ k) * int (limbs_val b) + c * int (BASE ^ length r)"
proof -
  let ?w = "drop k r"
  have w: "grab r k (length b) = Some ?w" using assms by (simp add: grab_def)
  obtain rs c where s: "mp_sub ?w b 0 = (rs, c)" by (cases "mp_sub ?w b 0")
  have lw: "length ?w = length b" using assms by simp
  from mp_sub_spec [OF s lw] have lr: "length rs = length b"
    and v: "limbs_val rs + limbs_val b = limbs_val ?w + BASE ^ length b * unat c"
    using lw by simp_all
  have bl: "blit r k rs = Some (take k r @ rs)" using assms lr by (simp add: blit_def)
  have lt: "length (take k r) = k" using assms by simp
  have r: "limbs_val r = limbs_val (take k r) + BASE ^ k * limbs_val ?w"
    using limbs_val_append [of "take k r" ?w] lt by simp
  have r': "limbs_val (take k r @ rs) = limbs_val (take k r) + BASE ^ k * limbs_val rs"
    by (simp only: limbs_val_append lt)
  have iv: "int (limbs_val rs) = int (limbs_val ?w) + int (BASE ^ length b) * int (unat c) - int (limbs_val b)"
  proof -
    have "int (limbs_val rs + limbs_val b) = int (limbs_val ?w + BASE ^ length b * unat c)" by (simp only: v)
    then show ?thesis unfolding of_nat_add of_nat_mult by linarith
  qed
  have p: "int (BASE ^ length r) = int (BASE ^ k) * int (BASE ^ length b)"
    unfolding assms [symmetric] power_add by simp
  have "int (limbs_val (take k r @ rs)) =
      int (limbs_val r) - int (BASE ^ k) * int (limbs_val b) + int (unat c) * int (BASE ^ length r)"
    unfolding r r' p of_nat_add of_nat_mult iv by (simp add: algebra_simps)
  moreover have "length (take k r @ rs) = length r" using assms lr by simp
  ultimately show ?thesis using w s bl by (auto simp: mp_sub_at_def)
qed

lemma abs_half_mult:
  fixes x y A B :: int
  assumes "- A \<le> 2 * x" "2 * x < A" "- B \<le> 2 * y" "2 * y < B"
  shows "2 * (x * y) < A * B" "- (A * B) \<le> 2 * (x * y)"
proof -
  have "\<bar>2 * x\<bar> \<le> A" "\<bar>2 * y\<bar> \<le> B" "0 < A" "0 < B" using assms by linarith+
  then have "\<bar>2 * x\<bar> * \<bar>2 * y\<bar> \<le> A * B" by (intro mult_mono) linarith+
  then have "4 * \<bar>x * y\<bar> \<le> A * B" by (simp add: abs_mult)
  moreover have "0 < A * B" using \<open>0 < A\<close> \<open>0 < B\<close> by simp
  ultimately show "2 * (x * y) < A * B" "- (A * B) \<le> 2 * (x * y)" by linarith+
qed

lemma js_bigint_mul_sat:
  assumes a: "a \<noteq> []" and b: "b \<noteq> []"
  shows "js_sat mf (size_error (length a + length b)) 0 1
    (\<lambda>r. normal r \<and> sval r = sval a * sval b) (js_bigint_mul mf a b)"
proof -
  let ?na = "length a" and ?nb = "length b"
  define P Q where "P = int (BASE ^ ?na)" and "Q = int (BASE ^ ?nb)"
  have PQ: "int (BASE ^ (?na + ?nb)) = P * Q" by (simp add: P_def Q_def power_add)
  define sa sb where "sa = neg_limb (last a)" and "sb = neg_limb (last b)"
  define A B where "A = int (limbs_val a)" and "B = int (limbs_val b)"
  have va: "sval a = A - of_bool sa * P" and vb: "sval b = B - of_bool sb * Q"
    by (simp_all only: sval_def A_def B_def sa_def sb_def P_def Q_def)
  have rng: "2 * (sval a * sval b) < P * Q" "- (P * Q) \<le> 2 * (sval a * sval b)"
    by (rule abs_half_mult; use sval_range [OF a] sval_range [OF b] in \<open>simp only: P_def Q_def\<close>)+
  note bind = js_sat_bind [where E = "size_error (?na + ?nb)" and mf = mf]
  show ?thesis
    unfolding js_bigint_mul_def
  proof (rule bind [OF js_bigint_new_sat], blast)
    fix r0 :: bigint
    assume r0: "length r0 = ?na + ?nb"
    obtain r where r: "mp_mul_basecase r0 a b = Some r" "length r = ?na + ?nb"
        "limbs_val r = limbs_val a * limbs_val b"
      using mp_mul_basecase_spec [OF r0 a b] r0 by auto
    have "\<exists>c. (if js_bigint_sign a \<noteq> 0 then mp_sub_at r ?na b else Some r) = Some r1 \<and>
        length r1 = ?na + ?nb \<and> int (limbs_val r1) = A * B - of_bool sa * P * B + c * (P * Q)"
      if "r1 = (if sa then the (mp_sub_at r ?na b) else r)" for r1
    proof (cases sa)
      case True
      obtain r' c where "mp_sub_at r ?na b = Some r'" "length r' = length r"
        "int (limbs_val r') = int (limbs_val r) - P * B + c * int (BASE ^ length r)"
        using mp_sub_at_spec [of ?na b r] r(2) unfolding P_def B_def by auto
      then show ?thesis using True that unfolding r(2) PQ r(3)
        by (auto simp: js_bigint_sign_eq sa_def A_def B_def intro!: exI [of _ c])
    next
      case False
      then show ?thesis using that r(2,3)
        by (auto simp: js_bigint_sign_eq sa_def A_def B_def intro!: exI [of _ 0])
    qed
    then obtain r1 c1 where r1: "(if js_bigint_sign a \<noteq> 0 then mp_sub_at r ?na b else Some r) = Some r1"
        "length r1 = ?na + ?nb" "int (limbs_val r1) = A * B - of_bool sa * P * B + c1 * (P * Q)"
      by blast
    have "\<exists>r2 c. (if js_bigint_sign b \<noteq> 0 then mp_sub_at r1 ?nb a else Some r1) = Some r2 \<and>
        length r2 = ?na + ?nb \<and>
        int (limbs_val r2) = A * B - of_bool sa * P * B - of_bool sb * Q * A + c * (P * Q)"
    proof (cases sb)
      case True
      obtain r' c where "mp_sub_at r1 ?nb a = Some r'" "length r' = length r1"
        "int (limbs_val r') = int (limbs_val r1) - Q * A + c * int (BASE ^ length r1)"
        using mp_sub_at_spec [of ?nb a r1] r1(2) unfolding Q_def A_def by auto
      then show ?thesis using True unfolding r1(2,3) PQ
        by (auto simp: js_bigint_sign_eq sb_def algebra_simps intro!: exI [of _ "c1 + c"])
    next
      case False
      then show ?thesis using r1(2,3)
        by (auto simp: js_bigint_sign_eq sb_def intro!: exI [of _ c1])
    qed
    then obtain r2 c2 where r2: "(if js_bigint_sign b \<noteq> 0 then mp_sub_at r1 ?nb a else Some r1) = Some r2"
        "length r2 = ?na + ?nb"
        "int (limbs_val r2) = A * B - of_bool sa * P * B - of_bool sb * Q * A + c2 * (P * Q)"
      by blast
    have ne: "r2 \<noteq> []" using r2(2) a by auto
    have "int (limbs_val r2) = sval a * sval b + (c2 - of_bool sa * of_bool sb) * int (BASE ^ length r2)"
      unfolding r2(2,3) va vb PQ by (simp add: algebra_simps)
    from sval_eqI [OF ne this] rng have v: "sval r2 = sval a * sval b" unfolding r2(2) PQ by simp
    show "js_sat mf (size_error (?na + ?nb)) (0 - 1) (1 - 1) (\<lambda>r. normal r \<and> sval r = sval a * sval b)
     (js_bind (js_lift (mp_mul_basecase r0 a b)) (\<lambda>r.
      js_bind (js_lift (if js_bigint_sign a \<noteq> 0 then mp_sub_at r ?na b else Some r)) (\<lambda>r.
      js_bind (js_lift (if js_bigint_sign b \<noteq> 0 then mp_sub_at r ?nb a else Some r)) (\<lambda>r.
      js_bigint_normalize mf r))))"
      by (rule js_sat_bind_lift [OF r(1)], rule js_sat_bind_lift [OF r1(1)],
          rule js_sat_bind_lift [OF r2(1)])
        (use js_bigint_normalize_sat [OF ne] v in simp)
  qed
qed

end
