(* ===== verification/BigInt_Bits.thy ===== *)
theory BigInt_Bits
  imports BigInt_Arith
begin

text \<open>
  The bitwise operations and the shifts of BigInt values: they are the operations of
  two's complement integers of unbounded width.
\<close>

section \<open>And, or, xor, not\<close>

fun logic_int :: "logic_op \<Rightarrow> int \<Rightarrow> int \<Rightarrow> int" where
  "logic_int OP_or x y = x OR y"
| "logic_int OP_and x y = x AND y"
| "logic_int OP_xor x y = x XOR y"

fun logic_bool :: "logic_op \<Rightarrow> bool \<Rightarrow> bool \<Rightarrow> bool" where
  "logic_bool OP_or p q = (p \<or> q)"
| "logic_bool OP_and p q = (p \<and> q)"
| "logic_bool OP_xor p q = (p \<noteq> q)"

lemma bit_logic_int: "bit (logic_int op1 x y) n = logic_bool op1 (bit x n) (bit y n)"
  by (cases op1) (simp_all add: bit_simps)

lemma bit_logic_limb: "n < 64 \<Longrightarrow> bit (logic_limb op1 x y) n = logic_bool op1 (bit x n) (bit y n)"
  by (cases op1) (simp_all add: bit_simps)

lemma bit_sint_limb: "bit (sint (x :: limb)) n = bit x (min n 63)"
proof (cases "n \<le> 63")
  case True
  then show ?thesis by (simp add: bit_sint_iff min_def)
next
  case False
  then have "\<not> bit x n" using bit_imp_le_length [of x n] by auto
  then show ?thesis using False by (simp add: bit_sint_iff min_def)
qed

lemma sint_logic_limb: "sint (logic_limb op1 x y) = logic_int op1 (sint x) (sint y)"
proof (rule bit_eqI)
  fix n
  show "bit (sint (logic_limb op1 x y)) n = bit (logic_int op1 (sint x) (sint y)) n"
    by (simp only: bit_logic_int bit_sint_limb) (rule bit_logic_limb, simp)
qed

lemma sval_Cons: "a \<noteq> [] \<Longrightarrow> sval (x # a) = uint x + 2 ^ 64 * sval a"
  by (simp add: sval_def BASE_def algebra_simps)

lemma bit_concat_limb:
  "bit (uint (x :: limb) + 2 ^ 64 * s) n = (if n < 64 then bit x n else bit s (n - 64))"
proof -
  have "take_bit 64 (uint x) = uint x"
    by (rule take_bit_int_eq_self) (use uint_lt2p [of x] in simp_all)
  then have "uint x + 2 ^ 64 * s = take_bit 64 (uint x) + push_bit 64 s"
    by (simp only: push_bit_eq_mult mult.commute)
  also have "\<dots> = take_bit 64 (uint x) OR push_bit 64 s"
    by (rule disjunctive_add_eq_or) (auto simp: bit_eq_iff bit_simps)
  finally show ?thesis by (auto simp: bit_simps)
qed

lemma logic_concat:
  "uint (logic_limb op1 x y) + 2 ^ 64 * logic_int op1 s t =
   logic_int op1 (uint x + 2 ^ 64 * s) (uint y + 2 ^ 64 * t)"
proof (rule bit_eqI)
  fix n
  show "bit (uint (logic_limb op1 x y) + 2 ^ 64 * logic_int op1 s t) n =
    bit (logic_int op1 (uint x + 2 ^ 64 * s) (uint y + 2 ^ 64 * t)) n"
    by (cases "n < 64") (simp_all only: bit_concat_limb bit_logic_int bit_logic_limb if_True if_False)
qed

lemma sval_map2_logic:
  assumes "length a = length b" "a \<noteq> []"
  shows "sval (map2 (logic_limb op1) a b) = logic_int op1 (sval a) (sval b)"
  using assms
proof (induction a b rule: list_induct2)
  case (Cons x xs y ys)
  show ?case
  proof (cases "xs = []")
    case True
    then show ?thesis using Cons.hyps by (simp add: sint_logic_limb)
  next
    case False
    then have "ys \<noteq> []" "map2 (logic_limb op1) xs ys \<noteq> []" using Cons.hyps by (cases ys; cases xs; simp)+
    then show ?thesis using False Cons.IH
      by (simp only: list.map zip_Cons_Cons prod.case sval_Cons logic_concat simp_thms)
  qed
qed simp

lemma logic_loop_map2:
  "length b \<le> length a \<Longrightarrow>
   logic_loop op1 a b s = map2 (logic_limb op1) a (b @ replicate (length a - length b) s)"
  by (induction op1 a b s rule: logic_loop.induct) simp_all

lemma logic_int_commute: "logic_int op1 x y = logic_int op1 y x"
  by (cases op1) (simp_all add: ac_simps)

lemma js_bigint_logic_sat:
  assumes "a \<noteq> []" "b \<noteq> []"
  shows "js_sat mf (size_error (max (length a) (length b))) 0 1
    (\<lambda>r. normal r \<and> sval r = logic_int op1 (sval a) (sval b)) (js_bigint_logic mf a b op1)"
proof -
  define x y where "x = (if length a < length b then b else a)"
    and "y = (if length a < length b then a else b)"
  have xy: "(if length a < length b then (b, a) else (a, b)) = (x, y)" by (simp add: x_def y_def)
  have ne: "x \<noteq> []" "y \<noteq> []" "length y \<le> length x" "length x = max (length a) (length b)"
    using assms by (simp_all add: x_def y_def)
  have v: "logic_int op1 (sval x) (sval y) = logic_int op1 (sval a) (sval b)"
    by (simp add: x_def y_def logic_int_commute)
  define t where "t = logic_loop op1 x y (- js_bigint_sign y)"
  have t: "t = map2 (logic_limb op1) x (sign_ext y (length x))"
    using ne by (simp add: t_def logic_loop_map2 sign_ext_def js_bigint_sign_eq)
  have lt: "length t = length x" using ne(2,3) by (simp add: t)
  then have tne: "t \<noteq> []" using ne(1) by auto
  have "sval t = logic_int op1 (sval a) (sval b)"
    unfolding t using sval_map2_logic [of x "sign_ext y (length x)"] ne(1,2) v
    by (simp add: ne(3))
  then have n: "js_sat mf E de 0 (\<lambda>r. normal r \<and> sval r = logic_int op1 (sval a) (sval b))
      (js_bigint_normalize mf t)" for E de
    using js_bigint_normalize_sat [OF tne] by simp
  show ?thesis
    unfolding js_bigint_logic_def xy Let_def prod.case t_def [symmetric] ne(4)
  proof (rule js_sat_bind [OF js_bigint_new_sat], blast)
    fix r :: bigint
    assume "length r = max (length a) (length b)"
    then have "blit r 0 t = Some t" using lt ne(4) by (simp add: blit_def)
    then show "js_sat mf (size_error (max (length a) (length b))) (0 - 1) (1 - 1)
        (\<lambda>r. normal r \<and> sval r = logic_int op1 (sval a) (sval b))
        (js_bind (js_lift (blit r 0 t)) (js_bigint_normalize mf))"
      by (rule js_sat_bind_lift) (use n [of "size_error (max (length a) (length b))" "- 1"] in simp)
  qed
qed

lemma NOT_sval: "a \<noteq> [] \<Longrightarrow> sval (map (\<lambda>x. NOT x) a) = NOT (sval a)"
  using sval_map_NOT [of a] not_eq_complement [of "sval a"] by linarith

lemma normal_map_NOT:
  assumes "normal a"
  shows "normal (map (\<lambda>x. NOT x) a)"
proof (cases a rule: rev_cases)
  case (snoc xs x)
  have "NOT x = y \<longleftrightarrow> x = NOT y" for y by (metis bit.double_compl)
  from this [of 0] this [of "- 1"] have "NOT x = 0 \<longleftrightarrow> x = - 1" "NOT x = - 1 \<longleftrightarrow> x = 0"
    by simp_all
  then have "redundant (NOT x) (NOT y) \<longleftrightarrow> redundant x y" for y
    by (cases "neg_limb y") (simp_all add: redundant_def)
  then show ?thesis using assms snoc by (auto simp: normal_snoc last_map)
qed (use assms in simp)

lemma js_bigint_not_sat:
  assumes "normal a"
  shows "js_sat mf (size_error (length a)) 0 1 (\<lambda>r. normal r \<and> sval r = NOT (sval a))
    (js_bigint_not mf a)"
  unfolding js_bigint_not_def
proof (rule js_sat_bind [OF js_bigint_new_sat], blast)
  fix r :: bigint
  assume "length r = length a"
  then show "js_sat mf (size_error (length a)) (0 - 1) (1 - 1) (\<lambda>r. normal r \<and> sval r = NOT (sval a))
      (js_lift (blit r 0 (map (\<lambda>x. NOT x) a)))"
    using assms NOT_sval [of a] normal_map_NOT [of a]
    by (simp add: js_sat_lift blit_def)
qed

section \<open>Shifts\<close>

lemma sval_zeros_append: "a \<noteq> [] \<Longrightarrow> sval (replicate d 0 @ a) = int (BASE ^ d) * sval a"
  by (simp add: sval_def limbs_val_append power_add algebra_simps)

lemma normal_zeros_append:
  assumes "normal a" "a \<noteq> [0]"
  shows "normal (replicate d 0 @ a)"
proof (cases a rule: rev_cases)
  case (snoc xs x)
  show ?thesis
  proof (cases "xs = []")
    case True
    then have "x \<noteq> 0" using assms snoc by simp
    then have "normal ((replicate d 0) @ [x])"
      by (auto simp: normal_snoc redundant_def)
    then show ?thesis using snoc True by simp
  next
    case False
    then have "normal ((replicate d 0 @ xs) @ [x])"
      using assms(1) unfolding snoc normal_snoc by simp
    then show ?thesis using snoc by simp
  qed
qed (use assms in simp)

lemma sint_shl_top:
  assumes "unat h < 2 ^ s" "s < 64" "0 < s"
  shows "sint (if p then h OR push_bit s (- 1) else h :: limb) = int (unat h) - of_bool p * 2 ^ s"
proof -
  have s: "2 ^ s \<le> (2 :: nat) ^ 63" by (rule power_increasing) (use assms in simp_all)
  have neg: "\<not> neg_limb h" using assms(1) s by (simp add: neg_limb_def)
  have m: "unat (push_bit s (- 1) :: limb) = BASE - 2 ^ s"
  proof -
    have "(push_bit s (- 1) :: limb) = - (2 ^ s)" by (simp add: push_bit_eq_mult)
    also have "unat (- (2 ^ s) :: limb) = BASE - 2 ^ s"
    proof -
      have "unat (2 ^ s :: limb) = 2 ^ s"
        using s unat_push_bit_mult [of "1 :: limb" s] by (simp add: push_bit_eq_mult)
      moreover from this have "unat (2 ^ s - 1 :: limb) = 2 ^ s - 1"
        by (subst unat_sub_le) (simp_all add: word_le_nat_alt)
      moreover have "- (2 ^ s) = NOT (2 ^ s - 1 :: limb)" by (simp add: not_eq_complement)
      ultimately show ?thesis by (simp add: unat_not_limb)
    qed
    finally show ?thesis .
  qed
  show ?thesis
  proof (cases p)
    case False
    then show ?thesis using neg by (simp only: sint_limb) simp
  next
    case True
    have "h OR push_bit s (- 1) = h + push_bit s (- 1)" by (rule or_high_low [OF assms(1)])
    moreover have "unat (h + push_bit s (- 1)) = unat h + (BASE - 2 ^ s)"
      unfolding m [symmetric] by (rule unat_add_no_wrap) (use assms(1) s in \<open>simp only: m\<close>, simp add: BASE_def)
    moreover have "2 ^ s \<le> BASE" using s by (simp add: BASE_double)
    moreover have "neg_limb (h + push_bit s (- 1))"
      unfolding neg_limb_def calculation(2) using s by (simp add: BASE_double)
    ultimately show ?thesis using True by (simp only: sint_limb) (simp add: of_nat_diff)
  qed
qed

lemma shl_amount: "(2 :: int) ^ n = int (BASE ^ (n div 64)) * 2 ^ (n mod 64)"
proof -
  have "n = 64 * (n div 64) + n mod 64" by simp
  then have "(2 :: int) ^ n = (2 ^ 64) ^ (n div 64) * 2 ^ (n mod 64)"
    by (metis power_add power_mult)
  then show ?thesis by (simp add: BASE_def)
qed

lemma js_bigint_shl_sat:
  assumes "normal a"
  shows "js_sat mf (size_error (length a + unat n div 64)) 0 1
    (\<lambda>r. normal r \<and> sval r = sval a * 2 ^ unat n) (js_bigint_shl mf a n)"
proof (cases "length a = 1 \<and> hd a = 0")
  case True
  then have a: "a = [0]" by (cases a) auto
  show ?thesis
    using js_sat_mono [OF js_bigint_new_si_sat [of mf "\<lambda>_. False" 0], where P' = "\<lambda>r. normal r \<and> sval r = sval a * 2 ^ unat n"]
    using True by (auto simp: js_bigint_shl_def a)
next
  case False
  have ne: "a \<noteq> []" "a \<noteq> [0]" using assms False by auto
  let ?d = "unat n div 64" and ?s = "unat n mod 64" and ?m = "length a"
  let ?E = "size_error (?m + ?d)" and ?Q = "\<lambda>r. normal r \<and> sval r = sval a * 2 ^ unat n"
  have pow: "sval a * 2 ^ unat n = int (BASE ^ ?d) * (sval a * 2 ^ ?s)"
    unfolding shl_amount [of "unat n"] by simp
  have "js_sat mf ?E (- 1) 0 ?Q
      (if ?s = 0 then js_lift (blit r ?d a)
       else let (tab, l) = mp_shl a ?s; l = if js_bigint_sign a \<noteq> 0 then l OR push_bit ?s (- 1) else l
            in js_bind (js_lift (blit r ?d tab)) (\<lambda>r. js_bigint_extend mf r l))"
    if r: "length r = ?m + ?d" "take ?d r = replicate ?d 0" for r
  proof (cases "?s = 0")
    case True
    have "blit r ?d a = Some (replicate ?d 0 @ a)" using r by (simp add: blit_def)
    moreover have "?Q (replicate ?d 0 @ a)"
      using sval_zeros_append [OF ne(1), of ?d] normal_zeros_append [OF assms ne(2), of ?d] True
      unfolding pow by simp
    ultimately show ?thesis using True by (simp add: js_sat_lift)
  next
    case s: False
    obtain tab h where sh: "mp_shl a ?s = (tab, h)" by (cases "mp_shl a ?s")
    have s64: "?s < 64" "0 < ?s" using s by simp_all
    note spec = mp_shl_spec [OF sh s64]
    define p where "p = neg_limb (last a)"
    define l where "l = (if p then h OR push_bit ?s (- 1) else h)"
    have l: "sint l = int (unat h) - of_bool p * 2 ^ ?s"
      unfolding l_def by (rule sint_shl_top [OF spec(2) s64])
    let ?t = "replicate ?d 0 @ tab"
    have bl: "blit r ?d tab = Some ?t" using r spec(1) by (simp add: blit_def)
    have v: "int (limbs_val ?t) + int (BASE ^ length ?t) * sint l = sval a * 2 ^ unat n"
    proof -
      have "int (limbs_val tab) + int (BASE ^ ?m) * int (unat h) = int (limbs_val a) * 2 ^ ?s"
      proof -
        have "int (limbs_val tab + BASE ^ ?m * unat h) = int (limbs_val a * 2 ^ ?s)" by (simp only: spec(3))
        then show ?thesis by (simp only: of_nat_add of_nat_mult of_nat_power of_nat_numeral)
      qed
      then have "int (limbs_val tab) + int (BASE ^ ?m) * sint l = sval a * 2 ^ ?s"
        unfolding l by (simp only: sval_def p_def) (simp only: algebra_simps)
      moreover have "int (limbs_val ?t) + int (BASE ^ length ?t) * sint l =
          int (BASE ^ ?d) * (int (limbs_val tab) + int (BASE ^ ?m) * sint l)"
        by (simp add: limbs_val_append power_add spec(1) distrib_left mult.assoc)
      ultimately show ?thesis unfolding pow by (simp only:)
    qed
    have tne: "?t \<noteq> []" using spec(1) ne(1) by auto
    have "js_bigint_sign a \<noteq> 0 \<longleftrightarrow> p" by (simp add: js_bigint_sign_eq p_def)
    then have "(if ?s = 0 then js_lift (blit r ?d a)
       else let (tab, l) = mp_shl a ?s; l = if js_bigint_sign a \<noteq> 0 then l OR push_bit ?s (- 1) else l
            in js_bind (js_lift (blit r ?d tab)) (\<lambda>r. js_bigint_extend mf r l)) =
      js_bind (js_lift (blit r ?d tab)) (\<lambda>r. js_bigint_extend mf r l)"
      using s by (simp add: sh l_def)
    moreover have "js_sat mf ?E (- 1) 0 ?Q (js_bigint_extend mf ?t l)"
      using js_bigint_extend_sat [OF tne, of mf ?E l] by (simp only: v)
    ultimately show ?thesis by (simp only: js_sat_bind_lift [OF bl])
  qed
  note rest = this
  have eq: "js_bigint_shl mf a n =
      js_bind (js_bigint_new mf (?m + ?d)) (\<lambda>r.
      js_bind (js_lift (blit r 0 (replicate ?d 0))) (\<lambda>r.
      if ?s = 0 then js_lift (blit r ?d a)
      else let (tab, l) = mp_shl a ?s; l = if js_bigint_sign a \<noteq> 0 then l OR push_bit ?s (- 1) else l
           in js_bind (js_lift (blit r ?d tab)) (\<lambda>r. js_bigint_extend mf r l)))"
    unfolding js_bigint_shl_def if_not_P [OF False] Let_def JS_LIMB_BITS_def ..
  show ?thesis
    unfolding eq
  proof (rule js_sat_bind [OF js_bigint_new_sat], blast)
    fix r :: bigint
    assume r: "length r = ?m + ?d"
    then have "blit r 0 (replicate ?d 0) = Some (replicate ?d 0 @ drop ?d r)" by (simp add: blit_def)
    then show "js_sat mf ?E (0 - 1) (1 - 1) ?Q
       (js_bind (js_lift (blit r 0 (replicate ?d 0))) (\<lambda>r.
        if ?s = 0 then js_lift (blit r ?d a)
        else let (tab, l) = mp_shl a ?s; l = if js_bigint_sign a \<noteq> 0 then l OR push_bit ?s (- 1) else l
             in js_bind (js_lift (blit r ?d tab)) (\<lambda>r. js_bigint_extend mf r l)))"
      by (rule js_sat_bind_lift) (use rest [of "replicate ?d 0 @ drop ?d r"] r in simp)
  qed
qed

lemma sval_split:
  assumes "d < length a"
  shows "sval a = int (limbs_val (take d a)) + int (BASE ^ d) * sval (drop d a)"
proof -
  have len: "length (take d a) = d" using assms by simp
  have "limbs_val a = limbs_val (take d a) + BASE ^ d * limbs_val (drop d a)"
    using limbs_val_append [of "take d a" "drop d a"] len by simp
  moreover have "BASE ^ length a = BASE ^ d * BASE ^ length (drop d a)"
    unfolding power_add [symmetric] using assms by simp
  moreover have "last (drop d a) = last a" using assms by simp
  ultimately show ?thesis unfolding sval_def by (simp only: of_nat_add of_nat_mult) (simp add: algebra_simps)
qed

lemma sval_drop: "d < length a \<Longrightarrow> sval (drop d a) = sval a div int (BASE ^ d)"
proof -
  assume d: "d < length a"
  define P where "P = int (BASE ^ d)"
  define l where "l = int (limbs_val (take d a))"
  have "l < P" "0 \<le> l"
    using limbs_val_less [of "take d a"] d by (simp_all add: P_def l_def)
  then have "(l + P * sval (drop d a)) div P = sval (drop d a)" by simp
  then show ?thesis unfolding sval_split [OF d] P_def l_def ..
qed

lemma normal_drop: "normal a \<Longrightarrow> d < length a \<Longrightarrow> normal (drop d a)"
  by (cases a rule: rev_cases) (auto simp: normal_snoc last_drop)

lemma div_pow_between:
  fixes x :: int
  shows "0 \<le> x \<Longrightarrow> 0 \<le> x div 2 ^ s \<and> x div 2 ^ s \<le> x" "x < 0 \<Longrightarrow> x \<le> x div 2 ^ s \<and> x div 2 ^ s < 0"
proof -
  assume "0 \<le> x"
  then have "x div 2 ^ s \<le> x div 1" "0 \<le> x div 2 ^ s"
    by (intro zdiv_mono2, simp_all add: pos_imp_zdiv_nonneg_iff)
  then show "0 \<le> x div 2 ^ s \<and> x div 2 ^ s \<le> x" by simp
next
  assume x: "x < 0"
  have "x * 2 ^ s \<le> x * 1" by (rule mult_left_mono_neg) (use x in simp_all)
  then have "x * 2 ^ s div 2 ^ s \<le> x div 2 ^ s" by (intro zdiv_mono1) simp_all
  then have "x \<le> x div 2 ^ s" by simp
  moreover have "x div 2 ^ s < 0" using x by (simp add: pos_imp_zdiv_neg_iff)
  ultimately show "x \<le> x div 2 ^ s \<and> x div 2 ^ s < 0" ..
qed

lemma shr_high:
  assumes r: "limbs_val rs = ((limbs_val w + BASE ^ length w * unat (- of_bool (neg_limb (last w)) :: limb)) div 2 ^ s)
      mod BASE ^ length w"
    and "length rs = length w" "w \<noteq> []" "0 < s" "s < 64"
  shows "sval rs = sval w div 2 ^ s"
proof -
  define B where "B = int (BASE ^ length w)"
  define p :: int where "p = of_bool (neg_limb (last w))"
  define t where "t = (2 :: int) ^ (64 - s)"
  have t: "int BASE = t * 2 ^ s"
    using assms(4,5) by (simp add: t_def BASE_def flip: power_add)
  have w: "int (limbs_val w) = sval w + p * B" by (simp add: sval_def p_def B_def)
  have h: "int (unat (- of_bool (neg_limb (last w)) :: limb)) = p * (int BASE - 1)"
    by (simp add: p_def BASE_def unsigned_minus_1_eq_mask mask_eq_exp_minus_1)
  have "int (limbs_val w + BASE ^ length w * unat (- of_bool (neg_limb (last w)) :: limb)) =
      sval w + (p * B * t) * 2 ^ s"
    unfolding of_nat_add of_nat_mult w h B_def [symmetric] t by (simp add: algebra_simps)
  moreover have "(sval w + (p * B * t) * 2 ^ s) div 2 ^ s = p * B * t + sval w div 2 ^ s"
    by (rule div_mult_self1) simp
  ultimately have "int ((limbs_val w + BASE ^ length w * unat (- of_bool (neg_limb (last w)) :: limb)) div 2 ^ s) =
      p * B * t + sval w div 2 ^ s"
    by (simp only: of_nat_div of_nat_power of_nat_numeral)
  then have "int (limbs_val rs) = (p * B * t + sval w div 2 ^ s) mod B"
    unfolding r by (simp only: of_nat_mod B_def)
  then have v: "int (limbs_val rs) = sval w div 2 ^ s +
      (p * t - (p * B * t + sval w div 2 ^ s) div B) * B"
    using minus_div_mult_eq_mod [of "p * B * t + sval w div 2 ^ s" B]
    by (simp add: algebra_simps)
  have "2 * sval w < B" "- B \<le> 2 * sval w" using sval_range [OF assms(3)] by (simp_all only: B_def)
  moreover have "0 < B" by (simp add: B_def)
  ultimately have "2 * (sval w div 2 ^ s) < B" "- B \<le> 2 * (sval w div 2 ^ s)"
    using div_pow_between [of "sval w" s] by (cases "0 \<le> sval w"; linarith)+
  moreover have ne: "rs \<noteq> []" using assms(2,3) by auto
  moreover have B: "B = int (BASE ^ length rs)" by (simp add: B_def assms(2))
  ultimately show ?thesis
    using sval_eqI [OF ne v [unfolded B]] by (simp only:)
qed

lemma js_bigint_shr_sat:
  assumes "normal a"
  shows "js_sat mf (size_error (length a)) 0 1
    (\<lambda>r. normal r \<and> sval r = sval a div 2 ^ unat n) (js_bigint_shr mf a n)"
proof -
  let ?d = "unat n div 64" and ?s = "unat n mod 64" and ?m = "length a"
  let ?E = "size_error ?m" and ?Q = "\<lambda>r. normal r \<and> sval r = sval a div 2 ^ unat n"
  have ne: "a \<noteq> []" using assms by simp
  have pow: "sval a div 2 ^ unat n = sval a div int (BASE ^ ?d) div 2 ^ ?s"
    unfolding shl_amount [of "unat n"] by (simp add: zdiv_zmult2_eq)
  show ?thesis
  proof (cases "?d \<ge> ?m")
    case True
    have eq: "js_bigint_shr mf a n = js_bigint_new_si mf (- of_bool (neg_limb (last a)))"
      using True by (simp add: js_bigint_shr_def Let_def JS_LIMB_BITS_def js_bigint_sign_eq)
    have "BASE ^ ?m \<le> BASE ^ ?d" using True by (intro power_increasing) (simp_all add: Suc_leI)
    then have B: "int (BASE ^ ?m) \<le> int (BASE ^ ?d)" by (simp only: of_nat_le_iff)
    define D where "D = int (BASE ^ ?d)"
    have rng: "2 * sval a < D" "- D \<le> 2 * sval a"
      using sval_range [OF ne] B unfolding D_def by - linarith+
    have D0: "0 < D" by (simp add: D_def)
    have "sval a div D = - of_bool (neg_limb (last a))"
    proof (cases "neg_limb (last a)")
      case True
      then have "sval a < 0" using sval_nonneg_iff [OF ne] by simp
      then have "sval a div D = - 1" using rng D0 by (intro int_div_pos_eq [where r = "sval a + D"]) simp_all
      then show ?thesis using True by simp
    next
      case False
      then have "0 \<le> sval a" using sval_nonneg_iff [OF ne] by simp
      then show ?thesis using False rng D0 by (simp add: div_pos_pos_trivial)
    qed
    then have "sint (- of_bool (neg_limb (last a)) :: limb) = sval a div 2 ^ unat n"
      unfolding pow D_def [symmetric] by (cases "neg_limb (last a)") (simp_all add: div_eq_minus1)
    then show ?thesis
      unfolding eq by (intro js_sat_mono [OF js_bigint_new_si_sat [where E = "\<lambda>_. False"]]) auto
  next
    case False
    then have d: "?d < ?m" by simp
    define w where "w = drop ?d a"
    have w: "grab a ?d (?m - ?d) = Some w" using d by (simp add: grab_def w_def)
    have lw: "length w = ?m - ?d" "w \<noteq> []" "last w = last a" using d by (simp_all add: w_def)
    have vw: "sval w = sval a div int (BASE ^ ?d)" unfolding w_def by (rule sval_drop [OF d])
    have eq: "js_bigint_shr mf a n = js_bind (js_bigint_new mf (?m - ?d)) (\<lambda>r.
        if ?s = 0 then js_lift (blit r 0 w)
        else js_bind (js_lift (blit r 0 (fst (mp_shr w ?s (- of_bool (neg_limb (last a))))))) (\<lambda>r.
             js_bigint_normalize mf r))"
      unfolding js_bigint_shr_def Let_def JS_LIMB_BITS_def js_bigint_sign_eq if_not_P [OF False]
        w Option.bind.simps ..
    show ?thesis
      unfolding eq
    proof (rule js_sat_bind [OF js_bigint_new_sat])
      show "JS_BIGINT_MAX_SIZE < ?m - ?d \<Longrightarrow>
        RangeError ''BigInt is too large to allocate'' = RangeError ''BigInt is too large to allocate'' \<and>
        JS_BIGINT_MAX_SIZE < ?m" by simp
    next
      fix r :: bigint
      assume r: "length r = ?m - ?d"
      show "js_sat mf ?E (0 - 1) (1 - 1) ?Q
       (if ?s = 0 then js_lift (blit r 0 w)
        else js_bind (js_lift (blit r 0 (fst (mp_shr w ?s (- of_bool (neg_limb (last a))))))) (\<lambda>r.
             js_bigint_normalize mf r))"
      proof (cases "?s = 0")
        case True
        have "blit r 0 w = Some w" using r lw by (simp add: blit_def)
        moreover have "?Q w"
          using vw True normal_drop [OF assms d] unfolding pow w_def by simp
        ultimately show ?thesis using True by (simp add: js_sat_lift)
      next
        case False
        obtain rs h where sh: "mp_shr w ?s (- of_bool (neg_limb (last a))) = (rs, h)"
          by (cases "mp_shr w ?s (- of_bool (neg_limb (last a)))")
        have s64: "?s < 64" "0 < ?s" using False by simp_all
        note spec = mp_shr_spec [OF sh s64]
        have "sval rs = sval w div 2 ^ ?s"
          using shr_high [of rs w ?s] spec(1,2) lw s64 by simp
        then have v: "sval rs = sval a div 2 ^ unat n" unfolding pow vw .
        have rne: "rs \<noteq> []" using spec(1) lw by auto
        have bl: "blit r 0 rs = Some rs" using r lw spec(1) by (simp add: blit_def)
        have "js_sat mf ?E (- 1) 0 ?Q (js_bind (js_lift (blit r 0 rs)) (js_bigint_normalize mf))"
          by (rule js_sat_bind_lift [OF bl]) (use js_bigint_normalize_sat [OF rne] v in simp)
        then show ?thesis using False sh by simp
      qed
    qed
  qed
qed

section \<open>Comparison\<close>

lemma cmp_loop_val:
  assumes "length a = length b"
  shows "bigint_cmp_loop (rev a) (rev b) = sgn (int (limbs_val a) - int (limbs_val b))"
  using assms
proof (induction a arbitrary: b rule: rev_induct)
  case (snoc x xs)
  then obtain ys y where b: "b = ys @ [y]" by (cases b rule: rev_cases) auto
  have len: "length xs = length ys" using snoc.prems b by simp
  define P where "P = BASE ^ length ys"
  have lt: "limbs_val xs < P" "limbs_val ys < P"
    using limbs_val_less [of xs] limbs_val_less [of ys] len by (simp_all add: P_def)
  have v: "limbs_val (xs @ [x]) = limbs_val xs + P * unat x" "limbs_val b = limbs_val ys + P * unat y"
    using len by (simp_all add: b limbs_val_append P_def)
  have cmp: "bigint_cmp_loop (rev (xs @ [x])) (rev b) =
      (if x \<noteq> y then (if x < y then - 1 else 1) else bigint_cmp_loop (rev xs) (rev ys))"
    by (simp add: b)
  have less: "l + P * u < l' + P * u'" if "u < u'" "l < P" for l l' u u' :: nat
  proof -
    have "P * (u + 1) \<le> P * u'" using that(1) by (intro mult_le_mono2) simp
    then show ?thesis using that(2) by simp
  qed
  show ?case
  proof (cases "x = y")
    case True
    then show ?thesis unfolding cmp v using snoc.IH [OF len] by simp
  next
    case False
    then consider "unat x < unat y" | "unat y < unat x" using word_unat_eq_iff [of x y] by linarith
    then show ?thesis
    proof cases
      case 1
      then have "limbs_val (xs @ [x]) < limbs_val b" unfolding v by (rule less [OF _ lt(1)])
      then show ?thesis using 1 False unfolding cmp by (simp add: word_less_nat_alt)
    next
      case 2
      then have "limbs_val b < limbs_val (xs @ [x])" unfolding v by (rule less [OF _ lt(2)])
      then show ?thesis using 2 False unfolding cmp by (simp add: word_less_nat_alt)
    qed
  qed
qed simp

lemma normal_longer:
  assumes "normal a" "b \<noteq> []" "length b < length a"
  shows "if sval a < 0 then sval a < sval b else sval b < sval a"
proof -
  obtain xs x where a: "a = xs @ [x]" using normal_not_empty [OF assms(1)] by (cases a rule: rev_cases) auto
  have l: "length b \<le> length xs" "xs \<noteq> []" using assms(2,3) a by (cases xs; cases b; simp)+
  then have "BASE ^ length b \<le> BASE ^ length xs" by (intro power_increasing) (simp_all add: Suc_leI)
  then have "int (BASE ^ length b) \<le> int (BASE ^ length xs)" by (simp only: of_nat_le_iff)
  then show ?thesis
    using normal_bound [of xs x] assms(1) l(2) sval_range [OF assms(2)] unfolding a
    by (cases "sval (xs @ [x]) < 0"; simp only: if_True if_False; linarith)
qed

lemma js_bigint_cmp_spec:
  assumes a: "normal a" and b: "normal b"
  shows "js_bigint_cmp a b = sgn (sval a - sval b)"
proof -
  have ne: "a \<noteq> []" "b \<noteq> []" using assms by simp_all
  define sa sb where "sa = neg_limb (last a)" and "sb = neg_limb (last b)"
  have neg: "sa \<longleftrightarrow> sval a < 0" "sb \<longleftrightarrow> sval b < 0"
    using sval_nonneg_iff ne by (simp_all add: sa_def sb_def)
  have sg: "uint (js_bigint_sign a) = of_bool sa" "uint (js_bigint_sign b) = of_bool sb"
    by (simp_all add: js_bigint_sign_eq sa_def sb_def)
  consider (sign) "sa \<noteq> sb" | (len) "sa = sb" "length a \<noteq> length b" | (same) "sa = sb" "length a = length b"
    by blast
  then show ?thesis
  proof cases
    case sign
    then show ?thesis unfolding js_bigint_cmp_def Let_def sg using neg by (cases sa; cases sb) auto
  next
    case len
    then show ?thesis unfolding js_bigint_cmp_def Let_def sg
      using neg normal_longer [OF a ne(2)] normal_longer [OF b ne(1)]
      by (cases sa; cases "length a < length b") auto
  next
    case same
    have "int (limbs_val a) - int (limbs_val b) = sval a - sval b"
      using same by (simp add: sval_def sa_def sb_def)
    then show ?thesis unfolding js_bigint_cmp_def Let_def sg
      using same cmp_loop_val [OF same(2)] by simp
  qed
qed

end
