(* ===== verification/BigInt_Div.thy ===== *)
theory BigInt_Div
  imports BigInt_Bits "HOL-Library.Signed_Division"
begin

text \<open>
  Division of BigInt values: \<open>js_bigint_divrem\<close> computes the truncated quotient and the
  remainder with the sign of the dividend, in the presence of every allocation failure.
\<close>

section \<open>Leading zeros and magnitudes\<close>

lemma bit_length_spec: "0 < n \<Longrightarrow> 2 ^ (bit_length n - 1) \<le> n \<and> n < 2 ^ bit_length n \<and> 0 < bit_length n"
proof (induction n rule: less_induct)
  case (less n)
  show ?case
  proof (cases "n = 1")
    case True
    have "bit_length (Suc 0) = 1"
      by (simp add: bit_length.simps [of "Suc 0"] bit_length.simps [of 0])
    then show ?thesis using True by simp
  next
    case False
    then have "0 < n div 2" "n div 2 < n" using less.prems by simp_all
    with less.IH [of "n div 2"] obtain k where k: "bit_length (n div 2) = Suc k"
      "2 ^ k \<le> n div 2" "n div 2 < 2 ^ Suc k"
      by (cases "bit_length (n div 2)") auto
    have "bit_length n = Suc (Suc k)" using less.prems k(1) by (simp add: bit_length.simps [of n])
    moreover define P :: nat where "P = 2 ^ k"
    then have "P \<le> n div 2" "n div 2 < 2 * P" using k(2,3) by simp_all
    then have "2 * P \<le> n" "n < 4 * P" by - linarith+
    ultimately show ?thesis by (simp add: P_def)
  qed
qed

lemma bit_lengthI: "2 ^ k \<le> n \<Longrightarrow> n < 2 ^ Suc k \<Longrightarrow> bit_length n = Suc k"
proof -
  assume a: "2 ^ k \<le> n" "n < 2 ^ Suc k"
  have "0 < n" by (rule less_le_trans [OF _ a(1)]) simp
  note b = bit_length_spec [OF this]
  from a b have "(2 :: nat) ^ k < 2 ^ bit_length n" "(2 :: nat) ^ (bit_length n - 1) < 2 ^ Suc k" by linarith+
  then have "k < bit_length n" "bit_length n - 1 < Suc k" by (simp_all only: power_strict_increasing_iff)
  then show ?thesis by linarith
qed

lemma js_limb_clz_spec:
  assumes "x \<noteq> 0"
  shows "bit_length (unat x) \<le> 64" "js_limb_clz x < 64" "2 ^ 63 \<le> unat x * 2 ^ js_limb_clz x" "(unat x + 1) * 2 ^ js_limb_clz x \<le> BASE"
proof -
  let ?b = "bit_length (unat x)"
  have x0: "0 < unat x" using assms by (simp add: unat_gt_0)
  note b = bit_length_spec [OF x0]
  have "unat x < 2 ^ 64" using unat_limb [of x] by (simp only: BASE_def)
  with b have "(2 :: nat) ^ (?b - 1) < 2 ^ 64" by linarith
  then show le: "?b \<le> 64" using power_less_imp_less_exp [of "2 :: nat" "?b - 1" 64] by simp
  have c: "js_limb_clz x = 64 - ?b" by (simp add: js_limb_clz_def JS_LIMB_BITS_def)
  show "js_limb_clz x < 64" using b le c by simp
  have "(2 :: nat) ^ 63 = 2 ^ (?b - 1) * 2 ^ (64 - ?b)"
    using b le by (simp flip: power_add)
  also have "\<dots> \<le> unat x * 2 ^ (64 - ?b)" using b by (intro mult_le_mono1) simp
  finally show "2 ^ 63 \<le> unat x * 2 ^ js_limb_clz x" unfolding c .
  have "(unat x + 1) * 2 ^ (64 - ?b) \<le> 2 ^ ?b * 2 ^ (64 - ?b)" using b by (intro mult_le_mono1) simp
  also have "\<dots> = BASE" using le by (simp only: BASE_def flip: power_add) simp
  finally show "(unat x + 1) * 2 ^ js_limb_clz x \<le> BASE" unfolding c .
qed

lemma abs_limbs_spec:
  assumes "a \<noteq> []"
  shows "length (abs_limbs a) = length a" "int (limbs_val (abs_limbs a)) = \<bar>sval a\<bar>"
proof -
  obtain rs c where n: "mp_neg a = (rs, c)" by (cases "mp_neg a")
  note spec = mp_neg_spec [OF n]
  show "length (abs_limbs a) = length a" using spec n by (simp add: abs_limbs_def)
  show "int (limbs_val (abs_limbs a)) = \<bar>sval a\<bar>"
  proof (cases "neg_limb (last a)")
    case True
    then have lt: "sval a < 0" using sval_nonneg_iff [OF assms] by simp
    have v: "sval a = int (limbs_val a) - int (BASE ^ length a)" using True by (simp add: sval_def)
    have "limbs_val a \<noteq> 0"
    proof
      assume "limbs_val a = 0"
      then have "2 * (- int (BASE ^ length a)) \<ge> - int (BASE ^ length a)"
        using sval_range(2) [OF assms] v by simp
      then show False by simp
    qed
    then have r: "limbs_val rs = BASE ^ length a - limbs_val a" using spec by simp
    have "int (limbs_val rs) = int (BASE ^ length a) - int (limbs_val a)"
      unfolding r using limbs_val_less [of a] by (intro of_nat_diff) simp
    then have "int (limbs_val rs) = \<bar>sval a\<bar>" using lt v by linarith
    then show ?thesis using True n by (simp add: abs_limbs_def js_bigint_sign_eq)
  next
    case False
    then have "0 \<le> sval a" using sval_nonneg_iff [OF assms] by simp
    then show ?thesis using False by (simp add: abs_limbs_def js_bigint_sign_eq sval_def)
  qed
qed

lemma strip_zeros_spec:
  "1 \<le> l \<Longrightarrow> l \<le> length t \<Longrightarrow>
   1 \<le> strip_zeros t l \<and> strip_zeros t l \<le> l \<and>
   limbs_val (take (strip_zeros t l) t) = limbs_val (take l t) \<and>
   (strip_zeros t l = 1 \<or> t ! (strip_zeros t l - 1) \<noteq> 0)"
proof (induction t l rule: strip_zeros.induct)
  case (3 tab k)
  show ?case
  proof (cases "tab ! Suc k = 0")
    case True
    have "take (Suc (Suc k)) tab = take (Suc k) tab @ [0]"
      using 3(3) True by (simp add: take_Suc_conv_app_nth)
    then have "limbs_val (take (Suc (Suc k)) tab) = limbs_val (take (Suc k) tab)"
      by (simp add: limbs_val_append)
    then show ?thesis using 3(1) [OF True] True 3(3) by simp
  qed simp
qed simp_all

lemma magnitude_bounds:
  assumes "1 \<le> n" "n \<le> length t" "n = 1 \<or> t ! (n - 1) \<noteq> 0" "limbs_val (take n t) \<noteq> 0"
  shows "t ! (n - 1) \<noteq> 0"
    "BASE ^ (n - 1) * unat (t ! (n - 1)) \<le> limbs_val (take n t)"
    "limbs_val (take n t) < BASE ^ (n - 1) * (unat (t ! (n - 1)) + 1)"
proof -
  obtain k where n: "n = Suc k" using assms(1) by (cases n) auto
  have t: "take n t = take k t @ [t ! k]" using assms(2) by (simp add: n take_Suc_conv_app_nth)
  have lk: "length (take k t) = k" using assms(2) n by simp
  have v: "limbs_val (take n t) = limbs_val (take k t) + BASE ^ k * unat (t ! k)"
    unfolding t limbs_val_append lk by simp
  have lt: "limbs_val (take k t) < BASE ^ k" using limbs_val_less [of "take k t"] lk by simp
  show "t ! (n - 1) \<noteq> 0"
  proof
    assume z: "t ! (n - 1) = 0"
    then have "k = 0" using assms(3) n by simp
    then show False using z assms(4) v n by simp
  qed
  show "BASE ^ (n - 1) * unat (t ! (n - 1)) \<le> limbs_val (take n t)" unfolding v by (simp add: n)
  show "limbs_val (take n t) < BASE ^ (n - 1) * (unat (t ! (n - 1)) + 1)"
    unfolding v using lt by (simp add: n)
qed

lemma signed_magnitude:
  assumes "t \<noteq> []" "last t = 0"
  shows "sval (if neg then fst (mp_neg t) else t) = (if neg then - int (limbs_val t) else int (limbs_val t))"
    "length (if neg then fst (mp_neg t) else t) = length t"
proof -
  obtain rs c where n: "mp_neg t = (rs, c)" by (cases "mp_neg t")
  note spec = mp_neg_spec [OF n]
  show len: "length (if neg then fst (mp_neg t) else t) = length t" using spec n by simp
  obtain xs where t: "t = xs @ [0]" using assms by (cases t rule: rev_cases) auto
  define P where "P = int (BASE ^ length xs)"
  have P: "0 < P" by (simp add: P_def)
  have lt: "int (limbs_val t) < P" using limbs_val_less [of xs] by (simp add: t limbs_val_append P_def)
  have B: "int (BASE ^ length t) = 18446744073709551616 * P" by (simp add: t P_def BASE_def)
  show "sval (if neg then fst (mp_neg t) else t) = (if neg then - int (limbs_val t) else int (limbs_val t))"
  proof (cases neg)
    case True
    have ne: "rs \<noteq> []" using spec assms(1) by auto
    have "\<exists>k. int (limbs_val rs) = - int (limbs_val t) + k * int (BASE ^ length rs)"
    proof (cases "limbs_val t = 0")
      case True
      then show ?thesis using spec by (intro exI [of _ 0]) simp
    next
      case False
      then have r: "limbs_val rs = BASE ^ length t - limbs_val t" using spec by simp
      have "int (limbs_val rs) = int (BASE ^ length t) - int (limbs_val t)"
        unfolding r using limbs_val_less [of t] by (intro of_nat_diff) simp
      then show ?thesis using spec by (intro exI [of _ 1]) simp
    qed
    then obtain k where k: "int (limbs_val rs) = - int (limbs_val t) + k * int (BASE ^ length rs)" ..
    have l: "int (BASE ^ length rs) = 18446744073709551616 * P" using spec B by simp
    have "sval rs = - int (limbs_val t)"
      by (rule sval_eqI [OF ne k]; unfold l; use lt P in linarith)
    then show ?thesis using True n by simp
  next
    case False
    have "sval t = int (limbs_val t)"
      by (rule sval_eqI [OF assms(1), of _ 0]; (unfold B)?; use lt P in linarith)
    then show ?thesis using False by simp
  qed
qed

lemma power_of_two_limb:
  assumes "v \<noteq> 0" "v AND (v - 1) = (0 :: limb)"
  shows "unat v = 2 ^ (63 - js_limb_clz v)"
proof -
  define k where "k = bit_length (unat v) - 1"
  have v0: "0 < unat v" using assms(1) by (simp add: unat_gt_0)
  have k: "2 ^ k \<le> unat v" "unat v < 2 ^ Suc k" "63 - js_limb_clz v = k"
    using bit_length_spec [OF v0] js_limb_clz_spec(1) [OF assms(1)]
    by (auto simp: k_def js_limb_clz_def JS_LIMB_BITS_def)
  have top: "bit w k" if "2 ^ k \<le> unat w" "unat w < 2 ^ Suc k" for w :: limb
  proof -
    have "unat w div 2 ^ k = 1" using that by (intro div_nat_eqI) simp_all
    then have "bit (unat w) k" by (simp add: bit_iff_odd)
    then show ?thesis by (simp add: bit_unsigned_iff)
  qed
  have "unat v = 2 ^ k"
  proof (rule ccontr)
    assume "unat v \<noteq> 2 ^ k"
    moreover have "unat (v - 1) = unat v - 1" by (rule unat_minus_one [OF assms(1)])
    ultimately have "bit (v - 1) k" "bit v k" using k(1,2) by (auto intro!: top)
    then have "bit (v AND (v - 1)) k" by (simp add: bit_simps)
    then show False using assms(2) by simp
  qed
  then show ?thesis using k(3) by simp
qed

section \<open>The steps of the division\<close>

lemma divrem_shift_spec:
  assumes na: "1 \<le> na" "na + 1 \<le> length r"
    and b: "tabb \<noteq> []" "last tabb \<noteq> 0"
  defines "s \<equiv> js_limb_clz (last tabb)"
  shows "\<exists>r1 na1 tabb1. divrem_shift s r na tabb = Some (r1, na1, tabb1) \<and>
    length r1 = length r \<and> na \<le> na1 \<and> na1 \<le> na + 1 \<and> length tabb1 = length tabb \<and>
    limbs_val (take na1 r1) = limbs_val (take na r) * 2 ^ s \<and>
    limbs_val tabb1 = limbs_val tabb * 2 ^ s \<and> 0x8000000000000000 \<le> last tabb1"
proof -
  let ?nb = "length tabb" and ?top = "last tabb"
  note clz = js_limb_clz_spec [OF b(2), folded s_def]
  have nb: "1 \<le> ?nb" using b(1) by (simp add: Suc_leI)
  have nth: "tabb ! (?nb - 1) = ?top" using b(1) by (simp add: last_conv_nth)
  have B0: "limbs_val tabb \<noteq> 0"
  proof -
    obtain xs where "tabb = xs @ [?top]" using b(1) by (metis append_butlast_last_id)
    then have "limbs_val tabb = limbs_val xs + BASE ^ length xs * unat ?top"
      by (metis limbs_val_append limbs_val.simps mult_0_right add_0_right)
    then show ?thesis using b(2) by (simp add: unat_eq_zero)
  qed
  have bnd: "BASE ^ (?nb - 1) * unat ?top \<le> limbs_val tabb"
      "limbs_val tabb < BASE ^ (?nb - 1) * (unat ?top + 1)"
    using magnitude_bounds(2,3) [OF nb order_refl] b(2) B0 unfolding nth by simp_all
  show ?thesis
  proof (cases "s = 0")
    case True
    have "2 ^ 63 \<le> unat ?top" using clz(3) True by simp
    then have "0x8000000000000000 \<le> ?top" by (simp add: word_le_nat_alt)
    then show ?thesis using True by (simp add: divrem_shift_def)
  next
    case False
    then have s: "s < 64" "0 < s" using clz(2) by simp_all
    obtain tb hb where sb: "mp_shl tabb s = (tb, hb)" by (cases "mp_shl tabb s")
    note spb = mp_shl_spec [OF sb s]
    obtain w1 h where sw: "mp_shl (take na r) s = (w1, h)" by (cases "mp_shl (take na r) s")
    note spw = mp_shl_spec [OF sw s]
    have lw: "length (take na r) = na" using na by simp
    have Bn: "BASE ^ ?nb = BASE ^ (?nb - 1) * BASE" using nb by (cases ?nb) simp_all
    have up: "limbs_val tabb * 2 ^ s < BASE ^ ?nb"
    proof -
      have "limbs_val tabb * 2 ^ s < BASE ^ (?nb - 1) * (unat ?top + 1) * 2 ^ s" using bnd(2) by simp
      also have "\<dots> \<le> BASE ^ (?nb - 1) * BASE"
        unfolding mult.assoc by (rule mult_le_mono2 [OF clz(4)])
      finally show ?thesis unfolding Bn .
    qed
    have hb: "hb = 0"
    proof (rule ccontr)
      assume "hb \<noteq> 0"
      then have "1 \<le> unat hb" by (simp add: Suc_le_eq unat_gt_0)
      then have "BASE ^ ?nb * 1 \<le> BASE ^ ?nb * unat hb" by (rule mult_le_mono2)
      then show False using spb(3) up by linarith
    qed
    have vb: "limbs_val tb = limbs_val tabb * 2 ^ s" using spb(3) hb by simp
    have tbne: "tb \<noteq> []" using spb(1) b(1) by auto
    have "2 ^ 63 \<le> unat (last tb)"
    proof (rule ccontr)
      assume "\<not> 2 ^ 63 \<le> unat (last tb)"
      then have lt: "unat (last tb) + 1 \<le> 2 ^ 63" by simp
      obtain xs x where tb: "tb = xs @ [x]" using tbne by (cases tb rule: rev_cases) auto
      have lx: "length xs = ?nb - 1" using spb(1) tb by simp
      have "limbs_val tb < BASE ^ (?nb - 1) * (unat (last tb) + 1)"
        using limbs_val_less [of xs] unfolding tb limbs_val_append lx [symmetric] by simp
      also have "\<dots> \<le> BASE ^ (?nb - 1) * 2 ^ 63" by (rule mult_le_mono2 [OF lt])
      also have "\<dots> \<le> BASE ^ (?nb - 1) * (unat ?top * 2 ^ s)" by (rule mult_le_mono2 [OF clz(3)])
      also have "\<dots> \<le> limbs_val tabb * 2 ^ s"
        unfolding mult.assoc [symmetric] by (rule mult_le_mono1 [OF bnd(1)])
      finally show False using vb by simp
    qed
    then have top: "0x8000000000000000 \<le> last tb" by (simp add: word_le_nat_alt)
    have g: "grab r 0 na = Some (take na r)" using na by (simp add: grab_def)
    let ?r1 = "w1 @ drop na r"
    have bl: "blit r 0 w1 = Some ?r1" using spw(1) lw na by (simp add: blit_def)
    have lr: "length ?r1 = length r" using spw(1) lw na by simp
    have l1: "length w1 = na" using spw(1) lw by simp
    show ?thesis
    proof (cases "h = 0")
      case True
      have "divrem_shift s r na tabb = Some (?r1, na, tb)"
        using False True by (simp add: divrem_shift_def g sw bl sb)
      moreover have "limbs_val (take na ?r1) = limbs_val (take na r) * 2 ^ s"
        using spw(3) True l1 by simp
      ultimately show ?thesis using lr spb(1) vb top by simp
    next
      case h: False
      have w: "wr ?r1 na h = Some (?r1[na := h])" using lr na by (simp add: wr_def)
      have d: "drop na r \<noteq> []" using na by simp
      have "take (na + 1) (?r1[na := h]) = w1 @ [h]"
        using l1 d by (cases "drop na r") (simp_all add: list_update_append)
      then have "limbs_val (take (na + 1) (?r1[na := h])) = limbs_val (take na r) * 2 ^ s"
        using spw(3) l1 lw by (simp add: limbs_val_append)
      moreover have "divrem_shift s r na tabb = Some (?r1[na := h], na + 1, tb)"
        unfolding divrem_shift_def if_P [OF False] g Option.bind.simps sw prod.case bl Let_def
          if_P [OF h] w sb fst_conv ..
      ultimately show ?thesis using lr spb(1) vb top by simp
    qed
  qed
qed

lemma divrem_core_spec:
  assumes "na \<le> length r" "tabb \<noteq> []" "0x8000000000000000 \<le> last tabb" "length tabb \<le> na"
    "length q = na - length tabb + 2"
  shows "\<exists>q1 r1. divrem_core q r na tabb = Some (q1, r1) \<and> length q1 = length q \<and> length r1 = length r \<and>
    limbs_val (take (na - length tabb + 1) q1) = limbs_val (take na r) div limbs_val tabb \<and>
    limbs_val (take (length tabb) r1) = limbs_val (take na r) mod limbs_val tabb"
proof -
  have g: "grab r 0 na = Some (take na r)" using assms(1) by (simp add: grab_def)
  have lw: "length (take na r) = na" using assms(1) by simp
  from mp_divnorm_spec [OF assms(2,3), of "take na r" q] obtain q1 w1 where
    d: "mp_divnorm q (take na r) tabb = Some (q1, w1)" "length q1 = length q" "length w1 = na"
      "limbs_val (take (na - length tabb + 1) q1) = limbs_val (take na r) div limbs_val tabb"
      "limbs_val (take (length tabb) w1) = limbs_val (take na r) mod limbs_val tabb"
    using assms(4,5) unfolding lw by auto
  have bl: "blit r 0 w1 = Some (w1 @ drop na r)" using d(3) assms(1) by (simp add: blit_def)
  have "divrem_core q r na tabb = Some (q1, w1 @ drop na r)"
    by (simp add: divrem_core_def g d(1) bl)
  moreover have "take (length tabb) (w1 @ drop na r) = take (length tabb) w1" using d(3) assms(4) by simp
  moreover have "length (w1 @ drop na r) = length r" using d(3) assms(1) by simp
  ultimately show ?thesis using d(2,4,5) by (metis (no_types))
qed

lemma divrem_rem_spec:
  assumes "nb + 1 \<le> length r" "s < 64" "limbs_val (take nb r) = R * 2 ^ s"
  shows "\<exists>r1. divrem_rem r nb s neg = Some r1 \<and> length r1 = length r \<and>
    sval (take (nb + 1) r1) = (if neg then - int R else int R)"
proof -
  have g: "grab r 0 nb = Some (take nb r)" using assms(1) by (simp add: grab_def)
  have ln: "length (take nb r) = nb" using assms(1) by simp
  have "\<exists>r1. (if s \<noteq> 0 then blit r 0 (fst (mp_shr (take nb r) s 0)) else Some r) = Some r1 \<and>
      length r1 = length r \<and> limbs_val (take nb r1) = R"
  proof (cases "s = 0")
    case True
    then show ?thesis using assms(3) by simp
  next
    case False
    obtain w h where sh: "mp_shr (take nb r) s 0 = (w, h)" by (cases "mp_shr (take nb r) s 0")
    have s: "0 < s" using False by simp
    note spec = mp_shr_spec [OF sh assms(2) s]
    have lw: "length w = nb" using spec(1) ln by simp
    have "R * 2 ^ s < BASE ^ nb" using limbs_val_less [of "take nb r"] assms(3) ln by simp
    then have "R < BASE ^ nb" using le_less_trans [of R "R * 2 ^ s" "BASE ^ nb"] by simp
    then have "limbs_val w = R" using spec(2) ln assms(3) by simp
    moreover have "blit r 0 w = Some (w @ drop nb r)" using lw assms(1) by (simp add: blit_def)
    ultimately show ?thesis using False sh lw assms(1) by simp
  qed
  then obtain r1 where r1: "(if s \<noteq> 0 then blit r 0 (fst (mp_shr (take nb r) s 0)) else Some r) = Some r1"
      "length r1 = length r" "limbs_val (take nb r1) = R" by blast
  let ?r2 = "r1[nb := 0]" and ?t = "take nb r1 @ [0]"
  have w: "wr r1 nb 0 = Some ?r2" using r1(2) assms(1) by (simp add: wr_def)
  have t: "take (nb + 1) ?r2 = ?t" using r1(2) assms(1) by (simp add: take_Suc_conv_app_nth)
  have g2: "grab ?r2 0 (nb + 1) = Some ?t" using r1(2) assms(1) t by (simp add: grab_def)
  have vt: "limbs_val ?t = R" using r1(3) by (simp add: limbs_val_append)
  note sm = signed_magnitude [of ?t neg]
  have lt: "length ?t = nb + 1" using r1(2) assms(1) by simp
  show ?thesis
  proof (cases neg)
    case True
    have ln: "length (fst (mp_neg ?t)) = nb + 1" using sm(2) True lt by simp
    have bl: "blit ?r2 0 (fst (mp_neg ?t)) = Some (fst (mp_neg ?t) @ drop (nb + 1) ?r2)"
      using ln r1(2) assms(1) by (simp add: blit_def)
    have "divrem_rem r nb s neg = Some (fst (mp_neg ?t) @ drop (nb + 1) ?r2)"
      unfolding divrem_rem_def g Option.bind.simps r1(1) w if_P [OF True] g2 bl ..
    moreover have "take (nb + 1) (fst (mp_neg ?t) @ drop (nb + 1) ?r2) = fst (mp_neg ?t)" using ln by simp
    ultimately show ?thesis using True sm(1) vt ln r1(2) assms(1) by simp
  next
    case False
    have "divrem_rem r nb s neg = Some ?r2"
      unfolding divrem_rem_def g Option.bind.simps r1(1) w if_not_P [OF False] ..
    then show ?thesis using False sm(1) vt r1(2) t by simp
  qed
qed

lemma divrem_quot_spec:
  assumes "length q = na - nb + 2" "limbs_val (take (na - nb + 1) q) = Q"
  shows "\<exists>q1. divrem_quot q na nb neg = Some q1 \<and> q1 \<noteq> [] \<and> sval q1 = (if neg then - int Q else int Q)"
proof -
  let ?k = "na - nb + 1"
  let ?t = "q[?k := 0]"
  have w: "wr q ?k 0 = Some ?t" using assms(1) by (simp add: wr_def)
  have single: "\<exists>y. xs = [y]" if "length xs = 1" for xs :: "limb list"
    using that by (cases xs) auto
  have "length (drop ?k q) = 1" using assms(1) by simp
  from single [OF this] obtain y where "drop ?k q = [y]" ..
  then have "q = take ?k q @ [y]" by (metis append_take_drop_id)
  moreover have lk: "length (take ?k q) = ?k" using assms(1) by simp
  ultimately have t: "?t = take ?k q @ [0]" by (metis list_update_length)
  have ne: "?t \<noteq> []" "last ?t = 0" unfolding t by simp_all
  have v: "limbs_val ?t = Q" unfolding t using assms(2) by (simp add: limbs_val_append)
  let ?q = "if neg then fst (mp_neg ?t) else ?t"
  have "divrem_quot q na nb neg = Some ?q"
    unfolding divrem_quot_def w by simp
  moreover have "sval ?q = (if neg then - int Q else int Q)"
    unfolding signed_magnitude(1) [OF ne] v ..
  moreover have "?q \<noteq> []"
    using signed_magnitude(2) [OF ne, of neg] ne(1) by (cases "?q") auto
  ultimately show ?thesis by (intro exI conjI)
qed

section \<open>Quotient and remainder\<close>

definition div_error :: "bigint \<Rightarrow> bigint \<Rightarrow> js_error \<Rightarrow> bool" where
  "div_error a b e \<longleftrightarrow>
     (e = RangeError ''BigInt division by zero'' \<and> sval b = 0) \<or>
     (e = RangeError ''BigInt is too large to allocate'' \<and> JS_BIGINT_MAX_SIZE < length a + 2)"

lemma small_quotient:
  fixes x y :: int
  assumes "\<bar>x\<bar> < \<bar>y\<bar>"
  shows "x sdiv y = 0" "x smod y = x"
proof -
  have "\<bar>x\<bar> div \<bar>y\<bar> = 0" using assms by (simp add: div_pos_pos_trivial)
  then show "x sdiv y = 0" by (simp add: signed_divide_int_def)
  have "\<bar>x\<bar> mod \<bar>y\<bar> = \<bar>x\<bar>" using assms by (simp add: mod_pos_pos_trivial)
  then show "x smod y = x" by (simp add: signed_modulo_int_def sgn_if)
qed

lemma sdiv_magnitudes:
  fixes x y :: int
  assumes "\<bar>x\<bar> = int X" "\<bar>y\<bar> = int Y" "y \<noteq> 0"
  shows "x sdiv y = (if (x < 0) \<noteq> (y < 0) then - int (X div Y) else int (X div Y))"
    "x smod y = (if x < 0 then - int (X mod Y) else int (X mod Y))"
proof -
  have d: "\<bar>x\<bar> div \<bar>y\<bar> = int (X div Y)" unfolding assms(1,2) by (simp add: zdiv_int)
  show "x sdiv y = (if (x < 0) \<noteq> (y < 0) then - int (X div Y) else int (X div Y))"
  proof (cases "x = 0")
    case True
    then have "X = 0" using assms(1) by simp
    then show ?thesis using True by (simp add: signed_divide_int_def)
  next
    case False
    then show ?thesis unfolding signed_divide_int_def d using assms(3) by (auto simp: sgn_if)
  qed
  have "\<bar>x\<bar> mod \<bar>y\<bar> = int (X mod Y)" unfolding assms(1,2) by (simp add: zmod_int)
  then show "x smod y = (if x < 0 then - int (X mod Y) else int (X mod Y))"
    using assms(1) by (auto simp: signed_modulo_int_def sgn_if)
qed

lemma divrem_small_sat:
  assumes "normal a" "\<bar>sval a\<bar> < \<bar>sval b\<bar>"
  shows "js_sat mf (div_error a b) 0 1
    (\<lambda>r. normal r \<and> sval r = (if is_rem then sval a smod sval b else sval a sdiv sval b))
    (divrem_small mf a is_rem)"
proof (cases is_rem)
  case True
  have "js_sat mf (div_error a b) 0 1 (\<lambda>r. normal r \<and> sval r = sval a smod sval b)
      (js_bind (js_bigint_new mf (length a)) (\<lambda>r. js_lift (blit r 0 a)))"
    by (rule js_sat_bind [OF js_bigint_new_sat])
      (use assms small_quotient(2) in \<open>auto simp: div_error_def blit_def intro!: js_sat_lift\<close>)
  then show ?thesis using True by (simp add: divrem_small_def)
next
  case False
  then show ?thesis
    using small_quotient(1) [OF assms(2)] js_sat_mono [OF js_bigint_new_si_sat [of mf "\<lambda>_. False" 0],
        of "div_error a b" "\<lambda>r. normal r \<and> sval r = sval a sdiv sval b"]
    by (simp add: divrem_small_def)
qed

lemma divrem_finish_sat:
  assumes q: "length q = na - nb + 2" "limbs_val (take (na - nb + 1) q) = A div B"
    and r: "nb + 1 \<le> length r" "shift < 64" "limbs_val (take nb r) = (A mod B) * 2 ^ shift"
    and mag: "\<bar>x\<bar> = int A" "\<bar>y\<bar> = int B" "y \<noteq> 0"
  shows "js_sat mf E (- 2) (- 1) (\<lambda>v. normal v \<and> sval v = (if is_rem then x smod y else x sdiv y))
    (divrem_finish mf is_rem (x < 0) (y < 0) na nb shift q r)"
proof (cases is_rem)
  case True
  from divrem_rem_spec [OF r, of "x < 0"] obtain r1 where
    r1: "divrem_rem r nb shift (x < 0) = Some r1" "length r1 = length r"
      "sval (take (nb + 1) r1) = x smod y"
    unfolding sdiv_magnitudes(2) [OF mag] by blast
  have "js_sat mf E (- 1) 0 (\<lambda>v. normal v \<and> sval v = x smod y) (js_bigint_normalize1 mf r1 (nb + 1))"
    using js_bigint_normalize1_sat [of "nb + 1" r1] r(1) r1(2,3) by simp
  then have "js_sat mf E (- 1) 0 (\<lambda>v. normal v \<and> sval v = x smod y)
      (js_bind (js_lift (divrem_rem r nb shift (x < 0))) (\<lambda>r. js_bigint_normalize1 mf r (nb + 1)))"
    by (rule js_sat_bind_lift [OF r1(1)])
  then show ?thesis unfolding divrem_finish_def if_P [OF True]
    by (intro js_sat_bind [OF js_sat_free]) simp
next
  case False
  from divrem_quot_spec [OF q, of "(x < 0) \<noteq> (y < 0)"] obtain q1 where
    q1: "divrem_quot q na nb ((x < 0) \<noteq> (y < 0)) = Some q1" "q1 \<noteq> []" "sval q1 = x sdiv y"
    unfolding sdiv_magnitudes(1) [OF mag] by blast
  have "js_sat mf E (- 1) 0 (\<lambda>v. normal v \<and> sval v = x sdiv y) (js_bigint_normalize mf q1)"
    using js_bigint_normalize_sat [OF q1(2)] q1(3) by simp
  then have "js_sat mf E (- 1) 0 (\<lambda>v. normal v \<and> sval v = x sdiv y)
      (js_bind (js_lift (divrem_quot q na nb ((x < 0) \<noteq> (y < 0)))) (\<lambda>q. js_bigint_normalize mf q))"
    by (rule js_sat_bind_lift [OF q1(1)])
  then show ?thesis unfolding divrem_finish_def if_not_P [OF False]
    by (intro js_sat_bind [OF js_sat_free]) simp
qed

lemma divrem_long_sat:
  assumes na: "1 \<le> na" "na + 2 \<le> length r" "limbs_val (take na r) = A"
    and b: "tabb \<noteq> []" "last tabb \<noteq> 0" "length tabb \<le> na" "limbs_val tabb = B"
    and mag: "\<bar>x\<bar> = int A" "\<bar>y\<bar> = int B" "y \<noteq> 0"
    and E: "\<And>n. JS_BIGINT_MAX_SIZE < n \<Longrightarrow> n \<le> na + 2 \<Longrightarrow> E (RangeError ''BigInt is too large to allocate'')"
  shows "js_sat mf E (- 2) (- 1) (\<lambda>v. normal v \<and> sval v = (if is_rem then x smod y else x sdiv y))
    (divrem_long mf is_rem (x < 0) (y < 0) r na tabb p)"
proof -
  let ?P = "\<lambda>v. normal v \<and> sval v = (if is_rem then x smod y else x sdiv y)"
  define nb where "nb = length tabb"
  define shift where "shift = js_limb_clz (tabb ! (nb - 1))"
  have nth: "tabb ! (nb - 1) = last tabb" using b(1) by (simp add: nb_def last_conv_nth)
  have shl: "shift = js_limb_clz (last tabb)" by (simp only: shift_def nth)
  have s64: "shift < 64" unfolding shl by (rule js_limb_clz_spec(2) [OF b(2)])
  have "na + 1 \<le> length r" using na(2) by simp
  from divrem_shift_spec [OF na(1) this b(1,2)] obtain r1 na1 tabb1 where
    sh: "divrem_shift shift r na tabb = Some (r1, na1, tabb1)" "length r1 = length r" "na \<le> na1"
      "na1 \<le> na + 1" "length tabb1 = nb" "limbs_val (take na1 r1) = A * 2 ^ shift"
      "limbs_val tabb1 = B * 2 ^ shift" "0x8000000000000000 \<le> last tabb1"
    unfolding na(3) b(4) shl nb_def by blast
  have nb1: "1 \<le> nb" using b(1) by (simp add: nb_def Suc_leI)
  have fits: "na1 \<le> length r1" "tabb1 \<noteq> []" "length tabb1 \<le> na1"
    using sh(2-5) na(2) nb1 b(3) by (auto simp: nb_def)
  have rest: "js_sat mf E (- 3) (- 2) ?P
      (js_bind (js_lift (divrem_core q r1 na1 tabb1)) (\<lambda>(q, r).
       js_bind (js_free p) (\<lambda>_. divrem_finish mf is_rem (x < 0) (y < 0) na1 nb shift q r)))"
    if q: "length q = na1 - nb + 2" for q
  proof -
    from divrem_core_spec [OF fits(1,2) sh(8) fits(3), of q] q obtain q1 r2 where
      core: "divrem_core q r1 na1 tabb1 = Some (q1, r2)" "length q1 = length q" "length r2 = length r1"
        "limbs_val (take (na1 - nb + 1) q1) = A div B" "limbs_val (take nb r2) = (A mod B) * 2 ^ shift"
      unfolding sh(5-7) by (auto simp: mult_mod_left)
    have "js_sat mf E (- 2) (- 1) ?P (divrem_finish mf is_rem (x < 0) (y < 0) na1 nb shift q1 r2)"
      by (rule divrem_finish_sat [OF _ core(4) _ s64 core(5) mag])
        (use core(2,3) q sh(2-5) fits(3) na(2) b(3) in \<open>simp_all add: nb_def\<close>)
    then show ?thesis
      by (intro js_sat_bind_lift [OF core(1)], unfold prod.case) (intro js_sat_bind [OF js_sat_free], simp)
  qed
  have frees: "js_sat mf (\<lambda>_. False) (- 2) (- 2) (\<lambda>_. True) (js_bind (js_free r1) (\<lambda>_. js_free p))"
    by (intro js_sat_bind [OF js_sat_free]) (simp add: js_sat_free)
  have keep: "exc rt' = exc rt" if "js_bind (js_free r1) (\<lambda>_. js_free p) rt = Some (v, rt')" for rt v rt'
    using that by (auto simp: js_bind_def js_try_def js_free_def js_free_rt_def)
  have new: "js_sat mf E 0 1 (\<lambda>q. length q = na1 - nb + 2) (js_bigint_new mf (na1 - nb + 2))"
    by (rule js_bigint_new_sat) (use sh(4) nb1 E [of "na1 - nb + 2"] in simp)
  show ?thesis
    unfolding divrem_long_def Let_def nb_def [symmetric] shift_def [symmetric]
    using js_sat_try [OF new frees keep, where ?d2.0 = "- 2" and P = ?P] rest
    by (intro js_sat_bind_lift [OF sh(1)], unfold prod.case) simp
qed

lemma stripped_abs:
  assumes b: "normal b" "sval b \<noteq> 0"
  defines "nb \<equiv> strip_zeros (abs_limbs b) (length b)"
  shows "1 \<le> nb" "nb \<le> length (abs_limbs b)" "last (take nb (abs_limbs b)) \<noteq> 0"
    "int (limbs_val (take nb (abs_limbs b))) = \<bar>sval b\<bar>" "int (BASE ^ (nb - 1)) \<le> \<bar>sval b\<bar>"
proof -
  let ?t = "abs_limbs b"
  have ne: "b \<noteq> []" using b by simp
  note lb = abs_limbs_spec [OF ne]
  note st = strip_zeros_spec [of "length b" ?t, folded nb_def]
  show nb: "1 \<le> nb" "nb \<le> length ?t" using st ne lb by (simp_all add: Suc_le_eq)
  show v: "int (limbs_val (take nb ?t)) = \<bar>sval b\<bar>" using st ne lb by (simp add: Suc_le_eq)
  then have "limbs_val (take nb ?t) \<noteq> 0" using b(2) by auto
  moreover have "nb = 1 \<or> ?t ! (nb - 1) \<noteq> 0" using st ne lb by (simp add: Suc_le_eq)
  ultimately have mb: "?t ! (nb - 1) \<noteq> 0" "BASE ^ (nb - 1) * unat (?t ! (nb - 1)) \<le> limbs_val (take nb ?t)"
    using magnitude_bounds(1,2) [OF nb] by blast+
  have "take nb ?t \<noteq> []" using nb by auto
  then show "last (take nb ?t) \<noteq> 0" using mb(1) nb by (simp add: last_conv_nth)
  have "BASE ^ (nb - 1) * 1 \<le> BASE ^ (nb - 1) * unat (?t ! (nb - 1))"
    using mb(1) by (intro mult_le_mono2) (simp add: Suc_le_eq unat_gt_0)
  with mb(2) have "BASE ^ (nb - 1) \<le> limbs_val (take nb ?t)" by linarith
  then show "int (BASE ^ (nb - 1)) \<le> \<bar>sval b\<bar>" unfolding v [symmetric] by (simp only: of_nat_le_iff)
qed

lemma js_bigint_divrem_sat:
  assumes a: "normal a" and b: "normal b"
  shows "js_sat mf (div_error a b) 0 1
    (\<lambda>r. normal r \<and> sval r = (if is_rem then sval a smod sval b else sval a sdiv sval b))
    (js_bigint_divrem mf a b is_rem)"
proof (cases "length b = 1 \<and> hd b = 0")
  case True
  then have "b = [0]" by (cases b) auto
  then show ?thesis by (simp add: js_bigint_divrem_def js_sat_throw div_error_def)
next
  case nz: False
  let ?P = "\<lambda>r. normal r \<and> sval r = (if is_rem then sval a smod sval b else sval a sdiv sval b)"
  let ?E = "div_error a b" and ?nb = "strip_zeros (abs_limbs b) (length b)"
  have ne: "a \<noteq> []" "b \<noteq> []" using a b by simp_all
  have b0: "sval b \<noteq> 0"
  proof
    assume "sval b = 0"
    then have "b = [0]" by (intro normal_unique [OF b]) simp_all
    then show False using nz by simp
  qed
  have sgn: "js_bigint_sign a \<noteq> 0 \<longleftrightarrow> sval a < 0" "js_bigint_sign b \<noteq> 0 \<longleftrightarrow> sval b < 0"
    using sval_nonneg_iff ne by (simp_all add: js_bigint_sign_eq)
  note la = abs_limbs_spec [OF ne(1)] and tb = stripped_abs [OF b b0]
  have main: "js_sat mf ?E (- 1) 0 ?P
      (js_try (js_malloc mf (length b * 8)) (js_free r) (\<lambda>p.
        if strip_zeros r (length a) < ?nb then
          js_bind (js_free r) (\<lambda>_. js_bind (js_free p) (\<lambda>_. divrem_small mf a is_rem))
        else divrem_long mf is_rem (sval a < 0) (sval b < 0) r (strip_zeros r (length a))
          (take ?nb (abs_limbs b)) p))"
    if r: "length r = length a + 2" "take (length a) r = abs_limbs a" for r
  proof (rule js_sat_try_free [where Q = "\<lambda>_. True" and ?d1.0 = 1])
    define na where "na = strip_zeros r (length a)"
    have na: "1 \<le> na" "na \<le> length a" "limbs_val (take na r) = limbs_val (abs_limbs a)"
      using strip_zeros_spec [of "length a" r] ne(1) r by (simp_all add: na_def Suc_le_eq)
    show "js_sat mf ?E (- 1 - 1) (0 - 1) ?P
       (if strip_zeros r (length a) < ?nb then
          js_bind (js_free r) (\<lambda>_. js_bind (js_free p) (\<lambda>_. divrem_small mf a is_rem))
        else divrem_long mf is_rem (sval a < 0) (sval b < 0) r (strip_zeros r (length a))
          (take ?nb (abs_limbs b)) p)" for p
    proof (cases "na < ?nb")
      case True
      have "limbs_val (abs_limbs a) < BASE ^ na" using limbs_val_less [of "take na r"] na r by simp
      also have "\<dots> \<le> BASE ^ (?nb - 1)" using True by (intro power_increasing) (simp_all add: Suc_leI)
      finally have "int (limbs_val (abs_limbs a)) < int (BASE ^ (?nb - 1))" by (simp only: of_nat_less_iff)
      then have "\<bar>sval a\<bar> < \<bar>sval b\<bar>" using la(2) tb(5) by linarith
      from divrem_small_sat [OF a this, of mf is_rem] show ?thesis
        unfolding na_def [symmetric] if_P [OF True]
        by (intro js_sat_bind [OF js_sat_free]) simp
    next
      case False
      have "js_sat mf ?E (- 2) (- 1) ?P (divrem_long mf is_rem (sval a < 0) (sval b < 0) r na
          (take ?nb (abs_limbs b)) p)"
        by (rule divrem_long_sat [OF na(1) _ refl _ tb(3) _ refl])
          (use na r tb False la(2) b0 in \<open>auto simp: div_error_def\<close>)
      then show ?thesis unfolding na_def [symmetric] if_not_P [OF False] by simp
    qed
  qed (simp add: js_sat_malloc)
  show ?thesis
    unfolding js_bigint_divrem_def if_not_P [OF nz] Let_def sgn
  proof (rule js_sat_bind [OF js_bigint_new_sat])
    show "JS_BIGINT_MAX_SIZE < length a + 2 \<Longrightarrow> ?E (RangeError ''BigInt is too large to allocate'')"
      by (simp add: div_error_def)
  next
    fix r0 :: bigint
    assume r0: "length r0 = length a + 2"
    then have bl: "blit r0 0 (abs_limbs a) = Some (abs_limbs a @ drop (length a) r0)"
      using la(1) by (simp add: blit_def)
    have "length (abs_limbs a @ drop (length a) r0) = length a + 2"
      "take (length a) (abs_limbs a @ drop (length a) r0) = abs_limbs a" using r0 la(1) by simp_all
    note main = main [OF this]
    show "js_sat mf ?E (0 - 1) (1 - 1) ?P
      (js_bind (js_lift (blit r0 0 (abs_limbs a))) (\<lambda>r.
       js_try (js_malloc mf (length b * 8)) (js_free r) (\<lambda>p.
        if strip_zeros r (length a) < ?nb then
          js_bind (js_free r) (\<lambda>_. js_bind (js_free p) (\<lambda>_. divrem_small mf a is_rem))
        else divrem_long mf is_rem (sval a < 0) (sval b < 0) r (strip_zeros r (length a))
          (take ?nb (abs_limbs b)) p)))"
      by (rule js_sat_bind_lift [OF bl]) (use main in simp)
  qed
qed

end
