(* ===== verification/BigInt_Pow.thy ===== *)
theory BigInt_Pow
  imports BigInt_Div
begin

text \<open>
  Exponentiation of BigInt values: \<open>js_bigint_pow\<close> is \<open>sval a ^ nat (sval b)\<close>; it refuses a
  result only when the result is within a limb of the largest size.  An allocation failure
  inside the square-and-multiply loop leaks one block.
\<close>

section \<open>Sizes\<close>

definition huge :: "int \<Rightarrow> bool" where
  "huge v \<longleftrightarrow> int (BASE ^ (JS_BIGINT_MAX_SIZE - 1)) \<le> 4 * \<bar>v\<bar>"

lemma huge_mono: "huge v \<Longrightarrow> \<bar>v\<bar> \<le> \<bar>w\<bar> \<Longrightarrow> huge w"
  by (simp add: huge_def)

lemma huge_mul:
  assumes "normal x" "normal y" "sval x \<noteq> 0" "sval y \<noteq> 0" "JS_BIGINT_MAX_SIZE < length x + length y"
  shows "huge (sval x * sval y)"
proof -
  have l: "length x \<noteq> 0" "length y \<noteq> 0" using assms(1,2) by simp_all
  have "JS_BIGINT_MAX_SIZE - 1 \<le> (length x - 1) + (length y - 1)" using assms(5) l by linarith
  then have "BASE ^ (JS_BIGINT_MAX_SIZE - 1) \<le> BASE ^ ((length x - 1) + (length y - 1))"
    by (intro power_increasing) (simp_all add: Suc_leI)
  then have "int (BASE ^ (JS_BIGINT_MAX_SIZE - 1)) \<le> int (BASE ^ (length x - 1)) * int (BASE ^ (length y - 1))"
    by (simp only: power_add of_nat_mult [symmetric] of_nat_le_iff)
  also have "\<dots> \<le> (2 * \<bar>sval x\<bar>) * (2 * \<bar>sval y\<bar>)"
    using normal_lower [OF assms(1,3)] normal_lower [OF assms(2,4)] by (intro mult_mono) simp_all
  finally show ?thesis by (simp add: huge_def abs_mult)
qed

lemma huge_big:
  assumes "normal x" "sval x \<noteq> 0" "JS_BIGINT_MAX_SIZE < length x"
  shows "huge (sval x)"
  using huge_mul [OF assms(1) normal_single [of 1] assms(2)] assms(3) by simp

lemma huge_pow:
  assumes "2 \<le> \<bar>x\<bar>" "64 * JS_BIGINT_MAX_SIZE \<le> n"
  shows "huge (x ^ n)"
proof -
  have "BASE ^ (JS_BIGINT_MAX_SIZE - 1) = 2 ^ (64 * (JS_BIGINT_MAX_SIZE - 1))"
    by (simp only: BASE_def power_mult)
  also have "\<dots> \<le> (2 :: nat) ^ n" using assms(2) by (intro power_increasing) linarith+
  finally have "int (BASE ^ (JS_BIGINT_MAX_SIZE - 1)) \<le> int (2 ^ n)" by (simp only: of_nat_le_iff)
  also have "int (2 ^ n) = 2 ^ n" by (simp only: of_nat_power of_nat_numeral)
  also have "\<dots> \<le> \<bar>x\<bar> ^ n" using assms(1) by (intro power_mono) simp_all
  finally have "int (BASE ^ (JS_BIGINT_MAX_SIZE - 1)) \<le> \<bar>x\<bar> ^ n" .
  moreover have "0 \<le> \<bar>x\<bar> ^ n" by simp
  ultimately have "int (BASE ^ (JS_BIGINT_MAX_SIZE - 1)) \<le> 4 * \<bar>x\<bar> ^ n" by linarith
  then show ?thesis by (simp only: huge_def power_abs)
qed

lemma MAX_SIZE_bits: "64 * JS_BIGINT_MAX_SIZE \<le> 0x80000000"
  by (simp add: JS_BIGINT_MAX_SIZE_def JS_LIMB_BITS_def)

section \<open>The square-and-multiply loop\<close>

lemma drop_bit_and_1: "drop_bit i (e :: u32) AND 1 \<noteq> 0 \<longleftrightarrow> odd (unat e div 2 ^ i)"
proof -
  have "drop_bit i e AND 1 \<noteq> 0 \<longleftrightarrow> odd (drop_bit i e)"
    by (simp add: and_one_eq odd_iff_mod_2_eq_one)
  also have "\<dots> \<longleftrightarrow> bit (drop_bit i e) 0" by (simp only: bit_0)
  also have "\<dots> \<longleftrightarrow> bit (unat (drop_bit i e)) 0" by (simp only: bit_unsigned_iff) simp
  also have "\<dots> \<longleftrightarrow> odd (unat (drop_bit i e))" by (simp only: bit_0)
  finally show ?thesis by (simp only: unat_drop_bit_div)
qed

definition alloc_huge :: "int \<Rightarrow> js_error \<Rightarrow> bool" where
  "alloc_huge v e \<longleftrightarrow> e = RangeError ''BigInt is too large to allocate'' \<and> huge v"

lemma mul_huge_sat:
  assumes "normal x" "normal y" "sval x \<noteq> 0" "sval y \<noteq> 0" "\<bar>sval x * sval y\<bar> \<le> \<bar>w\<bar>"
  shows "js_sat mf (alloc_huge w) 0 1 (\<lambda>r. normal r \<and> sval r = sval x * sval y) (js_bigint_mul mf x y)"
proof (rule js_sat_mono [OF js_bigint_mul_sat])
  show "alloc_huge w e" if "size_error (length x + length y) e" for e
    using that huge_mono [OF huge_mul [OF assms(1-4)] assms(5)] by (simp add: alloc_huge_def)
qed (use assms in simp_all)

lemma pow_loop_sat:
  assumes a: "normal a" "1 \<le> \<bar>sval a\<bar>"
  shows "normal r \<Longrightarrow> sval r = sval a ^ (unat e div 2 ^ i) \<Longrightarrow>
    js_sat mf (alloc_huge (sval a ^ unat e)) 0 0 (\<lambda>x. normal x \<and> sval x = sval a ^ unat e)
      (pow_loop mf a e i r)"
proof (induction i arbitrary: r)
  case 0
  then show ?case by (simp add: js_sat_return)
next
  case (Suc i)
  let ?E = "alloc_huge (sval a ^ unat e)" and ?P = "\<lambda>x. normal x \<and> sval x = sval a ^ unat e"
  let ?m = "unat e div 2 ^ i"
  have half: "unat e div 2 ^ Suc i = ?m div 2" by (simp only: power_Suc2 div_mult2_eq)
  have a0: "sval a \<noteq> 0" using a(2) by auto
  have r0: "sval r \<noteq> 0" using Suc.prems(2) a0 by simp
  have le: "\<bar>sval a ^ k\<bar> \<le> \<bar>sval a ^ unat e\<bar>" if "k \<le> ?m" for k
  proof -
    have "k \<le> unat e" using that div_le_dividend [of "unat e" "2 ^ i"] by linarith
    then show ?thesis unfolding power_abs using a(2) by (rule power_increasing)
  qed
  have sq: "sval r * sval r = sval a ^ (2 * (?m div 2))"
    unfolding Suc.prems(2) half by (simp add: mult_2 power_add)
  have "\<bar>sval r * sval r\<bar> \<le> \<bar>sval a ^ unat e\<bar>" unfolding sq by (rule le) simp
  note mul1 = mul_huge_sat [OF Suc.prems(1) Suc.prems(1) r0 r0 this]
  have rest: "js_sat mf ?E (- 1) (- 1) ?P (js_bind (js_free r) (\<lambda>_.
      if drop_bit i e AND 1 \<noteq> 0
      then js_bind (js_bigint_mul mf r1 a) (\<lambda>r2. js_bind (js_free r1) (\<lambda>_. pow_loop mf a e i r2))
      else pow_loop mf a e i r1))"
    if r1: "normal r1 \<and> sval r1 = sval r * sval r" for r1
  proof (rule js_sat_bind [OF js_sat_free])
    show "js_sat mf ?E (- 1 - - 1) (- 1 - - 1) ?P
      (if drop_bit i e AND 1 \<noteq> 0
       then js_bind (js_bigint_mul mf r1 a) (\<lambda>r2. js_bind (js_free r1) (\<lambda>_. pow_loop mf a e i r2))
       else pow_loop mf a e i r1)"
    proof (cases "odd ?m")
      case True
      have m: "sval r1 * sval a = sval a ^ ?m"
      proof -
        have "?m = Suc (2 * (?m div 2))" using True by simp
        then have "sval a ^ ?m = sval a * sval a ^ (2 * (?m div 2))" by (metis power_Suc)
        then show ?thesis using r1 sq by simp
      qed
      have "sval r1 \<noteq> 0" using r1 r0 by simp
      moreover have "\<bar>sval r1 * sval a\<bar> \<le> \<bar>sval a ^ unat e\<bar>" unfolding m by (rule le) simp
      ultimately have mul2: "js_sat mf ?E 0 1 (\<lambda>x. normal x \<and> sval x = sval a ^ ?m) (js_bigint_mul mf r1 a)"
        using mul_huge_sat [of r1 a] r1 a a0 unfolding m by blast
      have "js_sat mf ?E 0 0 ?P
          (js_bind (js_bigint_mul mf r1 a) (\<lambda>r2. js_bind (js_free r1) (\<lambda>_. pow_loop mf a e i r2)))"
      proof (rule js_sat_bind [OF mul2])
        show "js_sat mf ?E (0 - 1) (0 - 1) ?P (js_bind (js_free r1) (\<lambda>_. pow_loop mf a e i x))"
          if "normal x \<and> sval x = sval a ^ ?m" for x
          using Suc.IH that by (intro js_sat_bind [OF js_sat_free]) simp
      qed
      then show ?thesis using True drop_bit_and_1 [of i e] by simp
    next
      case False
      then have "2 * (?m div 2) = ?m" by simp
      then have "sval r1 = sval a ^ ?m" using r1 sq by simp
      then show ?thesis using Suc.IH r1 False drop_bit_and_1 [of i e] by simp
    qed
  qed
  show ?case unfolding pow_loop.simps
    by (rule js_sat_bind [OF mul1]) (use rest in simp)
qed

section \<open>Powers of two\<close>

lemma abs_limb:
  assumes "v \<noteq> 0"
  shows "int (unat (if v <s 0 then - v else v :: limb)) = \<bar>sint v\<bar>"
proof -
  have s: "v <s 0 \<longleftrightarrow> neg_limb v" by (simp add: word_sless_alt neg_limb_sint)
  show ?thesis
  proof (cases "neg_limb v")
    case True
    have "int (BASE - unat v) = int BASE - int (unat v)"
      by (intro of_nat_diff less_imp_le unat_limb)
    moreover have "sint v < 0" using True neg_limb_sint by blast
    ultimately show ?thesis using True unat_neg_limb [OF assms] unfolding s sint_limb by simp
  next
    case False
    then have "0 \<le> sint v" using neg_limb_sint [of v] by linarith
    then show ?thesis using False unfolding s sint_limb by simp
  qed
qed

lemma two_power_block:
  fixes e :: nat and neg :: bool
  defines "len \<equiv> (e + 64 + 1 - of_bool neg) div 64"
  shows "\<exists>r. wr (replicate len 0) (e div 64) (push_bit (e mod 64) (1 - 2 * of_bool neg)) = Some r \<and>
    normal r \<and> sval r = (if neg then - (2 ^ e) else 2 ^ e)"
proof -
  let ?i = "e div 64" and ?k = "e mod 64"
  have k: "?k < 64" by simp
  define x where "x = (push_bit ?k (1 - 2 * of_bool neg) :: limb)"
  have up: "unat (push_bit ?k 1 :: limb) = 2 ^ ?k"
  proof -
    have "(2 :: nat) ^ ?k < 2 ^ 64" using k by (intro power_strict_increasing) simp_all
    then show ?thesis using unat_push_bit_mult [of "1 :: limb" ?k] by simp
  qed
  then have x1: "(push_bit ?k 1 :: limb) \<noteq> 0" by (metis unat_0 power_not_zero zero_neq_numeral)
  have pow: "(2 :: int) ^ e = int (BASE ^ ?i) * 2 ^ ?k" by (rule shl_amount)
  have nl: "neg_limb (push_bit ?k 1) \<longleftrightarrow> ?k = 63"
  proof -
    have "(2 :: nat) ^ 63 \<le> 2 ^ ?k \<longleftrightarrow> 63 \<le> ?k" by (rule power_increasing_iff) simp
    then show ?thesis unfolding neg_limb_def up using k by linarith
  qed
  consider (neg) neg | (small) "\<not> neg" "?k \<noteq> 63" | (top) "\<not> neg" "?k = 63" by blast
  then show ?thesis
  proof cases
    case neg
    have len: "len = Suc ?i" using neg by (simp add: len_def)
    have x: "x = - push_bit ?k 1" using neg by (simp add: x_def push_bit_eq_mult)
    have ux: "unat x = BASE - 2 ^ ?k" unfolding x unat_neg_limb [OF x1] up ..
    have le: "(2 :: nat) ^ ?k \<le> 2 ^ 63" using k by (intro power_increasing) simp_all
    then have "neg_limb x" unfolding neg_limb_def ux by (simp add: BASE_double)
    moreover have "int (BASE - 2 ^ ?k) = int BASE - 2 ^ ?k"
      using le by (subst of_nat_diff) (simp_all add: BASE_double)
    ultimately have sx: "sint x = - (2 ^ ?k)" unfolding sint_limb ux by simp
    have x0: "x \<noteq> 0" using sx by auto
    have "(replicate len 0)[?i := x] = replicate ?i 0 @ [x]"
      unfolding len by (simp add: replicate_append_same [symmetric] list_update_append)
    moreover have "normal (replicate ?i 0 @ [x])" using x0 by (intro normal_zeros_append) simp_all
    moreover have "sval (replicate ?i 0 @ [x]) = - (2 ^ e)" unfolding pow by (simp add: sval_zeros_append sx)
    ultimately show ?thesis using neg len by (auto simp: wr_def x_def)
  next
    case small
    have "?k + 65 < 2 * 64" "64 \<le> ?k + 65" using small k by linarith+
    then have "(?k + 65) div 64 = 1" by (intro div_nat_eqI) simp_all
    moreover have "e + 65 = ?k + 65 + 64 * ?i" by simp
    ultimately have "(e + 65) div 64 = Suc ?i" by (simp only: div_mult_self2)
    then have len: "len = Suc ?i" using small by (simp add: len_def add.commute)
    have x: "x = push_bit ?k 1" using small by (simp add: x_def)
    have sx: "sint x = 2 ^ ?k" unfolding sint_limb x using nl small up by simp
    have x0: "x \<noteq> 0" using sx by auto
    have "(replicate len 0)[?i := x] = replicate ?i 0 @ [x]"
      unfolding len by (simp add: replicate_append_same [symmetric] list_update_append)
    moreover have "normal (replicate ?i 0 @ [x])" using x0 by (intro normal_zeros_append) simp_all
    moreover have "sval (replicate ?i 0 @ [x]) = 2 ^ e" unfolding pow by (simp add: sval_zeros_append sx)
    ultimately show ?thesis using small len by (auto simp: wr_def x_def)
  next
    case top
    have "e + 65 = 128 + 64 * ?i" using top(2) mult_div_mod_eq [of 64 e] by linarith
    then have "(e + 65) div 64 = Suc (Suc ?i)" by (simp only: div_mult_self2)
    then have len: "len = Suc (Suc ?i)" using top by (simp add: len_def add.commute)
    have x: "x = push_bit ?k 1" using top by (simp add: x_def)
    have nx: "neg_limb x" unfolding x using nl top by simp
    have "(replicate len 0)[?i := x] = replicate ?i 0 @ [x, 0]"
      unfolding len using replicate_add [of ?i 2 "0 :: limb"] by (simp add: list_update_append numeral_2_eq_2)
    moreover have "normal ([x, 0])" using nx normal_snoc [of "[x]" 0] by (simp add: redundant_def)
    then have "normal (replicate ?i 0 @ [x, 0])" by (intro normal_zeros_append) simp_all
    moreover have "sval (replicate ?i 0 @ [x, 0]) = 2 ^ e"
    proof -
      have "unat (2 ^ ?k :: limb) = 2 ^ ?k" using up by simp
      then have "sval [x, 0] = 2 ^ ?k" by (simp add: sval_def x)
      then show ?thesis unfolding pow by (simp only: sval_zeros_append [OF list.distinct(2)])
    qed
    ultimately show ?thesis using top len by (auto simp: wr_def x_def)
  qed
qed

section \<open>Exponentiation\<close>

definition pow_error :: "bigint \<Rightarrow> bigint \<Rightarrow> js_error \<Rightarrow> bool" where
  "pow_error a b e \<longleftrightarrow>
     (e = RangeError ''BigInt negative exponent'' \<and> sval b < 0) \<or>
     ((e = RangeError ''BigInt is too large'' \<or> e = RangeError ''BigInt is too large to allocate'') \<and>
      0 \<le> sval b \<and> huge (sval a ^ nat (sval b)))"

text \<open>As \<open>js_sat\<close>, but a failing operation may keep up to \<open>k\<close> blocks.\<close>

definition js_sat_leak ::
  "malloc_funcs \<Rightarrow> (js_error \<Rightarrow> bool) \<Rightarrow> int \<Rightarrow> int \<Rightarrow> ('a \<Rightarrow> bool) \<Rightarrow> 'a js \<Rightarrow> bool" where
  "js_sat_leak mf E k d P m = (\<forall>rt. \<exists>r rt'. m rt = Some (r, rt') \<and>
     (case r of
        Null \<Rightarrow> live rt \<le> live rt' \<and> live rt' \<le> live rt + k \<and>
          (\<exists>e. exc rt' = Some e \<and> (E e \<or> e = InternalError ''out of memory'' \<and> mf_may_fail mf))
      | Ret x \<Rightarrow> P x \<and> live rt' = live rt + d \<and> (exc rt' = exc rt \<or> mf_may_fail mf)))"

lemma js_sat_leakI:
  assumes "js_sat mf E de d P m" "0 \<le> de" "de \<le> k"
  shows "js_sat_leak mf E k d P m"
  unfolding js_sat_leak_def
proof
  fix rt
  from assms(1) show "\<exists>r rt'. m rt = Some (r, rt') \<and>
     (case r of
        Null \<Rightarrow> live rt \<le> live rt' \<and> live rt' \<le> live rt + k \<and>
          (\<exists>e. exc rt' = Some e \<and> (E e \<or> e = InternalError ''out of memory'' \<and> mf_may_fail mf))
      | Ret x \<Rightarrow> P x \<and> live rt' = live rt + d \<and> (exc rt' = exc rt \<or> mf_may_fail mf))"
    by (cases rule: js_sat_cases [of _ _ _ _ _ _ rt]) (use assms(2,3) in auto)
qed

lemma js_sat_leak_bind:
  assumes "js_sat mf E 0 1 Q m" "\<And>x. Q x \<Longrightarrow> js_sat mf E 0 0 P (f x)"
  shows "js_sat_leak mf E 1 1 P (js_bind m f)"
  unfolding js_sat_leak_def
proof
  fix rt
  show "\<exists>r rt'. js_bind m f rt = Some (r, rt') \<and>
     (case r of
        Null \<Rightarrow> live rt \<le> live rt' \<and> live rt' \<le> live rt + 1 \<and>
          (\<exists>e. exc rt' = Some e \<and> (E e \<or> e = InternalError ''out of memory'' \<and> mf_may_fail mf))
      | Ret x \<Rightarrow> P x \<and> live rt' = live rt + 1 \<and> (exc rt' = exc rt \<or> mf_may_fail mf))"
  proof (cases rule: js_sat_cases [OF assms(1), of rt])
    case (1 rt1 e)
    then show ?thesis by (simp add: js_bind_def js_try_def js_return_def)
  next
    case (2 x rt1)
    show ?thesis
      by (cases rule: js_sat_cases [OF assms(2) [OF 2(2)], of rt1])
        (use 2 in \<open>auto simp: js_bind_def js_try_def\<close>)
  qed
qed

lemma bigint_large:
  assumes "normal b" "0 \<le> sval b" "length b > 1 \<or> hd b > 0x7FFFFFFF"
  shows "0x80000000 \<le> sval b"
proof (cases "length b = 1")
  case True
  then obtain x where b: "b = [x]" by (cases b) auto
  have "0x80000000 \<le> unat x" using assms(3) b by (simp add: word_less_nat_alt)
  moreover have "\<not> neg_limb x" using assms(2) b neg_limb_sint [of x] by simp
  then have "sval b = int (unat x)" using b by (simp add: sval_def del: sval_single)
  ultimately show ?thesis by linarith
next
  case False
  then have "length b \<ge> 2" using assms(1) by (cases b; cases "tl b") auto
  then have "BASE ^ 1 \<le> BASE ^ (length b - 1)" by (intro power_increasing) (simp_all add: Suc_leI)
  then have "int (BASE ^ 1) \<le> int (BASE ^ (length b - 1))" by (simp only: of_nat_le_iff)
  moreover have "sval b \<noteq> 0"
  proof
    assume "sval b = 0"
    then have "b = [0]" by (intro normal_unique [OF assms(1)]) simp_all
    then show False using \<open>2 \<le> length b\<close> by simp
  qed
  ultimately have "int (BASE ^ 1) \<le> 2 * sval b" using normal_lower [OF assms(1)] assms(2) by linarith
  then show ?thesis by (simp add: BASE_def)
qed

lemma overflow_huge:
  assumes "normal b" "0 \<le> sval b" "length b > 1 \<or> hd b > 0x7FFFFFFF" "2 \<le> \<bar>x\<bar>"
  shows "huge (x ^ nat (sval b))"
proof (rule huge_pow [OF assms(4)])
  have "0x80000000 \<le> nat (sval b)" using bigint_large [OF assms(1-3)] by linarith
  then show "64 * JS_BIGINT_MAX_SIZE \<le> nat (sval b)" using MAX_SIZE_bits by linarith
qed

lemma small_exponent:
  assumes "b \<noteq> []" "\<not> length b > 1" "\<not> hd b > 0x7FFFFFFF"
  shows "sval b = int (unat (hd b))" "unat (hd b) \<le> 0x7FFFFFFF"
proof -
  obtain x where b: "b = [x]" using assms(1,2) by (cases b) auto
  show u: "unat (hd b) \<le> 0x7FFFFFFF" using assms(3) b by (simp add: word_less_nat_alt)
  then have "\<not> neg_limb x" using b by (simp add: neg_limb_def)
  then show "sval b = int (unat (hd b))" using b by (simp add: sval_def del: sval_single)
qed

lemma pow_overflow_sat:
  "0 \<le> sval b \<Longrightarrow> huge (sval a ^ nat (sval b)) \<Longrightarrow> js_sat_leak mf (pow_error a b) 1 1 P pow_overflow"
  unfolding pow_overflow_def by (rule js_sat_leakI [OF js_sat_throw]) (simp_all add: pow_error_def)

lemma pow_general_sat:
  assumes a: "normal a" "2 \<le> \<bar>sval a\<bar>" and b: "normal b" "0 < sval b"
  shows "js_sat_leak mf (pow_error a b) 1 1 (\<lambda>r. normal r \<and> sval r = sval a ^ nat (sval b))
    (pow_general mf a b)"
proof (cases "length b > 1 \<or> hd b > 0x7FFFFFFF")
  case True
  then have "pow_general mf a b = pow_overflow" by (auto simp: pow_general_def)
  then show ?thesis
    using pow_overflow_sat [OF _ overflow_huge [OF b(1) _ True a(2)]] b(2) by simp
next
  case False
  have ne: "b \<noteq> []" using b(1) by simp
  have "\<not> length b > 1" "\<not> hd b > 0x7FFFFFFF" using False by blast+
  note sm = small_exponent [OF ne this]
  define e :: u32 where "e = ucast (hd b)"
  have e: "unat e = nat (sval b)"
    using sm by (simp add: e_def unsigned_ucast_eq take_bit_nat_eq_self)
  have bits: "32 - clz32 e = bit_length (unat e)"
  proof -
    have e0: "0 < unat e" using e b(2) by simp
    have "unat e < 2 ^ 32" using unsigned_less [of e, where 'a = nat] by simp
    with bit_length_spec [OF e0] have "(2 :: nat) ^ (bit_length (unat e) - 1) < 2 ^ 32" by linarith
    then have "bit_length (unat e) \<le> 32"
      using power_less_imp_less_exp [of "2 :: nat" "bit_length (unat e) - 1" 32] by simp
    then show ?thesis by (simp add: clz32_def)
  qed
  have top: "unat e div 2 ^ (bit_length (unat e) - 1) = 1"
  proof -
    have e0: "0 < unat e" using e b(2) by simp
    obtain k where "bit_length (unat e) = Suc k" using bit_length_spec [OF e0] by (cases "bit_length (unat e)") auto
    then show ?thesis using bit_length_spec [OF e0] by (intro div_nat_eqI) simp_all
  qed
  have E: "js_sat mf (pow_error a b) de d P m" if "js_sat mf (alloc_huge (sval a ^ unat e)) de d P m" for de d P m
    using js_sat_mono [OF that, of "pow_error a b" P] b(2) by (auto simp: alloc_huge_def pow_error_def e)
  have eq: "pow_general mf a b = js_bind (js_bigint_new mf (length a)) (\<lambda>r.
      js_bind (js_lift (blit r 0 a)) (\<lambda>r. pow_loop mf a e (bit_length (unat e) - 1) r))"
    unfolding pow_general_def Let_def e_def [symmetric] bits using False by (simp only: de_Morgan_disj if_False)
  show ?thesis
    unfolding eq
  proof (rule js_sat_leak_bind [OF js_bigint_new_sat])
    assume "JS_BIGINT_MAX_SIZE < length a"
    then have "huge (sval a)" using huge_big [OF a(1)] a(2) by auto
    moreover have "\<bar>sval a\<bar> \<le> \<bar>sval a ^ nat (sval b)\<bar>"
      using power_increasing [of 1 "nat (sval b)" "\<bar>sval a\<bar>"] a(2) b(2) by (simp add: power_abs)
    ultimately have "huge (sval a ^ nat (sval b))" by (rule huge_mono)
    then show "pow_error a b (RangeError ''BigInt is too large to allocate'')"
      using b(2) by (simp add: pow_error_def)
  next
    fix r :: bigint
    assume "length r = length a"
    then have "blit r 0 a = Some a" by (simp add: blit_def)
    moreover have "js_sat mf (pow_error a b) 0 0 (\<lambda>r. normal r \<and> sval r = sval a ^ nat (sval b))
        (pow_loop mf a e (bit_length (unat e) - 1) a)"
      using E [OF pow_loop_sat [OF a(1) _ a(1)]] a(2) top by (simp add: e)
    ultimately show "js_sat mf (pow_error a b) 0 0 (\<lambda>r. normal r \<and> sval r = sval a ^ nat (sval b))
        (js_bind (js_lift (blit r 0 a)) (\<lambda>r. pow_loop mf a e (bit_length (unat e) - 1) r))"
      by (rule js_sat_bind_lift)
  qed
qed

lemma pow_two_sat:
  assumes a: "\<bar>sval a\<bar> = 2 ^ n" "0 < n" "neg \<longleftrightarrow> sval a < 0" and b: "normal b" "0 < sval b"
  shows "js_sat_leak mf (pow_error a b) 1 1 (\<lambda>r. normal r \<and> sval r = sval a ^ nat (sval b))
    (pow_two mf n neg b)"
proof (cases "length b > 1 \<or> hd b > 0x7FFFFFFF")
  case True
  have "2 \<le> \<bar>sval a\<bar>" unfolding a(1) using a(2) power_increasing [of 1 n "2 :: int"] by simp
  moreover have "pow_two mf n neg b = pow_overflow" using True by (auto simp: pow_two_def)
  ultimately show ?thesis
    using pow_overflow_sat [OF _ overflow_huge [OF b(1) _ True]] b(2) by simp
next
  case False
  have ne: "b \<noteq> []" using b(1) by simp
  have "\<not> length b > 1" "\<not> hd b > 0x7FFFFFFF" using False by blast+
  note sm = small_exponent [OF ne this]
  define e where "e = unat (hd b) * n"
  have ab: "\<bar>sval a ^ nat (sval b)\<bar> = 2 ^ e"
    unfolding power_abs a(1) power_mult [symmetric] e_def using sm by (simp add: mult.commute)
  define is_neg where "is_neg \<longleftrightarrow> neg \<and> hd b AND 1 \<noteq> 0"
  have odd: "hd b AND 1 \<noteq> 0 \<longleftrightarrow> odd (unat (hd b))"
  proof -
    have "hd b AND 1 \<noteq> 0 \<longleftrightarrow> bit (hd b) 0" by (simp add: and_one_eq odd_iff_mod_2_eq_one bit_0)
    also have "\<dots> \<longleftrightarrow> bit (unat (hd b)) 0" by (simp only: bit_unsigned_iff) simp
    finally show ?thesis by (simp only: bit_0)
  qed
  have val: "sval a ^ nat (sval b) = (if is_neg then - (2 ^ e) else 2 ^ e)"
  proof -
    have "is_neg \<longleftrightarrow> sval a ^ nat (sval b) < 0"
      unfolding is_neg_def odd a(3) using sm by (auto simp: power_less_zero_eq)
    then show ?thesis using ab by (auto simp: abs_if split: if_splits)
  qed
  have huge_e: "huge (sval a ^ nat (sval b))" if "JS_BIGINT_MAX_SIZE * 64 \<le> e + 64"
  proof -
    have "BASE ^ (JS_BIGINT_MAX_SIZE - 1) = 2 ^ (64 * (JS_BIGINT_MAX_SIZE - 1))"
      by (simp only: BASE_def power_mult)
    also have "\<dots> \<le> (2 :: nat) ^ e" using that by (intro power_increasing) linarith+
    finally have "int (BASE ^ (JS_BIGINT_MAX_SIZE - 1)) \<le> int (2 ^ e)" by (simp only: of_nat_le_iff)
    also have "int (2 ^ e) \<le> 4 * 2 ^ e" by simp
    finally have "int (BASE ^ (JS_BIGINT_MAX_SIZE - 1)) \<le> 4 * 2 ^ e" .
    then show ?thesis by (simp only: huge_def ab)
  qed
  show ?thesis
  proof (cases "e > JS_BIGINT_MAX_SIZE * JS_LIMB_BITS")
    case True
    then have "pow_two mf n neg b = pow_overflow" using False by (simp add: pow_two_def e_def Let_def)
    then show ?thesis
      using pow_overflow_sat [OF _ huge_e] b(2) True by (simp add: JS_LIMB_BITS_def)
  next
    case le: False
    define len where "len = (e + 64 + 1 - of_bool is_neg) div 64"
    obtain r where r: "wr (replicate len 0) (e div 64) (push_bit (e mod 64) (1 - 2 * of_bool is_neg)) = Some r"
        "normal r" "sval r = sval a ^ nat (sval b)"
      using two_power_block [of e is_neg] unfolding val len_def by blast
    have eq: "pow_two mf n neg b = js_bind (js_bigint_new mf len) (\<lambda>x.
        js_lift (wr (replicate (length x) 0) (e div 64) (push_bit (e mod 64) (1 - 2 * of_bool is_neg))))"
      using False le by (simp add: pow_two_def Let_def e_def [symmetric] is_neg_def [symmetric] len_def JS_LIMB_BITS_def)
    show ?thesis
      unfolding eq
    proof (rule js_sat_leak_bind [OF js_bigint_new_sat])
      assume big: "JS_BIGINT_MAX_SIZE < len"
      have "len * 64 \<le> e + 65" unfolding len_def by (rule order_trans [OF div_times_less_eq_dividend]) simp
      then have "JS_BIGINT_MAX_SIZE * 64 \<le> e + 64" using big by linarith
      then show "pow_error a b (RangeError ''BigInt is too large to allocate'')"
        using huge_e b(2) by (simp add: pow_error_def)
    next
      fix x :: bigint
      assume "length x = len"
      then show "js_sat mf (pow_error a b) 0 0 (\<lambda>r. normal r \<and> sval r = sval a ^ nat (sval b))
         (js_lift (wr (replicate (length x) 0) (e div 64) (push_bit (e mod 64) (1 - 2 * of_bool is_neg))))"
        using r by (simp only:) (rule js_sat_lift, simp_all)
    qed
  qed
qed

lemma js_bigint_pow_sat:
  assumes a: "normal a" and b: "normal b"
  shows "js_sat_leak mf (pow_error a b) 1 1 (\<lambda>r. normal r \<and> sval r = sval a ^ nat (sval b))
    (js_bigint_pow mf a b)"
proof -
  let ?P = "\<lambda>r. normal r \<and> sval r = sval a ^ nat (sval b)"
  have ne: "a \<noteq> []" "b \<noteq> []" using a b by simp_all
  have sb: "js_bigint_sign b \<noteq> 0 \<longleftrightarrow> sval b < 0" using sval_nonneg_iff ne by (simp add: js_bigint_sign_eq)
  have one: "js_sat_leak mf (pow_error a b) 1 1 ?P (js_bigint_new_si mf x)"
    if "sint x = sval a ^ nat (sval b)" for x
    by (rule js_sat_leakI [OF js_sat_mono [OF js_bigint_new_si_sat [where E = "\<lambda>_. False"]]]) (use that in auto)
  consider (neg) "sval b < 0" | (zero) "b = [0]" | (pos) "0 < sval b" "b \<noteq> [0]"
    using normal_unique [OF b normal_single [of 0]] by fastforce
  then show ?thesis
  proof cases
    case neg
    then have "js_bigint_pow mf a b = js_throw (RangeError ''BigInt negative exponent'')"
      using sb by (simp add: js_bigint_pow_def)
    then show ?thesis using neg
      by (auto simp: pow_error_def intro!: js_sat_leakI [OF js_sat_throw])
  next
    case zero
    then have "js_bigint_pow mf a b = js_bigint_new_si mf 1" using sb by (simp add: js_bigint_pow_def)
    then show ?thesis using one [of 1] zero by simp
  next
    case pos
    have "b = [0]" if "length b = 1" "hd b = 0" using that by (cases b) auto
    then have nz: "\<not> (length b = 1 \<and> hd b = 0)" using pos(2) by blast
    have nn: "js_bigint_sign b = 0" using sb pos(1) by linarith
    note nz = nz nn
    show ?thesis
    proof (cases "length a = 1")
      case False
      then have "length a > 1" using ne by (cases a) auto
      then have "2 \<le> \<bar>sval a\<bar>"
      proof -
        have "BASE ^ 1 \<le> BASE ^ (length a - 1)"
          using \<open>length a > 1\<close> by (intro power_increasing) (simp_all add: Suc_leI)
        then have "int (BASE ^ 1) \<le> int (BASE ^ (length a - 1))" by (simp only: of_nat_le_iff)
        moreover have "sval a \<noteq> 0"
          using normal_unique [OF a normal_single [of 0]] \<open>length a > 1\<close> by auto
        ultimately have "int (BASE ^ 1) \<le> 2 * \<bar>sval a\<bar>" using normal_lower [OF a] by linarith
        then show ?thesis by (simp add: BASE_def)
      qed
      from pow_general_sat [OF a this b pos(1)] show ?thesis
        using False nz by (auto simp: js_bigint_pow_def)
    next
      case True
      then obtain v where v: "a = [v]" by (cases a) auto
      consider (triv) "v = 0 \<or> v = 1" | (minus) "v = - 1" | (gen) "\<not> v \<le> 1" "v \<noteq> - 1" "2 \<le> \<bar>sint v\<bar>"
      proof (cases "v = 0 \<or> v = 1 \<or> v = - 1")
        case False
        have le1: "v \<le> 1 \<longleftrightarrow> v = 0 \<or> v = 1"
          by (auto simp: word_le_nat_alt le_Suc_eq word_unat_eq_iff)
        have "sint v \<noteq> sint (0 :: limb)" "sint v \<noteq> sint (1 :: limb)" "sint v \<noteq> sint (- 1 :: limb)"
          using False sval_inj [of "[v]"] by (metis length_Cons list.distinct(1) list.inject sval_single list.size(3))+
        then have "2 \<le> \<bar>sint v\<bar>" by simp
        then show ?thesis using gen False le1 by blast
      qed (use triv minus in blast)
      then show ?thesis
      proof cases
        case triv
        then have "js_bigint_pow mf a b = js_bigint_new_si mf v" using nz v by (auto simp: js_bigint_pow_def)
        moreover have "sint v = sval a ^ nat (sval b)" using triv v pos(1) by (auto simp: zero_power)
        ultimately show ?thesis using one [of v] by (simp only:)
      next
        case minus
        have "\<not> (- 1 :: limb) \<le> 1"
          by (simp add: word_le_nat_alt unsigned_minus_1_eq_mask mask_eq_exp_minus_1)
        then have eq: "js_bigint_pow mf a b = js_bigint_new_si mf (1 - 2 * (hd b AND 1))"
          using nz v minus by (auto simp: js_bigint_pow_def Let_def)
        have odd: "odd (nat (sval b)) \<longleftrightarrow> hd b AND 1 \<noteq> 0"
        proof -
          obtain x xs where xs: "b = x # xs" using ne by (cases b) auto
          have "even (int (BASE ^ length b))" using xs by (simp add: BASE_def)
          then have "odd (sval b) \<longleftrightarrow> odd (limbs_val b)" by (auto simp: sval_def)
          also have "\<dots> \<longleftrightarrow> odd (unat x)" using xs by (simp add: BASE_def)
          also have "\<dots> \<longleftrightarrow> bit (unat x) 0" by (simp only: bit_0)
          also have "\<dots> \<longleftrightarrow> bit x 0" by (simp only: bit_unsigned_iff) simp
          also have "\<dots> \<longleftrightarrow> x AND 1 \<noteq> 0" by (simp add: and_one_eq odd_iff_mod_2_eq_one bit_0)
          finally show ?thesis using xs pos(1) by (simp add: even_nat_iff)
        qed
        have "sint (1 - 2 * (hd b AND 1)) = sval a ^ nat (sval b)"
        proof (cases "odd (nat (sval b))")
          case True
          then have "hd b AND 1 = 1" using odd by (simp add: and_one_eq)
          then show ?thesis using True v minus by simp
        next
          case False
          then have "hd b AND 1 = 0" using odd by simp
          then show ?thesis using False v minus by simp
        qed
        from one [OF this] show ?thesis unfolding eq .
      next
        case gen
        define v1 where "v1 = (if v <s 0 then - v else v)"
        have v0: "v \<noteq> 0" using gen(1) by auto
        have v1: "int (unat v1) = \<bar>sval a\<bar>" unfolding v1_def using abs_limb [OF v0] v by simp
        show ?thesis
        proof (cases "v1 AND (v1 - 1) = 0")
          case True
          have v10: "v1 \<noteq> 0" using v1 gen(3) v by auto
          have n: "\<bar>sval a\<bar> = 2 ^ (63 - js_limb_clz v1)"
            unfolding v1 [symmetric] power_of_two_limb [OF v10 True] by simp
          have n0: "0 < 63 - js_limb_clz v1" using n gen(3) v by (cases "63 - js_limb_clz v1") auto
          have neg: "v <s 0 \<longleftrightarrow> sval a < 0" using v by (simp add: word_sless_alt)
          have "js_bigint_pow mf a b = pow_two mf (63 - js_limb_clz v1) (v <s 0) b"
            using nz v gen(1,2) True by (auto simp: js_bigint_pow_def Let_def v1_def JS_LIMB_BITS_def)
          then show ?thesis using pow_two_sat [OF n n0 neg b pos(1)] by simp
        next
          case False
          have "js_bigint_pow mf a b = pow_general mf a b"
            using nz v gen(1,2) False by (auto simp: js_bigint_pow_def Let_def v1_def)
          then show ?thesis using pow_general_sat [OF a _ b pos(1)] gen(3) v by simp
        qed
      qed
    qed
  qed
qed

end
