(* ===== verification/BigInt_Float.thy ===== *)
theory BigInt_Float
  imports BigInt_Div Complex_Main
begin

text \<open>
  BigInt values and doubles: \<open>js_bigint_to_float64\<close>, \<open>js_bigint_from_float64\<close> and
  \<open>js_bigint_float64_cmp\<close> of \<open>src/src/core/quickjs.c\<close>.  A double is its 64-bit pattern.
\<close>

section \<open>The code\<close>

text \<open>The magnitude of the low limbs: \<open>low\<close> collects their bits.\<close>

fun mant_low :: "limb list \<Rightarrow> limb \<Rightarrow> limb \<Rightarrow> limb \<Rightarrow> limb \<times> limb" where
  "mant_low [] msk carry low = (low, carry)"
| "mant_low (x # xs) msk carry low =
     (let v = (x XOR msk) + carry in mant_low xs msk (of_bool (v < carry)) (low OR v))"

text \<open>The normalisation of the two high limbs: the shift and the mantissa.\<close>

definition mant_norm :: "limb \<Rightarrow> limb \<Rightarrow> nat \<times> limb" where
  "mant_norm t1 a0 =
     (let (shift, a1, a0') =
        (if t1 = 0 then (64, a0, 0)
         else let s = js_limb_clz t1 in
           if s \<noteq> 0 then (s, push_bit s t1 OR drop_bit (64 - s) a0, push_bit s a0)
           else (s, t1, a0))
      in (shift, a1 OR of_bool (a0' \<noteq> 0)))"

definition js_bigint_get_mant_exp :: "bigint \<Rightarrow> u64 \<times> int" where
  "js_bigint_get_mant_exp a =
     (let n = length a; sgn = js_bigint_sign a; msk = - sgn;
          (low, c) = mant_low (take (n - 2) a) msk sgn 0;
          (t0, c0) = (if n < 2 then (0, c)
                      else let v = (a ! (n - 2) XOR msk) + c in (v, of_bool (v < c)));
          t1 = (a ! (n - 1) XOR msk) + c0;
          (shift, a1) = mant_norm t1 (t0 OR of_bool (low \<noteq> 0))
      in (a1, int n * 64 - int shift - 1))"

definition shr_rndn :: "u64 \<Rightarrow> nat \<Rightarrow> u64" where
  "shr_rndn a n =
     (let addend = (drop_bit n a AND 1) + (push_bit (n - 1) 1 - 1) in drop_bit n (a + addend))"

definition mask52 :: u64 where "mask52 = push_bit 52 1 - 1"

definition f64_bits :: "u64 \<Rightarrow> int \<Rightarrow> u64 \<Rightarrow> u64" where
  "f64_bits s e m = push_bit 63 s OR push_bit 52 (word_of_int e) OR m"

text \<open>
  Round a natural number divided by a power of two to the nearest, ties to even; and the
  double nearest to an integer, which is what C's conversion from \<open>int64_t\<close> computes.
\<close>

definition rhe :: "nat \<Rightarrow> nat \<Rightarrow> nat" where
  "rhe n s = (let q = n div 2 ^ s; r = n mod 2 ^ s
              in if 2 * r > 2 ^ s \<or> (2 * r = 2 ^ s \<and> odd q) then q + 1 else q)"

definition float64_of_int :: "int \<Rightarrow> u64" where
  "float64_of_int v =
     (if v = 0 then 0
      else
        let n = nat \<bar>v\<bar>; L = bit_length n;
            m0 = (if L \<le> 53 then n * 2 ^ (53 - L) else rhe n (L - 53));
            (m, e) = (if m0 = 2 ^ 53 then (2 ^ 52, int L) else (m0, int L - 1))
        in if e > 1023 then f64_bits (of_bool (v < 0)) 2047 0
           else f64_bits (of_bool (v < 0)) (e + 1023) (of_nat (m - 2 ^ 52)))"

definition js_bigint_to_float64 :: "bigint \<Rightarrow> u64" where
  "js_bigint_to_float64 a =
     (if length a = 1 then float64_of_int (sint (hd a))
      else
        let sgn = js_bigint_sign a; (mant, e) = js_bigint_get_mant_exp a;
            (mant, e) =
              (if e > 1023 then (0, 1024)
               else
                 let mant = drop_bit 1 mant OR (mant AND 1); mant = shr_rndn mant 10;
                     (mant, e) = (if mant \<ge> push_bit 53 1 then (drop_bit 1 mant, e + 1) else (mant, e))
                 in (mant AND mask52, e))
        in f64_bits sgn (e + 1023) mant)"

definition f64_sign :: "u64 \<Rightarrow> u64" where "f64_sign b = drop_bit 63 b"
definition f64_exp :: "u64 \<Rightarrow> int" where "f64_exp b = uint (drop_bit 52 b AND (push_bit 11 1 - 1))"
definition f64_mant :: "u64 \<Rightarrow> u64" where "f64_mant b = b AND mask52"

text \<open>The code \<open>*pres\<close> and the value; a double that is not an integer is \<open>NULL\<close> without an exception.\<close>

definition js_bigint_from_float64 :: "malloc_funcs \<Rightarrow> u64 \<Rightarrow> nat \<times> bigint js" where
  "js_bigint_from_float64 mf a =
     (let sgn = f64_sign a; e = f64_exp a; mant = f64_mant a; null = (\<lambda>rt. Some (Null, rt)) in
      if e = 2047 then (2, null)
      else if e = 0 \<and> mant = 0 then (0, js_bigint_new_si mf 0)
      else
        let e = e - 1023 in
        if e < 0 then (1, null)
        else
          let mant = mant OR push_bit 52 1; shift = nat (52 - e) in
          if e < 52 \<and> mant AND (push_bit shift 1 - 1) \<noteq> 0 then (1, null)
          else
            let (mant, e) = (if e < 52 then (drop_bit shift mant, 0) else (mant, e - 52));
                mant = (if sgn \<noteq> 0 then - mant else mant)
            in (0, js_bigint_shl mf (js_bigint_set_si mant) (word_of_int e)))"

text \<open>-1, 0, 1 or 2 (unordered).\<close>

definition js_bigint_float64_cmp :: "bigint \<Rightarrow> u64 \<Rightarrow> int" where
  "js_bigint_float64_cmp a b =
     (let b_sign = uint (f64_sign b); e = f64_exp b; mant = f64_mant b;
          a_sign = uint (js_bigint_sign a); a_zero = (length a = 1 \<and> hd a = 0) in
      if e = 2047 then (if mant \<noteq> 0 then 2 else 2 * b_sign - 1)
      else if e = 0 \<and> mant = 0 then (if a_zero then 0 else 1 - 2 * a_sign)
      else if a_zero then 2 * b_sign - 1
      else if a_sign \<noteq> b_sign then 1 - 2 * a_sign
      else
        let e = e - 1023; (a_mant, f) = js_bigint_get_mant_exp a in
        if f \<noteq> e then (if f < e then - 1 else 1)
        else
          let mant = push_bit 11 (mant OR push_bit 52 1) in
          if a_mant < mant then 2 * a_sign - 1
          else if a_mant > mant then 1 - 2 * a_sign
          else 0)"

section \<open>Sticky bits and rounding\<close>

text \<open>The quotient by a power of two, with a low bit that says whether it is inexact.\<close>

definition stick :: "nat \<Rightarrow> nat \<Rightarrow> nat" where
  "stick n s = n div 2 ^ s + of_bool (even (n div 2 ^ s) \<and> n mod 2 ^ s \<noteq> 0)"

lemma or_bit_nat: "(x :: nat) OR of_bool b = x + of_bool (even x \<and> b)"
  by (cases b) (simp_all add: or_Suc_0_eq)

lemma stick_or: "n div 2 ^ s OR of_bool (n mod 2 ^ s \<noteq> 0) = stick n s"
  by (simp only: stick_def or_bit_nat)

lemma stick_div2: "stick n s div 2 = n div 2 ^ Suc s"
proof -
  have "n div 2 ^ Suc s = n div 2 ^ s div 2" by (simp only: power_Suc2 div_mult2_eq)
  then show ?thesis by (auto simp: stick_def elim!: evenE)
qed

lemma stick_even: "even (stick n s) \<longleftrightarrow> even (n div 2 ^ s) \<and> n mod 2 ^ s = 0"
  by (auto simp: stick_def)

lemma mod_pow_Suc: "(n :: nat) mod 2 ^ Suc s = 2 ^ s * (n div 2 ^ s mod 2) + n mod 2 ^ s"
  using mod_mult2_eq [of n "2 ^ s" 2] by (simp only: power_Suc2)

lemma stick_Suc: "stick n s div 2 OR (stick n s mod 2) = stick n (Suc s)"
proof -
  have "n mod 2 ^ Suc s = 0 \<longleftrightarrow> even (stick n s)"
    unfolding mod_pow_Suc stick_even by (auto simp: even_iff_mod_2_eq_zero)
  then have "stick n s mod 2 = of_bool (n mod 2 ^ Suc s \<noteq> 0)"
    by (simp add: mod2_eq_if)
  then show ?thesis unfolding stick_div2 by (simp only: stick_or)
qed

lemma rhe_stick: "rhe (stick n t) 10 = rhe n (t + 10)"
proof -
  define x l where "x = n div 2 ^ t" and "l = n mod 2 ^ t"
  define X q where "X = x mod 1024" and "q = x div 1024"
  define D :: nat where "D = 2 ^ t"
  have D: "0 < D" "l < D" by (simp_all add: D_def l_def)
  have p10: "(2 :: nat) ^ (t + 10) = D * 1024" by (simp add: D_def power_add)
  have x: "x = 1024 * q + X" "X < 1024" by (simp_all add: X_def q_def)
  have dq: "n div 2 ^ (t + 10) = q" unfolding p10 div_mult2_eq D_def q_def x_def ..
  have dr: "n mod 2 ^ (t + 10) = D * X + l" unfolding p10 mod_mult2_eq X_def x_def l_def D_def by simp
  define b where "b = (even x \<and> l \<noteq> 0)"
  have s: "stick n t = 1024 * q + (X + of_bool b)" by (simp add: stick_def x_def [symmetric] l_def [symmetric] b_def x(1))
  have ev: "even x \<longleftrightarrow> even X" unfolding x(1) by simp
  have Xb: "X + of_bool b < 1024"
    using x(2) ev by (cases b) (auto simp: b_def elim!: evenE)
  have sq: "stick n t div 2 ^ 10 = q" "stick n t mod 2 ^ 10 = X + of_bool b"
    using Xb by (simp_all add: s)
  have gt: "2 * (D * X + l) > D * 1024 \<longleftrightarrow> 2 * (X + of_bool b) > 1024"
  proof (cases "X < 512")
    case True
    then have "D * (X + 1) \<le> D * 512" by (intro mult_le_mono2) simp
    then have "D * X + l < D * 512" using D unfolding distrib_left by linarith
    then have "\<not> 2 * (D * X + l) > D * 1024" by simp
    moreover have "X + of_bool b \<le> 512" using True by (cases b) simp_all
    ultimately show ?thesis by simp
  next
    case False
    show ?thesis
    proof (cases "X = 512")
      case True
      then show ?thesis using ev by (auto simp: b_def)
    next
      case False
      then have "D * 513 \<le> D * X" using \<open>\<not> X < 512\<close> by (intro mult_le_mono2) simp
      then have "2 * (D * X + l) > D * 1024" using D unfolding distrib_left by linarith
      then show ?thesis using False \<open>\<not> X < 512\<close> by simp
    qed
  qed
  have eq: "2 * (D * X + l) = D * 1024 \<longleftrightarrow> 2 * (X + of_bool b) = 1024"
  proof (cases "X = 512")
    case True
    then show ?thesis using ev D by (auto simp: b_def)
  next
    case False
    have "X + of_bool b \<noteq> 512"
    proof
      assume a: "X + of_bool b = 512"
      then have "b" "X = 511" using False by (cases b; simp)+
      then show False using ev by (simp add: b_def)
    qed
    moreover have "2 * (D * X + l) \<noteq> D * 1024"
    proof (cases "X < 512")
      case True
      then have "D * (X + 1) \<le> D * 512" by (intro mult_le_mono2) simp
      then have "D * X + l < D * 512" using D unfolding distrib_left by linarith
      then show ?thesis by simp
    next
      case False
      then have "D * 513 \<le> D * X" using \<open>X \<noteq> 512\<close> by (intro mult_le_mono2) simp
      then show ?thesis using D unfolding distrib_left by linarith
    qed
    ultimately show ?thesis by simp
  qed
  show ?thesis
    unfolding rhe_def Let_def dq dr sq unfolding p10 using gt eq by simp
qed

lemma rhe_add: "(m + (m div 1024 mod 2) + 511) div 1024 = rhe m 10"
proof -
  define q r where "q = m div 1024" and "r = m mod 1024"
  have m: "m = 1024 * q + r" "r < 1024" by (simp_all add: q_def r_def)
  have "(m + q mod 2 + 511) div 1024 = q + (r + q mod 2 + 511) div 1024"
    unfolding m(1) by (simp add: algebra_simps div_mult_self4)
  also have "(r + q mod 2 + 511) div 1024 = of_bool (r > 512 \<or> (r = 512 \<and> odd q))"
  proof (cases "r > 512 \<or> (r = 512 \<and> odd q)")
    case True
    then have "1024 \<le> r + q mod 2 + 511" by (auto simp: mod2_eq_if)
    moreover have "r + q mod 2 + 511 < 2048" using m(2) mod_less_divisor [of 2 q] by simp
    ultimately show ?thesis using True by (simp add: div_nat_eqI)
  next
    case False
    then have "r + q mod 2 + 511 < 1024" by (auto simp: mod2_eq_if)
    then show ?thesis using False by simp
  qed
  finally show ?thesis unfolding rhe_def Let_def q_def r_def by auto
qed

lemma rhe_bounds:
  assumes "2 ^ (s + k) \<le> n" "n < 2 ^ (s + Suc k)"
  shows "2 ^ k \<le> rhe n s" "rhe n s \<le> 2 ^ Suc k"
proof -
  have "2 ^ k \<le> n div 2 ^ s" using assms(1) by (simp add: less_eq_div_iff_mult_less_eq power_add mult.commute)
  moreover have "n div 2 ^ s < 2 ^ Suc k"
    using assms(2) by (simp add: div_less_iff_less_mult power_add ac_simps)
  ultimately show "2 ^ k \<le> rhe n s" "rhe n s \<le> 2 ^ Suc k" by (auto simp: rhe_def Let_def)
qed

section \<open>The mantissa of a BigInt\<close>

lemma or_bit_take: "((x :: nat) OR of_bool b) mod 2 ^ Suc j = (x mod 2 ^ Suc j) OR of_bool b"
proof -
  have "take_bit (Suc j) (x OR of_bool b) = take_bit (Suc j) x OR of_bool b"
    by (cases b) (simp_all add: take_bit_or)
  then show ?thesis by (simp only: take_bit_eq_mod)
qed

lemma or_bit_div: "((x :: nat) OR of_bool b) div 2 ^ Suc j = x div 2 ^ Suc j"
  unfolding or_bit_nat power_Suc div_mult2_eq by (auto elim!: evenE)

lemma unat_or_bool: "unat (x OR of_bool b :: limb) = unat x OR of_bool b"
  by (cases b) (simp_all add: unsigned_or_eq)

lemma push_bit_eq_0: "s < 64 \<Longrightarrow> push_bit s (x :: limb) = 0 \<longleftrightarrow> unat x mod 2 ^ (64 - s) = 0"
proof -
  assume s: "s < 64"
  have "unat (push_bit s x) = (unat x * 2 ^ s) mod 2 ^ 64"
    by (subst unsigned_push_bit_eq) (simp add: take_bit_eq_mod push_bit_eq_mult)
  also have "(2 :: nat) ^ 64 = 2 ^ (64 - s) * 2 ^ s" using s by (simp flip: power_add)
  also have "(unat x * 2 ^ s) mod (2 ^ (64 - s) * 2 ^ s) = (unat x mod 2 ^ (64 - s)) * 2 ^ s"
    by (rule mult_mod_left [symmetric])
  finally show ?thesis by (simp add: unat_eq_zero [symmetric] del: unat_eq_zero)
qed

lemma mant_norm_spec:
  fixes t0 t1 :: limb and l k :: nat
  defines "D \<equiv> 2 ^ (64 * k)"
  defines "N \<equiv> l + D * (unat t0 + BASE * unat t1)"
  assumes l: "l < D" and top: "t1 \<noteq> 0 \<or> 2 ^ 63 \<le> unat t0"
  assumes r: "mant_norm t1 (t0 OR of_bool (l \<noteq> 0)) = (shift, a1)"
  shows "bit_length N + shift = 64 * (k + 2) \<and> 64 \<le> bit_length N \<and> unat a1 = stick N (bit_length N - 64)"
proof (cases "t1 = 0")
  case True
  have N: "N = l + D * unat t0" using True by (simp add: N_def)
  have t0: "2 ^ 63 \<le> unat t0" "unat t0 < 2 ^ 64" using top True unat_limb [of t0] by (simp_all add: BASE_def)
  have "2 ^ (64 * k + 63) = D * 2 ^ 63" by (simp add: D_def power_add)
  also have "\<dots> \<le> D * unat t0" by (rule mult_le_mono2 [OF t0(1)])
  finally have lo: "2 ^ (64 * k + 63) \<le> N" by (simp add: N)
  have "N < D * (unat t0 + 1)" using l by (simp add: N)
  also have "\<dots> \<le> D * 2 ^ 64" using t0(2) by (intro mult_le_mono2) simp
  also have "\<dots> = 2 ^ Suc (64 * k + 63)" by (simp add: D_def power_add)
  finally have L: "bit_length N = 64 * k + 64" using bit_lengthI [OF lo] by simp
  have "N div 2 ^ (64 * k) = unat t0" "N mod 2 ^ (64 * k) = l"
    using l unfolding N D_def [symmetric] by simp_all
  then have "stick N (64 * k) = unat t0 OR of_bool (l \<noteq> 0)" using stick_or [of N "64 * k"] by simp
  moreover have "shift = 64" "a1 = t0 OR of_bool (l \<noteq> 0)" using r True by (simp_all add: mant_norm_def)
  ultimately show ?thesis using L by (simp add: unat_or_bool del: of_bool_eq_iff)
next
  case False
  define s where "s = js_limb_clz t1"
  note clz = js_limb_clz_spec [OF False, folded s_def]
  define j where "j = 63 - s"
  have js: "64 - s = Suc j" "s < 64" using clz(2) by (simp_all add: j_def)
  define t0' where "t0' = t0 OR of_bool (l \<noteq> 0)"
  have T: "BASE = 2 ^ Suc j * 2 ^ s" unfolding js(1) [symmetric] BASE_def using js(2) by (simp flip: power_add)
  have lo1: "2 ^ j \<le> unat t1"
  proof -
    have "2 ^ j * 2 ^ s \<le> unat t1 * 2 ^ s" using clz(3) js(2) by (simp add: j_def flip: power_add)
    then show ?thesis by simp
  qed
  have up1: "unat t1 + 1 \<le> 2 ^ Suc j"
  proof -
    have "(unat t1 + 1) * 2 ^ s \<le> 2 ^ Suc j * 2 ^ s" using clz(4) unfolding T .
    then show ?thesis unfolding mult_le_cancel2 by simp
  qed
  have p: "2 ^ (64 * k + 64 + j) = D * (BASE * 2 ^ j)" by (simp add: D_def BASE_def power_add)
  have "D * (BASE * 2 ^ j) \<le> D * (BASE * unat t1)" by (intro mult_le_mono2 lo1)
  also have "\<dots> \<le> N" by (simp add: N_def algebra_simps)
  finally have lo: "2 ^ (64 * k + 64 + j) \<le> N" unfolding p .
  have "N < D * (unat t0 + BASE * unat t1 + 1)" using l by (simp add: N_def)
  also have "\<dots> \<le> D * (BASE * (unat t1 + 1))"
    using unat_limb [of t0] by (intro mult_le_mono2) (simp add: algebra_simps Suc_le_eq)
  also have "\<dots> \<le> D * (BASE * 2 ^ Suc j)" by (intro mult_le_mono2 up1)
  also have "\<dots> = 2 ^ Suc (64 * k + 64 + j)" unfolding power_Suc p by (simp only: power_Suc ac_simps)
  finally have L: "bit_length N = Suc (64 * k + 64 + j)" using bit_lengthI [OF lo] by simp
  have L64: "bit_length N - 64 = 64 * k + Suc j" using L by simp
  define W where "W = unat t0 + BASE * unat t1"
  have ND: "N div D = W" "N mod D = l" using l by (simp_all add: N_def W_def)
  have pow: "(2 :: nat) ^ (64 * k + Suc j) = D * 2 ^ Suc j" by (simp add: D_def power_add)
  have q: "N div 2 ^ (64 * k + Suc j) = W div 2 ^ Suc j" unfolding pow div_mult2_eq ND ..
  have m: "N mod 2 ^ (64 * k + Suc j) = 0 \<longleftrightarrow> W mod 2 ^ Suc j = 0 \<and> l = 0"
    unfolding pow mod_mult2_eq ND using l by auto
  have Wd: "W div 2 ^ Suc j = unat t1 * 2 ^ s + unat t0' div 2 ^ Suc j"
  proof -
    have "W = unat t0 + (unat t1 * 2 ^ s) * 2 ^ Suc j" unfolding W_def T by (simp only: ac_simps)
    then show ?thesis unfolding t0'_def unat_or_bool or_bit_div
      using div_mult_self1 [of "2 ^ Suc j" "unat t0" "unat t1 * 2 ^ s"] by (simp only: power_not_zero) simp
  qed
  have Wm: "W mod 2 ^ Suc j = unat t0 mod 2 ^ Suc j"
    unfolding W_def T mult.assoc by (rule mod_mult_self2)
  have st: "unat t0' mod 2 ^ Suc j \<noteq> 0 \<longleftrightarrow> N mod 2 ^ (64 * k + Suc j) \<noteq> 0"
    unfolding m Wm t0'_def unat_or_bool or_bit_take by (auto simp: or_bit_nat)
  have "unat a1 = (N div 2 ^ (64 * k + Suc j)) OR of_bool (N mod 2 ^ (64 * k + Suc j) \<noteq> 0) \<and> shift = s"
  proof (cases "s = 0")
    case True
    then have j63: "Suc j = 64" using js by simp
    have "unat t0' div 2 ^ 64 = 0" "unat t0' mod 2 ^ 64 = unat t0'"
      using unat_limb [of t0'] by (simp_all add: BASE_def)
    then have z: "unat t0' div 2 ^ Suc j = 0" "unat t0' mod 2 ^ Suc j = unat t0'" unfolding j63 .
    have a1: "shift = 0" "a1 = t1 OR of_bool (t0' \<noteq> 0)"
      using r [folded t0'_def] False True by (auto simp add: mant_norm_def s_def [symmetric])
    have "t0' \<noteq> 0 \<longleftrightarrow> N mod 2 ^ (64 * k + Suc j) \<noteq> 0" using st unfolding z by (simp only: unat_eq_zero)
    moreover have "N div 2 ^ (64 * k + Suc j) = unat t1" unfolding q Wd z(1) using True by simp
    ultimately show ?thesis unfolding a1 unat_or_bool using True by (simp only:)
  next
    case nz: False
    have "unat (drop_bit (64 - s) t0') = unat t0' div 2 ^ Suc j" by (simp only: unat_drop_bit_div js(1))
    moreover have "unat (push_bit s t1 OR drop_bit (64 - s) t0') = unat t1 * 2 ^ s + unat (drop_bit (64 - s) t0')"
    proof (rule unat_push_or)
      show "unat (drop_bit (64 - s) t0') < 2 ^ s"
        unfolding unat_drop_bit_div js(1) using unat_limb [of t0'] T by (simp add: div_less_iff_less_mult mult.commute)
      show "unat t1 < 2 ^ (LENGTH(64) - s)" using up1 js(1) by simp
    qed (use js in simp)
    moreover have "push_bit s t0' \<noteq> 0 \<longleftrightarrow> unat t0' mod 2 ^ Suc j \<noteq> 0"
      using push_bit_eq_0 [OF js(2)] js(1) by simp
    moreover have "shift = s" "a1 = (push_bit s t1 OR drop_bit (64 - s) t0') OR of_bool (push_bit s t0' \<noteq> 0)"
      using r [folded t0'_def] False nz by (auto simp add: mant_norm_def s_def [symmetric])
    ultimately show ?thesis using st unfolding q Wd by (simp only: unat_or_bool simp_thms)
  qed
  then show ?thesis unfolding L64 stick_or using L js by auto
qed

lemma mp_neg_loop_append:
  "mp_neg_loop (xs @ ys) c =
   (let (r1, c1) = mp_neg_loop xs c; (r2, c2) = mp_neg_loop ys c1 in (r1 @ r2, c2))"
  by (induction xs arbitrary: c) (auto simp: Let_def split: prod.splits)

lemma mant_low_neg:
  "mp_neg_loop xs c = (vs, c') \<Longrightarrow>
   \<exists>low'. mant_low xs (- 1) c low = (low', c') \<and> (low' = 0 \<longleftrightarrow> low = 0 \<and> limbs_val vs = 0)"
proof (induction xs arbitrary: c low vs)
  case (Cons x xs)
  define v where "v = NOT x + c"
  obtain rs where rs: "mp_neg_loop xs (of_bool (v < c)) = (rs, c')" "vs = v # rs"
    using Cons.prems by (auto simp: Let_def v_def split: prod.splits)
  from Cons.IH [OF rs(1), of "low OR v"] obtain low' where
    "mant_low xs (- 1) (of_bool (v < c)) (low OR v) = (low', c')"
    "low' = 0 \<longleftrightarrow> low OR v = 0 \<and> limbs_val rs = 0" by blast
  moreover have "low OR v = 0 \<longleftrightarrow> low = 0 \<and> v = 0" by (rule or_eq_0_iff)
  moreover have "x XOR - 1 = NOT x" by simp
  ultimately show ?case using rs(2) by (auto simp: v_def unat_eq_zero)
qed auto

lemma mant_low_pos:
  "\<exists>low'. mant_low xs 0 0 low = (low', 0) \<and> (low' = 0 \<longleftrightarrow> low = 0 \<and> limbs_val xs = 0)"
proof (induction xs arbitrary: low)
  case (Cons x xs)
  from Cons [of "low OR x"] show ?case by (auto simp: or_eq_0_iff unat_eq_zero)
qed auto

definition mant64 :: "nat \<Rightarrow> nat" where
  "mant64 n = (if bit_length n < 64 then n * 2 ^ (64 - bit_length n) else stick n (bit_length n - 64))"

lemma bit_length_shift: "0 < n \<Longrightarrow> bit_length (n * 2 ^ k) = bit_length n + k"
proof -
  assume n: "0 < n"
  obtain m where m: "bit_length n = Suc m" using bit_length_spec [OF n] by (cases "bit_length n") auto
  then have "2 ^ m * 2 ^ k \<le> n * 2 ^ k" "n * 2 ^ k < 2 ^ Suc m * 2 ^ k"
    using bit_length_spec [OF n] by simp_all
  then have "bit_length (n * 2 ^ k) = Suc (m + k)" by (intro bit_lengthI) (simp_all add: power_add mult.assoc)
  then show ?thesis using m by simp
qed

lemma mant64_shift:
  assumes "0 < n" "bit_length n \<le> 64"
  shows "stick (n * 2 ^ 64) (bit_length n) = mant64 n"
proof -
  define b where "b = bit_length n"
  have e: "n * 2 ^ 64 = (n * 2 ^ (64 - b)) * 2 ^ b"
    using assms(2) by (simp add: b_def mult.assoc flip: power_add)
  have "stick (n * 2 ^ 64) b = n * 2 ^ (64 - b)" unfolding e by (simp add: stick_def)
  then show ?thesis using assms(2) by (auto simp: mant64_def b_def stick_def)
qed

text \<open>The two high limbs and the low limbs, as the code sees them.\<close>

lemma mant_parts:
  assumes "a = xs @ [y0, y1]" "mant_low xs (- js_bigint_sign a) (js_bigint_sign a) 0 = (low, c)"
  shows "\<exists>vs. length vs = length xs \<and>
    abs_limbs a = vs @ [(y0 XOR - js_bigint_sign a) + c,
      (y1 XOR - js_bigint_sign a) + of_bool ((y0 XOR - js_bigint_sign a) + c < c)] \<and>
    (low = 0 \<longleftrightarrow> limbs_val vs = 0)"
proof (cases "neg_limb (last a)")
  case True
  then have s: "js_bigint_sign a = 1" by (simp add: js_bigint_sign_eq)
  obtain vs c' where vs: "mp_neg_loop xs 1 = (vs, c')" by (cases "mp_neg_loop xs 1")
  have "low = 0 \<longleftrightarrow> limbs_val vs = 0" "c' = c"
    using mant_low_neg [OF vs, of 0] assms(2) unfolding s by auto
  moreover have "length vs = length xs" using mp_neg_loop_spec [OF vs] by simp
  moreover have "abs_limbs a = vs @ [NOT y0 + c', NOT y1 + of_bool (NOT y0 + c' < c')]"
    using s by (simp add: abs_limbs_def mp_neg_def assms(1) mp_neg_loop_append vs Let_def)
  ultimately show ?thesis unfolding s by auto
next
  case False
  then have s: "js_bigint_sign a = 0" by (simp add: js_bigint_sign_eq)
  have "low = 0 \<longleftrightarrow> limbs_val xs = 0" "c = 0"
    using mant_low_pos [of xs 0] assms(2) unfolding s by auto
  then show ?thesis unfolding s using s assms(1) by (auto simp: abs_limbs_def)
qed

lemma get_mant_exp_spec:
  assumes a: "normal a" and nz: "sval a \<noteq> 0"
  shows "\<exists>a1. js_bigint_get_mant_exp a = (a1, int (bit_length (nat \<bar>sval a\<bar>)) - 1) \<and>
    unat a1 = mant64 (nat \<bar>sval a\<bar>)"
proof -
  define N where "N = nat \<bar>sval a\<bar>"
  have ne: "a \<noteq> []" using a by simp
  have N: "N = limbs_val (abs_limbs a)" using abs_limbs_spec(2) [OF ne] by (simp add: N_def)
  have N0: "0 < N" using nz by (simp add: N_def)
  show ?thesis
  proof (cases "length a = 1")
    case True
    then obtain x where x: "a = [x]" by (cases a) auto
    define t1 where "t1 = (x XOR - js_bigint_sign a) + js_bigint_sign a"
    have ab: "abs_limbs a = [t1]"
      by (cases "neg_limb x") (simp_all add: x abs_limbs_def js_bigint_sign_eq mp_neg_def t1_def Let_def)
    then have t1: "unat t1 = N" using N by simp
    then have t10: "t1 \<noteq> 0" using N0 by auto
    obtain shift a1 where m: "mant_norm t1 0 = (shift, a1)" by (cases "mant_norm t1 0")
    have "N < 2 ^ 64" using unat_limb [of t1] t1 by (simp add: BASE_def)
    with bit_length_spec [OF N0] have "(2 :: nat) ^ (bit_length N - 1) < 2 ^ 64" by linarith
    then have "bit_length N - 1 < 64" by (simp only: power_strict_increasing_iff)
    then have b64: "bit_length N \<le> 64" by linarith
    have "N * 2 ^ 64 = 0 + 2 ^ (64 * 0) * (unat (0 :: limb) + BASE * unat t1)" using t1 by (simp add: BASE_def)
    then have "bit_length (N * 2 ^ 64) + shift = 128 \<and> unat a1 = stick (N * 2 ^ 64) (bit_length (N * 2 ^ 64) - 64)"
      using mant_norm_spec [of 0 0 t1 0 shift a1] t10 m by simp
    then have "bit_length N + shift = 64" "unat a1 = mant64 N"
      using bit_length_shift [OF N0, of 64] mant64_shift [OF N0 b64] by simp_all
    moreover from this have "int (length a) * 64 - int shift - 1 = int (bit_length N) - 1" using True by simp
    moreover have "js_bigint_get_mant_exp a = (a1, int (length a) * 64 - int shift - 1)"
      using m by (simp add: js_bigint_get_mant_exp_def x t1_def [unfolded x])
    ultimately show ?thesis by (simp add: N_def)
  next
    case False
    then obtain xs y0 y1 where x: "a = xs @ [y0, y1]"
      using ne by (cases a rule: rev_cases; simp) (metis append_butlast_last_id)
    let ?s = "js_bigint_sign a"
    obtain low c where low: "mant_low xs (- ?s) ?s 0 = (low, c)" by (cases "mant_low xs (- ?s) ?s 0")
    define t0 t1 where "t0 = (y0 XOR - ?s) + c" and "t1 = (y1 XOR - ?s) + of_bool (t0 < c)"
    from mant_parts [OF x low] obtain vs where vs: "length vs = length xs"
        "abs_limbs a = vs @ [t0, t1]" "low = 0 \<longleftrightarrow> limbs_val vs = 0"
      by (auto simp: t0_def t1_def)
    let ?k = "length xs"
    have pk: "BASE ^ ?k = 2 ^ (64 * ?k)" by (simp only: BASE_def power_mult)
    have Nv: "N = limbs_val vs + 2 ^ (64 * ?k) * (unat t0 + BASE * unat t1)"
      unfolding N vs(2) limbs_val_append vs(1) pk by simp
    have lt: "limbs_val vs < 2 ^ (64 * ?k)" using limbs_val_less [of vs] vs(1) pk by simp
    have top: "t1 \<noteq> 0 \<or> 2 ^ 63 \<le> unat t0"
    proof (rule ccontr)
      assume "\<not> ?thesis"
      then have z: "t1 = 0" "unat t0 + 1 \<le> 2 ^ 63" by simp_all
      define D where "D = BASE ^ ?k"
      have "int (BASE ^ (length a - 1)) \<le> 2 * \<bar>sval a\<bar>" by (rule normal_lower [OF a nz])
      also have "2 * \<bar>sval a\<bar> = int (2 * N)" by (simp add: N_def)
      finally have "BASE ^ (length a - 1) \<le> 2 * N" by (simp only: of_nat_le_iff)
      then have "D * BASE \<le> 2 * N" using x by (simp add: D_def mult.commute)
      moreover have "N < D * (unat t0 + 1)" using Nv z(1) lt pk by (simp add: D_def)
      moreover have "D * (unat t0 + 1) \<le> D * 2 ^ 63" by (rule mult_le_mono2 [OF z(2)])
      moreover have "D * BASE = 2 * (D * 2 ^ 63)" by (simp add: BASE_def)
      ultimately show False by linarith
    qed
    obtain shift a1 where m: "mant_norm t1 (t0 OR of_bool (low \<noteq> 0)) = (shift, a1)"
      by (cases "mant_norm t1 (t0 OR of_bool (low \<noteq> 0))")
    have spec: "bit_length N + shift = 64 * (?k + 2)" "64 \<le> bit_length N" "unat a1 = stick N (bit_length N - 64)"
      using mant_norm_spec [OF lt top, of shift a1] m unfolding Nv [symmetric] vs(3) by blast+
    have take: "take (length a - 2) a = xs" "a ! (length a - 2) = y0" "a ! (length a - 1) = y1" "\<not> length a < 2"
      using x by (simp_all add: nth_append)
    have "js_bigint_get_mant_exp a = (a1, int (length a) * 64 - int shift - 1)"
      unfolding js_bigint_get_mant_exp_def Let_def take low prod.case if_not_P [OF take(4)]
        t0_def [symmetric] t1_def [symmetric] m ..
    moreover have "int (length a) * 64 - int shift - 1 = int (bit_length N) - 1" using spec(1) x by simp
    moreover have "unat a1 = mant64 N" using spec(2,3) by (auto simp: mant64_def)
    ultimately show ?thesis by (simp add: N_def)
  qed
qed

section \<open>Conversion to a double\<close>

lemma unat_shr_rndn:
  assumes "unat a < 2 ^ 63"
  shows "unat (shr_rndn a 10) = rhe (unat a) 10"
proof -
  define d where "d = drop_bit 10 a AND 1"
  have ud: "unat d = unat a div 1024 mod 2"
    unfolding d_def and_one_eq unat_mod by (simp add: unat_drop_bit_div)
  have "unat (d + 511) = unat d + 511"
    using ud by (subst unat_add_no_wrap) simp_all
  moreover have "unat (a + (d + 511)) = unat a + unat (d + 511)"
    using assms ud calculation by (intro unat_add_no_wrap) simp
  ultimately have u: "unat (a + (d + 511)) = unat a + unat a div 1024 mod 2 + 511" using ud by simp
  have "shr_rndn a 10 = drop_bit 10 (a + (d + 511))" by (simp add: shr_rndn_def d_def)
  then have "unat (shr_rndn a 10) = (unat a + unat a div 1024 mod 2 + 511) div 1024"
    using u by (simp add: unat_drop_bit_div)
  then show ?thesis using rhe_add [of "unat a"] by simp
qed

lemma js_bigint_to_float64_spec:
  assumes a: "normal a"
  shows "js_bigint_to_float64 a = float64_of_int (sval a)"
proof (cases "length a = 1")
  case True
  then obtain x where "a = [x]" by (cases a) auto
  then show ?thesis by (simp add: js_bigint_to_float64_def)
next
  case False
  have ne: "a \<noteq> []" using a by simp
  define N where "N = nat \<bar>sval a\<bar>"
  have nz: "sval a \<noteq> 0" using normal_unique [OF a normal_single [of 0]] False by auto
  have N0: "0 < N" using nz by (simp add: N_def)
  define L where "L = bit_length N"
  have sgn: "js_bigint_sign a = of_bool (sval a < 0)" using sval_nonneg_iff [OF ne] by (simp add: js_bigint_sign_eq)
  obtain a1 where a1: "js_bigint_get_mant_exp a = (a1, int L - 1)" "unat a1 = mant64 N"
    using get_mant_exp_spec [OF a nz] by (auto simp: N_def L_def)
  have L64: "64 \<le> L"
  proof -
    have "2 \<le> length a" using ne False by (cases a; cases "tl a") auto
    then have "BASE ^ 1 \<le> BASE ^ (length a - 1)" by (intro power_increasing) (simp_all add: Suc_leI)
    then have "int (BASE ^ 1) \<le> int (BASE ^ (length a - 1))" by (simp only: of_nat_le_iff)
    also have "\<dots> \<le> 2 * \<bar>sval a\<bar>" by (rule normal_lower [OF a nz])
    finally have "BASE \<le> 2 * N" by (simp add: N_def nat_le_iff flip: of_nat_le_iff [where 'a = int])
    then have "2 ^ 63 \<le> N" by (simp add: BASE_def)
    moreover have "N < 2 ^ L" using bit_length_spec [OF N0] by (simp add: L_def)
    ultimately have "(2 :: nat) ^ 63 < 2 ^ L" by linarith
    then have "63 < L" by (simp only: power_strict_increasing_iff)
    then show ?thesis by simp
  qed
  obtain t where t: "L = t + 64" using L64 by (metis add.commute le_Suc_ex)
  have m64: "mant64 N = stick N t" using L64 t by (simp add: mant64_def L_def)
  define m1 where "m1 = drop_bit 1 a1 OR (a1 AND 1)"
  have um1: "unat m1 = stick N (t + 1)"
  proof -
    have "unat (a1 AND 1) = unat a1 mod 2"
      by (simp add: and_one_eq unsigned_take_bit_eq take_bit_eq_mod unat_mod)
    then have "unat m1 = unat a1 div 2 OR unat a1 mod 2"
      by (simp add: m1_def unsigned_or_eq unat_drop_bit_div)
    then show ?thesis using stick_Suc [of N t] a1(2) m64 by simp
  qed
  have bl: "2 ^ (L - 1) \<le> N" "N < 2 ^ L" using bit_length_spec [OF N0] by (simp_all add: L_def)
  have m1_lt: "unat m1 < 2 ^ 63"
  proof -
    have "stick N (t + 1) div 2 = N div 2 ^ (t + 2)" using stick_div2 [of N "t + 1"] by simp
    also have "\<dots> < 2 ^ 62" using bl(2) t by (simp add: div_less_iff_less_mult power_add)
    finally show ?thesis unfolding um1 by simp
  qed
  define R where "R = rhe N (L - 53)"
  have uR: "unat (shr_rndn m1 10) = R"
    unfolding unat_shr_rndn [OF m1_lt] um1 rhe_stick R_def using t by simp
  have Rb: "2 ^ 52 \<le> R" "R \<le> 2 ^ 53"
  proof -
    have "L - 1 = (t + 11) + 52" "L = (t + 11) + Suc 52" "L - 53 = t + 11" using t by simp_all
    then have "2 ^ ((t + 11) + 52) \<le> N" "N < 2 ^ ((t + 11) + Suc 52)" "R = rhe N (t + 11)"
      using bl by (simp_all only: R_def)
    then show "2 ^ 52 \<le> R" "R \<le> 2 ^ 53" using rhe_bounds [of "t + 11" 52 N] by simp_all
  qed
  have ref: "float64_of_int (sval a) =
      (let (m, e) = (if R = 2 ^ 53 then (2 ^ 52, int L) else (R, int L - 1))
       in if e > 1023 then f64_bits (of_bool (sval a < 0)) 2047 0
          else f64_bits (of_bool (sval a < 0)) (e + 1023) (of_nat (m - 2 ^ 52)))"
    using nz L64 by (simp add: float64_of_int_def Let_def N_def [symmetric] L_def [symmetric] R_def)
  have p53: "push_bit 53 1 \<le> shr_rndn m1 10 \<longleftrightarrow> R = 2 ^ 53"
    using uR Rb by (simp add: word_le_nat_alt)
  have code: "js_bigint_to_float64 a =
      (let (mant, e) = (if int L - 1 > 1023 then (0, 1024)
         else let (mant, e) = (if R = 2 ^ 53 then (drop_bit 1 (shr_rndn m1 10), int L - 1 + 1)
                               else (shr_rndn m1 10, int L - 1))
              in (mant AND mask52, e))
       in f64_bits (of_bool (sval a < 0)) (e + 1023) mant)"
    unfolding js_bigint_to_float64_def if_not_P [OF False] Let_def a1(1) prod.case m1_def [symmetric] p53 sgn ..
  have msk: "unat (w AND mask52) = unat w mod 2 ^ 52" for w
  proof -
    have "w AND mask52 = take_bit 52 w" by (simp add: mask52_def take_bit_eq_mask mask_eq_exp_minus_1)
    then show ?thesis by (simp add: unat_take_bit_mod)
  qed
  show ?thesis
  proof (cases "R = 2 ^ 53")
    case True
    have "unat (drop_bit 1 (shr_rndn m1 10)) = 2 ^ 52" using True uR by (simp add: unat_drop_bit_div)
    then have "drop_bit 1 (shr_rndn m1 10) AND mask52 = 0"
      using msk [of "drop_bit 1 (shr_rndn m1 10)"] by (simp add: unat_eq_zero)
    moreover have "L = 1024 \<Longrightarrow> int L + 1023 = 2047" by simp
    ultimately show ?thesis unfolding code ref using True by (cases "L = 1024") (auto simp: Let_def)
  next
    case False
    then have "R < 2 ^ 53" using Rb(2) by simp
    then have "R mod 2 ^ 52 = R - 2 ^ 52" using Rb(1) by (simp add: le_mod_geq mod_less)
    then have "unat (shr_rndn m1 10 AND mask52) = R - 2 ^ 52" using msk uR by simp
    then have "shr_rndn m1 10 AND mask52 = of_nat (R - 2 ^ 52)"
      using of_nat_unat [of "shr_rndn m1 10 AND mask52", where 'a = u64] by (simp add: ucast_id)
    then show ?thesis unfolding code ref using False by (auto simp: Let_def)
  qed
qed

end
