(* ===== verification/BigInt_FloatCmp.thy ===== *)
theory BigInt_FloatCmp
  imports BigInt_Float
begin

text \<open>
  What \<open>js_bigint_from_float64\<close> and \<open>js_bigint_float64_cmp\<close> compute, against the real
  number a double stands for.  The comparison is right, except when both operands are
  negative and their exponents differ: then its result is reversed.
\<close>

section \<open>The number a double stands for\<close>

definition fmag :: "u64 \<Rightarrow> real" where
  "fmag b = (if f64_exp b = 0 then real (unat (f64_mant b)) * 2 powi (- 1074)
             else real (2 ^ 52 + unat (f64_mant b)) * 2 powi (f64_exp b - 1075))"

definition fval :: "u64 \<Rightarrow> real" where
  "fval b = (if f64_sign b \<noteq> 0 then - fmag b else fmag b)"

lemma unat_and_mask52: "unat (w AND mask52) = unat w mod 2 ^ 52"
proof -
  have "w AND mask52 = take_bit 52 w" by (simp add: mask52_def take_bit_eq_mask mask_eq_exp_minus_1)
  then show ?thesis by (simp add: unat_take_bit_mod)
qed

lemma f64_fields:
  "unat (f64_mant b) < 2 ^ 52" "0 \<le> f64_exp b" "f64_exp b \<le> 2047" "f64_sign b = 0 \<or> f64_sign b = 1"
proof -
  show "unat (f64_mant b) < 2 ^ 52" unfolding f64_mant_def unat_and_mask52 by simp
  show "0 \<le> f64_exp b" by (simp add: f64_exp_def)
  have "drop_bit 52 b AND (push_bit 11 1 - 1) = take_bit 11 (drop_bit 52 b)"
    by (simp add: take_bit_eq_mask mask_eq_exp_minus_1)
  then have "f64_exp b = int (unat (drop_bit 52 b) mod 2 ^ 11)"
    unfolding f64_exp_def by (simp only: unat_take_bit_mod [symmetric]) simp
  moreover have "unat (drop_bit 52 b) mod 2 ^ 11 < 2 ^ 11" by (rule mod_less_divisor) simp
  ultimately show "f64_exp b \<le> 2047" by simp
  show "f64_sign b = 0 \<or> f64_sign b = 1"
    using drop_bit_63 [of b] by (cases "neg_limb b") (simp_all add: f64_sign_def)
qed

lemma unat_hidden: "unat (f64_mant b OR push_bit 52 1) = 2 ^ 52 + unat (f64_mant b)"
proof -
  have "f64_mant b OR push_bit 52 1 = push_bit 52 1 OR f64_mant b" by (rule or.commute)
  then show ?thesis using unat_push_or [of "f64_mant b" 52 "1 :: u64"] f64_fields(1) [of b] by simp
qed

lemma fmag_normal:
  assumes "f64_exp b \<noteq> 0"
  shows "fmag b = real (2 ^ 52 + unat (f64_mant b)) * 2 powi (f64_exp b - 1023) / 2 ^ 52"
proof -
  have "(2 :: real) powi (f64_exp b - 1075) = 2 powi (f64_exp b - 1023 - 52)" by simp
  also have "\<dots> = 2 powi (f64_exp b - 1023) / 2 ^ 52" by (subst power_int_diff) simp_all
  finally show ?thesis using assms by (simp add: fmag_def)
qed

lemma fmag_bounds:
  assumes "f64_exp b \<noteq> 0"
  shows "2 powi (f64_exp b - 1023) \<le> fmag b" "fmag b < 2 * 2 powi (f64_exp b - 1023)"
proof -
  define P :: real where "P = 2 powi (f64_exp b - 1023)"
  define M where "M = 2 ^ 52 + unat (f64_mant b)"
  have P: "0 < P" by (simp add: P_def)
  have M: "real (2 ^ 52) \<le> real M" "real M < real (2 * 2 ^ 52)"
    using f64_fields(1) [of b] by (simp_all only: of_nat_le_iff of_nat_less_iff M_def)
  have f: "fmag b = real M * P / 2 ^ 52" unfolding fmag_normal [OF assms] M_def P_def ..
  have "real (2 ^ 52) * P \<le> real M * P" "real M * P < real (2 * 2 ^ 52) * P" using M P by simp_all
  then show "2 powi (f64_exp b - 1023) \<le> fmag b" "fmag b < 2 * 2 powi (f64_exp b - 1023)"
    unfolding f P_def [symmetric] by (simp_all add: field_simps)
qed

lemma fmag_small:
  assumes "f64_exp b < 1023"
  shows "fmag b < 1" "0 \<le> fmag b" "f64_mant b \<noteq> 0 \<or> f64_exp b \<noteq> 0 \<Longrightarrow> 0 < fmag b"
proof -
  have "fmag b < 1 \<and> 0 \<le> fmag b \<and> (f64_mant b \<noteq> 0 \<or> f64_exp b \<noteq> 0 \<longrightarrow> 0 < fmag b)"
  proof (cases "f64_exp b = 0")
    case True
    have m: "real (unat (f64_mant b)) < 2 ^ 52"
      using f64_fields(1) [of b] by (simp flip: of_nat_less_iff [where 'a = real])
    have "(2 :: real) powi (- 1074) * 2 ^ 52 = 2 powi (- 1022)"
      using power_int_add [of "2 :: real" "- 1074" 52] by simp
    moreover have "(2 :: real) powi (- 1022) < 1" by (simp add: power_int_minus inverse_less_1_iff)
    moreover have "(0 :: real) < 2 powi (- 1074)" by simp
    then have "2 powi (- 1074) * real (unat (f64_mant b)) < 2 powi (- 1074) * 2 ^ 52"
      using m by (simp only: mult_less_cancel_left_pos)
    ultimately have "2 powi (- 1074) * real (unat (f64_mant b)) < 1" by linarith
    then have "fmag b < 1" using True by (simp add: fmag_def mult.commute)
    moreover have "0 \<le> fmag b" "f64_mant b \<noteq> 0 \<Longrightarrow> 0 < fmag b"
      using True by (simp_all add: fmag_def unat_gt_0 del: of_nat_unat)
    ultimately show ?thesis using True by simp
  next
    case False
    have "(2 :: real) powi (f64_exp b - 1023) \<le> 2 powi (- 1)"
      using assms by (intro power_int_increasing) simp_all
    then have "2 * (2 :: real) powi (f64_exp b - 1023) \<le> 1" by (simp add: power_int_minus)
    moreover have "(0 :: real) < 2 powi (f64_exp b - 1023)" by simp
    ultimately show ?thesis using fmag_bounds [OF False] by linarith
  qed
  then show "fmag b < 1" "0 \<le> fmag b" "f64_mant b \<noteq> 0 \<or> f64_exp b \<noteq> 0 \<Longrightarrow> 0 < fmag b" by blast+
qed

section \<open>From a double\<close>

lemma not_Ints_between: "0 < x \<Longrightarrow> x < 1 \<Longrightarrow> (x :: real) \<notin> \<int> \<and> - x \<notin> \<int>"
  by (auto elim!: Ints_cases)

lemma fval_Ints: "fval b \<in> \<int> \<longleftrightarrow> fmag b \<in> \<int>"
  by (simp add: fval_def)

lemma f64_zero: "f64_exp b = 0 \<Longrightarrow> f64_mant b = 0 \<Longrightarrow> fval b = 0"
  by (simp add: fval_def fmag_def)

lemma sint_signed_mant:
  assumes "unat m < 2 ^ 63"
  shows "sint (if neg then - m else m :: limb) = (if neg then - int (unat m) else int (unat m))"
proof -
  have s: "sint m = int (unat m)"
    using assms by (simp only: sint_limb) (simp add: neg_limb_def)
  have "sint (- m) = - sint m"
  proof (cases "m = 0")
    case False
    have u: "unat (- m) = BASE - unat m" by (rule unat_neg_limb [OF False])
    have m: "unat m \<le> BASE" "unat m \<le> 2 ^ 63" using assms by (simp_all add: BASE_def)
    then have "neg_limb (- m)" unfolding neg_limb_def u by (simp add: BASE_def)
    moreover have "int (BASE - unat m) = int BASE - int (unat m)" by (rule of_nat_diff [OF m(1)])
    ultimately show ?thesis unfolding s sint_limb [of "- m"] u by simp
  qed simp
  then show ?thesis using s by simp
qed

text \<open>The shape of a finite double of magnitude at least one.\<close>

lemma drop_hidden:
  fixes b :: u64
  defines "m \<equiv> f64_mant b OR push_bit 52 1"
  assumes s: "s < 64"
  shows "m AND (push_bit s 1 - 1) \<noteq> 0 \<longleftrightarrow> \<not> 2 ^ s dvd 2 ^ 52 + unat (f64_mant b)"
    "unat (drop_bit s m) = (2 ^ 52 + unat (f64_mant b)) div 2 ^ s"
proof -
  have u: "unat m = 2 ^ 52 + unat (f64_mant b)" unfolding m_def by (rule unat_hidden)
  have "m AND (push_bit s 1 - 1) = take_bit s m" by (simp add: take_bit_eq_mask mask_eq_exp_minus_1)
  then have "m AND (push_bit s 1 - 1) = 0 \<longleftrightarrow> unat m mod 2 ^ s = 0"
    by (simp add: unat_eq_zero [symmetric] unat_take_bit_mod del: unat_eq_zero)
  then show "m AND (push_bit s 1 - 1) \<noteq> 0 \<longleftrightarrow> \<not> 2 ^ s dvd 2 ^ 52 + unat (f64_mant b)"
    by (simp only: u dvd_eq_mod_eq_0)
  show "unat (drop_bit s m) = (2 ^ 52 + unat (f64_mant b)) div 2 ^ s"
    by (simp only: unat_drop_bit_div u)
qed

lemma real_div_pow_Ints: "real m / 2 ^ s \<in> \<int> \<longleftrightarrow> 2 ^ s dvd m"
proof
  assume "2 ^ s dvd m"
  then obtain k where "m = 2 ^ s * k" ..
  then have "real m / 2 ^ s = of_nat k" by simp
  then show "real m / 2 ^ s \<in> \<int>" by simp
next
  assume "real m / 2 ^ s \<in> \<int>"
  then obtain z where "real m / 2 ^ s = of_int z" by (auto elim!: Ints_cases)
  then have "real_of_int (int m) = real_of_int (z * 2 ^ s)" by (simp add: field_simps)
  then have "int m = z * 2 ^ s" by (simp only: of_int_eq_iff)
  then have "int (2 ^ s) dvd int m" by simp
  then show "2 ^ s dvd m" by (simp only: of_nat_dvd_iff)
qed

lemma shl_double_sat:
  assumes "unat m < 2 ^ 63" "0 \<le> e" "e < 1024"
  shows "js_sat mf (\<lambda>_. False) 0 1
    (\<lambda>r. normal r \<and> sval r = (if neg then - int (unat m) else int (unat m)) * 2 ^ nat e)
    (js_bigint_shl mf (js_bigint_set_si (if neg then - m else m)) (word_of_int e))"
proof -
  have e: "unat (word_of_int e :: u32) = nat e"
    using assms(2,3) unat_of_nat_small [of "nat e", where 'a = 32] by simp
  let ?a = "[if neg then - m else m]"
  have "js_sat mf (size_error (length ?a + unat (word_of_int e :: u32) div 64)) 0 1
      (\<lambda>r. normal r \<and> sval r = sval ?a * 2 ^ unat (word_of_int e :: u32)) (js_bigint_shl mf ?a (word_of_int e))"
    by (rule js_bigint_shl_sat) simp
  then show ?thesis
    unfolding e js_bigint_set_si_def sval_single sint_signed_mant [OF assms(1)]
  proof (rule js_sat_mono)
    show "False" if "size_error (length ?a + nat e div 64) x" for x
      using that assms(3) by (simp add: JS_BIGINT_MAX_SIZE_def JS_LIMB_BITS_def) linarith
  qed
qed

lemma js_bigint_from_float64_spec:
  assumes "js_bigint_from_float64 mf b = (pres, m)"
  shows "f64_exp b = 2047 \<Longrightarrow> pres = 2"
    "f64_exp b \<noteq> 2047 \<Longrightarrow> fval b \<notin> \<int> \<Longrightarrow> pres = 1"
    "f64_exp b \<noteq> 2047 \<Longrightarrow> fval b \<in> \<int> \<Longrightarrow>
      pres = 0 \<and> js_sat mf (\<lambda>_. False) 0 1 (\<lambda>r. normal r \<and> real_of_int (sval r) = fval b) m"
proof -
  let ?P = "\<lambda>r. normal r \<and> real_of_int (sval r) = fval b"
  have "if f64_exp b = 2047 then pres = 2
    else if fval b \<in> \<int> then pres = 0 \<and> js_sat mf (\<lambda>_. False) 0 1 ?P m else pres = 1"
  proof -
    consider (inf) "f64_exp b = 2047" | (zero) "f64_exp b = 0" "f64_mant b = 0"
      | (small) "f64_exp b < 1023" "f64_exp b \<noteq> 0 \<or> f64_mant b \<noteq> 0"
      | (mid) "1023 \<le> f64_exp b" "f64_exp b < 1075" | (big) "1075 \<le> f64_exp b" "f64_exp b < 2047"
      using f64_fields(3) [of b] by linarith
    then show ?thesis
    proof cases
      case inf
      then show ?thesis using assms by (simp add: js_bigint_from_float64_def Let_def)
    next
      case zero
      then have "pres = 0" "m = js_bigint_new_si mf 0" using assms by (simp_all add: js_bigint_from_float64_def Let_def)
      moreover have "js_sat mf (\<lambda>_. False) 0 1 ?P (js_bigint_new_si mf 0)"
        by (rule js_sat_mono [OF js_bigint_new_si_sat]) (use f64_zero [OF zero] in auto)
      ultimately show ?thesis using zero f64_zero [OF zero] by simp
    next
      case small
      then have "0 < fmag b" "fmag b < 1" using fmag_small [OF small(1)] by auto
      then have "fval b \<notin> \<int>" using not_Ints_between [of "fmag b"] by (simp add: fval_def)
      moreover have "pres = 1" using small assms by (auto simp: js_bigint_from_float64_def Let_def)
      ultimately show ?thesis using small(1) by simp
    next
      case mid
      define s where "s = nat (52 - (f64_exp b - 1023))"
      define M where "M = 2 ^ 52 + unat (f64_mant b)"
      define h where "h = f64_mant b OR push_bit 52 1"
      have s64: "s < 64" using mid by (simp add: s_def)
      note drop = drop_hidden [OF s64, of b, folded h_def M_def]
      have "(2 :: real) powi (f64_exp b - 1075) = 2 powi (- int s)" using mid by (simp add: s_def)
      then have f: "fmag b = real M / 2 ^ s"
        using mid by (simp add: fmag_def M_def power_int_minus divide_inverse)
      show ?thesis
      proof (cases "2 ^ s dvd M")
        case False
        then have "fval b \<notin> \<int>" unfolding fval_Ints f real_div_pow_Ints .
        moreover have "pres = 1"
          using assms mid drop(1) False
          unfolding js_bigint_from_float64_def Let_def s_def [symmetric] h_def [symmetric] by auto
        ultimately show ?thesis using mid by simp
      next
        case True
        have "pres = 0" and m: "m = js_bigint_shl mf (js_bigint_set_si
            (if f64_sign b \<noteq> 0 then - drop_bit s h else drop_bit s h)) (word_of_int 0)"
          using assms mid drop(1) True
          unfolding js_bigint_from_float64_def Let_def s_def [symmetric] h_def [symmetric] by auto
        have lt: "unat (drop_bit s h) < 2 ^ 63"
          unfolding drop(2) using f64_fields(1) [of b] by (intro le_less_trans [OF div_le_dividend]) (simp add: M_def)
        have q: "real (M div 2 ^ s) = real M / 2 ^ s" using True by (simp add: real_of_nat_div)
        have "js_sat mf (\<lambda>_. False) 0 1 ?P m"
          unfolding m by (rule js_sat_mono [OF shl_double_sat [OF lt]])
            (use q f in \<open>auto simp: fval_def drop(2)\<close>)
        moreover have "fval b \<in> \<int>" unfolding fval_Ints f real_div_pow_Ints by (rule True)
        ultimately show ?thesis using mid \<open>pres = 0\<close> by simp
      qed
    next
      case big
      define M where "M = 2 ^ 52 + unat (f64_mant b)"
      define h where "h = f64_mant b OR push_bit 52 1"
      define e where "e = f64_exp b - 1023 - 52"
      have u: "unat h = M" unfolding h_def M_def by (rule unat_hidden)
      have f: "fmag b = real M * 2 ^ nat e"
        using big by (simp add: fmag_def M_def e_def power_int_def)
      have e: "0 \<le> e" "e < 1024" using big by (simp_all add: e_def)
      have "pres = 0" and m: "m = js_bigint_shl mf (js_bigint_set_si (if f64_sign b \<noteq> 0 then - h else h)) (word_of_int e)"
        using assms big unfolding js_bigint_from_float64_def Let_def h_def [symmetric] e_def [symmetric] by auto
      have lt: "unat h < 2 ^ 63" unfolding u using f64_fields(1) [of b] by (simp add: M_def)
      have "js_sat mf (\<lambda>_. False) 0 1 ?P m"
        unfolding m by (rule js_sat_mono [OF shl_double_sat [OF lt e]])
          (use f in \<open>auto simp: fval_def u\<close>)
      moreover have "fval b \<in> \<int>" unfolding fval_Ints f by simp
      ultimately show ?thesis using big \<open>pres = 0\<close> by simp
    qed
  qed
  then show "f64_exp b = 2047 \<Longrightarrow> pres = 2"
    "f64_exp b \<noteq> 2047 \<Longrightarrow> fval b \<notin> \<int> \<Longrightarrow> pres = 1"
    "f64_exp b \<noteq> 2047 \<Longrightarrow> fval b \<in> \<int> \<Longrightarrow> pres = 0 \<and> js_sat mf (\<lambda>_. False) 0 1 ?P m"
    by (simp_all split: if_splits)
qed

section \<open>Comparison with a double\<close>

lemma stick_compare:
  assumes "even X"
  shows "stick n t < X \<longleftrightarrow> n < X * 2 ^ t" "X < stick n t \<longleftrightarrow> X * 2 ^ t < n"
proof -
  define q r where "q = n div 2 ^ t" and "r = n mod 2 ^ t"
  define D :: nat where "D = 2 ^ t"
  have n: "n = D * q + r" "r < D" by (simp_all add: q_def r_def D_def)
  define o' where "o' = (even q \<and> r \<noteq> 0)"
  have s: "stick n t = q + of_bool o'" by (simp add: stick_def q_def r_def o'_def)
  consider "q < X" | "q = X" | "X < q" by linarith
  then have "(stick n t < X \<longleftrightarrow> n < X * D) \<and> (X < stick n t \<longleftrightarrow> X * D < n)"
  proof cases
    case 1
    then have "D * (q + 1) \<le> D * X" by (intro mult_le_mono2) simp
    then have "n < X * D" using n unfolding distrib_left by (simp add: mult.commute)
    moreover have "q + of_bool o' < X"
    proof (cases o')
      case True
      then have "q + 1 \<noteq> X" using assms by (auto simp: o'_def)
      then show ?thesis using 1 True by simp
    qed (use 1 in simp)
    ultimately show ?thesis unfolding s by simp
  next
    case 2
    then show ?thesis unfolding s using n assms by (auto simp: o'_def mult.commute)
  next
    case 3
    then have "D * (X + 1) \<le> D * q" by (intro mult_le_mono2) simp
    then have "X * D < n" using n unfolding distrib_left by (simp add: mult.commute)
    then show ?thesis unfolding s using 3 by simp
  qed
  then show "stick n t < X \<longleftrightarrow> n < X * 2 ^ t" "X < stick n t \<longleftrightarrow> X * 2 ^ t < n" by (simp_all add: D_def)
qed

lemma mant64_compare:
  assumes "bit_length n = Suc f"
  shows "mant64 n < m * 2 ^ 11 \<longleftrightarrow> n * 2 ^ 52 < m * 2 ^ f" "m * 2 ^ 11 < mant64 n \<longleftrightarrow> m * 2 ^ f < n * 2 ^ 52"
proof -
  have "(mant64 n < m * 2 ^ 11 \<longleftrightarrow> n * 2 ^ 52 < m * 2 ^ f) \<and> (m * 2 ^ 11 < mant64 n \<longleftrightarrow> m * 2 ^ f < n * 2 ^ 52)"
  proof (cases "f < 63")
    case True
    define k where "k = 63 - f"
    have e: "mant64 n = n * 2 ^ k" using True assms by (simp add: mant64_def k_def)
    have p: "(2 :: nat) ^ f * 2 ^ k = 2 ^ 11 * 2 ^ 52" using True by (simp add: k_def flip: power_add)
    have "x * 2 ^ k < y * 2 ^ 11 \<longleftrightarrow> x * 2 ^ 52 < y * 2 ^ f" for x y :: nat
    proof -
      have "x * 2 ^ k < y * 2 ^ 11 \<longleftrightarrow> (x * 2 ^ k) * 2 ^ f < (y * 2 ^ 11) * 2 ^ f" by simp
      also have "(x * 2 ^ k) * 2 ^ f = (x * 2 ^ 52) * 2 ^ 11" using p by (simp add: ac_simps)
      also have "(y * 2 ^ 11) * 2 ^ f = (y * 2 ^ f) * 2 ^ 11" by (simp only: ac_simps)
      finally show ?thesis unfolding mult_less_cancel2 by simp
    qed
    moreover have "y * 2 ^ 11 < x * 2 ^ k \<longleftrightarrow> y * 2 ^ f < x * 2 ^ 52" for x y :: nat
    proof -
      have "y * 2 ^ 11 < x * 2 ^ k \<longleftrightarrow> (y * 2 ^ 11) * 2 ^ f < (x * 2 ^ k) * 2 ^ f" by simp
      also have "(x * 2 ^ k) * 2 ^ f = (x * 2 ^ 52) * 2 ^ 11" using p by (simp add: ac_simps)
      also have "(y * 2 ^ 11) * 2 ^ f = (y * 2 ^ f) * 2 ^ 11" by (simp only: ac_simps)
      finally show ?thesis unfolding mult_less_cancel2 by simp
    qed
    ultimately show ?thesis unfolding e by blast
  next
    case False
    define t where "t = f - 63"
    have e: "mant64 n = stick n t" using False assms by (simp add: mant64_def t_def)
    have "f = 11 + 52 + t" using False by (simp add: t_def)
    define X where "X = m * 2 ^ 11"
    have p: "m * 2 ^ f = (X * 2 ^ t) * 2 ^ 52" unfolding \<open>f = 11 + 52 + t\<close> X_def by (simp add: power_add)
    have "even X" by (simp add: X_def)
    then show ?thesis unfolding e p X_def [symmetric] mult_less_cancel2 using stick_compare [of X n t] by simp
  qed
  then show "mant64 n < m * 2 ^ 11 \<longleftrightarrow> n * 2 ^ 52 < m * 2 ^ f" "m * 2 ^ 11 < mant64 n \<longleftrightarrow> m * 2 ^ f < n * 2 ^ 52"
    by blast+
qed

text \<open>The last branch: same signs, neither operand zero.\<close>

definition cmp_mag :: "nat \<Rightarrow> u64 \<Rightarrow> int" where
  "cmp_mag n b = (if real n < fmag b then - 1 else if fmag b < real n then 1 else 0)"

lemma exponent_compare:
  assumes n: "0 < n" and b: "f64_exp b \<noteq> 0 \<or> f64_mant b \<noteq> 0"
    and ne: "int (bit_length n) - 1 \<noteq> f64_exp b - 1023"
  shows "cmp_mag n b = (if int (bit_length n) - 1 < f64_exp b - 1023 then - 1 else 1)"
proof -
  obtain f where f: "bit_length n = Suc f" using bit_length_spec [OF n] by (cases "bit_length n") auto
  have "2 ^ f \<le> n" "n < 2 * 2 ^ f" using bit_length_spec [OF n] f by simp_all
  then have N: "real (2 ^ f) \<le> real n" "real n < real (2 * 2 ^ f)"
    by (simp_all only: of_nat_le_iff of_nat_less_iff)
  have pf: "(2 :: real) powi int f = real (2 ^ f)" by simp
  show ?thesis
  proof (cases "int f < f64_exp b - 1023")
    case True
    then have e: "f64_exp b \<noteq> 0" by simp
    have "(2 :: real) powi (int f + 1) \<le> 2 powi (f64_exp b - 1023)"
      using True by (intro power_int_increasing) simp_all
    moreover have "(2 :: real) powi (int f + 1) = 2 * real (2 ^ f)" by (simp add: power_int_add)
    ultimately have "real n < fmag b" using N fmag_bounds(1) [OF e] by simp
    then show ?thesis using True f by (simp add: cmp_mag_def)
  next
    case False
    then have lt: "f64_exp b - 1023 < int f" using ne f by simp
    have "fmag b < real n"
    proof (cases "f64_exp b = 0")
      case True
      then have "fmag b < 1" using fmag_small(1) [of b] by simp
      moreover have "1 \<le> real n" using n by simp
      ultimately show ?thesis by linarith
    next
      case False
      have "(2 :: real) powi (f64_exp b - 1023 + 1) \<le> 2 powi int f"
        using lt by (intro power_int_increasing) simp_all
      moreover have "(2 :: real) powi (f64_exp b - 1023 + 1) = 2 * 2 powi (f64_exp b - 1023)"
        by (subst power_int_add) simp_all
      ultimately show ?thesis using fmag_bounds(2) [OF False] N(1) pf by linarith
    qed
    then show ?thesis using lt f by (simp add: cmp_mag_def)
  qed
qed

lemma mantissa_compare:
  assumes n: "0 < n" and eq: "int (bit_length n) - 1 = f64_exp b - 1023" and a1: "unat a1 = mant64 n"
  shows "cmp_mag n b = (if a1 < push_bit 11 (f64_mant b OR push_bit 52 1) then - 1
    else if push_bit 11 (f64_mant b OR push_bit 52 1) < a1 then 1 else 0)"
proof -
  obtain f where f: "bit_length n = Suc f" using bit_length_spec [OF n] by (cases "bit_length n") auto
  define M where "M = 2 ^ 52 + unat (f64_mant b)"
  have e: "f64_exp b - 1023 = int f" "f64_exp b \<noteq> 0" using eq f by simp_all
  have "(2 :: real) powi (f64_exp b - 1023) = 2 ^ f" unfolding e(1) by simp
  then have fm: "fmag b = real (M * 2 ^ f) / 2 ^ 52" unfolding fmag_normal [OF e(2)] by (simp add: M_def)
  define h where "h = f64_mant b OR push_bit 52 1"
  have uh: "unat h = M" unfolding h_def M_def by (rule unat_hidden)
  have "unat (push_bit 11 h) = unat h * 2 ^ 11"
    using f64_fields(1) [of b] by (intro unat_push_bit_mult) (simp add: uh M_def)
  then have u: "unat (push_bit 11 h) = M * 2 ^ 11" by (simp only: uh)
  have "real n < fmag b \<longleftrightarrow> real (n * 2 ^ 52) < real (M * 2 ^ f)" unfolding fm by (simp add: field_simps)
  also have "\<dots> \<longleftrightarrow> n * 2 ^ 52 < M * 2 ^ f" by (simp only: of_nat_less_iff)
  also have "\<dots> \<longleftrightarrow> a1 < push_bit 11 (f64_mant b OR push_bit 52 1)"
    unfolding h_def [symmetric] word_less_nat_alt u a1 mant64_compare [OF f] ..
  finally have lt: "real n < fmag b \<longleftrightarrow> a1 < push_bit 11 (f64_mant b OR push_bit 52 1)" .
  have "fmag b < real n \<longleftrightarrow> real (M * 2 ^ f) < real (n * 2 ^ 52)" unfolding fm by (simp add: field_simps)
  also have "\<dots> \<longleftrightarrow> M * 2 ^ f < n * 2 ^ 52" by (simp only: of_nat_less_iff)
  also have "\<dots> \<longleftrightarrow> push_bit 11 (f64_mant b OR push_bit 52 1) < a1"
    unfolding h_def [symmetric] word_less_nat_alt u a1 mant64_compare [OF f] ..
  finally show ?thesis using lt by (simp add: cmp_mag_def)
qed

definition exponents_differ :: "bigint \<Rightarrow> u64 \<Rightarrow> bool" where
  "exponents_differ a b \<longleftrightarrow> int (bit_length (nat \<bar>sval a\<bar>)) - 1 \<noteq> f64_exp b - 1023"

definition sgn_real :: "real \<Rightarrow> int" where
  "sgn_real x = (if x < 0 then - 1 else if x > 0 then 1 else 0)"

lemma js_bigint_float64_cmp_spec:
  assumes a: "normal a" and fin: "f64_exp b \<noteq> 2047"
  shows "js_bigint_float64_cmp a b =
    (if sval a < 0 \<and> fval b < 0 \<and> exponents_differ a b then - sgn_real (real_of_int (sval a) - fval b)
     else sgn_real (real_of_int (sval a) - fval b))"
proof -
  have ne: "a \<noteq> []" using a by simp
  have az: "length a = 1 \<and> hd a = 0 \<longleftrightarrow> sval a = 0"
    using normal_unique [OF a normal_single [of 0]] by (cases a) auto
  define sa where "sa = (sval a < 0)"
  have as: "uint (js_bigint_sign a) = of_bool sa"
    using sval_nonneg_iff [OF ne] by (simp add: js_bigint_sign_eq sa_def)
  define sb where "sb = (f64_sign b \<noteq> 0)"
  have bs: "uint (f64_sign b) = of_bool sb" using f64_fields(4) [of b] by (auto simp: sb_def)
  have fv: "fval b = (if sb then - fmag b else fmag b)" by (simp add: fval_def sb_def)
  have mag0: "0 \<le> fmag b" by (simp add: fmag_def del: of_nat_unat)
  define N where "N = nat \<bar>sval a\<bar>"
  have sv: "real_of_int (sval a) = (if sa then - real N else real N)" by (simp add: sa_def N_def)
  show ?thesis
  proof (cases "f64_exp b = 0 \<and> f64_mant b = 0")
    case True
    then have "fval b = 0" by (simp add: f64_zero)
    then show ?thesis using True fin unfolding js_bigint_float64_cmp_def Let_def az as
      by (auto simp: sgn_real_def sa_def)
  next
    case nz: False
    then have pos: "0 < fmag b"
    proof (cases "f64_exp b = 0")
      case True
      then show ?thesis using nz by (simp add: fmag_def unat_gt_0 del: of_nat_unat)
    next
      case False
      then show ?thesis using fmag_bounds(1) [OF False] zero_less_power_int [of "2 :: real" "f64_exp b - 1023"]
        by linarith
    qed
    show ?thesis
    proof (cases "sval a = 0")
      case True
      then show ?thesis using nz fin pos unfolding js_bigint_float64_cmp_def Let_def az as bs
        by (auto simp: sgn_real_def fv)
    next
      case a0: False
      then have N0: "0 < N" by (simp add: N_def)
      show ?thesis
      proof (cases "sa = sb")
        case False
        then show ?thesis using nz fin pos a0 N0 unfolding js_bigint_float64_cmp_def Let_def az as bs
          by (auto simp: sgn_real_def fv sv sa_def)
      next
        case True
        obtain a1 where a1: "js_bigint_get_mant_exp a = (a1, int (bit_length N) - 1)" "unat a1 = mant64 N"
          using get_mant_exp_spec [OF a a0] by (auto simp: N_def)
        have sg: "sgn_real (real_of_int (sval a) - fval b) = (if sa then - cmp_mag N b else cmp_mag N b)"
          unfolding sv fv using True by (auto simp: sgn_real_def cmp_mag_def)
        have both: "sval a < 0 \<and> fval b < 0 \<longleftrightarrow> sa" using True pos by (auto simp: fv sa_def)
        have code: "js_bigint_float64_cmp a b =
            (if int (bit_length N) - 1 \<noteq> f64_exp b - 1023
             then (if int (bit_length N) - 1 < f64_exp b - 1023 then - 1 else 1)
             else if a1 < push_bit 11 (f64_mant b OR push_bit 52 1) then 2 * of_bool sa - 1
             else if push_bit 11 (f64_mant b OR push_bit 52 1) < a1 then 1 - 2 * of_bool sa else 0)"
          unfolding js_bigint_float64_cmp_def Let_def az as bs a1(1) prod.case if_not_P [OF fin]
            if_not_P [OF nz] if_not_P [OF a0] True [symmetric] by (simp only: refl not_True_eq_False if_False)
        show ?thesis
        proof (cases "exponents_differ a b")
          case True
          then have d: "int (bit_length N) - 1 \<noteq> f64_exp b - 1023" by (simp add: exponents_differ_def N_def)
          have "cmp_mag N b = (if int (bit_length N) - 1 < f64_exp b - 1023 then - 1 else 1)"
            by (rule exponent_compare [OF N0 _ d]) (use nz in blast)
          then show ?thesis unfolding code sg using True d both by (cases sa) auto
        next
          case False
          then have d: "int (bit_length N) - 1 = f64_exp b - 1023" by (simp add: exponents_differ_def N_def)
          then show ?thesis unfolding code sg mantissa_compare [OF N0 d a1(2)] using False by (cases sa) auto
        qed
      qed
    qed
  qed
qed

end
