(* ===== verification/Digits.thy ===== *)
theory Digits
  imports QPrelude
begin

text \<open>
  Numerals: the digit characters, the reference printer \<open>nat_digits\<close> and its fixed-width
  variant, the reference reader \<open>digits_val\<close>, and the buffer that is filled from its end
  towards its start, which the number printers of \<open>dtoa.c\<close> and \<open>quickjs.c\<close> use.
\<close>

definition digit_char :: "nat \<Rightarrow> char" where
  "digit_char d = (if d < 10 then char_of (48 + d) else char_of (87 + d))"

text \<open>\<open>to_digit\<close> of \<open>quickjs.c\<close>: 36 for a character that is no digit.\<close>

definition to_digit :: "char \<Rightarrow> nat" where
  "to_digit ch =
     (let c = of_char ch in
      if c \<ge> 48 \<and> c \<le> 57 then c - 48
      else if c \<ge> 65 \<and> c \<le> 90 then c - 65 + 10
      else if c \<ge> 97 \<and> c \<le> 122 then c - 97 + 10
      else 36)"

fun nat_digits :: "nat \<Rightarrow> nat \<Rightarrow> string" where
  "nat_digits radix n =
     (if radix < 2 \<or> n < radix then [digit_char n]
      else nat_digits radix (n div radix) @ [digit_char (n mod radix)])"

declare nat_digits.simps [simp del]

fun fixed_digits :: "nat \<Rightarrow> nat \<Rightarrow> nat \<Rightarrow> string" where
  "fixed_digits radix 0 n = []"
| "fixed_digits radix (Suc k) n = fixed_digits radix k (n div radix) @ [digit_char (n mod radix)]"

definition digits_val :: "nat \<Rightarrow> string \<Rightarrow> nat" where
  "digits_val radix s = foldl (\<lambda>v c. v * radix + to_digit c) 0 s"

definition int_digits :: "nat \<Rightarrow> int \<Rightarrow> string" where
  "int_digits radix v =
     (if v < 0 then CHR ''-'' # nat_digits radix (nat (- v)) else nat_digits radix (nat v))"

section \<open>A buffer filled from its end\<close>

text \<open>The cells still free before the text, and the text.\<close>

type_synonym backbuf = "nat \<times> string"

fun back_push :: "char \<Rightarrow> backbuf \<Rightarrow> backbuf option" where
  "back_push c (0, s) = None"
| "back_push c (Suc k, s) = Some (k, c # s)"

lemma back_push_room: "back_push c (k, s) = (if k = 0 then None else Some (k - 1, c # s))"
  by (cases k) simp_all

section \<open>Printing and reading are inverse\<close>

lemma to_digit_digit_char: "d < 36 \<Longrightarrow> to_digit (digit_char d) = d"
  by (cases "d < 10") (simp_all add: digit_char_def to_digit_def Let_def)

lemma nat_digits_small: "n < radix \<Longrightarrow> nat_digits radix n = [digit_char n]"
  by (subst nat_digits.simps) simp

lemma nat_digits_step:
  "2 \<le> radix \<Longrightarrow> radix \<le> n \<Longrightarrow>
   nat_digits radix n = nat_digits radix (n div radix) @ [digit_char (n mod radix)]"
  by (subst nat_digits.simps) simp

lemma nat_digits_not_empty [simp]: "nat_digits radix n \<noteq> []"
  by (subst nat_digits.simps) simp

lemma length_fixed_digits [simp]: "length (fixed_digits radix k n) = k"
  by (induction k arbitrary: n) simp_all

lemma digits_val_snoc: "digits_val radix (s @ [c]) = digits_val radix s * radix + to_digit c"
  by (simp add: digits_val_def)

lemma digits_val_Nil [simp]: "digits_val radix [] = 0"
  by (simp add: digits_val_def)

lemma digits_val_nat_digits:
  assumes "2 \<le> radix" "radix \<le> 36"
  shows "digits_val radix (nat_digits radix n) = n"
proof (induction n rule: less_induct)
  case (less n)
  show ?case
  proof (cases "n < radix")
    case True
    then show ?thesis using assms
      by (simp add: nat_digits_small digits_val_def to_digit_digit_char)
  next
    case False
    then have "n div radix < n" using assms by (intro div_less_dividend) simp_all
    moreover have "n mod radix < 36" using assms mod_less_divisor [of radix n] by linarith
    ultimately show ?thesis
      using less False assms by (simp add: nat_digits_step digits_val_snoc to_digit_digit_char)
  qed
qed

lemma to_digit_nat_digits:
  assumes "2 \<le> radix" "radix \<le> 36" "c \<in> set (nat_digits radix n)"
  shows "to_digit c < radix"
  using assms(3)
proof (induction n rule: less_induct)
  case (less n)
  show ?case
  proof (cases "n < radix")
    case True
    then show ?thesis using less.prems assms(1,2) by (auto simp: nat_digits_small to_digit_digit_char)
  next
    case False
    then have lt: "n div radix < n" using assms by (intro div_less_dividend) simp_all
    have "n mod radix < radix" using assms by simp
    then have "to_digit (digit_char (n mod radix)) < radix"
      using assms(2) by (simp add: to_digit_digit_char)
    then show ?thesis using less.IH [OF lt] less.prems False assms(1) by (auto simp: nat_digits_step)
  qed
qed

lemma power_Suc_le: "2 \<le> radix \<Longrightarrow> radix ^ Suc k \<le> n \<Longrightarrow> radix \<le> (n :: nat)"
proof -
  assume r: "2 \<le> radix" and n: "radix ^ Suc k \<le> n"
  have "radix * 1 \<le> radix * radix ^ k" using r by (intro mult_le_mono2) (simp add: Suc_le_eq)
  with n show ?thesis unfolding power_Suc by linarith
qed

text \<open>The low digits have a fixed width once there are higher ones.\<close>

lemma nat_digits_split:
  assumes "2 \<le> radix" "radix ^ k \<le> n"
  shows "nat_digits radix n = nat_digits radix (n div radix ^ k) @ fixed_digits radix k n"
  using assms(2)
proof (induction k arbitrary: n)
  case (Suc k)
  have le: "radix ^ k \<le> n div radix"
    using Suc.prems assms(1) by (simp add: less_eq_div_iff_mult_less_eq mult.commute)
  have "radix \<le> n" using Suc.prems by (rule power_Suc_le [OF assms(1)])
  then have "nat_digits radix n = nat_digits radix (n div radix) @ [digit_char (n mod radix)]"
    by (rule nat_digits_step [OF assms(1)])
  also have "nat_digits radix (n div radix) =
      nat_digits radix (n div radix div radix ^ k) @ fixed_digits radix k (n div radix)"
    by (rule Suc.IH [OF le])
  finally show ?case by (simp add: div_mult2_eq)
qed simp

lemma length_nat_digits_le:
  assumes "2 \<le> radix" "n < radix ^ k" "1 \<le> k"
  shows "length (nat_digits radix n) \<le> k"
  using assms(2,3)
proof (induction k arbitrary: n)
  case (Suc k)
  show ?case
  proof (cases "n < radix")
    case False
    then have r: "radix \<le> n" by simp
    have "n div radix < radix ^ k"
      using Suc.prems(1) assms(1) by (simp add: div_less_iff_less_mult mult.commute)
    moreover have "1 \<le> k"
    proof (rule ccontr)
      assume "\<not> 1 \<le> k"
      then have "k = 0" by simp
      then show False using Suc.prems(1) False by simp
    qed
    ultimately show ?thesis using Suc.IH r assms(1) by (simp add: nat_digits_step)
  qed (simp add: nat_digits_small)
qed simp

lemma fixed_digits_mod: "0 < radix \<Longrightarrow> fixed_digits radix k (n mod radix ^ k) = fixed_digits radix k n"
proof (induction k arbitrary: n)
  case (Suc k)
  have "n mod radix ^ Suc k = radix * (n div radix mod radix ^ k) + n mod radix"
    by (simp only: power_Suc mod_mult2_eq)
  then have "n mod radix ^ Suc k mod radix = n mod radix"
    "n mod radix ^ Suc k div radix = n div radix mod radix ^ k"
    using Suc.prems by (simp_all only: mod_mult_self4 mod_mod_trivial div_mult_self4 neq0_conv) simp_all
  then show ?case using Suc.IH [OF Suc.prems, of "n div radix"] by (simp only: fixed_digits.simps)
qed simp

lemma fixed_digits_nat_digits:
  assumes "2 \<le> radix" "radix ^ k \<le> n" "n < radix ^ Suc k"
  shows "fixed_digits radix (Suc k) n = nat_digits radix n"
  using assms(2,3)
proof (induction k arbitrary: n)
  case 0
  then show ?case by (simp add: nat_digits_small)
next
  case (Suc k)
  have "radix ^ k \<le> n div radix"
    using Suc.prems(1) assms(1) by (simp add: less_eq_div_iff_mult_less_eq mult.commute)
  moreover have "n div radix < radix ^ Suc k"
    using Suc.prems(2) assms(1) by (simp add: div_less_iff_less_mult mult.commute)
  ultimately have "fixed_digits radix (Suc k) (n div radix) = nat_digits radix (n div radix)"
    by (rule Suc.IH)
  moreover have "radix \<le> n" using Suc.prems(1) by (rule power_Suc_le [OF assms(1)])
  ultimately show ?case using assms(1) by (simp add: nat_digits_step)
qed

end
