(* ===== verification/Dtoa.thy ===== *)
theory Dtoa
  imports Digits BigInt_Div
begin

text \<open>
  The integer printers of \<open>src/src/deps/dtoa.c\<close> (\<open>u32toa\<close>, \<open>i32toa\<close>, \<open>u64toa\<close>, \<open>i64toa\<close>,
  \<open>u64toa_radix\<close>, \<open>i64toa_radix\<close>).  The result is the text written to the caller's buffer;
  the temporary buffers of the code are \<open>backbuf\<close>s of their declared size.
\<close>

section \<open>The code\<close>

fun u32toa_len :: "u32 \<Rightarrow> nat \<Rightarrow> string" where
  "u32toa_len n 0 = []"
| "u32toa_len n (Suc k) = u32toa_len (n div 10) k @ [char_of (unat (n mod 10) + 48)]"

fun u64toa_bin_len :: "u64 \<Rightarrow> nat \<Rightarrow> nat \<Rightarrow> string" where
  "u64toa_bin_len n radix_bits 0 = []"
| "u64toa_bin_len n radix_bits (Suc k) =
     (let digit = unat (n AND (push_bit radix_bits 1 - 1))
      in u64toa_bin_len (drop_bit radix_bits n) radix_bits k @
         [if digit < 10 then char_of (digit + 48) else char_of (digit + 87)])"

fun limb_to_a_radix :: "u32 \<Rightarrow> u32 \<Rightarrow> nat \<Rightarrow> string" where
  "limb_to_a_radix n radix 0 = []"
| "limb_to_a_radix n radix (Suc k) =
     (let digit = unat (n mod radix)
      in limb_to_a_radix (n div radix) radix k @
         [if digit < 10 then char_of (digit + 48) else char_of (digit + 87)])"

definition dtoa_limb_to_a :: "u32 \<Rightarrow> u32 \<Rightarrow> nat \<Rightarrow> string" where
  "dtoa_limb_to_a n radix len = (if radix = 10 then u32toa_len n len else limb_to_a_radix n radix len)"

partial_function (option) u32toa_loop :: "backbuf \<Rightarrow> u32 \<Rightarrow> backbuf option" where
  "u32toa_loop q n = do {
     q1 \<leftarrow> back_push (char_of (unat (n mod 10) + 48)) q;
     if n div 10 \<noteq> 0 then u32toa_loop q1 (n div 10) else Some q1 }"

definition u32toa :: "u32 \<Rightarrow> string option" where
  "u32toa n = map_option snd (u32toa_loop (10, []) n)"

definition i32toa :: "u32 \<Rightarrow> string option" where
  "i32toa n = (if 0 \<le>s n then u32toa n else map_option (\<lambda>s. CHR ''-'' # s) (u32toa (- n)))"

definition u64toa :: "u64 \<Rightarrow> string option" where
  "u64toa n =
     (if n < 0x100000000 then u32toa (ucast n)
      else do {
        let n1 = n div 1000000000;
        let n = n mod 1000000000;
        high \<leftarrow>
          (if n1 \<ge> 0x100000000 then
             let n2 = ucast (n1 div 1000000000) :: u32;
                 n1 = n1 mod 1000000000;
                 (q, n2) = (if n2 \<ge> 10 then ([char_of (unat (n2 div 10) + 48)], n2 mod 10) else ([], n2))
             in Some (q @ [char_of (unat n2 + 48)] @ u32toa_len (ucast n1) 9)
           else u32toa (ucast n1));
        Some (high @ u32toa_len (ucast n) 9) })"

definition i64toa :: "u64 \<Rightarrow> string option" where
  "i64toa n = (if 0 \<le>s n then u64toa n else map_option (\<lambda>s. CHR ''-'' # s) (u64toa (- n)))"

partial_function (option) u64toa_radix_loop :: "backbuf \<Rightarrow> u64 \<Rightarrow> u32 \<Rightarrow> backbuf option" where
  "u64toa_radix_loop q n radix = do {
     let digit = unat (n mod ucast radix);
     q1 \<leftarrow> back_push (if digit < 10 then char_of (digit + 48) else char_of (digit + 87)) q;
     if n div ucast radix \<noteq> 0 then u64toa_radix_loop q1 (n div ucast radix) radix else Some q1 }"

definition u64toa_radix :: "u64 \<Rightarrow> u32 \<Rightarrow> string option" where
  "u64toa_radix n radix =
     (if radix = 10 then u64toa n
      else if radix AND (radix - 1) = 0 then
        let radix_bits = 31 - (32 - bit_length (unat radix));
            l = (if n = 0 then 1
                 else (64 - (64 - bit_length (unat n)) + radix_bits - 1) div radix_bits)
        in Some (u64toa_bin_len n radix_bits l)
      else map_option snd (u64toa_radix_loop (41, []) n radix))"

definition i64toa_radix :: "u64 \<Rightarrow> u32 \<Rightarrow> string option" where
  "i64toa_radix n radix =
     (if 0 \<le>s n then u64toa_radix n radix
      else map_option (\<lambda>s. CHR ''-'' # s) (u64toa_radix (- n) radix))"

section \<open>Fixed-width digits\<close>

lemma digit_char_code: "(if d < 10 then char_of (d + 48) else char_of (d + 87)) = digit_char d"
  by (simp add: digit_char_def add.commute)

lemma digit_char_dec: "d < 10 \<Longrightarrow> char_of (d + 48) = digit_char d"
  using digit_char_code [of d] by simp

lemma u32toa_len_spec: "u32toa_len n k = fixed_digits 10 k (unat n)"
proof (induction k arbitrary: n)
  case (Suc k)
  have "unat (n mod 10) < 10" by (simp add: unat_mod)
  then show ?case using Suc [of "n div 10"] by (simp add: digit_char_dec unat_mod unat_div)
qed simp

lemma u64toa_bin_len_spec:
  "b < 64 \<Longrightarrow> u64toa_bin_len n b k = fixed_digits (2 ^ b) k (unat n)"
proof (induction k arbitrary: n)
  case (Suc k)
  have "n AND (push_bit b 1 - 1) = take_bit b n" by (simp add: take_bit_eq_mask mask_eq_exp_minus_1)
  then have "unat (n AND (push_bit b 1 - 1)) = unat n mod 2 ^ b" by (simp only: unat_take_bit_mod)
  then show ?case using Suc.IH [OF Suc.prems, of "drop_bit b n"]
    by (simp only: u64toa_bin_len.simps Let_def digit_char_code unat_drop_bit_div fixed_digits.simps)
qed simp

lemma limb_to_a_radix_spec: "limb_to_a_radix n radix k = fixed_digits (unat radix) k (unat n)"
proof (induction k arbitrary: n)
  case (Suc k)
  then show ?case
    by (simp only: limb_to_a_radix.simps Let_def digit_char_code fixed_digits.simps unat_mod unat_div)
qed simp

lemma dtoa_limb_to_a_spec: "dtoa_limb_to_a n radix len = fixed_digits (unat radix) len (unat n)"
  by (simp add: dtoa_limb_to_a_def u32toa_len_spec limb_to_a_radix_spec)

section \<open>Free-width digits\<close>

lemma u64toa_radix_loop_spec:
  assumes r: "2 \<le> unat radix"
  shows "length (nat_digits (unat radix) (unat n)) \<le> room \<Longrightarrow>
    u64toa_radix_loop (room, s) n radix =
      Some (room - length (nat_digits (unat radix) (unat n)), nat_digits (unat radix) (unat n) @ s)"
proof (induction "unat n" arbitrary: n room s rule: less_induct)
  case less
  let ?r = "unat radix" and ?d = "unat n mod unat radix"
  have rl: "unat (ucast radix :: u64) = ?r" by (rule unat_ucast_up) simp
  have dm: "unat (n mod ucast radix) = ?d" "unat (n div ucast radix) = unat n div ?r"
    by (simp_all only: unat_mod unat_div rl)
  have room: "room \<noteq> 0" using less.prems by (cases room) simp_all
  then obtain k where k: "room = Suc k" by (cases room) auto
  have step: "u64toa_radix_loop (room, s) n radix =
      (if unat n div ?r \<noteq> 0 then u64toa_radix_loop (k, digit_char ?d # s) (n div ucast radix) radix
       else Some (k, digit_char ?d # s))"
    by (subst u64toa_radix_loop.simps)
      (simp only: Let_def digit_char_code dm k back_push.simps Option.bind.simps unat_eq_zero [symmetric])
  show ?case
  proof (cases "unat n < ?r")
    case True
    then show ?thesis unfolding step unfolding k using nat_digits_small [OF True] by simp
  next
    case False
    then have nd: "nat_digits ?r (unat n) = nat_digits ?r (unat n div ?r) @ [digit_char ?d]"
      by (intro nat_digits_step [OF r]) simp
    have lt: "unat (n div ucast radix) < unat n"
      unfolding dm using False r by (intro div_less_dividend) simp_all
    have "unat n div ?r \<noteq> 0" using False r by (simp add: div_eq_0_iff)
    moreover have "length (nat_digits ?r (unat (n div ucast radix))) \<le> k"
      using less.prems unfolding nd k dm by simp
    note less.hyps [OF lt this, of "digit_char ?d # s"]
    ultimately show ?thesis unfolding step unfolding nd k dm by simp
  qed
qed

lemma u32toa_loop_radix: "u32toa_loop q n = u64toa_radix_loop q (ucast n) 10"
proof (induction "unat n" arbitrary: q n rule: less_induct)
  case less
  have u: "unat (ucast n :: u64) = unat n" by (rule unat_ucast_up) simp
  have t: "unat (ucast (10 :: u32) :: u64) = 10" by simp
  have m: "unat ((ucast n :: u64) mod ucast (10 :: u32)) = unat (n mod 10)"
    by (simp only: unat_mod u t) simp
  have d: "(ucast n :: u64) div ucast (10 :: u32) = ucast (n div 10)"
  proof (rule word_unat_eq_iff [THEN iffD2])
    have "unat (ucast (n div 10) :: u64) = unat (n div 10)" by (rule unat_ucast_up) simp
    then show "unat ((ucast n :: u64) div ucast (10 :: u32)) = unat (ucast (n div 10) :: u64)"
      by (simp only: unat_div u t) simp
  qed
  have z: "(ucast (n div 10) :: u64) = 0 \<longleftrightarrow> n div 10 = 0"
    using unat_ucast_up [of "n div 10", where 'a = 64] by (simp flip: unat_eq_zero)
  have lt: "unat (n mod 10) < 10" by (simp add: unat_mod)
  have IH: "n div 10 \<noteq> 0 \<Longrightarrow> u32toa_loop q1 (n div 10) = u64toa_radix_loop q1 (ucast (n div 10)) 10" for q1
  proof (rule less.hyps)
    assume "n div 10 \<noteq> 0"
    then have "0 < unat n div 10" by (simp add: unat_div flip: unat_gt_0)
    then show "unat (n div 10) < unat n" by (simp add: unat_div)
  qed
  have "u64toa_radix_loop q (ucast n) 10 = do {
      q1 \<leftarrow> back_push (char_of (unat (n mod 10) + 48)) q;
      if n div 10 \<noteq> 0 then u64toa_radix_loop q1 (ucast (n div 10)) 10 else Some q1 }"
    by (subst u64toa_radix_loop.simps) (simp only: Let_def m d z lt if_True)
  then show ?case
    by (subst u32toa_loop.simps) (simp add: IH cong: if_cong)
qed

lemma u32toa_spec: "u32toa n = Some (nat_digits 10 (unat n))"
proof -
  have u: "unat (ucast n :: u64) = unat n" by (rule unat_ucast_up) simp
  have "unat n < 10 ^ 10" using unsigned_less [of n, where 'a = nat] by simp
  then have "length (nat_digits 10 (unat n)) \<le> 10" by (intro length_nat_digits_le) simp_all
  then show ?thesis
    using u64toa_radix_loop_spec [of 10 "ucast n" 10 "[]"]
    by (simp add: u32toa_def u32toa_loop_radix u)
qed

lemma u64toa_spec: "u64toa n = Some (nat_digits 10 (unat n))"
proof (cases "n < 0x100000000")
  case True
  then have "unat n < 0x100000000" by (simp add: word_less_nat_alt)
  then have "unat (ucast n :: u32) = unat n" by (simp add: unsigned_ucast_eq take_bit_nat_eq_self)
  then show ?thesis using True by (simp add: u64toa_def u32toa_spec)
next
  case False
  define N where "N = unat n"
  define M where "M = N div 1000000000"
  have N: "0x100000000 \<le> N" "N < 18446744073709551616"
    using False unat_limb [of n] by (simp_all add: N_def word_less_nat_alt BASE_def)
  have low: "u32toa_len (ucast (n mod 1000000000)) 9 = fixed_digits 10 9 N"
  proof -
    have "unat (n mod 1000000000) = N mod 10 ^ 9" by (simp add: unat_mod N_def)
    moreover have "N mod 10 ^ 9 < 2 ^ 32" using mod_less_divisor [of "10 ^ 9" N] by simp
    ultimately have "unat (ucast (n mod 1000000000) :: u32) = N mod 10 ^ 9"
      by (simp add: unsigned_ucast_eq take_bit_nat_eq_self)
    then show ?thesis using fixed_digits_mod [of 10 9 N] by (simp add: u32toa_len_spec)
  qed
  have split: "nat_digits 10 N = nat_digits 10 M @ fixed_digits 10 9 N"
    using nat_digits_split [of 10 9 N] N by (simp add: M_def)
  define n1 where "n1 = n div 1000000000"
  have u1: "unat n1 = M" by (simp add: n1_def M_def N_def unat_div)
  define high where "high =
    (if n1 \<ge> 0x100000000 then
       let n2 = ucast (n1 div 1000000000) :: u32;
           n1 = n1 mod 1000000000;
           (q, n2) = (if n2 \<ge> 10 then ([char_of (unat (n2 div 10) + 48)], n2 mod 10) else ([], n2))
       in Some (q @ [char_of (unat n2 + 48)] @ u32toa_len (ucast n1) 9)
     else u32toa (ucast n1))"
  have high: "high = Some (nat_digits 10 M)"
  proof (cases "n1 \<ge> 0x100000000")
    case F: False
    then have "M < 0x100000000" using u1 by (simp add: word_le_nat_alt)
    then have "unat (ucast n1 :: u32) = M" by (simp add: unsigned_ucast_eq take_bit_nat_eq_self u1)
    then show ?thesis using F by (simp add: high_def u32toa_spec)
  next
    case True
    then have M: "1000000000 \<le> M" using u1 by (simp add: word_le_nat_alt)
    define k where "k = M div 1000000000"
    have k: "1 \<le> k" "k < 19" using M N by (simp_all add: k_def M_def)
    define n2 where "n2 = (ucast (n1 div 1000000000) :: u32)"
    have u2: "unat n2 = k"
    proof -
      have "unat (n1 div 1000000000) = k" by (simp add: unat_div u1 k_def)
      then show ?thesis using k by (simp add: n2_def unsigned_ucast_eq take_bit_nat_eq_self)
    qed
    have mid: "u32toa_len (ucast (n1 mod 1000000000)) 9 = fixed_digits 10 9 M"
    proof -
      have "unat (n1 mod 1000000000) = M mod 10 ^ 9" by (simp add: unat_mod u1)
      moreover have "M mod 10 ^ 9 < 2 ^ 32" using mod_less_divisor [of "10 ^ 9" M] by simp
      ultimately have "unat (ucast (n1 mod 1000000000) :: u32) = M mod 10 ^ 9"
        by (simp add: unsigned_ucast_eq take_bit_nat_eq_self)
      then show ?thesis using fixed_digits_mod [of 10 9 M] by (simp add: u32toa_len_spec)
    qed
    have sp: "nat_digits 10 M = nat_digits 10 k @ fixed_digits 10 9 M"
      using nat_digits_split [of 10 9 M] M by (simp add: k_def)
    have ge: "n2 \<ge> 10 \<longleftrightarrow> 10 \<le> k" using u2 by (simp add: word_le_nat_alt)
    have "high = (let (q, n2) = (if n2 \<ge> 10 then ([char_of (unat (n2 div 10) + 48)], n2 mod 10) else ([], n2))
       in Some (q @ [char_of (unat n2 + 48)] @ fixed_digits 10 9 M))"
      unfolding high_def if_P [OF True] Let_def n2_def [symmetric] mid ..
    also have "\<dots> = Some (nat_digits 10 k @ fixed_digits 10 9 M)"
    proof (cases "10 \<le> k")
      case True
      then have kd: "k div 10 = 1" using k by simp
      have "nat_digits 10 k = [digit_char 1, digit_char (k mod 10)]"
        using nat_digits_step [of 10 k] True kd by (simp add: nat_digits_small)
      then show ?thesis using True ge u2 kd digit_char_dec [of 1]
        by (simp add: unat_div unat_mod digit_char_dec)
    next
      case False
      then show ?thesis using ge u2 by (simp add: nat_digits_small digit_char_dec)
    qed
    finally show ?thesis unfolding sp .
  qed
  have "u64toa n = do { h \<leftarrow> high; Some (h @ u32toa_len (ucast (n mod 1000000000)) 9) }"
    unfolding u64toa_def if_not_P [OF False] Let_def high_def n1_def ..
  then show ?thesis unfolding high low by (simp add: split N_def [symmetric])
qed

lemma i64_sign: "0 \<le>s (n :: u64) \<longleftrightarrow> 0 \<le> sint n"
  by (simp add: word_sle_eq)

lemma nat_sint_pos:
  assumes "0 \<le> sint (n :: u64)"
  shows "nat (sint n) = unat n"
proof -
  have "\<not> neg_limb n" using assms neg_limb_sint [of n] by simp
  then have "sint n = int (unat n)" using sint_limb [of n] by (simp del: of_nat_unat)
  then show ?thesis by (simp del: of_nat_unat)
qed

lemma nat_sint_neg: "sint (n :: u64) < 0 \<Longrightarrow> unat (- n) = nat (- sint n)"
proof -
  assume s: "sint n < 0"
  then have ng: "neg_limb n" and n0: "n \<noteq> 0" using neg_limb_sint [of n] by auto
  have "int (BASE - unat n) = int BASE - int (unat n)" by (intro of_nat_diff less_imp_le unat_limb)
  then have "int (unat (- n)) = - sint n" unfolding unat_neg_limb [OF n0] sint_limb using ng by simp
  then show ?thesis by linarith
qed

lemma i64toa_spec: "i64toa n = Some (int_digits 10 (sint n))"
proof (cases "0 \<le> sint n")
  case True
  then show ?thesis by (simp add: i64toa_def i64_sign u64toa_spec int_digits_def nat_sint_pos)
next
  case False
  then have "sint n < 0" by simp
  then show ?thesis
    by (simp add: i64toa_def i64_sign u64toa_spec int_digits_def nat_sint_neg [symmetric] not_le)
qed

lemma i32toa_spec: "i32toa n = Some (int_digits 10 (sint n))"
proof -
  have sz: "sint n = int (unat n) - of_bool (2 ^ 31 \<le> unat n) * 2 ^ 32"
  proof -
    have t: "take_bit 32 (int (unat n)) = int (unat n)"
      by (rule take_bit_int_eq_self) (use unsigned_less [of n, where 'a = int] in simp_all)
    have b: "bit n 31 \<longleftrightarrow> 2 ^ 31 \<le> unat n"
    proof -
      have "unat n < 2 ^ 32" using unsigned_less [of n, where 'a = nat] by simp
      then have "unat n div 2 ^ 31 = of_bool (2 ^ 31 \<le> unat n)"
        by (cases "2 ^ 31 \<le> unat n") (simp_all add: div_nat_eqI)
      moreover have "bit n 31 \<longleftrightarrow> bit (unat n) 31" by (simp add: bit_unsigned_iff)
      ultimately show ?thesis by (simp add: bit_iff_odd)
    qed
    have "sint n = signed_take_bit 31 (int (unat n))" by (simp add: sint_uint)
    also have "\<dots> = int (unat n) - 2 ^ 32 * of_bool (bit n 31)"
      using signed_take_bit_eq_take_bit_minus [of 31 "int (unat n)"] t by (simp add: bit_simps)
    finally show ?thesis unfolding b by simp
  qed
  have lt: "int (unat n) < 2 ^ 32" using unsigned_less [of n, where 'a = int] by simp
  show ?thesis
  proof (cases "0 \<le> sint n")
    case True
    then have "nat (sint n) = unat n" using sz lt by (cases "2 ^ 31 \<le> unat n") simp_all
    then show ?thesis using True by (simp add: i32toa_def word_sle_eq u32toa_spec int_digits_def)
  next
    case False
    then have big: "2 ^ 31 \<le> unat n" using sz by (cases "2 ^ 31 \<le> unat n") simp_all
    then have n0: "n \<noteq> 0" by auto
    have "unat (- n) = 2 ^ 32 - unat n"
    proof -
      have "- n = NOT (n - 1)" by (simp add: not_eq_complement)
      moreover have "unat (n - 1) = unat n - 1" by (rule unat_minus_one [OF n0])
      moreover have "unat (NOT w) = 2 ^ 32 - 1 - unat w" for w :: u32
      proof -
        have "NOT w = - 1 - w" by (simp add: not_eq_complement)
        moreover have "unat (- 1 :: u32) = 2 ^ 32 - 1"
          by (simp add: unsigned_minus_1_eq_mask mask_eq_exp_minus_1)
        moreover have "w \<le> - 1" by simp
        ultimately show ?thesis by (simp add: unat_sub)
      qed
      moreover have "0 < unat n" using big by simp
      ultimately show ?thesis by simp
    qed
    moreover have "unat n \<le> 2 ^ 32" using unsigned_less [of n, where 'a = nat] by simp
    ultimately have "int (unat (- n)) = 2 ^ 32 - int (unat n)"
      by (simp only: of_nat_diff of_nat_power of_nat_numeral)
    then have "int (unat (- n)) = - sint n" unfolding sz using big by (simp del: of_nat_unat)
    then have "nat (- sint n) = unat (- n)" by linarith
    then show ?thesis using False by (simp add: i32toa_def word_sle_eq u32toa_spec int_digits_def not_le)
  qed
qed

section \<open>Any radix\<close>

lemma power_of_two_radix:
  assumes "2 \<le> unat radix" "unat radix \<le> 36" "(radix :: u32) AND (radix - 1) = 0"
  shows "unat radix = 2 ^ (bit_length (unat radix) - 1)" "1 \<le> bit_length (unat radix) - 1"
    "bit_length (unat radix) - 1 \<le> 5"
proof -
  define v :: limb where "v = ucast radix"
  define k where "k = bit_length (unat radix) - 1"
  have uv: "unat v = unat radix" unfolding v_def by (rule unat_ucast_up) simp
  have v0: "v \<noteq> 0" using uv assms(1) by auto
  have r0: "radix \<noteq> 0" using assms(1) by auto
  have u1: "unat (v - 1) = unat (radix - 1)"
    unfolding unat_minus_one [OF v0] unat_minus_one [OF r0] uv ..
  have "unat (v AND (v - 1)) = unat (radix AND (radix - 1))"
    by (simp only: unsigned_and_eq uv u1)
  then have "v AND (v - 1) = 0" using assms(3) by (simp only: unat_eq_zero unat_0)
  note p = power_of_two_limb [OF v0 this]
  have "0 < unat v" using uv assms(1) by simp
  then have "63 - js_limb_clz v = k"
    using js_limb_clz_spec(1) [OF v0] bit_length_spec [of "unat v"]
    by (auto simp: k_def js_limb_clz_def JS_LIMB_BITS_def uv)
  then have e: "unat radix = 2 ^ k" using p uv by simp
  then show "unat radix = 2 ^ (bit_length (unat radix) - 1)" by (simp only: k_def)
  have "k \<noteq> 0" using assms(1) e by (cases k) simp_all
  then show "1 \<le> bit_length (unat radix) - 1" by (simp add: k_def)
  have "(2 :: nat) ^ k < 2 ^ 6" using assms(2) e by simp
  then have "k < 6" by (simp only: power_strict_increasing_iff)
  then show "bit_length (unat radix) - 1 \<le> 5" by (simp add: k_def)
qed

lemma unat_radix_eq: "unat (r :: u32) = 10 \<longleftrightarrow> r = 10"
  by (simp add: word_unat_eq_iff)

lemma u64toa_radix_spec:
  assumes r: "2 \<le> unat radix" "unat radix \<le> 36"
  shows "u64toa_radix n radix = Some (nat_digits (unat radix) (unat n))"
proof -
  let ?r = "unat radix"
  consider "radix = 10" | "radix \<noteq> 10" "radix AND (radix - 1) = 0"
    | "radix \<noteq> 10" "radix AND (radix - 1) \<noteq> 0" by blast
  then show ?thesis
  proof cases
    case 1
    then show ?thesis by (simp add: u64toa_radix_def u64toa_spec)
  next
    case 2
    define b where "b = bit_length ?r - 1"
    note p = power_of_two_radix [OF r 2(2), folded b_def]
    have bl: "bit_length ?r = Suc b" using p(2) by (simp add: b_def)
    have rb: "31 - (32 - bit_length ?r) = b" using bl p(3) by simp
    define l where "l = (if n = 0 then 1 else (64 - (64 - bit_length (unat n)) + b - 1) div b)"
    have "u64toa_radix n radix = Some (u64toa_bin_len n b l)"
      using 2 by (simp add: u64toa_radix_def Let_def rb l_def)
    also have "\<dots> = Some (fixed_digits ?r l (unat n))"
      using p(1,3) by (simp add: u64toa_bin_len_spec)
    also have "fixed_digits ?r l (unat n) = nat_digits ?r (unat n)"
    proof (cases "n = 0")
      case True
      then show ?thesis using r by (simp add: l_def nat_digits_small)
    next
      case False
      define m where "m = bit_length (unat n)"
      have "0 < unat n" using False by (simp add: unat_gt_0)
      note bn = bit_length_spec [OF this, folded m_def]
      have m64: "m \<le> 64" using js_limb_clz_spec(1) [OF False] by (simp add: m_def)
      define k where "k = (m - 1) div b"
      have l: "l = Suc k"
      proof -
        have "l = (m - 1 + b) div b" using False m64 bn p(2) by (simp add: l_def m_def [symmetric])
        then show ?thesis using p(2) by (simp add: k_def div_add_self2)
      qed
      have "b * k \<le> m - 1" by (simp add: k_def)
      then have "2 ^ (b * k) \<le> (2 :: nat) ^ (m - 1)" by (intro power_increasing) simp_all
      then have lo: "?r ^ k \<le> unat n" using bn unfolding p(1) power_mult [symmetric] by linarith
      have "m - 1 < b * Suc k"
        using dividend_less_times_div [of b "m - 1"] p(2) by (simp add: k_def)
      then have "(2 :: nat) ^ m \<le> 2 ^ (b * Suc k)" by (intro power_increasing) simp_all
      then have "unat n < ?r ^ Suc k" using bn unfolding p(1) power_mult [symmetric] by linarith
      from fixed_digits_nat_digits [OF r(1) lo this] show ?thesis unfolding l .
    qed
    finally show ?thesis .
  next
    case 3
    have r3: "3 \<le> ?r"
    proof (rule ccontr)
      assume "\<not> 3 \<le> ?r"
      then have "?r = unat (2 :: u32)" using r by simp
      then have "radix = 2" by (simp only: word_unat_eq_iff)
      then show False using 3(2) by simp
    qed
    have "unat n < 2 ^ 64" using unsigned_less [of n, where 'a = nat] by simp
    also have "(2 :: nat) ^ 64 \<le> 3 ^ 41" by simp
    also have "(3 :: nat) ^ 41 \<le> ?r ^ 41" by (rule power_mono [OF r3]) simp
    finally have "length (nat_digits ?r (unat n)) \<le> 41" by (intro length_nat_digits_le [OF r(1)]) simp_all
    from u64toa_radix_loop_spec [OF r(1) this, of "[]"] show ?thesis
      using 3 by (simp add: u64toa_radix_def)
  qed
qed

lemma i64toa_radix_spec:
  assumes r: "2 \<le> unat radix" "unat radix \<le> 36"
  shows "i64toa_radix n radix = Some (int_digits (unat radix) (sint n))"
proof (cases "0 \<le> sint n")
  case True
  then show ?thesis
    by (simp add: i64toa_radix_def i64_sign u64toa_radix_spec [OF r] int_digits_def nat_sint_pos)
next
  case False
  then have "sint n < 0" by simp
  then show ?thesis
    by (simp add: i64toa_radix_def i64_sign u64toa_radix_spec [OF r] int_digits_def
        nat_sint_neg [symmetric] not_le)
qed

end
