(* ===== verification/BigInt_String.thy ===== *)
theory BigInt_String
  imports Dtoa BigInt
begin

text \<open>
  BigInt to and from text (\<open>src/src/core/quickjs.c\<close>: \<open>js_bigint_from_string\<close>,
  \<open>js_bigint_to_string1\<close>, their digit loops and tables, \<open>JS_CompactBigInt\<close>).
  A C string is the list of its characters without the terminator; the end of the list is
  the terminator, which is no digit.
\<close>

section \<open>Reading\<close>

definition js_pow_dec :: "limb list" where
  "js_pow_dec = [1, 10, 100, 1000, 10000, 100000, 1000000, 10000000, 100000000, 1000000000,
     10000000000, 100000000000, 1000000000000, 10000000000000, 100000000000000,
     1000000000000000, 10000000000000000, 100000000000000000, 1000000000000000000,
     10000000000000000000]"

definition JS_LIMB_DIGITS :: nat where "JS_LIMB_DIGITS = 19"

text \<open>At most \<open>k\<close> more digits of a chunk: the value, the number of digits read, the rest.\<close>

fun dec_chunk :: "nat \<Rightarrow> string \<Rightarrow> limb \<Rightarrow> nat \<Rightarrow> limb \<times> nat \<times> string" where
  "dec_chunk 0 p v i = (v, i, p)"
| "dec_chunk (Suc k) [] v i = (v, i, [])"
| "dec_chunk (Suc k) (ch # p) v i =
     (let c = to_digit ch
      in if c \<ge> 10 then (v, i, ch # p) else dec_chunk k p (v * 10 + of_nat c) (i + 1))"

definition dec_step :: "limb list \<Rightarrow> nat \<Rightarrow> limb \<Rightarrow> nat \<Rightarrow> (limb list \<times> nat) option" where
  "dec_step r len v i = do {
     x \<leftarrow> rd r 0;
     if len = 1 \<and> x = 0 then do { r1 \<leftarrow> wr r 0 v; Some (r1, len) }
     else do {
       w \<leftarrow> grab r 0 len;
       d \<leftarrow> rd js_pow_dec i;
       let (w1, h) = mp_mul1 w d v;
       r1 \<leftarrow> blit r 0 w1;
       if h \<noteq> 0 then do { r2 \<leftarrow> wr r1 len h; Some (r2, len + 1) } else Some (r1, len) } }"

lemma dec_chunk_rest:
  "dec_chunk k p v i = (v', i', p') \<Longrightarrow> i' + length p' = i + length p \<and> i \<le> i'"
  by (induction k p v i rule: dec_chunk.induct) (auto simp: Let_def split: if_splits)

function dec_loop :: "limb list \<Rightarrow> nat \<Rightarrow> string \<Rightarrow> (limb list \<times> nat) option" where
  "dec_loop r len p =
     (let (v, i, p') = dec_chunk JS_LIMB_DIGITS p 0 0
      in if i = 0 then Some (r, len)
         else (case dec_step r len v i of
                 None \<Rightarrow> None | Some (r1, len1) \<Rightarrow> dec_loop r1 len1 p'))"
  by pat_completeness auto
termination
proof (relation "measure (\<lambda>(r, len, p). length p)", goal_cases)
  case (2 r len p x v y i p' z r1 len1)
  then have "dec_chunk JS_LIMB_DIGITS p 0 0 = (v, i, p')" by simp
  from dec_chunk_rest [OF this] 2(4) show ?case by simp
qed simp

declare dec_loop.simps [simp del]

text \<open>One extra limb keeps the sign positive.\<close>

definition dec_finish :: "limb list \<Rightarrow> nat \<Rightarrow> bigint option" where
  "dec_finish r len = do {
     x \<leftarrow> rd r (len - 1);
     if drop_bit (JS_LIMB_BITS - 1) x \<noteq> 0 then do { r1 \<leftarrow> wr r len 0; grab r1 0 (len + 1) }
     else grab r 0 len }"

text \<open>
  The digits of a power of two radix, from the last one; a character that is no digit fails
  the assertion of the code.
\<close>

fun bin_loop :: "nat \<Rightarrow> nat \<Rightarrow> string \<Rightarrow> nat \<Rightarrow> limb list \<Rightarrow> limb list option" where
  "bin_loop log2_radix radix [] i r = Some r"
| "bin_loop log2_radix radix (ch # cs) i r =
     (let c = to_digit ch;
          bit_pos = i * log2_radix;
          shift = bit_pos mod JS_LIMB_BITS;
          pos = bit_pos div JS_LIMB_BITS
      in if c \<ge> radix then None
         else do {
           x \<leftarrow> rd r pos;
           r1 \<leftarrow> wr r pos (x OR push_bit shift (of_nat c));
           r2 \<leftarrow> (if shift + log2_radix > JS_LIMB_BITS
                 then do { y \<leftarrow> rd r1 (pos + 1);
                           wr r1 (pos + 1) (y OR drop_bit (JS_LIMB_BITS - shift) (of_nat c)) }
                 else Some r1);
           bin_loop log2_radix radix cs (i + 1) r2 })"

definition from_string_neg :: "malloc_funcs \<Rightarrow> bool \<Rightarrow> bigint \<Rightarrow> bigint js" where
  "from_string_neg mf is_neg r =
     (if is_neg
      then js_try (js_bigint_neg mf r) (js_free r) (\<lambda>r1. js_bind (js_free r) (\<lambda>_. js_return r1))
      else js_return r)"

definition js_bigint_from_string :: "malloc_funcs \<Rightarrow> string \<Rightarrow> nat \<Rightarrow> bigint js" where
  "js_bigint_from_string mf str radix =
     (let is_neg = (str \<noteq> [] \<and> hd str = CHR ''-'');
          p = dropWhile (\<lambda>c. c = CHR ''0'') (if is_neg then tl str else str);
          n_digits = length p
      in if n_digits > JS_BIGINT_MAX_SIZE * JS_LIMB_BITS
         then js_throw (RangeError ''BigInt is too large to allocate'')
         else
           let log2_radix = 32 - clz32 (of_nat (radix - 1));
               n_bits = (if radix = 10 then (n_digits * 27 + 7) div 8 else n_digits * log2_radix);
               n_limbs = max 1 (n_bits div JS_LIMB_BITS + 1)
           in js_bind (js_bigint_new mf n_limbs) (\<lambda>r.
              js_bind (js_lift
                (if radix = 10 then do {
                   r1 \<leftarrow> wr r 0 0;
                   (r2, len) \<leftarrow> dec_loop r1 1 p;
                   dec_finish r2 len }
                 else bin_loop log2_radix radix (rev p) 0 (replicate n_limbs 0))) (\<lambda>r.
              js_bind (js_bigint_normalize mf r) (from_string_neg mf is_neg))))"

section \<open>Printing\<close>

definition digits :: string where
  "digits = ''0123456789abcdefghijklmnopqrstuvwxyz''"

partial_function (option) js_u64toa :: "backbuf \<Rightarrow> u64 \<Rightarrow> u32 \<Rightarrow> backbuf option" where
  "js_u64toa q n base =
     (if base = 10 then do {
        q1 \<leftarrow> back_push (char_of (48 + unat (n mod 10))) q;
        if n div 10 \<noteq> 0 then js_u64toa q1 (n div 10) base else Some q1 }
      else do {
        c \<leftarrow> rd digits (unat (n mod ucast base));
        q1 \<leftarrow> back_push c q;
        if n div ucast base \<noteq> 0 then js_u64toa q1 (n div ucast base) base else Some q1 })"

fun limb_to_a :: "backbuf \<Rightarrow> limb \<Rightarrow> u32 \<Rightarrow> nat \<Rightarrow> backbuf option" where
  "limb_to_a q n radix 0 = Some q"
| "limb_to_a q n radix (Suc k) =
     (if radix = 10 then do {
        q1 \<leftarrow> back_push (char_of (unat (n mod 10) + 48)) q;
        limb_to_a q1 (n div 10) radix k }
      else do {
        c \<leftarrow> rd digits (unat (n mod ucast radix));
        q1 \<leftarrow> back_push c q;
        limb_to_a q1 (n div ucast radix) radix k })"

definition digits_per_limb_table :: "nat list" where
  "digits_per_limb_table =
     [64,40,32,27,24,22,21,20,19,18,17,17,16,16,16,15,15,15,14,14,14,14,13,13,13,13,13,13,13,12,12,12,12,12,12]"

definition radix_base_table :: "limb list" where
  "radix_base_table =
    [0x0000000000000000, 0xa8b8b452291fe821, 0x0000000000000000, 0x6765c793fa10079d,
     0x41c21cb8e1000000, 0x3642798750226111, 0x8000000000000000, 0xa8b8b452291fe821,
     0x8ac7230489e80000, 0x4d28cb56c33fa539, 0x1eca170c00000000, 0x780c7372621bd74d,
     0x1e39a5057d810000, 0x5b27ac993df97701, 0x0000000000000000, 0x27b95e997e21d9f1,
     0x5da0e1e53c5c8000, 0xd2ae3299c1c4aedb, 0x16bcc41e90000000, 0x2d04b7fdd9c0ef49,
     0x5658597bcaa24000, 0xa0e2073737609371, 0x0c29e98000000000, 0x14adf4b7320334b9,
     0x226ed36478bfa000, 0x383d9170b85ff80b, 0x5a3c23e39c000000, 0x8e65137388122bcd,
     0xdd41bb36d259e000, 0x0aee5720ee830681, 0x1000000000000000, 0x172588ad4f5f0981,
     0x211e44f7d02c1000, 0x2ee56725f06e5c71, 0x41c21cb8e1000000]"

definition js_new_string8_len :: "malloc_funcs \<Rightarrow> string \<Rightarrow> string js" where
  "js_new_string8_len mf s =
     (if s = [] then js_return []
      else js_bind (js_malloc mf (16 + length s + 1)) (\<lambda>_. js_return s))"

text \<open>A radix that is no power of two: chunks of digits by repeated division.\<close>

partial_function (option) to_string_chunks ::
  "limb list \<Rightarrow> nat \<Rightarrow> backbuf \<Rightarrow> u32 \<Rightarrow> backbuf option" where
  "to_string_chunks r len0 q radix = do {
     radix_base \<leftarrow> rd radix_base_table (unat radix - 2);
     digits_per_limb \<leftarrow> rd digits_per_limb_table (unat radix - 2);
     let len = strip_zeros r len0;
     x \<leftarrow> rd r 0;
     if len = 1 \<and> x < radix_base then (if x \<noteq> 0 then js_u64toa q x radix else Some q)
     else do {
       w \<leftarrow> grab r 0 len;
       let (w1, v) = mp_div1 w radix_base 0;
       r1 \<leftarrow> blit r 0 w1;
       q1 \<leftarrow> limb_to_a q v radix digits_per_limb;
       to_string_chunks r1 len q1 radix } }"

text \<open>A power of two radix: the digits are bit fields, taken from \<open>i\<close> on.\<close>

definition bin_digit :: "limb list \<Rightarrow> u32 \<Rightarrow> nat \<Rightarrow> nat \<Rightarrow> u32 option" where
  "bin_digit r radix log2_radix i = do {
     let bit_pos = i * log2_radix;
     let pos = bit_pos div JS_LIMB_BITS;
     let shift = bit_pos mod JS_LIMB_BITS;
     x \<leftarrow> rd r pos;
     let c = (ucast (drop_bit shift x) :: u32);
     c \<leftarrow> (if shift + log2_radix > JS_LIMB_BITS \<and> pos + 1 < length r
          then do { y \<leftarrow> rd r (pos + 1); Some (ucast (ucast c OR push_bit (JS_LIMB_BITS - shift) y :: limb)) }
          else Some c);
     Some (c AND (radix - 1)) }"

fun to_string_bits :: "limb list \<Rightarrow> u32 \<Rightarrow> nat \<Rightarrow> nat \<Rightarrow> nat \<Rightarrow> backbuf \<Rightarrow> backbuf option" where
  "to_string_bits r radix log2_radix i 0 q = Some q"
| "to_string_bits r radix log2_radix i (Suc k) q = do {
     c \<leftarrow> bin_digit r radix log2_radix i;
     ch \<leftarrow> rd digits (unat c);
     q1 \<leftarrow> back_push ch q;
     to_string_bits r radix log2_radix (i + 1) k q1 }"

text \<open>The characters before the terminator, which is the last one of the buffer.\<close>

definition to_string_text :: "limb list \<Rightarrow> u32 \<Rightarrow> bool \<Rightarrow> nat \<Rightarrow> nat \<Rightarrow> string option" where
  "to_string_text r radix is_neg log2_radix n_digits = do {
     q \<leftarrow> back_push (CHR 0x00) (n_digits + of_bool is_neg + 1, []);
     q \<leftarrow> (if radix AND (radix - 1) \<noteq> 0
          then to_string_chunks r (length r) q radix
          else to_string_bits r radix log2_radix 0 n_digits q);
     q \<leftarrow> (if is_neg then back_push (CHR ''-'') q else Some q);
     Some (butlast (snd q)) }"

text \<open>\<open>js_free (ctx, tmp)\<close>, where \<open>tmp\<close> may be \<open>NULL\<close>.\<close>

definition js_free_tmp :: "bool \<Rightarrow> unit js" where
  "js_free_tmp tmp = (if tmp then js_free () else js_return ())"

definition to_string_buf :: "malloc_funcs \<Rightarrow> limb list \<Rightarrow> u32 \<Rightarrow> bool \<Rightarrow> bool \<Rightarrow> string js" where
  "to_string_buf mf r radix is_neg tmp =
     (let log2_radix = 31 - clz32 radix;
          n_bits = length r * JS_LIMB_BITS - js_limb_safe_clz (last r);
          n_digits = (n_bits + log2_radix - 1) div log2_radix
      in js_try (js_malloc mf (n_digits + of_bool is_neg + 1)) (js_free_tmp tmp) (\<lambda>buf.
         js_bind (js_lift (to_string_text r radix is_neg log2_radix n_digits)) (\<lambda>s.
         js_bind (js_free_tmp tmp) (\<lambda>_.
         js_try (js_new_string8_len mf s) (js_free buf) (\<lambda>res.
         js_bind (js_free buf) (\<lambda>_. js_return res))))))"

text \<open>The two representations of a BigInt value: an immediate 64-bit one and a pointer.\<close>

datatype bigint_value = ShortBigInt limb | BigIntPtr bigint

fun js_bigint_to_string1 :: "malloc_funcs \<Rightarrow> bigint_value \<Rightarrow> u32 \<Rightarrow> string js" where
  "js_bigint_to_string1 mf (ShortBigInt v) radix =
     js_bind (js_lift (i64toa_radix v radix)) (js_new_string8_len mf)"
| "js_bigint_to_string1 mf (BigIntPtr r) radix =
     (if length r = 1 \<and> hd r = 0 then js_new_string8_len mf ''0''
      else if js_bigint_sign r \<noteq> 0 then
        js_bind (js_bigint_neg mf r) (\<lambda>tmp. to_string_buf mf tmp radix True True)
      else if radix AND (radix - 1) \<noteq> 0 then
        js_bind (js_bigint_new mf (length r)) (\<lambda>tmp.
        js_bind (js_lift (blit tmp 0 r)) (\<lambda>tmp. to_string_buf mf tmp radix False True))
      else to_string_buf mf r radix False False)"

definition JS_CompactBigInt :: "bigint \<Rightarrow> bigint_value js" where
  "JS_CompactBigInt p =
     (if length p = 1 then js_bind (js_free p) (\<lambda>_. js_return (ShortBigInt (hd p)))
      else js_return (BigIntPtr p))"

end
