(* ===== verification/BigInt_Read.thy ===== *)
theory BigInt_Read
  imports BigInt_String BigInt_Bits
begin

text \<open>
  \<open>js_bigint_from_string\<close> returns the number that the digits denote, and stays inside the
  limbs it allocates from an estimate of their number.
\<close>

section \<open>Decimal digits\<close>

abbreviation dec_digit :: "char \<Rightarrow> bool" where
  "dec_digit c \<equiv> to_digit c < 10"

abbreviation dec_from :: "nat \<Rightarrow> string \<Rightarrow> nat" where
  "dec_from a w \<equiv> foldl (\<lambda>v c. v * 10 + to_digit c) a w"

lemma dec_from_add: "dec_from a w = a * 10 ^ length w + dec_from 0 w"
proof (induction w rule: rev_induct)
  case (snoc c w)
  then show ?case by (simp add: algebra_simps)
qed simp

lemma dec_from_bound: "\<forall>c \<in> set w. dec_digit c \<Longrightarrow> dec_from a w + 1 \<le> (a + 1) * 10 ^ length w"
proof (induction w rule: rev_induct)
  case (snoc c w)
  then have "dec_from a w + 1 \<le> (a + 1) * 10 ^ length w" "dec_digit c" by simp_all
  then show ?case by (simp add: algebra_simps)
qed simp

lemma dec_chunk_spec:
  "(unat v + 1) * 10 ^ k \<le> 10 ^ 19 \<Longrightarrow>
   \<exists>v'. dec_chunk k p v i = (v', i + length (takeWhile dec_digit (take k p)),
                              drop (length (takeWhile dec_digit (take k p))) p) \<and>
        unat v' = dec_from (unat v) (takeWhile dec_digit (take k p))"
proof (induction k p v i rule: dec_chunk.induct)
  case (3 k ch p v i)
  define c where "c = to_digit ch"
  show ?case
  proof (cases "c \<ge> 10")
    case True
    then show ?thesis by (simp add: c_def)
  next
    case False
    have b: "(unat v * 10 + c + 1) * 10 ^ k \<le> 10 ^ 19"
    proof -
      have "(unat v * 10 + c + 1) * 10 ^ k \<le> ((unat v + 1) * 10) * 10 ^ k"
        using False by (intro mult_le_mono1) simp
      also have "\<dots> = (unat v + 1) * 10 ^ Suc k" by (simp only: power_Suc mult.assoc)
      finally show ?thesis using "3.prems" by linarith
    qed
    have "unat v * 10 + c + 1 \<le> 10 ^ 19"
    proof -
      have "(unat v * 10 + c + 1) * 1 \<le> (unat v * 10 + c + 1) * 10 ^ k" by (intro mult_le_mono2) simp
      from order_trans [OF this b] show ?thesis by (simp only: mult_1_right)
    qed
    then have lt: "unat v * 10 + c < 2 ^ 64" by simp
    have "v * 10 + of_nat c = (of_nat (unat v * 10 + c) :: limb)" by simp
    moreover have "unat (of_nat (unat v * 10 + c) :: limb) = unat v * 10 + c"
      unfolding unsigned_of_nat of_nat_id by (rule take_bit_nat_eq_self) (use lt in simp)
    ultimately have u: "unat (v * 10 + of_nat c) = unat v * 10 + c" by (simp only:)
    have "(unat (v * 10 + of_nat c) + 1) * 10 ^ k \<le> 10 ^ 19" unfolding u by (rule b)
    from "3.IH" [OF c_def _ this] False show ?thesis
      by (auto simp: c_def [symmetric] u)
  qed
qed auto

lemma js_pow_dec_nth: "i \<le> 19 \<Longrightarrow> rd js_pow_dec i = Some (10 ^ i) \<and> unat (10 ^ i :: limb) = 10 ^ i"
proof -
  assume "i \<le> 19"
  then have "i \<in> set [0..<20]" by simp
  moreover have "\<forall>i \<in> set [0..<20]. rd js_pow_dec i = Some (10 ^ i) \<and> unat (10 ^ i :: limb) = 10 ^ i"
    by (simp add: upt_rec rd_def js_pow_dec_def)
  ultimately show ?thesis by blast
qed

text \<open>The state of the loop: the limbs in use hold \<open>V\<close>, without a leading zero limb.\<close>

definition dec_state :: "nat \<Rightarrow> nat \<Rightarrow> limb list \<Rightarrow> nat \<Rightarrow> bool" where
  "dec_state N V r len \<longleftrightarrow> length r = N \<and> 1 \<le> len \<and> len \<le> N \<and> limbs_val (take len r) = V \<and>
     (len = 1 \<or> BASE ^ (len - 1) \<le> V)"

lemma dec_step_spec:
  assumes st: "dec_state N V r len" and i: "i \<le> 19" and lt: "V * 10 ^ i + unat v < BASE ^ N"
  shows "\<exists>r1 len1. dec_step r len v i = Some (r1, len1) \<and> dec_state N (V * 10 ^ i + unat v) r1 len1"
proof -
  from st have l: "length r = N" "1 \<le> len" "len \<le> N" and V: "limbs_val (take len r) = V"
    and low: "len = 1 \<or> BASE ^ (len - 1) \<le> V" by (simp_all add: dec_state_def)
  obtain x xs where r: "r = x # xs" using l by (cases r) auto
  have rd0: "rd r 0 = Some x" by (simp add: r rd_def)
  show ?thesis
  proof (cases "len = 1 \<and> x = 0")
    case True
    then have "V = 0" using V by (simp add: r)
    moreover have "dec_step r len v i = Some (v # xs, len)"
      using True by (simp add: dec_step_def wr_def rd_def r)
    ultimately show ?thesis using True l by (simp add: r dec_state_def)
  next
    case False
    obtain w1 h where m: "mp_mul1 (take len r) (10 ^ i) v = (w1, h)"
      by (cases "mp_mul1 (take len r) (10 ^ i) v")
    note pd = js_pow_dec_nth [OF i]
    from mp_mul1_spec [OF m] pd V l have w1: "length w1 = len"
      and val: "limbs_val w1 + BASE ^ len * unat h = V * 10 ^ i + unat v" by simp_all
    let ?r1 = "w1 @ drop len r"
    have g: "grab r 0 len = Some (take len r)" "blit r 0 w1 = Some ?r1"
      using l w1 by (simp_all add: grab_def blit_def)
    have step: "dec_step r len v i =
       (if h \<noteq> 0 then map_option (\<lambda>r2. (r2, len + 1)) (wr ?r1 len h) else Some (?r1, len))"
      using False by (auto simp: dec_step_def rd0 pd g m map_conv_bind_option comp_def)
    have "len = 1 \<or> BASE ^ (len - 1) \<le> V * 10 ^ i + unat v"
    proof (cases "len = 1")
      case F: False
      then have "BASE ^ (len - 1) \<le> V * 1" using low by simp
      also have "\<dots> \<le> V * 10 ^ i" by (intro mult_le_mono2) simp
      finally show ?thesis by simp
    qed simp
    then show ?thesis
    proof (cases "h = 0")
      case True
      then show ?thesis using val w1 l \<open>len = 1 \<or> BASE ^ (len - 1) \<le> V * 10 ^ i + unat v\<close>
        by (simp add: step dec_state_def)
    next
      case h: False
      then have "1 \<le> unat h" using unat_gt_0 [of h] by linarith
      then have "BASE ^ len * 1 \<le> BASE ^ len * unat h" by (rule mult_le_mono2)
      then have ge: "BASE ^ len \<le> V * 10 ^ i + unat v" using val by linarith
      then have "BASE ^ len < BASE ^ N" using lt by linarith
      then have len: "len < N" by (simp only: power_strict_increasing_iff BASE_pos)
      have wr: "wr ?r1 len h = Some (?r1[len := h])" using len l w1 by (simp add: wr_def)
      have "take (len + 1) (?r1[len := h]) = w1 @ [h]"
        using w1 len l by (simp add: take_Suc_conv_app_nth list_update_append take_update_swap)
      then show ?thesis using h val ge len l w1
        by (simp add: step wr dec_state_def limbs_val_append)
    qed
  qed
qed

lemma takeWhile_chunk:
  "takeWhile P p = takeWhile P (take k p) @ takeWhile P (drop (length (takeWhile P (take k p))) p)"
proof (induction k arbitrary: p)
  case (Suc k)
  show ?case using Suc.IH [of "tl p"] by (cases p) simp_all
qed simp

lemma dec_loop_spec:
  "dec_state N V r len \<Longrightarrow> 2 * ((V + 1) * 10 ^ length p) \<le> BASE ^ N \<Longrightarrow>
   \<exists>r1 len1. dec_loop r len p = Some (r1, len1) \<and>
     dec_state N (dec_from V (takeWhile dec_digit p)) r1 len1"
proof (induction "length p" arbitrary: V r len p rule: less_induct)
  case less
  define w where "w = takeWhile dec_digit (take 19 p)"
  define p1 where "p1 = drop (length w) p"
  obtain v where v: "dec_chunk 19 p 0 0 = (v, length w, p1)" "unat v = dec_from 0 w"
    using dec_chunk_spec [of 0 19 p 0] by (auto simp: w_def p1_def)
  have split: "takeWhile dec_digit p = w @ takeWhile dec_digit p1"
    unfolding w_def p1_def by (rule takeWhile_chunk)
  have wd: "\<forall>c \<in> set w. dec_digit c" by (auto simp: w_def dest: set_takeWhileD)
  have "length w \<le> length (take 19 p)" unfolding w_def by (rule length_takeWhile_le)
  then have wl: "length w \<le> 19" and wp: "length w \<le> length p" by simp_all
  show ?case
  proof (cases "length w = 0")
    case True
    then have "w = []" by simp
    then have "takeWhile dec_digit p = []" by (cases p) (auto simp: w_def split: if_splits)
    then show ?thesis using True less.prems v by (subst dec_loop.simps) (simp add: JS_LIMB_DIGITS_def)
  next
    case False
    let ?V = "V * 10 ^ length w + unat v"
    have V: "?V = dec_from V w" unfolding v(2) by (rule dec_from_add [symmetric])
    have b: "2 * ((?V + 1) * 10 ^ length p1) \<le> BASE ^ N"
    proof -
      have "(?V + 1) * 10 ^ length p1 \<le> ((V + 1) * 10 ^ length w) * 10 ^ length p1"
        unfolding V by (intro mult_le_mono1 dec_from_bound wd)
      also have "\<dots> = (V + 1) * 10 ^ length p"
        using wp by (simp only: p1_def power_add [symmetric] mult.assoc length_drop le_add_diff_inverse)
      finally show ?thesis using less.prems(2) by linarith
    qed
    have "(?V + 1) * 1 \<le> (?V + 1) * 10 ^ length p1" by (intro mult_le_mono2) simp
    moreover have "(?V + 1) * 10 ^ length p1 \<le> 2 * ((?V + 1) * 10 ^ length p1)" by simp
    ultimately have "?V + 1 \<le> BASE ^ N" using b by (simp only: mult_1_right order_trans)
    then have "?V < BASE ^ N" by simp
    from dec_step_spec [OF less.prems(1) wl this] obtain r1 len1
      where s: "dec_step r len v (length w) = Some (r1, len1)" "dec_state N ?V r1 len1" by blast
    have "length p1 < length p" using False wp by (simp only: p1_def length_drop)
    from less.hyps [OF this s(2) b] obtain r2 len2
      where "dec_loop r1 len1 p1 = Some (r2, len2)"
        "dec_state N (dec_from ?V (takeWhile dec_digit p1)) r2 len2" by blast
    then show ?thesis using False v(1) s(1)
      by (subst dec_loop.simps) (simp add: JS_LIMB_DIGITS_def split V)
  qed
qed

lemma dec_finish_spec:
  assumes "dec_state N V r len" "2 * (V + 1) \<le> BASE ^ N"
  shows "\<exists>a. dec_finish r len = Some a \<and> a \<noteq> [] \<and> length a \<le> N \<and> sval a = int V"
proof -
  from assms(1) have l: "length r = N" "1 \<le> len" "len \<le> N" and V: "limbs_val (take len r) = V"
    by (simp_all add: dec_state_def)
  define x where "x = r ! (len - 1)"
  have rd: "rd r (len - 1) = Some x" using l by (simp add: rd_def x_def)
  have tk: "take len r = take (len - 1) r @ [x]"
    using l take_Suc_conv_app_nth [of "len - 1" r] by (simp add: x_def)
  then have lst: "last (take len r) = x" "take len r \<noteq> []" by simp_all
  show ?thesis
  proof (cases "neg_limb x")
    case False
    then have "dec_finish r len = Some (take len r)"
      using l by (simp add: dec_finish_def rd JS_LIMB_BITS_def drop_bit_63 grab_def del: One_nat_def)
    then show ?thesis using False V lst l by (simp add: sval_nonneg)
  next
    case True
    then have "BASE \<le> 2 * unat x" by (simp add: neg_limb_def BASE_double)
    then have "BASE ^ (len - 1) * BASE \<le> BASE ^ (len - 1) * (2 * unat x)" by (rule mult_le_mono2)
    moreover have "BASE ^ (len - 1) * BASE = BASE ^ len" using l by (simp add: power_eq_if)
    moreover have "V = limbs_val (take (len - 1) r) + BASE ^ (len - 1) * unat x"
      using V l unfolding tk by (simp add: limbs_val_append)
    ultimately have "BASE ^ len \<le> 2 * V" by (simp only: distrib_left mult.left_commute [of 2])
    moreover have "2 * (V + 1) = 2 * V + 2" by simp
    ultimately have "BASE ^ len < BASE ^ N" using assms(2) by linarith
    then have len: "len < N" by (simp only: power_strict_increasing_iff BASE_pos)
    have "take (len + 1) (r[len := 0]) = take len r @ [0]"
      using len l by (simp add: take_Suc_conv_app_nth)
    then have "dec_finish r len = Some (take len r @ [0])"
      using True len l
      by (simp add: dec_finish_def rd JS_LIMB_BITS_def drop_bit_63 grab_def wr_def del: One_nat_def)
    then show ?thesis using V len l by (simp add: sval_snoc)
  qed
qed

text \<open>The estimate of the number of bits: \<open>10\<^sup>8 \<le> 2\<^sup>2\<^sup>7\<close>.\<close>

lemma dec_bits: "(10 :: nat) ^ n \<le> 2 ^ ((n * 27 + 7) div 8)"
proof -
  define m where "m = (n * 27 + 7) div 8"
  have m: "n * 27 \<le> m * 8" unfolding m_def by simp
  have "((10 :: nat) ^ n) ^ 8 = (10 ^ 8) ^ n" by (simp only: power_mult [symmetric] mult.commute)
  also have "\<dots> \<le> (2 ^ 27) ^ n" by (rule power_mono) simp_all
  also have "\<dots> = 2 ^ (n * 27)" by (simp only: power_mult [symmetric] mult.commute)
  also have "\<dots> \<le> 2 ^ (m * 8)" using m by (intro power_increasing) simp_all
  also have "\<dots> = (2 ^ m) ^ 8" by (simp only: power_mult)
  finally have "(10 :: nat) ^ n \<le> 2 ^ m" by (simp only: power_mono_iff zero_le zero_less_numeral)
  then show ?thesis by (simp only: m_def)
qed

lemma BASE_power: "BASE ^ n = 2 ^ (64 * n)"
  by (simp add: BASE_def power_mult)

lemma dec_parse:
  assumes "r \<noteq> []" "length r = max 1 ((length p * 27 + 7) div 8 div JS_LIMB_BITS + 1)"
  shows "\<exists>a. do { r1 \<leftarrow> wr r 0 0; (r2, len) \<leftarrow> dec_loop r1 1 p; dec_finish r2 len } = Some a \<and>
    a \<noteq> [] \<and> length a \<le> length r \<and> sval a = int (digits_val 10 (takeWhile dec_digit p))"
proof -
  let ?N = "length r" and ?w = "takeWhile dec_digit p"
  have N: "?N = (length p * 27 + 7) div 8 div 64 + 1" using assms(2) by (simp add: JS_LIMB_BITS_def)
  obtain x xs where r: "r = x # xs" using assms(1) by (cases r) auto
  have w0: "wr r 0 0 = Some (0 # xs)" by (simp add: r wr_def)
  have st: "dec_state ?N 0 (0 # xs) 1" by (simp add: dec_state_def r)
  have b: "2 * ((0 + 1) * 10 ^ length p) \<le> BASE ^ ?N"
  proof -
    have "(length p * 27 + 7) div 8 + 1 \<le> 64 * ?N" unfolding N by simp
    then have "(2 :: nat) ^ ((length p * 27 + 7) div 8 + 1) \<le> BASE ^ ?N"
      unfolding BASE_power by (intro power_increasing) simp_all
    then show ?thesis using dec_bits [of "length p"] by simp
  qed
  from dec_loop_spec [OF st b] obtain r1 len1 where l: "dec_loop (0 # xs) 1 p = Some (r1, len1)"
    "dec_state ?N (dec_from 0 ?w) r1 len1" by blast
  have "\<forall>c \<in> set ?w. dec_digit c" by (auto dest: set_takeWhileD)
  from dec_from_bound [OF this, of 0]
  have "dec_from 0 ?w + 1 \<le> 10 ^ length ?w" by simp
  also have "(10 :: nat) ^ length ?w \<le> 10 ^ length p"
    by (intro power_increasing length_takeWhile_le) simp
  finally have "2 * (dec_from 0 ?w + 1) \<le> BASE ^ ?N" using b by simp
  from dec_finish_spec [OF l(2) this] show ?thesis by (simp add: w0 l(1) digits_val_def del: One_nat_def)
qed

section \<open>The bits of a limb list\<close>

lemma bit_limbs_val:
  "bit (limbs_val a) k \<longleftrightarrow> k div 64 < length a \<and> bit (a ! (k div 64)) (k mod 64)"
proof (induction a arbitrary: k)
  case (Cons x a)
  have "bit (limbs_val (x # a)) k \<longleftrightarrow> bit (int (limbs_val (x # a))) k"
    by (simp only: bit_of_nat_iff_bit)
  also have "int (limbs_val (x # a)) = uint x + 2 ^ 64 * int (limbs_val a)" by (simp add: BASE_def)
  also have "bit (uint x + 2 ^ 64 * int (limbs_val a)) k \<longleftrightarrow>
      (if k < 64 then bit x k else bit (limbs_val a) (k - 64))"
    by (simp only: bit_concat_limb bit_of_nat_iff_bit)
  also have "\<dots> \<longleftrightarrow> k div 64 < length (x # a) \<and> bit ((x # a) ! (k div 64)) (k mod 64)"
  proof (cases "k < 64")
    case False
    then have "k div 64 = Suc ((k - 64) div 64)" "(k - 64) mod 64 = k mod 64"
      by (simp_all add: le_div_geq le_mod_geq)
    then show ?thesis using False Cons.IH [of "k - 64"] by simp
  qed simp
  finally show ?case .
qed simp

lemma bit_less: "x < 2 ^ b \<Longrightarrow> bit (x :: nat) k \<Longrightarrow> k < b"
proof -
  assume "x < 2 ^ b" "bit x k"
  then have "bit (take_bit b x) k" by (simp only: take_bit_nat_eq_self)
  then show "k < b" by (simp add: bit_take_bit_iff)
qed

lemma or_push_add: "x < 2 ^ b \<Longrightarrow> x OR push_bit b c = x + 2 ^ b * (c :: nat)"
proof -
  assume x: "x < 2 ^ b"
  have "x AND push_bit b c = 0"
    by (intro bit_eqI) (auto simp: bit_simps dest: bit_less [OF x])
  then have "x + push_bit b c = x OR push_bit b c" by (rule disjunctive_add_eq_or)
  then show ?thesis by (simp add: push_bit_nat_def mult.commute)
qed

lemma bin_write:
  assumes c: "c < 2 ^ l" "l < 64" and room: "b + l < 64 * length r" and s: "s = b mod 64"
    and p: "p = b div 64"
  shows "\<exists>r2. do { x \<leftarrow> rd r p;
             r1 \<leftarrow> wr r p (x OR push_bit s (of_nat c));
             if s + l > 64
             then do { y \<leftarrow> rd r1 (p + 1); wr r1 (p + 1) (y OR drop_bit (64 - s) (of_nat c)) }
             else Some r1 } = Some r2 \<and> length r2 = length r \<and>
           limbs_val r2 = limbs_val r OR push_bit b c"
proof -
  have b: "b = 64 * p + s" "s < 64" by (simp_all add: s p)
  have pl: "p < length r" using room b by linarith
  have p2: "p + 1 < length r" if "s + l > 64" using room b that by linarith
  define x where "x = r ! p"
  define r1 where "r1 = r[p := x OR push_bit s (of_nat c)]"
  define r2 where "r2 = (if s + l > 64 then r1[p + 1 := r1 ! (p + 1) OR drop_bit (64 - s) (of_nat c)] else r1)"
  have cb: "k < l" if "bit c k" for k using bit_less [OF c(1) that] .
  have "bit (limbs_val r2) k \<longleftrightarrow> bit (limbs_val r OR push_bit b c) k" for k
  proof -
    define q t where "q = k div 64" and "t = k mod 64"
    have k: "k = 64 * q + t" "t < 64" by (simp_all add: q_def t_def)
    have tgt: "bit (limbs_val r OR push_bit b c) k \<longleftrightarrow>
        q < length r \<and> bit (r ! q) t \<or> b \<le> k \<and> bit c (k - b)"
      by (simp add: bit_simps bit_limbs_val q_def t_def)
    have src: "bit (limbs_val r2) k \<longleftrightarrow> q < length r \<and> bit (r2 ! q) t"
      by (simp add: bit_limbs_val q_def t_def r2_def r1_def)
    consider (eq) "q = p" | (next1) "q = p + 1" | (low) "q < p" | (high) "p + 1 < q" by linarith
    then show ?thesis
    proof cases
      case eq
      have "r2 ! q = x OR push_bit s (of_nat c)" using eq pl by (simp add: r2_def r1_def)
      moreover have "b \<le> k \<longleftrightarrow> s \<le> t" "k - b = t - s" using eq b k by auto
      ultimately show ?thesis using eq pl k unfolding src tgt
        by (auto simp: bit_simps x_def)
    next
      case next1
      have kb: "b \<le> k" "k - b = 64 - s + t" using next1 b k by auto
      show ?thesis
      proof (cases "s + l > 64")
        case True
        then have "r2 ! q = r ! q OR drop_bit (64 - s) (of_nat c)"
          using next1 p2 by (simp add: r2_def r1_def)
        then show ?thesis using p2 [OF True] next1 kb cb [of "64 - s + t"] c(2) unfolding src tgt
          by (auto simp: bit_simps)
      next
        case False
        then have "r2 ! q = r ! q" using next1 by (simp add: r2_def r1_def)
        moreover have "\<not> bit c (k - b)" using cb [of "k - b"] kb False by auto
        ultimately show ?thesis unfolding src tgt by auto
      qed
    next
      case low
      then have "r2 ! q = r ! q" "\<not> b \<le> k" using b k by (auto simp: r2_def r1_def)
      then show ?thesis unfolding src tgt by auto
    next
      case high
      then have "r2 ! q = r ! q" by (auto simp: r2_def r1_def)
      moreover have "\<not> bit c (k - b)" using cb [of "k - b"] high b k c(2) by auto
      ultimately show ?thesis unfolding src tgt by auto
    qed
  qed
  then have "limbs_val r2 = limbs_val r OR push_bit b c" by (rule bit_eqI)
  then show ?thesis using pl p2
    by (auto simp: rd_def wr_def r2_def r1_def x_def)
qed

lemma bin_loop_spec:
  assumes l: "1 \<le> l" "l < 64"
  shows "\<forall>c \<in> set cs. to_digit c < 2 ^ l \<Longrightarrow> (i + length cs) * l < 64 * length r \<Longrightarrow>
    limbs_val r < 2 ^ (i * l) \<Longrightarrow>
    \<exists>r1. bin_loop l (2 ^ l) cs i r = Some r1 \<and> length r1 = length r \<and>
      limbs_val r1 = limbs_val r + 2 ^ (i * l) * digits_val (2 ^ l) (rev cs) \<and>
      limbs_val r1 < 2 ^ ((i + length cs) * l)"
proof (induction cs arbitrary: i r)
  case (Cons ch cs)
  define c where "c = to_digit ch"
  have c: "c < 2 ^ l" using Cons.prems(1) by (simp add: c_def)
  have room: "i * l + l < 64 * length r"
  proof -
    have "i * l + l \<le> (i + length (ch # cs)) * l" by (simp add: algebra_simps)
    then show ?thesis using Cons.prems(2) by linarith
  qed
  from bin_write [OF c l(2) room refl refl] obtain r2 where
    w: "do { x \<leftarrow> rd r (i * l div 64);
             r1 \<leftarrow> wr r (i * l div 64) (x OR push_bit (i * l mod 64) (of_nat c));
             if i * l mod 64 + l > 64
             then do { y \<leftarrow> rd r1 (i * l div 64 + 1);
                       wr r1 (i * l div 64 + 1) (y OR drop_bit (64 - i * l mod 64) (of_nat c)) }
             else Some r1 } = Some r2" and r2: "length r2 = length r"
      "limbs_val r2 = limbs_val r OR push_bit (i * l) c" by blast
  have val: "limbs_val r2 = limbs_val r + 2 ^ (i * l) * c"
    using or_push_add [OF Cons.prems(3)] r2(2) by simp
  have lt: "limbs_val r2 < 2 ^ ((i + 1) * l)"
  proof -
    have "limbs_val r2 < 2 ^ (i * l) * (c + 1)" using Cons.prems(3) unfolding val by simp
    also have "\<dots> \<le> 2 ^ (i * l) * 2 ^ l" using c by (intro mult_le_mono2) simp
    also have "\<dots> = 2 ^ ((i + 1) * l)" by (simp only: power_add [symmetric] distrib_right mult_1)
    finally show ?thesis .
  qed
  have step: "bin_loop l (2 ^ l) (ch # cs) i r = bin_loop l (2 ^ l) cs (i + 1) r2"
  proof -
    have "bin_loop l (2 ^ l) (ch # cs) i r =
      Option.bind (do { x \<leftarrow> rd r (i * l div 64);
             r1 \<leftarrow> wr r (i * l div 64) (x OR push_bit (i * l mod 64) (of_nat c));
             if i * l mod 64 + l > 64
             then do { y \<leftarrow> rd r1 (i * l div 64 + 1);
                       wr r1 (i * l div 64 + 1) (y OR drop_bit (64 - i * l mod 64) (of_nat c)) }
             else Some r1 }) (bin_loop l (2 ^ l) cs (i + 1))"
      unfolding bin_loop.simps Let_def JS_LIMB_BITS_def c_def [symmetric] using c by simp
    then show ?thesis unfolding w by simp
  qed
  have "(i + 1 + length cs) * l < 64 * length r2" using Cons.prems(2) r2(1) by simp
  from Cons.IH [OF _ this lt] Cons.prems(1) obtain r3 where
    r3: "bin_loop l (2 ^ l) cs (i + 1) r2 = Some r3" "length r3 = length r2"
    "limbs_val r3 = limbs_val r2 + 2 ^ ((i + 1) * l) * digits_val (2 ^ l) (rev cs)"
    "limbs_val r3 < 2 ^ ((i + 1 + length cs) * l)" by auto
  have "2 ^ (i * l) * c + 2 ^ ((i + 1) * l) * digits_val (2 ^ l) (rev cs) =
      2 ^ (i * l) * digits_val (2 ^ l) (rev (ch # cs))"
    by (simp add: digits_val_snoc c_def power_add algebra_simps)
  then show ?case using r3 r2(1) val step by simp
qed (use assms in simp)

section \<open>The whole string\<close>

text \<open>Radix 2, 8, 10 and 16, for which the callers use the function.\<close>

definition radix_bits :: "nat \<Rightarrow> nat" where
  "radix_bits radix = 32 - clz32 (of_nat (radix - 1))"

lemma bit_length_small:
  "bit_length 1 = 1" "bit_length 7 = 3" "bit_length 9 = 4" "bit_length 15 = 4"
  by (simp_all add: bit_length.simps)

lemma radix_bits_simps: "radix_bits 2 = 1" "radix_bits 8 = 3" "radix_bits 10 = 4" "radix_bits 16 = 4"
  using bit_length_small by (simp_all add: radix_bits_def clz32_def)

text \<open>What the text denotes: an optional sign, then the leading digits.\<close>

definition bigint_of_text :: "nat \<Rightarrow> string \<Rightarrow> int" where
  "bigint_of_text radix str =
     (let is_neg = (str \<noteq> [] \<and> hd str = CHR ''-''); p = (if is_neg then tl str else str);
          v = int (digits_val radix (takeWhile (\<lambda>c. to_digit c < radix) p))
      in if is_neg then - v else v)"

lemma digits_val_zeros:
  assumes "0 < radix"
  shows "digits_val radix (takeWhile (\<lambda>c. to_digit c < radix) (dropWhile (\<lambda>c. c = CHR ''0'') p)) =
    digits_val radix (takeWhile (\<lambda>c. to_digit c < radix) p)"
proof (induction p)
  case (Cons c p)
  have "to_digit (CHR ''0'') = 0" by (simp add: to_digit_def)
  then show ?case using Cons assms by (auto simp: digits_val_def)
qed simp

text \<open>Only digits, for a power of two radix: the code asserts this.\<close>

definition digits_only :: "nat \<Rightarrow> string \<Rightarrow> bool" where
  "digits_only radix str \<longleftrightarrow>
     (let p = (if str \<noteq> [] \<and> hd str = CHR ''-'' then tl str else str)
      in \<forall>c \<in> set p. to_digit c < radix)"

lemma bin_parse:
  assumes l: "1 \<le> l" "l < 64" and d: "\<forall>c \<in> set p. to_digit c < 2 ^ l"
    and N: "N = max 1 (length p * l div JS_LIMB_BITS + 1)"
  shows "\<exists>a. bin_loop l (2 ^ l) (rev p) 0 (replicate N 0) = Some a \<and> a \<noteq> [] \<and>
    length a \<le> N \<and> sval a = int (digits_val (2 ^ l) p)"
proof -
  have N1: "N = length p * l div 64 + 1" by (simp add: N JS_LIMB_BITS_def)
  have room: "(0 + length (rev p)) * l < 64 * length (replicate N (0 :: limb))" unfolding N1 by simp
  from bin_loop_spec [OF l _ room] d obtain a where
    a: "bin_loop l (2 ^ l) (rev p) 0 (replicate N 0) = Some a" "length a = N"
       "limbs_val a = digits_val (2 ^ l) p" "limbs_val a < 2 ^ (length p * l)" by auto
  have "length p * l + 1 \<le> 64 * N" using room by simp
  then have "(2 :: nat) ^ (length p * l + 1) \<le> BASE ^ N"
    unfolding BASE_power by (intro power_increasing) simp_all
  then have lt: "2 * limbs_val a < BASE ^ length a" using a(2,4) by simp
  have ne: "a \<noteq> []" using a(2) N1 by auto
  have "sval a = int (limbs_val a)"
  proof (rule sval_eqI [OF ne, where k = 0])
    show "2 * int (limbs_val a) < int (BASE ^ length a)" using lt by linarith
    have "0 \<le> int (limbs_val a)" by simp
    then show "- int (BASE ^ length a) \<le> 2 * int (limbs_val a)" by linarith
  qed simp
  then show ?thesis using a ne by simp
qed

definition string_error :: "string \<Rightarrow> js_error \<Rightarrow> bool" where
  "string_error str e \<longleftrightarrow> e = RangeError ''BigInt is too large to allocate'' \<and> 262144 \<le> length str"

lemma js_bigint_from_string_sat:
  assumes r: "radix \<in> {2, 8, 10, 16}" and d: "radix = 10 \<or> digits_only radix str"
  shows "js_sat mf (string_error str) 0 1 (\<lambda>x. normal x \<and> sval x = bigint_of_text radix str)
    (js_bigint_from_string mf str radix)"
proof -
  define is_neg where "is_neg = (str \<noteq> [] \<and> hd str = CHR ''-'')"
  define p0 where "p0 = (if is_neg then tl str else str)"
  define p where "p = dropWhile (\<lambda>c. c = CHR ''0'') p0"
  define n_bits where "n_bits = (if radix = 10 then (length p * 27 + 7) div 8 else length p * radix_bits radix)"
  define N where "N = max 1 (n_bits div JS_LIMB_BITS + 1)"
  define v where "v = int (digits_val radix (takeWhile (\<lambda>c. to_digit c < radix) p))"
  have v: "bigint_of_text radix str = (if is_neg then - v else v)"
    using digits_val_zeros [of radix p0] r
    by (auto simp: bigint_of_text_def is_neg_def p0_def p_def v_def Let_def)
  have len: "length p \<le> length str"
    using length_dropWhile_le [of "\<lambda>c. c = CHR ''0''" p0] by (auto simp: p_def p0_def split: if_splits)
  have bits: "n_bits \<le> length p * 4"
    using r by (auto simp: n_bits_def radix_bits_simps)
  have err: "string_error str (RangeError ''BigInt is too large to allocate'')"
    if "JS_BIGINT_MAX_SIZE < n \<and> n \<le> N \<or> JS_BIGINT_MAX_SIZE * JS_LIMB_BITS < length p" for n
    using that bits len by (auto simp: string_error_def JS_BIGINT_MAX_SIZE_def JS_LIMB_BITS_def N_def)
  have parse: "\<exists>a. (if radix = 10 then do { r1 \<leftarrow> wr r0 0 0; (r2, len) \<leftarrow> dec_loop r1 1 p; dec_finish r2 len }
        else bin_loop (radix_bits radix) radix (rev p) 0 (replicate N 0)) = Some a \<and>
      a \<noteq> [] \<and> length a \<le> N \<and> sval a = v" if r0: "length r0 = N" for r0
  proof (cases "radix = 10")
    case True
    have "r0 \<noteq> []" using r0 by (auto simp: N_def)
    from dec_parse [OF this, of p] r0 True show ?thesis by (simp add: N_def n_bits_def v_def)
  next
    case False
    have pw: "radix = 2 ^ radix_bits radix" "1 \<le> radix_bits radix" "radix_bits radix < 64"
      using r False by (auto simp: radix_bits_simps)
    have ds: "\<forall>c \<in> set p. to_digit c < radix"
      using d False set_dropWhileD [of _ "\<lambda>c. c = CHR ''0''" p0]
      by (auto simp: digits_only_def Let_def is_neg_def p0_def p_def)
    then have tw: "takeWhile (\<lambda>c. to_digit c < radix) p = p" by (simp add: takeWhile_eq_all_conv)
    have "\<forall>c \<in> set p. to_digit c < 2 ^ radix_bits radix" using ds pw(1) by simp
    from bin_parse [OF pw(2,3) this, of N] False show ?thesis
      by (simp add: N_def n_bits_def v_def tw pw(1) [symmetric])
  qed
  have neg: "js_sat mf (string_error str) (- 1) 0 (\<lambda>x. normal x \<and> sval x = (if is_neg then - v else v))
      (from_string_neg mf is_neg a)" if a: "normal a" "sval a = v" "length a \<le> N" for a
  proof (cases is_neg)
    case True
    have "js_sat mf (string_error str) 0 1 (\<lambda>x. normal x \<and> sval x = - v) (js_bigint_neg mf a)"
    proof (rule js_sat_mono [OF js_bigint_neg_sat])
      show "a \<noteq> []" using a by auto
      show "string_error str e" if "size_error (length a) e" for e
        using that a(3) err [of "length a"] by auto
    qed (use a in auto)
    then have "js_sat mf (string_error str) (- 1) 0 (\<lambda>x. normal x \<and> sval x = - v)
        (js_try (js_bigint_neg mf a) (js_free a) (\<lambda>r1. js_bind (js_free a) (\<lambda>_. js_return r1)))"
      by (intro js_sat_try_free [where Q = "\<lambda>x. normal x \<and> sval x = - v" and ?d1.0 = 1])
        (auto intro!: js_sat_bind [OF js_sat_free] js_sat_return)
    then show ?thesis using True by (simp add: from_string_neg_def)
  next
    case False
    then show ?thesis using a by (auto simp: from_string_neg_def intro!: js_sat_return)
  qed
  have body: "js_sat mf (string_error str) (- 1) 0 (\<lambda>x. normal x \<and> sval x = (if is_neg then - v else v))
      (js_bind (js_lift (if radix = 10
          then do { r1 \<leftarrow> wr r0 0 0; (r2, len) \<leftarrow> dec_loop r1 1 p; dec_finish r2 len }
          else bin_loop (radix_bits radix) radix (rev p) 0 (replicate N 0)))
        (\<lambda>r. js_bind (js_bigint_normalize mf r) (from_string_neg mf is_neg)))"
    if r0: "length r0 = N" for r0
  proof -
    from parse [OF r0] obtain a where a: "(if radix = 10
          then do { r1 \<leftarrow> wr r0 0 0; (r2, len) \<leftarrow> dec_loop r1 1 p; dec_finish r2 len }
          else bin_loop (radix_bits radix) radix (rev p) 0 (replicate N 0)) = Some a"
        "a \<noteq> []" "length a \<le> N" "sval a = v" by blast
    have "js_sat mf (string_error str) (- 1) 0 (\<lambda>x. normal x \<and> sval x = (if is_neg then - v else v))
        (js_bind (js_bigint_normalize mf a) (from_string_neg mf is_neg))"
    proof (rule js_sat_bind [OF js_bigint_normalize_sat [OF a(2)]])
      fix x assume x: "normal x \<and> sval x = sval a"
      then have "length x \<le> length a"
        using sval_range [OF a(2)] by (intro normal_length_le [OF _ a(2)]) simp_all
      with neg [of x] x a show "js_sat mf (string_error str) (- 1 - 0) (0 - 0)
          (\<lambda>x. normal x \<and> sval x = (if is_neg then - v else v)) (from_string_neg mf is_neg x)" by simp
    qed
    then show ?thesis by (rule js_sat_bind_lift [OF a(1)])
  qed
  show ?thesis
  proof (cases "length p > JS_BIGINT_MAX_SIZE * JS_LIMB_BITS")
    case True
    then have "js_bigint_from_string mf str radix =
        js_throw (RangeError ''BigInt is too large to allocate'')"
      by (simp add: js_bigint_from_string_def Let_def is_neg_def p0_def p_def)
    then show ?thesis using err True by (auto intro!: js_sat_throw)
  next
    case False
    have "js_bigint_from_string mf str radix = js_bind (js_bigint_new mf N) (\<lambda>r0.
        js_bind (js_lift (if radix = 10
          then do { r1 \<leftarrow> wr r0 0 0; (r2, len) \<leftarrow> dec_loop r1 1 p; dec_finish r2 len }
          else bin_loop (radix_bits radix) radix (rev p) 0 (replicate N 0)))
        (\<lambda>r. js_bind (js_bigint_normalize mf r) (from_string_neg mf is_neg)))"
      unfolding js_bigint_from_string_def Let_def is_neg_def [symmetric] p0_def [symmetric]
        p_def [symmetric] radix_bits_def [symmetric] n_bits_def [symmetric] N_def [symmetric]
        if_not_P [OF False] ..
    moreover have "js_sat mf (string_error str) 0 1
        (\<lambda>x. normal x \<and> sval x = (if is_neg then - v else v)) \<dots>"
    proof (rule js_sat_bind [OF js_bigint_new_sat])
      show "string_error str (RangeError ''BigInt is too large to allocate'')"
        if "JS_BIGINT_MAX_SIZE < N" using err [of N] that by simp
    qed (use body in simp)
    ultimately show ?thesis unfolding v by simp
  qed
qed

end
