(* ===== verification/BigInt_Print.thy ===== *)
theory BigInt_Print
  imports BigInt_Read
begin

text \<open>
  \<open>js_bigint_to_string1\<close> prints the numeral of the value in every radix from 2 to 36: the
  digit buffer, sized from an estimate, is never overrun, and no leading zero is written.
\<close>

section \<open>Digits and tables\<close>

lemma rd_digits: "d < 36 \<Longrightarrow> rd digits d = Some (digit_char d)"
proof -
  assume "d < 36"
  then have "d \<in> set [0..<36]" by simp
  moreover have "\<forall>d \<in> set [0..<36]. rd digits d = Some (digit_char d)"
    by (simp add: upt_rec digits_def rd_def digit_char_def char_of_def bit_0)
  ultimately show ?thesis by blast
qed

lemma js_u64toa_eq:
  assumes r: "2 \<le> unat radix" "unat radix \<le> 36"
  shows "js_u64toa q n radix = u64toa_radix_loop q n radix"
proof (induction "unat n" arbitrary: n q rule: less_induct)
  case less
  have rl: "unat (ucast radix :: u64) = unat radix" by (rule unat_ucast_up) simp
  have d: "unat (n mod ucast radix) < unat radix"
    using r mod_less_divisor [of "unat radix" "unat n"] by (simp add: unat_mod rl)
  have rc: "rd digits (unat (n mod ucast radix)) = Some (digit_char (unat (n mod ucast radix)))"
    using d r by (intro rd_digits) simp
  have next1: "js_u64toa q1 (n div ucast radix) radix = u64toa_radix_loop q1 (n div ucast radix) radix"
    if "n div ucast radix \<noteq> 0" for q1
  proof (rule less)
    have "n \<noteq> 0" using that by auto
    then have "0 < unat n" by (simp add: unat_gt_0)
    then show "unat (n div ucast radix) < unat n"
      using r by (simp add: unat_div rl)
  qed
  let ?c = "digit_char (unat (n mod ucast radix))"
  have left: "js_u64toa q n radix = do {
      q1 \<leftarrow> back_push ?c q;
      if n div ucast radix \<noteq> 0 then js_u64toa q1 (n div ucast radix) radix else Some q1 }"
  proof (cases "radix = 10")
    case True
    have "unat (n mod 10) < 10" using d True by simp
    then have "char_of (48 + unat (n mod 10)) = digit_char (unat (n mod 10))"
      by (simp add: digit_char_def)
    moreover have u10: "(ucast (10 :: u32) :: u64) = 10" by simp
    ultimately show ?thesis unfolding True u10 by (subst js_u64toa.simps) simp
  next
    case False
    then show ?thesis
      by (subst js_u64toa.simps) (simp only: if_False simp_thms rc Option.bind.simps)
  qed
  have right: "u64toa_radix_loop q n radix = do {
      q1 \<leftarrow> back_push ?c q;
      if n div ucast radix \<noteq> 0 then u64toa_radix_loop q1 (n div ucast radix) radix else Some q1 }"
    by (subst u64toa_radix_loop.simps) (simp only: Let_def digit_char_code)
  show ?case unfolding left right using next1 by (cases "back_push ?c q") simp_all
qed

lemma js_u64toa_spec:
  assumes r: "2 \<le> unat radix" "unat radix \<le> 36"
    and "length (nat_digits (unat radix) (unat n)) \<le> room"
  shows "js_u64toa (room, s) n radix =
    Some (room - length (nat_digits (unat radix) (unat n)), nat_digits (unat radix) (unat n) @ s)"
  unfolding js_u64toa_eq [OF r] by (rule u64toa_radix_loop_spec [OF r(1) assms(3)])

lemma limb_to_a_spec:
  assumes r: "2 \<le> unat radix" "unat radix \<le> 36"
  shows "k \<le> room \<Longrightarrow>
    limb_to_a (room, s) n radix k = Some (room - k, fixed_digits (unat radix) k (unat n) @ s)"
proof (induction k arbitrary: room s n)
  case (Suc k)
  have rl: "unat (ucast radix :: u64) = unat radix" by (rule unat_ucast_up) simp
  let ?d = "unat n mod unat radix"
  have u: "unat (n mod ucast radix) = ?d" "unat (n div ucast radix) = unat n div unat radix"
    by (simp_all add: unat_mod unat_div rl)
  have d: "?d < 36" using r mod_less_divisor [of "unat radix" "unat n"] by linarith
  obtain room' where room: "room = Suc room'" "k \<le> room'" using Suc.prems by (cases room) auto
  have step: "limb_to_a (room, s) n radix (Suc k) =
      limb_to_a (room', digit_char ?d # s) (n div ucast radix) radix k"
  proof (cases "radix = 10")
    case True
    then have "?d < 10" using mod_less_divisor [of 10 "unat n"] by simp
    then have "char_of (unat (n mod 10) + 48) = digit_char ?d"
      using u(1) True by (simp add: digit_char_dec)
    then show ?thesis using True by (simp add: room)
  next
    case False
    then show ?thesis
      by (simp only: limb_to_a.simps if_False u rd_digits [OF d] Option.bind.simps room back_push.simps)
  qed
  show ?case unfolding step using Suc.IH [OF room(2)] by (simp add: room u)
qed simp

lemma radix_tables:
  assumes "2 \<le> unat radix" "unat radix \<le> 36" "(radix :: u32) AND (radix - 1) \<noteq> 0"
  shows "\<exists>k b. rd digits_per_limb_table (unat radix - 2) = Some k \<and>
    rd radix_base_table (unat radix - 2) = Some b \<and> unat b = unat radix ^ k"
proof -
  have all: "\<forall>n \<in> set [2..<37]. of_nat n AND (of_nat n - 1 :: u32) \<noteq> 0 \<longrightarrow>
    (\<exists>k b. rd digits_per_limb_table (n - 2) = Some k \<and> rd radix_base_table (n - 2) = Some b \<and>
       unat b = n ^ k)"
    by (simp add: upt_rec rd_def digits_per_limb_table_def radix_base_table_def)
  have "unat radix \<in> set [2..<37]" using assms(1,2) unfolding set_upt atLeastLessThan_iff by simp
  from bspec [OF all this] show ?thesis using assms(3) by simp
qed

section \<open>Repeated division\<close>

lemma to_string_chunks_spec:
  assumes r: "2 \<le> unat radix" "unat radix \<le> 36" "radix AND (radix - 1) \<noteq> 0"
  shows "1 \<le> len0 \<Longrightarrow> len0 \<le> length t \<Longrightarrow> V = limbs_val (take len0 t) \<Longrightarrow> 0 < V \<Longrightarrow>
    length (nat_digits (unat radix) V) \<le> room \<Longrightarrow>
    to_string_chunks t len0 (room, s) radix =
      Some (room - length (nat_digits (unat radix) V), nat_digits (unat radix) V @ s)"
proof (induction V arbitrary: len0 t room s rule: less_induct)
  case (less V)
  let ?r = "unat radix"
  from radix_tables [OF r] obtain k b where
    k: "rd digits_per_limb_table (?r - 2) = Some k" and b: "rd radix_base_table (?r - 2) = Some b"
    and bk: "unat b = ?r ^ k" by blast
  define len where "len = strip_zeros t len0"
  note st = strip_zeros_spec [OF less.prems(1,2), folded len_def]
  have V: "limbs_val (take len t) = V" using st less.prems(3) by simp
  have len: "1 \<le> len" "len \<le> length t" using st less.prems(2) by auto
  define x where "x = t ! 0"
  obtain ts where t: "t = x # ts" using len by (cases t) (auto simp: x_def)
  have rx: "rd t 0 = Some x" by (simp add: t rd_def)
  have unf: "to_string_chunks t len0 (room, s) radix =
     (if len = 1 \<and> x < b then (if x \<noteq> 0 then js_u64toa (room, s) x radix else Some (room, s))
     else do {
       w \<leftarrow> grab t 0 len;
       let (w1, v) = mp_div1 w b 0;
       r1 \<leftarrow> blit t 0 w1;
       q1 \<leftarrow> limb_to_a (room, s) v radix k;
       to_string_chunks r1 len q1 radix })"
    by (subst to_string_chunks.simps) (simp only: k b rx len_def [symmetric] Let_def Option.bind.simps)
  show ?case
  proof (cases "len = 1 \<and> x < b")
    case True
    then have xv: "unat x = V" using V by (simp add: t)
    then have "x \<noteq> 0" using less.prems(4) by auto
    then show ?thesis using True less.prems(5) js_u64toa_spec [OF r(1,2), of x room s]
      unfolding unf by (simp add: xv)
  next
    case False
    have b0: "0 < unat b" unfolding bk using r(1) by simp
    have ge: "unat b \<le> V"
    proof (cases "len = 1")
      case True
      then show ?thesis using False V by (simp add: t word_less_nat_alt not_less)
    next
      case l1: False
      then have "t ! (len - 1) \<noteq> 0" using st by blast
      then have "1 \<le> unat (t ! (len - 1))" using unat_gt_0 [of "t ! (len - 1)"] by linarith
      then have "BASE ^ (len - 1) * 1 \<le> BASE ^ (len - 1) * unat (t ! (len - 1))" by (rule mult_le_mono2)
      moreover have "take len t = take (len - 1) t @ [t ! (len - 1)]"
        using len take_Suc_conv_app_nth [of "len - 1" t] by simp
      then have "V = limbs_val (take (len - 1) t) + BASE ^ (len - 1) * unat (t ! (len - 1))"
        using V len by (simp add: limbs_val_append)
      moreover have "BASE ^ 1 \<le> BASE ^ (len - 1)"
        using l1 len by (intro power_increasing) (simp_all add: Suc_le_eq)
      ultimately have "BASE \<le> V" by (simp only: power_one_right mult_1_right)
      then show ?thesis using unat_limb [of b] by linarith
    qed
    obtain w1 v where m: "mp_div1 (take len t) b 0 = (w1, v)" by (cases "mp_div1 (take len t) b 0")
    have "(0 :: limb) < b" using b0 by (simp add: word_less_nat_alt)
    from mp_div1_spec [OF m this] have w1: "length w1 = len" and vb: "unat v < unat b"
      and dm: "limbs_val w1 * unat b + unat v = V"
      using V len by (simp_all add: word_less_nat_alt)
    have q: "limbs_val w1 = V div unat b" "unat v = V mod unat b"
      using dm vb by (auto simp: div_nat_eqI mod_nat_eqI ac_simps)
    define U where "U = V div unat b"
    have split: "nat_digits ?r V = nat_digits ?r U @ fixed_digits ?r k V"
      using nat_digits_split [OF r(1), of k V] ge by (simp add: bk U_def)
    have fx: "fixed_digits ?r k (unat v) = fixed_digits ?r k V"
      unfolding q(2) bk by (rule fixed_digits_mod) (use r(1) in simp)
    have kr: "k \<le> room" "length (nat_digits ?r U) \<le> room - k" using less.prems(5) by (simp_all add: split)
    let ?r1 = "w1 @ drop len t"
    have g: "grab t 0 len = Some (take len t)" "blit t 0 w1 = Some ?r1"
      using len w1 by (simp_all add: grab_def blit_def)
    have k0: "k \<noteq> 0"
    proof
      assume "k = 0"
      then have b1: "b = 1" using bk by (simp add: word_unat_eq_iff)
      have "\<forall>c \<in> set radix_base_table. c \<noteq> 1" by (simp add: radix_base_table_def)
      then show False using b b1 by (auto dest!: nth_mem)
    qed
    have "1 < unat b" unfolding bk using r(1) k0 by (intro one_less_power) simp_all
    then have "U < V" unfolding U_def using less.prems(4) by (intro div_less_dividend) simp_all
    moreover have "0 < U" using ge b0 by (simp add: U_def div_greater_zero_iff)
    moreover have "U = limbs_val (take len ?r1)" using w1 by (simp add: q U_def)
    ultimately have "to_string_chunks ?r1 len (room - k, fixed_digits ?r k V @ s) radix =
        Some (room - k - length (nat_digits ?r U), nat_digits ?r U @ fixed_digits ?r k V @ s)"
      using less.IH [of U len ?r1 "room - k" "fixed_digits ?r k V @ s"] len w1 kr by simp
    then show ?thesis unfolding unf if_not_P [OF False]
      by (simp add: g m limb_to_a_spec [OF r(1,2) kr(1)] fx split)
  qed
qed

section \<open>Bit fields\<close>

lemma bin_digit_spec:
  assumes l: "l \<le> 5" and radix: "unat radix = 2 ^ l" and room: "i * l < 64 * length r"
  shows "\<exists>c. bin_digit r radix l i = Some c \<and> unat c = limbs_val r div 2 ^ (i * l) mod 2 ^ l"
proof -
  define b p s where "b = i * l" and "p = b div 64" and "s = b mod 64"
  have b: "b = 64 * p + s" "s < 64" by (simp_all add: p_def s_def)
  have pl: "p < length r" using room b by (simp add: b_def [symmetric])
  have r2: "radix = 2 ^ l"
  proof -
    have "(2 :: nat) ^ l < 2 ^ 32" using l by (intro power_strict_increasing) simp_all
    then have "unat (of_nat (2 ^ l) :: u32) = 2 ^ l"
      unfolding unsigned_of_nat of_nat_id by (intro take_bit_nat_eq_self) simp
    then have "unat (2 ^ l :: u32) = 2 ^ l" by simp
    then show ?thesis using radix by (simp add: word_unat_eq_iff)
  qed
  define c0 where "c0 = (ucast (drop_bit s (r ! p)) :: u32)"
  define c1 where "c1 = (if s + l > 64 \<and> p + 1 < length r
     then ucast (ucast c0 OR push_bit (64 - s) (r ! (p + 1)) :: limb) else c0)"
  have c: "bin_digit r radix l i = Some (c1 AND (radix - 1))"
    using pl by (simp add: bin_digit_def rd_def Let_def JS_LIMB_BITS_def c0_def c1_def p_def s_def b_def)
  have m: "c1 AND (radix - 1) = take_bit l c1"
    by (simp add: r2 take_bit_eq_mask mask_eq_exp_minus_1)
  have "bit (unat (take_bit l c1)) k \<longleftrightarrow> bit (take_bit l (drop_bit b (limbs_val r))) k" for k
  proof (cases "k < l")
    case True
    then have k: "k < 32" using l by simp
    have "bit c1 k \<longleftrightarrow> (b + k) div 64 < length r \<and> bit (r ! ((b + k) div 64)) ((b + k) mod 64)"
    proof (cases "s + k < 64")
      case low: True
      have "(b + k) div 64 = p" "(b + k) mod 64 = s + k" using b low by (simp_all add: div_nat_eqI mod_nat_eqI)
      then show ?thesis using pl k low by (auto simp: c1_def c0_def bit_simps)
    next
      case high: False
      define t where "t = s + k - 64"
      have t: "s + k = 64 + t" "t < 64" using high b True l by (simp_all add: t_def)
      have "b + k = 64 * p + 64 + t" using b t by linarith
      then have "(b + k) div 64 = p + 1" "(b + k) mod 64 = t"
        using t by (simp_all add: div_nat_eqI mod_nat_eqI)
      moreover have "bit c1 k \<longleftrightarrow> p + 1 < length r \<and> bit (r ! (p + 1)) t"
      proof (cases "p + 1 < length r")
        case pn: True
        have "s + l > 64" using t True by linarith
        moreover have "64 - s \<le> k" "k - (64 - s) = t" using t b by linarith+
        moreover have "\<not> bit c0 k" using k t by (auto simp: c0_def bit_simps dest: bit_imp_le_length)
        ultimately show ?thesis using pn k by (auto simp: c1_def bit_simps)
      next
        case False
        then show ?thesis using k t by (auto simp: c1_def c0_def bit_simps dest: bit_imp_le_length)
      qed
      ultimately show ?thesis by simp
    qed
    then show ?thesis using True k by (simp add: bit_simps bit_limbs_val add.commute [of k])
  qed (simp add: bit_simps)
  then have "unat (take_bit l c1) = take_bit l (drop_bit b (limbs_val r))" by (rule bit_eqI)
  then show ?thesis using c m by (simp add: take_bit_eq_mod drop_bit_eq_div b_def)
qed

lemma to_string_bits_spec:
  assumes l: "l \<le> 5" and radix: "unat radix = 2 ^ l"
  shows "k \<le> room \<Longrightarrow> (\<And>j. j < k \<Longrightarrow> (i + j) * l < 64 * length r) \<Longrightarrow>
    to_string_bits r radix l i k (room, s) =
      Some (room - k, fixed_digits (2 ^ l) k (limbs_val r div 2 ^ (i * l)) @ s)"
proof (induction k arbitrary: i room s)
  case (Suc k)
  obtain room' where room: "room = Suc room'" "k \<le> room'" using Suc.prems(1) by (cases room) auto
  have "i * l < 64 * length r" using Suc.prems(2) [of 0] by simp
  from bin_digit_spec [OF l radix this] obtain c where
    c: "bin_digit r radix l i = Some c" "unat c = limbs_val r div 2 ^ (i * l) mod 2 ^ l" by blast
  have "unat c < 2 ^ l" unfolding c(2) by simp
  also have "(2 :: nat) ^ l \<le> 2 ^ 5" using l by (intro power_increasing) simp_all
  finally have d: "unat c < 36" by simp
  have step: "to_string_bits r radix l i (Suc k) (room, s) =
      to_string_bits r radix l (i + 1) k (room', digit_char (unat c) # s)"
    by (simp only: to_string_bits.simps c(1) rd_digits [OF d] Option.bind.simps room back_push.simps)
  have "(i + 1 + j) * l < 64 * length r" if "j < k" for j
    using Suc.prems(2) [of "j + 1"] that by (simp add: ac_simps)
  from Suc.IH [OF room(2) this, of "digit_char (unat c) # s"]
  have "to_string_bits r radix l (i + 1) k (room', digit_char (unat c) # s) =
    Some (room' - k, fixed_digits (2 ^ l) k (limbs_val r div 2 ^ ((i + 1) * l)) @ digit_char (unat c) # s)" .
  moreover have "limbs_val r div 2 ^ ((i + 1) * l) = limbs_val r div 2 ^ (i * l) div 2 ^ l"
    by (simp only: distrib_right mult_1 power_add div_mult2_eq)
  ultimately show ?case unfolding step by (simp add: room c(2))
qed simp

section \<open>The size of the buffer\<close>

lemma top_bits:
  assumes n: "normal r" "\<not> neg_limb (last r)" and V: "0 < limbs_val r"
    and nb: "nb = length r * 64 - js_limb_safe_clz (last r)"
  shows "2 ^ (nb - 1) \<le> limbs_val r" "limbs_val r < 2 ^ nb" "1 \<le> nb"
proof -
  obtain xs y where r: "r = xs @ [y]" using normal_not_empty [OF n(1)] by (cases r rule: rev_cases) auto
  let ?n = "length xs"
  have val: "limbs_val r = limbs_val xs + BASE ^ ?n * unat y" by (simp add: r limbs_val_append)
  have "2 ^ (nb - 1) \<le> limbs_val r \<and> limbs_val r < 2 ^ nb \<and> 1 \<le> nb"
  proof (cases "y = 0")
    case False
    define m where "m = bit_length (unat y)"
    have "0 < unat y" using False by (simp add: unat_gt_0)
    note m = bit_length_spec [OF this, folded m_def]
    have m64: "m \<le> 64" using js_limb_clz_spec(1) [OF False] by (simp add: m_def)
    have nb': "nb = 64 * ?n + m"
      using False m64 by (simp add: nb r js_limb_safe_clz_def js_limb_clz_def JS_LIMB_BITS_def m_def)
    have "BASE ^ ?n * 2 ^ (m - 1) \<le> BASE ^ ?n * unat y" using m by (intro mult_le_mono2) simp
    moreover have "BASE ^ ?n * 2 ^ (m - 1) = 2 ^ (nb - 1)"
      unfolding BASE_power power_add [symmetric] using m nb' by simp
    moreover have "BASE ^ ?n * (unat y + 1) \<le> BASE ^ ?n * 2 ^ m" using m by (intro mult_le_mono2) simp
    moreover have "BASE ^ ?n * 2 ^ m = 2 ^ nb" unfolding BASE_power power_add [symmetric] nb' ..
    moreover have "BASE ^ ?n * (unat y + 1) = BASE ^ ?n * unat y + BASE ^ ?n" by simp
    ultimately show ?thesis using limbs_val_less [of xs] m nb' val by linarith
  next
    case True
    then have xs: "xs \<noteq> []" using V by (auto simp: r)
    then obtain zs z where xz: "xs = zs @ [z]" by (cases xs rule: rev_cases) auto
    have nb': "nb = 64 * ?n" by (simp add: nb r js_limb_safe_clz_def JS_LIMB_BITS_def True)
    have "normal ((zs @ [z]) @ [0])" using n(1) True by (simp add: r xz)
    then have z: "2 ^ 63 \<le> unat z" unfolding normal_snoc by (simp add: redundant_def neg_limb_def)
    have "BASE ^ length zs * 2 ^ 63 \<le> BASE ^ length zs * unat z" using z by (rule mult_le_mono2)
    moreover have "BASE ^ length zs * 2 ^ 63 = 2 ^ (nb - 1)"
      unfolding BASE_power power_add [symmetric] nb' by (simp add: xz)
    moreover have "limbs_val r = limbs_val zs + BASE ^ length zs * unat z"
      using val True by (simp add: xz limbs_val_append)
    moreover have "limbs_val r < BASE ^ ?n" using val True limbs_val_less [of xs] by simp
    moreover have "1 \<le> ?n" using xs by (cases xs) auto
    ultimately show ?thesis unfolding nb' BASE_power by linarith
  qed
  then show "2 ^ (nb - 1) \<le> limbs_val r" "limbs_val r < 2 ^ nb" "1 \<le> nb" by auto
qed

text \<open>\<open>(n + b - 1) / b\<close> digits of \<open>b\<close> bits are exact for an \<open>n\<close>-bit number.\<close>

lemma digits_room:
  assumes "2 \<le> unat radix" "unat radix \<le> 36" and l: "l = 31 - clz32 radix"
  shows "1 \<le> l" "l \<le> 5" "2 ^ l \<le> unat radix"
    "radix AND (radix - 1) = 0 \<Longrightarrow> unat radix = 2 ^ l"
proof -
  have r0: "0 < unat radix" using assms(1) by simp
  note b = bit_length_spec [OF r0]
  have "(2 :: nat) ^ (bit_length (unat radix) - 1) < 2 ^ 6" using b assms(2) by simp
  then have u: "bit_length (unat radix) - 1 < 6" by (simp only: power_strict_increasing_iff)
  then have lb: "l = bit_length (unat radix) - 1" using b by (simp add: l clz32_def)
  show "l \<le> 5" using u lb by simp
  show "2 ^ l \<le> unat radix" using b lb by simp
  have "(2 :: nat) ^ 1 < 2 ^ bit_length (unat radix)" using b assms(1) by simp
  then have "1 < bit_length (unat radix)" by (simp only: power_strict_increasing_iff)
  then show "1 \<le> l" using lb by simp
  show "unat radix = 2 ^ l" if "radix AND (radix - 1) = 0"
    using power_of_two_radix(1) [OF assms(1,2) that] lb by simp
qed

lemma to_string_text_spec:
  assumes n: "normal r" "\<not> neg_limb (last r)" and V: "0 < limbs_val r"
    and rx: "2 \<le> unat radix" "unat radix \<le> 36"
    and l: "l = 31 - clz32 radix" and nb: "nb = length r * JS_LIMB_BITS - js_limb_safe_clz (last r)"
  shows "to_string_text r radix is_neg l ((nb + l - 1) div l) =
    Some ((if is_neg then ''-'' else '''') @ nat_digits (unat radix) (limbs_val r))"
proof -
  let ?V = "limbs_val r" and ?r = "unat radix"
  define D where "D = (nb + l - 1) div l"
  have len: "1 \<le> length r" using normal_not_empty [OF n(1)] by (cases r) auto
  note tb = top_bits [OF n V, of nb] nb [unfolded JS_LIMB_BITS_def]
  note lr = digits_room [OF rx l]
  have D: "D = Suc ((nb - 1) div l)"
  proof -
    have "D = (nb - 1 + l) div l" using tb by (simp add: D_def)
    then show ?thesis using lr(1) by (simp add: div_add_self2)
  qed
  have fit: "nb \<le> l * D"
    using dividend_less_times_div [of l "nb - 1"] lr(1) tb by (simp add: D)
  define n where "n = length (nat_digits ?r ?V)"
  have nD: "n \<le> D"
  proof -
    have "(2 :: nat) ^ nb \<le> 2 ^ (l * D)" using fit by (intro power_increasing) simp_all
    also have "\<dots> = (2 ^ l) ^ D" by (simp only: power_mult)
    also have "\<dots> \<le> ?r ^ D" using lr(3) by (rule power_mono) simp
    finally have "?V < ?r ^ D" using tb by linarith
    then show ?thesis unfolding n_def by (rule length_nat_digits_le [OF rx(1)]) (simp add: D)
  qed
  have body: "(if radix AND (radix - 1) \<noteq> 0
        then to_string_chunks r (length r) (D + of_bool is_neg, [CHR 0x00]) radix
        else to_string_bits r radix l 0 D (D + of_bool is_neg, [CHR 0x00])) =
      Some (D + of_bool is_neg - n, nat_digits ?r ?V @ [CHR 0x00])"
  proof (cases "radix AND (radix - 1) \<noteq> 0")
    case True
    then show ?thesis
      using to_string_chunks_spec [OF rx True len, where t = r and V = ?V and room = "D + of_bool is_neg"
          and s = "[CHR 0x00]"] V nD
      by (simp add: n_def)
  next
    case False
    then have pw: "?r = 2 ^ l" using lr(4) by simp
    have lo: "?r ^ ((nb - 1) div l) \<le> ?V"
    proof -
      have "l * ((nb - 1) div l) \<le> nb - 1" by simp
      then have "(2 :: nat) ^ (l * ((nb - 1) div l)) \<le> 2 ^ (nb - 1)" by (intro power_increasing) simp_all
      then show ?thesis using tb unfolding pw power_mult [symmetric] by linarith
    qed
    have hi: "?V < ?r ^ Suc ((nb - 1) div l)"
    proof -
      have "(2 :: nat) ^ nb \<le> 2 ^ (l * D)" using fit by (intro power_increasing) simp_all
      then show ?thesis using tb unfolding pw power_mult [symmetric] D by linarith
    qed
    have fd: "fixed_digits (2 ^ l) D ?V = nat_digits ?r ?V"
      using fixed_digits_nat_digits [OF rx(1) lo hi] by (simp only: D pw)
    have "n = length (fixed_digits (2 ^ l) D ?V)" by (simp only: fd n_def)
    then have "n = D" by simp
    have "(0 + j) * l < 64 * length r" if "j < D" for j
    proof -
      have "j \<le> (nb - 1) div l" using that D by simp
      then have "j * l \<le> nb - 1" using lr(1) by (simp add: less_eq_div_iff_mult_less_eq)
      then show ?thesis using tb by simp
    qed
    from to_string_bits_spec [OF lr(2) pw _ this, of D "D + of_bool is_neg" "[CHR 0x00]"]
    show ?thesis using False fd \<open>n = D\<close> by simp
  qed
  have p0: "back_push (CHR 0x00) (D + of_bool is_neg + 1, []) = Some (D + of_bool is_neg, [CHR 0x00])"
    by (simp add: back_push_room)
  show ?thesis
    unfolding to_string_text_def D_def [symmetric] p0 Option.bind.simps body
    using nD by (simp add: back_push_room butlast_append)
qed

section \<open>The contract\<close>

lemma js_new_string8_len_sat: "s \<noteq> [] \<Longrightarrow> js_sat mf E 0 1 (\<lambda>x. x = s) (js_new_string8_len mf s)"
  by (auto simp: js_new_string8_len_def intro!: js_sat_bind [OF js_sat_malloc] js_sat_return)

lemma to_string_buf_sat:
  assumes n: "normal r" "0 < sval r" and rx: "2 \<le> unat radix" "unat radix \<le> 36"
  shows "js_sat mf E (- of_bool tmp) (1 - of_bool tmp)
    (\<lambda>s. s = (if is_neg then ''-'' else '''') @ nat_digits (unat radix) (nat (sval r)))
    (to_string_buf mf r radix is_neg tmp)"
proof -
  have "r \<noteq> []" using n(1) by simp
  then have ns: "\<not> neg_limb (last r)" using sval_nonneg_iff [of r] n(2) by simp
  then have v: "sval r = int (limbs_val r)" by (rule sval_nonneg)
  then have V: "0 < limbs_val r" using n(2) by simp
  note text_eq = to_string_text_spec [OF n(1) ns V rx refl refl]
  define num_text where "num_text = (if is_neg then ''-'' else '''') @ nat_digits (unat radix) (limbs_val r)"
  have ne: "num_text \<noteq> []" by (simp add: num_text_def)
  have tmpf: "js_sat mf E de (- of_bool tmp) (\<lambda>_. True) (js_free_tmp tmp)" for E de
    by (cases tmp) (auto simp: js_free_tmp_def intro!: js_sat_free js_sat_return)
  have fexc: "exc rt' = exc rt" if "js_free_tmp tmp rt = Some (x, rt')" for rt x rt'
    using that by (cases tmp) (auto simp: js_free_tmp_def js_free_def js_free_rt_def js_return_def)
  have fin: "js_sat mf E (- 1) 0 (\<lambda>s. s = num_text)
      (js_try (js_new_string8_len mf num_text) (js_free buf) (\<lambda>res. js_bind (js_free buf) (\<lambda>_. js_return res)))"
    for buf :: nat
  proof (rule js_sat_try_free [where Q = "\<lambda>s. s = num_text" and ?d1.0 = 1])
    show "js_sat mf E (- 1 + 1) 1 (\<lambda>s. s = num_text) (js_new_string8_len mf num_text)"
      using js_new_string8_len_sat [OF ne] by simp
    show "js_sat mf E (- 1 - 1) (0 - 1) (\<lambda>s. s = num_text) (js_bind (js_free buf) (\<lambda>_. js_return res))"
      if "res = num_text" for res
      using that by (auto intro!: js_sat_bind [OF js_sat_free] js_sat_return)
  qed
  have body: "js_sat mf E (- of_bool tmp - 1) (1 - of_bool tmp - 1) (\<lambda>s. s = num_text)
    (js_bind (js_lift (Some num_text)) (\<lambda>s. js_bind (js_free_tmp tmp) (\<lambda>_.
       js_try (js_new_string8_len mf s) (js_free buf) (\<lambda>res. js_bind (js_free buf) (\<lambda>_. js_return res)))))"
    for buf :: nat
    by (rule js_sat_bind_lift [OF refl], rule js_sat_bind [OF tmpf]) (use fin in simp)
  have "js_sat mf E (0 + - of_bool tmp) (1 + (0 - of_bool tmp)) (\<lambda>s. s = num_text)
      (to_string_buf mf r radix is_neg tmp)"
    unfolding to_string_buf_def Let_def text_eq num_text_def [symmetric]
  proof (rule js_sat_try [OF js_sat_malloc tmpf fexc])
    fix buf :: nat
    show "js_sat mf E (0 + - of_bool tmp - 1) (0 - of_bool tmp) (\<lambda>s. s = num_text)
     (js_bind (js_lift (Some num_text)) (\<lambda>s. js_bind (js_free_tmp tmp) (\<lambda>_.
       js_try (js_new_string8_len mf s) (js_free buf) (\<lambda>res. js_bind (js_free buf) (\<lambda>_. js_return res)))))"
      using body by simp
  qed
  then show ?thesis by (simp add: num_text_def v)
qed

lemma js_bigint_to_string1_sat:
  assumes n: "normal r" and rx: "2 \<le> unat radix" "unat radix \<le> 36"
  shows "js_sat mf (size_error (length r)) 0 1 (\<lambda>s. s = int_digits (unat radix) (sval r))
    (js_bigint_to_string1 mf (BigIntPtr r) radix)"
proof -
  have ne: "r \<noteq> []" using n by simp
  consider (zero) "r = [0]" | (neg) "sval r < 0" | (pos) "r \<noteq> [0]" "0 < sval r"
  proof -
    have "r = [0]" if "sval r = 0" using normal_unique [OF n normal_single, of 0] that by simp
    then show thesis using zero neg pos by fastforce
  qed
  then show ?thesis
  proof cases
    case zero
    have "digit_char 0 = CHR ''0''" by (simp add: digit_char_def char_of_def bit_0)
    then have "int_digits (unat radix) 0 = ''0''"
      using rx by (simp add: int_digits_def nat_digits_small)
    then show ?thesis using js_new_string8_len_sat [of "''0''" mf] zero by simp
  next
    case neg
    then have s: "js_bigint_sign r \<noteq> 0" "\<not> (length r = 1 \<and> hd r = 0)"
      using sval_nonneg_iff [OF ne] ne by (auto simp: js_bigint_sign_eq last_conv_nth hd_conv_nth)
    have "js_sat mf (size_error (length r)) 0 1 (\<lambda>s. s = int_digits (unat radix) (sval r))
        (js_bind (js_bigint_neg mf r) (\<lambda>tmp. to_string_buf mf tmp radix True True))"
    proof (rule js_sat_bind [OF js_bigint_neg_sat [OF ne]])
      fix x assume x: "normal x \<and> sval x = - sval r"
      then have "0 < sval x" using neg by simp
      from to_string_buf_sat [of x radix mf "size_error (length r)" True True, OF _ this rx] x neg
      show "js_sat mf (size_error (length r)) (0 - 1) (1 - 1)
          (\<lambda>s. s = int_digits (unat radix) (sval r)) (to_string_buf mf x radix True True)"
        by (simp add: int_digits_def)
    qed
    then show ?thesis unfolding js_bigint_to_string1.simps if_not_P [OF s(2)] if_P [OF s(1)] .
  next
    case pos
    then have s: "\<not> js_bigint_sign r \<noteq> 0" "\<not> (length r = 1 \<and> hd r = 0)"
      using sval_nonneg_iff [OF ne] ne by (auto simp: js_bigint_sign_eq length_Suc_conv)
    show ?thesis
    proof (cases "radix AND (radix - 1) \<noteq> 0")
      case True
      have "js_sat mf (size_error (length r)) 0 1 (\<lambda>s. s = int_digits (unat radix) (sval r))
        (js_bind (js_bigint_new mf (length r)) (\<lambda>tmp.
           js_bind (js_lift (blit tmp 0 r)) (\<lambda>tmp. to_string_buf mf tmp radix False True)))"
      proof (rule js_sat_bind [OF js_bigint_new_sat])
        fix t :: "limb list" assume "length t = length r"
        then have b: "blit t 0 r = Some r" by (simp add: blit_def)
        from to_string_buf_sat [OF n pos(2) rx, of mf "size_error (length r)" True False] pos
        have "js_sat mf (size_error (length r)) (0 - 1) (1 - 1)
          (\<lambda>s. s = int_digits (unat radix) (sval r)) (to_string_buf mf r radix False True)"
          by (simp add: int_digits_def)
        then show "js_sat mf (size_error (length r)) (0 - 1) (1 - 1)
          (\<lambda>s. s = int_digits (unat radix) (sval r))
          (js_bind (js_lift (blit t 0 r)) (\<lambda>tmp. to_string_buf mf tmp radix False True))"
          by (rule js_sat_bind_lift [OF b])
      qed simp
      then show ?thesis unfolding js_bigint_to_string1.simps if_not_P [OF s(2)] if_not_P [OF s(1)] if_P [OF True] .
    next
      case False
      from to_string_buf_sat [OF n pos(2) rx, of mf "size_error (length r)" False False] pos
      have "js_sat mf (size_error (length r)) 0 1
          (\<lambda>s. s = int_digits (unat radix) (sval r)) (to_string_buf mf r radix False False)"
        by (simp add: int_digits_def)
      then show ?thesis unfolding js_bigint_to_string1.simps if_not_P [OF s(2)] if_not_P [OF s(1)] if_not_P [OF False] .
    qed
  qed
qed

lemma short_bigint_to_string_sat:
  assumes rx: "2 \<le> unat radix" "unat radix \<le> 36"
  shows "js_sat mf E 0 1 (\<lambda>s. s = int_digits (unat radix) (sint v))
    (js_bigint_to_string1 mf (ShortBigInt v) radix)"
proof -
  have "int_digits (unat radix) (sint v) \<noteq> []" by (simp add: int_digits_def)
  from js_new_string8_len_sat [OF this] show ?thesis
    by (auto simp: i64toa_radix_spec [OF rx] intro: js_sat_bind_lift [OF refl])
qed

lemma JS_CompactBigInt_sat:
  assumes "p \<noteq> []"
  shows "js_sat mf E 0 (if length p = 1 then - 1 else 0)
    (\<lambda>v. case v of ShortBigInt x \<Rightarrow> sint x = sval p \<and> length p = 1
               | BigIntPtr q \<Rightarrow> q = p \<and> length p \<noteq> 1) (JS_CompactBigInt p)"
proof (cases "length p = 1")
  case True
  then obtain x where "p = [x]" by (auto simp: length_Suc_conv)
  then show ?thesis
    by (auto simp: JS_CompactBigInt_def intro!: js_sat_bind [OF js_sat_free] js_sat_return)
qed (auto simp: JS_CompactBigInt_def intro!: js_sat_return)

section \<open>Printing and reading\<close>

lemma takeWhile_nat_digits:
  assumes "2 \<le> radix" "radix \<le> 36"
  shows "takeWhile (\<lambda>c. to_digit c < radix) (nat_digits radix n) = nat_digits radix n"
  using to_digit_nat_digits [OF assms] by (simp add: takeWhile_eq_all_conv)

lemma bigint_of_text_int_digits:
  assumes "2 \<le> radix" "radix \<le> 36"
  shows "bigint_of_text radix (int_digits radix v) = v"
proof -
  have "to_digit (CHR ''-'') = 36" by (simp add: to_digit_def)
  then have "hd (nat_digits radix n) \<noteq> CHR ''-''" for n
    using to_digit_nat_digits [OF assms, of "hd (nat_digits radix n)" n] assms by auto
  then show ?thesis
    by (simp add: bigint_of_text_def int_digits_def Let_def takeWhile_nat_digits [OF assms]
        digits_val_nat_digits [OF assms])
qed

lemma digits_only_int_digits:
  assumes "2 \<le> radix" "radix \<le> 36"
  shows "digits_only radix (int_digits radix v)"
  using to_digit_nat_digits [OF assms] by (auto simp: digits_only_def int_digits_def Let_def dest: list.set_sel(2) [rotated])

end
