(* ===== verification/BigInt_Props.thy ===== *)
theory BigInt_Props
  imports BigInt_Pow BigInt_FloatCmp BigInt_Print
begin

text \<open>
  What the BigInt component promises, in the terms of the mathematical integers: the value
  \<open>sval a\<close> of a limb list in two's complement, and \<open>js_sat\<close>, which says of an operation that
  it stays inside the objects it allocates, what it returns, which errors it may throw and
  how many blocks it leaves allocated in either case.
\<close>

section \<open>Arithmetic\<close>

text \<open>
  C26: addition, subtraction and negation return the normal form of the exact result in one
  new block; the only errors are a result too large to allocate and out of memory, and then
  nothing stays allocated.
\<close>

theorem js_bigint_add_correct:
  assumes "normal a" "normal b"
  shows "js_sat mf (\<lambda>e. e = RangeError ''BigInt is too large to allocate'' \<and>
      JS_BIGINT_MAX_SIZE < max (length a) (length b)) 0 1
    (\<lambda>r. normal r \<and> sval r = (if b_neg then sval a - sval b else sval a + sval b))
    (js_bigint_add mf a b b_neg) \<and>
   js_sat mf (\<lambda>e. e = RangeError ''BigInt is too large to allocate'' \<and>
      JS_BIGINT_MAX_SIZE < length a) 0 1
    (\<lambda>r. normal r \<and> sval r = - sval a) (js_bigint_neg mf a)"
  using assms by (intro conjI js_bigint_add_sat js_bigint_neg_sat) simp_all

theorem js_bigint_add_correct_witness:
  "js_sat good_mf (\<lambda>e. e = RangeError ''BigInt is too large to allocate'' \<and> JS_BIGINT_MAX_SIZE < 1) 0 1
    (\<lambda>r. normal r \<and> sval r = - 3) (js_bigint_add good_mf [2] [5] True) \<and>
   js_sat good_mf (\<lambda>e. e = RangeError ''BigInt is too large to allocate'' \<and> JS_BIGINT_MAX_SIZE < 1) 0 1
    (\<lambda>r. normal r \<and> sval r = - 2) (js_bigint_neg good_mf [2])"
  using js_bigint_add_correct [of "[2]" "[5]" good_mf True] by simp

text \<open>C27: multiplication returns the normal form of the exact product.\<close>

theorem js_bigint_mul_correct:
  assumes "normal a" "normal b"
  shows "js_sat mf (\<lambda>e. e = RangeError ''BigInt is too large to allocate'' \<and>
      JS_BIGINT_MAX_SIZE < length a + length b) 0 1
    (\<lambda>r. normal r \<and> sval r = sval a * sval b) (js_bigint_mul mf a b)"
  using assms by (intro js_bigint_mul_sat) simp_all

theorem js_bigint_mul_correct_witness:
  "js_sat good_mf (\<lambda>e. e = RangeError ''BigInt is too large to allocate'' \<and> JS_BIGINT_MAX_SIZE < 2) 0 1
    (\<lambda>r. normal r \<and> sval r = - 21) (js_bigint_mul good_mf [3] [- 7])"
  using js_bigint_mul_correct [of "[3]" "[- 7]" good_mf] by (simp add: numeral_2_eq_2)



text \<open>
  C29: the normalised long division of limb arrays (Knuth's algorithm, with the quotient
  digit either by division or by a multiplication with the precomputed inverse) leaves the
  quotient and the remainder in the arrays it is given, without reading or writing outside
  them.
\<close>

theorem mp_divnorm_correct:
  assumes "tabb \<noteq> []" "0x8000000000000000 \<le> last tabb" "length tabb \<le> length taba"
    "length taba - length tabb + 1 \<le> length tabq"
  shows "\<exists>tabq' taba'. mp_divnorm tabq taba tabb = Some (tabq', taba') \<and>
    length tabq' = length tabq \<and> length taba' = length taba \<and>
    limbs_val (take (length taba - length tabb + 1) tabq') = limbs_val taba div limbs_val tabb \<and>
    limbs_val (take (length tabb) taba') = limbs_val taba mod limbs_val tabb"
  by (rule mp_divnorm_spec [OF assms])

theorem mp_divnorm_correct_witness:
  "\<exists>tabq' taba'. mp_divnorm [0, 0] [5, 7, 1] [1, 0x8000000000000000] = Some (tabq', taba') \<and>
    length tabq' = 2 \<and> length taba' = 3 \<and>
    limbs_val (take 2 tabq') =
      limbs_val [5, 7, 1] div limbs_val [1, 0x8000000000000000] \<and>
    limbs_val (take 2 taba') =
      limbs_val [5, 7, 1] mod limbs_val [1, 0x8000000000000000]"
  using mp_divnorm_correct [of "[1, 0x8000000000000000]" "[5, 7, 1]" "[0, 0]"]
  by (simp add: numeral_2_eq_2 numeral_3_eq_3)

section \<open>Powers\<close>

text \<open>
  C30: exponentiation returns the exact power; it throws for a negative exponent, and for a
  result too large only when the result really needs nearly as many limbs as a BigInt may
  have.  A failure inside the multiplication loop may keep one block allocated.
\<close>

theorem js_bigint_pow_correct:
  assumes "normal a" "normal b"
  shows "js_sat_leak mf (\<lambda>e. e = RangeError ''BigInt negative exponent'' \<and> sval b < 0 \<or>
      (e = RangeError ''BigInt is too large'' \<or> e = RangeError ''BigInt is too large to allocate'') \<and>
      0 \<le> sval b \<and> int (BASE ^ (JS_BIGINT_MAX_SIZE - 1)) \<le> 4 * \<bar>sval a ^ nat (sval b)\<bar>) 1 1
    (\<lambda>r. normal r \<and> sval r = sval a ^ nat (sval b)) (js_bigint_pow mf a b)"
proof -
  have "pow_error a b = (\<lambda>e. e = RangeError ''BigInt negative exponent'' \<and> sval b < 0 \<or>
      (e = RangeError ''BigInt is too large'' \<or> e = RangeError ''BigInt is too large to allocate'') \<and>
      0 \<le> sval b \<and> int (BASE ^ (JS_BIGINT_MAX_SIZE - 1)) \<le> 4 * \<bar>sval a ^ nat (sval b)\<bar>)"
    unfolding fun_eq_iff pow_error_def huge_def by blast
  then show ?thesis using js_bigint_pow_sat [OF assms, of mf] by simp
qed

theorem js_bigint_pow_correct_witness:
  "js_sat_leak good_mf
    (\<lambda>e. (e = RangeError ''BigInt is too large'' \<or> e = RangeError ''BigInt is too large to allocate'') \<and>
      int (BASE ^ (JS_BIGINT_MAX_SIZE - 1)) \<le> 972) 1 1
    (\<lambda>r. normal r \<and> sval r = - 243) (js_bigint_pow good_mf [- 3] [5])"
  using js_bigint_pow_correct [of "[- 3]" "[5]" good_mf] by simp

text \<open>
  The loop of \<open>js_bigint_pow\<close> returns without releasing \<open>r\<close> when a multiplication fails:
  with an allocator whose second request fails, one block stays allocated.
\<close>

lemma js_bigint_pow_leaks:
  "case js_bigint_pow \<lparr>mf_ok = \<lambda>k _. k \<noteq> 1, mf_junk = \<lambda>_ _. 0\<rparr> [3] [3] rt0 of
     Some (Null, rt) \<Rightarrow> live rt = live rt0 + 1 | _ \<Rightarrow> False"
proof -
  define mf where "mf = \<lparr>mf_ok = \<lambda>k (_ :: nat). k \<noteq> 1, mf_junk = \<lambda>_ (_ :: nat). (0 :: limb)\<rparr>"
  have bits: "31 - clz32 3 = 1" by (simp add: clz32_def bit_length.simps)
  have "js_bigint_pow mf [3] [3] rt0 = pow_general mf [3] [3] rt0"
    by (simp add: js_bigint_pow_def js_bigint_sign_eq neg_limb_def Let_def word_le_nat_alt word_sless_alt)
  also have "\<dots> = pow_loop mf [3] 3 1 [3] (rt0\<lparr>mseq := 1, live := 1\<rparr>)"
    by (simp add: pow_general_def bits js_bind_def js_try_def js_bigint_new_def JS_BIGINT_MAX_SIZE_def
        JS_LIMB_BITS_def js_malloc_def js_malloc_rt_def mf_def rt0_def js_return_def js_lift_def blit_def Let_def
        del: One_nat_def pow_loop.simps)
  also have "\<dots> = Some (Null, rt0\<lparr>mseq := 2, live := 1, exc := Some (InternalError ''out of memory'')\<rparr>)"
    by (simp add: js_bigint_mul_def js_bind_def js_try_def js_bigint_new_def JS_BIGINT_MAX_SIZE_def
        JS_LIMB_BITS_def js_malloc_def js_malloc_rt_def mf_def rt0_def js_return_def
        JS_ThrowOutOfMemory_def js_throw_def)
  finally show ?thesis by (simp add: mf_def rt0_def)
qed

section \<open>Bits\<close>

text \<open>
  C31: the bitwise operations agree with the operations on the infinite two's complement of
  the integers.
\<close>

theorem js_bigint_logic_correct:
  assumes "normal a" "normal b"
  shows "js_sat mf (\<lambda>e. e = RangeError ''BigInt is too large to allocate'' \<and>
      JS_BIGINT_MAX_SIZE < max (length a) (length b)) 0 1
    (\<lambda>r. normal r \<and> sval r =
      (case op1 of OP_or \<Rightarrow> sval a OR sval b | OP_and \<Rightarrow> sval a AND sval b | OP_xor \<Rightarrow> sval a XOR sval b))
    (js_bigint_logic mf a b op1) \<and>
   js_sat mf (\<lambda>e. e = RangeError ''BigInt is too large to allocate'' \<and> JS_BIGINT_MAX_SIZE < length a) 0 1
    (\<lambda>r. normal r \<and> sval r = NOT (sval a)) (js_bigint_not mf a)"
proof -
  have "logic_int op1 (sval a) (sval b) =
      (case op1 of OP_or \<Rightarrow> sval a OR sval b | OP_and \<Rightarrow> sval a AND sval b | OP_xor \<Rightarrow> sval a XOR sval b)"
    by (cases op1) simp_all
  then show ?thesis using js_bigint_logic_sat [of a b mf op1] js_bigint_not_sat [OF assms(1), of mf] assms
    by simp
qed

theorem js_bigint_logic_correct_witness:
  "js_sat good_mf (\<lambda>e. e = RangeError ''BigInt is too large to allocate'' \<and> JS_BIGINT_MAX_SIZE < 1) 0 1
    (\<lambda>r. normal r \<and> sval r = 4) (js_bigint_logic good_mf [- 4] [6] OP_and) \<and>
   js_sat good_mf (\<lambda>e. e = RangeError ''BigInt is too large to allocate'' \<and> JS_BIGINT_MAX_SIZE < 1) 0 1
    (\<lambda>r. normal r \<and> sval r = 3) (js_bigint_not good_mf [- 4])"
  using js_bigint_logic_correct [of "[- 4]" "[6]" good_mf OP_and] by simp

text \<open>
  C32: a left shift multiplies by a power of two, a right shift divides by it, rounding
  towards minus infinity.
\<close>

theorem js_bigint_shift_correct:
  assumes "normal a"
  shows "js_sat mf (\<lambda>e. e = RangeError ''BigInt is too large to allocate'' \<and>
      JS_BIGINT_MAX_SIZE < length a + unat n div 64) 0 1
    (\<lambda>r. normal r \<and> sval r = sval a * 2 ^ unat n) (js_bigint_shl mf a n) \<and>
   js_sat mf (\<lambda>e. e = RangeError ''BigInt is too large to allocate'' \<and>
      JS_BIGINT_MAX_SIZE < length a) 0 1
    (\<lambda>r. normal r \<and> sval r = sval a div 2 ^ unat n) (js_bigint_shr mf a n)"
  by (intro conjI js_bigint_shl_sat js_bigint_shr_sat assms)

theorem js_bigint_shift_correct_witness:
  "js_sat good_mf (\<lambda>e. e = RangeError ''BigInt is too large to allocate'' \<and> JS_BIGINT_MAX_SIZE < 1 + 1) 0 1
    (\<lambda>r. normal r \<and> sval r = - 5 * 2 ^ 65) (js_bigint_shl good_mf [- 5] 65) \<and>
   js_sat good_mf (\<lambda>e. e = RangeError ''BigInt is too large to allocate'' \<and> JS_BIGINT_MAX_SIZE < 1) 0 1
    (\<lambda>r. normal r \<and> sval r = - 1) (js_bigint_shr good_mf [- 5] 65)"
  using js_bigint_shift_correct [of "[- 5]" good_mf 65] by simp

section \<open>Comparison and floating point\<close>

text \<open>C33: the comparison is the sign of the difference, and tells equal numbers by their limbs.\<close>

theorem js_bigint_cmp_correct:
  assumes "normal a" "normal b"
  shows "js_bigint_cmp a b = sgn (sval a - sval b) \<and> (js_bigint_cmp a b = 0 \<longleftrightarrow> a = b)"
  using js_bigint_cmp_spec [OF assms] normal_unique [OF assms] by (auto simp: sgn_if)

theorem js_bigint_cmp_correct_witness:
  "js_bigint_cmp [- 5] [0, 1] = - 1 \<and> [- 5] \<noteq> ([0, 1] :: limb list)"
  using js_bigint_cmp_correct [of "[- 5]" "[0, 1]"]
  by (simp add: normal_def redundant_def sval_def neg_limb_def BASE_def)

text \<open>
  C34: the conversion to double gives the bits of the reference conversion: round to nearest,
  ties to even, infinity beyond the largest double.
\<close>

theorem js_bigint_to_float64_correct:
  assumes "normal a"
  shows "js_bigint_to_float64 a = float64_of_int (sval a)"
  by (rule js_bigint_to_float64_spec [OF assms])

theorem js_bigint_to_float64_correct_witness:
  "js_bigint_to_float64 [0x20000000000001] = float64_of_int 9007199254740993"
  using js_bigint_to_float64_correct [of "[0x20000000000001]"] by simp

text \<open>
  C35: converting a double gives the integer with its value; an infinity or a NaN, and a
  number with a fraction, are told apart by the result code.
\<close>

theorem js_bigint_from_float64_correct:
  assumes "js_bigint_from_float64 mf b = (pres, m)"
  shows "if f64_exp b = 2047 then pres = 2
    else if fval b \<notin> \<int> then pres = 1
    else pres = 0 \<and> js_sat mf (\<lambda>_. False) 0 1 (\<lambda>r. normal r \<and> real_of_int (sval r) = fval b) m"
  using js_bigint_from_float64_spec [OF assms] by auto

theorem js_bigint_from_float64_correct_witness:
  "fst (js_bigint_from_float64 good_mf 0x7FF0000000000000) = 2"
proof -
  have "f64_exp 0x7FF0000000000000 = 2047" by (simp add: f64_exp_def)
  then show ?thesis
    using js_bigint_from_float64_correct [of good_mf "0x7FF0000000000000"] by (simp add: prod_eq_iff)
qed

text \<open>
  C36: the comparison with a finite double is the sign of the difference, except for two
  negative numbers of different magnitude (different binary exponents), for which the
  result is reversed.
\<close>

theorem js_bigint_float64_cmp_behaviour:
  assumes "normal a" "f64_exp b \<noteq> 2047"
  shows "js_bigint_float64_cmp a b =
    (if sval a < 0 \<and> fval b < 0 \<and> exponents_differ a b
     then - sgn_real (real_of_int (sval a) - fval b)
     else sgn_real (real_of_int (sval a) - fval b))"
  by (rule js_bigint_float64_cmp_spec [OF assms])

text \<open>\<open>-1n\<close> compares below \<open>-4.5\<close>.\<close>

theorem js_bigint_float64_cmp_behaviour_witness:
  "js_bigint_float64_cmp [- 1] 0xC012000000000000 = - 1 \<and> fval 0xC012000000000000 = - 4.5"
proof -
  have v: "fval 0xC012000000000000 = - 4.5"
    by (simp add: fval_def fmag_def f64_sign_def f64_exp_def f64_mant_def mask52_def)
  have e: "f64_exp 0xC012000000000000 = 1025" by (simp add: f64_exp_def)
  have "exponents_differ [- 1] 0xC012000000000000"
    by (simp add: exponents_differ_def e bit_length.simps)
  then show ?thesis using js_bigint_float64_cmp_behaviour [of "[- 1]" "0xC012000000000000"]
    by (simp add: v e sgn_real_def)
qed

section \<open>Text\<close>

text \<open>
  C37: printing in any radix from 2 to 36 gives the numeral of the value, without leading
  zeros, for both representations of a BigInt; the digit buffer is large enough, and what is
  left allocated is the string.
\<close>

theorem js_bigint_to_string1_correct:
  assumes "2 \<le> unat radix" "unat radix \<le> 36"
  shows "(normal r \<longrightarrow> js_sat mf (\<lambda>e. e = RangeError ''BigInt is too large to allocate'' \<and>
        JS_BIGINT_MAX_SIZE < length r) 0 1
      (\<lambda>s. s = int_digits (unat radix) (sval r)) (js_bigint_to_string1 mf (BigIntPtr r) radix)) \<and>
    js_sat mf (\<lambda>_. False) 0 1
      (\<lambda>s. s = int_digits (unat radix) (sint v)) (js_bigint_to_string1 mf (ShortBigInt v) radix)"
  using js_bigint_to_string1_sat [OF _ assms] short_bigint_to_string_sat [OF assms] by blast

theorem js_bigint_to_string1_correct_witness:
  "js_sat good_mf (\<lambda>e. e = RangeError ''BigInt is too large to allocate'' \<and> JS_BIGINT_MAX_SIZE < 1) 0 1
      (\<lambda>s. s = int_digits 36 (- 35)) (js_bigint_to_string1 good_mf (BigIntPtr [- 35]) 36) \<and>
   js_sat good_mf (\<lambda>_. False) 0 1
      (\<lambda>s. s = int_digits 36 (- 35)) (js_bigint_to_string1 good_mf (ShortBigInt (- 35)) 36)"
  using js_bigint_to_string1_correct [of 36 "[- 35]" good_mf "- 35"] by simp

text \<open>
  C38: reading gives the number that the digits denote, for the radices the engine uses; the
  number of limbs it estimates is enough, and a size error only comes with a text of at least
  \<open>2\<^sup>1\<^sup>8\<close> characters.
\<close>

theorem js_bigint_from_string_correct:
  assumes "radix \<in> {2, 8, 10, 16}" "radix = 10 \<or> digits_only radix str"
  shows "js_sat mf (\<lambda>e. e = RangeError ''BigInt is too large to allocate'' \<and> 262144 \<le> length str) 0 1
    (\<lambda>x. normal x \<and> sval x = bigint_of_text radix str) (js_bigint_from_string mf str radix)"
  by (rule js_sat_mono [OF js_bigint_from_string_sat [OF assms]]) (auto simp: string_error_def)

theorem js_bigint_from_string_correct_witness:
  "js_sat good_mf (\<lambda>e. False) 0 1 (\<lambda>x. normal x \<and> sval x = - 1024) (js_bigint_from_string good_mf ''-001024'' 10)"
proof -
  have "bigint_of_text 10 ''-001024'' = - 1024"
    by (simp add: bigint_of_text_def digits_val_def to_digit_def)
  then show ?thesis using js_bigint_from_string_correct [of 10 "''-001024''" good_mf] by simp
qed

text \<open>C39: reading a printed BigInt gives back the same limbs.\<close>

theorem js_bigint_text_roundtrip:
  assumes "normal r" "unat radix \<in> {2, 8, 10, 16}"
  shows "js_sat mf (\<lambda>e. e = RangeError ''BigInt is too large to allocate'' \<and>
      (JS_BIGINT_MAX_SIZE < length r \<or> 262144 \<le> length (int_digits (unat radix) (sval r)))) 0 1
    (\<lambda>x. x = r)
    (js_bind (js_bigint_to_string1 mf (BigIntPtr r) radix) (\<lambda>s.
       js_try (js_bigint_from_string mf s (unat radix)) (js_free s) (\<lambda>x.
       js_bind (js_free s) (\<lambda>_. js_return x))))"
proof -
  define E where "E = (\<lambda>e. e = RangeError ''BigInt is too large to allocate'' \<and>
      (JS_BIGINT_MAX_SIZE < length r \<or> 262144 \<le> length (int_digits (unat radix) (sval r))))"
  have rx: "2 \<le> unat radix" "unat radix \<le> 36" using assms(2) by auto
  have print: "js_sat mf E 0 1 (\<lambda>s. s = int_digits (unat radix) (sval r))
      (js_bigint_to_string1 mf (BigIntPtr r) radix)"
    by (rule js_sat_mono [OF js_bigint_to_string1_sat [OF assms(1) rx]]) (auto simp: E_def)
  have read: "js_sat mf E 0 1 (\<lambda>x. x = r) (js_bigint_from_string mf s (unat radix))"
    if "s = int_digits (unat radix) (sval r)" for s
  proof (rule js_sat_mono [OF js_bigint_from_string_sat [OF assms(2)]])
    show "unat radix = 10 \<or> digits_only (unat radix) s"
      using digits_only_int_digits [OF rx] that by simp
    show "x = r" if "normal x \<and> sval x = bigint_of_text (unat radix) s" for x
      using that normal_unique [OF _ assms(1)] bigint_of_text_int_digits [OF rx]
        \<open>s = int_digits (unat radix) (sval r)\<close> by simp
    show "E e" if "string_error s e" for e
      using that \<open>s = int_digits (unat radix) (sval r)\<close> by (auto simp: string_error_def E_def)
  qed
  have "js_sat mf E 0 1 (\<lambda>x. x = r)
    (js_bind (js_bigint_to_string1 mf (BigIntPtr r) radix) (\<lambda>s.
       js_try (js_bigint_from_string mf s (unat radix)) (js_free s) (\<lambda>x.
       js_bind (js_free s) (\<lambda>_. js_return x))))"
  proof (rule js_sat_bind [OF print])
    fix s assume "s = int_digits (unat radix) (sval r)"
    note rs = read [OF this]
    show "js_sat mf E (0 - 1) (1 - 1) (\<lambda>x. x = r)
      (js_try (js_bigint_from_string mf s (unat radix)) (js_free s) (\<lambda>x.
       js_bind (js_free s) (\<lambda>_. js_return x)))"
    proof (rule js_sat_try_free [where Q = "\<lambda>x. x = r" and ?d1.0 = 1])
      show "js_sat mf E (0 - 1 + 1) 1 (\<lambda>x. x = r) (js_bigint_from_string mf s (unat radix))"
        using rs by simp
    qed (auto intro!: js_sat_bind [OF js_sat_free] js_sat_return)
  qed
  then show ?thesis unfolding E_def .
qed

theorem js_bigint_text_roundtrip_witness:
  "js_sat good_mf (\<lambda>e. e = RangeError ''BigInt is too large to allocate'' \<and>
      (JS_BIGINT_MAX_SIZE < 1 + 1 \<or> 262144 \<le> length (int_digits 16 (sval [0, 1])))) 0 1
    (\<lambda>x. x = [0, 1])
    (js_bind (js_bigint_to_string1 good_mf (BigIntPtr [0, 1]) 16) (\<lambda>s.
       js_try (js_bigint_from_string good_mf s 16) (js_free s) (\<lambda>x.
       js_bind (js_free s) (\<lambda>_. js_return x))))"
  using js_bigint_text_roundtrip [of "[0, 1]" 16 good_mf]
  by (simp add: normal_def redundant_def del: js_bigint_to_string1.simps)

section \<open>The integer printers of dtoa.c\<close>

text \<open>
  C40: every integer printer writes the numeral of its argument: the decimal ones, which take
  the number apart into groups of nine digits, and the ones for any radix.
\<close>

theorem integer_printers_correct:
  "u32toa n = Some (nat_digits 10 (unat n)) \<and> i32toa n = Some (int_digits 10 (sint n)) \<and>
   u64toa m = Some (nat_digits 10 (unat m)) \<and> i64toa m = Some (int_digits 10 (sint m)) \<and>
   (2 \<le> unat radix \<and> unat radix \<le> 36 \<longrightarrow>
      u64toa_radix m radix = Some (nat_digits (unat radix) (unat m)) \<and>
      i64toa_radix m radix = Some (int_digits (unat radix) (sint m)))"
  using u32toa_spec i32toa_spec u64toa_spec i64toa_spec u64toa_radix_spec i64toa_radix_spec by blast

theorem integer_printers_correct_witness:
  "i64toa_radix (- 255) 16 = Some (int_digits 16 (- 255))"
  using integer_printers_correct [of 0 "- 255" 16] by simp

end
