(* ===== verification/JsString.thy ===== *)
theory JsString
  imports JsMem Utf8 Cutils
begin

text \<open>
  The strings of the engine and their conversion from and to UTF-8
  (\<open>src/src/core/quickjs.c\<close>: \<open>JS_NewStringLen\<close>, \<open>JS_ToCStringLen2\<close>).  A string is the list
  of its UTF-16 code units; whether the engine stores them in 8 or in 16 bits follows from
  the units.  Lone surrogates are strings like any other: the encoder keeps them.
\<close>

type_synonym js_string = "u16 list"

section \<open>From a string to UTF-8\<close>

text \<open>\<open>JS_ToCStringLen2\<close> with \<open>cesu8\<close> false: a surrogate pair becomes one code point.\<close>

fun utf8_of_string :: "js_string \<Rightarrow> u8 list" where
  "utf8_of_string [] = []"
| "utf8_of_string (u # us) =
     (let c = ucast u :: u32 in
      if c < 0x80 then ucast c # utf8_of_string us
      else if is_hi_surrogate c then
        (case us of
           v # vs \<Rightarrow>
             if is_lo_surrogate (ucast v)
             then unicode_to_utf8 (from_surrogate c (ucast v)) @ utf8_of_string vs
             else unicode_to_utf8 c @ utf8_of_string us
         | [] \<Rightarrow> unicode_to_utf8 c)
      else unicode_to_utf8 c @ utf8_of_string us)"

section \<open>From UTF-8 to a string\<close>

definition count_ascii :: "u8 list \<Rightarrow> nat" where
  "count_ascii s = length (takeWhile (\<lambda>b. b < 128) s)"

definition cont_byte :: "u8 \<Rightarrow> bool" where
  "cont_byte b = (b \<ge> 0x80 \<and> b < 0xc0)"

definition skip_invalid :: "u8 list \<Rightarrow> u8 list" where
  "skip_invalid p =
     (case dropWhile cont_byte p of [] \<Rightarrow> [] | _ # q \<Rightarrow> dropWhile cont_byte q)"

lemma length_skip_invalid: "p \<noteq> [] \<Longrightarrow> length (skip_invalid p) < length p"
proof -
  assume p: "p \<noteq> []"
  show ?thesis
  proof (cases "dropWhile cont_byte p")
    case Nil
    then have "skip_invalid p = []" by (simp only: skip_invalid_def list.case)
    then show ?thesis using p by simp
  next
    case (Cons b q)
    have "length (dropWhile cont_byte q) \<le> length q" by (rule length_dropWhile_le)
    moreover have "length (b # q) \<le> length p" unfolding Cons [symmetric] by (rule length_dropWhile_le)
    ultimately show ?thesis by (simp add: skip_invalid_def Cons)
  qed
qed

lemma utf8_loop_length: "utf8_loop l c p = Some (Some (c', r)) \<Longrightarrow> length r \<le> length p"
proof (induction l c p rule: utf8_loop.induct)
  case (3 l c b p)
  then show ?case by (auto split: if_splits)
qed auto

lemma from_utf8_length: "unicode_from_utf8 p n = Some (Some (c, r)) \<Longrightarrow> length r < length p"
  by (auto simp: unicode_from_utf8_def le_imp_less_Suc dest: utf8_loop_length
      split: list.splits if_splits option.splits)

lemma skip_cons: "length (skip_invalid (b # p)) < Suc (length p)"
  using length_skip_invalid [of "b # p"] by simp

lemma from_utf8_cons: "unicode_from_utf8 (b # p) n = Some (Some (c, r)) \<Longrightarrow> length r < Suc (length p)"
  using from_utf8_length [of "b # p" n c r] by simp

text \<open>
  The loop over the bytes that are not plain ASCII text: the code units, or \<open>None\<close> for a read
  outside the buffer.
\<close>

function string_of_utf8 :: "u8 list \<Rightarrow> js_string option" where
  "string_of_utf8 [] = Some []"
| "string_of_utf8 (b # p) =
     (if b < 128 then do { us \<leftarrow> string_of_utf8 p; Some (ucast b # us) }
      else case unicode_from_utf8 (b # p) (int (length (b # p))) of
        None \<Rightarrow> None
      | Some None \<Rightarrow> do { us \<leftarrow> string_of_utf8 (skip_invalid (b # p)); Some (0xfffd # us) }
      | Some (Some (c, r)) \<Rightarrow>
          if c < 0x10000 then do { us \<leftarrow> string_of_utf8 r; Some (ucast c # us) }
          else if c \<le> 0x10FFFF then do {
            us \<leftarrow> string_of_utf8 r;
            Some (ucast (get_hi_surrogate c) # ucast (get_lo_surrogate c) # us) }
          else do { us \<leftarrow> string_of_utf8 (skip_invalid (b # p)); Some (0xfffd # us) })"
  by pat_completeness auto

termination
  by (relation "measure length")
    (auto simp: skip_cons dest: from_utf8_cons)

definition JS_STRING_LEN_MAX :: nat where
  "JS_STRING_LEN_MAX = 2 ^ 30 - 1"

definition string_too_long :: js_error where
  "string_too_long = InternalError ''string too long''"

text \<open>
  The buffer of a string that is not ASCII starts with a byte for each byte of the text,
  is reallocated when the first unit beyond 0xFF comes, and is shrunk in the end; the last
  reallocation may fail.
\<close>

definition string_buffer_widen :: "malloc_funcs \<Rightarrow> nat \<Rightarrow> nat \<Rightarrow> unit js" where
  "string_buffer_widen mf p nbytes =
     js_try (js_realloc mf (16 + 2 * nbytes)) (js_free p) (\<lambda>_. js_return ())"

definition string_buffer_end :: "malloc_funcs \<Rightarrow> nat \<Rightarrow> js_string \<Rightarrow> js_string js" where
  "string_buffer_end mf nbytes us = (\<lambda>rt.
     (if length us < nbytes then Some (Ret us, snd (js_realloc_rt mf (17 + length us) rt)) else Some (Ret us, rt)))"

definition new_string_utf8 :: "malloc_funcs \<Rightarrow> u8 list \<Rightarrow> js_string js" where
  "new_string_utf8 mf s =
     (if count_ascii s > JS_STRING_LEN_MAX then js_throw string_too_long
      else if count_ascii s = length s then
        (if s = [] then js_return []
         else js_bind (js_malloc mf (16 + length s + 1)) (\<lambda>_. js_return (map ucast s)))
      else
        js_bind (js_malloc mf (16 + length s + 1)) (\<lambda>p.
        js_bind (js_lift (string_of_utf8 s)) (\<lambda>us.
        js_bind (if \<exists>u \<in> set us. u \<ge> 0x100 then string_buffer_widen mf p (length s) else js_return ()) (\<lambda>_.
        string_buffer_end mf (length s) us))))"

section \<open>The decoder is total\<close>

lemma utf8_loop_total: "l \<le> length p \<Longrightarrow> \<exists>r. utf8_loop l c p = Some r"
  by (induction l c p rule: utf8_loop.induct) auto

lemma from_utf8_total: "p \<noteq> [] \<Longrightarrow> \<exists>r. unicode_from_utf8 p (int (length p)) = Some r"
proof -
  assume "p \<noteq> []"
  then obtain b q where p: "p = b # q" by (cases p) auto
  show ?thesis
  proof (cases "b < 0x80")
    case False
    show ?thesis
    proof (cases "utf8_extra b")
      case (Some l)
      show ?thesis
      proof (cases "int l > int (length p) - 1")
        case False
        then have "l \<le> length q" by (simp add: p)
        from utf8_loop_total [OF this] obtain r where
          "utf8_loop l (ucast b AND utf8_first_code_mask ! (l - 1)) q = Some r" by blast
        then show ?thesis using Some
          by (auto simp: p unicode_from_utf8_def split: option.splits)
      qed (use Some in \<open>auto simp: p unicode_from_utf8_def\<close>)
    qed (auto simp: p unicode_from_utf8_def)
  qed (auto simp: p unicode_from_utf8_def)
qed

lemma string_of_utf8_total: "\<exists>us. string_of_utf8 s = Some us"
proof (induction s rule: string_of_utf8.induct)
  case (2 b p)
  from from_utf8_total [of "b # p"] obtain r where r: "unicode_from_utf8 (b # p) (int (length (b # p))) = Some r" by blast
  show ?case
  proof (cases "b < 128")
    case True
    then show ?thesis using "2.IH"(1) by auto
  next
    case False
    show ?thesis
    proof (cases r)
      case None
      with "2.IH"(2) [OF False r] False r show ?thesis by auto
    next
      case (Some cq)
      obtain c q where cq: "cq = (c, q)" by (cases cq)
      note IH = "2.IH"(3-5) [OF False r Some cq [symmetric]]
      consider "c < 0x10000" | "\<not> c < 0x10000" "c \<le> 0x10FFFF" | "\<not> c < 0x10000" "\<not> c \<le> 0x10FFFF" by blast
      then show ?thesis by cases (use IH False r Some cq in auto)
    qed
  qed
qed simp

lemma string_of_utf8_ascii: "\<forall>b \<in> set s. b < 128 \<Longrightarrow> string_of_utf8 s = Some (map ucast s)"
  by (induction s) auto

section \<open>Every string survives\<close>

lemma join_surrogates:
  fixes u v :: u16
  assumes "is_hi_surrogate (ucast u)" "is_lo_surrogate (ucast v)"
  defines "c \<equiv> from_surrogate (ucast u) (ucast v)"
  shows "0x10000 \<le> c" "c \<le> 0x10FFFF" "get_hi_surrogate c = ucast u" "get_lo_surrogate c = ucast v"
proof -
  have u: "unat (ucast u :: u32) = unat u" "unat (ucast v :: u32) = unat v" by (simp_all add: unat_ucast_up)
  have hi: "unat u div 1024 = 54" "unat v div 1024 = 55"
    using assms(1,2) unfolding is_hi_surrogate_def is_lo_surrogate_def word_unat_eq_iff unat_drop_bit_div u by simp_all
  then have r: "55296 \<le> unat u" "unat u < 56320" "56320 \<le> unat v" "unat v < 57344" by simp_all
  have c: "unat c = 65536 + 1024 * (unat u - 55296) + (unat v - 56320)"
    unfolding c_def from_surrogate_def using r
    by (simp add: unat_word_ariths unat_sub_if_size word_size u)
  show b: "0x10000 \<le> c" "c \<le> 0x10FFFF" using r c by (simp_all add: word_le_nat_alt)
  then have "c < 0x110000" by (simp add: word_le_nat_alt word_less_nat_alt)
  note v = surrogate_values [OF b(1) this]
  have "unat (get_hi_surrogate c) = unat u" unfolding v(1) c using r by simp
  then show "get_hi_surrogate c = ucast u" by (simp only: word_unat_eq_iff u)
  have "unat (get_lo_surrogate c) = unat v"
  proof -
    have "65536 + 1024 * (unat u - 55296) + (unat v - 56320) =
        (unat v - 56320) + 1024 * (64 + (unat u - 55296))" by simp
    then have "(65536 + 1024 * (unat u - 55296) + (unat v - 56320)) mod 1024 = (unat v - 56320) mod 1024"
      by (simp only: mod_mult_self2)
    also have "\<dots> = unat v - 56320" using r by simp
    finally have m: "(65536 + 1024 * (unat u - 55296) + (unat v - 56320)) mod 1024 = unat v - 56320" .
    show ?thesis unfolding v(2) c m using r by simp
  qed
  then show "get_lo_surrogate c = ucast v" by (simp only: word_unat_eq_iff u)
qed

lemma length_unicode_to_utf8_nascii:
  assumes "0x80 \<le> c" "c \<le> 0x10FFFF"
  shows "\<exists>b q. unicode_to_utf8 c = b # q \<and> \<not> b < 128"
proof -
  have "c < 0x80000000" using assms(2) by (simp add: word_le_nat_alt word_less_nat_alt)
  then obtain r where d: "unicode_from_utf8 (unicode_to_utf8 c @ []) (int (length (unicode_to_utf8 c))) = Some (Some (c, []))"
    using decode_encoded [of c "int (length (unicode_to_utf8 c))" "[]"] by simp
  then obtain b q where bq: "unicode_to_utf8 c = b # q" by (cases "unicode_to_utf8 c") (auto simp: unicode_from_utf8_def)
  have "\<not> b < 128"
  proof
    assume "b < 128"
    then have "ucast b = c" using d by (simp add: bq unicode_from_utf8_def)
    then have "unat c = unat b" using unat_ucast_u8_u32 [of b] by simp
    then show False using \<open>b < 128\<close> assms(1) by (simp add: word_le_nat_alt word_less_nat_alt)
  qed
  with bq show ?thesis by blast
qed

lemma string_of_utf8_step:
  assumes "0x80 \<le> c" "c \<le> 0x10FFFF" "string_of_utf8 t = Some us"
  shows "string_of_utf8 (unicode_to_utf8 c @ t) =
    Some ((if c < 0x10000 then [ucast c] else [ucast (get_hi_surrogate c), ucast (get_lo_surrogate c)]) @ us)"
proof -
  have c: "c < 0x80000000" using assms(2) by (simp add: word_le_nat_alt word_less_nat_alt)
  from length_unicode_to_utf8_nascii [OF assms(1,2)] obtain b q where bq: "unicode_to_utf8 c = b # q" "\<not> b < 128" by blast
  have "int (length (unicode_to_utf8 c)) \<le> int (length (b # (q @ t)))" by (simp add: bq)
  from decode_encoded [OF c this, of t]
  have "unicode_from_utf8 (b # (q @ t)) (int (length (b # (q @ t)))) = Some (Some (c, t))" by (simp add: bq)
  then show ?thesis using bq assms(2,3) by simp
qed

lemma ucast_u16_range: "(ucast (u :: u16) :: u32) \<le> 0x10FFFF" "(ucast u :: u32) < 0x10000"
  "(ucast (ucast u :: u32) :: u16) = u"
proof -
  have "unat u < 65536" using unsigned_less [of u] by simp
  moreover have "unat (ucast u :: u32) = unat u" by (rule unat_ucast_up) simp
  ultimately show "(ucast u :: u32) \<le> 0x10FFFF" "(ucast u :: u32) < 0x10000"
    by (simp_all add: word_le_nat_alt word_less_nat_alt del: unat_of_nat)
  show "(ucast (ucast u :: u32) :: u16) = u" by (rule bit_word_eqI) (simp add: bit_simps)
qed

lemma string_utf8_string: "string_of_utf8 (utf8_of_string us) = Some us"
proof (induction us rule: utf8_of_string.induct)
  case (2 u us)
  define c where "c = (ucast u :: u32)"
  show ?case
  proof (cases "c < 0x80")
    case True
    have uc: "unat c = unat u" unfolding c_def by (rule unat_ucast_up) simp
    then have u: "unat u < 128" using True by (simp add: word_less_nat_alt)
    have u8: "unat (ucast c :: u8) = unat u" using u by (simp add: unat_ucast_u8 uc)
    have "unat (ucast (ucast c :: u8) :: u16) = unat (ucast c :: u8)" by (rule unat_ucast_up) simp
    then have "(ucast (ucast c :: u8) :: u16) = u" by (simp only: word_unat_eq_iff u8)
    moreover have "(ucast c :: u8) < 128" using u u8 by (simp add: word_less_nat_alt)
    ultimately show ?thesis using True 2 by (simp add: c_def Let_def)
  next
    case False
    have c: "0x80 \<le> c" "c \<le> 0x10FFFF" "c < 0x10000" "ucast c = u"
      using False ucast_u16_range [of u] by (simp_all add: c_def not_less)
    note single = string_of_utf8_step [OF c(1,2)]
    have alone: "string_of_utf8 (unicode_to_utf8 c @ utf8_of_string us) = Some (u # us)"
      if "string_of_utf8 (utf8_of_string us) = Some us"
      using single [OF that] c by simp
    show ?thesis
    proof (cases "is_hi_surrogate c \<and> (\<exists>v vs. us = v # vs \<and> is_lo_surrogate (ucast v))")
      case True
      then obtain v vs where us: "us = v # vs" and hi: "is_hi_surrogate c" and lo: "is_lo_surrogate (ucast v)" by blast
      note j = join_surrogates [OF hi [unfolded c_def] lo]
      have IH: "string_of_utf8 (utf8_of_string vs) = Some vs" using 2 False hi lo us by (simp add: c_def)
      have e: "utf8_of_string (u # us) = unicode_to_utf8 (from_surrogate (ucast u) (ucast v)) @ utf8_of_string vs"
        using False hi lo by (simp add: c_def us Let_def)
      have "(0x80 :: u32) \<le> 0x10000" by simp
      then have "0x80 \<le> from_surrogate (ucast u) (ucast v)" using j(1) by (rule order_trans)
      from string_of_utf8_step [OF this j(2) IH] j(1) show ?thesis
        unfolding e by (simp add: us j(3,4) ucast_u16_range not_less)
    next
      case single: False
      have IH: "string_of_utf8 (utf8_of_string us) = Some us"
        using 2 False single by (cases us; cases "is_hi_surrogate c") (simp_all add: c_def)
      have e: "utf8_of_string (u # us) = unicode_to_utf8 c @ utf8_of_string us"
        using False single by (cases us; cases "is_hi_surrogate c") (simp_all add: c_def Let_def)
      show ?thesis unfolding e by (rule alone [OF IH])
    qed
  qed
qed simp

end
