(* ===== verification/Buffer.thy ===== *)
theory Buffer
  imports JsString
begin

text \<open>
  The \<open>Buffer\<close> module (\<open>src/src/lib/buffer.c\<close>): encodings, and every static and instance
  method over the array buffers of the runtime.

  A JavaScript value is a \<open>jsval\<close>: a string is its UTF-16 units (its arguments are read
  through \<open>JS_ToCStringLen\<close>, \<open>str_bytes\<close>), a number the integer that \<open>JS_ToInt64\<close> gives, a typed
  array the view (buffer, offset, length in bytes) that \<open>JS_GetTypedArrayBuffer\<close> gives.
  What the engine decides by running script code or walking objects (conversions, property
  reads, prototypes), and how large the result of \<open>memcmp\<close> is, are parameters (\<open>engine\<close>).
  Memory is read and written through the bounds of the array buffer, so an access outside
  it is \<open>None\<close>.
\<close>

section \<open>Values and the engine\<close>

datatype jsval = JUndef | JBool bool | JNum u64 | JStr js_string | JArrayBuffer nat
  | JView nat nat nat | JList "jsval list" | JObj "(string \<times> jsval) list" | JOther nat

record engine =
  to_int64 :: "jsval \<Rightarrow> js_error + u64"
  to_int32 :: "jsval \<Rightarrow> js_error + u32"
  get_length :: "jsval \<Rightarrow> jsval"
  get_index :: "jsval \<Rightarrow> u32 \<Rightarrow> jsval"
  get_proto :: "jsval \<Rightarrow> jsval"
  buffer_proto :: jsval
  memcmp_size :: "u8 list \<Rightarrow> u8 list \<Rightarrow> nat"

fun is_object :: "jsval \<Rightarrow> bool" where
  "is_object (JArrayBuffer b) = True"
| "is_object (JView b off len) = True"
| "is_object (JList xs) = True"
| "is_object (JObj fs) = True"
| "is_object (JOther p) = True"
| "is_object _ = False"

fun is_number :: "jsval \<Rightarrow> bool" where
  "is_number (JNum n) = True"
| "is_number _ = False"

fun is_string :: "jsval \<Rightarrow> bool" where
  "is_string (JStr s) = True"
| "is_string _ = False"

fun str_bytes :: "jsval \<Rightarrow> u8 list" where
  "str_bytes (JStr s) = utf8_of_string s"
| "str_bytes _ = []"

text \<open>Missing arguments read as \<open>undefined\<close>: the engine pads them to the declared number.\<close>

definition argn :: "jsval list \<Rightarrow> nat \<Rightarrow> jsval" where
  "argn argv i = (if i < length argv then argv ! i else JUndef)"

text \<open>\<open>JS_ToInt64\<close> with its result code ignored: a failure throws and stores 0.\<close>

definition ToInt64 :: "engine \<Rightarrow> jsval \<Rightarrow> u64 js" where
  "ToInt64 E v = (\<lambda>rt. case to_int64 E v of
       Inl e \<Rightarrow> Some (Ret 0, rt\<lparr>exc := Some e\<rparr>) | Inr n \<Rightarrow> Some (Ret n, rt))"

definition ToInt32 :: "engine \<Rightarrow> jsval \<Rightarrow> u32 js" where
  "ToInt32 E v = (\<lambda>rt. case to_int32 E v of
       Inl e \<Rightarrow> Some (Ret 0, rt\<lparr>exc := Some e\<rparr>) | Inr n \<Rightarrow> Some (Ret n, rt))"

text \<open>\<open>if (argc >= n && !JS_IsUndefined (argv[i])) JS_ToInt64 (&x, argv[i])\<close>, else the default.\<close>

definition opt_int64 :: "engine \<Rightarrow> jsval list \<Rightarrow> nat \<Rightarrow> nat \<Rightarrow> u64 \<Rightarrow> u64 js" where
  "opt_int64 E argv n i d =
     (if length argv \<ge> n \<and> argn argv i \<noteq> JUndef then ToInt64 E (argn argv i) else js_return d)"

text \<open>The same where the code asks for a number.\<close>

definition num_int64 :: "engine \<Rightarrow> jsval list \<Rightarrow> nat \<Rightarrow> nat \<Rightarrow> u64 \<Rightarrow> u64 js" where
  "num_int64 E argv n i d =
     (if length argv \<ge> n \<and> is_number (argn argv i) then ToInt64 E (argn argv i) else js_return d)"

text \<open>\<open>x = m; if (x) k else h\<close>, where a \<open>NULL\<close> of \<open>m\<close> is looked at.\<close>

definition js_or :: "'a js \<Rightarrow> 'b js \<Rightarrow> ('a \<Rightarrow> 'b js) \<Rightarrow> 'b js" where
  "js_or m h k = (\<lambda>rt. case m rt of
       None \<Rightarrow> None | Some (Null, rt1) \<Rightarrow> h rt1 | Some (Ret x, rt1) \<Rightarrow> k x rt1)"

definition js_null :: "'a js" where
  "js_null = (\<lambda>rt. Some (Null, rt))"

text \<open>\<open>memcmp\<close>: the standard fixes the sign only.\<close>

fun bytes_less :: "u8 list \<Rightarrow> u8 list \<Rightarrow> bool" where
  "bytes_less (x # xs) (y # ys) = (x < y \<or> x = y \<and> bytes_less xs ys)"
| "bytes_less _ _ = False"

definition memcmp :: "engine \<Rightarrow> u8 list \<Rightarrow> u8 list \<Rightarrow> int" where
  "memcmp E xs ys =
     (let k = 1 + int (memcmp_size E xs ys mod 0x7FFFFFFF)
      in if xs = ys then 0 else if bytes_less xs ys then - k else k)"

text \<open>Text literals as bytes, and the C string in a block of bytes.\<close>

definition bytes_of :: "string \<Rightarrow> u8 list" where
  "bytes_of s = map of_char s"

definition c_str :: "u8 list \<Rightarrow> u8 list" where
  "c_str s = takeWhile (\<lambda>b. b \<noteq> 0) s"

section \<open>Array buffers\<close>

definition rd_bytes :: "nat \<Rightarrow> nat \<Rightarrow> nat \<Rightarrow> u8 list js" where
  "rd_bytes b i n = (\<lambda>rt. do {
     m \<leftarrow> rd (abufs rt) b;
     xs \<leftarrow> grab m i n;
     Some (Ret xs, rt) })"

definition wr_bytes :: "nat \<Rightarrow> nat \<Rightarrow> u8 list \<Rightarrow> unit js" where
  "wr_bytes b i xs = (\<lambda>rt. do {
     m \<leftarrow> rd (abufs rt) b;
     m1 \<leftarrow> blit m i xs;
     Some (Ret (), rt\<lparr>abufs := (abufs rt)[b := m1]\<rparr>) })"

text \<open>\<open>JS_GetTypedArrayBuffer\<close> and \<open>JS_GetArrayBuffer\<close>: \<open>None\<close> is \<open>NULL\<close> after a throw.\<close>

definition js_buffer_get_bytes :: "jsval \<Rightarrow> (nat \<times> nat \<times> nat) option js" where
  "js_buffer_get_bytes v = (\<lambda>rt. case v of
       JView b off len \<Rightarrow>
         (if b < length (abufs rt) \<and> off + len \<le> length (abufs rt ! b)
          then Some (Ret (Some (b, off, len)), rt)
          else Some (Ret None, rt\<lparr>exc := Some (TypeError ''ArrayBuffer is detached or resized'')\<rparr>))
     | _ \<Rightarrow> Some (Ret None, rt\<lparr>exc := Some (TypeError ''not a TypedArray'')\<rparr>))"

definition JS_GetArrayBuffer :: "jsval \<Rightarrow> (nat \<times> nat) option js" where
  "JS_GetArrayBuffer v = (\<lambda>rt. case v of
       JArrayBuffer b \<Rightarrow>
         (if b < length (abufs rt) then Some (Ret (Some (b, length (abufs rt ! b))), rt)
          else Some (Ret None, rt\<lparr>exc := Some (TypeError ''ArrayBuffer is detached'')\<rparr>))
     | _ \<Rightarrow> Some (Ret None, rt\<lparr>exc := Some (TypeError ''ArrayBuffer object expected'')\<rparr>))"

text \<open>\<open>new Uint8Array (n)\<close>: the limits of the engine, and the zeroed data block.\<close>

definition new_u8array :: "malloc_funcs \<Rightarrow> u64 \<Rightarrow> jsval js" where
  "new_u8array mf n =
     (if n <s 0 \<or> 0x1FFFFFFFFFFFFF < n then js_throw (RangeError ''invalid array index'')
      else if 0x7FFFFFFF < n then js_throw (RangeError ''invalid array buffer length'')
      else js_bind (js_malloc mf (max (unat n) 1)) (\<lambda>_.
           (\<lambda>rt. Some (Ret (JView (length (abufs rt)) 0 (unat n)),
                       rt\<lparr>abufs := abufs rt @ [replicate (unat n) 0]\<rparr>))))"

text \<open>\<open>new Uint8Array (buffer, offset, length)\<close>.\<close>

definition view_u8array :: "nat \<Rightarrow> u64 \<Rightarrow> u64 \<Rightarrow> jsval js" where
  "view_u8array b off len = (\<lambda>rt.
     (if off <s 0 \<or> len <s 0 \<or> 0x1FFFFFFFFFFFFF < off \<or> 0x1FFFFFFFFFFFFF < len
      then js_throw (RangeError ''invalid array index'') rt
      else if \<not> b < length (abufs rt) then js_throw (TypeError ''ArrayBuffer is detached'') rt
      else if unat off + unat len > length (abufs rt ! b) then js_throw (RangeError ''invalid length'') rt
      else Some (Ret (JView b (unat off) (unat len)), rt)))"

definition js_buffer_create :: "malloc_funcs \<Rightarrow> u64 \<Rightarrow> jsval js" where
  "js_buffer_create mf n = new_u8array mf n"

definition JS_NewStringLen :: "malloc_funcs \<Rightarrow> u8 list \<Rightarrow> jsval js" where
  "JS_NewStringLen mf s =
     js_bind (new_string_utf8 mf s) (\<lambda>us. js_return (JStr us))"

section \<open>Encodings\<close>

datatype encoding = ENC_UTF8 | ENC_ASCII | ENC_LATIN1 | ENC_HEX | ENC_BASE64 | ENC_BASE64URL | ENC_UNKNOWN

definition get_encoding_id :: "u8 list option \<Rightarrow> encoding" where
  "get_encoding_id enc = (case enc of None \<Rightarrow> ENC_UTF8 | Some s0 \<Rightarrow>
     (let s = c_str s0; is = (\<lambda>t. s = bytes_of t) in
      if is ''utf8'' \<or> is ''utf-8'' \<or> is ''UTF8'' \<or> is ''UTF-8'' then ENC_UTF8
      else if is ''ascii'' \<or> is ''ASCII'' then ENC_ASCII
      else if is ''latin1'' \<or> is ''binary'' \<or> is ''Latin1'' \<or> is ''BINARY'' then ENC_LATIN1
      else if is ''hex'' \<or> is ''HEX'' then ENC_HEX
      else if is ''base64'' \<or> is ''BASE64'' then ENC_BASE64
      else if is ''base64url'' \<or> is ''BASE64URL'' then ENC_BASE64URL
      else ENC_UNKNOWN))"

definition enc_arg :: "jsval list \<Rightarrow> nat \<Rightarrow> nat \<Rightarrow> encoding" where
  "enc_arg argv n i =
     (if length argv \<ge> n \<and> is_string (argn argv i) then get_encoding_id (Some (str_bytes (argn argv i)))
      else ENC_UTF8)"

definition b64_table :: "u8 list" where
  "b64_table = bytes_of ''ABCDEFGHIJKLMNOPQRSTUVWXYZabcdefghijklmnopqrstuvwxyz0123456789+/''"

definition b64url_table :: "u8 list" where
  "b64url_table = bytes_of ''ABCDEFGHIJKLMNOPQRSTUVWXYZabcdefghijklmnopqrstuvwxyz0123456789-_''"

definition b64_decode_char :: "u8 \<Rightarrow> int" where
  "b64_decode_char ch =
     (let c = uint ch in
      if c \<ge> 65 \<and> c \<le> 90 then c - 65
      else if c \<ge> 97 \<and> c \<le> 122 then c - 97 + 26
      else if c \<ge> 48 \<and> c \<le> 57 then c - 48 + 52
      else if c = 43 \<or> c = 45 then 62
      else if c = 47 \<or> c = 95 then 63
      else - 1)"

definition b64_triple :: "u8 \<Rightarrow> u8 \<Rightarrow> u8 \<Rightarrow> u32" where
  "b64_triple a b c = push_bit 16 (ucast a) OR push_bit 8 (ucast b) OR ucast c"

definition b64_char :: "u8 list \<Rightarrow> u32 \<Rightarrow> nat \<Rightarrow> u8 option" where
  "b64_char table triple k = rd table (unat (drop_bit k triple AND 0x3F))"

fun b64_encode_loop :: "u8 list \<Rightarrow> u8 list \<Rightarrow> u8 list option" where
  "b64_encode_loop table [] = Some []"
| "b64_encode_loop table (a # rest) =
     (let b = (case rest of b # _ \<Rightarrow> b | [] \<Rightarrow> 0);
          c = (case rest of _ # c # _ \<Rightarrow> c | _ \<Rightarrow> 0);
          triple = b64_triple a b c
      in do {
        o1 \<leftarrow> b64_char table triple 18;
        o2 \<leftarrow> b64_char table triple 12;
        o3 \<leftarrow> (if length rest \<ge> 1 then b64_char table triple 6 else Some 61);
        o4 \<leftarrow> (if length rest \<ge> 2 then b64_char table triple 0 else Some 61);
        os \<leftarrow> b64_encode_loop table (drop 2 rest);
        Some (o1 # o2 # o3 # o4 # os) })"

text \<open>A block of \<open>n\<close> bytes, as the allocator left it.\<close>

definition junk_bytes :: "malloc_funcs \<Rightarrow> nat \<Rightarrow> nat \<Rightarrow> u8 list" where
  "junk_bytes mf p n = map (\<lambda>i. ucast (mf_junk mf p i)) [0..<n]"

definition js_buffer_base64_encode :: "malloc_funcs \<Rightarrow> u8 list \<Rightarrow> bool \<Rightarrow> jsval js" where
  "js_buffer_base64_encode mf src url_safe =
     (let table = (if url_safe then b64url_table else b64_table);
          out_len = 4 * ((length src + 2) div 3)
      in js_bind (js_malloc mf (out_len + 1)) (\<lambda>p.
         js_bind (js_lift (do {
             cs \<leftarrow> b64_encode_loop table src;
             out \<leftarrow> blit (junk_bytes mf p (out_len + 1)) 0 cs;
             wr out (length cs) 0 })) (\<lambda>out.
         js_try (JS_NewStringLen mf (c_str out)) (js_free p) (\<lambda>ret.
         js_bind (js_free p) (\<lambda>_. js_return ret)))))"

text \<open>The decoder: \<open>out\<close> is what is written so far into a block of \<open>cap\<close> bytes.\<close>

definition out_byte :: "nat \<Rightarrow> u8 list \<Rightarrow> u32 \<Rightarrow> u8 list option" where
  "out_byte cap out w = (if length out < cap then Some (out @ [ucast (w AND 0xFF)]) else None)"

text \<open>One group of four characters; the inner \<open>None\<close> is an invalid character.\<close>

definition b64_decode_group :: "nat \<Rightarrow> u8 list \<Rightarrow> u8 list \<Rightarrow> u8 list option option" where
  "b64_decode_group cap src out =
     (let a = b64_decode_char (src ! 0);
          b = (if length src > 1 then b64_decode_char (src ! 1) else 0);
          c = (if length src > 2 then b64_decode_char (src ! 2) else - 1);
          d = (if length src > 3 then b64_decode_char (src ! 3) else - 1)
      in if a < 0 \<or> b < 0 then Some None
         else
           let triple = (push_bit 18 (word_of_int a) OR push_bit 12 (word_of_int b) OR
                         push_bit 6 (if c \<ge> 0 then word_of_int c else 0) OR
                         (if d \<ge> 0 then word_of_int d else 0) :: u32)
           in do {
             out \<leftarrow> out_byte cap out (drop_bit 16 triple);
             out \<leftarrow> (if c \<ge> 0 then out_byte cap out (drop_bit 8 triple) else Some out);
             out \<leftarrow> (if d \<ge> 0 then out_byte cap out triple else Some out);
             Some (Some out) })"

fun b64_decode_loop :: "nat \<Rightarrow> u8 list \<Rightarrow> u8 list \<Rightarrow> u8 list option option" where
  "b64_decode_loop cap [] out = Some (Some out)"
| "b64_decode_loop cap (x # xs) out =
     (case b64_decode_group cap (x # xs) out of
        None \<Rightarrow> None
      | Some None \<Rightarrow> Some None
      | Some (Some out1) \<Rightarrow> b64_decode_loop cap (drop 3 xs) out1)"

definition strip_pad :: "u8 list \<Rightarrow> u8 list" where
  "strip_pad src = rev (dropWhile (\<lambda>c. c = 61) (rev src))"

definition js_buffer_base64_decode :: "malloc_funcs \<Rightarrow> u8 list \<Rightarrow> u8 list js" where
  "js_buffer_base64_decode mf src0 =
     (let src = strip_pad src0; alloc_size = (length src * 3 + 3) div 4
      in js_bind (js_malloc mf alloc_size) (\<lambda>p.
         js_bind (js_lift (b64_decode_loop alloc_size src [])) (\<lambda>res.
         case res of
           None \<Rightarrow> js_bind (js_free p) (\<lambda>_. js_null)
         | Some out \<Rightarrow> js_return out)))"

definition hex_chars :: "u8 list" where
  "hex_chars = bytes_of ''0123456789abcdef''"

fun hex_encode_loop :: "u8 list \<Rightarrow> u8 list option" where
  "hex_encode_loop [] = Some []"
| "hex_encode_loop (x # xs) = do {
     hi \<leftarrow> rd hex_chars (unat (drop_bit 4 x AND 0xF));
     lo \<leftarrow> rd hex_chars (unat (x AND 0xF));
     os \<leftarrow> hex_encode_loop xs;
     Some (hi # lo # os) }"

definition js_buffer_hex_encode :: "malloc_funcs \<Rightarrow> u8 list \<Rightarrow> jsval js" where
  "js_buffer_hex_encode mf src =
     js_bind (js_malloc mf (length src * 2 + 1)) (\<lambda>p.
     js_bind (js_lift (do {
         cs \<leftarrow> hex_encode_loop src;
         out \<leftarrow> blit (junk_bytes mf p (length src * 2 + 1)) 0 cs;
         wr out (length src * 2) 0 })) (\<lambda>out.
     js_try (JS_NewStringLen mf (c_str out)) (js_free p) (\<lambda>ret.
     js_bind (js_free p) (\<lambda>_. js_return ret))))"

definition hex_digit :: "u8 \<Rightarrow> u32 option" where
  "hex_digit ch =
     (let c = unat ch in
      if c \<ge> 48 \<and> c \<le> 57 then Some (of_nat (c - 48))
      else if c \<ge> 97 \<and> c \<le> 102 then Some (of_nat (c - 97 + 10))
      else if c \<ge> 65 \<and> c \<le> 70 then Some (of_nat (c - 65 + 10))
      else None)"

fun hex_decode_loop :: "u8 list \<Rightarrow> u8 list option" where
  "hex_decode_loop (x # y # rest) = do {
     hi \<leftarrow> hex_digit x;
     lo \<leftarrow> hex_digit y;
     os \<leftarrow> hex_decode_loop rest;
     Some (ucast (push_bit 4 hi OR lo) # os) }"
| "hex_decode_loop _ = Some []"

definition js_buffer_hex_decode :: "malloc_funcs \<Rightarrow> u8 list \<Rightarrow> u8 list js" where
  "js_buffer_hex_decode mf src =
     (if length src mod 2 \<noteq> 0 then js_null
      else js_bind (js_malloc mf (length src div 2)) (\<lambda>p.
           case hex_decode_loop src of
             None \<Rightarrow> js_bind (js_free p) (\<lambda>_. js_null)
           | Some out \<Rightarrow> js_return out))"

definition js_buffer_string_to_bytes :: "malloc_funcs \<Rightarrow> u8 list \<Rightarrow> encoding \<Rightarrow> u8 list js" where
  "js_buffer_string_to_bytes mf str encoding = (case encoding of
       ENC_UTF8 \<Rightarrow> js_bind (js_malloc mf (length str)) (\<lambda>_. js_return str)
     | ENC_ASCII \<Rightarrow> js_bind (js_malloc mf (length str)) (\<lambda>_. js_return str)
     | ENC_LATIN1 \<Rightarrow> js_bind (js_malloc mf (length str)) (\<lambda>_. js_return str)
     | ENC_HEX \<Rightarrow> js_buffer_hex_decode mf str
     | ENC_BASE64 \<Rightarrow> js_buffer_base64_decode mf str
     | ENC_BASE64URL \<Rightarrow> js_buffer_base64_decode mf str
     | ENC_UNKNOWN \<Rightarrow> js_null)"

definition js_buffer_bytes_to_string :: "malloc_funcs \<Rightarrow> u8 list \<Rightarrow> encoding \<Rightarrow> jsval js" where
  "js_buffer_bytes_to_string mf buf encoding = (case encoding of
       ENC_UTF8 \<Rightarrow> JS_NewStringLen mf buf
     | ENC_ASCII \<Rightarrow> JS_NewStringLen mf buf
     | ENC_LATIN1 \<Rightarrow> JS_NewStringLen mf buf
     | ENC_HEX \<Rightarrow> js_buffer_hex_encode mf buf
     | ENC_BASE64 \<Rightarrow> js_buffer_base64_encode mf buf False
     | ENC_BASE64URL \<Rightarrow> js_buffer_base64_encode mf buf True
     | ENC_UNKNOWN \<Rightarrow> js_throw (TypeError ''unsupported encoding''))"

end
