(* ===== verification/Buffer_Ops.thy ===== *)
theory Buffer_Ops
  imports Buffer
begin

text \<open>
  The static and instance methods of \<open>Buffer\<close> (\<open>src/src/lib/buffer.c\<close>) and the table by
  which the module installs them.
\<close>

section \<open>Static methods\<close>

definition js_buffer_from_string :: "malloc_funcs \<Rightarrow> jsval list \<Rightarrow> jsval js" where
  "js_buffer_from_string mf argv =
     js_or (js_buffer_string_to_bytes mf (str_bytes (argn argv 0)) (enc_arg argv 2 1))
       (js_throw (TypeError ''failed to decode string''))
       (\<lambda>bytes.
          js_try (js_buffer_create mf (of_nat (length bytes))) (js_free bytes) (\<lambda>buf.
          js_bind (js_buffer_get_bytes buf) (\<lambda>dst.
          js_bind (case dst of Some (b, off, _) \<Rightarrow> wr_bytes b off bytes | None \<Rightarrow> js_return ()) (\<lambda>_.
          js_bind (js_free bytes) (\<lambda>_. js_return buf)))))"

definition js_buffer_from_arraybuffer :: "engine \<Rightarrow> jsval list \<Rightarrow> nat \<Rightarrow> nat \<Rightarrow> jsval js" where
  "js_buffer_from_arraybuffer E argv b ab_len =
     js_bind (opt_int64 E argv 2 1 0) (\<lambda>offset.
     js_bind (opt_int64 E argv 3 2 (of_nat ab_len)) (\<lambda>len.
     if offset <s 0 \<or> len <s 0 \<or> offset + len > of_nat ab_len
     then js_throw (RangeError ''invalid offset/length'')
     else view_u8array b offset len))"

definition js_buffer_from_view :: "malloc_funcs \<Rightarrow> nat \<times> nat \<times> nat \<Rightarrow> jsval js" where
  "js_buffer_from_view mf v = (case v of (b, off, len) \<Rightarrow>
     js_bind (js_buffer_create mf (of_nat len)) (\<lambda>buf.
     js_bind (js_buffer_get_bytes buf) (\<lambda>dst.
     js_bind (case dst of
         Some (b1, off1, _) \<Rightarrow> js_bind (rd_bytes b off len) (\<lambda>xs. wr_bytes b1 off1 xs)
       | None \<Rightarrow> js_return ()) (\<lambda>_.
     js_return buf))))"

text \<open>The elements of an array-like object, converted one by one from index \<open>i\<close> on.\<close>

fun from_array_loop :: "engine \<Rightarrow> jsval \<Rightarrow> nat \<Rightarrow> nat \<Rightarrow> nat \<Rightarrow> nat \<Rightarrow> unit js" where
  "from_array_loop E arr b off i 0 = js_return ()"
| "from_array_loop E arr b off i (Suc k) =
     (let v = get_index E arr (of_nat i) in
      js_bind (if v \<noteq> JUndef
         then (case to_int32 E v of
                 Inl e \<Rightarrow> (\<lambda>rt. Some (Ret (), rt\<lparr>exc := Some e\<rparr>))
               | Inr w \<Rightarrow> wr_bytes b (off + i) [ucast w])
         else js_return ()) (\<lambda>_.
      from_array_loop E arr b off (i + 1) k))"

definition js_buffer_from_array :: "engine \<Rightarrow> malloc_funcs \<Rightarrow> jsval \<Rightarrow> jsval js" where
  "js_buffer_from_array E mf arr =
     js_bind (ToInt64 E (get_length E arr)) (\<lambda>arr_len.
     js_bind (js_buffer_create mf arr_len) (\<lambda>buf.
     js_bind (js_buffer_get_bytes buf) (\<lambda>dst.
     js_bind (case dst of
         Some (b, off, _) \<Rightarrow> from_array_loop E arr b off 0 (if arr_len <s 0 then 0 else unat arr_len)
       | None \<Rightarrow> js_return ()) (\<lambda>_.
     js_return buf))))"

definition js_buffer_from :: "engine \<Rightarrow> malloc_funcs \<Rightarrow> jsval list \<Rightarrow> jsval js" where
  "js_buffer_from E mf argv =
     (if length argv < 1 then js_throw (TypeError ''Buffer.from() requires an argument'')
      else if is_string (argn argv 0) then js_buffer_from_string mf argv
      else
        js_bind (JS_GetArrayBuffer (argn argv 0)) (\<lambda>ab. case ab of
          Some (b, ab_len) \<Rightarrow> js_buffer_from_arraybuffer E argv b ab_len
        | None \<Rightarrow>
          js_bind (js_buffer_get_bytes (argn argv 0)) (\<lambda>src. case src of
            Some v \<Rightarrow> js_buffer_from_view mf v
          | None \<Rightarrow>
            if is_object (argn argv 0) \<and> is_number (get_length E (argn argv 0))
            then js_buffer_from_array E mf (argn argv 0)
            else js_throw (TypeError ''Buffer.from(): invalid argument type''))))"

text \<open>The byte that a string fills with, 0 for an empty one.\<close>

definition first_byte :: "u8 list \<Rightarrow> u8" where
  "first_byte s = (case s of b # _ \<Rightarrow> b | [] \<Rightarrow> 0)"

text \<open>\<open>memset\<close> over a view.\<close>

definition view_fill :: "(nat \<times> nat \<times> nat) option \<Rightarrow> u8 \<Rightarrow> unit js" where
  "view_fill v x = (case v of
       Some (b, off, len) \<Rightarrow> wr_bytes b off (replicate len x) | None \<Rightarrow> js_return ())"

definition js_buffer_alloc :: "engine \<Rightarrow> malloc_funcs \<Rightarrow> jsval list \<Rightarrow> jsval js" where
  "js_buffer_alloc E mf argv =
     (case (if length argv < 1 then Inl (TypeError '''') else to_int64 E (argn argv 0)) of
        Inl _ \<Rightarrow> js_throw (TypeError ''size must be a number'')
      | Inr n \<Rightarrow>
        if n <s 0 then js_throw (RangeError ''invalid size'')
        else
          js_bind (js_buffer_create mf n) (\<lambda>buf.
          if length argv \<ge> 2 \<and> argn argv 1 \<noteq> JUndef
          then
            js_bind (case argn argv 1 of
                JStr s \<Rightarrow> js_return (first_byte (utf8_of_string s))
              | v \<Rightarrow> js_bind (ToInt32 E v) (\<lambda>w. js_return (ucast (w AND 0xFF)))) (\<lambda>fill_byte.
            js_bind (js_buffer_get_bytes buf) (\<lambda>dst.
            js_bind (view_fill dst fill_byte) (\<lambda>_. js_return buf)))
          else
            js_bind (js_buffer_get_bytes buf) (\<lambda>dst.
            js_bind (view_fill dst 0) (\<lambda>_. js_return buf))))"

definition js_buffer_allocUnsafe :: "engine \<Rightarrow> malloc_funcs \<Rightarrow> jsval list \<Rightarrow> jsval js" where
  "js_buffer_allocUnsafe E mf argv =
     (case (if length argv < 1 then Inl (TypeError '''') else to_int64 E (argn argv 0)) of
        Inl _ \<Rightarrow> js_throw (TypeError ''size must be a number'')
      | Inr n \<Rightarrow>
        if n <s 0 then js_throw (RangeError ''invalid size'') else js_buffer_create mf n)"

fun proto_search :: "engine \<Rightarrow> nat \<Rightarrow> jsval \<Rightarrow> bool" where
  "proto_search E 0 proto = False"
| "proto_search E (Suc depth) proto =
     (if is_object proto
      then (if proto = buffer_proto E then True else proto_search E depth (get_proto E proto))
      else False)"

definition js_buffer_isBuffer :: "engine \<Rightarrow> jsval list \<Rightarrow> jsval js" where
  "js_buffer_isBuffer E argv =
     (if length argv < 1 \<or> \<not> is_object (argn argv 0) then js_return (JBool False)
      else if \<not> is_object (buffer_proto E) then js_return (JBool False)
      else js_return (JBool (proto_search E 10 (get_proto E (argn argv 0)))))"

text \<open>The two passes over the list: the total length, and the copy until it is full.\<close>

fun concat_total :: "engine \<Rightarrow> jsval \<Rightarrow> nat \<Rightarrow> nat \<Rightarrow> u64 \<Rightarrow> u64 js" where
  "concat_total E xs i 0 tot = js_return tot"
| "concat_total E xs i (Suc k) tot =
     js_bind (js_buffer_get_bytes (get_index E xs (of_nat i))) (\<lambda>p.
     concat_total E xs (i + 1) k
       (case p of Some (_, _, len) \<Rightarrow> tot + of_nat len | None \<Rightarrow> tot))"

fun concat_copy :: "engine \<Rightarrow> jsval \<Rightarrow> (nat \<times> nat \<times> nat) option \<Rightarrow> nat \<Rightarrow> nat \<Rightarrow> nat \<Rightarrow> nat \<Rightarrow> unit js" where
  "concat_copy E xs dst tot i 0 offset = js_return ()"
| "concat_copy E xs dst tot i (Suc k) offset =
     (if offset < tot then
        js_bind (js_buffer_get_bytes (get_index E xs (of_nat i))) (\<lambda>src.
        case (src, dst) of
          (Some (b, off, len), Some (b1, off1, _)) \<Rightarrow>
            let to_copy = (if offset + len \<le> tot then len else tot - offset) in
            js_bind (rd_bytes b off to_copy) (\<lambda>bytes.
            js_bind (wr_bytes b1 (off1 + offset) bytes) (\<lambda>_.
            concat_copy E xs dst tot (i + 1) k (offset + to_copy)))
        | _ \<Rightarrow> concat_copy E xs dst tot (i + 1) k offset)
      else js_return ())"

definition js_buffer_concat :: "engine \<Rightarrow> malloc_funcs \<Rightarrow> jsval list \<Rightarrow> jsval js" where
  "js_buffer_concat E mf argv =
     (if length argv < 1 then js_throw (TypeError ''list required'')
      else
        let xs = argn argv 0 in
        js_bind (ToInt64 E (get_length E xs)) (\<lambda>count.
        if count \<le>s 0 then js_buffer_create mf 0
        else
          js_bind (opt_int64 E argv 2 1 (- 1)) (\<lambda>tot.
          js_bind (if tot <s 0 then concat_total E xs 0 (unat count) 0 else js_return tot) (\<lambda>tot.
          js_bind (js_buffer_create mf tot) (\<lambda>result.
          js_bind (js_buffer_get_bytes result) (\<lambda>dst.
          js_bind (concat_copy E xs dst (unat tot) 0 (unat count) 0) (\<lambda>_.
          js_return result)))))))"

definition js_buffer_byteLength :: "malloc_funcs \<Rightarrow> jsval list \<Rightarrow> jsval js" where
  "js_buffer_byteLength mf argv =
     (if length argv < 1 then js_throw (TypeError ''argument required'')
      else
        js_bind (js_buffer_get_bytes (argn argv 0)) (\<lambda>p. case p of
          Some (_, _, len) \<Rightarrow> js_return (JNum (of_nat len))
        | None \<Rightarrow>
          js_bind (JS_GetArrayBuffer (argn argv 0)) (\<lambda>p. case p of
            Some (_, ab_len) \<Rightarrow> js_return (JNum (of_nat ab_len))
          | None \<Rightarrow>
            if is_string (argn argv 0) then
              let encoding = enc_arg argv 2 1; str = str_bytes (argn argv 0) in
              if encoding = ENC_UTF8 \<or> encoding = ENC_ASCII \<or> encoding = ENC_LATIN1
              then js_return (JNum (of_nat (length str)))
              else
                js_or (js_buffer_string_to_bytes mf str encoding)
                  (js_throw (TypeError ''failed to compute byte length''))
                  (\<lambda>bytes. js_bind (js_free bytes) (\<lambda>_. js_return (JNum (of_nat (length bytes)))))
            else js_throw (TypeError ''cannot determine byte length''))))"

text \<open>Two views as byte strings; \<open>None\<close> when one of them is no view.\<close>

definition two_views :: "jsval \<Rightarrow> jsval \<Rightarrow> (u8 list \<times> u8 list) option js" where
  "two_views v1 v2 =
     js_bind (js_buffer_get_bytes v1) (\<lambda>p1.
     js_bind (js_buffer_get_bytes v2) (\<lambda>p2.
     case (p1, p2) of
       (Some (b1, off1, len1), Some (b2, off2, len2)) \<Rightarrow>
         js_bind (rd_bytes b1 off1 len1) (\<lambda>xs.
         js_bind (rd_bytes b2 off2 len2) (\<lambda>ys. js_return (Some (xs, ys))))
     | _ \<Rightarrow> js_return None))"

definition compare_bytes :: "engine \<Rightarrow> u8 list \<Rightarrow> u8 list \<Rightarrow> int" where
  "compare_bytes E xs ys =
     (let min_len = min (length xs) (length ys); cmp = memcmp E (take min_len xs) (take min_len ys)
      in if cmp = 0 then of_bool (length xs > length ys) - of_bool (length xs < length ys) else cmp)"

definition js_buffer_compare_static :: "engine \<Rightarrow> jsval list \<Rightarrow> jsval js" where
  "js_buffer_compare_static E argv =
     (if length argv < 2 then js_throw (TypeError ''need two buffers'')
      else js_bind (two_views (argn argv 0) (argn argv 1)) (\<lambda>p. case p of
          None \<Rightarrow> js_throw (TypeError ''arguments must be Buffers'')
        | Some (xs, ys) \<Rightarrow> js_return (JNum (word_of_int (compare_bytes E xs ys)))))"

section \<open>Ranges and copies\<close>

definition js_buffer_toString :: "engine \<Rightarrow> malloc_funcs \<Rightarrow> jsval \<Rightarrow> jsval list \<Rightarrow> jsval js" where
  "js_buffer_toString E mf this argv =
     js_bind (js_buffer_get_bytes this) (\<lambda>p. case p of
       None \<Rightarrow> js_throw (TypeError ''not a Buffer'')
     | Some (b, off, len) \<Rightarrow>
         js_bind (opt_int64 E argv 2 1 0) (\<lambda>start.
         js_bind (opt_int64 E argv 3 2 (of_nat len)) (\<lambda>fin.
         let start = (if start <s 0 then 0 else start);
             fin = (if of_nat len <s fin then of_nat len else fin)
         in if fin \<le>s start then JS_NewStringLen mf []
            else js_bind (rd_bytes b (off + unat start) (unat (fin - start))) (\<lambda>bytes.
                 js_buffer_bytes_to_string mf bytes (enc_arg argv 1 0)))))"

text \<open>Relative positions made absolute and clamped, as \<open>slice\<close> and \<open>subarray\<close> do it.\<close>

definition slice_range :: "nat \<Rightarrow> u64 \<Rightarrow> u64 \<Rightarrow> u64 \<times> u64" where
  "slice_range len start0 fin0 =
     (let start = (if start0 <s 0 then start0 + of_nat len else start0);
          fin = (if fin0 <s 0 then fin0 + of_nat len else fin0);
          start = (if start <s 0 then 0 else start);
          fin = (if of_nat len <s fin then of_nat len else fin)
      in (start, fin))"

text \<open>The code tests the second argument before it converts the first one.\<close>

definition js_buffer_slice :: "engine \<Rightarrow> malloc_funcs \<Rightarrow> jsval \<Rightarrow> jsval list \<Rightarrow> jsval js" where
  "js_buffer_slice E mf this argv =
     js_bind (js_buffer_get_bytes this) (\<lambda>p. case p of
       None \<Rightarrow> js_throw (TypeError ''not a Buffer'')
     | Some (b, off, len) \<Rightarrow>
         js_bind (if length argv \<ge> 1 \<and> argn argv 1 \<noteq> JUndef then ToInt64 E (argn argv 0)
                  else js_return 0) (\<lambda>start.
         js_bind (opt_int64 E argv 2 1 (of_nat len)) (\<lambda>fin.
         let (start, fin) = slice_range len start fin
         in if fin \<le>s start then js_buffer_create mf 0
            else
              js_bind (js_buffer_create mf (fin - start)) (\<lambda>buf.
              js_bind (js_buffer_get_bytes buf) (\<lambda>dst.
              js_bind (case dst of
                  Some (b1, off1, _) \<Rightarrow>
                    js_bind (rd_bytes b (off + unat start) (unat (fin - start))) (\<lambda>xs. wr_bytes b1 off1 xs)
                | None \<Rightarrow> js_return ()) (\<lambda>_.
              js_return buf))))))"

definition js_buffer_subarray :: "engine \<Rightarrow> malloc_funcs \<Rightarrow> jsval \<Rightarrow> jsval list \<Rightarrow> jsval js" where
  "js_buffer_subarray E mf this argv =
     js_bind (js_buffer_get_bytes this) (\<lambda>p. case p of
       None \<Rightarrow> js_throw (TypeError ''not a Buffer'')
     | Some (b, off, len) \<Rightarrow>
         js_bind (opt_int64 E argv 1 0 0) (\<lambda>start.
         js_bind (opt_int64 E argv 2 1 (of_nat len)) (\<lambda>fin.
         let (start, fin) = slice_range len start fin
         in if fin \<le>s start then js_buffer_create mf 0
            else view_u8array b (of_nat off + start) (fin - start))))"

text \<open>The end of \<open>write\<close>, once the bytes and the numbers are there.\<close>

definition write_at :: "nat \<Rightarrow> nat \<Rightarrow> nat \<Rightarrow> u8 list \<Rightarrow> u64 \<Rightarrow> u64 \<Rightarrow> jsval js" where
  "write_at b off buf_len bytes offset len =
     (if offset <s 0 \<or> offset \<ge> of_nat buf_len
      then js_bind (js_free bytes) (\<lambda>_. js_return (JNum 0))
      else
        let byte_len = of_nat (length bytes) :: u64;
            to_write = (if len < byte_len then len else byte_len);
            to_write = (if offset + to_write > of_nat buf_len then of_nat buf_len - offset else to_write)
        in js_bind (js_lift (grab bytes 0 (unat to_write))) (\<lambda>xs.
           js_bind (wr_bytes b (off + unat offset) xs) (\<lambda>_.
           js_bind (js_free bytes) (\<lambda>_.
           js_return (JNum (scast (ucast to_write :: u32)))))))"

definition js_buffer_write :: "engine \<Rightarrow> malloc_funcs \<Rightarrow> jsval \<Rightarrow> jsval list \<Rightarrow> jsval js" where
  "js_buffer_write E mf this argv =
     (if length argv < 1 \<or> \<not> is_string (argn argv 0) then js_throw (TypeError ''string required'')
      else
        js_or (js_buffer_string_to_bytes mf (str_bytes (argn argv 0)) (enc_arg argv 4 3))
          (js_throw (TypeError ''encoding failed''))
          (\<lambda>bytes.
             js_bind (js_buffer_get_bytes this) (\<lambda>p. case p of
               None \<Rightarrow> js_bind (js_free bytes) (\<lambda>_. js_throw (TypeError ''not a Buffer''))
             | Some (b, off, buf_len) \<Rightarrow>
                 js_bind (opt_int64 E argv 2 1 0) (\<lambda>offset.
                 js_bind (opt_int64 E argv 3 2 (of_nat (length bytes))) (\<lambda>len.
                 write_at b off buf_len bytes offset len)))))"

definition js_buffer_fill :: "engine \<Rightarrow> jsval \<Rightarrow> jsval list \<Rightarrow> jsval js" where
  "js_buffer_fill E this argv =
     (if length argv < 1 then js_throw (TypeError ''value required'')
      else
        js_bind (js_buffer_get_bytes this) (\<lambda>p. case p of
          None \<Rightarrow> js_throw (TypeError ''not a Buffer'')
        | Some (b, off, buf_len) \<Rightarrow>
            js_bind (case argn argv 0 of
                JStr s \<Rightarrow> js_return (first_byte (utf8_of_string s))
              | JNum n \<Rightarrow> js_bind (ToInt32 E (JNum n)) (\<lambda>w. js_return (ucast (w AND 0xFF)))
              | _ \<Rightarrow> js_return 0) (\<lambda>fill_byte.
            js_bind (num_int64 E argv 2 1 0) (\<lambda>start.
            js_bind (num_int64 E argv 3 2 (of_nat buf_len)) (\<lambda>fin.
            let start = (if start <s 0 then 0 else start);
                fin = (if of_nat buf_len <s fin then of_nat buf_len else fin)
            in js_bind (if start <s fin
                 then wr_bytes b (off + unat start) (replicate (unat (fin - start)) fill_byte)
                 else js_return ()) (\<lambda>_.
               js_return this))))))"

text \<open>The length of the copy is a \<open>size_t\<close>: nothing keeps the subtractions from wrapping.\<close>

definition js_buffer_copy :: "engine \<Rightarrow> jsval \<Rightarrow> jsval list \<Rightarrow> jsval js" where
  "js_buffer_copy E this argv =
     (if length argv < 1 then js_throw (TypeError ''target required'')
      else
        js_bind (js_buffer_get_bytes this) (\<lambda>src.
        js_bind (js_buffer_get_bytes (argn argv 0)) (\<lambda>tgt.
        case (src, tgt) of
          (Some (b, off, src_len), Some (b1, off1, tgt_len)) \<Rightarrow>
            js_bind (opt_int64 E argv 2 1 0) (\<lambda>tgt_start.
            js_bind (opt_int64 E argv 3 2 0) (\<lambda>src_start.
            js_bind (opt_int64 E argv 4 3 (of_nat src_len)) (\<lambda>src_end.
            let src_start = (if src_start <s 0 then 0 else src_start);
                src_end = (if of_nat src_len <s src_end then of_nat src_len else src_end);
                tgt_start = (if tgt_start <s 0 then 0 else tgt_start);
                copy_len = src_end - src_start;
                copy_len = (if tgt_start + copy_len > of_nat tgt_len then of_nat tgt_len - tgt_start
                            else copy_len)
            in js_bind (if copy_len > 0
                 then js_bind (rd_bytes b (off + unat src_start) (unat copy_len)) (\<lambda>xs.
                      wr_bytes b1 (off1 + unat tgt_start) xs)
                 else js_return ()) (\<lambda>_.
               js_return (JNum (scast (ucast copy_len :: u32)))))))
        | _ \<Rightarrow> js_throw (TypeError ''arguments must be Buffers''))))"

definition js_buffer_equals :: "engine \<Rightarrow> jsval \<Rightarrow> jsval list \<Rightarrow> jsval js" where
  "js_buffer_equals E this argv =
     (if length argv < 1 then js_return (JBool False)
      else js_bind (two_views this (argn argv 0)) (\<lambda>p. case p of
          None \<Rightarrow> js_return (JBool False)
        | Some (xs, ys) \<Rightarrow>
            js_return (JBool (length xs = length ys \<and> memcmp E xs ys = 0))))"

definition js_buffer_compare_inst :: "engine \<Rightarrow> jsval \<Rightarrow> jsval list \<Rightarrow> jsval js" where
  "js_buffer_compare_inst E this argv =
     (if length argv < 1 then js_throw (TypeError ''argument required'')
      else js_bind (two_views this (argn argv 0)) (\<lambda>p. case p of
          None \<Rightarrow> js_throw (TypeError ''arguments must be Buffers'')
        | Some (xs, ys) \<Rightarrow> js_return (JNum (word_of_int (compare_bytes E xs ys)))))"

section \<open>Searching\<close>

text \<open>
  The first of the next \<open>k\<close> indices from \<open>i\<close> on at which the test holds; a test that reads
  outside its objects is \<open>None\<close>.
\<close>

fun scan_index :: "(nat \<Rightarrow> bool option) \<Rightarrow> nat \<Rightarrow> nat \<Rightarrow> nat option option" where
  "scan_index P i 0 = Some None"
| "scan_index P i (Suc k) = do {
     found \<leftarrow> P i;
     if found then Some (Some i) else scan_index P (i + 1) k }"

definition byte_at :: "u8 list \<Rightarrow> u8 \<Rightarrow> nat \<Rightarrow> bool option" where
  "byte_at buf x i = do { y \<leftarrow> rd buf i; Some (y = x) }"

definition needle_at :: "u8 list \<Rightarrow> u8 list \<Rightarrow> nat \<Rightarrow> bool option" where
  "needle_at buf needle i = do {
     x \<leftarrow> rd buf i;
     y \<leftarrow> rd needle 0;
     if x = y then do { xs \<leftarrow> grab buf i (length needle); Some (xs = needle) } else Some False }"

fun index_result :: "nat option \<Rightarrow> jsval" where
  "index_result None = JNum (- 1)"
| "index_result (Some i) = JNum (of_nat i)"

definition find_needle :: "u8 list \<Rightarrow> u8 list \<Rightarrow> nat \<Rightarrow> nat option option" where
  "find_needle buf needle offset =
     (if needle = [] then Some (Some offset)
      else if length needle \<le> length buf
           then scan_index (needle_at buf needle) offset (length buf + 1 - length needle - offset)
           else Some None)"

definition js_buffer_indexOf :: "engine \<Rightarrow> malloc_funcs \<Rightarrow> jsval \<Rightarrow> jsval list \<Rightarrow> jsval js" where
  "js_buffer_indexOf E mf this argv =
     (if length argv < 1 then js_return (JNum (- 1))
      else
        js_bind (js_buffer_get_bytes this) (\<lambda>p. case p of
          None \<Rightarrow> js_return (JNum (- 1))
        | Some (b, off, buf_len) \<Rightarrow>
            js_bind (rd_bytes b off buf_len) (\<lambda>buf.
            js_bind (num_int64 E argv 2 1 0) (\<lambda>offset.
            let offset = unat (if offset <s 0 then 0 else offset) in
            case argn argv 0 of
              JNum n \<Rightarrow>
                js_bind (ToInt32 E (JNum n)) (\<lambda>w.
                js_bind (js_lift (scan_index (byte_at buf (ucast (w AND 0xFF))) offset (buf_len - offset))) (\<lambda>r.
                js_return (index_result r)))
            | JStr s \<Rightarrow>
                js_or (js_buffer_string_to_bytes mf (utf8_of_string s) (enc_arg argv 3 2))
                  (js_return (JNum (- 1)))
                  (\<lambda>needle.
                     js_bind (js_lift (find_needle buf needle offset)) (\<lambda>r.
                     js_bind (js_free needle) (\<lambda>_. js_return (index_result r))))
            | v \<Rightarrow>
                js_bind (js_buffer_get_bytes v) (\<lambda>q. case q of
                  None \<Rightarrow> js_return (JNum (- 1))
                | Some (b1, off1, len1) \<Rightarrow>
                    js_bind (rd_bytes b1 off1 len1) (\<lambda>needle.
                    js_bind (js_lift (find_needle buf needle offset)) (\<lambda>r.
                    js_return (index_result r))))))))"

definition js_buffer_includes :: "engine \<Rightarrow> malloc_funcs \<Rightarrow> jsval \<Rightarrow> jsval list \<Rightarrow> jsval js" where
  "js_buffer_includes E mf this argv =
     js_bind (js_buffer_indexOf E mf this argv) (\<lambda>idx.
     case idx of
       JNum v \<Rightarrow> js_return (JBool (0 \<le>s v))
     | _ \<Rightarrow> js_bind (ToInt64 E idx) (\<lambda>v. js_return (JBool (0 \<le>s v))))"

section \<open>Elements and numbers\<close>

definition js_buffer_toJSON :: "jsval \<Rightarrow> jsval js" where
  "js_buffer_toJSON this =
     js_bind (js_buffer_get_bytes this) (\<lambda>p. case p of
       None \<Rightarrow> js_throw (TypeError ''not a Buffer'')
     | Some (b, off, len) \<Rightarrow>
         js_bind (rd_bytes b off len) (\<lambda>bytes.
         js_return (JObj [(''type'', JStr (map of_char ''Buffer'')),
                          (''data'', JList (map (\<lambda>x. JNum (ucast x)) bytes))])))"

text \<open>The inner loop exchanges the ends of an element, moving inwards from \<open>j\<close>.\<close>

fun swap_inner :: "u8 list \<Rightarrow> nat \<Rightarrow> nat \<Rightarrow> nat \<Rightarrow> nat \<Rightarrow> u8 list option" where
  "swap_inner p i elem_size j 0 = Some p"
| "swap_inner p i elem_size j (Suc k) = do {
     tmp \<leftarrow> rd p (i + j);
     x \<leftarrow> rd p (i + elem_size - 1 - j);
     p \<leftarrow> wr p (i + j) x;
     p \<leftarrow> wr p (i + elem_size - 1 - j) tmp;
     swap_inner p i elem_size (j + 1) k }"

fun swap_outer :: "u8 list \<Rightarrow> nat \<Rightarrow> nat \<Rightarrow> nat \<Rightarrow> u8 list option" where
  "swap_outer p i elem_size 0 = Some p"
| "swap_outer p i elem_size (Suc k) = do {
     p \<leftarrow> swap_inner p i elem_size 0 (elem_size div 2);
     swap_outer p (i + elem_size) elem_size k }"

definition js_buffer_swap :: "jsval \<Rightarrow> nat \<Rightarrow> jsval js" where
  "js_buffer_swap this elem_size =
     js_bind (js_buffer_get_bytes this) (\<lambda>p. case p of
       None \<Rightarrow> js_throw (TypeError ''not a Buffer'')
     | Some (b, off, len) \<Rightarrow>
         if len mod elem_size \<noteq> 0
         then js_throw (RangeError ''Buffer size must be a multiple of the element size'')
         else js_bind (rd_bytes b off len) (\<lambda>bytes.
              js_bind (js_lift (swap_outer bytes 0 elem_size (len div elem_size))) (\<lambda>bytes.
              js_bind (wr_bytes b off bytes) (\<lambda>_.
              js_return this))))"

definition read_be :: "u8 list \<Rightarrow> u64" where
  "read_be src = foldl (\<lambda>val x. push_bit 8 val OR ucast x) 0 src"

definition js_buffer_readUInt :: "engine \<Rightarrow> jsval \<Rightarrow> jsval list \<Rightarrow> nat \<Rightarrow> jsval js" where
  "js_buffer_readUInt E this argv magic =
     (let bits = magic div 16; big_endian = odd magic in
      js_bind (js_buffer_get_bytes this) (\<lambda>p. case p of
        None \<Rightarrow> js_throw (TypeError ''not a Buffer'')
      | Some (b, off, len) \<Rightarrow>
          js_bind (opt_int64 E argv 1 0 0) (\<lambda>offset.
          let nbytes = bits div 8 in
          if offset <s 0 \<or> offset + of_nat nbytes > of_nat len then js_throw (RangeError ''out of range'')
          else
            js_bind (rd_bytes b (off + unat offset) nbytes) (\<lambda>src.
            let val = read_be (if big_endian then src else rev src)
            in js_return (if bits \<le> 32 then JNum (scast (ucast (val AND 0xFFFFFFFF) :: u32))
                          else JNum val)))))"

definition js_buffer_writeUInt :: "engine \<Rightarrow> jsval \<Rightarrow> jsval list \<Rightarrow> nat \<Rightarrow> jsval js" where
  "js_buffer_writeUInt E this argv magic =
     (let bits = magic div 16; big_endian = odd magic in
      js_bind (js_buffer_get_bytes this) (\<lambda>p. case p of
        None \<Rightarrow> js_throw (TypeError ''not a Buffer'')
      | Some (b, off, len) \<Rightarrow>
          if length argv < 2 then js_throw (TypeError ''need value and offset'')
          else
            js_bind (ToInt64 E (argn argv 0)) (\<lambda>val.
            js_bind (ToInt64 E (argn argv 1)) (\<lambda>offset.
            let nbytes = bits div 8 in
            if offset <s 0 \<or> offset + of_nat nbytes > of_nat len then js_throw (RangeError ''out of range'')
            else
              let bytes = le_bytes nbytes val in
              js_bind (wr_bytes b (off + unat offset) (if big_endian then rev bytes else bytes)) (\<lambda>_.
              js_return this)))))"

section \<open>The method table\<close>

datatype buffer_op = BAlloc | BAllocUnsafe | BFrom | BIsBuffer | BConcat | BByteLength | BCompareStatic
  | BToString | BSlice | BSubarray | BWrite | BFill | BCopy | BEquals | BCompare | BIndexOf | BIncludes
  | BToJSON | BSwap nat | BReadUInt nat | BWriteUInt nat

fun buffer_call :: "buffer_op \<Rightarrow> engine \<Rightarrow> malloc_funcs \<Rightarrow> jsval \<Rightarrow> jsval list \<Rightarrow> jsval js" where
  "buffer_call BAlloc E mf this argv = js_buffer_alloc E mf argv"
| "buffer_call BAllocUnsafe E mf this argv = js_buffer_allocUnsafe E mf argv"
| "buffer_call BFrom E mf this argv = js_buffer_from E mf argv"
| "buffer_call BIsBuffer E mf this argv = js_buffer_isBuffer E argv"
| "buffer_call BConcat E mf this argv = js_buffer_concat E mf argv"
| "buffer_call BByteLength E mf this argv = js_buffer_byteLength mf argv"
| "buffer_call BCompareStatic E mf this argv = js_buffer_compare_static E argv"
| "buffer_call BToString E mf this argv = js_buffer_toString E mf this argv"
| "buffer_call BSlice E mf this argv = js_buffer_slice E mf this argv"
| "buffer_call BSubarray E mf this argv = js_buffer_subarray E mf this argv"
| "buffer_call BWrite E mf this argv = js_buffer_write E mf this argv"
| "buffer_call BFill E mf this argv = js_buffer_fill E this argv"
| "buffer_call BCopy E mf this argv = js_buffer_copy E this argv"
| "buffer_call BEquals E mf this argv = js_buffer_equals E this argv"
| "buffer_call BCompare E mf this argv = js_buffer_compare_inst E this argv"
| "buffer_call BIndexOf E mf this argv = js_buffer_indexOf E mf this argv"
| "buffer_call BIncludes E mf this argv = js_buffer_includes E mf this argv"
| "buffer_call BToJSON E mf this argv = js_buffer_toJSON this"
| "buffer_call (BSwap k) E mf this argv = js_buffer_swap this k"
| "buffer_call (BReadUInt m) E mf this argv = js_buffer_readUInt E this argv m"
| "buffer_call (BWriteUInt m) E mf this argv = js_buffer_writeUInt E this argv m"

text \<open>The methods of the prototype and of the constructor, as \<open>js_buffer_init\<close> installs them.\<close>

definition buffer_proto_methods :: "(string \<times> buffer_op) list" where
  "buffer_proto_methods =
    [(''toString'', BToString), (''slice'', BSlice), (''subarray'', BSubarray), (''write'', BWrite),
     (''fill'', BFill), (''copy'', BCopy), (''equals'', BEquals), (''compare'', BCompare),
     (''indexOf'', BIndexOf), (''includes'', BIncludes), (''toJSON'', BToJSON),
     (''swap16'', BSwap 2), (''swap32'', BSwap 4), (''swap64'', BSwap 8),
     (''readUInt8'', BReadUInt (8 * 16)), (''writeUInt8'', BWriteUInt (8 * 16)),
     (''readUInt16BE'', BReadUInt (16 * 16 + 1)), (''readUInt16LE'', BReadUInt (16 * 16 + 0)),
     (''writeUInt16BE'', BWriteUInt (16 * 16 + 1)), (''writeUInt16LE'', BWriteUInt (16 * 16 + 0)),
     (''readUInt32BE'', BReadUInt (32 * 16 + 1)), (''readUInt32LE'', BReadUInt (32 * 16 + 0)),
     (''writeUInt32BE'', BWriteUInt (32 * 16 + 1)), (''writeUInt32LE'', BWriteUInt (32 * 16 + 0)),
     (''readInt32BE'', BReadUInt (32 * 16 + 1)), (''readInt32LE'', BReadUInt (32 * 16 + 0)),
     (''writeInt32BE'', BWriteUInt (32 * 16 + 1)), (''writeInt32LE'', BWriteUInt (32 * 16 + 0))]"

definition buffer_static_methods :: "(string \<times> buffer_op) list" where
  "buffer_static_methods =
    [(''Buffer'', BAlloc), (''from'', BFrom), (''alloc'', BAlloc), (''allocUnsafe'', BAllocUnsafe),
     (''isBuffer'', BIsBuffer), (''concat'', BConcat), (''byteLength'', BByteLength),
     (''compare'', BCompareStatic)]"

end
