(* ===== verification/Buffer_Codec.thy ===== *)
theory Buffer_Codec
  imports Buffer
begin

text \<open>
  The encodings of \<open>buffer.c\<close>: what an encoder writes fits its block, and the decoder gives
  the bytes back, inside a block of the size it computes from the text.
\<close>

section \<open>Hexadecimal\<close>

lemma nibble_char:
  "n < 16 \<Longrightarrow> \<exists>c. rd hex_chars n = Some c \<and> hex_digit c = Some (of_nat n) \<and> c \<noteq> 0 \<and> c < 128"
proof -
  assume "n < 16"
  then have "n \<in> set [0..<16]" by simp
  moreover have "\<forall>n \<in> set [0..<16]. \<exists>c. rd hex_chars n = Some c \<and> hex_digit c = Some (of_nat n) \<and> c \<noteq> 0 \<and> c < 128"
    by (simp add: upt_rec hex_chars_def bytes_of_def rd_def hex_digit_def)
  ultimately show ?thesis by blast
qed

lemma nibbles:
  "unat (drop_bit 4 x AND 0xF :: u8) < 16" "unat (x AND 0xF) < 16"
  "ucast (push_bit 4 (of_nat (unat (drop_bit 4 x AND 0xF))) OR of_nat (unat (x AND 0xF)) :: u32) = (x :: u8)"
proof -
  have m: "w AND 0xF = take_bit 4 w" for w :: u8 by (simp add: take_bit_eq_mask mask_eq_exp_minus_1)
  show "unat (drop_bit 4 x AND 0xF :: u8) < 16" "unat (x AND 0xF) < 16"
    unfolding m unat_take_bit_mod by simp_all
  show "ucast (push_bit 4 (of_nat (unat (drop_bit 4 x AND 0xF))) OR of_nat (unat (x AND 0xF)) :: u32) = x"
    unfolding m of_nat_unat by (rule bit_word_eqI) (auto simp: bit_simps)
qed

lemma hex_roundtrip_loop:
  "\<exists>s. hex_encode_loop bs = Some s \<and> length s = 2 * length bs \<and> (\<forall>c \<in> set s. c \<noteq> 0 \<and> c < 128) \<and>
     hex_decode_loop s = Some bs"
proof (induction bs)
  case (Cons x xs)
  then obtain s where s: "hex_encode_loop xs = Some s" "length s = 2 * length xs"
    "\<forall>c \<in> set s. c \<noteq> 0 \<and> c < 128" "hex_decode_loop s = Some xs" by blast
  obtain h where h: "rd hex_chars (unat (drop_bit 4 x AND 0xF)) = Some h"
    "hex_digit h = Some (of_nat (unat (drop_bit 4 x AND 0xF)))" "h \<noteq> 0 \<and> h < 128"
    using nibble_char [OF nibbles(1)] by blast
  obtain l where l: "rd hex_chars (unat (x AND 0xF)) = Some l"
    "hex_digit l = Some (of_nat (unat (x AND 0xF)))" "l \<noteq> 0 \<and> l < 128"
    using nibble_char [OF nibbles(2)] by blast
  have e: "hex_encode_loop (x # xs) = Some (h # l # s)"
    by (simp only: hex_encode_loop.simps h(1) l(1) s(1) Option.bind.simps)
  have d: "hex_decode_loop (h # l # s) = Some (x # xs)"
    by (simp only: hex_decode_loop.simps h(2) l(2) s(4) Option.bind.simps nibbles(3))
  have "length (h # l # s) = 2 * length (x # xs)" "\<forall>c \<in> set (h # l # s). c \<noteq> 0 \<and> c < 128"
    using s h(3) l(3) by simp_all
  with e d show ?case by blast
qed simp

section \<open>Base64\<close>

lemma sextet_char:
  assumes "n < 64" "table = b64_table \<or> table = b64url_table"
  shows "\<exists>c. rd table n = Some c \<and> b64_decode_char c = int n \<and> c \<noteq> 0 \<and> c \<noteq> 61 \<and> c < 128"
proof -
  have "n \<in> set [0..<64]" using assms(1) by simp
  moreover have "\<forall>n \<in> set [0..<64]. \<exists>c. rd b64_table n = Some c \<and> b64_decode_char c = int n \<and> c \<noteq> 0 \<and> c \<noteq> 61 \<and> c < 128"
    by (simp add: upt_rec b64_table_def bytes_of_def rd_def b64_decode_char_def)
  moreover have "\<forall>n \<in> set [0..<64]. \<exists>c. rd b64url_table n = Some c \<and> b64_decode_char c = int n \<and> c \<noteq> 0 \<and> c \<noteq> 61 \<and> c < 128"
    by (simp add: upt_rec b64url_table_def bytes_of_def rd_def b64_decode_char_def)
  ultimately show ?thesis using assms(2) by blast
qed

lemma sextet: "w AND 0x3F = take_bit 6 (w :: u32)"
  by (simp add: take_bit_eq_mask mask_eq_exp_minus_1)

lemma octet: "w AND 0xFF = take_bit 8 (w :: u32)"
  by (simp add: take_bit_eq_mask mask_eq_exp_minus_1)

lemma b64_char_spec:
  assumes "table = b64_table \<or> table = b64url_table"
  obtains c where "b64_char table t k = Some c" "b64_decode_char c = uint (take_bit 6 (drop_bit k t))"
    "c \<noteq> 0" "c \<noteq> 61 \<and> c < 128"
proof -
  have "unat (take_bit 6 (drop_bit k t)) < 64" unfolding unat_take_bit_mod by simp
  from sextet_char [OF this assms] that show thesis by (auto simp: b64_char_def sextet)
qed

text \<open>The four sextets of a triple, put together again.\<close>

lemma b64_join:
  fixes a b c :: u8
  defines "t \<equiv> b64_triple a b c"
  shows "push_bit 18 (word_of_int (uint (take_bit 6 (drop_bit 18 t)))) OR
         push_bit 12 (word_of_int (uint (take_bit 6 (drop_bit 12 t)))) OR
         push_bit 6 (word_of_int (uint (take_bit 6 (drop_bit 6 t)))) OR
         word_of_int (uint (take_bit 6 (drop_bit 0 t))) = (t :: u32)"
    and "ucast (drop_bit 16 t AND 0xFF) = a" "ucast (drop_bit 8 t AND 0xFF) = b" "ucast (t AND 0xFF) = c"
proof -
  have hi: "\<not> bit t n" if "24 \<le> n" for n
    using that by (auto simp: t_def b64_triple_def bit_simps dest: bit_imp_le_length)
  show "push_bit 18 (word_of_int (uint (take_bit 6 (drop_bit 18 t)))) OR
         push_bit 12 (word_of_int (uint (take_bit 6 (drop_bit 12 t)))) OR
         push_bit 6 (word_of_int (uint (take_bit 6 (drop_bit 6 t)))) OR
         word_of_int (uint (take_bit 6 (drop_bit 0 t))) = t"
  proof (rule bit_word_eqI)
    fix n assume n: "n < LENGTH(32)"
    consider "n < 6" | "6 \<le> n" "n < 12" | "12 \<le> n" "n < 18" | "18 \<le> n" "n < 24" | "24 \<le> n" by linarith
    then show "bit (push_bit 18 (word_of_int (uint (take_bit 6 (drop_bit 18 t)))) OR
         push_bit 12 (word_of_int (uint (take_bit 6 (drop_bit 12 t)))) OR
         push_bit 6 (word_of_int (uint (take_bit 6 (drop_bit 6 t)))) OR
         word_of_int (uint (take_bit 6 (drop_bit 0 t))) :: u32) n = bit t n"
      using n hi [of n] by cases (simp_all add: bit_simps less_diff_conv2)
  qed
  show "ucast (drop_bit 16 t AND 0xFF) = a" "ucast (drop_bit 8 t AND 0xFF) = b" "ucast (t AND 0xFF) = c"
    unfolding octet t_def b64_triple_def
    by (rule bit_word_eqI, auto simp: bit_simps dest: bit_imp_le_length)+
qed

text \<open>The text without its padding, group by group.\<close>

lemma b64_roundtrip_loop:
  assumes tb: "table = b64_table \<or> table = b64url_table"
  shows "\<exists>core pad. b64_encode_loop table bs = Some (core @ pad) \<and>
     (\<forall>c \<in> set core. c \<noteq> 0 \<and> c \<noteq> 61 \<and> c < 128) \<and> (\<forall>c \<in> set pad. c = 61) \<and>
     length (core @ pad) = 4 * ((length bs + 2) div 3) \<and>
     length bs = (length core * 3) div 4 \<and>
     (\<forall>cap out. length out + length bs \<le> cap \<longrightarrow> b64_decode_loop cap core out = Some (Some (out @ bs)))"
proof (induction "length bs" arbitrary: bs rule: less_induct)
  case less
  show ?case
  proof (cases bs)
    case Nil
    then show ?thesis by (intro exI [of _ "[]"]) simp
  next
    case (Cons a rest)
    define b where "b = (case rest of b # _ \<Rightarrow> b | [] \<Rightarrow> 0)"
    define c where "c = (case rest of _ # c # _ \<Rightarrow> c | _ \<Rightarrow> 0)"
    define t where "t = b64_triple a b c"
    note j = b64_join [of a b c, folded t_def]
    obtain o1 where o1: "b64_char table t 18 = Some o1"
      "b64_decode_char o1 = uint (take_bit 6 (drop_bit 18 t))" "o1 \<noteq> 0" "o1 \<noteq> 61 \<and> o1 < 128"
      by (rule b64_char_spec [OF tb])
    obtain o2 where o2: "b64_char table t 12 = Some o2"
      "b64_decode_char o2 = uint (take_bit 6 (drop_bit 12 t))" "o2 \<noteq> 0" "o2 \<noteq> 61 \<and> o2 < 128"
      by (rule b64_char_spec [OF tb])
    obtain o3 where o3: "b64_char table t 6 = Some o3"
      "b64_decode_char o3 = uint (take_bit 6 (drop_bit 6 t))" "o3 \<noteq> 0" "o3 \<noteq> 61 \<and> o3 < 128"
      by (rule b64_char_spec [OF tb])
    obtain o4 where o4: "b64_char table t 0 = Some o4"
      "b64_decode_char o4 = uint (take_bit 6 (drop_bit 0 t))" "o4 \<noteq> 0" "o4 \<noteq> 61 \<and> o4 < 128"
      by (rule b64_char_spec [OF tb])
    have enc: "b64_encode_loop table bs = do {
        o1 \<leftarrow> b64_char table t 18; o2 \<leftarrow> b64_char table t 12;
        o3 \<leftarrow> (if length rest \<ge> 1 then b64_char table t 6 else Some 61);
        o4 \<leftarrow> (if length rest \<ge> 2 then b64_char table t 0 else Some 61);
        os \<leftarrow> b64_encode_loop table (drop 2 rest);
        Some (o1 # o2 # o3 # o4 # os) }"
      unfolding Cons b64_encode_loop.simps Let_def b_def c_def t_def ..
    consider (one) "rest = []" | (two) "rest = [b]" | (three) r where "rest = b # c # r"
      by (cases rest rule: remdups_adj.cases) (auto simp: b_def c_def)
    then show ?thesis
    proof cases
      case three
      have "length r < length bs" using Cons three by simp
      from less [OF this] obtain core pad where r: "b64_encode_loop table r = Some (core @ pad)"
        "\<forall>c \<in> set core. c \<noteq> 0 \<and> c \<noteq> 61 \<and> c < 128" "\<forall>c \<in> set pad. c = 61"
        "length (core @ pad) = 4 * ((length r + 2) div 3)" "length r = (length core * 3) div 4"
        "\<forall>cap out. length out + length r \<le> cap \<longrightarrow> b64_decode_loop cap core out = Some (Some (out @ r))"
        by blast
      have e: "b64_encode_loop table bs = Some ((o1 # o2 # o3 # o4 # core) @ pad)"
        unfolding enc using three r(1) o1 o2 o3 o4 by simp
      have d: "b64_decode_loop cap (o1 # o2 # o3 # o4 # core) out = Some (Some (out @ bs))"
        if "length out + length bs \<le> cap" for cap out
      proof -
        have g: "b64_decode_group cap (o1 # o2 # o3 # o4 # core) out = Some (Some (out @ [a, b, c]))"
          using that j Cons three
          by (simp add: b64_decode_group_def o1 o2 o3 o4 Let_def out_byte_def)
        show ?thesis using r(6) that g Cons three by simp
      qed
      have "\<forall>c \<in> set (o1 # o2 # o3 # o4 # core). c \<noteq> 0 \<and> c \<noteq> 61 \<and> c < 128"
        using r(2) o1(3,4) o2(3,4) o3(3,4) o4(3,4) by simp
      moreover have "length ((o1 # o2 # o3 # o4 # core) @ pad) = 4 * ((length bs + 2) div 3)"
      proof -
        have "(length bs + 2) div 3 = (length r + 2 + 3) div 3" using Cons three by simp
        also have "\<dots> = (length r + 2) div 3 + 1" by (rule div_add_self2) simp
        finally show ?thesis using r(4) by simp
      qed
      moreover have "length bs = (length (o1 # o2 # o3 # o4 # core) * 3) div 4"
        using r(5) Cons three by simp
      ultimately show ?thesis using e d r(3) by blast
    next
      case two
      have c0: "c = 0" using two by (simp add: c_def)
      have e: "b64_encode_loop table bs = Some ([o1, o2, o3] @ [61])"
        unfolding enc using two o1 o2 o3 by simp
      have low: "take_bit 6 (drop_bit 0 t) = 0"
        unfolding t_def b64_triple_def c0 by (rule bit_word_eqI) (auto simp: bit_simps)
      have d: "b64_decode_loop cap [o1, o2, o3] out = Some (Some (out @ bs))"
        if "length out + length bs \<le> cap" for cap out
        using that j Cons two low
        by (simp add: b64_decode_group_def o1 o2 o3 Let_def out_byte_def)
      have "\<forall>c \<in> set [o1, o2, o3]. c \<noteq> 0 \<and> c \<noteq> 61 \<and> c < 128" using o1(3,4) o2(3,4) o3(3,4) by simp
      moreover have "\<forall>c \<in> set [61]. c = (61 :: u8)" by simp
      moreover have "length ([o1, o2, o3] @ [61]) = 4 * ((length bs + 2) div 3)"
        "length bs = (length [o1, o2, o3] * 3) div 4" using Cons two by simp_all
      ultimately show ?thesis using e d by blast
    next
      case one
      have bc: "b = 0" "c = 0" using one by (simp_all add: b_def c_def)
      have e: "b64_encode_loop table bs = Some ([o1, o2] @ [61, 61])"
        unfolding enc using one o1 o2 by simp
      have low: "take_bit 6 (drop_bit 0 t) = 0" "take_bit 6 (drop_bit 6 t) = 0"
        unfolding t_def b64_triple_def bc by (rule bit_word_eqI, auto simp: bit_simps)+
      have d: "b64_decode_loop cap [o1, o2] out = Some (Some (out @ bs))"
        if "length out + length bs \<le> cap" for cap out
        using that j Cons one low
        by (simp add: b64_decode_group_def o1 o2 Let_def out_byte_def)
      have "\<forall>c \<in> set [o1, o2]. c \<noteq> 0 \<and> c \<noteq> 61 \<and> c < 128" using o1(3,4) o2(3,4) by simp
      moreover have "\<forall>c \<in> set [61, 61]. c = (61 :: u8)" by simp
      moreover have "length ([o1, o2] @ [61, 61]) = 4 * ((length bs + 2) div 3)"
        "length bs = (length [o1, o2] * 3) div 4" using Cons one by simp_all
      ultimately show ?thesis using e d by blast
    qed
  qed
qed

section \<open>The codecs in their blocks\<close>

text \<open>The only other failure than that of the allocator.\<close>

definition too_long :: "js_error \<Rightarrow> bool" where
  "too_long e = (e = string_too_long)"

lemma count_ascii_all: "count_ascii s = length s \<longleftrightarrow> (\<forall>b \<in> set s. b < 128)"
proof -
  have "length (takeWhile (\<lambda>b. b < 128) s) = length s \<longleftrightarrow> takeWhile (\<lambda>b. b < 128) s = s"
    by (metis takeWhile_eq_take take_all order_refl)
  then show ?thesis by (simp add: count_ascii_def takeWhile_eq_all_conv)
qed

lemma widen_sat: "js_sat mf E (- 1) 0 (\<lambda>_. True) (string_buffer_widen mf p n)"
  unfolding string_buffer_widen_def
  by (rule js_sat_try_free [where ?d1.0 = 0 and Q = "\<lambda>_. True"]) (auto intro: js_sat_realloc js_sat_return)

lemma end_sat: "js_sat mf E de 0 (\<lambda>x. x = us) (string_buffer_end mf n us)"
  by (rule js_satI) (auto simp: string_buffer_end_def js_realloc_rt_def)

lemma new_string_sat:
  assumes "string_of_utf8 s = Some us"
  shows "js_sat mf too_long 0 (of_bool (s \<noteq> [])) (\<lambda>x. x = us) (new_string_utf8 mf s)"
proof (cases "count_ascii s = length s")
  case True
  then have "us = map ucast s" using assms string_of_utf8_ascii [of s] count_ascii_all [of s] by simp
  then show ?thesis using True
    by (auto simp: new_string_utf8_def too_long_def
        intro!: js_sat_throw js_sat_return js_sat_bind [OF js_sat_malloc])
next
  case False
  then have ne: "s \<noteq> []" by (auto simp: count_ascii_def)
  have "js_sat mf too_long (- 1) 0 (\<lambda>x. x = us)
     (js_bind (if \<exists>u \<in> set us. u \<ge> 0x100 then string_buffer_widen mf p (length s) else js_return ())
       (\<lambda>_. string_buffer_end mf (length s) us))" for p
    by (rule js_sat_bind [where ?d1.0 = 0 and Q = "\<lambda>_. True"])
      (auto intro: widen_sat js_sat_return end_sat)
  then have "js_sat mf too_long 0 1 (\<lambda>x. x = us) (js_bind (js_malloc mf (16 + length s + 1)) (\<lambda>p.
        js_bind (js_lift (string_of_utf8 s)) (\<lambda>us.
        js_bind (if \<exists>u \<in> set us. u \<ge> 0x100 then string_buffer_widen mf p (length s) else js_return ()) (\<lambda>_.
        string_buffer_end mf (length s) us))))"
    by (intro js_sat_bind [OF js_sat_malloc] js_sat_bind_lift [OF assms]) simp
  then show ?thesis using False ne
    by (auto simp: new_string_utf8_def too_long_def intro: js_sat_throw)
qed

lemma JS_NewStringLen_sat:
  assumes "string_of_utf8 s = Some us"
  shows "js_sat mf too_long 0 (of_bool (s \<noteq> [])) (\<lambda>v. v = JStr us) (JS_NewStringLen mf s)"
  unfolding JS_NewStringLen_def
  by (rule js_sat_bind [OF new_string_sat [OF assms]]) (auto intro: js_sat_return)

lemma c_str_text: "\<forall>c \<in> set s. c \<noteq> 0 \<Longrightarrow> c_str (s @ [0]) = s"
  by (simp add: c_str_def takeWhile_append2)

lemma utf8_of_ascii: "\<forall>b \<in> set s. b < 128 \<Longrightarrow> utf8_of_string (map ucast s) = s"
proof (induction s)
  case (Cons b s)
  have u: "unat (ucast (ucast b :: u16) :: u32) = unat b" by (simp add: unat_ucast_up)
  have "(ucast (ucast (ucast b :: u16) :: u32) :: u8) = b"
    by (rule word_unat_eq_iff [THEN iffD2]) (simp only: unat_ucast_u8 u, simp)
  moreover have "(ucast (ucast b :: u16) :: u32) < 0x80"
    using Cons.prems u by (simp add: word_less_nat_alt)
  ultimately show ?case using Cons by (simp add: Let_def)
qed simp

text \<open>What both encoders do with the text they have computed.\<close>

lemma text_block_sat:
  assumes s: "\<forall>c \<in> set s. c \<noteq> 0 \<and> c < 128" "length s = n" and out: "m = Some s"
  shows "js_sat mf too_long 0 (of_bool (s \<noteq> [])) (\<lambda>v. v = JStr (map ucast s))
    (js_bind (js_malloc mf (n + 1)) (\<lambda>p.
     js_bind (js_lift (do { cs \<leftarrow> m; out \<leftarrow> blit (junk_bytes mf p (n + 1)) 0 cs; wr out (length cs) 0 })) (\<lambda>out.
     js_try (JS_NewStringLen mf (c_str out)) (js_free p) (\<lambda>ret.
     js_bind (js_free p) (\<lambda>_. js_return ret)))))"
proof (rule js_sat_bind [OF js_sat_malloc])
  fix p
  let ?v = "JStr (map ucast s)"
  have w: "do { cs \<leftarrow> m; out \<leftarrow> blit (junk_bytes mf p (n + 1)) 0 cs; wr out (length cs) 0 } = Some (s @ [0])"
    using s(2) by (simp add: out blit_def junk_bytes_def list_update_append)
  have c: "c_str (s @ [0]) = s" using s(1) by (intro c_str_text) simp
  have u: "string_of_utf8 s = Some (map ucast s)" using s(1) by (intro string_of_utf8_ascii) simp
  have "js_sat mf too_long (0 - 1) (of_bool (s \<noteq> []) - 1) (\<lambda>v. v = ?v)
    (js_try (JS_NewStringLen mf (c_str (s @ [0]))) (js_free p) (\<lambda>ret. js_bind (js_free p) (\<lambda>_. js_return ret)))"
    unfolding c
  proof (rule js_sat_try_free [where Q = "\<lambda>v. v = ?v" and ?d1.0 = "of_bool (s \<noteq> [])"])
    show "js_sat mf too_long (0 - 1 + 1) (of_bool (s \<noteq> [])) (\<lambda>v. v = ?v) (JS_NewStringLen mf s)"
      using JS_NewStringLen_sat [OF u, of mf] by simp
    show "js_sat mf too_long (0 - 1 - of_bool (s \<noteq> [])) (of_bool (s \<noteq> []) - 1 - of_bool (s \<noteq> []))
        (\<lambda>v. v = ?v) (js_bind (js_free p) (\<lambda>_. js_return ret))" if "ret = ?v" for ret
      using that by (auto intro!: js_sat_bind [OF js_sat_free] js_sat_return)
  qed
  then show "js_sat mf too_long (0 - 1) (of_bool (s \<noteq> []) - 1) (\<lambda>v. v = ?v)
     (js_bind (js_lift (do { cs \<leftarrow> m; out \<leftarrow> blit (junk_bytes mf p (n + 1)) 0 cs; wr out (length cs) 0 })) (\<lambda>out.
     js_try (JS_NewStringLen mf (c_str out)) (js_free p) (\<lambda>ret.
     js_bind (js_free p) (\<lambda>_. js_return ret))))"
    by (rule js_sat_bind_lift [OF w])
qed

lemma block_sat: "js_sat mf E 0 1 (\<lambda>x. x = y) (js_bind (js_malloc mf n) (\<lambda>_. js_return y))"
  by (auto intro!: js_sat_bind [OF js_sat_malloc] js_sat_return)

lemma hex_sat:
  "\<exists>s. (\<forall>mf. js_sat mf too_long 0 (of_bool (s \<noteq> [])) (\<lambda>v. v = JStr s) (js_buffer_hex_encode mf bs)) \<and>
       (\<forall>mf E. js_sat mf E 0 1 (\<lambda>out. out = bs) (js_buffer_hex_decode mf (utf8_of_string s))) \<and>
       length s = 2 * length bs"
proof -
  from hex_roundtrip_loop obtain s where s: "hex_encode_loop bs = Some s" "length s = 2 * length bs"
    "\<forall>c \<in> set s. c \<noteq> 0 \<and> c < 128" "hex_decode_loop s = Some bs" by blast
  have e: "js_sat mf too_long 0 (of_bool (map ucast s \<noteq> ([] :: js_string))) (\<lambda>v. v = JStr (map ucast s))
      (js_buffer_hex_encode mf bs)" for mf
    using text_block_sat [OF s(3) refl s(1), of mf] s(2)
    by (simp add: js_buffer_hex_encode_def s(1) mult.commute)
  have u: "utf8_of_string (map ucast s) = s" using s(3) by (intro utf8_of_ascii) simp
  have d: "js_sat mf E 0 1 (\<lambda>out. out = bs) (js_buffer_hex_decode mf (utf8_of_string (map ucast s)))" for mf E
    using block_sat [of mf E bs "length bs"] unfolding u by (simp add: js_buffer_hex_decode_def s(2,4))
  have "length (map ucast s :: js_string) = 2 * length bs" using s(2) by simp
  with e d show ?thesis by blast
qed

lemma base64_sat:
  "\<exists>s. (\<forall>mf. js_sat mf too_long 0 (of_bool (s \<noteq> [])) (\<lambda>v. v = JStr s) (js_buffer_base64_encode mf bs url)) \<and>
       (\<forall>mf E. js_sat mf E 0 1 (\<lambda>out. out = bs) (js_buffer_base64_decode mf (utf8_of_string s))) \<and>
       length s = 4 * ((length bs + 2) div 3)"
proof -
  define table where "table = (if url then b64url_table else b64_table)"
  have "table = b64_table \<or> table = b64url_table" by (simp add: table_def)
  from b64_roundtrip_loop [OF this, of bs] obtain core pad where
    s: "b64_encode_loop table bs = Some (core @ pad)" "\<forall>c \<in> set core. c \<noteq> 0 \<and> c \<noteq> 61 \<and> c < 128"
      "\<forall>c \<in> set pad. c = 61" "length (core @ pad) = 4 * ((length bs + 2) div 3)"
      "length bs = (length core * 3) div 4"
      "\<And>cap out. length out + length bs \<le> cap \<Longrightarrow> b64_decode_loop cap core out = Some (Some (out @ bs))"
    by blast
  let ?s = "map ucast (core @ pad) :: js_string"
  have ok: "\<forall>c \<in> set (core @ pad). c \<noteq> 0 \<and> c < 128" using s(2,3) by auto
  have u: "utf8_of_string ?s = core @ pad" using ok by (intro utf8_of_ascii) simp
  have e: "js_sat mf too_long 0 (of_bool (?s \<noteq> [])) (\<lambda>v. v = JStr ?s) (js_buffer_base64_encode mf bs url)" for mf
    using text_block_sat [OF ok s(4,1), of mf]
    by (simp add: js_buffer_base64_encode_def table_def [symmetric] s(1) Let_def)
  have strip: "strip_pad (core @ pad) = core"
  proof -
    have "dropWhile (\<lambda>c. c = 61) (rev pad @ rev core) = dropWhile (\<lambda>c. c = 61) (rev core)"
      by (rule dropWhile_append2) (use s(3) in simp)
    also have "\<dots> = rev core" using s(2) by (cases "rev core") auto
    finally show ?thesis by (simp add: strip_pad_def)
  qed
  have "length [] + length bs \<le> (length core * 3 + 3) div 4" unfolding s(5) by simp
  from s(6) [OF this] have dl: "b64_decode_loop ((length core * 3 + 3) div 4) core [] = Some (Some bs)"
    by simp
  have d: "js_sat mf E 0 1 (\<lambda>out. out = bs) (js_buffer_base64_decode mf (utf8_of_string ?s))" for mf E
    unfolding u js_buffer_base64_decode_def strip Let_def dl
    by (rule js_sat_bind [OF js_sat_malloc], rule js_sat_bind_lift [OF refl]) (auto intro: js_sat_return)
  have "length ?s = 4 * ((length bs + 2) div 3)" using s(4) by simp
  with e d show ?thesis by blast
qed

text \<open>The encodings that print bytes, and those that take the text of a string as it is.\<close>

lemma binary_codec_sat:
  assumes "enc = ENC_HEX \<or> enc = ENC_BASE64 \<or> enc = ENC_BASE64URL"
  shows "\<exists>s. (\<forall>mf. js_sat mf too_long 0 (of_bool (s \<noteq> [])) (\<lambda>v. v = JStr s) (js_buffer_bytes_to_string mf bs enc)) \<and>
       (\<forall>mf E. js_sat mf E 0 1 (\<lambda>out. out = bs) (js_buffer_string_to_bytes mf (utf8_of_string s) enc))"
  using assms
proof (elim disjE)
  assume e: "enc = ENC_HEX"
  show ?thesis
    unfolding e js_buffer_bytes_to_string_def js_buffer_string_to_bytes_def encoding.case using hex_sat by blast
next
  assume e: "enc = ENC_BASE64"
  show ?thesis
    unfolding e js_buffer_bytes_to_string_def js_buffer_string_to_bytes_def encoding.case using base64_sat by blast
next
  assume e: "enc = ENC_BASE64URL"
  show ?thesis
    unfolding e js_buffer_bytes_to_string_def js_buffer_string_to_bytes_def encoding.case using base64_sat by blast
qed

lemma text_codec_sat:
  assumes "enc = ENC_UTF8 \<or> enc = ENC_ASCII \<or> enc = ENC_LATIN1"
  shows "js_sat mf E 0 1 (\<lambda>out. out = utf8_of_string u) (js_buffer_string_to_bytes mf (utf8_of_string u) enc)"
    and "js_sat mf too_long 0 (of_bool (utf8_of_string u \<noteq> [])) (\<lambda>v. v = JStr u)
      (js_buffer_bytes_to_string mf (utf8_of_string u) enc)"
proof -
  show "js_sat mf E 0 1 (\<lambda>out. out = utf8_of_string u) (js_buffer_string_to_bytes mf (utf8_of_string u) enc)"
    using assms by (elim disjE) (simp_all add: js_buffer_string_to_bytes_def block_sat)
  show "js_sat mf too_long 0 (of_bool (utf8_of_string u \<noteq> [])) (\<lambda>v. v = JStr u)
      (js_buffer_bytes_to_string mf (utf8_of_string u) enc)"
    using assms JS_NewStringLen_sat [OF string_utf8_string, of mf u]
    by (elim disjE) (simp_all add: js_buffer_bytes_to_string_def)
qed

end
