(* ===== verification/Buffer_Safe.thy ===== *)
theory Buffer_Safe
  imports Buffer_Ops Buffer_Codec
begin

text \<open>
  Memory safety of the \<open>Buffer\<close> methods: a small calculus of contracts over an invariant of
  the runtime that array buffers which grow in number, and keep their lengths, preserve;
  the contracts of the primitives; and those of the methods.
\<close>

section \<open>Contracts over the array buffers\<close>

text \<open>The engine refuses to create an array buffer of more than \<open>INT32_MAX\<close> bytes.\<close>

definition bufs_ok :: "js_rt \<Rightarrow> bool" where
  "bufs_ok rt = (\<forall>m \<in> set (abufs rt). length m \<le> 0x7FFFFFFF)"

definition grows :: "js_rt \<Rightarrow> js_rt \<Rightarrow> bool" where
  "grows rt rt' = ((bufs_ok rt \<longrightarrow> bufs_ok rt') \<and> length (abufs rt) \<le> length (abufs rt') \<and>
     (\<forall>b < length (abufs rt). length (abufs rt' ! b) = length (abufs rt ! b)))"

fun valid :: "js_rt \<Rightarrow> nat \<times> nat \<times> nat \<Rightarrow> bool" where
  "valid rt (b, off, len) = (b < length (abufs rt) \<and> off + len \<le> length (abufs rt ! b))"

fun val_ok :: "js_rt \<Rightarrow> jsval \<Rightarrow> bool" where
  "val_ok rt (JView b off len) = valid rt (b, off, len)"
| "val_ok rt (JArrayBuffer b) = (b < length (abufs rt))"
| "val_ok rt _ = True"

definition stable :: "(js_rt \<Rightarrow> bool) \<Rightarrow> bool" where
  "stable I = (\<forall>rt rt'. I rt \<longrightarrow> grows rt rt' \<longrightarrow> I rt')"

definition bsafe :: "(js_rt \<Rightarrow> bool) \<Rightarrow> 'a js \<Rightarrow> ('a \<Rightarrow> js_rt \<Rightarrow> bool) \<Rightarrow> bool" where
  "bsafe I m P = (\<forall>rt. I rt \<longrightarrow>
     (\<exists>r rt'. m rt = Some (r, rt') \<and> grows rt rt' \<and> (\<forall>x. r = Ret x \<longrightarrow> P x rt')))"

lemma grows_refl [simp]: "grows rt rt"
  by (simp add: grows_def)

lemma grows_trans: "grows r1 r2 \<Longrightarrow> grows r2 r3 \<Longrightarrow> grows r1 r3"
  unfolding grows_def by (metis order_trans order_less_le_trans)

lemma grows_same: "abufs rt' = abufs rt \<Longrightarrow> grows rt rt'"
  by (simp add: grows_def bufs_ok_def)

lemma stable_conj [intro!]: "stable I \<Longrightarrow> stable J \<Longrightarrow> stable (\<lambda>rt. I rt \<and> J rt)"
  unfolding stable_def by blast

lemma stable_const [intro!]: "stable (\<lambda>rt. Q)"
  by (simp add: stable_def)

lemma stable_bufs_ok [intro!]: "stable bufs_ok"
  by (simp add: stable_def grows_def)

lemma stable_grows [intro!]: "stable (grows rt)"
  using grows_trans by (auto simp: stable_def)

lemma valid_grows: "valid rt v \<Longrightarrow> grows rt rt' \<Longrightarrow> valid rt' v"
  by (cases v) (auto simp: grows_def)

lemma stable_valid [intro!]: "stable (\<lambda>rt. valid rt v)"
  using valid_grows by (auto simp: stable_def)

lemma stable_val_ok [intro!]: "stable (\<lambda>rt. val_ok rt v)"
  by (cases v) (auto simp: stable_def grows_def)

lemma bsafeI:
  assumes "\<And>rt. I rt \<Longrightarrow> \<exists>r rt'. m rt = Some (r, rt') \<and> grows rt rt' \<and> (\<forall>x. r = Ret x \<longrightarrow> P x rt')"
  shows "bsafe I m P"
  using assms by (simp add: bsafe_def)

lemma bsafeE:
  assumes "bsafe I m P" "I rt"
  obtains r rt' where "m rt = Some (r, rt')" "grows rt rt'" "\<And>x. r = Ret x \<Longrightarrow> P x rt'"
  using assms unfolding bsafe_def by blast

lemma bsafe_weaken:
  assumes "bsafe I m P" "\<And>rt. J rt \<Longrightarrow> I rt" "\<And>x rt. P x rt \<Longrightarrow> Q x rt"
  shows "bsafe J m Q"
  using assms unfolding bsafe_def by meson

lemma bsafe_cases:
  assumes "\<And>rt. I rt \<Longrightarrow> Q" "Q \<Longrightarrow> bsafe I m P"
  shows "bsafe I m P"
  using assms unfolding bsafe_def by meson

text \<open>Sequencing: with a fact about the state, with a fact about the value, with neither.\<close>

lemma bsafe_seq:
  assumes st: "stable I" and m: "bsafe I m Q"
    and null: "\<And>rt. I rt \<Longrightarrow> \<exists>r rt'. h rt = Some (r, rt') \<and> grows rt rt'"
    and k: "\<And>x. bsafe (\<lambda>rt. I rt \<and> Q x rt) (k x) P"
  shows "bsafe I (js_try m h k) P"
proof (rule bsafeI)
  fix rt assume I: "I rt"
  with m obtain r rt1 where m: "m rt = Some (r, rt1)" "grows rt rt1" "\<And>x. r = Ret x \<Longrightarrow> Q x rt1"
    by (rule bsafeE) blast
  from st I m(2) have I1: "I rt1" unfolding stable_def by blast
  show "\<exists>r rt'. js_try m h k rt = Some (r, rt') \<and> grows rt rt' \<and> (\<forall>x. r = Ret x \<longrightarrow> P x rt')"
  proof (cases r)
    case Null
    from null [OF I1] obtain r2 rt2 where "h rt1 = Some (r2, rt2)" "grows rt1 rt2" by blast
    with m Null show ?thesis using grows_trans by (fastforce simp: js_try_def)
  next
    case (Ret x)
    have "I rt1 \<and> Q x rt1" using I1 m(3) Ret by blast
    with k [of x] obtain r2 rt2 where "k x rt1 = Some (r2, rt2)" "grows rt1 rt2"
        "\<And>x. r2 = Ret x \<Longrightarrow> P x rt2"
      by (rule bsafeE) blast
    with m Ret show ?thesis using grows_trans by (fastforce simp: js_try_def)
  qed
qed

lemma bsafe_bind:
  assumes "stable I" "bsafe I m Q" "\<And>x. bsafe (\<lambda>rt. I rt \<and> Q x rt) (k x) P"
  shows "bsafe I (js_bind m k) P"
  unfolding js_bind_def by (rule bsafe_seq [OF assms(1,2)]) (auto simp: js_return_def assms(3))

lemma bsafe_bind_val:
  assumes "stable I" "bsafe I m (\<lambda>x rt. Q x)" "\<And>x. Q x \<Longrightarrow> bsafe I (k x) P"
  shows "bsafe I (js_bind m k) P"
proof (rule bsafe_bind [OF assms(1,2)])
  show "bsafe (\<lambda>rt. I rt \<and> Q x) (k x) P" for x
    using assms(3) [of x] by (auto simp: bsafe_def)
qed

lemma bsafe_bind_any:
  assumes "stable I" "bsafe I m (\<lambda>x rt. True)" "\<And>x. bsafe I (k x) P"
  shows "bsafe I (js_bind m k) P"
  using bsafe_bind_val [OF assms(1,2)] assms(3) by blast

lemma bsafe_or:
  assumes st: "stable I" and m: "bsafe I m (\<lambda>x rt. Q x)" and h: "bsafe I h P"
    and k: "\<And>x. Q x \<Longrightarrow> bsafe I (k x) P"
  shows "bsafe I (js_or m h k) P"
proof (rule bsafeI)
  fix rt assume I: "I rt"
  with m obtain r rt1 where m: "m rt = Some (r, rt1)" "grows rt rt1" "\<And>x. r = Ret x \<Longrightarrow> Q x"
    by (rule bsafeE) blast
  from st I m(2) have I1: "I rt1" unfolding stable_def by blast
  show "\<exists>r rt'. js_or m h k rt = Some (r, rt') \<and> grows rt rt' \<and> (\<forall>x. r = Ret x \<longrightarrow> P x rt')"
  proof (cases r)
    case Null
    from h I1 obtain r2 rt2 where "h rt1 = Some (r2, rt2)" "grows rt1 rt2" "\<And>x. r2 = Ret x \<Longrightarrow> P x rt2"
      by (rule bsafeE) blast
    with m Null show ?thesis using grows_trans by (fastforce simp: js_or_def)
  next
    case (Ret x)
    with m(3) have "Q x" by blast
    from k [OF this] I1 obtain r2 rt2 where "k x rt1 = Some (r2, rt2)" "grows rt1 rt2"
        "\<And>x. r2 = Ret x \<Longrightarrow> P x rt2"
      by (rule bsafeE) blast
    with m Ret show ?thesis using grows_trans by (fastforce simp: js_or_def)
  qed
qed

section \<open>The primitives\<close>

lemma bsafe_return: "(\<And>rt. I rt \<Longrightarrow> P x rt) \<Longrightarrow> bsafe I (js_return x) P"
  by (auto simp: bsafe_def js_return_def)

lemma bsafe_if: "(c \<Longrightarrow> bsafe I m1 P) \<Longrightarrow> (\<not> c \<Longrightarrow> bsafe I m2 P) \<Longrightarrow> bsafe I (if c then m1 else m2) P"
  by simp

lemma bsafe_throw: "bsafe I (js_throw e) P"
  by (auto simp: bsafe_def js_throw_def intro: grows_same)

lemma bsafe_null: "bsafe I js_null P"
  by (auto simp: bsafe_def js_null_def)

lemma bsafe_malloc: "bsafe I (js_malloc mf n) (\<lambda>x rt. True)"
  by (auto simp: bsafe_def js_malloc_def js_malloc_rt_def JS_ThrowOutOfMemory_def js_throw_def
      split: if_splits intro!: grows_same)

lemma bsafe_free: "bsafe I (js_free p) (\<lambda>x rt. True)"
  by (auto simp: bsafe_def js_free_def js_free_rt_def intro: grows_same)

lemma bsafe_lift: "m = Some x \<Longrightarrow> bsafe I (js_lift m) (\<lambda>y rt. y = x)"
  by (auto simp: bsafe_def js_lift_def)

lemma bsafe_bind_lift:
  assumes "m = Some x" "bsafe I (k x) P"
  shows "bsafe I (js_bind (js_lift m) k) P"
  using assms by (simp add: js_bind_def js_try_def js_lift_def bsafe_def)

lemma bsafe_ToInt64: "bsafe I (ToInt64 E v) (\<lambda>x rt. True)"
  by (auto simp: bsafe_def ToInt64_def split: sum.split intro: grows_same)

lemma bsafe_ToInt32: "bsafe I (ToInt32 E v) (\<lambda>x rt. True)"
  by (auto simp: bsafe_def ToInt32_def split: sum.split intro: grows_same)

lemma bsafe_opt_int64: "bsafe I (opt_int64 E argv n i d) (\<lambda>x rt. True)"
  by (auto simp: opt_int64_def bsafe_ToInt64 intro: bsafe_return)

lemma bsafe_num_int64: "bsafe I (num_int64 E argv n i d) (\<lambda>x rt. True)"
  by (auto simp: num_int64_def bsafe_ToInt64 intro: bsafe_return)

lemma bsafe_get_bytes:
  "bsafe I (js_buffer_get_bytes v) (\<lambda>p rt. \<forall>x. p = Some x \<longrightarrow> valid rt x \<and> v = JView (fst x) (fst (snd x)) (snd (snd x)))"
  by (auto simp: bsafe_def js_buffer_get_bytes_def split: jsval.split intro: grows_same)

lemma bsafe_GetArrayBuffer:
  "bsafe I (JS_GetArrayBuffer v) (\<lambda>p rt. \<forall>b n. p = Some (b, n) \<longrightarrow> v = JArrayBuffer b)"
  by (auto simp: bsafe_def JS_GetArrayBuffer_def split: jsval.split intro: grows_same)

lemma bsafe_rd_bytes:
  "(\<And>rt. I rt \<Longrightarrow> valid rt (b, i, n)) \<Longrightarrow> bsafe I (rd_bytes b i n) (\<lambda>xs rt. length xs = n)"
  by (force simp: bsafe_def rd_bytes_def rd_def grab_def)

lemma bsafe_wr_bytes:
  assumes "\<And>rt. I rt \<Longrightarrow> valid rt (b, i, length xs)"
  shows "bsafe I (wr_bytes b i xs) (\<lambda>x rt. True)"
proof (rule bsafeI)
  fix rt assume "I rt"
  from assms [OF this] have v: "b < length (abufs rt)" "i + length xs \<le> length (abufs rt ! b)" by auto
  define m where "m = take i (abufs rt ! b) @ xs @ drop (i + length xs) (abufs rt ! b)"
  have len: "length m = length (abufs rt ! b)" using v by (simp add: m_def)
  have w: "wr_bytes b i xs rt = Some (Ret (), rt\<lparr>abufs := (abufs rt)[b := m]\<rparr>)"
    using v by (simp add: wr_bytes_def rd_def blit_def m_def)
  have "grows rt (rt\<lparr>abufs := (abufs rt)[b := m]\<rparr>)"
    using v len by (auto simp: grows_def bufs_ok_def nth_list_update all_set_conv_all_nth)
  with w show "\<exists>r rt'. wr_bytes b i xs rt = Some (r, rt') \<and> grows rt rt' \<and> (\<forall>x. r = Ret x \<longrightarrow> True)"
    by simp
qed

lemma bsafe_view_u8array: "bsafe I (view_u8array b off len) (\<lambda>v rt. val_ok rt v)"
  by (auto simp: bsafe_def view_u8array_def js_throw_def intro: grows_same)

lemma bsafe_create:
  assumes "stable I"
  shows "bsafe I (js_buffer_create mf n)
    (\<lambda>v rt. \<exists>b. v = JView b 0 (unat n) \<and> valid rt (b, 0, unat n) \<and> unat n \<le> 0x7FFFFFFF)"
proof (cases "n <s 0 \<or> 0x1FFFFFFFFFFFFF < n \<or> 0x7FFFFFFF < n")
  case True
  then show ?thesis by (auto simp: js_buffer_create_def new_u8array_def bsafe_throw)
next
  case False
  then have n: "unat n \<le> 0x7FFFFFFF" by (simp add: not_less word_le_nat_alt)
  have e: "js_buffer_create mf n = js_bind (js_malloc mf (max (unat n) 1)) (\<lambda>_.
      (\<lambda>rt. Some (Ret (JView (length (abufs rt)) 0 (unat n)),
                  rt\<lparr>abufs := abufs rt @ [replicate (unat n) 0]\<rparr>)))"
    using False by (simp add: js_buffer_create_def new_u8array_def)
  show ?thesis
    unfolding e
  proof (rule bsafe_bind_any [OF assms bsafe_malloc], rule bsafeI)
    fix rt :: js_rt
    have "grows rt (rt\<lparr>abufs := abufs rt @ [replicate (unat n) 0]\<rparr>)"
      using n by (auto simp: grows_def bufs_ok_def nth_append)
    then show "\<exists>r rt'. Some (Ret (JView (length (abufs rt)) 0 (unat n)),
        rt\<lparr>abufs := abufs rt @ [replicate (unat n) 0]\<rparr>) = Some (r, rt') \<and> grows rt rt' \<and>
        (\<forall>x. r = Ret x \<longrightarrow> (\<exists>b. x = JView b 0 (unat n) \<and> valid rt' (b, 0, unat n) \<and> unat n \<le> 0x7FFFFFFF))"
      using n by (auto simp: nth_append)
  qed
qed

lemma bsafe_new_string:
  assumes st: "stable I"
  shows "bsafe I (new_string_utf8 mf s) (\<lambda>x rt. True)"
proof -
  obtain us where us: "string_of_utf8 s = Some us" using string_of_utf8_total by blast
  have widen: "bsafe I (string_buffer_widen mf p n) (\<lambda>x rt. True)" for p n
    unfolding string_buffer_widen_def
    by (rule bsafe_seq [OF st, where Q = "\<lambda>x rt. True"])
      (auto simp: bsafe_def js_realloc_def js_realloc_rt_def JS_ThrowOutOfMemory_def js_throw_def
        js_free_def js_free_rt_def js_return_def split: if_splits intro!: grows_same)
  have fin: "bsafe I (string_buffer_end mf n us) (\<lambda>x rt. True)" for n us
    by (auto simp: bsafe_def string_buffer_end_def js_realloc_rt_def intro!: grows_same)
  have rest: "bsafe I (js_bind (js_lift (string_of_utf8 s)) (\<lambda>us.
        js_bind (if \<exists>u \<in> set us. u \<ge> 0x100 then string_buffer_widen mf p (length s) else js_return ()) (\<lambda>_.
        string_buffer_end mf (length s) us))) (\<lambda>x rt. True)" for p
    by (rule bsafe_bind_lift [OF us], rule bsafe_bind_any [OF st]) (auto intro: widen bsafe_return fin)
  show ?thesis
    unfolding new_string_utf8_def
    by (intro bsafe_if bsafe_throw bsafe_bind_any [OF st bsafe_malloc] rest bsafe_return TrueI)
qed

lemma bsafe_NewStringLen: "stable I \<Longrightarrow> bsafe I (JS_NewStringLen mf s) (\<lambda>v rt. \<exists>u. v = JStr u)"
  unfolding JS_NewStringLen_def by (rule bsafe_bind_any [OF _ bsafe_new_string]) (auto intro: bsafe_return)

end
