(* ===== verification/Buffer_Contracts.thy ===== *)
theory Buffer_Contracts
  imports Buffer_Safe
begin

text \<open>
  The contracts of the codecs and of every method of \<open>Buffer\<close> but \<open>copy\<close>: from any state
  whose array buffers are within the engine's limit, and whatever the arguments, the
  conversions and the allocator do, a method ends, stays inside its buffers, keeps the
  length of every buffer and returns only views that lie inside their buffers.
\<close>

section \<open>The codecs\<close>

lemma out_byte_fits: "length out < cap \<Longrightarrow> out_byte cap out w = Some (out @ [ucast (w AND 0xFF)])"
  by (simp add: out_byte_def)

lemma b64_group_safe:
  assumes "length out + (3 * length src + 3) div 4 \<le> cap" "src \<noteq> []"
  shows "\<exists>r. b64_decode_group cap src out = Some r \<and>
    (\<forall>o1. r = Some o1 \<longrightarrow> length o1 + (3 * length (drop 4 src) + 3) div 4
        \<le> length out + (3 * length src + 3) div 4)"
proof -
  consider (one) "length src = 1" | (two) "length src = 2" | (three) "length src = 3" | (more) "length src \<ge> 4"
    using assms(2) by (cases "length src"; force)
  then show ?thesis
  proof cases
    case more
    have "(3 * length src + 3) div 4 = 3 + (3 * length (drop 4 src) + 3) div 4" using more by simp
    then show ?thesis
      using assms(1) by (auto simp: b64_decode_group_def Let_def out_byte_def)
  qed (use assms(1) in \<open>auto simp: b64_decode_group_def Let_def out_byte_def\<close>)
qed

lemma b64_decode_safe:
  assumes "length out + (3 * length src + 3) div 4 \<le> cap"
  shows "\<exists>r. b64_decode_loop cap src out = Some r \<and>
    (\<forall>o1. r = Some o1 \<longrightarrow> length o1 \<le> length out + (3 * length src + 3) div 4)"
  using assms
proof (induction cap src out rule: b64_decode_loop.induct)
  case (1 cap out)
  then show ?case by simp
next
  case (2 cap x xs out)
  from b64_group_safe [OF "2.prems"] obtain r where r: "b64_decode_group cap (x # xs) out = Some r"
    "\<And>o1. r = Some o1 \<Longrightarrow> length o1 + (3 * length (drop 3 xs) + 3) div 4
        \<le> length out + (3 * length (x # xs) + 3) div 4" by fastforce
  show ?case
  proof (cases r)
    case None
    with r(1) show ?thesis by simp
  next
    case (Some o1)
    from r(2) [OF this] have le: "length o1 + (3 * length (drop 3 xs) + 3) div 4
        \<le> length out + (3 * length (x # xs) + 3) div 4" .
    with "2.prems" have "length o1 + (3 * length (drop 3 xs) + 3) div 4 \<le> cap" by linarith
    from "2.IH" [OF r(1) Some this] le r(1) Some show ?thesis by force
  qed
qed

lemma bsafe_text_block:
  assumes "stable I" "m = Some cs" "length cs = n"
  shows "bsafe I
    (js_bind (js_malloc mf (n + 1)) (\<lambda>p.
     js_bind (js_lift (do { cs \<leftarrow> m; out \<leftarrow> blit (junk_bytes mf p (n + 1)) 0 cs; wr out (length cs) 0 })) (\<lambda>out.
     js_try (JS_NewStringLen mf (c_str out)) (js_free p) (\<lambda>ret.
     js_bind (js_free p) (\<lambda>_. js_return ret))))) (\<lambda>v rt. \<exists>s. v = JStr s)"
proof (rule bsafe_bind_any [OF assms(1) bsafe_malloc])
  fix p
  have "\<exists>out. (do { cs \<leftarrow> m; out \<leftarrow> blit (junk_bytes mf p (n + 1)) 0 cs; wr out (length cs) 0 }) = Some out"
    using assms(2,3) by (simp add: blit_def wr_def junk_bytes_def)
  then obtain out where
    out: "(do { cs \<leftarrow> m; out \<leftarrow> blit (junk_bytes mf p (n + 1)) 0 cs; wr out (length cs) 0 }) = Some out" ..
  show "bsafe I (js_bind (js_lift (do { cs \<leftarrow> m; out \<leftarrow> blit (junk_bytes mf p (n + 1)) 0 cs; wr out (length cs) 0 })) (\<lambda>out.
     js_try (JS_NewStringLen mf (c_str out)) (js_free p) (\<lambda>ret.
     js_bind (js_free p) (\<lambda>_. js_return ret)))) (\<lambda>v rt. \<exists>s. v = JStr s)"
  proof (rule bsafe_bind_lift [OF out], rule bsafe_seq [OF assms(1) bsafe_NewStringLen [OF assms(1)]])
    show "\<exists>r rt'. js_free p rt = Some (r, rt') \<and> grows rt rt'" for rt
      by (auto simp: js_free_def js_free_rt_def intro: grows_same)
    show "bsafe (\<lambda>rt. I rt \<and> (\<exists>u. x = JStr u)) (js_bind (js_free p) (\<lambda>_. js_return x)) (\<lambda>v rt. \<exists>s. v = JStr s)" for x
      by (rule bsafe_bind_any [OF _ bsafe_free]) (use assms(1) in \<open>auto intro!: bsafe_return\<close>)
  qed
qed

lemma bsafe_bytes_to_string:
  assumes st: "stable I"
  shows "bsafe I (js_buffer_bytes_to_string mf bs enc) (\<lambda>v rt. \<exists>s. v = JStr s)"
proof -
  have b64: "bsafe I (js_buffer_base64_encode mf bs url) (\<lambda>v rt. \<exists>s. v = JStr s)" for url
  proof -
    define table where "table = (if url then b64url_table else b64_table)"
    have "table = b64_table \<or> table = b64url_table" by (simp add: table_def)
    from b64_roundtrip_loop [OF this, of bs] obtain core pad where
      "b64_encode_loop table bs = Some (core @ pad)" "length (core @ pad) = 4 * ((length bs + 2) div 3)" by blast
    from bsafe_text_block [OF st this] show ?thesis
      by (simp add: js_buffer_base64_encode_def table_def Let_def)
  qed
  have hex: "bsafe I (js_buffer_hex_encode mf bs) (\<lambda>v rt. \<exists>s. v = JStr s)"
  proof -
    from hex_roundtrip_loop [of bs] obtain s where "hex_encode_loop bs = Some s" "length s = 2 * length bs" by blast
    from bsafe_text_block [OF st this] \<open>length s = 2 * length bs\<close> show ?thesis
      using \<open>hex_encode_loop bs = Some s\<close> by (simp add: js_buffer_hex_encode_def mult.commute)
  qed
  have str: "bsafe I (JS_NewStringLen mf bs) (\<lambda>v rt. \<exists>s. v = JStr s)"
    by (rule bsafe_NewStringLen [OF st])
  show ?thesis
    by (cases enc) (simp_all add: js_buffer_bytes_to_string_def b64 hex str bsafe_throw)
qed

lemma length_hex_decode: "hex_decode_loop s = Some bs \<Longrightarrow> length bs \<le> length s"
  by (induction s arbitrary: bs rule: hex_decode_loop.induct) (auto simp: bind_eq_Some_conv le_SucI)

lemma bsafe_string_to_bytes:
  assumes st: "stable I"
  shows "bsafe I (js_buffer_string_to_bytes mf str enc) (\<lambda>bs rt. length bs \<le> length str)"
proof -
  have raw: "bsafe I (js_bind (js_malloc mf n) (\<lambda>_. js_return bs)) (\<lambda>bs rt. length bs \<le> length str)"
    if "length bs \<le> length str" for n bs
    by (rule bsafe_bind_any [OF st bsafe_malloc]) (rule bsafe_return, rule that)
  have fail: "bsafe I (js_bind (js_free p) (\<lambda>_. js_null)) (\<lambda>bs rt. length bs \<le> length str)" for p :: nat
    by (rule bsafe_bind_any [OF st bsafe_free bsafe_null])
  have hex: "bsafe I (js_buffer_hex_decode mf str) (\<lambda>bs rt. length bs \<le> length str)"
    unfolding js_buffer_hex_decode_def
    by (auto intro!: bsafe_null bsafe_bind_any [OF st bsafe_malloc] fail bsafe_return length_hex_decode
        split: option.split)
  have b64: "bsafe I (js_buffer_base64_decode mf str) (\<lambda>bs rt. length bs \<le> length str)"
  proof -
    define src where "src = strip_pad str"
    have len: "length src \<le> length str"
      unfolding src_def strip_pad_def using length_dropWhile_le [of _ "rev str"] by simp
    obtain r where r: "b64_decode_loop ((3 * length src + 3) div 4) src [] = Some r"
        "\<And>o1. r = Some o1 \<Longrightarrow> length o1 \<le> (3 * length src + 3) div 4"
      using b64_decode_safe [of "[]" src "(3 * length src + 3) div 4"] by auto
    have le: "(3 * length src + 3) div 4 \<le> length str" using len by (cases "length src = 0") auto
    show ?thesis
      unfolding js_buffer_base64_decode_def src_def [symmetric] Let_def mult.commute [of "length src" 3]
      by (rule bsafe_bind_any [OF st bsafe_malloc], rule bsafe_bind_lift [OF r(1)])
        (use r(2) le in \<open>auto intro!: fail bsafe_return split: option.split intro: order_trans\<close>)
  qed
  show ?thesis
    by (cases enc) (simp_all add: js_buffer_string_to_bytes_def raw hex b64 bsafe_null)
qed

section \<open>Ranges\<close>

lemma u64_of_nat: "n \<le> 0xFFFFFFFF \<Longrightarrow> unat (of_nat n :: u64) = n"
  by (rule unat_of_nat_small) simp

lemma sint_unat: "unat (x :: u64) < 0x8000000000000000 \<Longrightarrow> sint x = int (unat x)"
proof -
  assume a: "unat x < 0x8000000000000000"
  have e: "uint x = int (unat x)" by simp
  have l: "uint x < 0x8000000000000000" using a unfolding e by linarith
  have g: "0 \<le> uint x" by simp
  have u: "- (2 ^ 63) \<le> uint x" "uint x < 2 ^ 63" using l order_trans [OF _ g] by simp_all
  then have "signed_take_bit 63 (uint x) = uint x"
    by (intro signed_take_bit_int_eq_self) simp_all
  then show ?thesis by (simp add: sint_uint)
qed

lemma sless_0_iff: "(x :: u64) <s 0 \<longleftrightarrow> 0x8000000000000000 \<le> unat x"
proof
  assume "x <s 0"
  then have "sint x < 0" by (simp add: word_sless_alt)
  then show "0x8000000000000000 \<le> unat x" using sint_unat [of x] by linarith
next
  assume a: "0x8000000000000000 \<le> unat x"
  show "x <s 0"
  proof (rule ccontr)
    assume "\<not> x <s 0"
    then have s: "0 \<le> sint x" by (simp add: word_sless_alt)
    have m: "sint x < 0x8000000000000000" using sint_lt [of x] by simp
    have "uint x = take_bit 64 (sint x)" using uint_sint [of x] by simp
    also have "\<dots> = sint x" using s m by (simp add: take_bit_int_eq_self)
    finally have "int (unat x) = sint x" by simp
    with a m show False by linarith
  qed
qed

lemma clamp_fits:
  fixes start fin :: u64
  assumes len: "len \<le> 0x7FFFFFFF" and s: "\<not> start <s 0" and f: "\<not> of_nat len <s fin" and lt: "\<not> fin \<le>s start"
  shows "unat start + unat (fin - start) = unat fin" "unat fin \<le> len"
proof -
  have l: "unat (of_nat len :: u64) = len" using len by (intro u64_of_nat) simp
  have ls: "sint (of_nat len :: u64) = int len" using sint_unat [of "of_nat len"] l len by simp
  have ss: "sint start = int (unat start)" using s by (intro sint_unat) (simp add: sless_0_iff)
  have "sint start < sint fin" using lt by (simp add: word_sle_eq)
  then have "0 \<le> sint fin" using ss by linarith
  then have "\<not> fin <s 0" by (simp add: word_sless_alt)
  then have fs: "sint fin = int (unat fin)" by (intro sint_unat) (simp add: sless_0_iff)
  have "sint fin \<le> int len" using f ls by (simp add: word_sless_alt)
  then show "unat fin \<le> len" using fs by linarith
  have "unat start \<le> unat fin" using \<open>sint start < sint fin\<close> ss fs by linarith
  then show "unat start + unat (fin - start) = unat fin"
    by (simp add: unat_sub word_le_nat_alt)
qed

end
