(* ===== verification/Buffer_Methods.thy ===== *)
theory Buffer_Methods
  imports Buffer_Contracts
begin

text \<open>The contract of every method of \<open>Buffer\<close> but \<open>copy\<close>, from the contracts of the primitives.\<close>

section \<open>Steps\<close>

text \<open>The binds over the primitives that tell nothing of the state.\<close>

lemma bsafe_bind_get_bytes:
  assumes "stable I"
    and "\<And>b off len. v = JView b off len \<Longrightarrow> bsafe (\<lambda>rt. I rt \<and> valid rt (b, off, len)) (k (Some (b, off, len))) P"
    and "bsafe I (k None) P"
  shows "bsafe I (js_bind (js_buffer_get_bytes v) k) P"
proof (rule bsafe_bind [OF assms(1) bsafe_get_bytes])
  fix p :: "(nat \<times> nat \<times> nat) option"
  show "bsafe (\<lambda>rt. I rt \<and> (\<forall>x. p = Some x \<longrightarrow> valid rt x \<and> v = JView (fst x) (fst (snd x)) (snd (snd x)))) (k p) P"
  proof (cases p)
    case None
    with assms(3) show ?thesis by simp
  next
    case (Some x)
    obtain b off len where x: "x = (b, off, len)" by (cases x)
    show ?thesis
    proof (rule bsafe_cases)
      show "v = JView b off len"
        if "I rt \<and> (\<forall>x. p = Some x \<longrightarrow> valid rt x \<and> v = JView (fst x) (fst (snd x)) (snd (snd x)))" for rt
        using that by (simp add: Some x)
      assume "v = JView b off len"
      from assms(2) [OF this] show "bsafe (\<lambda>rt. I rt \<and> (\<forall>x. p = Some x \<longrightarrow> valid rt x \<and>
          v = JView (fst x) (fst (snd x)) (snd (snd x)))) (k p) P"
        unfolding Some x by (rule bsafe_weaken) auto
    qed
  qed
qed

lemma bsafe_any_GetArrayBuffer: "bsafe I (JS_GetArrayBuffer v) (\<lambda>p rt. True)"
  by (rule bsafe_weaken [OF bsafe_GetArrayBuffer]) auto

text \<open>A new buffer and what the code does with its bytes.\<close>

lemma bsafe_try_create:
  assumes "stable I" "\<And>rt. \<exists>r rt'. h rt = Some (r, rt') \<and> grows rt rt'"
    and "\<And>b. unat n \<le> 0x7FFFFFFF \<Longrightarrow> bsafe (\<lambda>rt. I rt \<and> valid rt (b, 0, unat n)) (k (JView b 0 (unat n))) P"
  shows "bsafe I (js_try (js_buffer_create mf n) h k) P"
proof (rule bsafe_seq [OF assms(1) bsafe_create [OF assms(1)] assms(2)])
  fix v
  show "bsafe (\<lambda>rt. I rt \<and> (\<exists>b. v = JView b 0 (unat n) \<and> valid rt (b, 0, unat n) \<and> unat n \<le> 0x7FFFFFFF)) (k v) P"
  proof (rule bsafe_cases)
    show "\<exists>b. v = JView b 0 (unat n) \<and> unat n \<le> 0x7FFFFFFF"
      if "I rt \<and> (\<exists>b. v = JView b 0 (unat n) \<and> valid rt (b, 0, unat n) \<and> unat n \<le> 0x7FFFFFFF)" for rt
      using that by blast
    assume "\<exists>b. v = JView b 0 (unat n) \<and> unat n \<le> 0x7FFFFFFF"
    then obtain b where b: "v = JView b 0 (unat n)" "unat n \<le> 0x7FFFFFFF" by blast
    show "bsafe (\<lambda>rt. I rt \<and> (\<exists>b. v = JView b 0 (unat n) \<and> valid rt (b, 0, unat n) \<and> unat n \<le> 0x7FFFFFFF)) (k v) P"
      by (rule bsafe_weaken [OF assms(3) [OF b(2), of b, folded b(1)]]) (auto simp: b(1))
  qed
qed

lemmas bsafe_bind_create = bsafe_try_create [where h = "js_return ()", folded js_bind_def]

lemma free_grows: "\<exists>r rt'. js_free p rt = Some (r, rt') \<and> grows rt rt'"
  by (auto simp: js_free_def js_free_rt_def intro: grows_same)

lemma return_grows: "\<exists>r rt'. js_return x rt = Some (r, rt') \<and> grows rt rt'"
  by (auto simp: js_return_def)

lemma bsafe_create_val: "stable I \<Longrightarrow> bsafe I (js_buffer_create mf n) (\<lambda>v rt. val_ok rt v)"
  by (rule bsafe_weaken [OF bsafe_create]) auto

lemma bsafe_bytes_val: "stable I \<Longrightarrow> bsafe I (js_buffer_bytes_to_string mf bs enc) (\<lambda>v rt. val_ok rt v)"
  by (rule bsafe_weaken [OF bsafe_bytes_to_string]) auto

lemma bsafe_string_val: "stable I \<Longrightarrow> bsafe I (JS_NewStringLen mf bs) (\<lambda>v rt. val_ok rt v)"
  by (rule bsafe_weaken [OF bsafe_NewStringLen]) auto

lemma bsafe_copy_bytes:
  assumes "stable I" "\<And>rt. I rt \<Longrightarrow> valid rt (b, i, n)" "\<And>rt. I rt \<Longrightarrow> valid rt (b1, i1, n)"
  shows "bsafe I (js_bind (rd_bytes b i n) (\<lambda>xs. wr_bytes b1 i1 xs)) (\<lambda>x rt. True)"
  by (rule bsafe_bind_val [OF assms(1) bsafe_rd_bytes [OF assms(2)]], assumption, rule bsafe_wr_bytes)
    (use assms(3) in blast)

lemmas bsafe_any_steps =
  bsafe_bind_any [OF _ bsafe_ToInt64] bsafe_bind_any [OF _ bsafe_ToInt32]
  bsafe_bind_any [OF _ bsafe_opt_int64] bsafe_bind_any [OF _ bsafe_num_int64]
  bsafe_bind_any [OF _ bsafe_malloc] bsafe_bind_any [OF _ bsafe_free]

lemma bsafe_view_fill:
  assumes "\<And>rt. I rt \<Longrightarrow> v \<noteq> None \<longrightarrow> valid rt (the v)"
  shows "bsafe I (view_fill v x) (\<lambda>x rt. True)"
  using assms by (auto simp: view_fill_def split: option.split intro!: bsafe_return bsafe_wr_bytes)

section \<open>The static methods\<close>

text \<open>Strings of the engine are shorter than \<open>2^32\<close> bytes in UTF-8 (\<open>JS_STRING_LEN_MAX\<close>).\<close>

fun str_ok :: "jsval \<Rightarrow> bool" where
  "str_ok (JStr s) = (length (utf8_of_string s) \<le> 0xFFFFFFFF)"
| "str_ok _ = True"

lemma str_bytes_ok: "str_ok v \<Longrightarrow> length (str_bytes v) \<le> 0xFFFFFFFF"
  by (cases v) auto

abbreviation method_safe :: "jsval js \<Rightarrow> bool" where
  "method_safe m \<equiv> bsafe bufs_ok m (\<lambda>v rt. val_ok rt v)"

lemmas method_steps = bsafe_any_steps bsafe_bind_get_bytes bsafe_bind_create [OF _ return_grows]
  bsafe_bind_any [OF _ bsafe_wr_bytes] bsafe_bind_any [OF _ bsafe_return] bsafe_bind_any [OF _ bsafe_copy_bytes]
  bsafe_bind_any [OF _ bsafe_view_fill] bsafe_bind_val [OF _ bsafe_rd_bytes]
  bsafe_return bsafe_throw bsafe_view_u8array bsafe_create_val bsafe_string_val bsafe_bytes_val

lemma from_string_safe:
  assumes "str_ok (argn argv 0)"
  shows "method_safe (js_buffer_from_string mf argv)"
  unfolding js_buffer_from_string_def
proof (rule bsafe_or [OF stable_bufs_ok bsafe_string_to_bytes [OF stable_bufs_ok] bsafe_throw])
  fix bytes :: "u8 list"
  assume "length bytes \<le> length (str_bytes (argn argv 0))"
  with str_bytes_ok [OF assms] have n: "unat (of_nat (length bytes) :: u64) = length bytes"
    by (intro u64_of_nat) linarith
  show "method_safe (js_try (js_buffer_create mf (of_nat (length bytes))) (js_free bytes) (\<lambda>buf.
      js_bind (js_buffer_get_bytes buf) (\<lambda>dst.
      js_bind (case dst of Some (b, off, _) \<Rightarrow> wr_bytes b off bytes | None \<Rightarrow> js_return ()) (\<lambda>_.
      js_bind (js_free bytes) (\<lambda>_. js_return buf)))))"
    by (rule bsafe_try_create [OF stable_bufs_ok free_grows, of "of_nat (length bytes)", unfolded n])
      (auto simp del: valid.simps intro!: method_steps)
qed

lemma from_arraybuffer_safe: "method_safe (js_buffer_from_arraybuffer E argv b ab_len)"
  by (auto simp: js_buffer_from_arraybuffer_def intro!: method_steps)

lemma of_nat_len_fits:
  "bufs_ok rt \<Longrightarrow> valid rt (b, off, len) \<Longrightarrow> len \<le> 0x7FFFFFFF \<and> unat (of_nat len :: u64) = len"
proof -
  assume a: "bufs_ok rt" "valid rt (b, off, len)"
  then have "length (abufs rt ! b) \<le> 0x7FFFFFFF" by (simp add: bufs_ok_def)
  with a(2) have "len \<le> 0x7FFFFFFF" by simp
  then show ?thesis by (simp add: u64_of_nat)
qed

lemma from_view_safe: "bsafe (\<lambda>rt. bufs_ok rt \<and> valid rt v) (js_buffer_from_view mf v) (\<lambda>v rt. val_ok rt v)"
proof -
  obtain b off len where v: "v = (b, off, len)" by (cases v)
  show ?thesis
    unfolding v
  proof (rule bsafe_cases [where Q = "unat (of_nat len :: u64) = len"])
    assume n: "unat (of_nat len :: u64) = len"
    show "bsafe (\<lambda>rt. bufs_ok rt \<and> valid rt (b, off, len)) (js_buffer_from_view mf (b, off, len)) (\<lambda>v rt. val_ok rt v)"
      unfolding js_buffer_from_view_def prod.case
      by (auto simp del: valid.simps simp: n intro!: method_steps)
  qed (use of_nat_len_fits in blast)
qed

lemma from_array_loop_safe:
  assumes "i + k \<le> n" "stable I" "\<And>rt. I rt \<Longrightarrow> valid rt (b, off, n)"
  shows "bsafe I (from_array_loop E arr b off i k) (\<lambda>x rt. True)"
  using assms(1)
proof (induction k arbitrary: i)
  case 0
  then show ?case by (simp add: bsafe_return)
next
  case (Suc k)
  have w: "bsafe I (wr_bytes b (off + i) [x]) (\<lambda>x rt. True)" for x
    by (rule bsafe_wr_bytes, drule assms(3)) (use Suc.prems in simp)
  have e: "bsafe I (\<lambda>rt. Some (Ret (), rt\<lparr>exc := e\<rparr>)) (\<lambda>x rt. True)" for e
    by (auto simp: bsafe_def intro: grows_same)
  show ?case
    unfolding from_array_loop.simps Let_def
    by (rule bsafe_bind_any [OF assms(2)]) (use Suc in \<open>auto intro!: w e bsafe_return split: sum.split\<close>)
qed

lemma from_array_safe: "method_safe (js_buffer_from_array E mf arr)"
  unfolding js_buffer_from_array_def
  by (auto simp del: valid.simps from_array_loop.simps
      intro!: method_steps bsafe_bind_any [OF _ from_array_loop_safe [where n = "unat _"]])

lemma from_safe:
  assumes "str_ok (argn argv 0)"
  shows "method_safe (js_buffer_from E mf argv)"
  unfolding js_buffer_from_def
  by (auto simp del: valid.simps intro!: method_steps from_string_safe assms from_arraybuffer_safe
      from_array_safe from_view_safe bsafe_bind_any [OF _ bsafe_any_GetArrayBuffer] split: option.split)

lemma alloc_safe: "method_safe (js_buffer_alloc E mf argv)"
proof -
  have fill: "bsafe I (case v of JStr s \<Rightarrow> js_return (first_byte (utf8_of_string s))
      | v \<Rightarrow> js_bind (ToInt32 E v) (\<lambda>w. js_return (ucast (w AND 0xFF)))) (\<lambda>x rt. True)" if "stable I" for I v
    using that by (cases v) (auto intro!: method_steps)
  show ?thesis
    unfolding js_buffer_alloc_def
    by (auto simp del: valid.simps intro!: method_steps bsafe_bind_any [OF _ fill] split: sum.split)
qed

lemma allocUnsafe_safe: "method_safe (js_buffer_allocUnsafe E mf argv)"
  unfolding js_buffer_allocUnsafe_def by (auto intro!: method_steps split: sum.split)

lemma isBuffer_safe: "method_safe (js_buffer_isBuffer E argv)"
  unfolding js_buffer_isBuffer_def by (auto intro!: method_steps)

lemma concat_total_safe: "stable I \<Longrightarrow> bsafe I (concat_total E xs i k n) (\<lambda>x rt. True)"
proof (induction k arbitrary: i n I)
  case 0
  then show ?case by (simp add: bsafe_return)
next
  case (Suc k)
  show ?case
    unfolding concat_total.simps
    by (auto simp del: valid.simps intro!: bsafe_bind_get_bytes Suc.IH Suc.prems)
qed

lemma concat_copy_safe:
  assumes "offset \<le> tot" "stable I" "\<And>rt. I rt \<Longrightarrow> valid rt (b1, off1, tot)"
  shows "bsafe I (concat_copy E xs (Some (b1, off1, len1)) tot i k offset) (\<lambda>x rt. True)"
  using assms
proof (induction k arbitrary: i offset I)
  case 0
  then show ?case by (simp add: bsafe_return)
next
  case (Suc k)
  show ?case
  proof (cases "offset < tot")
    case True
    show ?thesis
      unfolding concat_copy.simps if_P [OF True]
    proof (rule bsafe_bind_get_bytes [OF Suc.prems(2)], simp_all only: option.case prod.case)
      fix b off len
      define n where "n = (if offset + len \<le> tot then len else tot - offset)"
      have n: "n \<le> len" "offset + n \<le> tot" using True by (auto simp: n_def)
      have st: "stable (\<lambda>rt. I rt \<and> valid rt (b, off, len))" by (rule stable_conj [OF Suc.prems(2) stable_valid])
      have v: "valid rt (b, off, n)" "valid rt (b1, off1 + offset, n)" if "I rt \<and> valid rt (b, off, len)" for rt
        using that Suc.prems(3) [of rt] n by auto
      show "bsafe (\<lambda>rt. I rt \<and> valid rt (b, off, len))
         (let to_copy = if offset + len \<le> tot then len else tot - offset in
          js_bind (rd_bytes b off to_copy) (\<lambda>bytes. js_bind (wr_bytes b1 (off1 + offset) bytes) (\<lambda>_.
            concat_copy E xs (Some (b1, off1, len1)) tot (i + 1) k (offset + to_copy)))) (\<lambda>x rt. True)"
        unfolding Let_def n_def [symmetric]
        by (rule bsafe_bind_val [OF st bsafe_rd_bytes [OF v(1)]], assumption,
            rule bsafe_bind_any [OF st bsafe_wr_bytes], use v(2) in blast,
            rule Suc.IH [OF n(2) st]) (use Suc.prems(3) in blast)
    qed (use Suc in blast)
  next
    case False
    then show ?thesis by (simp add: bsafe_return)
  qed
qed

lemma concat_copy_none: "stable I \<Longrightarrow> bsafe I (concat_copy E xs None tot i k offset) (\<lambda>x rt. True)"
proof (induction k arbitrary: i offset I)
  case 0
  then show ?case by (simp add: bsafe_return)
next
  case (Suc k)
  show ?case
    unfolding concat_copy.simps
    by (auto simp del: valid.simps intro!: bsafe_bind_get_bytes bsafe_return Suc.IH Suc.prems)
qed

lemma concat_safe: "method_safe (js_buffer_concat E mf argv)"
  unfolding js_buffer_concat_def Let_def
  by (auto simp del: valid.simps concat_copy.simps concat_total.simps
      intro!: method_steps bsafe_bind_any [OF _ concat_total_safe] bsafe_bind_any [OF _ concat_copy_safe]
        bsafe_bind_any [OF _ concat_copy_none])

lemma byteLength_safe: "method_safe (js_buffer_byteLength mf argv)"
proof -
  have "method_safe (js_or (js_buffer_string_to_bytes mf str enc)
      (js_throw e) (\<lambda>bytes. js_bind (js_free bytes) (\<lambda>_. js_return (JNum (of_nat (length bytes))))))" for str enc e
    by (rule bsafe_or [OF stable_bufs_ok bsafe_string_to_bytes [OF stable_bufs_ok]]) (auto intro!: method_steps)
  then show ?thesis
    unfolding js_buffer_byteLength_def Let_def
    by (auto simp del: valid.simps intro!: method_steps bsafe_bind_any [OF _ bsafe_any_GetArrayBuffer]
        split: option.split)
qed

lemma two_views_safe: "stable I \<Longrightarrow> bsafe I (two_views v1 v2) (\<lambda>x rt. True)"
  unfolding two_views_def
  by (auto simp del: valid.simps intro!: method_steps stable_conj split: option.split)

lemma compare_static_safe: "method_safe (js_buffer_compare_static E argv)"
  unfolding js_buffer_compare_static_def
  by (auto intro!: method_steps bsafe_bind_any [OF _ two_views_safe] split: option.split)

lemma compare_inst_safe: "method_safe (js_buffer_compare_inst E this argv)"
  unfolding js_buffer_compare_inst_def
  by (auto intro!: method_steps bsafe_bind_any [OF _ two_views_safe] split: option.split)

lemma equals_safe: "method_safe (js_buffer_equals E this argv)"
  unfolding js_buffer_equals_def
  by (auto intro!: method_steps bsafe_bind_any [OF _ two_views_safe] split: option.split)

lemma toJSON_safe: "method_safe (js_buffer_toJSON this)"
  unfolding js_buffer_toJSON_def
  by (auto simp del: valid.simps intro!: method_steps)

section \<open>The methods over a range\<close>

lemma clamp_valid:
  fixes start fin :: u64
  assumes "bufs_ok rt" "valid rt (b, off, len)"
    and "\<not> start <s 0" "\<not> of_nat len <s fin" "\<not> fin \<le>s start"
  shows "valid rt (b, off + unat start, unat (fin - start))"
proof -
  from of_nat_len_fits [OF assms(1,2)] have "len \<le> 0x7FFFFFFF" by blast
  from clamp_fits [OF this assms(3-5)] assms(2) show ?thesis by simp
qed

lemma toString_safe: "method_safe (js_buffer_toString E mf this argv)"
  unfolding js_buffer_toString_def
proof (rule bsafe_bind_get_bytes [OF stable_bufs_ok], simp_all only: option.case prod.case bsafe_throw)
  fix b off len
  define I where "I = (\<lambda>rt. bufs_ok rt \<and> valid rt (b, off, len))"
  have st: "stable I" by (auto simp: I_def simp del: valid.simps)
  have "bsafe I (let s = (if start <s 0 then 0 else start); f = (if of_nat len <s fin then of_nat len else fin)
         in if f \<le>s s then JS_NewStringLen mf []
            else js_bind (rd_bytes b (off + unat s) (unat (f - s))) (\<lambda>bytes.
                 js_buffer_bytes_to_string mf bytes (enc_arg argv 1 0))) (\<lambda>v rt. val_ok rt v)" for start fin :: u64
  proof -
    define s f where "s = (if start <s 0 then 0 else start)" and "f = (if of_nat len <s fin then of_nat len else fin)"
    have "\<not> s <s 0" "\<not> of_nat len <s f" by (auto simp: s_def f_def)
    then have "valid rt (b, off + unat s, unat (f - s))" if "I rt" "\<not> f \<le>s s" for rt
      using clamp_valid [of rt b off len s f] that by (simp add: I_def)
    then show ?thesis
      unfolding Let_def s_def [symmetric] f_def [symmetric]
      by (auto simp del: valid.simps intro!: method_steps st)
  qed
  then show "bsafe (\<lambda>rt. bufs_ok rt \<and> valid rt (b, off, len))
    (js_bind (opt_int64 E argv 2 1 0) (\<lambda>start. js_bind (opt_int64 E argv 3 2 (of_nat len)) (\<lambda>fin.
         let start = (if start <s 0 then 0 else start);
             fin = (if of_nat len <s fin then of_nat len else fin)
         in if fin \<le>s start then JS_NewStringLen mf []
            else js_bind (rd_bytes b (off + unat start) (unat (fin - start))) (\<lambda>bytes.
                 js_buffer_bytes_to_string mf bytes (enc_arg argv 1 0))))) (\<lambda>v rt. val_ok rt v)"
    unfolding I_def [symmetric] by (intro bsafe_any_steps st)
qed

lemma clamp_lo: "\<not> (if x <s 0 then 0 else x :: u64) <s 0"
  by simp

lemma clamp_hi: "\<not> n <s (if n <s x then n else x :: u64)"
  by simp

lemma slice_range_ok: "slice_range len s0 f0 = (s, f) \<Longrightarrow> \<not> s <s 0 \<and> \<not> of_nat len <s f"
  unfolding slice_range_def Let_def prod.inject using clamp_lo clamp_hi by blast

lemma slice_valid:
  assumes "slice_range len s0 f0 = (s, f)" "\<not> f \<le>s s" "bufs_ok rt" "valid rt (b, off, len)"
  shows "valid rt (b, off + unat s, unat (f - s))"
  using clamp_valid [OF assms(3,4) _ _ assms(2)] slice_range_ok [OF assms(1)] by blast

lemma slice_safe: "method_safe (js_buffer_slice E mf this argv)"
  unfolding js_buffer_slice_def
proof (rule bsafe_bind_get_bytes [OF stable_bufs_ok], simp_all only: option.case prod.case bsafe_throw)
  fix b off len
  define I where "I = (\<lambda>rt. bufs_ok rt \<and> valid rt (b, off, len))"
  have st: "stable I" by (auto simp: I_def simp del: valid.simps)
  have "bsafe I (let (start, fin) = slice_range len s0 f0
         in if fin \<le>s start then js_buffer_create mf 0
            else
              js_bind (js_buffer_create mf (fin - start)) (\<lambda>buf.
              js_bind (js_buffer_get_bytes buf) (\<lambda>dst.
              js_bind (case dst of
                  Some (b1, off1, _) \<Rightarrow>
                    js_bind (rd_bytes b (off + unat start) (unat (fin - start))) (\<lambda>xs. wr_bytes b1 off1 xs)
                | None \<Rightarrow> js_return ()) (\<lambda>_. js_return buf)))) (\<lambda>v rt. val_ok rt v)" for s0 f0
  proof -
    obtain s f where r: "slice_range len s0 f0 = (s, f)" by (cases "slice_range len s0 f0")
    have v: "valid rt (b, off + unat s, unat (f - s))" if "I rt" "\<not> f \<le>s s" for rt
      using slice_valid [OF r that(2)] that(1) by (simp add: I_def)
    have v2: "bsafe (\<lambda>rt. I rt \<and> valid rt (b1, 0, unat (f - s)))
       (js_bind (rd_bytes b (off + unat s) (unat (f - s))) (wr_bytes b1 0)) (\<lambda>x rt. True)"
      if "\<not> f \<le>s s" for b1
      by (rule bsafe_copy_bytes) (use that v in \<open>auto simp del: valid.simps intro!: st\<close>)
    show ?thesis
      unfolding Let_def r prod.case
      by (auto simp del: valid.simps intro!: bsafe_create_val [OF st] bsafe_return
          bsafe_bind_create [OF st return_grows] bsafe_bind_get_bytes stable_conj [OF st]
          bsafe_bind_any [OF _ v2] bsafe_bind_any [OF _ bsafe_return])
  qed
  then show "bsafe (\<lambda>rt. bufs_ok rt \<and> valid rt (b, off, len))
    (js_bind (if length argv \<ge> 1 \<and> argn argv 1 \<noteq> JUndef then ToInt64 E (argn argv 0) else js_return 0) (\<lambda>start.
     js_bind (opt_int64 E argv 2 1 (of_nat len)) (\<lambda>fin.
         let (start, fin) = slice_range len start fin
         in if fin \<le>s start then js_buffer_create mf 0
            else
              js_bind (js_buffer_create mf (fin - start)) (\<lambda>buf.
              js_bind (js_buffer_get_bytes buf) (\<lambda>dst.
              js_bind (case dst of
                  Some (b1, off1, _) \<Rightarrow>
                    js_bind (rd_bytes b (off + unat start) (unat (fin - start))) (\<lambda>xs. wr_bytes b1 off1 xs)
                | None \<Rightarrow> js_return ()) (\<lambda>_. js_return buf)))))) (\<lambda>v rt. val_ok rt v)"
    unfolding I_def [symmetric]
    by (auto intro!: bsafe_any_steps st bsafe_bind_any [OF st bsafe_return] simp del: valid.simps)
qed

lemma subarray_safe: "method_safe (js_buffer_subarray E mf this argv)"
  unfolding js_buffer_subarray_def
  by (auto simp del: valid.simps intro!: method_steps split: prod.split)

lemma write_range:
  fixes offset to_write :: u64
  assumes len: "bufs_ok rt" "valid rt (b, off, buf_len)" and n: "n \<le> 0xFFFFFFFF"
    and off: "\<not> offset <s 0" "\<not> offset \<ge> of_nat buf_len"
    and w: "to_write = (if offset + m > of_nat buf_len then of_nat buf_len - offset else m)" "m \<le> of_nat n"
  shows "valid rt (b, off + unat offset, unat to_write)" "unat to_write \<le> n"
proof -
  have l: "unat (of_nat buf_len :: u64) = buf_len" "buf_len \<le> 0x7FFFFFFF" using of_nat_len_fits [OF len] by auto
  have nn: "unat (of_nat n :: u64) = n" using n by (rule u64_of_nat)
  have o: "unat offset < buf_len" using off(2) l(1) by (simp add: word_le_nat_alt not_le)
  have m: "unat m \<le> n" using w(2) nn by (simp add: word_le_nat_alt)
  have s: "unat (offset + m) = unat offset + unat m"
    by (rule unat_add_no_wrap) (use o l(2) m n in simp)
  have "unat offset + unat to_write \<le> buf_len \<and> unat to_write \<le> n"
  proof (cases "offset + m > of_nat buf_len")
    case True
    then have "unat (of_nat buf_len :: u64) < unat (offset + m)" by (simp only: word_less_nat_alt)
    then have "buf_len < unat offset + unat m" unfolding l s .
    moreover have "unat to_write = unat (of_nat buf_len - offset)" using True w(1) by simp
    then have "unat to_write = buf_len - unat offset"
      using o l(1) by (simp add: unat_sub word_le_nat_alt del: unat_of_nat)
    ultimately have "unat to_write = buf_len - unat offset" "buf_len < unat offset + unat m" by auto
    then show ?thesis using o m by linarith
  next
    case False
    then have "unat (offset + m) \<le> unat (of_nat buf_len :: u64)" by (simp only: not_less word_le_nat_alt)
    then have "unat offset + unat m \<le> buf_len" unfolding l s .
    moreover have "to_write = m" using False w(1) by simp
    ultimately show ?thesis using m by simp
  qed
  with len(2) show "valid rt (b, off + unat offset, unat to_write)" "unat to_write \<le> n" by auto
qed

lemma write_at_safe:
  assumes n: "length bytes \<le> 0xFFFFFFFF"
  shows "bsafe (\<lambda>rt. bufs_ok rt \<and> valid rt (b, off, buf_len)) (write_at b off buf_len bytes offset len) (\<lambda>v rt. val_ok rt v)"
proof (cases "offset <s 0 \<or> offset \<ge> of_nat buf_len")
  case True
  then show ?thesis by (auto simp del: valid.simps simp: write_at_def intro!: method_steps)
next
  case False
  then have off: "\<not> offset <s 0" "\<not> offset \<ge> of_nat buf_len" by auto
  define I where "I = (\<lambda>rt. bufs_ok rt \<and> valid rt (b, off, buf_len))"
  define m w where "m = (if len < of_nat (length bytes) then len else of_nat (length bytes))"
    and "w = (if offset + m > of_nat buf_len then of_nat buf_len - offset else m)"
  have st: "stable I" by (auto simp: I_def simp del: valid.simps)
  have m: "m \<le> of_nat (length bytes)" by (auto simp: m_def)
  note range = write_range [OF _ _ n off w_def m]
  have e: "write_at b off buf_len bytes offset len =
      js_bind (js_lift (grab bytes 0 (unat w))) (\<lambda>xs. js_bind (wr_bytes b (off + unat offset) xs) (\<lambda>_.
      js_bind (js_free bytes) (\<lambda>_. js_return (JNum (scast (ucast w :: u32))))))"
    using False by (simp add: write_at_def Let_def m_def w_def)
  show ?thesis
    unfolding e I_def [symmetric]
  proof (rule bsafe_cases [where Q = "unat w \<le> length bytes"])
    assume le: "unat w \<le> length bytes"
    then have g: "grab bytes 0 (unat w) = Some (take (unat w) bytes)" by (simp add: grab_def)
    have "bsafe I (wr_bytes b (off + unat offset) (take (unat w) bytes)) (\<lambda>x rt. True)"
      by (rule bsafe_wr_bytes) (use range(1) le in \<open>simp add: I_def min_absorb2\<close>)
    then show "bsafe I (js_bind (js_lift (grab bytes 0 (unat w))) (\<lambda>xs. js_bind (wr_bytes b (off + unat offset) xs) (\<lambda>_.
        js_bind (js_free bytes) (\<lambda>_. js_return (JNum (scast (ucast w :: u32))))))) (\<lambda>v rt. val_ok rt v)"
      by (intro bsafe_bind_lift [OF g] bsafe_bind_any [OF st] bsafe_free bsafe_return) simp_all
  qed (use range(2) in \<open>auto simp: I_def\<close>)
qed

lemma write_safe:
  assumes "str_ok (argn argv 0)"
  shows "method_safe (js_buffer_write E mf this argv)"
proof -
  have "method_safe (js_or (js_buffer_string_to_bytes mf (str_bytes (argn argv 0)) enc) (js_throw e)
          (\<lambda>bytes.
             js_bind (js_buffer_get_bytes this) (\<lambda>p. case p of
               None \<Rightarrow> js_bind (js_free bytes) (\<lambda>_. js_throw (TypeError ''not a Buffer''))
             | Some (b, off, buf_len) \<Rightarrow>
                 js_bind (opt_int64 E argv 2 1 0) (\<lambda>offset.
                 js_bind (opt_int64 E argv 3 2 (of_nat (length bytes))) (\<lambda>len.
                 write_at b off buf_len bytes offset len)))))" for enc e
  proof (rule bsafe_or [OF stable_bufs_ok bsafe_string_to_bytes [OF stable_bufs_ok] bsafe_throw])
    fix bytes :: "u8 list"
    assume "length bytes \<le> length (str_bytes (argn argv 0))"
    with str_bytes_ok [OF assms] have "length bytes \<le> 0xFFFFFFFF" by linarith
    then show "method_safe (js_bind (js_buffer_get_bytes this) (\<lambda>p. case p of
               None \<Rightarrow> js_bind (js_free bytes) (\<lambda>_. js_throw (TypeError ''not a Buffer''))
             | Some (b, off, buf_len) \<Rightarrow>
                 js_bind (opt_int64 E argv 2 1 0) (\<lambda>offset.
                 js_bind (opt_int64 E argv 3 2 (of_nat (length bytes))) (\<lambda>len.
                 write_at b off buf_len bytes offset len))))"
      by (auto simp del: valid.simps intro!: method_steps write_at_safe)
  qed
  then show ?thesis
    unfolding js_buffer_write_def by (split if_split) (blast intro: bsafe_throw)
qed

lemma fill_safe: "method_safe (js_buffer_fill E this argv)"
proof -
  have byte: "bsafe I (case v of
                JStr s \<Rightarrow> js_return (first_byte (utf8_of_string s))
              | JNum n \<Rightarrow> js_bind (ToInt32 E (JNum n)) (\<lambda>w. js_return (ucast (w AND 0xFF)))
              | _ \<Rightarrow> js_return 0) (\<lambda>x rt. True)" if "stable I" for I v
    using that by (cases v) (auto intro!: method_steps)
  have w: "bsafe (\<lambda>rt. bufs_ok rt \<and> valid rt (b, off, len)) (if start <s fin
                 then wr_bytes b (off + unat start) (replicate (unat (fin - start)) x)
                 else js_return ()) (\<lambda>x rt. True)"
    if "\<not> start <s 0" "\<not> of_nat len <s fin" for b off len x and start fin :: u64
  proof (cases "start <s fin")
    case True
    then have "\<not> fin \<le>s start" by (simp add: word_sle_eq word_sless_alt)
    with clamp_valid [OF _ _ that] True show ?thesis by (auto intro!: bsafe_wr_bytes simp del: valid.simps)
  qed (simp add: bsafe_return)
  show ?thesis
    unfolding js_buffer_fill_def Let_def
    by (auto simp del: valid.simps split del: if_split
        intro!: bsafe_if method_steps bsafe_bind_any [OF _ byte] bsafe_bind_any [OF _ w] clamp_lo clamp_hi)
qed

section \<open>Searching\<close>

lemma scan_index_total:
  assumes "\<And>j. i \<le> j \<Longrightarrow> j < i + k \<Longrightarrow> \<exists>x. P j = Some x"
  shows "\<exists>r. scan_index P i k = Some r"
  using assms
proof (induction k arbitrary: i)
  case (Suc k)
  from Suc.prems [of i] obtain x where x: "P i = Some x" by auto
  have "\<exists>r. scan_index P (i + 1) k = Some r" by (rule Suc.IH) (use Suc.prems in auto)
  with x show ?case by (cases x) auto
qed simp

lemma byte_at_total: "j < length buf \<Longrightarrow> \<exists>x. byte_at buf b j = Some x"
  by (simp add: byte_at_def rd_inside)

lemma needle_at_total:
  "needle \<noteq> [] \<Longrightarrow> j + length needle \<le> length buf \<Longrightarrow> \<exists>x. needle_at buf needle j = Some x"
  by (cases needle) (auto simp: needle_at_def rd_inside grab_inside)

lemma find_needle_total: "\<exists>r. find_needle buf needle offset = Some r"
  by (auto simp: find_needle_def intro!: scan_index_total needle_at_total)

lemma bsafe_bind_find:
  assumes "\<And>r. bsafe I (k r) P"
  shows "bsafe I (js_bind (js_lift (find_needle buf needle offset)) k) P"
  using find_needle_total [of buf needle offset] assms by (auto intro: bsafe_bind_lift)

lemma bsafe_bind_scan:
  assumes "n = length buf" "\<And>r. bsafe I (k r) P"
  shows "bsafe I (js_bind (js_lift (scan_index (byte_at buf x) offset (n - offset))) k) P"
proof -
  from scan_index_total [of offset "n - offset" "byte_at buf x"] byte_at_total assms(1)
  obtain r where "scan_index (byte_at buf x) offset (n - offset) = Some r" by fastforce
  from bsafe_bind_lift [OF this assms(2)] show ?thesis .
qed

lemma index_result_ok [simp]: "val_ok rt (index_result r)"
  by (cases r) auto

lemma indexOf_safe: "method_safe (js_buffer_indexOf E mf this argv)"
proof -
  have str: "bsafe I (js_or (js_buffer_string_to_bytes mf s enc) (js_return (JNum (- 1)))
                  (\<lambda>needle. js_bind (js_lift (find_needle buf needle offset)) (\<lambda>r.
                     js_bind (js_free needle) (\<lambda>_. js_return (index_result r))))) (\<lambda>v rt. val_ok rt v)"
    if "stable I" for I s enc buf offset
    by (rule bsafe_or [OF that bsafe_string_to_bytes [OF that]])
      (auto intro!: bsafe_return bsafe_bind_find bsafe_bind_any [OF that bsafe_free])
  show ?thesis
    unfolding js_buffer_indexOf_def Let_def
    by (auto simp del: valid.simps index_result.simps split del: if_split
        intro!: bsafe_if method_steps bsafe_bind_find bsafe_bind_scan str split: jsval.split)
qed

lemma includes_safe: "method_safe (js_buffer_includes E mf this argv)"
  unfolding js_buffer_includes_def
  by (rule bsafe_bind_any [OF _ bsafe_weaken [OF indexOf_safe]]) (auto intro!: method_steps split: jsval.split)

section \<open>Elements\<close>

lemma swap_inner_spec:
  assumes "i + e \<le> length p" "j + k \<le> e div 2"
  shows "\<exists>q. swap_inner p i e j k = Some q \<and> length q = length p \<and>
    (\<forall>x < length p. q ! x = (if i + j \<le> x \<and> x < i + j + k \<or> i + e - j - k \<le> x \<and> x < i + e - j
                             then p ! (i + (i + e - 1 - x)) else p ! x))"
  using assms
proof (induction k arbitrary: p j)
  case 0
  then show ?case by auto
next
  case (Suc k)
  define p1 where "p1 = p[i + j := p ! (i + e - 1 - j), i + e - 1 - j := p ! (i + j)]"
  have b: "i + j < length p" "i + e - 1 - j < length p" using Suc.prems by auto
  have s: "swap_inner p i e j (Suc k) = swap_inner p1 i e (j + 1) k"
    using b by (simp add: p1_def rd_inside wr_inside)
  have p1: "p1 ! x = (if x = i + j \<or> x = i + e - 1 - j then p ! (i + (i + e - 1 - x)) else p ! x)"
    if "x < length p" for x
    using that b Suc.prems by (auto simp: p1_def nth_list_update)
  have len: "i + e \<le> length p1" "j + 1 + k \<le> e div 2" "length p1 = length p"
    using Suc.prems by (simp_all add: p1_def)
  from Suc.IH [OF len(1,2)] obtain q where q: "swap_inner p1 i e (j + 1) k = Some q" "length q = length p"
    "\<And>x. x < length p \<Longrightarrow> q ! x = (if i + (j + 1) \<le> x \<and> x < i + (j + 1) + k \<or>
       i + e - (j + 1) - k \<le> x \<and> x < i + e - (j + 1) then p1 ! (i + (i + e - 1 - x)) else p1 ! x)"
    unfolding len(3) by blast
  have "q ! x = (if i + j \<le> x \<and> x < i + j + Suc k \<or> i + e - j - Suc k \<le> x \<and> x < i + e - j
                 then p ! (i + (i + e - 1 - x)) else p ! x)" if x: "x < length p" for x
  proof (cases "i + (j + 1) \<le> x \<and> x < i + (j + 1) + k \<or> i + e - (j + 1) - k \<le> x \<and> x < i + e - (j + 1)")
    case True
    then have "i + (i + e - 1 - x) < length p" "i + (i + e - 1 - x) \<noteq> i + j"
      "i + (i + e - 1 - x) \<noteq> i + e - 1 - j" using len(2) x Suc.prems(1) by auto
    moreover have "i + j \<le> x \<and> x < i + j + Suc k \<or> i + e - j - Suc k \<le> x \<and> x < i + e - j"
      using True by auto
    ultimately show ?thesis unfolding q(3) [OF x] if_P [OF True] by (simp add: p1)
  next
    case False
    then have "(i + j \<le> x \<and> x < i + j + Suc k \<or> i + e - j - Suc k \<le> x \<and> x < i + e - j)
        \<longleftrightarrow> x = i + j \<or> x = i + e - 1 - j" using len(2) by auto
    then show ?thesis unfolding q(3) [OF x] if_not_P [OF False] by (simp add: p1 [OF x])
  qed
  then show ?case unfolding s using q(1,2) by blast
qed

text \<open>The place that an element exchanges with \<open>x\<close> when elements of \<open>e\<close> bytes start at 0.\<close>

definition mirror :: "nat \<Rightarrow> nat \<Rightarrow> nat" where
  "mirror e x = x div e * e + (e - 1 - x mod e)"

lemma mirror_facts:
  assumes "e > 0"
  shows "mirror e x div e = x div e" "mirror e (mirror e x) = x" "x < n * e \<Longrightarrow> mirror e x < n * e"
proof -
  have m: "e - 1 - x mod e < e" using assms by simp
  have d: "(x div e * e + (e - 1 - x mod e)) div e = x div e" using m by simp
  have r: "(x div e * e + (e - 1 - x mod e)) mod e = e - 1 - x mod e" using m by simp
  show "mirror e x div e = x div e" using d by (simp add: mirror_def)
  have "e - 1 - (e - 1 - x mod e) = x mod e"
    using mod_less_divisor [OF assms, of x] by simp
  then show "mirror e (mirror e x) = x" unfolding mirror_def d r by simp
  assume "x < n * e"
  then have "x div e < n" by (simp add: less_mult_imp_div_less)
  then have "x div e * e + e \<le> n * e" by (metis Suc_leI add.commute mult_Suc mult_le_mono1)
  then show "mirror e x < n * e" unfolding mirror_def using m by linarith
qed

lemma swap_outer_spec:
  assumes "c * e + k * e \<le> length p" "e > 0"
  shows "\<exists>q. swap_outer p (c * e) e k = Some q \<and> length q = length p \<and>
    (\<forall>x < length p. q ! x = (if c \<le> x div e \<and> x div e < c + k then p ! mirror e x else p ! x))"
  using assms(1)
proof (induction k arbitrary: p c)
  case 0
  then show ?case by auto
next
  case (Suc k)
  have fit: "c * e + e \<le> length p" "0 + e div 2 \<le> e div 2" using Suc.prems by simp_all
  from swap_inner_spec [OF fit] obtain p1 where p1: "swap_inner p (c * e) e 0 (e div 2) = Some p1"
    "length p1 = length p"
    "\<And>x. x < length p \<Longrightarrow> p1 ! x = (if c * e + 0 \<le> x \<and> x < c * e + 0 + e div 2 \<or>
       c * e + e - 0 - e div 2 \<le> x \<and> x < c * e + e - 0 then p ! (c * e + (c * e + e - 1 - x)) else p ! x)" by blast
  have p1v: "p1 ! x = (if x div e = c then p ! mirror e x else p ! x)" if x: "x < length p" for x
  proof (cases "x div e = c")
    case True
    then have xe: "x = c * e + x mod e" by (metis div_mult_mod_eq)
    have r: "x mod e < e" using assms(2) by simp
    have mir: "c * e + (c * e + e - 1 - x) = mirror e x"
      unfolding mirror_def True using xe by simp
    show ?thesis
    proof (cases "2 * (x mod e) + 1 = e")
      case mid: True
      have "mirror e x = x" unfolding mirror_def True using xe mid by simp
      then show ?thesis unfolding p1(3) [OF x] mir by simp
    next
      case False
      have "x mod e < e div 2 \<or> e - e div 2 \<le> x mod e" using False by linarith
      then have "c * e + 0 \<le> x \<and> x < c * e + 0 + e div 2 \<or> c * e + e - 0 - e div 2 \<le> x \<and> x < c * e + e - 0"
        using xe r by linarith
      then show ?thesis unfolding p1(3) [OF x] mir using True by simp
    qed
  next
    case False
    have "\<not> (c * e \<le> x \<and> x < c * e + e)"
    proof
      assume a: "c * e \<le> x \<and> x < c * e + e"
      then have "x div e = c" by (metis add.commute div_nat_eqI mult.commute mult_Suc)
      with False show False by simp
    qed
    moreover have "e div 2 \<le> e" by simp
    ultimately have "\<not> (c * e + 0 \<le> x \<and> x < c * e + 0 + e div 2 \<or> c * e + e - 0 - e div 2 \<le> x \<and> x < c * e + e - 0)"
      by auto
    then show ?thesis unfolding p1(3) [OF x] using False by (simp only: if_False)
  qed
  have "(c + 1) * e + k * e \<le> length p1" using Suc.prems p1(2) by (simp add: algebra_simps)
  from Suc.IH [OF this] obtain q where q: "swap_outer p1 ((c + 1) * e) e k = Some q" "length q = length p"
    "\<And>x. x < length p \<Longrightarrow> q ! x = (if c + 1 \<le> x div e \<and> x div e < c + 1 + k then p1 ! mirror e x else p1 ! x)"
    unfolding p1(2) by blast
  have "q ! x = (if c \<le> x div e \<and> x div e < c + Suc k then p ! mirror e x else p ! x)" if x: "x < length p" for x
  proof (cases "c + 1 \<le> x div e \<and> x div e < c + 1 + k")
    case True
    have "x < (c + 1 + k) * e" using True assms(2) by (simp add: div_less_iff_less_mult)
    then have "mirror e x < (c + 1 + k) * e" by (rule mirror_facts(3) [OF assms(2)])
    then have "mirror e x < length p" using Suc.prems by (simp add: algebra_simps)
    then have "p1 ! mirror e x = p ! mirror e x"
      using True p1v [of "mirror e x"] mirror_facts(1) [OF assms(2), of x] by simp
    then show ?thesis unfolding q(3) [OF x] using True by simp
  next
    case False
    then show ?thesis unfolding q(3) [OF x] if_not_P [OF False] p1v [OF x] by auto
  qed
  moreover have "swap_outer p (c * e) e (Suc k) = Some q"
    using p1(1) q(1) by (simp add: add.commute)
  ultimately show ?case using q(2) by blast
qed

lemma swap_outer_whole:
  assumes "length p mod e = 0" "e > 0"
  shows "swap_outer p 0 e (length p div e) = Some (map (\<lambda>x. p ! mirror e x) [0..<length p])"
proof -
  have n: "length p div e * e = length p" using assms(1) by (metis add.right_neutral div_mult_mod_eq)
  have "0 * e + length p div e * e \<le> length p" unfolding n by simp
  from swap_outer_spec [OF this assms(2)] obtain q where q: "swap_outer p 0 e (length p div e) = Some q"
    "length q = length p" "\<And>x. x < length p \<Longrightarrow> q ! x = (if 0 \<le> x div e \<and> x div e < 0 + length p div e then p ! mirror e x else p ! x)"
    by fastforce
  have "q ! x = p ! mirror e x" if "x < length p" for x
  proof -
    have "x div e < length p div e" using that n assms(2) by (metis div_less_iff_less_mult)
    with q(3) [OF that] show ?thesis by simp
  qed
  then have "q = map (\<lambda>x. p ! mirror e x) [0..<length p]" using q(2) by (intro nth_equalityI) auto
  with q(1) show ?thesis by simp
qed

lemma swap_safe:
  assumes "e > 0"
  shows "method_safe (js_buffer_swap this e)"
proof -
  have "bsafe (\<lambda>rt. bufs_ok rt \<and> valid rt (b, off, len))
      (js_bind (rd_bytes b off len) (\<lambda>bytes.
       js_bind (js_lift (swap_outer bytes 0 e (len div e))) (\<lambda>bytes.
       js_bind (wr_bytes b off bytes) (\<lambda>_. js_return (JView b off len))))) (\<lambda>v rt. val_ok rt v)"
    if "len mod e = 0" for b off len
  proof (rule bsafe_bind_val [OF stable_conj [OF stable_bufs_ok stable_valid] bsafe_rd_bytes], blast)
    fix bytes :: "u8 list"
    assume l: "length bytes = len"
    have "length bytes mod e = 0" using that l by simp
    from swap_outer_whole [OF this assms]
    show "bsafe (\<lambda>rt. bufs_ok rt \<and> valid rt (b, off, len))
       (js_bind (js_lift (swap_outer bytes 0 e (len div e))) (\<lambda>bytes.
       js_bind (wr_bytes b off bytes) (\<lambda>_. js_return (JView b off len)))) (\<lambda>v rt. val_ok rt v)"
      unfolding l by (rule bsafe_bind_lift) (auto simp del: valid.simps simp: l intro!: method_steps)
  qed
  then show ?thesis
    unfolding js_buffer_swap_def
    by (auto simp del: valid.simps intro!: bsafe_bind_get_bytes bsafe_throw)
qed

section \<open>Numbers\<close>

lemma num_range:
  fixes offset :: u64
  assumes "bufs_ok rt" "valid rt (b, off, len)" "\<not> offset <s 0" "\<not> offset + of_nat n > of_nat len" "n \<le> 8"
  shows "valid rt (b, off + unat offset, n)"
proof -
  have l: "unat (of_nat len :: u64) = len" using of_nat_len_fits [OF assms(1,2)] by auto
  have nn: "unat (of_nat n :: u64) = n" using assms(5) by (intro u64_of_nat) simp
  have "unat offset < 0x8000000000000000" using assms(3) by (simp add: sless_0_iff)
  then have "unat (offset + of_nat n) = unat offset + n"
    using assms(5) nn by (subst unat_add_no_wrap) (simp_all del: unat_of_nat)
  moreover have "unat (offset + of_nat n) \<le> unat (of_nat len :: u64)"
    using assms(4) by (simp only: not_less word_le_nat_alt)
  ultimately show ?thesis using l assms(2) by simp
qed

lemma readUInt_safe:
  assumes "m < 1040"
  shows "method_safe (js_buffer_readUInt E this argv m)"
proof -
  have n: "m div 16 div 8 \<le> 8" using assms by simp
  have r: "bsafe (\<lambda>rt. bufs_ok rt \<and> valid rt (b, off, len)) (rd_bytes b (off + unat offset) (m div 16 div 8))
      (\<lambda>xs rt. length xs = m div 16 div 8)"
    if "\<not> offset <s 0" "\<not> offset + of_nat (m div 16 div 8) > of_nat len" for b off len and offset :: u64
    by (rule bsafe_rd_bytes) (use num_range [OF _ _ that n] in blast)
  show ?thesis
    unfolding js_buffer_readUInt_def Let_def
    by (auto simp del: valid.simps intro!: bsafe_bind_get_bytes bsafe_throw bsafe_return bsafe_any_steps
        bsafe_bind_val [OF _ r])
qed

lemma writeUInt_safe:
  assumes "m < 1040"
  shows "method_safe (js_buffer_writeUInt E this argv m)"
proof -
  have n: "m div 16 div 8 \<le> 8" using assms by simp
  have w: "bsafe (\<lambda>rt. bufs_ok rt \<and> valid rt (b, off, len)) (wr_bytes b (off + unat offset) xs) (\<lambda>x rt. True)"
    if "\<not> offset <s 0" "\<not> offset + of_nat (m div 16 div 8) > of_nat len" "length xs = m div 16 div 8"
    for b off len xs and offset :: u64
    by (rule bsafe_wr_bytes) (use num_range [OF _ _ that(1,2) n] that(3) in simp)
  show ?thesis
    unfolding js_buffer_writeUInt_def Let_def
    by (auto simp del: valid.simps intro!: bsafe_bind_get_bytes bsafe_throw bsafe_return bsafe_any_steps
        bsafe_bind_any [OF _ w])
qed

section \<open>Every installed method but copy\<close>

text \<open>The sizes and widths with which the methods are installed.\<close>

fun op_ok :: "buffer_op \<Rightarrow> bool" where
  "op_ok BCopy = False"
| "op_ok (BSwap e) = (e > 0)"
| "op_ok (BReadUInt m) = (m < 1040)"
| "op_ok (BWriteUInt m) = (m < 1040)"
| "op_ok _ = True"

lemma installed_ops_ok:
  "op \<in> snd ` set (buffer_proto_methods @ buffer_static_methods) \<Longrightarrow> op \<noteq> BCopy \<Longrightarrow> op_ok op"
  by (auto simp: buffer_proto_methods_def buffer_static_methods_def)

lemmas methods_safe = alloc_safe allocUnsafe_safe from_safe isBuffer_safe concat_safe byteLength_safe
  compare_static_safe toString_safe slice_safe subarray_safe write_safe fill_safe equals_safe
  compare_inst_safe indexOf_safe includes_safe toJSON_safe swap_safe readUInt_safe writeUInt_safe

lemma buffer_call_safe:
  assumes "op_ok op" "str_ok (argn argv 0)"
  shows "method_safe (buffer_call op E mf this argv)"
  using assms by (cases op) (simp_all add: methods_safe)

end
