(* ===== verification/Buffer_Props.thy ===== *)
theory Buffer_Props
  imports Buffer_Methods
begin

text \<open>
  The properties of the \<open>Buffer\<close> module: type and memory safety of the installed methods,
  the codecs, numbers written and read back, \<open>copy\<close>, the search and the byte swaps.
\<close>

section \<open>Bytes of a view\<close>

fun view_bytes :: "js_rt \<Rightarrow> nat \<times> nat \<times> nat \<Rightarrow> u8 list" where
  "view_bytes rt (b, off, len) = take len (drop off (abufs rt ! b))"

lemma get_bytes_valid: "valid rt (b, off, len) \<Longrightarrow> js_buffer_get_bytes (JView b off len) rt = Some (Ret (Some (b, off, len)), rt)"
  by (simp add: js_buffer_get_bytes_def)

lemma bind_Ret [simp]: "m rt = Some (Ret x, rt1) \<Longrightarrow> js_bind m k rt = k x rt1"
  by (simp add: js_bind_def js_try_def)

lemma bind_None [simp]: "m rt = None \<Longrightarrow> js_bind m k rt = None"
  by (simp add: js_bind_def js_try_def)

lemma return_run [simp]: "js_return x rt = Some (Ret x, rt)"
  by (simp add: js_return_def)

lemma rd_bytes_run:
  "b < length (abufs rt) \<Longrightarrow> i + n \<le> length (abufs rt ! b) \<Longrightarrow>
   rd_bytes b i n rt = Some (Ret (take n (drop i (abufs rt ! b))), rt)"
  by (simp add: rd_bytes_def rd_inside grab_inside)

lemma wr_bytes_run:
  "b < length (abufs rt) \<Longrightarrow> i + length xs \<le> length (abufs rt ! b) \<Longrightarrow>
   wr_bytes b i xs rt = Some (Ret (), rt\<lparr>abufs := (abufs rt)[b := take i (abufs rt ! b) @ xs @ drop (i + length xs) (abufs rt ! b)]\<rparr>)"
  by (simp add: wr_bytes_def rd_inside blit_inside)


section \<open>Safety\<close>


definition plain_engine :: engine where
  "plain_engine = \<lparr>to_int64 = (\<lambda>v. case v of JNum n \<Rightarrow> Inr n | _ \<Rightarrow> Inr 0),
     to_int32 = (\<lambda>v. case v of JNum n \<Rightarrow> Inr (ucast n) | _ \<Rightarrow> Inr 0),
     get_length = (\<lambda>v. JUndef), get_index = (\<lambda>v i. JUndef), get_proto = (\<lambda>v. JUndef),
     buffer_proto = JOther 0, memcmp_size = (\<lambda>xs ys. 0)\<rparr>"

definition rt_bytes :: js_rt where
  "rt_bytes = rt0\<lparr>abufs := [[1, 2, 3, 4, 2, 3]]\<rparr>"


section \<open>Codecs\<close>



section \<open>Numbers\<close>

lemma ucast_byte: "(ucast (b :: u8) :: u64) = of_nat (unat b)"
proof -
  have "unat b < 2 ^ LENGTH(64)" by (rule less_trans [OF unat_u8_less]) simp
  then have "unat (of_nat (unat b) :: u64) = unat b" by (rule unat_of_nat_small)
  moreover have "unat (ucast b :: u64) = unat b" by (rule unat_ucast_up) simp
  ultimately show ?thesis by (simp only: word_unat_eq_iff)
qed

lemma read_be_rev: "length bs \<le> 8 \<Longrightarrow> read_be (rev bs) = of_nat (le_val bs)"
proof (induction bs)
  case Nil
  then show ?case by (simp add: read_be_def)
next
  case (Cons b bs)
  then have IH: "read_be (rev bs) = of_nat (le_val bs)" by simp
  have "read_be (rev (b # bs)) = ucast b OR push_bit 8 (read_be (rev bs))"
    by (simp add: read_be_def or.commute)
  also have "\<dots> = ucast b + push_bit 8 (of_nat (le_val bs))"
    unfolding IH by (rule or_high_low) (simp add: unat_ucast_up)
  also have "\<dots> = of_nat (unat b) + 256 * of_nat (le_val bs)"
    by (simp add: push_bit_eq_mult mult.commute ucast_byte del: of_nat_unat)
  finally show ?case by simp
qed

lemma read_be_le_bytes: "n \<le> 8 \<Longrightarrow> read_be (rev (le_bytes n (w :: u64))) = of_nat (unat w mod 256 ^ n)"
  by (simp add: read_be_rev byte_simps)

lemma read_num_bytes:
  assumes "n \<le> 8"
  shows "read_be (if be then (if be then rev (le_bytes n (w :: u64)) else le_bytes n w)
                  else rev (if be then rev (le_bytes n w) else le_bytes n w)) = of_nat (unat w mod 256 ^ n)"
  using read_be_le_bytes [OF assms, of w] by simp

lemma ucast_low32: "(ucast ((x :: u64) AND 0xFFFFFFFF) :: u32) = ucast x"
proof -
  have "x AND 0xFFFFFFFF = take_bit 32 x" by (simp add: take_bit_eq_mask mask_eq_exp_minus_1)
  then show ?thesis by (intro bit_word_eqI) (auto simp: bit_simps)
qed

lemma ucast_of_nat32: "k < 2 ^ 32 \<Longrightarrow> (ucast (of_nat k :: u64) :: u32) = of_nat k"
  by (rule word_unat_eq_iff [THEN iffD2])
    (simp add: unsigned_ucast_eq unsigned_of_nat take_bit_nat_eq_self del: unat_of_nat)

lemma take_drop_blit: "i + length xs \<le> length m \<Longrightarrow> take (length xs) (drop i (take i m @ xs @ drop (i + length xs) m)) = xs"
  by simp

lemma num_range_test:
  fixes offset :: u64
  assumes "len \<le> 0x7FFFFFFF" "unat offset + n \<le> len"
  shows "\<not> offset <s 0" "\<not> offset + of_nat n > of_nat len"
proof -
  have l: "unat (of_nat len :: u64) = len" "unat (of_nat n :: u64) = n"
    using assms by (auto intro!: u64_of_nat)
  show "\<not> offset <s 0" using assms by (simp add: sless_0_iff)
  have "unat (offset + of_nat n) = unat offset + n"
    using assms l(2) by (subst unat_add_no_wrap) (simp_all del: unat_of_nat)
  then show "\<not> offset + of_nat n > of_nat len" using l assms by (simp add: word_less_nat_alt del: unat_of_nat)
qed

text \<open>C20: A number written by a \<open>writeUInt\<close> method and read back by the \<open>readUInt\<close> method of
  the same width and byte order at the same offset comes back as its low bits: unchanged up to
  16 bits, and at 32 bits as the signed number of those bits.\<close>

theorem buffer_write_read:
  assumes v: "bufs_ok rt" "valid rt (b, off, len)"
    and num: "m = 16 * (8 * n) + of_bool be" "0 < n" "n \<le> 4"
    and conv: "to_int64 E v = Inr val" "o_arg \<noteq> JUndef" "to_int64 E o_arg = Inr offset"
    and fit: "unat offset + n \<le> len"
  shows "\<exists>rt'. js_buffer_writeUInt E (JView b off len) [v, o_arg] m rt = Some (Ret (JView b off len), rt') \<and>
    js_buffer_readUInt E (JView b off len) [o_arg] m rt' =
      Some (Ret (JNum (scast (of_nat (unat val mod 2 ^ (8 * n)) :: u32))), rt')"
proof -
  have m: "m div 16 = 8 * n" "odd m = be" "m div 16 div 8 = n" "8 * n \<le> 32" using num by (auto split: if_splits)
  have len: "len \<le> 0x7FFFFFFF" using of_nat_len_fits [OF v] by blast
  note test = num_range_test [OF len fit]
  have p256: "(256 :: nat) ^ n = 2 ^ (8 * n)" by (simp add: power_mult)
  define bytes where "bytes = (if be then rev (le_bytes n val) else le_bytes n val)"
  define mem where "mem = take (off + unat offset) (abufs rt ! b) @ bytes @ drop (off + unat offset + length bytes) (abufs rt ! b)"
  define rt' where "rt' = rt\<lparr>abufs := (abufs rt)[b := mem]\<rparr>"
  have lb: "length bytes = n" by (simp add: bytes_def)
  have fits: "b < length (abufs rt)" "off + unat offset + n \<le> length (abufs rt ! b)" using v(2) fit by auto
  have w: "js_buffer_writeUInt E (JView b off len) [v, o_arg] m rt = Some (Ret (JView b off len), rt')"
    using test fits lb
    by (simp add: js_buffer_writeUInt_def get_bytes_valid [OF v(2)] argn_def ToInt64_def conv Let_def m
        bytes_def [symmetric] wr_bytes_run rt'_def mem_def)
  have lm: "length mem = length (abufs rt ! b)" using fits lb by (simp add: mem_def)
  then have v': "valid rt' (b, off, len)" using v(2) by (simp add: rt'_def)
  have "rd_bytes b (off + unat offset) n rt' = Some (Ret bytes, rt')"
    using fits lm lb take_drop_blit [of "off + unat offset" bytes "abufs rt ! b"]
    by (simp add: rd_bytes_run rt'_def mem_def)
  moreover have "read_be (if be then bytes else rev bytes) = of_nat (unat val mod 256 ^ n)"
    unfolding bytes_def by (rule read_num_bytes) (use num in simp)
  moreover have "(ucast ((of_nat (unat val mod 256 ^ n) :: u64) AND 0xFFFFFFFF) :: u32) = of_nat (unat val mod 2 ^ (8 * n))"
  proof -
    have "(2 :: nat) ^ (8 * n) \<le> 2 ^ 32" using m(4) by (intro power_increasing) auto
    moreover have "unat val mod 2 ^ (8 * n) < 2 ^ (8 * n)" by simp
    ultimately have "unat val mod 2 ^ (8 * n) < 2 ^ 32" by linarith
    then show ?thesis by (simp only: ucast_low32 ucast_of_nat32 p256)
  qed
  ultimately have r: "js_buffer_readUInt E (JView b off len) [o_arg] m rt' =
      Some (Ret (JNum (scast (of_nat (unat val mod 2 ^ (8 * n)) :: u32))), rt')"
    using test m(4)
    by (simp add: js_buffer_readUInt_def get_bytes_valid [OF v'] argn_def opt_int64_def ToInt64_def conv Let_def m)
  from w r show ?thesis by blast
qed

theorem buffer_write_read_witness:
  "\<exists>rt'. js_buffer_writeUInt plain_engine (JView 0 2 4) [JNum 0x18899, JNum 1] (16 * (8 * 2) + of_bool True) rt_bytes =
      Some (Ret (JView 0 2 4), rt') \<and>
    js_buffer_readUInt plain_engine (JView 0 2 4) [JNum 1] (16 * (8 * 2) + of_bool True) rt' =
      Some (Ret (JNum (scast (of_nat (unat (0x18899 :: u64) mod 2 ^ (8 * 2)) :: u32))), rt')"
  by (rule buffer_write_read [where val = "0x18899" and offset = 1])
    (simp_all add: bufs_ok_def rt_bytes_def plain_engine_def)

section \<open>Copies\<close>







section \<open>The search\<close>

lemma scan_index_spec:
  assumes "scan_index P i k = Some r"
  shows "(r = None \<longrightarrow> (\<forall>j. i \<le> j \<and> j < i + k \<longrightarrow> P j = Some False)) \<and>
    (\<forall>x. r = Some x \<longrightarrow> i \<le> x \<and> x < i + k \<and> P x = Some True \<and> (\<forall>j. i \<le> j \<and> j < x \<longrightarrow> P j = Some False))"
  using assms
proof (induction k arbitrary: i)
  case 0
  then show ?case by auto
next
  case (Suc k)
  from Suc.prems obtain x where x: "P i = Some x" by (cases "P i") auto
  show ?case
  proof (cases x)
    case True
    then show ?thesis using Suc.prems x by auto
  next
    case False
    then have "scan_index P (i + 1) k = Some r" using Suc.prems x by simp
    note IH = Suc.IH [OF this]
    have all: "\<forall>j. i \<le> j \<and> j < m \<longrightarrow> P j = Some False"
      if "\<forall>j. i + 1 \<le> j \<and> j < m \<longrightarrow> P j = Some False" for m
    proof (intro allI impI)
      fix j assume "i \<le> j \<and> j < m"
      then show "P j = Some False" using that x False by (cases "j = i") auto
    qed
    show ?thesis
    proof (cases r)
      case None
      then have "\<forall>j. i + 1 \<le> j \<and> j < i + Suc k \<longrightarrow> P j = Some False" using IH by simp
      from all [OF this] None show ?thesis by simp
    next
      case (Some y)
      then have y: "i + 1 \<le> y" "y < i + Suc k" "P y = Some True" "\<forall>j. i + 1 \<le> j \<and> j < y \<longrightarrow> P j = Some False"
        using IH by auto
      from all [OF y(4)] y Some show ?thesis by simp
    qed
  qed
qed

definition occurs_at :: "u8 list \<Rightarrow> u8 list \<Rightarrow> nat \<Rightarrow> bool" where
  "occurs_at buf needle i = (i + length needle \<le> length buf \<and> take (length needle) (drop i buf) = needle)"

lemma needle_at_occurs:
  assumes "needle \<noteq> []" "i + length needle \<le> length buf"
  shows "needle_at buf needle i = Some (occurs_at buf needle i)"
proof -
  from assms(1) obtain y ys where n: "needle = y # ys" by (cases needle) auto
  have "i < length buf" using assms n by simp
  then have "drop i buf = buf ! i # drop (Suc i) buf" by (rule Cons_nth_drop_Suc [symmetric])
  then show ?thesis
    using assms \<open>i < length buf\<close> by (auto simp: needle_at_def n rd_inside grab_inside occurs_at_def)
qed

lemma find_needle_spec:
  assumes "needle \<noteq> []" "find_needle buf needle offset = Some r"
  shows "(r = None \<longrightarrow> (\<forall>j \<ge> offset. \<not> occurs_at buf needle j)) \<and>
    (\<forall>i. r = Some i \<longrightarrow> offset \<le> i \<and> occurs_at buf needle i \<and> (\<forall>j. offset \<le> j \<and> j < i \<longrightarrow> \<not> occurs_at buf needle j))"
proof (cases "length needle \<le> length buf")
  case True
  define k where "k = length buf + 1 - length needle - offset"
  have s: "scan_index (needle_at buf needle) offset k = Some r"
    using assms True by (simp add: find_needle_def k_def)
  have in_range: "j + length needle \<le> length buf" if "offset \<le> j" "j < offset + k" for j
    using that True by (simp add: k_def)
  have out: "\<not> occurs_at buf needle j" if "offset \<le> j" "\<not> j < offset + k" for j
  proof -
    have "\<not> j + length needle \<le> length buf" using that True unfolding k_def by linarith
    then show ?thesis by (simp add: occurs_at_def)
  qed
  note at = needle_at_occurs [OF assms(1) in_range]
  note spec = scan_index_spec [OF s]
  show ?thesis
  proof (cases r)
    case None
    with spec at out show ?thesis by (metis option.distinct(1) option.inject)
  next
    case (Some i)
    then have i: "offset \<le> i" "i < offset + k" "needle_at buf needle i = Some True"
      "\<And>j. offset \<le> j \<Longrightarrow> j < i \<Longrightarrow> needle_at buf needle j = Some False" using spec by auto
    have "occurs_at buf needle i" using at [OF i(1,2)] i(3) by simp
    moreover have "\<not> occurs_at buf needle j" if "offset \<le> j" "j < i" for j
      using at [of j] i(2,4) that by simp
    ultimately show ?thesis using Some i(1) by simp
  qed
next
  case False
  then have "r = None" using assms by (simp add: find_needle_def)
  then show ?thesis using False by (simp add: occurs_at_def)
qed

text \<open>C21: \<open>indexOf\<close> with a view that is not empty returns the least index, from the given
  offset on, at which the bytes of that view occur in the buffer, and -1 when there is none;
  it changes nothing.\<close>

theorem buffer_indexOf_least:
  assumes v: "valid rt (b, off, len)" "valid rt (b1, off1, len1)" "0 < len1"
    and conv: "to_int64 E (JNum pos) = Inr offset"
    and hay: "hay = view_bytes rt (b, off, len)" and needle: "needle = view_bytes rt (b1, off1, len1)"
    and start: "start = (if offset <s 0 then 0 else unat offset)"
  shows "\<exists>r. js_buffer_indexOf E mf (JView b off len) [JView b1 off1 len1, JNum pos] rt = Some (Ret r, rt) \<and>
    (r = JNum (- 1) \<and> (\<forall>j \<ge> start. \<not> occurs_at hay needle j) \<or>
     (\<exists>i \<ge> start. r = JNum (of_nat i) \<and> occurs_at hay needle i \<and>
        (\<forall>j. start \<le> j \<and> j < i \<longrightarrow> \<not> occurs_at hay needle j)))"
proof -
  have ne: "needle \<noteq> []" using v by (auto simp: needle)
  obtain r where r: "find_needle hay needle start = Some r" using find_needle_total by blast
  have rd: "rd_bytes b off len rt = Some (Ret hay, rt)" "rd_bytes b1 off1 len1 rt = Some (Ret needle, rt)"
    using v by (simp_all add: rd_bytes_run hay needle)
  have n: "num_int64 E [JView b1 off1 len1, JNum pos] 2 1 0 rt = Some (Ret offset, rt)"
    by (simp add: num_int64_def ToInt64_def argn_def conv)
  have st: "unat (if offset <s 0 then 0 else offset) = start" by (simp add: start)
  have "js_buffer_indexOf E mf (JView b off len) [JView b1 off1 len1, JNum pos] rt = Some (Ret (index_result r), rt)"
    by (simp add: js_buffer_indexOf_def get_bytes_valid [OF v(1)] get_bytes_valid [OF v(2)] rd n st Let_def argn_def
        js_lift_def r del: One_nat_def if_split)
  with find_needle_spec [OF ne r] show ?thesis by (cases r) auto
qed

theorem buffer_indexOf_least_witness:
  "\<exists>r. js_buffer_indexOf plain_engine good_mf (JView 0 0 6) [JView 0 4 2, JNum 2] rt_bytes = Some (Ret r, rt_bytes) \<and>
    (r = JNum (- 1) \<and> (\<forall>j \<ge> 2. \<not> occurs_at [1, 2, 3, 4, 2, 3] [2, 3] j) \<or>
     (\<exists>i \<ge> 2. r = JNum (of_nat i) \<and> occurs_at [1, 2, 3, 4, 2, 3] [2, 3] i \<and>
        (\<forall>j. 2 \<le> j \<and> j < i \<longrightarrow> \<not> occurs_at [1, 2, 3, 4, 2, 3] [2, 3] j)))"
  by (rule buffer_indexOf_least [where offset = 2])
    (simp_all add: rt_bytes_def plain_engine_def sless_0_iff)

section \<open>Byte swaps\<close>





end
