(* ===== verification/ListHead.thy ===== *)
theory ListHead
  imports QPrelude
begin

text \<open>
  The intrusive doubly linked lists of \<open>src/src/deps/list.h\<close>, over a store of nodes: a node
  has an address, and its two pointers are the address of another node or \<open>NULL\<close>
  (\<open>None\<close>).  Dereferencing anything but a node of the store is the outcome \<open>None\<close> of an
  operation.  The head of a list is a node like the others, so a list is a ring.
\<close>

section \<open>Nodes and operations\<close>

type_synonym ptr = "nat option"

record list_head =
  lprev :: ptr
  lnext :: ptr

type_synonym list_heap = "nat \<rightharpoonup> list_head"

definition deref :: "list_heap \<Rightarrow> ptr \<Rightarrow> list_head option" where
  "deref h p = (case p of None \<Rightarrow> None | Some a \<Rightarrow> h a)"

definition set_next :: "list_heap \<Rightarrow> ptr \<Rightarrow> ptr \<Rightarrow> list_heap option" where
  "set_next h p q = do { a \<leftarrow> p; n \<leftarrow> h a; Some (h(a \<mapsto> n\<lparr>lnext := q\<rparr>)) }"

definition set_prev :: "list_heap \<Rightarrow> ptr \<Rightarrow> ptr \<Rightarrow> list_heap option" where
  "set_prev h p q = do { a \<leftarrow> p; n \<leftarrow> h a; Some (h(a \<mapsto> n\<lparr>lprev := q\<rparr>)) }"

definition init_list_head :: "list_heap \<Rightarrow> nat \<Rightarrow> list_heap option" where
  "init_list_head h head = do {
     h \<leftarrow> set_prev h (Some head) (Some head);
     set_next h (Some head) (Some head) }"

text \<open>\<open>__list_add\<close>: insert \<open>el\<close> between \<open>p\<close> and \<open>q\<close>.\<close>

definition list_add_between :: "list_heap \<Rightarrow> nat \<Rightarrow> ptr \<Rightarrow> ptr \<Rightarrow> list_heap option" where
  "list_add_between h el p q = do {
     h \<leftarrow> set_next h p (Some el);
     h \<leftarrow> set_prev h (Some el) p;
     h \<leftarrow> set_next h (Some el) q;
     set_prev h q (Some el) }"

definition list_add :: "list_heap \<Rightarrow> nat \<Rightarrow> nat \<Rightarrow> list_heap option" where
  "list_add h el head = do {
     n \<leftarrow> h head;
     list_add_between h el (Some head) (lnext n) }"

definition list_add_tail :: "list_heap \<Rightarrow> nat \<Rightarrow> nat \<Rightarrow> list_heap option" where
  "list_add_tail h el head = do {
     n \<leftarrow> h head;
     list_add_between h el (lprev n) (Some head) }"

definition list_del :: "list_heap \<Rightarrow> nat \<Rightarrow> list_heap option" where
  "list_del h el = do {
     n \<leftarrow> h el;
     h \<leftarrow> set_next h (lprev n) (lnext n);
     h \<leftarrow> set_prev h (lnext n) (lprev n);
     h \<leftarrow> set_prev h (Some el) None;
     set_next h (Some el) None }"

definition list_empty :: "list_heap \<Rightarrow> nat \<Rightarrow> bool option" where
  "list_empty h el = do { n \<leftarrow> h el; Some (lnext n = Some el) }"

text \<open>
  The loop macros, as the list of the nodes they visit.  On a store that is not a ring they
  need not end, so they are partial functions.
\<close>

partial_function (option) for_each_from :: "list_heap \<Rightarrow> nat \<Rightarrow> ptr \<Rightarrow> nat list option" where
  "for_each_from h head el =
     (if el = Some head then Some []
      else do {
        a \<leftarrow> el;
        n \<leftarrow> h a;
        xs \<leftarrow> for_each_from h head (lnext n);
        Some (a # xs) })"

definition list_for_each :: "list_heap \<Rightarrow> nat \<Rightarrow> nat list option" where
  "list_for_each h head = do { n \<leftarrow> h head; for_each_from h head (lnext n) }"

partial_function (option) for_each_prev_from :: "list_heap \<Rightarrow> nat \<Rightarrow> ptr \<Rightarrow> nat list option" where
  "for_each_prev_from h head el =
     (if el = Some head then Some []
      else do {
        a \<leftarrow> el;
        n \<leftarrow> h a;
        xs \<leftarrow> for_each_prev_from h head (lprev n);
        Some (a # xs) })"

definition list_for_each_prev :: "list_heap \<Rightarrow> nat \<Rightarrow> nat list option" where
  "list_for_each_prev h head = do { n \<leftarrow> h head; for_each_prev_from h head (lprev n) }"

text \<open>\<open>list_for_each_safe\<close> reads the successor before the body runs, which may delete the node.\<close>

partial_function (option) for_each_safe_from ::
  "(list_heap \<Rightarrow> nat \<Rightarrow> list_heap option) \<Rightarrow> list_heap \<Rightarrow> nat \<Rightarrow> ptr \<Rightarrow> ptr \<Rightarrow> (list_heap \<times> nat list) option" where
  "for_each_safe_from body h head el el1 =
     (if el = Some head then Some (h, [])
      else do {
        a \<leftarrow> el;
        h1 \<leftarrow> body h a;
        n \<leftarrow> deref h1 el1;
        r \<leftarrow> for_each_safe_from body h1 head el1 (lnext n);
        Some (fst r, a # snd r) })"

definition list_for_each_safe ::
  "(list_heap \<Rightarrow> nat \<Rightarrow> list_heap option) \<Rightarrow> list_heap \<Rightarrow> nat \<Rightarrow> (list_heap \<times> nat list) option" where
  "list_for_each_safe body h head = do {
     n \<leftarrow> h head;
     n1 \<leftarrow> deref h (lnext n);
     for_each_safe_from body h head (lnext n) (lnext n1) }"

section \<open>Chains\<close>

abbreviation nx :: "list_heap \<Rightarrow> nat \<Rightarrow> nat option" where
  "nx h a \<equiv> Option.bind (h a) lnext"

abbreviation pv :: "list_heap \<Rightarrow> nat \<Rightarrow> nat option" where
  "pv h a \<equiv> Option.bind (h a) lprev"

text \<open>From \<open>a\<close> through \<open>xs\<close> to \<open>b\<close>, linked in both directions.\<close>

fun seg :: "list_heap \<Rightarrow> nat \<Rightarrow> nat list \<Rightarrow> nat \<Rightarrow> bool" where
  "seg h a [] b = (nx h a = Some b \<and> pv h b = Some a)"
| "seg h a (x # xs) b = (nx h a = Some x \<and> pv h x = Some a \<and> seg h x xs b)"

text \<open>The list of a head: a ring of distinct nodes.\<close>

definition ring :: "list_heap \<Rightarrow> nat \<Rightarrow> nat list \<Rightarrow> bool" where
  "ring h head xs = (distinct (head # xs) \<and> seg h head xs head)"

lemma seg_append: "seg h a (xs @ y # ys) b \<longleftrightarrow> seg h a xs y \<and> seg h y ys b"
  by (induction xs arbitrary: a) auto

lemma seg_last: "seg h a xs b \<Longrightarrow> nx h (last (a # xs)) = Some b \<and> pv h b = Some (last (a # xs))"
  by (induction xs arbitrary: a) auto

lemma seg_hd: "seg h a xs b \<Longrightarrow> nx h a = Some (hd (xs @ [b])) \<and> pv h (hd (xs @ [b])) = Some a"
  by (cases xs) auto

lemma seg_frame:
  assumes "seg h a xs b" "\<And>z. z \<in> set (a # xs) \<Longrightarrow> nx h' z = nx h z" "\<And>z. z \<in> set (xs @ [b]) \<Longrightarrow> pv h' z = pv h z"
  shows "seg h' a xs b"
  using assms by (induction xs arbitrary: a) auto

text \<open>A chain whose end is redirected, and one whose start is replaced.\<close>

lemma seg_retarget:
  assumes "seg h a xs b" "distinct (a # xs)"
    and "\<And>z. z \<in> set (a # xs) \<Longrightarrow> z \<noteq> last (a # xs) \<Longrightarrow> nx h' z = nx h z"
    and "\<And>z. z \<in> set xs \<Longrightarrow> pv h' z = pv h z"
    and "nx h' (last (a # xs)) = Some c" "pv h' c = Some (last (a # xs))"
  shows "seg h' a xs c"
  using assms
proof (induction xs arbitrary: a)
  case (Cons x xs)
  have "a \<noteq> last (x # xs)" using Cons.prems(2) by (metis distinct.simps(2) last_in_set list.distinct(1))
  then have "nx h' a = Some x" using Cons.prems(1,3) by auto
  moreover have "pv h' x = Some a" using Cons.prems(1,4) by auto
  moreover have "seg h' x xs c"
    by (rule Cons.IH) (use Cons.prems in auto)
  ultimately show ?case by simp
qed simp

lemma seg_resource:
  assumes "seg h a xs b"
    and "\<And>z. z \<in> set xs \<Longrightarrow> nx h' z = nx h z"
    and "\<And>z. z \<in> set (tl (xs @ [b])) \<Longrightarrow> pv h' z = pv h z"
    and "nx h' c = Some (hd (xs @ [b]))" "pv h' (hd (xs @ [b])) = Some c"
  shows "seg h' c xs b"
proof (cases xs)
  case (Cons x ys)
  then have "seg h x ys b" using assms(1) by simp
  then have "seg h' x ys b" by (rule seg_frame) (use assms(2,3) Cons in auto)
  then show ?thesis using assms(4,5) Cons by simp
qed (use assms in simp)

lemma seg_dom: "seg h a xs b \<Longrightarrow> z \<in> set (a # xs @ [b]) \<Longrightarrow> \<exists>n. h z = Some n"
  by (induction xs arbitrary: a) (auto simp: bind_eq_Some_conv)

lemma ring_dom: "ring h head xs \<Longrightarrow> z \<in> set (head # xs) \<Longrightarrow> \<exists>n. h z = Some n"
  unfolding ring_def using seg_dom by fastforce

section \<open>The operations on rings\<close>

lemma ring_init:
  assumes "h head = Some n"
  shows "\<exists>h'. init_list_head h head = Some h' \<and> ring h' head [] \<and> (\<forall>z. z \<noteq> head \<longrightarrow> h' z = h z)"
  using assms by (simp add: init_list_head_def set_prev_def set_next_def ring_def)

text \<open>What \<open>__list_add\<close> does to the pointers, when its three nodes are in the store.\<close>

lemma list_add_between_spec:
  assumes "h p = Some np" "h q = Some nq" "h el = Some ne" "el \<noteq> p" "el \<noteq> q"
  shows "\<exists>h'. list_add_between h el (Some p) (Some q) = Some h' \<and>
    (\<forall>z. nx h' z = (if z = p then Some el else if z = el then Some q else nx h z)) \<and>
    (\<forall>z. pv h' z = (if z = q then Some el else if z = el then Some p else pv h z)) \<and>
    (\<forall>z. z \<notin> {p, q, el} \<longrightarrow> h' z = h z) \<and> dom h' = dom h"
  using assms by (cases "p = q") (auto simp: list_add_between_def set_prev_def set_next_def)

lemma ring_add_tail:
  assumes r: "ring h head xs" and el: "h el = Some ne" "el \<notin> set (head # xs)"
  shows "\<exists>h'. list_add_tail h el head = Some h' \<and> ring h' head (xs @ [el]) \<and>
    (\<forall>z. z \<notin> set (el # head # xs) \<longrightarrow> h' z = h z) \<and> dom h' = dom h"
proof -
  let ?p = "last (head # xs)"
  from r have s: "seg h head xs head" and d: "distinct (head # xs)" by (simp_all add: ring_def)
  have pin: "?p \<in> set (head # xs)" by (rule last_in_set) simp
  obtain nh where nh: "h head = Some nh" using ring_dom [OF r] by auto
  obtain np where np: "h ?p = Some np" using ring_dom [OF r pin] by blast
  have prev: "lprev nh = Some ?p" using seg_last [OF s] nh by simp
  have ne: "el \<noteq> ?p" "el \<noteq> head" using el(2) pin by auto
  from list_add_between_spec [OF np nh el(1) ne] obtain h' where
    h': "list_add_between h el (Some ?p) (Some head) = Some h'"
      "\<And>z. nx h' z = (if z = ?p then Some el else if z = el then Some head else nx h z)"
      "\<And>z. pv h' z = (if z = head then Some el else if z = el then Some ?p else pv h z)"
      "\<And>z. z \<notin> {?p, head, el} \<Longrightarrow> h' z = h z" "dom h' = dom h"
    by blast
  have "list_add_tail h el head = Some h'"
    unfolding list_add_tail_def nh bind.bind_lunit prev by (rule h'(1))
  moreover have "seg h' head xs el"
    by (rule seg_retarget [OF s d]) (use h'(2,3) el(2) d ne in auto)
  moreover have "seg h' el [] head" using h'(2,3) ne by simp
  moreover have "\<forall>z. z \<notin> set (el # head # xs) \<longrightarrow> h' z = h z"
  proof (intro allI impI)
    fix z assume z: "z \<notin> set (el # head # xs)"
    then have "z \<noteq> ?p" using pin by (metis list.set_intros(2))
    with z show "h' z = h z" by (intro h'(4)) auto
  qed
  ultimately show ?thesis using d el(2) h'(5) by (auto simp: ring_def seg_append)
qed

lemma ring_add:
  assumes r: "ring h head xs" and el: "h el = Some ne" "el \<notin> set (head # xs)"
  shows "\<exists>h'. list_add h el head = Some h' \<and> ring h' head (el # xs) \<and>
    (\<forall>z. z \<notin> set (el # head # xs) \<longrightarrow> h' z = h z) \<and> dom h' = dom h"
proof -
  let ?q = "hd (xs @ [head])"
  from r have s: "seg h head xs head" and d: "distinct (head # xs)" by (simp_all add: ring_def)
  have qin: "?q \<in> set (head # xs)" by (cases xs) auto
  obtain nh where nh: "h head = Some nh" using ring_dom [OF r] by auto
  obtain nq where nq: "h ?q = Some nq" using ring_dom [OF r qin] by blast
  have nxt: "lnext nh = Some ?q" using seg_hd [OF s] nh by simp
  have ne: "el \<noteq> head" "el \<noteq> ?q" using el(2) qin by auto
  from list_add_between_spec [OF nh nq el(1) ne] obtain h' where
    h': "list_add_between h el (Some head) (Some ?q) = Some h'"
      "\<And>z. nx h' z = (if z = head then Some el else if z = el then Some ?q else nx h z)"
      "\<And>z. pv h' z = (if z = ?q then Some el else if z = el then Some head else pv h z)"
      "\<And>z. z \<notin> {head, ?q, el} \<Longrightarrow> h' z = h z" "dom h' = dom h"
    by blast
  have "list_add h el head = Some h'"
    unfolding list_add_def nh bind.bind_lunit nxt by (rule h'(1))
  moreover have "seg h' el xs head"
  proof (rule seg_resource [OF s])
    have "distinct (xs @ [head])" using d by auto
    then show "pv h' z = pv h z" if "z \<in> set (tl (xs @ [head]))" for z
      using that h'(3) el(2) by (cases xs) auto
  qed (use h'(2,3) el(2) d ne in auto)
  moreover have "nx h' head = Some el" "pv h' el = Some head" using h'(2,3) ne by simp_all
  moreover have "\<forall>z. z \<notin> set (el # head # xs) \<longrightarrow> h' z = h z"
  proof (intro allI impI)
    fix z assume z: "z \<notin> set (el # head # xs)"
    then have "z \<noteq> ?q" using qin by (metis list.set_intros(2))
    with z show "h' z = h z" by (intro h'(4)) auto
  qed
  ultimately show ?thesis using d el(2) h'(5) by (auto simp: ring_def)
qed

lemma list_del_spec:
  assumes "h el = Some ne" "lprev ne = Some p" "lnext ne = Some q" "h p = Some np" "h q = Some nq" "el \<noteq> p" "el \<noteq> q"
  shows "\<exists>h'. list_del h el = Some h' \<and>
    (\<forall>z. nx h' z = (if z = el then None else if z = p then Some q else nx h z)) \<and>
    (\<forall>z. pv h' z = (if z = el then None else if z = q then Some p else pv h z)) \<and>
    (\<forall>z. z \<notin> {p, q, el} \<longrightarrow> h' z = h z) \<and> dom h' = dom h"
  using assms by (cases "p = q") (auto simp: list_del_def set_prev_def set_next_def)

lemma ring_del:
  assumes r: "ring h head (xs @ el # ys)"
  shows "\<exists>h'. list_del h el = Some h' \<and> ring h' head (xs @ ys) \<and> nx h' el = None \<and> pv h' el = None \<and>
    (\<forall>z. z \<notin> set (head # xs @ el # ys) \<longrightarrow> h' z = h z) \<and> dom h' = dom h"
proof -
  let ?p = "last (head # xs)" and ?q = "hd (ys @ [head])"
  from r have s: "seg h head xs el" "seg h el ys head" and d: "distinct (head # xs @ el # ys)"
    by (simp_all add: ring_def seg_append)
  have pin: "?p \<in> set (head # xs)" by (rule last_in_set) simp
  have qin: "?q \<in> set (ys @ [head])" by (rule hd_in_set) simp
  have ne: "el \<noteq> ?p" "el \<noteq> ?q" using d pin qin by auto
  obtain n np nq where n: "h el = Some n" "h ?p = Some np" "h ?q = Some nq"
    using ring_dom [OF r, of el] ring_dom [OF r, of ?p] ring_dom [OF r, of ?q] pin qin by fastforce
  have links: "lprev n = Some ?p" "lnext n = Some ?q"
    using seg_last [OF s(1)] seg_hd [OF s(2)] n(1) by simp_all
  from list_del_spec [OF n(1) links n(2,3) ne] obtain h' where
    h': "list_del h el = Some h'"
      "\<And>z. nx h' z = (if z = el then None else if z = ?p then Some ?q else nx h z)"
      "\<And>z. pv h' z = (if z = el then None else if z = ?q then Some ?p else pv h z)"
      "\<And>z. z \<notin> {?p, ?q, el} \<Longrightarrow> h' z = h z" "dom h' = dom h"
    by blast
  have q_out: "?q \<notin> set xs" using qin d by auto
  have left: "seg h' head xs ?q"
    by (rule seg_retarget [OF s(1)]) (use h'(2,3) d ne q_out in auto)
  have "seg h' head (xs @ ys) head"
  proof (cases ys)
    case Nil
    with left show ?thesis by simp
  next
    case (Cons y zs)
    have "seg h y zs head" using s(2) Cons by simp
    then have "seg h' y zs head"
      by (rule seg_frame) (use h'(2,3) d pin Cons in auto)
    with left show ?thesis using Cons by (simp add: seg_append)
  qed
  moreover have "\<forall>z. z \<notin> set (head # xs @ el # ys) \<longrightarrow> h' z = h z"
  proof (intro allI impI)
    fix z assume z: "z \<notin> set (head # xs @ el # ys)"
    then have "z \<noteq> ?p" "z \<noteq> ?q" using pin qin by auto
    with z show "h' z = h z" by (intro h'(4)) auto
  qed
  ultimately show ?thesis using d h' by (auto simp: ring_def)
qed

lemma ring_empty: "ring h head xs \<Longrightarrow> list_empty h head = Some (xs = [])"
proof -
  assume r: "ring h head xs"
  then obtain n where n: "h head = Some n" using ring_dom by fastforce
  have "lnext n = Some (hd (xs @ [head]))" using r n seg_hd [of h head xs head] by (simp add: ring_def)
  then show ?thesis using r n by (cases xs) (auto simp: list_empty_def ring_def)
qed

section \<open>The loops over rings\<close>

lemma for_each_chain:
  assumes "seg h a xs head" "head \<notin> set xs"
  shows "for_each_from h head (nx h a) = Some xs"
  using assms
proof (induction xs arbitrary: a)
  case Nil
  then show ?case by (subst for_each_from.simps) simp
next
  case (Cons x xs)
  then have IH: "for_each_from h head (nx h x) = Some xs" and nx: "nx h a = Some x" by auto
  obtain n where n: "h x = Some n" using seg_dom [OF Cons.prems(1), of x] by auto
  show ?case
    unfolding nx using IH Cons.prems(2) n by (subst for_each_from.simps) auto
qed

lemma ring_for_each: "ring h head xs \<Longrightarrow> list_for_each h head = Some xs"
proof -
  assume r: "ring h head xs"
  then obtain n where n: "h head = Some n" using ring_dom by fastforce
  from r have "for_each_from h head (nx h head) = Some xs"
    by (intro for_each_chain) (auto simp: ring_def)
  then show ?thesis using n by (simp add: list_for_each_def)
qed

lemma for_each_prev_chain:
  assumes "seg h head xs b" "head \<notin> set xs"
  shows "for_each_prev_from h head (pv h b) = Some (rev xs)"
  using assms
proof (induction xs arbitrary: b rule: rev_induct)
  case Nil
  then show ?case by (subst for_each_prev_from.simps) simp
next
  case (snoc x xs)
  then have "seg h head xs x" and pv: "pv h b = Some x" by (auto simp: seg_append)
  with snoc have IH: "for_each_prev_from h head (pv h x) = Some (rev xs)" by auto
  obtain n where n: "h x = Some n" using seg_dom [OF snoc.prems(1), of x] by auto
  show ?case
    unfolding pv using IH snoc.prems(2) n by (subst for_each_prev_from.simps) auto
qed

lemma ring_for_each_prev: "ring h head xs \<Longrightarrow> list_for_each_prev h head = Some (rev xs)"
proof -
  assume r: "ring h head xs"
  then obtain n where n: "h head = Some n" using ring_dom by fastforce
  from r have "for_each_prev_from h head (pv h head) = Some (rev xs)"
    by (intro for_each_prev_chain) (auto simp: ring_def)
  then show ?thesis using n by (simp add: list_for_each_prev_def)
qed

text \<open>Deleting every node on the way visits all of them and leaves an empty list.\<close>

lemma for_each_safe_del:
  assumes "ring h head xs"
  shows "\<exists>h'. for_each_safe_from list_del h head (Some (hd (xs @ [head])))
      (nx h (hd (xs @ [head]))) = Some (h', xs) \<and> ring h' head []"
  using assms
proof (induction xs arbitrary: h)
  case Nil
  then show ?case by (subst for_each_safe_from.simps) auto
next
  case (Cons x xs)
  from ring_del [of h head "[]" x xs] Cons.prems obtain h1 where
    h1: "list_del h x = Some h1" "ring h1 head xs" by auto
  from Cons.IH [OF h1(2)] obtain h' where h': "ring h' head []"
    "for_each_safe_from list_del h1 head (Some (hd (xs @ [head]))) (nx h1 (hd (xs @ [head]))) = Some (h', xs)" by blast
  have "seg h x xs head" using Cons.prems by (simp add: ring_def)
  then have n1: "nx h x = Some (hd (xs @ [head]))" using seg_hd by blast
  have "hd (xs @ [head]) \<in> set (head # xs)" by (cases xs) auto
  then obtain n where n: "h1 (hd (xs @ [head])) = Some n" using ring_dom [OF h1(2)] by blast
  have "x \<noteq> head" using Cons.prems by (simp add: ring_def)
  then show ?case using h1(1) h' n n1
    by (subst for_each_safe_from.simps) (simp add: deref_def)
qed

lemma ring_for_each_safe_del:
  assumes "ring h head xs"
  shows "\<exists>h'. list_for_each_safe list_del h head = Some (h', xs) \<and> ring h' head []"
proof -
  obtain n where n: "h head = Some n" using ring_dom [OF assms] by auto
  have q: "hd (xs @ [head]) \<in> set (head # xs)" by (cases xs) auto
  then obtain n1 where n1: "h (hd (xs @ [head])) = Some n1" using ring_dom [OF assms] by blast
  have "lnext n = Some (hd (xs @ [head]))" using assms n seg_hd [of h head xs head] by (simp add: ring_def)
  then show ?thesis
    using for_each_safe_del [OF assms] n n1 by (simp add: list_for_each_safe_def deref_def)
qed

section \<open>The interface\<close>

text \<open>
  What the users of a list rely on: nodes of the store go in at the tail, any node comes
  out, and a walk visits the nodes in order.
\<close>

locale intrusive_queue =
  fixes rep :: "'h \<Rightarrow> nat \<Rightarrow> nat list \<Rightarrow> bool"
    and node :: "'h \<Rightarrow> nat \<Rightarrow> bool"
    and add_tail :: "'h \<Rightarrow> nat \<Rightarrow> nat \<Rightarrow> 'h option"
    and del :: "'h \<Rightarrow> nat \<Rightarrow> 'h option"
    and walk :: "'h \<Rightarrow> nat \<Rightarrow> nat list option"
  assumes rep_distinct: "rep h l xs \<Longrightarrow> distinct (l # xs)"
    and add_tail: "rep h l xs \<Longrightarrow> node h x \<Longrightarrow> x \<notin> set (l # xs) \<Longrightarrow>
      \<exists>h'. add_tail h x l = Some h' \<and> rep h' l (xs @ [x]) \<and> node h' = node h"
    and del: "rep h l xs \<Longrightarrow> x \<in> set xs \<Longrightarrow>
      \<exists>h'. del h x = Some h' \<and> rep h' l (remove1 x xs) \<and> node h' = node h"
    and walk: "rep h l xs \<Longrightarrow> walk h l = Some xs"

text \<open>A list that also takes nodes at its front.\<close>

locale intrusive_list = intrusive_queue +
  fixes add :: "'h \<Rightarrow> nat \<Rightarrow> nat \<Rightarrow> 'h option"
  assumes add: "rep h l xs \<Longrightarrow> node h x \<Longrightarrow> x \<notin> set (l # xs) \<Longrightarrow>
      \<exists>h'. add h x l = Some h' \<and> rep h' l (x # xs) \<and> node h' = node h"

text \<open>Sequences of operations, on a store and on the list that it represents.\<close>

datatype list_cmd = CAdd nat | CAddTail nat | CDel nat

fun list_cmds :: "('h \<Rightarrow> nat \<Rightarrow> nat \<Rightarrow> 'h option) \<Rightarrow> ('h \<Rightarrow> nat \<Rightarrow> nat \<Rightarrow> 'h option) \<Rightarrow>
    ('h \<Rightarrow> nat \<Rightarrow> 'h option) \<Rightarrow> nat \<Rightarrow> list_cmd list \<Rightarrow> 'h \<Rightarrow> 'h option" where
  "list_cmds add add_tail del l [] h = Some h"
| "list_cmds add add_tail del l (CAdd x # cs) h = do { h1 \<leftarrow> add h x l; list_cmds add add_tail del l cs h1 }"
| "list_cmds add add_tail del l (CAddTail x # cs) h = do { h1 \<leftarrow> add_tail h x l; list_cmds add add_tail del l cs h1 }"
| "list_cmds add add_tail del l (CDel x # cs) h = do { h1 \<leftarrow> del h x; list_cmds add add_tail del l cs h1 }"

fun abs_cmd :: "list_cmd \<Rightarrow> nat list \<Rightarrow> nat list" where
  "abs_cmd (CAdd x) xs = x # xs"
| "abs_cmd (CAddTail x) xs = xs @ [x]"
| "abs_cmd (CDel x) xs = remove1 x xs"

text \<open>A node goes into a list that it is not in, and comes out of one that it is in.\<close>

fun cmds_ok :: "(nat \<Rightarrow> bool) \<Rightarrow> nat \<Rightarrow> list_cmd list \<Rightarrow> nat list \<Rightarrow> bool" where
  "cmds_ok node l [] xs = True"
| "cmds_ok node l (CAdd x # cs) xs = (node x \<and> x \<notin> set (l # xs) \<and> cmds_ok node l cs (x # xs))"
| "cmds_ok node l (CAddTail x # cs) xs = (node x \<and> x \<notin> set (l # xs) \<and> cmds_ok node l cs (xs @ [x]))"
| "cmds_ok node l (CDel x # cs) xs = (x \<in> set xs \<and> cmds_ok node l cs (remove1 x xs))"

context intrusive_list
begin

lemma cmds_refine:
  assumes "rep h l xs" "cmds_ok (node h) l cs xs"
  shows "\<exists>h'. list_cmds add add_tail del l cs h = Some h' \<and> rep h' l (fold abs_cmd cs xs) \<and> node h' = node h"
  using assms
proof (induction cs arbitrary: h xs)
  case (Cons c cs)
  have "\<exists>h1. list_cmds add add_tail del l (c # cs) h = list_cmds add add_tail del l cs h1 \<and>
      rep h1 l (abs_cmd c xs) \<and> node h1 = node h"
    by (cases c) (use Cons.prems add [of h l xs] add_tail [of h l xs] del [of h l xs] in fastforce)+
  then obtain h1 where h1: "list_cmds add add_tail del l (c # cs) h = list_cmds add add_tail del l cs h1"
    "rep h1 l (abs_cmd c xs)" "node h1 = node h" by blast
  have "cmds_ok (node h1) l cs (abs_cmd c xs)" using Cons.prems(2) h1(3) by (cases c) auto
  from Cons.IH [OF h1(2) this] show ?case using h1(1,3) by simp
qed simp

lemma cmds_walk:
  assumes "rep h l xs" "cmds_ok (node h) l cs xs"
  shows "\<exists>h'. list_cmds add add_tail del l cs h = Some h' \<and> walk h' l = Some (fold abs_cmd cs xs)"
  using cmds_refine [OF assms] walk by blast

end

text \<open>The rings of \<open>list.h\<close> are such lists.\<close>

definition in_store :: "list_heap \<Rightarrow> nat \<Rightarrow> bool" where
  "in_store h z = (z \<in> dom h)"

lemma ring_del_in:
  assumes "ring h head xs" "x \<in> set xs"
  shows "\<exists>h'. list_del h x = Some h' \<and> ring h' head (remove1 x xs) \<and> dom h' = dom h"
proof -
  from assms(2) obtain us ws where xs: "xs = us @ x # ws" "x \<notin> set us" by (meson split_list_first)
  then have "remove1 x xs = us @ ws" by (simp add: remove1_append)
  with ring_del [of h head us x ws] assms(1) xs show ?thesis by auto
qed

interpretation lh: intrusive_list ring in_store list_add_tail list_del list_for_each list_add
proof unfold_locales
  show "distinct (l # xs)" if "ring h l xs" for h l xs using that by (simp add: ring_def)
  show "list_for_each h l = Some xs" if "ring h l xs" for h l xs using that by (rule ring_for_each)
  show "\<exists>h'. list_add_tail h x l = Some h' \<and> ring h' l (xs @ [x]) \<and> in_store h' = in_store h"
    if "ring h l xs" "in_store h x" "x \<notin> set (l # xs)" for h l xs x
    using that ring_add_tail [OF that(1) _ that(3)] by (fastforce simp: in_store_def fun_eq_iff)
  show "\<exists>h'. list_add h x l = Some h' \<and> ring h' l (x # xs) \<and> in_store h' = in_store h"
    if "ring h l xs" "in_store h x" "x \<notin> set (l # xs)" for h l xs x
    using that ring_add [OF that(1) _ that(3)] by (fastforce simp: in_store_def fun_eq_iff)
  show "\<exists>h'. list_del h x = Some h' \<and> ring h' l (remove1 x xs) \<and> in_store h' = in_store h"
    if "ring h l xs" "x \<in> set xs" for h l xs x
    using ring_del_in [OF that] unfolding in_store_def by metis
qed

section \<open>The lists of the program\<close>

text \<open>C16: A list that starts with \<open>init_list_head\<close> and then takes nodes at its front and at its
  tail and gives them up again, in any order, never follows a bad pointer: it stays a ring
  of distinct nodes, the loops forwards and backwards end and visit exactly the nodes that
  are in it, in order, \<open>list_empty\<close> tells whether there are any, and a safe loop that deletes
  each node visits them all and empties the list.\<close>

theorem list_head_refines:
  assumes "h head \<noteq> None" "cmds_ok (\<lambda>z. h z \<noteq> None) head cs []"
  shows "\<exists>h0 h1. init_list_head h head = Some h0 \<and>
    list_cmds list_add list_add_tail list_del head cs h0 = Some h1 \<and>
    (let xs = fold abs_cmd cs [] in
     distinct (head # xs) \<and> list_for_each h1 head = Some xs \<and> list_for_each_prev h1 head = Some (rev xs) \<and>
     list_empty h1 head = Some (xs = []) \<and>
     (\<exists>h2. list_for_each_safe list_del h1 head = Some (h2, xs) \<and> list_for_each h2 head = Some []))"
proof -
  from assms(1) obtain n where n: "h head = Some n" by blast
  from ring_init [of h head n] n obtain h0 where h0: "init_list_head h head = Some h0" "ring h0 head []"
    "\<And>z. z \<noteq> head \<Longrightarrow> h0 z = h z" by blast
  obtain n0 where "h0 head = Some n0" using ring_dom [OF h0(2)] by auto
  then have "in_store h0 = (\<lambda>z. h z \<noteq> None)"
    using n h0(3) by (auto simp: in_store_def fun_eq_iff dom_def) (metis option.distinct(1) option.exhaust)+
  with assms(2) have "cmds_ok (in_store h0) head cs []" by simp
  from lh.cmds_refine [OF h0(2) this] obtain h1 where
    h1: "list_cmds list_add list_add_tail list_del head cs h0 = Some h1" "ring h1 head (fold abs_cmd cs [])" by blast
  from ring_for_each_safe_del [OF h1(2)] obtain h2 where
    h2: "list_for_each_safe list_del h1 head = Some (h2, fold abs_cmd cs [])" "ring h2 head []" by blast
  show ?thesis
    using h0(1) h1(1) h2(1) ring_for_each [OF h1(2)] ring_for_each_prev [OF h1(2)] ring_empty [OF h1(2)]
      ring_for_each [OF h2(2)] lh.rep_distinct [OF h1(2)]
    by (auto simp: Let_def)
qed

theorem list_head_refines_witness:
  "\<exists>h0 h1. init_list_head (\<lambda>z. Some \<lparr>lprev = None, lnext = None\<rparr>) 0 = Some h0 \<and>
    list_cmds list_add list_add_tail list_del 0 [CAddTail 3, CAdd 5, CAddTail 7, CDel 3] h0 = Some h1 \<and>
    (let xs = fold abs_cmd [CAddTail 3, CAdd 5, CAddTail 7, CDel 3] [] in
     distinct (0 # xs) \<and> list_for_each h1 0 = Some xs \<and> list_for_each_prev h1 0 = Some (rev xs) \<and>
     list_empty h1 0 = Some (xs = []) \<and>
     (\<exists>h2. list_for_each_safe list_del h1 0 = Some (h2, xs) \<and> list_for_each h2 0 = Some []))"
  by (rule list_head_refines) simp_all

end
