(* ===== verification/EventLoop.thy ===== *)
theory EventLoop
  imports JsMem
begin

text \<open>
  The event loop of \<open>src/src/lib/quickjs-libc.c\<close>: timers, file descriptor and signal
  handlers, worker messages, unhandled rejections, \<open>js_os_poll\<close>, \<open>js_std_loop\<close> and
  \<open>js_std_await\<close>, with the job queue of the engine.

  The state of a thread is a \<open>thread_state\<close>; its intrusive lists are the lists of their
  nodes (theory \<open>ListHead\<close> shows that they may be).  What script code does is a
  parameter: a function that is called performs a list of operations (\<open>js_op\<close>) of the
  interface.  The system (clock, \<open>select\<close>, signals, messages of other threads, the
  allocator) is a parameter as well, a function of the number of calls made so far
  (\<open>ticks\<close>).  \<open>ev_log\<close> records what the loop called, the last call first; no
  operation reads it.
\<close>

section \<open>The state of a thread\<close>

record rw_handler =
  rw_fd :: u32
  rw_read :: "nat option"
  rw_write :: "nat option"

record sig_handler =
  sh_num :: u32
  sh_func :: nat

record timer =
  th_ptr :: nat
  th_id :: u32
  th_timeout :: u64
  th_func :: nat

text \<open>The handler of a worker object for the messages of the pipe that it receives from.\<close>

record port =
  pt_worker :: nat
  pt_func :: "nat option"

datatype event = EvTimer nat nat | EvClear nat | EvRead u32 nat | EvWrite u32 nat
  | EvSignal u32 nat | EvMessage nat nat | EvJob nat

record thread_state =
  os_rw_handlers :: "rw_handler list"
  os_signal_handlers :: "sig_handler list"
  os_timers :: "timer list"
  port_list :: "port list"
  msg_queue :: "nat \<Rightarrow> nat list"
  rejected_promise_list :: "(nat \<times> nat) list"
  next_timer_id :: u32
  is_worker :: bool
  os_pending_signals :: u64
  job_list :: "nat list"
  ticks :: nat
  ev_log :: "event list"

definition js_std_init_handlers :: "bool \<Rightarrow> thread_state" where
  "js_std_init_handlers worker =
     \<lparr>os_rw_handlers = [], os_signal_handlers = [], os_timers = [], port_list = [], msg_queue = (\<lambda>w. []),
      rejected_promise_list = [], next_timer_id = 1, is_worker = worker, os_pending_signals = 0,
      job_list = [], ticks = 0, ev_log = []\<rparr>"

text \<open>A value passed for a function: \<open>null\<close>, \<open>undefined\<close>, something else, or a function.\<close>

datatype func_arg = FNull | FUndefined | FOther | FFun nat

datatype js_op =
    OpSetTimeout func_arg "js_error + u64"
  | OpClearTimeout "js_error + u32"
  | OpSleepAsync "js_error + u64" "js_error + nat"
  | OpSetHandler "js_error + u32" func_arg bool
  | OpOnMessage nat func_arg
  | OpSignal "js_error + u32" func_arg
  | OpEnqueueJob nat
  | OpReject nat nat
  | OpHandled nat

datatype promise_state = Pending | Fulfilled nat | Rejected nat | NotPromise

record world =
  clock :: "nat \<Rightarrow> u64"
  alloc_ok :: "nat \<Rightarrow> bool"
  script :: "nat \<Rightarrow> nat \<Rightarrow> js_op list"
  job_ok :: "nat \<Rightarrow> bool"
  raised :: "nat \<Rightarrow> u32 list"
  select_ret :: "nat \<Rightarrow> int"
  fd_read :: "nat \<Rightarrow> u32 \<Rightarrow> bool"
  fd_write :: "nat \<Rightarrow> u32 \<Rightarrow> bool"
  port_ready :: "nat \<Rightarrow> nat \<Rightarrow> bool"
  posted :: "nat \<Rightarrow> nat \<Rightarrow> nat list"
  message_ok :: "nat \<Rightarrow> bool"
  promise :: "nat \<Rightarrow> nat \<Rightarrow> promise_state"

definition tick :: "thread_state \<Rightarrow> thread_state" where
  "tick s = s\<lparr>ticks := ticks s + 1\<rparr>"

definition get_time_ms :: "world \<Rightarrow> thread_state \<Rightarrow> u64 \<times> thread_state" where
  "get_time_ms W s = (clock W (ticks s), tick s)"

text \<open>A new block; its address is one that was never used.\<close>

definition js_mallocz :: "world \<Rightarrow> thread_state \<Rightarrow> nat option \<times> thread_state" where
  "js_mallocz W s = (if alloc_ok W (ticks s) then Some (ticks s) else None, tick s)"

definition out_of_memory :: js_error where
  "out_of_memory = InternalError ''out of memory''"

section \<open>Timers\<close>

definition free_timer :: "nat \<Rightarrow> thread_state \<Rightarrow> thread_state" where
  "free_timer p s = s\<lparr>os_timers := filter (\<lambda>th. th_ptr th \<noteq> p) (os_timers s)\<rparr>"

definition js_os_setTimeout ::
  "world \<Rightarrow> func_arg \<Rightarrow> js_error + u64 \<Rightarrow> thread_state \<Rightarrow> (js_error + u32) \<times> thread_state" where
  "js_os_setTimeout W func delay s = (case func of
       FFun f \<Rightarrow>
         (case delay of
            Inl e \<Rightarrow> (Inl e, s)
          | Inr d \<Rightarrow>
              (case js_mallocz W s of
                 (None, s1) \<Rightarrow> (Inl out_of_memory, s1)
               | (Some p, s1) \<Rightarrow>
                   let tid = next_timer_id s1;
                       s2 = s1\<lparr>next_timer_id := (if tid = 0x7FFFFFFF then 1 else tid + 1)\<rparr>;
                       (now, s3) = get_time_ms W s2;
                       th = \<lparr>th_ptr = p, th_id = tid, th_timeout = now + d, th_func = f\<rparr>
                   in (Inr tid, s3\<lparr>os_timers := os_timers s3 @ [th]\<rparr>)))
     | _ \<Rightarrow> (Inl (TypeError ''not a function''), s))"

definition find_timer_by_id :: "thread_state \<Rightarrow> u32 \<Rightarrow> timer option" where
  "find_timer_by_id s timer_id =
     (if timer_id \<le>s 0 then None else find (\<lambda>th. th_id th = timer_id) (os_timers s))"

definition js_os_clearTimeout :: "js_error + u32 \<Rightarrow> thread_state \<Rightarrow> (js_error + unit) \<times> thread_state" where
  "js_os_clearTimeout timer_id s = (case timer_id of
       Inl e \<Rightarrow> (Inl e, s)
     | Inr tid \<Rightarrow>
         (case find_timer_by_id s tid of
            None \<Rightarrow> (Inr (), s)
          | Some th \<Rightarrow> (Inr (), (free_timer (th_ptr th) s)\<lparr>ev_log := EvClear (th_ptr th) # ev_log s\<rparr>)))"

text \<open>The second argument is the promise capability: its resolving function, or its failure.\<close>

definition js_os_sleepAsync ::
  "world \<Rightarrow> js_error + u64 \<Rightarrow> js_error + nat \<Rightarrow> thread_state \<Rightarrow> (js_error + unit) \<times> thread_state" where
  "js_os_sleepAsync W delay capability s = (case delay of
       Inl e \<Rightarrow> (Inl e, s)
     | Inr d \<Rightarrow>
         (case capability of
            Inl e \<Rightarrow> (Inl e, s)
          | Inr f \<Rightarrow>
              (case js_mallocz W s of
                 (None, s1) \<Rightarrow> (Inl out_of_memory, s1)
               | (Some p, s1) \<Rightarrow>
                   let (now, s2) = get_time_ms W s1;
                       th = \<lparr>th_ptr = p, th_id = - 1, th_timeout = now + d, th_func = f\<rparr>
                   in (Inr (), s2\<lparr>os_timers := os_timers s2 @ [th]\<rparr>))))"

section \<open>Descriptors and signals\<close>

definition find_rh :: "thread_state \<Rightarrow> u32 \<Rightarrow> rw_handler option" where
  "find_rh s fd = find (\<lambda>rh. rw_fd rh = fd) (os_rw_handlers s)"

definition free_rw_handler :: "u32 \<Rightarrow> thread_state \<Rightarrow> thread_state" where
  "free_rw_handler fd s = s\<lparr>os_rw_handlers := filter (\<lambda>rh. rw_fd rh \<noteq> fd) (os_rw_handlers s)\<rparr>"

definition set_rw :: "bool \<Rightarrow> nat option \<Rightarrow> rw_handler \<Rightarrow> rw_handler" where
  "set_rw magic f rh = (if magic then rh\<lparr>rw_write := f\<rparr> else rh\<lparr>rw_read := f\<rparr>)"

definition update_rh :: "u32 \<Rightarrow> (rw_handler \<Rightarrow> rw_handler) \<Rightarrow> thread_state \<Rightarrow> thread_state" where
  "update_rh fd g s =
     s\<lparr>os_rw_handlers := map (\<lambda>rh. if rw_fd rh = fd then g rh else rh) (os_rw_handlers s)\<rparr>"

definition js_os_setReadHandler ::
  "world \<Rightarrow> js_error + u32 \<Rightarrow> func_arg \<Rightarrow> bool \<Rightarrow> thread_state \<Rightarrow> (js_error + unit) \<times> thread_state" where
  "js_os_setReadHandler W fd_arg func magic s = (case fd_arg of
       Inl e \<Rightarrow> (Inl e, s)
     | Inr fd \<Rightarrow>
         (case func of
            FNull \<Rightarrow>
              (case find_rh s fd of
                 None \<Rightarrow> (Inr (), s)
               | Some rh \<Rightarrow>
                   let rh1 = set_rw magic None rh; s1 = update_rh fd (set_rw magic None) s
                   in (Inr (), if rw_read rh1 = None \<and> rw_write rh1 = None then free_rw_handler fd s1 else s1))
          | FFun f \<Rightarrow>
              (case find_rh s fd of
                 Some rh \<Rightarrow> (Inr (), update_rh fd (set_rw magic (Some f)) s)
               | None \<Rightarrow>
                   (case js_mallocz W s of
                      (None, s1) \<Rightarrow> (Inl out_of_memory, s1)
                    | (Some p, s1) \<Rightarrow>
                        let rh = \<lparr>rw_fd = fd, rw_read = None, rw_write = None\<rparr>
                        in (Inr (), s1\<lparr>os_rw_handlers := os_rw_handlers s1 @ [set_rw magic (Some f) rh]\<rparr>)))
          | _ \<Rightarrow> (Inl (TypeError ''not a function''), s)))"

definition find_sh :: "thread_state \<Rightarrow> u32 \<Rightarrow> sig_handler option" where
  "find_sh s sig_num = find (\<lambda>sh. sh_num sh = sig_num) (os_signal_handlers s)"

definition free_sh :: "u32 \<Rightarrow> thread_state \<Rightarrow> thread_state" where
  "free_sh sig_num s = s\<lparr>os_signal_handlers := filter (\<lambda>sh. sh_num sh \<noteq> sig_num) (os_signal_handlers s)\<rparr>"

definition os_signal_handler :: "u32 \<Rightarrow> thread_state \<Rightarrow> thread_state" where
  "os_signal_handler sig_num s = s\<lparr>os_pending_signals := os_pending_signals s OR push_bit (unat sig_num) 1\<rparr>"

text \<open>What the system does with the signal from then on is not part of the state.\<close>

definition js_os_signal ::
  "world \<Rightarrow> js_error + u32 \<Rightarrow> func_arg \<Rightarrow> thread_state \<Rightarrow> (js_error + unit) \<times> thread_state" where
  "js_os_signal W sig_arg func s =
     (if is_worker s then (Inl (TypeError ''signal handler can only be set in the main thread''), s)
      else case sig_arg of
        Inl e \<Rightarrow> (Inl e, s)
      | Inr sig_num \<Rightarrow>
          if sig_num \<ge> 64 then (Inl (RangeError ''invalid signal number''), s)
          else case func of
            FNull \<Rightarrow> (Inr (), if find_sh s sig_num \<noteq> None then free_sh sig_num s else s)
          | FUndefined \<Rightarrow> (Inr (), if find_sh s sig_num \<noteq> None then free_sh sig_num s else s)
          | FOther \<Rightarrow> (Inl (TypeError ''not a function''), s)
          | FFun f \<Rightarrow>
              (case find_sh s sig_num of
                 Some sh \<Rightarrow> (Inr (), s\<lparr>os_signal_handlers :=
                     map (\<lambda>sh. if sh_num sh = sig_num then sh\<lparr>sh_func := f\<rparr> else sh) (os_signal_handlers s)\<rparr>)
               | None \<Rightarrow>
                   (case js_mallocz W s of
                      (None, s1) \<Rightarrow> (Inl out_of_memory, s1)
                    | (Some p, s1) \<Rightarrow>
                        (Inr (), s1\<lparr>os_signal_handlers := os_signal_handlers s1 @ [\<lparr>sh_num = sig_num, sh_func = f\<rparr>]\<rparr>))))"

section \<open>Ports of workers\<close>

definition js_free_port :: "nat \<Rightarrow> thread_state \<Rightarrow> thread_state" where
  "js_free_port w s = s\<lparr>port_list := filter (\<lambda>pt. pt_worker pt \<noteq> w) (port_list s)\<rparr>"

text \<open>The port of a worker object (\<open>msg_handler\<close>) is the one of the list with its number.\<close>

definition js_worker_set_onmessage ::
  "world \<Rightarrow> nat \<Rightarrow> func_arg \<Rightarrow> thread_state \<Rightarrow> (js_error + unit) \<times> thread_state" where
  "js_worker_set_onmessage W w func s = (case func of
       FNull \<Rightarrow> (Inr (), if find (\<lambda>pt. pt_worker pt = w) (port_list s) \<noteq> None then js_free_port w s else s)
     | FFun f \<Rightarrow>
         (case find (\<lambda>pt. pt_worker pt = w) (port_list s) of
            Some pt \<Rightarrow> (Inr (), s\<lparr>port_list :=
                map (\<lambda>pt. if pt_worker pt = w then pt\<lparr>pt_func := Some f\<rparr> else pt) (port_list s)\<rparr>)
          | None \<Rightarrow>
              (case js_mallocz W s of
                 (None, s1) \<Rightarrow> (Inl out_of_memory, s1)
               | (Some p, s1) \<Rightarrow>
                   (Inr (), s1\<lparr>port_list := port_list s1 @ [\<lparr>pt_worker = w, pt_func = Some f\<rparr>]\<rparr>)))
     | _ \<Rightarrow> (Inl (TypeError ''not a function''), s))"

section \<open>Rejected promises and jobs\<close>

definition find_rejected_promise :: "thread_state \<Rightarrow> nat \<Rightarrow> (nat \<times> nat) option" where
  "find_rejected_promise s p = find (\<lambda>rp. fst rp = p) (rejected_promise_list s)"

definition js_std_promise_rejection_tracker ::
  "world \<Rightarrow> nat \<Rightarrow> nat \<Rightarrow> bool \<Rightarrow> thread_state \<Rightarrow> thread_state" where
  "js_std_promise_rejection_tracker W p reason is_handled s =
     (if \<not> is_handled then
        (case find_rejected_promise s p of
           Some rp \<Rightarrow> s
         | None \<Rightarrow>
             (case js_mallocz W s of
                (None, s1) \<Rightarrow> s1
              | (Some _, s1) \<Rightarrow> s1\<lparr>rejected_promise_list := rejected_promise_list s1 @ [(p, reason)]\<rparr>))
      else
        (case find_rejected_promise s p of
           Some rp \<Rightarrow> s\<lparr>rejected_promise_list := filter (\<lambda>rp. fst rp \<noteq> p) (rejected_promise_list s)\<rparr>
         | None \<Rightarrow> s))"

text \<open>0, or -1 with a pending out of memory exception.\<close>

definition JS_EnqueueJob :: "world \<Rightarrow> nat \<Rightarrow> thread_state \<Rightarrow> int \<times> thread_state" where
  "JS_EnqueueJob W j s = (case js_mallocz W s of
       (None, s1) \<Rightarrow> (- 1, s1)
     | (Some _, s1) \<Rightarrow> (0, s1\<lparr>job_list := job_list s1 @ [j]\<rparr>))"

fun run_op :: "world \<Rightarrow> js_op \<Rightarrow> thread_state \<Rightarrow> thread_state" where
  "run_op W (OpSetTimeout f d) s = snd (js_os_setTimeout W f d s)"
| "run_op W (OpClearTimeout tid) s = snd (js_os_clearTimeout tid s)"
| "run_op W (OpSleepAsync d c) s = snd (js_os_sleepAsync W d c s)"
| "run_op W (OpSetHandler fd f magic) s = snd (js_os_setReadHandler W fd f magic s)"
| "run_op W (OpOnMessage w f) s = snd (js_worker_set_onmessage W w f s)"
| "run_op W (OpSignal sig f) s = snd (js_os_signal W sig f s)"
| "run_op W (OpEnqueueJob j) s = snd (JS_EnqueueJob W j s)"
| "run_op W (OpReject p r) s = js_std_promise_rejection_tracker W p r False s"
| "run_op W (OpHandled p) s = js_std_promise_rejection_tracker W p 0 True s"

text \<open>A call of a function: the operations it performs; an exception that it throws is printed.\<close>

definition call_handler :: "world \<Rightarrow> nat \<Rightarrow> thread_state \<Rightarrow> thread_state" where
  "call_handler W f s = fold (run_op W) (script W (ticks s) f) (tick s)"

definition JS_ExecutePendingJob :: "world \<Rightarrow> thread_state \<Rightarrow> int \<times> thread_state" where
  "JS_ExecutePendingJob W s = (case job_list s of
       [] \<Rightarrow> (0, s)
     | j # js \<Rightarrow>
         let s1 = call_handler W j (s\<lparr>job_list := js, ev_log := EvJob j # ev_log s\<rparr>)
         in (if job_ok W (ticks s1) then 1 else - 1, tick s1))"

section \<open>Polling\<close>

text \<open>The first handler, in the order of the list, whose signal is pending.\<close>

definition pending_handler :: "thread_state \<Rightarrow> sig_handler option" where
  "pending_handler s = find (\<lambda>sh. os_pending_signals s AND push_bit (unat (sh_num sh)) 1 \<noteq> 0) (os_signal_handlers s)"

text \<open>The loop over the timers: an expired one, or the least delay.\<close>

fun scan_timers :: "u64 \<Rightarrow> u64 \<Rightarrow> timer list \<Rightarrow> timer + u64" where
  "scan_timers now min_delay [] = Inr min_delay"
| "scan_timers now min_delay (th # ths) =
     (let delay = th_timeout th - now in
      if delay \<le>s 0 then Inl th
      else scan_timers now (if delay <s min_delay then delay else min_delay) ths)"

text \<open>Messages that other threads have posted, before \<open>select\<close> returns.\<close>

definition receive :: "world \<Rightarrow> thread_state \<Rightarrow> thread_state" where
  "receive W s = s\<lparr>msg_queue := \<lambda>w. msg_queue s w @ posted W (ticks s) w\<rparr>"

definition handle_posted_message :: "world \<Rightarrow> port \<Rightarrow> thread_state \<Rightarrow> bool \<times> thread_state" where
  "handle_posted_message W pt s = (case msg_queue s (pt_worker pt) of
       [] \<Rightarrow> (False, s)
     | msg # rest \<Rightarrow>
         let s1 = s\<lparr>msg_queue := (msg_queue s)(pt_worker pt := rest)\<rparr>
         in if message_ok W (ticks s1)
            then (case pt_func pt of
                    Some f \<Rightarrow> (True, call_handler W f (tick (s1\<lparr>ev_log := EvMessage (pt_worker pt) msg # ev_log s1\<rparr>)))
                  | None \<Rightarrow> (True, tick s1))
            else (True, tick s1))"

text \<open>The handler that is ready first, the one for reading before the one for writing.\<close>

fun ready_handler :: "world \<Rightarrow> nat \<Rightarrow> rw_handler list \<Rightarrow> (event \<times> nat) option" where
  "ready_handler W k [] = None"
| "ready_handler W k (rh # rhs) =
     (case (if fd_read W k (rw_fd rh) then rw_read rh else None) of
        Some f \<Rightarrow> Some (EvRead (rw_fd rh) f, f)
      | None \<Rightarrow>
          (case (if fd_write W k (rw_fd rh) then rw_write rh else None) of
             Some f \<Rightarrow> Some (EvWrite (rw_fd rh) f, f)
           | None \<Rightarrow> ready_handler W k rhs))"

fun poll_ports :: "world \<Rightarrow> nat \<Rightarrow> port list \<Rightarrow> thread_state \<Rightarrow> thread_state" where
  "poll_ports W k [] s = s"
| "poll_ports W k (pt # pts) s =
     (if pt_func pt \<noteq> None \<and> port_ready W k (pt_worker pt) then
        (case handle_posted_message W pt s of
           (True, s1) \<Rightarrow> s1
         | (False, s1) \<Rightarrow> poll_ports W k pts s1)
      else poll_ports W k pts s)"

text \<open>From \<open>select\<close> on; its result is the argument of the handlers.\<close>

definition poll_select :: "world \<Rightarrow> thread_state \<Rightarrow> thread_state" where
  "poll_select W s0 =
     (let s = receive W s0; k = ticks s; s1 = tick s in
      if select_ret W k > 0 then
        (case ready_handler W k (os_rw_handlers s1) of
           Some (ev, f) \<Rightarrow> call_handler W f (s1\<lparr>ev_log := ev # ev_log s1\<rparr>)
         | None \<Rightarrow> poll_ports W k (port_list s1) s1)
      else s1)"

definition poll_timers :: "world \<Rightarrow> thread_state \<Rightarrow> thread_state" where
  "poll_timers W s =
     (if os_timers s \<noteq> [] then
        (let (now, s1) = get_time_ms W s in
         case scan_timers now 10000 (os_timers s1) of
           Inl th \<Rightarrow> call_handler W (th_func th)
                       ((free_timer (th_ptr th) s1)\<lparr>ev_log := EvTimer (th_ptr th) (th_func th) # ev_log s1\<rparr>)
         | Inr min_delay \<Rightarrow> poll_select W s1)
      else poll_select W s)"

definition js_os_poll :: "world \<Rightarrow> thread_state \<Rightarrow> int \<times> thread_state" where
  "js_os_poll W s0 =
     (let s = tick (fold os_signal_handler (raised W (ticks s0)) s0) in
      case (if \<not> is_worker s \<and> os_pending_signals s \<noteq> 0 then pending_handler s else None) of
        Some sh \<Rightarrow>
          (0, call_handler W (sh_func sh)
             (s\<lparr>os_pending_signals := os_pending_signals s AND NOT (push_bit (unat (sh_num sh)) 1),
                ev_log := EvSignal (sh_num sh) (sh_func sh) # ev_log s\<rparr>))
      | None \<Rightarrow>
          if os_rw_handlers s = [] \<and> os_timers s = [] \<and> port_list s = [] then (- 1, s)
          else (0, poll_timers W s))"

section \<open>The loops\<close>

partial_function (option) run_jobs :: "world \<Rightarrow> thread_state \<Rightarrow> thread_state option" where
  "run_jobs W s =
     (if fst (JS_ExecutePendingJob W s) \<le> 0 then Some (snd (JS_ExecutePendingJob W s))
      else run_jobs W (snd (JS_ExecutePendingJob W s)))"

datatype loop_end = LoopDone thread_state | ExitUnhandled thread_state

partial_function (option) js_std_loop :: "world \<Rightarrow> thread_state \<Rightarrow> loop_end option" where
  "js_std_loop W s = do {
     s1 \<leftarrow> run_jobs W s;
     if rejected_promise_list s1 \<noteq> [] then Some (ExitUnhandled s1)
     else if fst (js_os_poll W s1) \<noteq> 0 then Some (LoopDone (snd (js_os_poll W s1)))
     else js_std_loop W (snd (js_os_poll W s1)) }"

datatype await_end = AwaitReturn nat thread_state | AwaitThrow nat thread_state | AwaitExit thread_state

text \<open>The value of an awaited promise; the result of the poll is not looked at.\<close>

partial_function (option) js_std_await :: "world \<Rightarrow> nat \<Rightarrow> thread_state \<Rightarrow> await_end option" where
  "js_std_await W obj s =
     (case promise W (ticks s) obj of
        Fulfilled v \<Rightarrow> Some (AwaitReturn v s)
      | Rejected r \<Rightarrow> Some (AwaitThrow r s)
      | NotPromise \<Rightarrow> Some (AwaitReturn obj s)
      | Pending \<Rightarrow>
          if fst (JS_ExecutePendingJob W s) \<noteq> 0 then js_std_await W obj (snd (JS_ExecutePendingJob W s))
          else if rejected_promise_list s \<noteq> [] then Some (AwaitExit s)
          else js_std_await W obj (snd (js_os_poll W s)))"

text \<open>\<open>js_std_free_handlers\<close>: the handlers go; the ports belong to the worker objects.\<close>

definition js_std_free_handlers :: "thread_state \<Rightarrow> thread_state" where
  "js_std_free_handlers s =
     s\<lparr>os_rw_handlers := [], os_signal_handlers := [], os_timers := [], rejected_promise_list := [], port_list := []\<rparr>"

end
