(* ===== verification/EventLoop_Proofs.thy ===== *)
theory EventLoop_Proofs
  imports EventLoop
begin

text \<open>
  The invariant of the event loop, the progress of expired timers and the end of the main
  loop, for every behaviour of the scripts and of the system.
\<close>

section \<open>The invariant\<close>

definition id_ok :: "u32 \<Rightarrow> bool" where
  "id_ok i = (1 \<le> unat i \<and> unat i \<le> 0x7FFFFFFF)"

definition timers_inv :: "thread_state \<Rightarrow> bool" where
  "timers_inv s = (distinct (map th_ptr (os_timers s)) \<and>
     (\<forall>th \<in> set (os_timers s). th_ptr th < ticks s \<and> (th_id th = - 1 \<or> id_ok (th_id th))) \<and>
     id_ok (next_timer_id s))"

definition rw_inv :: "thread_state \<Rightarrow> bool" where
  "rw_inv s = (distinct (map rw_fd (os_rw_handlers s)) \<and>
     (\<forall>rh \<in> set (os_rw_handlers s). rw_read rh \<noteq> None \<or> rw_write rh \<noteq> None))"

definition sig_inv :: "thread_state \<Rightarrow> bool" where
  "sig_inv s = (distinct (map sh_num (os_signal_handlers s)) \<and>
     (\<forall>sh \<in> set (os_signal_handlers s). sh_num sh < 64) \<and>
     (is_worker s \<longrightarrow> os_signal_handlers s = []))"

definition rej_inv :: "thread_state \<Rightarrow> bool" where
  "rej_inv s = distinct (map fst (rejected_promise_list s))"

definition port_inv :: "thread_state \<Rightarrow> bool" where
  "port_inv s = (distinct (map pt_worker (port_list s)) \<and> (\<forall>pt \<in> set (port_list s). pt_func pt \<noteq> None))"

definition loop_inv :: "thread_state \<Rightarrow> bool" where
  "loop_inv s = (timers_inv s \<and> rw_inv s \<and> sig_inv s \<and> rej_inv s \<and> port_inv s)"

text \<open>What the parts of the state that an operation leaves alone say.\<close>

lemma timers_inv_same:
  "timers_inv s \<Longrightarrow> os_timers s' = os_timers s \<Longrightarrow> next_timer_id s' = next_timer_id s \<Longrightarrow> ticks s \<le> ticks s' \<Longrightarrow> timers_inv s'"
  by (auto simp: timers_inv_def)

lemma rw_inv_same: "rw_inv s \<Longrightarrow> os_rw_handlers s' = os_rw_handlers s \<Longrightarrow> rw_inv s'"
  by (simp add: rw_inv_def)

lemma sig_inv_same:
  "sig_inv s \<Longrightarrow> os_signal_handlers s' = os_signal_handlers s \<Longrightarrow> is_worker s' = is_worker s \<Longrightarrow> sig_inv s'"
  by (simp add: sig_inv_def)

lemma rej_inv_same: "rej_inv s \<Longrightarrow> rejected_promise_list s' = rejected_promise_list s \<Longrightarrow> rej_inv s'"
  by (simp add: rej_inv_def)

lemma port_inv_same: "port_inv s \<Longrightarrow> port_list s' = port_list s \<Longrightarrow> port_inv s'"
  by (simp add: port_inv_def)

lemmas loop_same = timers_inv_same rw_inv_same sig_inv_same rej_inv_same port_inv_same

lemma loop_inv_same:
  assumes "loop_inv s" "os_timers s' = os_timers s" "next_timer_id s' = next_timer_id s" "ticks s \<le> ticks s'"
    "os_rw_handlers s' = os_rw_handlers s" "os_signal_handlers s' = os_signal_handlers s"
    "is_worker s' = is_worker s" "rejected_promise_list s' = rejected_promise_list s"
    "port_list s' = port_list s"
  shows "loop_inv s'"
  using assms by (simp add: loop_inv_def loop_same [of s s'])

definition next_id :: "u32 \<Rightarrow> u32" where
  "next_id i = (if i = 0x7FFFFFFF then 1 else i + 1)"

lemma next_id_ok: "id_ok i \<Longrightarrow> id_ok (next_id i)"
proof -
  assume a: "id_ok i"
  show ?thesis
  proof (cases "i = 0x7FFFFFFF")
    case False
    then have "unat i \<noteq> 0x7FFFFFFF" by (simp add: word_unat_eq_iff)
    with a have l: "unat i < 0x7FFFFFFF" by (simp add: id_ok_def)
    then have "unat (i + 1) = unat i + 1" by (subst unat_add_no_wrap) simp_all
    with False l show ?thesis by (simp add: id_ok_def next_id_def)
  qed (simp add: id_ok_def next_id_def)
qed

section \<open>The effect of every operation on the timers\<close>

lemma setTimeout_state:
  "snd (js_os_setTimeout W f d s) = (case f of
       FFun g \<Rightarrow> (case d of Inl e \<Rightarrow> s | Inr n \<Rightarrow>
         if alloc_ok W (ticks s)
         then s\<lparr>next_timer_id := next_id (next_timer_id s), ticks := ticks s + 2,
                os_timers := os_timers s @ [\<lparr>th_ptr = ticks s, th_id = next_timer_id s,
                  th_timeout = clock W (ticks s + 1) + n, th_func = g\<rparr>]\<rparr>
         else tick s)
     | _ \<Rightarrow> s)"
  by (cases f; cases d)
    (simp_all add: js_os_setTimeout_def js_mallocz_def get_time_ms_def tick_def Let_def next_id_def)

lemma sleepAsync_state:
  "snd (js_os_sleepAsync W d c s) = (case d of Inl e \<Rightarrow> s | Inr n \<Rightarrow> (case c of Inl e \<Rightarrow> s | Inr g \<Rightarrow>
       if alloc_ok W (ticks s)
       then s\<lparr>ticks := ticks s + 2,
              os_timers := os_timers s @ [\<lparr>th_ptr = ticks s, th_id = - 1,
                th_timeout = clock W (ticks s + 1) + n, th_func = g\<rparr>]\<rparr>
       else tick s))"
  by (cases d; cases c)
    (simp_all add: js_os_sleepAsync_def js_mallocz_def get_time_ms_def tick_def Let_def)

lemma clearTimeout_state:
  "snd (js_os_clearTimeout t s) = s \<or>
   (\<exists>p. snd (js_os_clearTimeout t s) = (free_timer p s)\<lparr>ev_log := EvClear p # ev_log s\<rparr>)"
  by (cases t) (auto simp: js_os_clearTimeout_def split: option.split)

text \<open>
  An operation that is none of the timers' leaves them alone; all of them keep the signals
  that are pending, the log but for the cleared timers, and let the time go on.
\<close>

definition quiet_op :: "thread_state \<Rightarrow> thread_state \<Rightarrow> bool" where
  "quiet_op s s' = (os_timers s' = os_timers s \<and> next_timer_id s' = next_timer_id s \<and> ev_log s' = ev_log s)"

definition same_rest :: "thread_state \<Rightarrow> thread_state \<Rightarrow> bool" where
  "same_rest s s' = (ticks s \<le> ticks s' \<and> is_worker s' = is_worker s \<and> os_pending_signals s' = os_pending_signals s)"

lemma setReadHandler_quiet: "quiet_op s (snd (js_os_setReadHandler W fd f m s)) \<and> same_rest s (snd (js_os_setReadHandler W fd f m s))"
  by (cases fd; cases f)
    (auto simp: js_os_setReadHandler_def quiet_op_def same_rest_def js_mallocz_def tick_def free_rw_handler_def
      update_rh_def Let_def split: option.split)

lemma onmessage_quiet: "quiet_op s (snd (js_worker_set_onmessage W w f s)) \<and> same_rest s (snd (js_worker_set_onmessage W w f s))"
  by (cases f)
    (auto simp: js_worker_set_onmessage_def quiet_op_def same_rest_def js_mallocz_def tick_def js_free_port_def
      split: option.split)

lemma signal_quiet: "quiet_op s (snd (js_os_signal W n f s)) \<and> same_rest s (snd (js_os_signal W n f s))"
  by (cases n; cases f)
    (auto simp: js_os_signal_def quiet_op_def same_rest_def js_mallocz_def tick_def free_sh_def split: option.split)

lemma enqueue_quiet: "quiet_op s (snd (JS_EnqueueJob W j s)) \<and> same_rest s (snd (JS_EnqueueJob W j s))"
  by (auto simp: JS_EnqueueJob_def quiet_op_def same_rest_def js_mallocz_def tick_def)

lemma tracker_quiet:
  "quiet_op s (js_std_promise_rejection_tracker W p r h s) \<and> same_rest s (js_std_promise_rejection_tracker W p r h s)"
  by (auto simp: js_std_promise_rejection_tracker_def quiet_op_def same_rest_def js_mallocz_def tick_def split: option.split)

lemmas quiet_ops = setReadHandler_quiet onmessage_quiet signal_quiet enqueue_quiet tracker_quiet

lemma run_op_cases:
  obtains (quiet) "quiet_op s (run_op W op s)"
  | (add) th where "os_timers (run_op W op s) = os_timers s @ [th]" "th_ptr th = ticks s" "ticks s < ticks (run_op W op s)"
      "th_id th = - 1 \<or> th_id th = next_timer_id s" "ev_log (run_op W op s) = ev_log s"
      "next_timer_id (run_op W op s) \<in> {next_timer_id s, next_id (next_timer_id s)}"
  | (clear) p where "os_timers (run_op W op s) = filter (\<lambda>th. th_ptr th \<noteq> p) (os_timers s)"
      "ev_log (run_op W op s) = EvClear p # ev_log s" "next_timer_id (run_op W op s) = next_timer_id s"
proof (cases op)
  case (OpSetTimeout f d)
  show ?thesis
  proof (cases "\<exists>g n. f = FFun g \<and> d = Inr n \<and> alloc_ok W (ticks s)")
    case True
    then obtain g n where "f = FFun g" "d = Inr n" "alloc_ok W (ticks s)" by blast
    then show ?thesis using add by (simp add: OpSetTimeout setTimeout_state)
  next
    case False
    then show ?thesis
      using quiet by (cases f; cases d) (auto simp: OpSetTimeout setTimeout_state quiet_op_def tick_def)
  qed
next
  case (OpSleepAsync d c)
  show ?thesis
  proof (cases "\<exists>g n. c = Inr g \<and> d = Inr n \<and> alloc_ok W (ticks s)")
    case True
    then obtain g n where "c = Inr g" "d = Inr n" "alloc_ok W (ticks s)" by blast
    then show ?thesis using add by (simp add: OpSleepAsync sleepAsync_state)
  next
    case False
    then show ?thesis
      using quiet by (cases d; cases c) (auto simp: OpSleepAsync sleepAsync_state quiet_op_def tick_def)
  qed
next
  case (OpClearTimeout t)
  from clearTimeout_state [of t s] show ?thesis
  proof
    assume "snd (js_os_clearTimeout t s) = s"
    then show ?thesis by (intro quiet) (simp add: OpClearTimeout quiet_op_def)
  next
    assume "\<exists>p. snd (js_os_clearTimeout t s) = (free_timer p s)\<lparr>ev_log := EvClear p # ev_log s\<rparr>"
    then show ?thesis using clear by (auto simp: OpClearTimeout free_timer_def)
  qed
qed (use quiet quiet_ops in auto)

lemma run_op_rest: "same_rest s (run_op W op s)"
proof (cases op)
  case (OpSetTimeout f d)
  then show ?thesis by (cases f; cases d) (simp_all add: setTimeout_state same_rest_def tick_def)
next
  case (OpSleepAsync d c)
  then show ?thesis by (cases d; cases c) (simp_all add: sleepAsync_state same_rest_def tick_def)
next
  case (OpClearTimeout t)
  then show ?thesis using clearTimeout_state [of t s] by (auto simp: same_rest_def free_timer_def)
qed (use quiet_ops in auto)

section \<open>The invariant holds\<close>

lemma timers_inv_op: "timers_inv s \<Longrightarrow> timers_inv (run_op W op s)"
proof -
  assume a: "timers_inv s"
  have t: "ticks s \<le> ticks (run_op W op s)" using run_op_rest [of s W op] by (simp add: same_rest_def)
  show ?thesis
  proof (cases rule: run_op_cases [of s W op])
    case quiet
    with a t show ?thesis by (auto simp: quiet_op_def intro: timers_inv_same)
  next
    case (add th)
    have "id_ok (next_timer_id (run_op W op s))" using add(6) a next_id_ok by (auto simp: timers_inv_def)
    then show ?thesis using a add by (force simp: timers_inv_def)
  next
    case (clear p)
    then show ?thesis using a t by (auto simp: timers_inv_def distinct_map_filter)
  qed
qed

lemma find_None_notin: "find P xs = None \<longleftrightarrow> (\<forall>x \<in> set xs. \<not> P x)"
  by (induction xs) auto

lemma find_SomeD: "find P xs = Some x \<Longrightarrow> x \<in> set xs \<and> P x"
  by (induction xs) (auto split: if_splits)

lemma other_lists:
  shows "\<not> (\<exists>fd f m. op = OpSetHandler fd f m) \<Longrightarrow> os_rw_handlers (run_op W op s) = os_rw_handlers s"
    and "\<not> (\<exists>n f. op = OpSignal n f) \<Longrightarrow> os_signal_handlers (run_op W op s) = os_signal_handlers s"
    and "\<not> (\<exists>p r. op = OpReject p r \<or> op = OpHandled p) \<Longrightarrow> rejected_promise_list (run_op W op s) = rejected_promise_list s"
proof -
  have clear: "os_rw_handlers (snd (js_os_clearTimeout t s)) = os_rw_handlers s"
    "os_signal_handlers (snd (js_os_clearTimeout t s)) = os_signal_handlers s"
    "rejected_promise_list (snd (js_os_clearTimeout t s)) = rejected_promise_list s" for t
    using clearTimeout_state [of t s] by (auto simp: free_timer_def)
  have handler: "os_signal_handlers (snd (js_os_setReadHandler W fd f m s)) = os_signal_handlers s"
    "rejected_promise_list (snd (js_os_setReadHandler W fd f m s)) = rejected_promise_list s" for fd f m
    by (cases fd; cases f; auto simp: js_os_setReadHandler_def js_mallocz_def tick_def free_rw_handler_def
        update_rh_def Let_def split: option.split)+
  have port: "os_rw_handlers (snd (js_worker_set_onmessage W w f s)) = os_rw_handlers s"
    "os_signal_handlers (snd (js_worker_set_onmessage W w f s)) = os_signal_handlers s"
    "rejected_promise_list (snd (js_worker_set_onmessage W w f s)) = rejected_promise_list s" for w f
    by (cases f; auto simp: js_worker_set_onmessage_def js_mallocz_def tick_def js_free_port_def split: option.split)+
  have signal: "os_rw_handlers (snd (js_os_signal W n f s)) = os_rw_handlers s"
    "rejected_promise_list (snd (js_os_signal W n f s)) = rejected_promise_list s" for n f
    by (cases n; cases f; auto simp: js_os_signal_def js_mallocz_def tick_def free_sh_def split: option.split)+
  have job: "os_rw_handlers (snd (JS_EnqueueJob W j s)) = os_rw_handlers s"
    "os_signal_handlers (snd (JS_EnqueueJob W j s)) = os_signal_handlers s"
    "rejected_promise_list (snd (JS_EnqueueJob W j s)) = rejected_promise_list s" for j
    by (auto simp: JS_EnqueueJob_def js_mallocz_def tick_def)
  have tracker: "os_rw_handlers (js_std_promise_rejection_tracker W p r h s) = os_rw_handlers s"
    "os_signal_handlers (js_std_promise_rejection_tracker W p r h s) = os_signal_handlers s" for p r h
    by (auto simp: js_std_promise_rejection_tracker_def js_mallocz_def tick_def split: option.split)
  note simps = setTimeout_state sleepAsync_state clear handler port signal job tracker tick_def
  show "\<not> (\<exists>fd f m. op = OpSetHandler fd f m) \<Longrightarrow> os_rw_handlers (run_op W op s) = os_rw_handlers s"
    by (cases op) (simp_all add: simps split: func_arg.split sum.split)
  show "\<not> (\<exists>n f. op = OpSignal n f) \<Longrightarrow> os_signal_handlers (run_op W op s) = os_signal_handlers s"
    by (cases op) (simp_all add: simps split: func_arg.split sum.split)
  show "\<not> (\<exists>p r. op = OpReject p r \<or> op = OpHandled p) \<Longrightarrow> rejected_promise_list (run_op W op s) = rejected_promise_list s"
    by (cases op) (simp_all add: simps split: func_arg.split sum.split)
qed

lemma set_rw_fd [simp]: "rw_fd (set_rw m f rh) = rw_fd rh"
  by (simp add: set_rw_def)

lemma distinct_map_eq: "distinct (map g xs) \<Longrightarrow> x \<in> set xs \<Longrightarrow> y \<in> set xs \<Longrightarrow> g x = g y \<Longrightarrow> x = y"
  by (meson distinct_map inj_onD)

lemma update_rh_inv:
  assumes "rw_inv s" "\<And>rh. rh \<in> set (os_rw_handlers s) \<Longrightarrow> rw_fd rh = fd \<Longrightarrow> rw_fd (g rh) = fd \<and> (rw_read (g rh) \<noteq> None \<or> rw_write (g rh) \<noteq> None)"
  shows "rw_inv (update_rh fd g s)"
proof -
  have "map rw_fd (os_rw_handlers (update_rh fd g s)) = map rw_fd (os_rw_handlers s)"
    using assms(2) by (auto simp: update_rh_def)
  then have "distinct (map rw_fd (os_rw_handlers (update_rh fd g s)))"
    using assms(1) by (simp only: rw_inv_def)
  moreover have "\<forall>rh \<in> set (os_rw_handlers (update_rh fd g s)). rw_read rh \<noteq> None \<or> rw_write rh \<noteq> None"
    using assms by (auto simp: rw_inv_def update_rh_def)
  ultimately show ?thesis by (simp add: rw_inv_def)
qed

lemma rw_inv_op:
  assumes "rw_inv s"
  shows "rw_inv (run_op W op s)"
proof (cases "\<exists>fd f m. op = OpSetHandler fd f m")
  case False
  then show ?thesis using assms other_lists(1) by (auto intro: rw_inv_same)
next
  case True
  then obtain fd_arg f m where op: "op = OpSetHandler fd_arg f m" by blast
  have "rw_inv (snd (js_os_setReadHandler W (Inr fd) FNull m s))" for fd
  proof (cases "find_rh s fd")
    case (Some rh)
    then have rh: "rh \<in> set (os_rw_handlers s)" "rw_fd rh = fd" using find_SomeD by (fastforce simp: find_rh_def)+
    have uniq: "r = rh" if "r \<in> set (os_rw_handlers s)" "rw_fd r = fd" for r
      using distinct_map_eq [of rw_fd "os_rw_handlers s" r rh] assms that rh by (simp add: rw_inv_def)
    show ?thesis
    proof (cases "rw_read (set_rw m None rh) = None \<and> rw_write (set_rw m None rh) = None")
      case True
      have "os_rw_handlers (free_rw_handler fd (update_rh fd (set_rw m None) s)) =
          filter (\<lambda>rh. rw_fd rh \<noteq> fd) (os_rw_handlers s)"
        unfolding free_rw_handler_def update_rh_def by (simp add: filter_map comp_def) (auto intro!: map_idI)
      then show ?thesis using Some True assms
        by (auto simp: js_os_setReadHandler_def Let_def rw_inv_def distinct_map_filter)
    next
      case False
      then have "rw_inv (update_rh fd (set_rw m None) s)"
        by (intro update_rh_inv assms) (auto dest: uniq)
      then show ?thesis using Some False by (auto simp: js_os_setReadHandler_def Let_def)
    qed
  qed (use assms in \<open>simp add: js_os_setReadHandler_def\<close>)
  moreover have "rw_inv (snd (js_os_setReadHandler W (Inr fd) (FFun g) m s))" for fd g
  proof (cases "find_rh s fd")
    case (Some rh)
    have "rw_inv (update_rh fd (set_rw m (Some g)) s)"
      by (intro update_rh_inv assms) (auto simp: set_rw_def)
    then show ?thesis using Some by (simp add: js_os_setReadHandler_def)
  next
    case None
    then have "\<forall>r \<in> set (os_rw_handlers s). rw_fd r \<noteq> fd" by (simp add: find_rh_def find_None_notin)
    then show ?thesis using None assms
      by (auto simp: js_os_setReadHandler_def js_mallocz_def tick_def rw_inv_def set_rw_def Let_def)
  qed
  ultimately show ?thesis using assms
    by (cases fd_arg; cases f) (auto simp: op js_os_setReadHandler_def)
qed

lemma sig_inv_op:
  assumes "sig_inv s"
  shows "sig_inv (run_op W op s)"
proof (cases "\<exists>n f. op = OpSignal n f")
  case False
  then show ?thesis using assms other_lists(2) run_op_rest [of s W op] by (auto simp: same_rest_def intro: sig_inv_same)
next
  case True
  then obtain n f where op: "op = OpSignal n f" by blast
  have free: "sig_inv (free_sh k s)" for k using assms by (auto simp: sig_inv_def free_sh_def distinct_map_filter)
  have "sig_inv (snd (js_os_signal W (Inr k) (FFun g) s))" if "\<not> is_worker s" "\<not> k \<ge> 64" for k g
  proof (cases "find_sh s k")
    case (Some sh)
    have "map sh_num (map (\<lambda>sh. if sh_num sh = k then sh\<lparr>sh_func := g\<rparr> else sh) (os_signal_handlers s)) =
        map sh_num (os_signal_handlers s)" by simp
    then show ?thesis using Some that assms by (auto simp: js_os_signal_def sig_inv_def simp del: map_map)
  next
    case None
    then have "\<forall>r \<in> set (os_signal_handlers s). sh_num r \<noteq> k" by (simp add: find_sh_def find_None_notin)
    then show ?thesis using None that assms
      by (auto simp: js_os_signal_def js_mallocz_def tick_def sig_inv_def)
  qed
  then show ?thesis using assms free
    by (cases n; cases f) (auto simp: op js_os_signal_def)
qed

lemma rej_inv_op:
  assumes "rej_inv s"
  shows "rej_inv (run_op W op s)"
proof (cases "\<exists>p r. op = OpReject p r \<or> op = OpHandled p")
  case False
  then show ?thesis using assms other_lists(3) by (auto intro: rej_inv_same)
next
  case True
  have "rej_inv (js_std_promise_rejection_tracker W p r h s)" for p r h
  proof (cases "find_rejected_promise s p")
    case None
    then have "\<forall>q \<in> set (rejected_promise_list s). fst q \<noteq> p" by (simp add: find_rejected_promise_def find_None_notin)
    then show ?thesis using None assms
      by (auto simp: js_std_promise_rejection_tracker_def js_mallocz_def tick_def rej_inv_def)
  next
    case (Some rp)
    then show ?thesis using assms
      by (auto simp: js_std_promise_rejection_tracker_def rej_inv_def distinct_map_filter)
  qed
  with True show ?thesis by auto
qed

lemma ports_op: "\<not> (\<exists>w f. op = OpOnMessage w f) \<Longrightarrow> port_list (run_op W op s) = port_list s"
proof (cases op)
  case (OpClearTimeout t)
  then show ?thesis using clearTimeout_state [of t s] by (auto simp: free_timer_def)
next
  case (OpSetHandler fd f m)
  then show ?thesis
    by (cases fd; cases f) (auto simp: js_os_setReadHandler_def js_mallocz_def tick_def free_rw_handler_def
        update_rh_def Let_def split: option.split)
next
  case (OpSignal n f)
  then show ?thesis
    by (cases n; cases f) (auto simp: js_os_signal_def js_mallocz_def tick_def free_sh_def split: option.split)
qed (auto simp: setTimeout_state sleepAsync_state JS_EnqueueJob_def js_std_promise_rejection_tracker_def
    js_mallocz_def tick_def split: func_arg.split sum.split option.split)

lemma port_inv_op:
  assumes "port_inv s"
  shows "port_inv (run_op W op s)"
proof (cases "\<exists>w f. op = OpOnMessage w f")
  case False
  then show ?thesis using assms ports_op by (auto intro: port_inv_same)
next
  case True
  then obtain w f where op: "op = OpOnMessage w f" by blast
  have free: "port_inv (js_free_port w s)"
    using assms by (auto simp: port_inv_def js_free_port_def distinct_map_filter)
  have "port_inv (snd (js_worker_set_onmessage W w (FFun g) s))" for g
  proof (cases "find (\<lambda>pt. pt_worker pt = w) (port_list s)")
    case (Some pt)
    have "map pt_worker (map (\<lambda>pt. if pt_worker pt = w then pt\<lparr>pt_func := Some g\<rparr> else pt) (port_list s)) =
        map pt_worker (port_list s)" by simp
    then show ?thesis using Some assms by (auto simp: js_worker_set_onmessage_def port_inv_def simp del: map_map)
  next
    case None
    then have "\<forall>r \<in> set (port_list s). pt_worker r \<noteq> w" by (simp add: find_None_notin)
    then show ?thesis using None assms
      by (auto simp: js_worker_set_onmessage_def js_mallocz_def tick_def port_inv_def)
  qed
  then show ?thesis using assms free by (cases f) (auto simp: op js_worker_set_onmessage_def)
qed

lemma loop_inv_op: "loop_inv s \<Longrightarrow> loop_inv (run_op W op s)"
  by (simp add: loop_inv_def timers_inv_op rw_inv_op sig_inv_op rej_inv_op port_inv_op)

lemma loop_inv_ops: "loop_inv s \<Longrightarrow> loop_inv (fold (run_op W) ops s)"
  by (induction ops arbitrary: s) (auto intro: loop_inv_op)

lemma loop_inv_tick: "loop_inv s \<Longrightarrow> loop_inv (tick s)"
  by (erule loop_inv_same) (simp_all add: tick_def)

lemma loop_inv_call: "loop_inv s \<Longrightarrow> loop_inv (call_handler W f s)"
  unfolding call_handler_def by (intro loop_inv_ops loop_inv_tick)

lemma loop_inv_log: "loop_inv s \<Longrightarrow> loop_inv (s\<lparr>ev_log := l\<rparr>)"
  by (erule loop_inv_same) simp_all

lemma loop_inv_job: "loop_inv s \<Longrightarrow> loop_inv (snd (JS_ExecutePendingJob W s))"
proof (cases "job_list s")
  case (Cons j js)
  assume "loop_inv s"
  then have "loop_inv (s\<lparr>job_list := js, ev_log := EvJob j # ev_log s\<rparr>)"
    by (rule loop_inv_same) simp_all
  then show ?thesis using Cons
    by (auto simp: JS_ExecutePendingJob_def Let_def intro!: loop_inv_tick loop_inv_call)
qed (simp add: JS_ExecutePendingJob_def)

lemma loop_inv_signals: "loop_inv s \<Longrightarrow> loop_inv (fold os_signal_handler sigs s)"
proof (induction sigs arbitrary: s)
  case (Cons n sigs)
  have "loop_inv (os_signal_handler n s)"
    by (rule loop_inv_same [OF Cons.prems]) (simp_all add: os_signal_handler_def)
  from Cons.IH [OF this] show ?case by simp
qed simp

lemma loop_inv_message: "loop_inv s \<Longrightarrow> loop_inv (snd (handle_posted_message W pt s))"
proof -
  assume a: "loop_inv s"
  have p: "loop_inv (s\<lparr>msg_queue := q\<rparr>)" for q by (rule loop_inv_same [OF a]) simp_all
  show ?thesis
    using p a by (auto simp: handle_posted_message_def Let_def intro!: loop_inv_call loop_inv_tick loop_inv_log
        split: list.split option.split)
qed

lemma loop_inv_ports: "loop_inv s \<Longrightarrow> loop_inv (poll_ports W k pts s)"
proof (induction pts arbitrary: s)
  case (Cons pt pts)
  have m: "loop_inv (snd (handle_posted_message W pt s))" by (rule loop_inv_message [OF Cons.prems])
  obtain b s1 where r: "handle_posted_message W pt s = (b, s1)" by (cases "handle_posted_message W pt s")
  show ?case using Cons m r by (cases b) auto
qed simp

lemma loop_inv_select: "loop_inv s \<Longrightarrow> loop_inv (poll_select W s)"
proof -
  assume a: "loop_inv s"
  have r: "loop_inv (receive W s)" by (rule loop_inv_same [OF a]) (simp_all add: receive_def)
  note t = loop_inv_tick [OF r]
  show ?thesis
    using loop_inv_ports [OF t] t
    by (auto simp: poll_select_def Let_def intro!: loop_inv_call loop_inv_log split: option.split)
qed

lemma timers_inv_free: "timers_inv s \<Longrightarrow> timers_inv (free_timer p s)"
  by (auto simp: timers_inv_def free_timer_def distinct_map_filter)

lemma loop_inv_free: "loop_inv s \<Longrightarrow> loop_inv (free_timer p s)"
  by (simp add: loop_inv_def timers_inv_free) (simp add: rw_inv_def sig_inv_def rej_inv_def port_inv_def free_timer_def)

lemma loop_inv_timers: "loop_inv s \<Longrightarrow> loop_inv (poll_timers W s)"
  using loop_inv_log [OF loop_inv_free [OF loop_inv_tick]]
  by (auto simp: poll_timers_def get_time_ms_def free_timer_def intro!: loop_inv_call loop_inv_select loop_inv_tick split: sum.split)

lemma loop_inv_poll: "loop_inv s \<Longrightarrow> loop_inv (snd (js_os_poll W s))"
proof -
  assume a: "loop_inv s"
  define s1 where "s1 = tick (fold os_signal_handler (raised W (ticks s)) s)"
  have s1: "loop_inv s1" unfolding s1_def by (intro loop_inv_tick loop_inv_signals a)
  have p: "loop_inv (s1\<lparr>os_pending_signals := m, ev_log := l\<rparr>)" for m l
    by (rule loop_inv_same [OF s1]) simp_all
  show ?thesis
    unfolding js_os_poll_def s1_def [symmetric] Let_def
    using s1 p by (auto intro!: loop_inv_call loop_inv_timers split: option.split)
qed

text \<open>Everything that can happen to a thread: the operations of the program that it runs, its
  jobs and its polls, in any order.\<close>

inductive reach :: "world \<Rightarrow> thread_state \<Rightarrow> bool" for W where
  start: "reach W (js_std_init_handlers worker)"
| program: "reach W s \<Longrightarrow> reach W (run_op W op s)"
| job: "reach W s \<Longrightarrow> reach W (snd (JS_ExecutePendingJob W s))"
| poll: "reach W s \<Longrightarrow> reach W (snd (js_os_poll W s))"

lemma loop_inv_init: "loop_inv (js_std_init_handlers worker)"
  by (simp add: loop_inv_def js_std_init_handlers_def timers_inv_def rw_inv_def sig_inv_def rej_inv_def port_inv_def id_ok_def)

lemma reach_inv: "reach W s \<Longrightarrow> loop_inv s"
  by (induction rule: reach.induct) (auto intro: loop_inv_init loop_inv_op loop_inv_job loop_inv_poll)

end
