(* ===== verification/EventLoop_Progress.thy ===== *)
theory EventLoop_Progress
  imports EventLoop_Proofs
begin

text \<open>
  Progress of the timers: the log of the loop only log_grows, a poll that finds an expired timer
  calls a timer, and so a timer that is expired comes forward with every poll.
\<close>

section \<open>Expired timers\<close>

text \<open>The log log_grows at its head; a timer is gone when the part new since the log was \<open>L\<close> has it.\<close>

definition log_grows :: "event list \<Rightarrow> thread_state \<Rightarrow> bool" where
  "log_grows L s = (\<exists>new. ev_log s = new @ L)"

definition gone :: "event list \<Rightarrow> timer \<Rightarrow> thread_state \<Rightarrow> bool" where
  "gone L th s = (\<exists>new. ev_log s = new @ L \<and>
     (EvTimer (th_ptr th) (th_func th) \<in> set new \<or> EvClear (th_ptr th) \<in> set new))"

text \<open>The timer has been called or cleared, or at most \<open>q\<close> timers are before it.\<close>

definition ahead :: "event list \<Rightarrow> timer \<Rightarrow> nat \<Rightarrow> thread_state \<Rightarrow> bool" where
  "ahead L th q s = (gone L th s \<or> log_grows L s \<and> (\<exists>us ws. os_timers s = us @ th # ws \<and> length us \<le> q))"

lemma log_refl: "log_grows (ev_log s) s"
  by (simp add: log_grows_def)

lemma grows_Cons: "log_grows L s \<Longrightarrow> ev_log s' = e # ev_log s \<Longrightarrow> log_grows L s'"
  unfolding log_grows_def by (metis append_Cons)

lemma gone_log: "gone L th s \<Longrightarrow> log_grows (ev_log s) s' \<Longrightarrow> gone L th s'"
  unfolding gone_def log_grows_def by (metis append.assoc set_append Un_iff)

lemma log_trans: "log_grows L s \<Longrightarrow> log_grows (ev_log s) s' \<Longrightarrow> log_grows L s'"
  unfolding log_grows_def by (metis append.assoc)

lemma log_same: "ev_log s' = ev_log s \<Longrightarrow> log_grows (ev_log s) s'"
  by (simp add: log_grows_def)

lemma log_op: "log_grows (ev_log s) (run_op W op s)"
  by (cases rule: run_op_cases [of s W op]) (auto simp: quiet_op_def log_grows_def)

lemma log_ops: "log_grows (ev_log s) (fold (run_op W) ops s)"
  by (induction ops arbitrary: s) (auto intro: log_refl log_trans [OF log_op])

lemma log_call: "log_grows (ev_log s) (call_handler W f s)"
  using log_ops [of "tick s"] by (simp add: call_handler_def tick_def)

lemma log_event_call: "log_grows (ev_log s) (call_handler W f (s1\<lparr>ev_log := e # ev_log s\<rparr>))"
  by (rule log_trans [OF _ log_call]) (simp add: log_grows_def)

lemma log_job: "log_grows (ev_log s) (snd (JS_ExecutePendingJob W s))"
proof (cases "job_list s")
  case (Cons j js)
  then show ?thesis
    using log_event_call [of s W j "EvJob j" "s\<lparr>job_list := js\<rparr>"]
    by (simp add: JS_ExecutePendingJob_def Let_def log_grows_def tick_def)
qed (simp add: JS_ExecutePendingJob_def log_refl)

lemma log_message: "log_grows (ev_log s) (snd (handle_posted_message W pt s))"
proof (cases "msg_queue s (pt_worker pt)")
  case (Cons msg rest)
  define s1 where "s1 = s\<lparr>msg_queue := (msg_queue s)(pt_worker pt := rest)\<rparr>"
  have l: "ev_log s1 = ev_log s" by (simp add: s1_def)
  have c: "log_grows (ev_log s) (call_handler W f (tick (s1\<lparr>ev_log := EvMessage (pt_worker pt) msg # ev_log s1\<rparr>)))" for f
    by (rule log_trans [OF _ log_call]) (simp add: log_grows_def tick_def l)
  have t: "log_grows (ev_log s) (tick s1)" by (rule log_same) (simp add: tick_def l)
  have "handle_posted_message W pt s =
      (if message_ok W (ticks s1)
       then (case pt_func pt of
               Some f \<Rightarrow> (True, call_handler W f (tick (s1\<lparr>ev_log := EvMessage (pt_worker pt) msg # ev_log s1\<rparr>)))
             | None \<Rightarrow> (True, tick s1))
       else (True, tick s1))"
    by (simp add: handle_posted_message_def Cons s1_def Let_def split: option.split)
  then show ?thesis using c t by (auto split: option.split)
qed (simp add: handle_posted_message_def log_refl)

lemma log_ports: "log_grows (ev_log s) (poll_ports W k pts s)"
proof (induction pts arbitrary: s)
  case (Cons pt pts)
  obtain b s1 where r: "handle_posted_message W pt s = (b, s1)" by (cases "handle_posted_message W pt s")
  have "log_grows (ev_log s) s1" using log_message [of s W pt] by (simp add: r)
  then have "log_grows (ev_log s) (case b of True \<Rightarrow> s1 | False \<Rightarrow> poll_ports W k pts s1)"
    using Cons [of s1] by (cases b) (auto intro: log_trans)
  then show ?case using Cons [of s] by (simp add: r split: bool.splits)
qed (simp add: log_refl)

lemma log_select: "log_grows (ev_log s) (poll_select W s)"
proof -
  define s1 where "s1 = tick (receive W s)"
  have l: "ev_log s1 = ev_log s" by (simp add: s1_def tick_def receive_def)
  have p: "log_grows (ev_log s) (poll_ports W k pts s1)" for k pts using log_ports [of s1] by (simp add: l)
  have c: "log_grows (ev_log s) (call_handler W f (s1\<lparr>ev_log := e # ev_log s1\<rparr>))" for f e
    using log_event_call [of s1] by (simp add: l)
  have "log_grows (ev_log s) s1" by (rule log_same) (rule l)
  then show ?thesis
    unfolding poll_select_def Let_def s1_def [symmetric] using p c by (auto split: option.split)
qed

lemma log_timers: "log_grows (ev_log s) (poll_timers W s)"
proof -
  have t: "ev_log (tick s) = ev_log s" by (simp add: tick_def)
  have "log_grows (ev_log s) (poll_select W (tick s))" using log_select [of "tick s"] by (simp add: t)
  moreover have "log_grows (ev_log s) (call_handler W f (s1\<lparr>ev_log := e # ev_log (tick s)\<rparr>))" for f s1 e
    using log_event_call [of "tick s"] by (simp add: t)
  ultimately show ?thesis
    using log_select [of s W] by (auto simp: poll_timers_def get_time_ms_def split: sum.split)
qed

lemma log_signals: "ev_log (fold os_signal_handler sigs s) = ev_log s"
  by (induction sigs arbitrary: s) (simp_all add: os_signal_handler_def)

lemma log_poll: "log_grows (ev_log s) (snd (js_os_poll W s))"
proof -
  define s1 where "s1 = tick (fold os_signal_handler (raised W (ticks s)) s)"
  have l: "ev_log s1 = ev_log s" by (simp add: s1_def tick_def log_signals)
  have c: "log_grows (ev_log s) (call_handler W f (s2\<lparr>ev_log := e # ev_log s1\<rparr>))" for f s2 e
    using log_event_call [of s1] by (simp add: l)
  have c1: "log_grows (ev_log s) (call_handler W f (s2\<lparr>os_pending_signals := m, ev_log := e # ev_log s1\<rparr>))" for f s2 m e
    by (rule c)
  have t: "log_grows (ev_log s) (poll_timers W s1)" using log_timers [of s1] by (simp add: l)
  have "log_grows (ev_log s) s1" by (rule log_same) (rule l)
  with c1 t show ?thesis unfolding js_os_poll_def s1_def [symmetric] Let_def by (auto split: option.split)
qed

lemma ahead_same:
  assumes "ahead L th q s" "os_timers s' = os_timers s" "log_grows (ev_log s) s'"
  shows "ahead L th q s'"
  using assms gone_log [OF _ assms(3)] log_trans [OF _ assms(3)] by (auto simp: ahead_def)

lemma ahead_op:
  assumes "ahead L th q s"
  shows "ahead L th q (run_op W op s)"
proof (cases "gone L th s")
  case True
  then show ?thesis using gone_log [OF _ log_op] by (simp add: ahead_def)
next
  case False
  then obtain us ws where t: "os_timers s = us @ th # ws" "length us \<le> q" "log_grows L s"
    using assms by (auto simp: ahead_def)
  have g: "log_grows L (run_op W op s)" by (rule log_trans [OF t(3) log_op])
  show ?thesis
  proof (cases rule: run_op_cases [of s W op])
    case quiet
    then show ?thesis using assms by (auto simp: quiet_op_def intro: ahead_same log_same)
  next
    case (add th1)
    then have "os_timers (run_op W op s) = us @ th # (ws @ [th1])" using t(1) by simp
    then show ?thesis using t(2) g unfolding ahead_def by blast
  next
    case (clear p)
    show ?thesis
    proof (cases "p = th_ptr th")
      case True
      from t(3) obtain new where "ev_log s = new @ L" by (auto simp: log_grows_def)
      then have "ev_log (run_op W op s) = (EvClear p # new) @ L" using clear(2) by simp
      then have "gone L th (run_op W op s)"
        unfolding gone_def True by (intro exI [of _ "EvClear (th_ptr th) # new"]) simp
      then show ?thesis by (simp add: ahead_def)
    next
      case False
      then have "os_timers (run_op W op s) = filter (\<lambda>t. th_ptr t \<noteq> p) us @ th # filter (\<lambda>t. th_ptr t \<noteq> p) ws"
        using clear(1) t(1) by simp
      moreover have "length (filter (\<lambda>t. th_ptr t \<noteq> p) us) \<le> q"
        using t(2) by (rule order_trans [OF length_filter_le])
      ultimately show ?thesis using g unfolding ahead_def by blast
    qed
  qed
qed

lemma ahead_ops: "ahead L th q s \<Longrightarrow> ahead L th q (fold (run_op W) ops s)"
  by (induction ops arbitrary: s) (auto intro: ahead_op)

lemma ahead_call: "ahead L th q s \<Longrightarrow> ahead L th q (call_handler W f s)"
  unfolding call_handler_def
  by (rule ahead_ops, erule ahead_same) (simp_all add: tick_def log_grows_def)

lemma ahead_job: "ahead L th q s \<Longrightarrow> ahead L th q (snd (JS_ExecutePendingJob W s))"
proof (cases "job_list s")
  case (Cons j js)
  assume a: "ahead L th q s"
  have "ahead L th q (s\<lparr>job_list := js, ev_log := EvJob j # ev_log s\<rparr>)"
    by (rule ahead_same [OF a]) (simp_all add: log_grows_def)
  from ahead_call [OF this, of W j]
  have "ahead L th q (tick (call_handler W j (s\<lparr>job_list := js, ev_log := EvJob j # ev_log s\<rparr>)))"
    by (rule ahead_same) (simp_all add: tick_def log_grows_def)
  then show ?thesis using Cons by (simp add: JS_ExecutePendingJob_def Let_def)
qed (simp add: JS_ExecutePendingJob_def)

text \<open>The part of the state that says whether signals are pending, and the time.\<close>

lemma rest_trans: "same_rest s s1 \<Longrightarrow> same_rest s1 s2 \<Longrightarrow> same_rest s s2"
  by (simp add: same_rest_def)

lemma rest_ops: "same_rest s (fold (run_op W) ops s)"
proof (induction ops arbitrary: s)
  case (Cons op ops)
  show ?case using rest_trans [OF run_op_rest [of s W op] Cons] by simp
qed (simp add: same_rest_def)

lemma rest_call: "same_rest s (call_handler W f s)"
  unfolding call_handler_def by (rule rest_trans [OF _ rest_ops]) (simp add: same_rest_def tick_def)

lemma rest_job: "same_rest s (snd (JS_ExecutePendingJob W s))"
proof (cases "job_list s")
  case (Cons j js)
  have "same_rest s (call_handler W j (s\<lparr>job_list := js, ev_log := EvJob j # ev_log s\<rparr>))"
    by (rule rest_trans [OF _ rest_call]) (simp add: same_rest_def)
  then show ?thesis using Cons by (simp add: JS_ExecutePendingJob_def Let_def same_rest_def tick_def)
qed (simp add: JS_ExecutePendingJob_def same_rest_def)

lemma scan_expired:
  assumes "th_timeout th - now \<le>s 0"
  shows "\<exists>us1 th1 ws1. us @ [th] = us1 @ th1 # ws1 \<and> scan_timers now m (us @ th # ws) = Inl th1"
proof (induction us arbitrary: m)
  case Nil
  then show ?case using assms by (auto simp: Let_def)
next
  case (Cons u us)
  show ?case
  proof (cases "th_timeout u - now \<le>s 0")
    case True
    then show ?thesis by (intro exI [of _ "[]"] exI [of _ u] exI [of _ "us @ [th]"]) (simp add: Let_def)
  next
    case False
    define m1 where "m1 = (if th_timeout u - now <s m then th_timeout u - now else m)"
    from Cons [of m1] obtain us1 th1 ws1 where
      "us @ [th] = us1 @ th1 # ws1" "scan_timers now m1 (us @ th # ws) = Inl th1" by blast
    then show ?thesis using False
      by (intro exI [of _ "u # us1"] exI [of _ th1] exI [of _ ws1]) (simp add: Let_def m1_def)
  qed
qed

text \<open>A poll without signals that finds the timer expired brings it forward, or calls it.\<close>

lemma poll_progress:
  assumes inv: "loop_inv s" and a: "ahead L th q s" and n: "\<not> gone L th s"
    and sig: "raised W (ticks s) = []" "os_pending_signals s = 0"
    and ex: "th_timeout th - clock W (ticks s + 1) \<le>s 0"
  shows "(gone L th (snd (js_os_poll W s)) \<or> 0 < q \<and> ahead L th (q - 1) (snd (js_os_poll W s))) \<and>
    same_rest s (snd (js_os_poll W s))"
proof -
  obtain us ws where t: "os_timers s = us @ th # ws" "length us \<le> q" and g: "log_grows L s"
    using a n by (auto simp: ahead_def)
  obtain us1 th1 ws1 where sc: "us @ [th] = us1 @ th1 # ws1" "scan_timers (clock W (ticks s + 1)) 10000 (us @ th # ws) = Inl th1"
    using scan_expired [OF ex] by blast
  define s1 where "s1 = (free_timer (th_ptr th1) (tick (tick s)))\<lparr>ev_log := EvTimer (th_ptr th1) (th_func th1) # ev_log s\<rparr>"
  have p: "snd (js_os_poll W s) = call_handler W (th_func th1) s1"
    using sig t(1) sc(2)
    by (simp add: js_os_poll_def Let_def poll_timers_def get_time_ms_def s1_def tick_def free_timer_def)
  have r: "same_rest s (snd (js_os_poll W s))"
    unfolding p by (rule rest_trans [OF _ rest_call]) (simp add: s1_def same_rest_def free_timer_def tick_def)
  show ?thesis
  proof (cases "th1 = th")
    case True
    then have "gone L th s1" using g by (auto simp: gone_def log_grows_def s1_def)
    then have "gone L th (snd (js_os_poll W s))" unfolding p by (rule gone_log [OF _ log_call])
    with r show ?thesis by blast
  next
    case False
    have "th1 \<in> set (us @ [th])" using sc(1) by simp
    then have m: "th1 \<in> set us" using False by simp
    have "distinct (map th_ptr (us @ th # ws))" using inv t(1) by (simp add: loop_inv_def timers_inv_def)
    then have ne: "th_ptr th \<noteq> th_ptr th1" using m by auto
    have "length (filter (\<lambda>t. th_ptr t \<noteq> th_ptr th1) us) < length us"
      using m by (auto intro: length_filter_less)
    then have "length (filter (\<lambda>t. th_ptr t \<noteq> th_ptr th1) us) \<le> q - 1 \<and> 0 < q" using t(2) by linarith
    moreover have "os_timers s1 = filter (\<lambda>t. th_ptr t \<noteq> th_ptr th1) us @ th # filter (\<lambda>t. th_ptr t \<noteq> th_ptr th1) ws"
      using t(1) ne by (simp add: s1_def free_timer_def tick_def)
    moreover have "log_grows L s1" using g by (auto simp: log_grows_def s1_def)
    ultimately have "0 < q \<and> ahead L th (q - 1) s1" unfolding ahead_def by blast
    then have "0 < q \<and> ahead L th (q - 1) (snd (js_os_poll W s))" unfolding p using ahead_call by blast
    with r show ?thesis by blast
  qed
qed

text \<open>What a thread does from the state \<open>s\<close> on, with \<open>n\<close> polls.\<close>

inductive turns :: "world \<Rightarrow> thread_state \<Rightarrow> nat \<Rightarrow> thread_state \<Rightarrow> bool" for W s where
  start: "turns W s 0 s"
| program: "turns W s n s1 \<Longrightarrow> turns W s n (run_op W op s1)"
| job: "turns W s n s1 \<Longrightarrow> turns W s n (snd (JS_ExecutePendingJob W s1))"
| poll: "turns W s n s1 \<Longrightarrow> turns W s (n + 1) (snd (js_os_poll W s1))"

definition waiting :: "thread_state \<Rightarrow> timer \<Rightarrow> nat \<Rightarrow> nat \<Rightarrow> thread_state \<Rightarrow> bool" where
  "waiting s th q n s1 = (loop_inv s1 \<and> (gone (ev_log s) th s1 \<or>
     n \<le> q \<and> ahead (ev_log s) th (q - n) s1 \<and> ticks s \<le> ticks s1 \<and> os_pending_signals s1 = 0))"

lemma waiting_quiet:
  assumes w: "waiting s th q n s1" and i: "loop_inv s2" and g: "log_grows (ev_log s1) s2"
    and a: "\<And>L q. ahead L th q s1 \<Longrightarrow> ahead L th q s2" and r: "same_rest s1 s2"
  shows "waiting s th q n s2"
  using w i a r gone_log [OF _ g] by (auto simp: waiting_def same_rest_def)

lemma turns_waiting:
  assumes "turns W s n s1" and i: "waiting s th q 0 s" and sig: "\<forall>k. raised W k = []"
    and ex: "\<forall>k \<ge> ticks s. th_timeout th - clock W k \<le>s 0"
  shows "waiting s th q n s1"
  using assms(1)
proof induction
  case start
  show ?case by (rule i)
next
  case (program n s1 op)
  show ?case
    by (rule waiting_quiet [OF program.IH]) (use program.IH in \<open>auto simp: waiting_def
      intro: loop_inv_op log_op ahead_op run_op_rest\<close>)
next
  case (job n s1)
  show ?case
    by (rule waiting_quiet [OF job.IH]) (use job.IH in \<open>auto simp: waiting_def
      intro: loop_inv_job log_job ahead_job rest_job\<close>)
next
  case (poll n s1)
  have l: "loop_inv (snd (js_os_poll W s1))" using poll.IH by (auto simp: waiting_def intro: loop_inv_poll)
  show ?case
  proof (cases "gone (ev_log s) th s1")
    case True
    then show ?thesis using l gone_log [OF _ log_poll] by (auto simp: waiting_def)
  next
    case False
    then have h: "loop_inv s1" "ahead (ev_log s) th (q - n) s1" "n \<le> q" "ticks s \<le> ticks s1" "os_pending_signals s1 = 0"
      using poll.IH by (auto simp: waiting_def)
    have e: "th_timeout th - clock W (ticks s1 + 1) \<le>s 0" using ex h(4) by simp
    from poll_progress [OF h(1,2) False _ h(5) e] sig have
      p: "gone (ev_log s) th (snd (js_os_poll W s1)) \<or> 0 < q - n \<and> ahead (ev_log s) th (q - n - 1) (snd (js_os_poll W s1))"
      "same_rest s1 (snd (js_os_poll W s1))" by auto
    have "q - (n + 1) = q - n - 1" by simp
    then show ?thesis using p l h by (auto simp: waiting_def same_rest_def)
  qed
qed

end
