(* ===== verification/EventLoop_End.thy ===== *)
theory EventLoop_End
  imports EventLoop_Progress
begin

text \<open>
  The end of the main loop: a thread that has no descriptors and no ports, whose scripts do
  nothing any more from some time on, runs its last jobs and timers and leaves the loop.
\<close>

definition idle :: "thread_state \<Rightarrow> bool" where
  "idle s = (os_rw_handlers s = [] \<and> port_list s = [] \<and> os_pending_signals s = 0)"

fun keeps_idle :: "js_op \<Rightarrow> bool" where
  "keeps_idle (OpSetHandler fd f m) = False"
| "keeps_idle (OpOnMessage w f) = False"
| "keeps_idle _ = True"

definition no_descriptors :: "world \<Rightarrow> bool" where
  "no_descriptors W = (\<forall>k f. \<forall>op \<in> set (script W k f). keeps_idle op)"

definition finishes :: "world \<Rightarrow> nat \<Rightarrow> bool" where
  "finishes W N = (\<forall>k \<ge> N. \<forall>f. script W k f = [])"

text \<open>The clock goes past every instant, for three of its readings at least.\<close>

definition time_passes :: "world \<Rightarrow> bool" where
  "time_passes W = (\<forall>t m. \<exists>K \<ge> m. \<forall>k. K \<le> k \<and> k < K + 3 \<longrightarrow> t - clock W k \<le>s 0)"

lemma idle_op: "idle s \<Longrightarrow> keeps_idle op \<Longrightarrow> idle (run_op W op s)"
proof -
  assume a: "idle s" "keeps_idle op"
  have "\<not> (\<exists>fd f m. op = OpSetHandler fd f m)" "\<not> (\<exists>w f. op = OpOnMessage w f)" using a(2) by auto
  then show ?thesis using a(1) run_op_rest [of s W op]
    by (simp add: idle_def ports_op other_lists(1) same_rest_def del: run_op.simps)
qed

lemma idle_ops:
  "idle s \<Longrightarrow> \<forall>op \<in> set ops. keeps_idle op \<Longrightarrow> idle (fold (run_op W) ops s)"
proof (induction ops arbitrary: s)
  case (Cons op ops)
  have "idle (run_op W op s)" using Cons.prems by (intro idle_op) simp_all
  then show ?case using Cons by simp
qed simp

lemma idle_same:
  "idle s \<Longrightarrow> os_rw_handlers s' = os_rw_handlers s \<Longrightarrow> port_list s' = port_list s \<Longrightarrow>
   os_pending_signals s' = os_pending_signals s \<Longrightarrow> idle s'"
  by (simp add: idle_def)

lemma idle_call: "no_descriptors W \<Longrightarrow> idle s \<Longrightarrow> idle (call_handler W f s)"
  unfolding call_handler_def
  by (rule idle_ops) (auto simp: no_descriptors_def idle_def tick_def)

lemma call_time: "ticks s < ticks (call_handler W f s)"
  using rest_ops [of "tick s" W "script W (ticks s) f"] by (simp add: call_handler_def same_rest_def tick_def)

lemma call_late: "finishes W N \<Longrightarrow> N \<le> ticks s \<Longrightarrow> call_handler W f s = tick s"
  by (simp add: call_handler_def finishes_def)

section \<open>The jobs\<close>

lemma job_step:
  assumes "no_descriptors W" "finishes W N" "idle s" "job_list s \<noteq> []"
  shows "idle (snd (JS_ExecutePendingJob W s)) \<and> ticks s < ticks (snd (JS_ExecutePendingJob W s)) \<and>
    (N \<le> ticks s \<longrightarrow> os_timers (snd (JS_ExecutePendingJob W s)) = os_timers s \<and>
       job_list (snd (JS_ExecutePendingJob W s)) = tl (job_list s))"
proof -
  obtain j js where j: "job_list s = j # js" using assms(4) by (cases "job_list s") auto
  define s1 where "s1 = s\<lparr>job_list := js, ev_log := EvJob j # ev_log s\<rparr>"
  have e: "snd (JS_ExecutePendingJob W s) = tick (call_handler W j s1)"
    by (simp add: JS_ExecutePendingJob_def j s1_def Let_def)
  have "idle s1" using assms(3) by (simp add: idle_def s1_def)
  from idle_call [OF assms(1) this] have "idle (tick (call_handler W j s1))" by (simp add: idle_def tick_def)
  moreover have "ticks s < ticks (tick (call_handler W j s1))"
    using call_time [of s1 W j] by (simp add: tick_def s1_def)
  moreover have "os_timers (tick (call_handler W j s1)) = os_timers s \<and> job_list (tick (call_handler W j s1)) = js"
    if "N \<le> ticks s"
    using call_late [OF assms(2), of s1 j] that by (simp add: s1_def tick_def)
  ultimately show ?thesis by (simp add: e j)
qed

definition jobs_done :: "nat \<Rightarrow> thread_state \<Rightarrow> thread_state \<Rightarrow> bool" where
  "jobs_done N s s1 = (idle s1 \<and> ticks s \<le> ticks s1 \<and> (N \<le> ticks s \<longrightarrow> os_timers s1 = os_timers s \<and>
     length (job_list s1) \<le> length (job_list s) - 1) \<and> (job_list s = [] \<longrightarrow> s1 = s))"

lemma run_jobs_returns:
  assumes "no_descriptors W" "finishes W N" "idle s"
  shows "\<exists>s1. run_jobs W s = Some s1 \<and> jobs_done N s s1"
  using assms(3)
proof (induction s rule: lex_induct [of "\<lambda>s. N - ticks s" "\<lambda>s. length (job_list s)"])
  case (1 s)
  define s2 where "s2 = snd (JS_ExecutePendingJob W s)"
  show ?case
  proof (cases "job_list s = []")
    case True
    then have "JS_ExecutePendingJob W s = (0, s)" by (simp add: JS_ExecutePendingJob_def)
    then have "run_jobs W s = Some s" by (subst run_jobs.simps) simp
    then show ?thesis using 1(2) by (auto simp: jobs_done_def True)
  next
    case False
    from job_step [OF assms(1,2) 1(2) False]
    have j: "idle s2" "ticks s < ticks s2"
      "N \<le> ticks s \<Longrightarrow> os_timers s2 = os_timers s \<and> job_list s2 = tl (job_list s)" by (simp_all add: s2_def)
    have d: "jobs_done N s s1" if "s1 = s2 \<or> jobs_done N s2 s1" for s1
      using that j False by (auto simp: jobs_done_def)
    show ?thesis
    proof (cases "fst (JS_ExecutePendingJob W s) \<le> 0")
      case True
      then have "run_jobs W s = Some s2" by (subst run_jobs.simps) (simp add: s2_def)
      then show ?thesis using d by blast
    next
      case f: False
      have "N - ticks s2 < N - ticks s \<or> N - ticks s2 = N - ticks s \<and> length (job_list s2) < length (job_list s)"
        using j(2,3) False by (cases "N \<le> ticks s") auto
      from 1(1) [OF this j(1)] obtain s1 where r: "run_jobs W s2 = Some s1" "jobs_done N s2 s1" by blast
      have "run_jobs W s = Some s1" using f r(1) by (subst run_jobs.simps) (simp add: s2_def)
      then show ?thesis using d r(2) by blast
    qed
  qed
qed

section \<open>The polls\<close>

lemma poll_idle_none:
  assumes "idle s" "raised W (ticks s) = []" "os_timers s = []"
  shows "js_os_poll W s = (- 1, tick s)"
  using assms by (simp add: js_os_poll_def idle_def tick_def Let_def)

lemma ready_none: "ready_handler W k [] = None" by simp

lemma select_idle: "idle s \<Longrightarrow> poll_select W s = tick (receive W s)"
  by (cases "select_ret W (ticks s) > 0") (simp_all add: poll_select_def receive_def idle_def tick_def Let_def)

definition poll_step :: "world \<Rightarrow> nat \<Rightarrow> thread_state \<Rightarrow> thread_state \<Rightarrow> bool" where
  "poll_step W N s s1 = (idle s1 \<and> ticks s < ticks s1 \<and> (N \<le> ticks s \<longrightarrow> job_list s1 = job_list s \<and>
     (length (os_timers s1) < length (os_timers s) \<or>
      os_timers s1 = os_timers s \<and> ticks s1 = ticks s + 3 \<and>
      \<not> th_timeout (hd (os_timers s)) - clock W (ticks s + 1) \<le>s 0)))"

lemma scan_in: "scan_timers now m ths = Inl th \<Longrightarrow> th \<in> set ths"
  by (induction ths arbitrary: m) (auto simp: Let_def split: if_splits)

lemma scan_hd: "scan_timers now m ths = Inr d \<Longrightarrow> ths \<noteq> [] \<Longrightarrow> \<not> th_timeout (hd ths) - now \<le>s 0"
  by (cases ths) (auto simp: Let_def split: if_splits)

lemma poll_idle:
  assumes w: "no_descriptors W" "finishes W N" and i: "idle s" and sig: "raised W (ticks s) = []" and t: "os_timers s \<noteq> []"
  shows "fst (js_os_poll W s) = 0 \<and> poll_step W N s (snd (js_os_poll W s))"
proof -
  have p: "js_os_poll W s = (0, poll_timers W (tick s))"
    using i t sig by (simp add: js_os_poll_def idle_def tick_def Let_def)
  show ?thesis
  proof (cases "scan_timers (clock W (ticks s + 1)) 10000 (os_timers s)")
    case (Inl th)
    define s1 where "s1 = (free_timer (th_ptr th) (tick (tick s)))\<lparr>ev_log := EvTimer (th_ptr th) (th_func th) # ev_log s\<rparr>"
    have e: "poll_timers W (tick s) = call_handler W (th_func th) s1"
      using t Inl by (simp add: poll_timers_def get_time_ms_def s1_def tick_def free_timer_def)
    have s1: "idle s1" "ticks s1 = ticks s + 2" "job_list s1 = job_list s"
      using i by (simp_all add: idle_def s1_def free_timer_def tick_def)
    have "th \<in> set (os_timers s)" using scan_in [OF Inl] .
    then have l: "length (os_timers s1) < length (os_timers s)"
      by (auto simp: s1_def free_timer_def tick_def intro: length_filter_less)
    have "os_timers (call_handler W (th_func th) s1) = os_timers s1 \<and> job_list (call_handler W (th_func th) s1) = job_list s"
      if "N \<le> ticks s" using call_late [OF w(2), of s1] that s1 by (simp add: tick_def)
    then show ?thesis
      using idle_call [OF w(1) s1(1)] call_time [of s1 W "th_func th"] s1 l by (simp add: p e poll_step_def)
  next
    case (Inr d)
    have "idle (tick (tick s))" using i by (simp add: idle_def tick_def)
    from select_idle [OF this] have "poll_timers W (tick s) = tick (receive W (tick (tick s)))"
      using t Inr by (simp add: poll_timers_def get_time_ms_def tick_def)
    then show ?thesis
      using scan_hd [OF Inr t] i by (simp add: p poll_step_def idle_def tick_def receive_def)
  qed
qed

section \<open>The loop\<close>

definition leaves :: "world \<Rightarrow> thread_state \<Rightarrow> bool" where
  "leaves W s = ((\<exists>s1. js_std_loop W s = Some (LoopDone s1) \<and> os_timers s1 = []) \<or>
     (\<exists>s1. js_std_loop W s = Some (ExitUnhandled s1) \<and> rejected_promise_list s1 \<noteq> []))"

lemma leaves_step:
  assumes w: "no_descriptors W" "finishes W N" and sig: "\<forall>k. raised W k = []"
    and r: "run_jobs W s = Some s1" and i: "idle s1"
    and n: "\<And>s2. os_timers s1 \<noteq> [] \<Longrightarrow> poll_step W N s1 s2 \<Longrightarrow> leaves W s2"
  shows "leaves W s"
proof (cases "rejected_promise_list s1 = []")
  case True
  show ?thesis
  proof (cases "os_timers s1 = []")
    case t: True
    then have "js_std_loop W s = Some (LoopDone (tick s1))"
      using r True poll_idle_none [OF i _ t] sig by (subst js_std_loop.simps) simp
    then show ?thesis using t by (auto simp: leaves_def tick_def)
  next
    case t: False
    from poll_idle [OF w i _ t] sig
    have p: "fst (js_os_poll W s1) = 0" "poll_step W N s1 (snd (js_os_poll W s1))" by simp_all
    have "js_std_loop W s = js_std_loop W (snd (js_os_poll W s1))"
      using r True p(1) by (subst js_std_loop.simps) simp
    then show ?thesis using n [OF t p(2)] by (simp add: leaves_def)
  qed
next
  case False
  then have "js_std_loop W s = Some (ExitUnhandled s1)" using r by (subst js_std_loop.simps) simp
  then show ?thesis using False by (auto simp: leaves_def)
qed

text \<open>The wait for the first timer: no jobs, and the clock past the timer after \<open>K\<close>.\<close>

lemma leaves_wait:
  assumes w: "no_descriptors W" "finishes W N" and sig: "\<forall>k. raised W k = []"
    and less: "\<And>s2. idle s2 \<Longrightarrow> N \<le> ticks s2 \<Longrightarrow> length (os_timers s2) + length (job_list s2) < n \<Longrightarrow> leaves W s2"
    and K: "\<forall>k. K \<le> k \<and> k < K + 3 \<longrightarrow> th_timeout th - clock W k \<le>s 0"
  shows "idle s \<Longrightarrow> N \<le> ticks s \<Longrightarrow> job_list s = [] \<Longrightarrow> hd (os_timers s) = th \<Longrightarrow> length (os_timers s) = n \<Longrightarrow>
    ticks s + 1 < K + 3 \<Longrightarrow> leaves W s"
proof (induction "K - ticks s" arbitrary: s rule: less_induct)
  case less
  have r: "run_jobs W s = Some s" using less.prems by (subst run_jobs.simps) (simp add: JS_ExecutePendingJob_def)
  show ?case
  proof (rule leaves_step [OF w sig r less.prems(1)])
    fix s2
    assume t: "os_timers s \<noteq> []" and p: "poll_step W N s s2"
    have s2: "idle s2" "N \<le> ticks s2" "job_list s2 = []" using p less.prems by (auto simp: poll_step_def)
    show "leaves W s2"
    proof (cases "length (os_timers s2) < n")
      case True
      then show ?thesis using assms(4) [OF s2(1,2)] s2(3) by simp
    next
      case False
      then have q: "os_timers s2 = os_timers s" "ticks s2 = ticks s + 3" "\<not> th_timeout th - clock W (ticks s + 1) \<le>s 0"
        using p less.prems by (auto simp: poll_step_def)
      then have "ticks s + 1 < K" using K less.prems(6) by (meson not_le)
      then show ?thesis using less.hyps [of s2] s2 q less.prems by simp
    qed
  qed
qed

lemma loop_leaves:
  assumes w: "no_descriptors W" "finishes W N" "time_passes W" and sig: "\<forall>k. raised W k = []" and i: "idle s"
  shows "leaves W s"
  using i
proof (induction s rule: lex_induct [of "\<lambda>s. N - ticks s" "\<lambda>s. length (os_timers s) + length (job_list s)"])
  case (1 s)
  from run_jobs_returns [OF w(1,2) 1(2)] obtain s1 where r: "run_jobs W s = Some s1" "jobs_done N s s1" by blast
  show ?case
  proof (cases "N \<le> ticks s \<and> job_list s = [] \<and> os_timers s \<noteq> []")
    case True
    from w(3) obtain K where K: "ticks s \<le> K" "\<forall>k. K \<le> k \<and> k < K + 3 \<longrightarrow> th_timeout (hd (os_timers s)) - clock W k \<le>s 0"
      unfolding time_passes_def by blast
    have less: "leaves W s2" if "idle s2" "N \<le> ticks s2" "length (os_timers s2) + length (job_list s2) < length (os_timers s)" for s2
      using 1(1) [of s2] that True by simp
    show ?thesis
      by (rule leaves_wait [OF w(1,2) sig less K(2) 1(2)]) (use True K(1) in auto)
  next
    case False
    show ?thesis
    proof (rule leaves_step [OF w(1,2) sig r(1)])
      show "idle s1" using r(2) by (simp add: jobs_done_def)
    next
      fix s2
      assume t: "os_timers s1 \<noteq> []" and p: "poll_step W N s1 s2"
      have "N - ticks s2 < N - ticks s \<or> N - ticks s2 = N - ticks s \<and>
          length (os_timers s2) + length (job_list s2) < length (os_timers s) + length (job_list s)"
      proof (cases "N \<le> ticks s")
        case True
        then have s1: "os_timers s1 = os_timers s" "length (job_list s1) \<le> length (job_list s) - 1" "N \<le> ticks s1" "ticks s \<le> ticks s1"
          using r(2) by (auto simp: jobs_done_def)
        have "job_list s \<noteq> []" using False True t s1(1) by simp
        then have "length (job_list s1) < length (job_list s)" using s1(2) by (cases "job_list s") auto
        then show ?thesis using p s1 by (auto simp: poll_step_def)
      next
        case False
        then show ?thesis using p r(2) by (auto simp: poll_step_def jobs_done_def)
      qed
      then show "leaves W s2" using 1(1) p by (auto simp: poll_step_def)
    qed
  qed
qed

end
