(* ===== verification/EventLoop_Props.thy ===== *)
theory EventLoop_Props
  imports EventLoop_End
begin

text \<open>
  The properties of the event loop: the invariant of its state, the progress of every
  expired timer, and the end of the main loop.
\<close>

section \<open>The invariant\<close>

text \<open>C13: In every state that a thread reaches, whatever its scripts and the system do, the timers
  have different addresses, the ids of \<open>setTimeout\<close> and the next id are positive 32-bit
  integers and those of \<open>sleepAsync\<close> are -1, a descriptor, a signal, a rejected promise
  or a worker has at most one entry, no entry of a descriptor or a worker is without a function, signals are below 64, and
  a worker has no signal handlers.\<close>

theorem event_loop_invariant:
  assumes "reach W s"
  shows "distinct (map th_ptr (os_timers s)) \<and>
    (\<forall>th \<in> set (os_timers s). th_id th = - 1 \<or> 1 \<le> unat (th_id th) \<and> unat (th_id th) \<le> 0x7FFFFFFF) \<and>
    1 \<le> unat (next_timer_id s) \<and> unat (next_timer_id s) \<le> 0x7FFFFFFF \<and>
    distinct (map rw_fd (os_rw_handlers s)) \<and>
    (\<forall>rh \<in> set (os_rw_handlers s). rw_read rh \<noteq> None \<or> rw_write rh \<noteq> None) \<and>
    distinct (map sh_num (os_signal_handlers s)) \<and>
    (\<forall>sh \<in> set (os_signal_handlers s). sh_num sh < 64) \<and>
    (is_worker s \<longrightarrow> os_signal_handlers s = []) \<and>
    distinct (map fst (rejected_promise_list s)) \<and>
    distinct (map pt_worker (port_list s)) \<and> (\<forall>pt \<in> set (port_list s). pt_func pt \<noteq> None)"
  using reach_inv [OF assms]
  by (auto simp: loop_inv_def timers_inv_def rw_inv_def sig_inv_def rej_inv_def port_inv_def id_ok_def)

text \<open>A system whose clock runs with the calls, without signals, messages or ready descriptors.\<close>

definition plain_world :: "(nat \<Rightarrow> nat \<Rightarrow> js_op list) \<Rightarrow> world" where
  "plain_world scr = \<lparr>clock = (\<lambda>k. of_nat k), alloc_ok = (\<lambda>k. True), script = scr, job_ok = (\<lambda>k. True),
     raised = (\<lambda>k. []), select_ret = (\<lambda>k. 0), fd_read = (\<lambda>k fd. False), fd_write = (\<lambda>k fd. False),
     port_ready = (\<lambda>k i. False), posted = (\<lambda>k i. []), message_ok = (\<lambda>k. True), promise = (\<lambda>k p. Pending)\<rparr>"

definition two_timers :: thread_state where
  "two_timers = run_op (plain_world (\<lambda>k f. [])) (OpSetTimeout (FFun 2) (Inr 0))
     (run_op (plain_world (\<lambda>k f. [])) (OpSetTimeout (FFun 1) (Inr 5)) (js_std_init_handlers False))"

lemma two_timers_reach: "reach (plain_world (\<lambda>k f. [])) two_timers"
  unfolding two_timers_def by (intro reach.intros)

lemma two_timers_state: "os_timers two_timers =
    [\<lparr>th_ptr = 0, th_id = 1, th_timeout = 6, th_func = 1\<rparr>, \<lparr>th_ptr = 2, th_id = 2, th_timeout = 3, th_func = 2\<rparr>]"
  "os_rw_handlers two_timers = []" "port_list two_timers = []" "ticks two_timers = 4"
  "os_pending_signals two_timers = 0" "ev_log two_timers = []" "job_list two_timers = []"
  "rejected_promise_list two_timers = []" "is_worker two_timers = False"
  by (simp_all add: two_timers_def setTimeout_state plain_world_def js_std_init_handlers_def next_id_def)

theorem event_loop_invariant_witness:
  "distinct (map th_ptr (os_timers two_timers)) \<and> next_timer_id two_timers \<noteq> 0"
proof -
  from event_loop_invariant [OF two_timers_reach]
  have "distinct (map th_ptr (os_timers two_timers))" "1 \<le> unat (next_timer_id two_timers)" by blast+
  then show ?thesis by auto
qed

section \<open>Expired timers\<close>

text \<open>C14: A timer that is expired and stays so, with \<open>p\<close> timers before it, has been called or cleared
  after any run of the thread with more than \<open>p\<close> polls, whatever the program, its jobs and the
  handlers do, when no signals come in between: no timer is put off for ever.\<close>

theorem expired_timer_runs:
  assumes "reach W s" and "os_timers s = us @ th # ws"
    and "\<forall>k \<ge> ticks s. th_timeout th - clock W k \<le>s 0"
    and "\<forall>k. raised W k = []" and "os_pending_signals s = 0"
    and "turns W s n s1" and "length us < n"
  shows "\<exists>new. ev_log s1 = new @ ev_log s \<and>
    (EvTimer (th_ptr th) (th_func th) \<in> set new \<or> EvClear (th_ptr th) \<in> set new)"
proof -
  have "ahead (ev_log s) th (length us) s" using assms(2) log_refl unfolding ahead_def by blast
  then have "waiting s th (length us) 0 s" using reach_inv [OF assms(1)] assms(5) by (simp add: waiting_def)
  from turns_waiting [OF assms(6) this assms(4,3)] show ?thesis
    using assms(7) by (simp add: waiting_def gone_def)
qed

lemma minus_two_sle: "- 2 \<le>s (0 :: u64)"
  by code_simp

theorem expired_timer_runs_witness:
  "\<exists>W s1. turns W two_timers 2 s1 \<and> (\<exists>new. ev_log s1 = new @ ev_log two_timers \<and>
     (EvTimer 2 2 \<in> set new \<or> EvClear 2 \<in> set new))"
proof -
  define W where "W = (plain_world (\<lambda>k f. []))\<lparr>clock := \<lambda>k. of_nat (min k 5)\<rparr>"
  have s: "two_timers = run_op W (OpSetTimeout (FFun 2) (Inr 0))
     (run_op W (OpSetTimeout (FFun 1) (Inr 5)) (js_std_init_handlers False))"
    by (simp add: two_timers_def setTimeout_state W_def plain_world_def js_std_init_handlers_def next_id_def)
  have r: "reach W two_timers" unfolding s by (intro reach.intros)
  have e: "\<forall>k \<ge> ticks two_timers. 3 - clock W k \<le>s 0"
  proof (intro allI impI)
    fix k
    assume "ticks two_timers \<le> k"
    then have "min k 5 \<in> {4, 5}" by (auto simp: two_timers_state)
    then show "3 - clock W k \<le>s 0" by (auto simp: W_def minus_two_sle)
  qed
  have t: "turns W two_timers 2 (snd (js_os_poll W (snd (js_os_poll W two_timers))))"
    using turns.poll [OF turns.poll [OF turns.start]] by (simp add: numeral_2_eq_2)
  show ?thesis
    using expired_timer_runs [OF r, of "[\<lparr>th_ptr = 0, th_id = 1, th_timeout = 6, th_func = 1\<rparr>]"
        "\<lparr>th_ptr = 2, th_id = 2, th_timeout = 3, th_func = 2\<rparr>" "[]" 2, OF _ _ _ _ t]
      e t by (auto simp: two_timers_state W_def plain_world_def)
qed

section \<open>The end of the loop\<close>

text \<open>C15: The main loop ends: when a thread has no descriptor handlers and no ports and gets no
  signals, its scripts set no descriptor or message handlers and do nothing from some time on, and the
  clock goes past every instant, \<open>js_std_loop\<close> returns, with no timer left or with the
  exit for a rejected promise that nobody handled; until then the scripts may set and clear
  timers, sleep, enqueue jobs and reject promises.\<close>

theorem js_std_loop_ends:
  assumes "os_rw_handlers s = []" "port_list s = []" "os_pending_signals s = 0" "\<forall>k. raised W k = []"
    and "\<forall>k f. \<forall>op \<in> set (script W k f). keeps_idle op"
    and "\<forall>k \<ge> N. \<forall>f. script W k f = []"
    and "\<forall>t m. \<exists>K \<ge> m. \<forall>k. K \<le> k \<and> k < K + 3 \<longrightarrow> t - clock W k \<le>s 0"
  shows "(\<exists>s1. js_std_loop W s = Some (LoopDone s1) \<and> os_timers s1 = []) \<or>
    (\<exists>s1. js_std_loop W s = Some (ExitUnhandled s1) \<and> rejected_promise_list s1 \<noteq> [])"
proof -
  have "leaves W s"
    by (rule loop_leaves) (use assms in \<open>auto simp: no_descriptors_def finishes_def time_passes_def idle_def\<close>)
  then show ?thesis by (simp only: leaves_def)
qed

text \<open>A handler that sets a timer and enqueues a job, as long as the time is less than 100.\<close>

definition busy_script :: "nat \<Rightarrow> nat \<Rightarrow> js_op list" where
  "busy_script k f = (if k < 100 then [OpSetTimeout (FFun (f + 1)) (Inr 2), OpEnqueueJob f] else [])"

theorem js_std_loop_ends_witness: "js_std_loop (plain_world busy_script) two_timers \<noteq> None"
proof -
  have c: "\<exists>K \<ge> m. \<forall>k. K \<le> k \<and> k < K + 3 \<longrightarrow> t - clock (plain_world busy_script) k \<le>s 0" for t m
  proof (intro exI conjI allI impI)
    fix k
    show "m \<le> unat t + 2 ^ 64 * m" by simp
    assume "unat t + 2 ^ 64 * m \<le> k \<and> k < unat t + 2 ^ 64 * m + 3"
    then obtain j where j: "k = unat t + 2 ^ 64 * m + j" "j < 3" using le_Suc_ex by fastforce
    have "of_nat (2 ^ 64 * m) = (0 :: u64)" by (subst word_of_nat_eq_0_iff) simp
    then have "of_nat k = t + of_nat j" by (simp add: j(1) del: of_nat_mult)
    then show "t - clock (plain_world busy_script) k \<le>s 0"
      using j(2) by (auto simp: plain_world_def less_Suc_eq numeral_3_eq_3 minus_two_sle)
  qed
  have "(\<exists>s1. js_std_loop (plain_world busy_script) two_timers = Some (LoopDone s1) \<and> os_timers s1 = []) \<or>
    (\<exists>s1. js_std_loop (plain_world busy_script) two_timers = Some (ExitUnhandled s1) \<and> rejected_promise_list s1 \<noteq> [])"
    by (rule js_std_loop_ends [where N = 100])
      (use c in \<open>auto simp: two_timers_state plain_world_def busy_script_def\<close>)
  then show ?thesis by auto
qed

end
