(* ===== verification/Gc.thy ===== *)
theory Gc
  imports QPrelude
begin

text \<open>
  Reference counts and the cycle collector of \<open>src/src/core/quickjs.c\<close>.

  A GC object has an address, a reference count, a mark and a body, which holds the
  references that the collector and the finalizers follow; strings, symbols, numbers and
  BigInts hold none and are \<open>JPrim\<close>.  The lists of the runtime are the lists of their nodes
  (theory \<open>ListHead\<close>).  Following a reference to memory that has been released, a count that
  would become negative, a failed \<open>assert\<close> and \<open>abort\<close> are the outcome \<open>None\<close>.
\<close>

section \<open>Objects\<close>

type_synonym addr = nat

datatype jsv = JRef addr | JPrim

datatype prop_slot = DeletedProp | DataProp jsv | GetSetProp "addr option" "addr option"
  | VarRefProp addr | AutoInitProp addr

text \<open>
  What a class adds to the properties of an object.  \<open>OtherClass\<close> stands for the classes of
  the builtins, whose functions for marking and for freeing visit the values given.
\<close>

datatype class_data = PlainObject | ArrayData "jsv list" | ObjectData jsv | CFunction "addr option"
  | BytecodeFunction "addr option" "addr option" "addr option list"
  | BoundFunction jsv jsv "jsv list" | ForInIterator jsv | OtherClass "jsv list"

datatype gc_body =
    JSObject addr "prop_slot list" class_data nat
  | FunctionBytecode "jsv list" "addr option"
  | VarRef jsv
  | OpenVarRef "addr option"
  | AsyncFunction bool jsv jsv "jsv list option" jsv jsv
  | Shape "addr option"
  | Context "addr list" "jsv list" "addr option list"
  | ModuleDef "jsv list" "addr option list" "jsv list"

record gc_obj =
  ref_count :: nat
  gc_mark :: bool
  body :: gc_body

datatype gc_phase = GC_PHASE_NONE | GC_PHASE_DECREF | GC_PHASE_REMOVE_CYCLES

record gc_rt =
  gc_heap :: "addr \<rightharpoonup> gc_obj"
  gc_obj_list :: "addr list"
  gc_zero_ref_count_list :: "addr list"
  tmp_obj_list :: "addr list"
  phase :: gc_phase

definition gc_assert :: "bool \<Rightarrow> unit option" where
  "gc_assert b = (if b then Some () else None)"

definition set_count :: "addr \<Rightarrow> gc_obj \<Rightarrow> nat \<Rightarrow> gc_rt \<Rightarrow> gc_rt" where
  "set_count p ob n rt = rt\<lparr>gc_heap := (gc_heap rt)(p \<mapsto> ob\<lparr>ref_count := n\<rparr>)\<rparr>"

definition set_mark :: "addr \<Rightarrow> bool \<Rightarrow> gc_rt \<Rightarrow> gc_rt option" where
  "set_mark p m rt = do { ob \<leftarrow> gc_heap rt p; Some (rt\<lparr>gc_heap := (gc_heap rt)(p \<mapsto> ob\<lparr>gc_mark := m\<rparr>)\<rparr>) }"

text \<open>\<open>list_del\<close> of the link of an object, which is on one of the lists.\<close>

definition remove_gc_object :: "addr \<Rightarrow> gc_rt \<Rightarrow> gc_rt" where
  "remove_gc_object p rt = rt\<lparr>gc_obj_list := remove1 p (gc_obj_list rt),
     gc_zero_ref_count_list := remove1 p (gc_zero_ref_count_list rt), tmp_obj_list := remove1 p (tmp_obj_list rt)\<rparr>"

definition js_free_rt_gc :: "addr \<Rightarrow> gc_rt \<Rightarrow> gc_rt" where
  "js_free_rt_gc p rt = rt\<lparr>gc_heap := (gc_heap rt)(p := None)\<rparr>"

definition add_gc_object :: "addr \<Rightarrow> gc_obj \<Rightarrow> gc_rt \<Rightarrow> gc_rt" where
  "add_gc_object p ob rt = rt\<lparr>gc_heap := (gc_heap rt)(p \<mapsto> ob\<lparr>gc_mark := False\<rparr>), gc_obj_list := gc_obj_list rt @ [p]\<rparr>"

section \<open>Marking\<close>

text \<open>The objects that a function of type \<open>JS_MarkFunc\<close> is called for, in order.\<close>

fun JS_MarkValue :: "jsv \<Rightarrow> addr list" where
  "JS_MarkValue (JRef p) = [p]"
| "JS_MarkValue JPrim = []"

fun mark_prop :: "prop_slot \<Rightarrow> addr list" where
  "mark_prop DeletedProp = []"
| "mark_prop (DataProp v) = JS_MarkValue v"
| "mark_prop (GetSetProp g s) = (case g of Some a \<Rightarrow> [a] | None \<Rightarrow> []) @ (case s of Some a \<Rightarrow> [a] | None \<Rightarrow> [])"
| "mark_prop (VarRefProp a) = [a]"
| "mark_prop (AutoInitProp realm) = [realm]"

fun class_mark :: "class_data \<Rightarrow> addr list" where
  "class_mark PlainObject = []"
| "class_mark (ArrayData vs) = concat (map JS_MarkValue vs)"
| "class_mark (ObjectData v) = JS_MarkValue v"
| "class_mark (CFunction realm) = (case realm of Some a \<Rightarrow> [a] | None \<Rightarrow> [])"
| "class_mark (BytecodeFunction home b var_refs) =
     (case home of Some a \<Rightarrow> [a] | None \<Rightarrow> []) @
     (case b of None \<Rightarrow> []
      | Some b \<Rightarrow> concat (map (\<lambda>r. case r of Some a \<Rightarrow> [a] | None \<Rightarrow> []) var_refs) @ [b])"
| "class_mark (BoundFunction f this args) = JS_MarkValue f @ JS_MarkValue this @ concat (map JS_MarkValue args)"
| "class_mark (ForInIterator v) = JS_MarkValue v"
| "class_mark (OtherClass vs) = concat (map JS_MarkValue vs)"

definition JS_MarkContext :: "addr list \<Rightarrow> jsv list \<Rightarrow> addr option list \<Rightarrow> addr list" where
  "JS_MarkContext mods vals shapes = mods @ concat (map JS_MarkValue vals) @
     concat (map (\<lambda>r. case r of Some a \<Rightarrow> [a] | None \<Rightarrow> []) shapes)"

definition js_mark_module_def :: "jsv list \<Rightarrow> addr option list \<Rightarrow> jsv list \<Rightarrow> addr list" where
  "js_mark_module_def attrs exports vals = concat (map JS_MarkValue attrs) @
     concat (map (\<lambda>r. case r of Some a \<Rightarrow> [a] | None \<Rightarrow> []) exports) @ concat (map JS_MarkValue vals)"

fun mark_children :: "gc_body \<Rightarrow> addr list" where
  "mark_children (JSObject sh props cls w) = sh # concat (map mark_prop props) @ class_mark cls"
| "mark_children (FunctionBytecode cpool realm) =
     concat (map JS_MarkValue cpool) @ (case realm of Some a \<Rightarrow> [a] | None \<Rightarrow> [])"
| "mark_children (VarRef v) = JS_MarkValue v"
| "mark_children (OpenVarRef f) = (case f of Some a \<Rightarrow> [a] | None \<Rightarrow> [])"
| "mark_children (AsyncFunction completed func this stack r0 r1) =
     (if completed then [] else JS_MarkValue func @ JS_MarkValue this @
        (case stack of Some vs \<Rightarrow> concat (map JS_MarkValue vs) | None \<Rightarrow> [])) @
     JS_MarkValue r0 @ JS_MarkValue r1"
| "mark_children (Shape proto) = (case proto of Some a \<Rightarrow> [a] | None \<Rightarrow> [])"
| "mark_children (Context mods vals shapes) = JS_MarkContext mods vals shapes"
| "mark_children (ModuleDef attrs exports vals) = js_mark_module_def attrs exports vals"

fun mark_each :: "(addr \<Rightarrow> gc_rt \<Rightarrow> gc_rt option) \<Rightarrow> addr list \<Rightarrow> gc_rt \<Rightarrow> gc_rt option" where
  "mark_each f [] rt = Some rt"
| "mark_each f (p # ps) rt = do { rt1 \<leftarrow> f p rt; mark_each f ps rt1 }"

definition gc_decref_child :: "addr \<Rightarrow> gc_rt \<Rightarrow> gc_rt option" where
  "gc_decref_child p rt = do {
     ob \<leftarrow> gc_heap rt p;
     _ \<leftarrow> gc_assert (ref_count ob > 0);
     let rt1 = set_count p ob (ref_count ob - 1) rt in
     if ref_count ob - 1 = 0 \<and> gc_mark ob then
       (let rt2 = remove_gc_object p rt1 in Some (rt2\<lparr>tmp_obj_list := tmp_obj_list rt2 @ [p]\<rparr>))
     else Some rt1 }"

text \<open>The body of the loop of \<open>gc_decref\<close>, and the loop, which reads the successor first.\<close>

definition gc_decref_one :: "addr \<Rightarrow> gc_rt \<Rightarrow> gc_rt option" where
  "gc_decref_one p rt = do {
     ob \<leftarrow> gc_heap rt p;
     _ \<leftarrow> gc_assert (\<not> gc_mark ob);
     rt1 \<leftarrow> mark_each gc_decref_child (mark_children (body ob)) rt;
     rt2 \<leftarrow> set_mark p True rt1;
     ob2 \<leftarrow> gc_heap rt2 p;
     if ref_count ob2 = 0 then
       (let rt3 = remove_gc_object p rt2 in Some (rt3\<lparr>tmp_obj_list := tmp_obj_list rt3 @ [p]\<rparr>))
     else Some rt2 }"

partial_function (option) gc_decref_from :: "gc_rt \<Rightarrow> addr option \<Rightarrow> gc_rt option" where
  "gc_decref_from rt el = (case el of
       None \<Rightarrow> Some rt
     | Some p \<Rightarrow> do { rt1 \<leftarrow> gc_decref_one p rt; gc_decref_from rt1 (list_next (gc_obj_list rt) p) })"

definition gc_decref :: "gc_rt \<Rightarrow> gc_rt option" where
  "gc_decref rt = gc_decref_from (rt\<lparr>tmp_obj_list := []\<rparr>) (list_first (gc_obj_list rt))"

definition gc_scan_incref_child :: "addr \<Rightarrow> gc_rt \<Rightarrow> gc_rt option" where
  "gc_scan_incref_child p rt = do {
     ob \<leftarrow> gc_heap rt p;
     let rt1 = set_count p ob (ref_count ob + 1) rt in
     if ref_count ob + 1 = 1 then
       (let rt2 = remove_gc_object p rt1 in set_mark p False (rt2\<lparr>gc_obj_list := gc_obj_list rt2 @ [p]\<rparr>))
     else Some rt1 }"

definition gc_scan_incref_child2 :: "addr \<Rightarrow> gc_rt \<Rightarrow> gc_rt option" where
  "gc_scan_incref_child2 p rt = do { ob \<leftarrow> gc_heap rt p; Some (set_count p ob (ref_count ob + 1) rt) }"

definition gc_scan_one :: "addr \<Rightarrow> gc_rt \<Rightarrow> gc_rt option" where
  "gc_scan_one p rt = do {
     ob \<leftarrow> gc_heap rt p;
     _ \<leftarrow> gc_assert (ref_count ob > 0);
     rt1 \<leftarrow> set_mark p False rt;
     mark_each gc_scan_incref_child (mark_children (body ob)) rt1 }"

partial_function (option) gc_scan_from :: "gc_rt \<Rightarrow> addr option \<Rightarrow> gc_rt option" where
  "gc_scan_from rt el = (case el of
       None \<Rightarrow> Some rt
     | Some p \<Rightarrow> do { rt1 \<leftarrow> gc_scan_one p rt; gc_scan_from rt1 (list_next (gc_obj_list rt1) p) })"

text \<open>The second loop changes no list.\<close>

fun gc_restore :: "addr list \<Rightarrow> gc_rt \<Rightarrow> gc_rt option" where
  "gc_restore [] rt = Some rt"
| "gc_restore (p # ps) rt = do {
     ob \<leftarrow> gc_heap rt p;
     rt1 \<leftarrow> mark_each gc_scan_incref_child2 (mark_children (body ob)) rt;
     gc_restore ps rt1 }"

definition gc_scan :: "gc_rt \<Rightarrow> gc_rt option" where
  "gc_scan rt = do {
     rt1 \<leftarrow> gc_scan_from rt (list_first (gc_obj_list rt));
     gc_restore (tmp_obj_list rt1) rt1 }"

section \<open>Freeing\<close>

text \<open>
  A reference is released inside \<open>free_zero_refcount\<close> (phase \<open>DECREF\<close>), where an object whose
  count becomes zero is put at the front of \<open>gc_zero_ref_count_list\<close>, or inside
  \<open>gc_free_cycles\<close> (phase \<open>REMOVE_CYCLES\<close>), where it is left to the loop of that function.
\<close>

definition free_value_nested :: "jsv \<Rightarrow> gc_rt \<Rightarrow> gc_rt option" where
  "free_value_nested v rt = (case v of
       JPrim \<Rightarrow> Some rt
     | JRef p \<Rightarrow> do {
         ob \<leftarrow> gc_heap rt p;
         _ \<leftarrow> gc_assert (ref_count ob > 0);
         let rt1 = set_count p ob (ref_count ob - 1) rt in
         if ref_count ob - 1 = 0 \<and> phase rt \<noteq> GC_PHASE_REMOVE_CYCLES then
           (let rt2 = remove_gc_object p rt1
            in set_mark p True (rt2\<lparr>gc_zero_ref_count_list := p # gc_zero_ref_count_list rt2\<rparr>))
         else Some rt1 })"

definition async_func_free :: "addr \<Rightarrow> gc_rt \<Rightarrow> gc_rt option" where
  "async_func_free p rt = do {
     ob \<leftarrow> gc_heap rt p;
     _ \<leftarrow> gc_assert (ref_count ob > 0);
     let rt1 = set_count p ob (ref_count ob - 1) rt in
     if ref_count ob - 1 = 0 \<and> phase rt \<noteq> GC_PHASE_REMOVE_CYCLES then
       (let rt2 = remove_gc_object p rt1
        in Some (rt2\<lparr>gc_zero_ref_count_list := p # gc_zero_ref_count_list rt2\<rparr>))
     else Some rt1 }"

fun free_values :: "jsv list \<Rightarrow> gc_rt \<Rightarrow> gc_rt option" where
  "free_values [] rt = Some rt"
| "free_values (v # vs) rt = do { rt1 \<leftarrow> free_value_nested v rt; free_values vs rt1 }"

definition js_free_shape0 :: "addr \<Rightarrow> gc_rt \<Rightarrow> gc_rt option" where
  "js_free_shape0 p rt = do {
     ob \<leftarrow> gc_heap rt p;
     _ \<leftarrow> gc_assert (ref_count ob = 0);
     (case body ob of
        Shape proto \<Rightarrow> do {
          rt1 \<leftarrow> (case proto of Some a \<Rightarrow> free_value_nested (JRef a) rt | None \<Rightarrow> Some rt);
          Some (js_free_rt_gc p (remove_gc_object p rt1)) }
      | _ \<Rightarrow> None) }"

definition js_free_shape :: "addr \<Rightarrow> gc_rt \<Rightarrow> gc_rt option" where
  "js_free_shape p rt = do {
     ob \<leftarrow> gc_heap rt p;
     _ \<leftarrow> gc_assert (ref_count ob > 0);
     let rt1 = set_count p ob (ref_count ob - 1) rt in
     if ref_count ob - 1 = 0 then js_free_shape0 p rt1 else Some rt1 }"

fun free_shapes :: "addr option list \<Rightarrow> gc_rt \<Rightarrow> gc_rt option" where
  "free_shapes [] rt = Some rt"
| "free_shapes (s # ss) rt = do {
     rt1 \<leftarrow> (case s of Some p \<Rightarrow> js_free_shape p rt | None \<Rightarrow> Some rt);
     free_shapes ss rt1 }"

definition free_var_ref :: "addr option \<Rightarrow> gc_rt \<Rightarrow> gc_rt option" where
  "free_var_ref r rt = (case r of
       None \<Rightarrow> Some rt
     | Some p \<Rightarrow> do {
         ob \<leftarrow> gc_heap rt p;
         _ \<leftarrow> gc_assert (ref_count ob > 0);
         let rt1 = set_count p ob (ref_count ob - 1) rt in
         if ref_count ob - 1 = 0 then do {
           rt2 \<leftarrow> (case body ob of
                    VarRef v \<Rightarrow> free_value_nested v rt1
                  | OpenVarRef f \<Rightarrow> (case f of Some a \<Rightarrow> async_func_free a rt1 | None \<Rightarrow> Some rt1)
                  | _ \<Rightarrow> None);
           Some (js_free_rt_gc p (remove_gc_object p rt2)) }
         else Some rt1 })"

fun free_var_refs :: "addr option list \<Rightarrow> gc_rt \<Rightarrow> gc_rt option" where
  "free_var_refs [] rt = Some rt"
| "free_var_refs (r # rs) rt = do { rt1 \<leftarrow> free_var_ref r rt; free_var_refs rs rt1 }"

definition JS_FreeContext :: "addr \<Rightarrow> gc_rt \<Rightarrow> gc_rt option" where
  "JS_FreeContext p rt = do {
     ob \<leftarrow> gc_heap rt p;
     _ \<leftarrow> gc_assert (ref_count ob > 0);
     let rt1 = set_count p ob (ref_count ob - 1) rt in
     if ref_count ob - 1 > 0 then Some rt1
     else (case body ob of
        Context mods vals shapes \<Rightarrow> do {
          rt2 \<leftarrow> free_values (map JRef mods) rt1;
          rt3 \<leftarrow> free_values vals rt2;
          rt4 \<leftarrow> free_shapes shapes rt3;
          Some (js_free_rt_gc p (remove_gc_object p rt4)) }
      | _ \<Rightarrow> None) }"

definition free_realm :: "addr option \<Rightarrow> gc_rt \<Rightarrow> gc_rt option" where
  "free_realm r rt = (case r of Some p \<Rightarrow> JS_FreeContext p rt | None \<Rightarrow> Some rt)"

fun free_property :: "prop_slot \<Rightarrow> gc_rt \<Rightarrow> gc_rt option" where
  "free_property DeletedProp rt = Some rt"
| "free_property (DataProp v) rt = free_value_nested v rt"
| "free_property (GetSetProp g s) rt = do {
     rt1 \<leftarrow> (case g of Some a \<Rightarrow> free_value_nested (JRef a) rt | None \<Rightarrow> Some rt);
     (case s of Some a \<Rightarrow> free_value_nested (JRef a) rt1 | None \<Rightarrow> Some rt1) }"
| "free_property (VarRefProp a) rt = free_var_ref (Some a) rt"
| "free_property (AutoInitProp realm) rt = JS_FreeContext realm rt"

fun free_properties :: "prop_slot list \<Rightarrow> gc_rt \<Rightarrow> gc_rt option" where
  "free_properties [] rt = Some rt"
| "free_properties (pr # prs) rt = do { rt1 \<leftarrow> free_property pr rt; free_properties prs rt1 }"

fun class_finalizer :: "class_data \<Rightarrow> gc_rt \<Rightarrow> gc_rt option" where
  "class_finalizer PlainObject rt = Some rt"
| "class_finalizer (ArrayData vs) rt = free_values vs rt"
| "class_finalizer (ObjectData v) rt = free_value_nested v rt"
| "class_finalizer (CFunction realm) rt = free_realm realm rt"
| "class_finalizer (BytecodeFunction home b var_refs) rt = do {
     rt1 \<leftarrow> (case home of Some a \<Rightarrow> free_value_nested (JRef a) rt | None \<Rightarrow> Some rt);
     (case b of
        None \<Rightarrow> Some rt1
      | Some b \<Rightarrow> do { rt2 \<leftarrow> free_var_refs var_refs rt1; free_value_nested (JRef b) rt2 }) }"
| "class_finalizer (BoundFunction f this args) rt = do {
     rt1 \<leftarrow> free_value_nested f rt;
     rt2 \<leftarrow> free_value_nested this rt1;
     free_values args rt2 }"
| "class_finalizer (ForInIterator v) rt = free_value_nested v rt"
| "class_finalizer (OtherClass vs) rt = free_values vs rt"

text \<open>The end of the functions that free an object: its memory may have to stay for a while.\<close>

definition free_or_keep :: "addr \<Rightarrow> gc_rt \<Rightarrow> gc_rt option" where
  "free_or_keep p rt = do {
     ob \<leftarrow> gc_heap rt p;
     let rt1 = remove_gc_object p rt in
     if phase rt = GC_PHASE_REMOVE_CYCLES \<and> ref_count ob \<noteq> 0
     then Some (rt1\<lparr>gc_zero_ref_count_list := gc_zero_ref_count_list rt1 @ [p]\<rparr>)
     else Some (js_free_rt_gc p rt1) }"

definition free_object :: "addr \<Rightarrow> gc_rt \<Rightarrow> gc_rt option" where
  "free_object p rt = do {
     ob \<leftarrow> gc_heap rt p;
     (case body ob of
        JSObject sh props cls weakref_count \<Rightarrow> do {
          rt1 \<leftarrow> free_properties props rt;
          rt2 \<leftarrow> js_free_shape sh rt1;
          rt3 \<leftarrow> class_finalizer cls rt2;
          ob3 \<leftarrow> gc_heap rt3 p;
          let rt4 = remove_gc_object p rt3 in
          if phase rt = GC_PHASE_REMOVE_CYCLES then
            if ref_count ob3 = 0 \<and> weakref_count = 0 then Some (js_free_rt_gc p rt4)
            else Some (rt4\<lparr>gc_zero_ref_count_list := gc_zero_ref_count_list rt4 @ [p]\<rparr>)
          else if weakref_count = 0 then Some (js_free_rt_gc p rt4)
          else set_mark p False rt4 }
      | _ \<Rightarrow> None) }"

definition free_function_bytecode :: "addr \<Rightarrow> gc_rt \<Rightarrow> gc_rt option" where
  "free_function_bytecode p rt = do {
     ob \<leftarrow> gc_heap rt p;
     (case body ob of
        FunctionBytecode cpool realm \<Rightarrow> do {
          rt1 \<leftarrow> free_values cpool rt;
          rt2 \<leftarrow> free_realm realm rt1;
          free_or_keep p rt2 }
      | _ \<Rightarrow> None) }"

definition async_func_free_frame :: "jsv \<Rightarrow> jsv \<Rightarrow> jsv list option \<Rightarrow> gc_rt \<Rightarrow> gc_rt option" where
  "async_func_free_frame func this stack rt = do {
     vs \<leftarrow> stack;
     rt1 \<leftarrow> free_values vs rt;
     rt2 \<leftarrow> free_value_nested func rt1;
     free_value_nested this rt2 }"

text \<open>\<open>__async_func_free\<close>\<close>

definition async_func_free_obj :: "addr \<Rightarrow> gc_rt \<Rightarrow> gc_rt option" where
  "async_func_free_obj p rt = do {
     ob \<leftarrow> gc_heap rt p;
     (case body ob of
        AsyncFunction completed func this stack r0 r1 \<Rightarrow> do {
          rt1 \<leftarrow> (if completed then Some rt else async_func_free_frame func this stack rt);
          rt2 \<leftarrow> free_value_nested r0 rt1;
          rt3 \<leftarrow> free_value_nested r1 rt2;
          free_or_keep p rt3 }
      | _ \<Rightarrow> None) }"

text \<open>A module leaves the list of the context that has loaded it.\<close>

definition unlink_module :: "addr \<Rightarrow> gc_rt \<Rightarrow> gc_rt" where
  "unlink_module p rt = rt\<lparr>gc_heap := \<lambda>a. (case gc_heap rt a of
       None \<Rightarrow> None
     | Some ob \<Rightarrow> Some (case body ob of
           Context mods vals shapes \<Rightarrow> ob\<lparr>body := Context (filter (\<lambda>m. m \<noteq> p) mods) vals shapes\<rparr>
         | _ \<Rightarrow> ob))\<rparr>"

definition js_free_module_def :: "addr \<Rightarrow> gc_rt \<Rightarrow> gc_rt option" where
  "js_free_module_def p rt = do {
     ob \<leftarrow> gc_heap rt p;
     (case body ob of
        ModuleDef attrs exports vals \<Rightarrow> do {
          rt1 \<leftarrow> free_values attrs rt;
          rt2 \<leftarrow> free_var_refs exports rt1;
          rt3 \<leftarrow> free_values vals rt2;
          free_or_keep p (unlink_module p rt3) }
      | _ \<Rightarrow> None) }"

definition free_gc_object :: "addr \<Rightarrow> gc_rt \<Rightarrow> gc_rt option" where
  "free_gc_object p rt = do {
     ob \<leftarrow> gc_heap rt p;
     (case body ob of
        JSObject _ _ _ _ \<Rightarrow> free_object p rt
      | FunctionBytecode _ _ \<Rightarrow> free_function_bytecode p rt
      | AsyncFunction _ _ _ _ _ _ \<Rightarrow> async_func_free_obj p rt
      | ModuleDef _ _ _ \<Rightarrow> js_free_module_def p rt
      | _ \<Rightarrow> None) }"

fun owned_type :: "gc_body \<Rightarrow> bool" where
  "owned_type (VarRef _) = True"
| "owned_type (OpenVarRef _) = True"
| "owned_type (Shape _) = True"
| "owned_type (Context _ _ _) = True"
| "owned_type _ = False"

partial_function (option) gc_free_tmp :: "gc_rt \<Rightarrow> gc_rt option" where
  "gc_free_tmp rt = (case tmp_obj_list rt of
       [] \<Rightarrow> Some rt
     | p # ps \<Rightarrow> do {
         ob \<leftarrow> gc_heap rt p;
         rt1 \<leftarrow> (if owned_type (body ob)
                then (let rt1 = remove_gc_object p rt
                      in Some (rt1\<lparr>gc_zero_ref_count_list := gc_zero_ref_count_list rt1 @ [p]\<rparr>))
                else free_gc_object p rt);
         gc_free_tmp rt1 })"

fun weakrefs :: "gc_body \<Rightarrow> nat" where
  "weakrefs (JSObject _ _ _ w) = w"
| "weakrefs _ = 0"

text \<open>The last loop: the memory of the objects goes, but for those with weak references.\<close>

fun gc_free_zero :: "addr list \<Rightarrow> gc_rt \<Rightarrow> gc_rt option" where
  "gc_free_zero [] rt = Some rt"
| "gc_free_zero (p # ps) rt = do {
     ob \<leftarrow> gc_heap rt p;
     _ \<leftarrow> gc_assert (\<not> owned_type (body ob));
     rt1 \<leftarrow> (if weakrefs (body ob) \<noteq> 0 then set_mark p False rt else Some (js_free_rt_gc p rt));
     gc_free_zero ps rt1 }"

definition gc_free_cycles :: "gc_rt \<Rightarrow> gc_rt option" where
  "gc_free_cycles rt = do {
     rt1 \<leftarrow> gc_free_tmp (rt\<lparr>phase := GC_PHASE_REMOVE_CYCLES\<rparr>);
     rt2 \<leftarrow> gc_free_zero (gc_zero_ref_count_list rt1) (rt1\<lparr>phase := GC_PHASE_NONE\<rparr>);
     Some (rt2\<lparr>gc_zero_ref_count_list := []\<rparr>) }"

text \<open>
  The removal of the entries of weak maps, weak references and finalization registries whose
  target has gone, the work of these builtins, is the argument \<open>gc_remove_weak_objects\<close>.
\<close>

definition JS_RunGCInternal :: "(gc_rt \<Rightarrow> gc_rt option) \<Rightarrow> bool \<Rightarrow> gc_rt \<Rightarrow> gc_rt option" where
  "JS_RunGCInternal gc_remove_weak_objects remove_weak_objects rt = do {
     rt0 \<leftarrow> (if remove_weak_objects then gc_remove_weak_objects rt else Some rt);
     rt1 \<leftarrow> gc_decref rt0;
     rt2 \<leftarrow> gc_scan rt1;
     gc_free_cycles rt2 }"

definition JS_RunGC :: "(gc_rt \<Rightarrow> gc_rt option) \<Rightarrow> gc_rt \<Rightarrow> gc_rt option" where
  "JS_RunGC gc_remove_weak_objects rt = JS_RunGCInternal gc_remove_weak_objects True rt"

section \<open>Releasing a reference\<close>

partial_function (option) free_zero_loop :: "gc_rt \<Rightarrow> gc_rt option" where
  "free_zero_loop rt = (case gc_zero_ref_count_list rt of
       [] \<Rightarrow> Some rt
     | p # ps \<Rightarrow> do {
         ob \<leftarrow> gc_heap rt p;
         _ \<leftarrow> gc_assert (ref_count ob = 0);
         rt1 \<leftarrow> free_gc_object p rt;
         free_zero_loop rt1 })"

definition free_zero_refcount :: "gc_rt \<Rightarrow> gc_rt option" where
  "free_zero_refcount rt = do {
     rt1 \<leftarrow> free_zero_loop (rt\<lparr>phase := GC_PHASE_DECREF\<rparr>);
     Some (rt1\<lparr>phase := GC_PHASE_NONE\<rparr>) }"

definition JS_DupValue :: "jsv \<Rightarrow> gc_rt \<Rightarrow> gc_rt option" where
  "JS_DupValue v rt = (case v of
       JPrim \<Rightarrow> Some rt
     | JRef p \<Rightarrow> do { ob \<leftarrow> gc_heap rt p; Some (set_count p ob (ref_count ob + 1) rt) })"

text \<open>A release in phase \<open>NONE\<close> frees what it leaves without references.\<close>

definition JS_FreeValueRT :: "jsv \<Rightarrow> gc_rt \<Rightarrow> gc_rt option" where
  "JS_FreeValueRT v rt = do {
     rt1 \<leftarrow> free_value_nested v rt;
     if phase rt = GC_PHASE_NONE \<and> gc_zero_ref_count_list rt1 \<noteq> [] then free_zero_refcount rt1 else Some rt1 }"

end
