(* ===== verification/Gc_Mark.thy ===== *)
theory Gc_Mark
  imports Gc
begin

text \<open>
  The marking phases of the collector: \<open>gc_decref\<close> leaves in every count the references from
  outside, and \<open>gc_scan\<close> moves the objects that are reachable from those back and restores
  all counts.
\<close>

section \<open>The graph of a heap\<close>

definition bodies :: "gc_rt \<Rightarrow> addr \<rightharpoonup> gc_body" where
  "bodies rt p = map_option body (gc_heap rt p)"

definition kids_of :: "(addr \<rightharpoonup> gc_body) \<Rightarrow> addr \<Rightarrow> addr list" where
  "kids_of B p = (case B p of Some b \<Rightarrow> mark_children b | None \<Rightarrow> [])"

text \<open>The number of references to \<open>p\<close> from the objects of \<open>Q\<close>.\<close>

definition inn :: "(addr \<Rightarrow> addr list) \<Rightarrow> addr set \<Rightarrow> addr \<Rightarrow> nat" where
  "inn K Q p = (\<Sum>q\<in>Q. count_list (K q) p)"

lemma inn_empty [simp]: "inn K {} p = 0"
  by (simp add: inn_def)

lemma inn_insert [simp]: "finite Q \<Longrightarrow> q \<notin> Q \<Longrightarrow> inn K (insert q Q) p = count_list (K q) p + inn K Q p"
  by (simp add: inn_def)

lemma inn_union: "finite P \<Longrightarrow> finite Q \<Longrightarrow> P \<inter> Q = {} \<Longrightarrow> inn K (P \<union> Q) p = inn K P p + inn K Q p"
  by (simp add: inn_def sum.union_disjoint)

lemma inn_pos: "finite Q \<Longrightarrow> inn K Q p > 0 \<longleftrightarrow> (\<exists>q\<in>Q. p \<in> set (K q))"
  by (simp add: inn_def sum_nonneg_eq_0_iff zero_less_iff_neq_zero count_list_0_iff)

lemma remove1_filter: "distinct xs \<Longrightarrow> remove1 p xs = filter (\<lambda>x. x \<noteq> p) xs"
  by (induction xs) (auto intro!: filter_True[symmetric])

lemma list_next_append: "p \<notin> set xs \<Longrightarrow> list_next (xs @ p # ys) p = list_first ys"
  by (induction xs) auto

lemma gc_assert_bind [simp]: "Option.bind (gc_assert b) f = (if b then f () else None)"
  by (simp add: gc_assert_def)

section \<open>Decrementing\<close>

definition counted :: "addr set \<Rightarrow> (addr \<Rightarrow> nat) \<Rightarrow> (addr \<Rightarrow> bool) \<Rightarrow> gc_rt \<Rightarrow> bool" where
  "counted S f m rt = (\<forall>x\<in>S. \<exists>ob. gc_heap rt x = Some ob \<and> ref_count ob = f x \<and> gc_mark ob = m x)"

definition dec_state :: "addr list \<Rightarrow> (addr \<rightharpoonup> gc_obj) \<Rightarrow> (addr \<rightharpoonup> gc_body) \<Rightarrow> addr set \<Rightarrow> (addr \<Rightarrow> nat) \<Rightarrow> gc_rt \<Rightarrow> bool" where
  "dec_state os H B V f rt = (bodies rt = B \<and> (\<forall>x. x \<notin> set os \<longrightarrow> gc_heap rt x = H x) \<and> counted (set os) f (\<lambda>x. x \<in> V) rt \<and>
     gc_obj_list rt = filter (\<lambda>x. \<not> (x \<in> V \<and> f x = 0)) os \<and>
     distinct (tmp_obj_list rt) \<and> set (tmp_obj_list rt) = {x \<in> set os. x \<in> V \<and> f x = 0} \<and>
     gc_zero_ref_count_list rt = [] \<and> phase rt = GC_PHASE_NONE)"

lemma bodies_set_count: "gc_heap rt p = Some ob \<Longrightarrow> bodies (set_count p ob n rt) = bodies rt"
  by (auto simp: bodies_def set_count_def)

lemma bodies_lists [simp]:
  "bodies (remove_gc_object p rt) = bodies rt"
  "bodies (rt\<lparr>tmp_obj_list := xs\<rparr>) = bodies rt"
  "bodies (rt\<lparr>gc_obj_list := xs\<rparr>) = bodies rt"
  "bodies (rt\<lparr>gc_zero_ref_count_list := xs\<rparr>) = bodies rt"
  "bodies (rt\<lparr>phase := ph\<rparr>) = bodies rt"
  by (auto simp: bodies_def remove_gc_object_def)

lemma decref_child_state:
  assumes s: "dec_state os H B V f rt" and os: "distinct os" and c: "c \<in> set os" "f c > 0"
  shows "\<exists>rt'. gc_decref_child c rt = Some rt' \<and> dec_state os H B V (f(c := f c - 1)) rt'"
proof -
  obtain ob where ob: "gc_heap rt c = Some ob" "ref_count ob = f c" "gc_mark ob = (c \<in> V)"
    using s c(1) by (auto simp: dec_state_def counted_def)
  define rt1 where "rt1 = set_count c ob (f c - 1) rt"
  have cn: "counted (set os) (f(c := f c - 1)) (\<lambda>x. x \<in> V) rt1"
    using s ob by (auto simp: dec_state_def counted_def rt1_def set_count_def)
  have b1: "bodies rt1 = B" using s bodies_set_count [OF ob(1)] by (simp add: rt1_def dec_state_def)
  show ?thesis
  proof (cases "f c - 1 = 0 \<and> c \<in> V")
    case True
    define rt2 where "rt2 = remove_gc_object c rt1"
    define rt3 where "rt3 = rt2\<lparr>tmp_obj_list := tmp_obj_list rt2 @ [c]\<rparr>"
    have run: "gc_decref_child c rt = Some rt3"
      using ob c True by (simp add: gc_decref_child_def rt1_def rt2_def rt3_def Let_def)
    have nt: "c \<notin> set (tmp_obj_list rt)" using s c(2) by (simp add: dec_state_def)
    have tmp: "tmp_obj_list rt3 = tmp_obj_list rt @ [c]"
      using nt by (simp add: rt3_def rt2_def rt1_def remove_gc_object_def set_count_def remove1_idem)
    have lst: "gc_obj_list rt3 = filter (\<lambda>x. \<not> (x \<in> V \<and> (f(c := f c - 1)) x = 0)) os"
      using s os True
      by (auto simp: rt3_def rt2_def rt1_def remove_gc_object_def set_count_def dec_state_def remove1_filter
          intro!: filter_cong)
    have "dec_state os H B V (f(c := f c - 1)) rt3"
      unfolding dec_state_def
    proof (intro conjI)
      show "bodies rt3 = B" using b1 by (simp add: rt3_def rt2_def)
      show "\<forall>x. x \<notin> set os \<longrightarrow> gc_heap rt3 x = H x"
        using s c(1) by (auto simp: rt3_def rt2_def rt1_def remove_gc_object_def set_count_def dec_state_def)
      show "counted (set os) (f(c := f c - 1)) (\<lambda>x. x \<in> V) rt3"
        using cn by (simp add: counted_def rt3_def rt2_def remove_gc_object_def)
      show "distinct (tmp_obj_list rt3)" using s nt by (simp add: tmp dec_state_def)
      show "set (tmp_obj_list rt3) = {x \<in> set os. x \<in> V \<and> (f(c := f c - 1)) x = 0}"
        using s True c by (auto simp: tmp dec_state_def)
      show "gc_zero_ref_count_list rt3 = []" "phase rt3 = GC_PHASE_NONE"
        using s by (simp_all add: rt3_def rt2_def rt1_def remove_gc_object_def set_count_def dec_state_def)
    qed (rule lst)
    with run show ?thesis by blast
  next
    case False
    then have run: "gc_decref_child c rt = Some rt1"
      using ob c by (auto simp: gc_decref_child_def rt1_def Let_def)
    have "filter (\<lambda>x. \<not> (x \<in> V \<and> f x = 0)) os = filter (\<lambda>x. \<not> (x \<in> V \<and> (f(c := f c - 1)) x = 0)) os"
      using False c by (intro filter_cong) auto
    moreover have "{x \<in> set os. x \<in> V \<and> f x = 0} = {x \<in> set os. x \<in> V \<and> (f(c := f c - 1)) x = 0}"
      using False c by auto
    ultimately have "dec_state os H B V (f(c := f c - 1)) rt1"
      using s cn b1 c(1) by (auto simp: dec_state_def rt1_def set_count_def)
    with run show ?thesis by blast
  qed
qed

lemma decref_children_state:
  assumes "dec_state os H B V f rt" "distinct os" "set cs \<subseteq> set os" "\<And>x. count_list cs x \<le> f x"
  shows "\<exists>rt'. mark_each gc_decref_child cs rt = Some rt' \<and> dec_state os H B V (\<lambda>x. f x - count_list cs x) rt'"
  using assms
proof (induction cs arbitrary: rt f)
  case (Cons c cs)
  have "f c > 0" using Cons.prems(4) [of c] by simp
  with decref_child_state [OF Cons.prems(1,2), of c] Cons.prems(3) obtain rt1 where
    r: "gc_decref_child c rt = Some rt1" "dec_state os H B V (f(c := f c - 1)) rt1" by auto
  have le: "count_list cs x \<le> (f(c := f c - 1)) x" for x using Cons.prems(4) [of x] by auto
  have "(\<lambda>x. (f(c := f c - 1)) x - count_list cs x) = (\<lambda>x. f x - count_list (c # cs) x)"
    by (rule ext) simp
  with Cons.IH [OF r(2) Cons.prems(2) _ le] Cons.prems(3) r(1) show ?case by auto
qed auto

lemma decref_one_state:
  assumes s: "dec_state os H B V f rt" and os: "distinct os" and p: "p \<in> set os" "p \<notin> V"
    and kids: "set (kids_of B p) \<subseteq> set os" "\<And>x. count_list (kids_of B p) x \<le> f x"
  shows "\<exists>rt'. gc_decref_one p rt = Some rt' \<and> dec_state os H B (insert p V) (\<lambda>x. f x - count_list (kids_of B p) x) rt'"
proof -
  obtain ob where ob: "gc_heap rt p = Some ob" "\<not> gc_mark ob"
    using s p by (auto simp: dec_state_def counted_def)
  define g where "g = (\<lambda>x. f x - count_list (kids_of B p) x)"
  have "B p = Some (body ob)" using s ob(1) by (auto simp: dec_state_def bodies_def)
  then have k: "mark_children (body ob) = kids_of B p" by (simp add: kids_of_def)
  from decref_children_state [OF s os kids] obtain rt1 where
    r1: "mark_each gc_decref_child (kids_of B p) rt = Some rt1" and s1: "dec_state os H B V g rt1"
    by (auto simp: g_def)
  obtain ob1 where ob1: "gc_heap rt1 p = Some ob1" "ref_count ob1 = g p"
    using s1 p by (auto simp: dec_state_def counted_def)
  define rt2 where "rt2 = rt1\<lparr>gc_heap := (gc_heap rt1)(p \<mapsto> ob1\<lparr>gc_mark := True\<rparr>)\<rparr>"
  have r2: "set_mark p True rt1 = Some rt2" by (simp add: set_mark_def ob1 rt2_def)
  have b2: "bodies rt2 = B" using s1 ob1 by (auto simp: bodies_def rt2_def dec_state_def)
  have c2: "counted (set os) g (\<lambda>x. x \<in> insert p V) rt2"
    using s1 ob1 by (auto simp: dec_state_def counted_def rt2_def)
  show ?thesis
  proof (cases "g p = 0")
    case True
    define rt3 where "rt3 = remove_gc_object p rt2"
    define rt4 where "rt4 = rt3\<lparr>tmp_obj_list := tmp_obj_list rt3 @ [p]\<rparr>"
    have run: "gc_decref_one p rt = Some rt4"
      using ob r1 r2 ob1 True k by (simp add: gc_decref_one_def rt3_def rt4_def rt2_def Let_def)
    have nt: "p \<notin> set (tmp_obj_list rt1)" using s1 p by (simp add: dec_state_def)
    have tmp: "tmp_obj_list rt4 = tmp_obj_list rt1 @ [p]"
      using nt by (simp add: rt4_def rt3_def rt2_def remove_gc_object_def remove1_idem)
    have "dec_state os H B (insert p V) g rt4"
      unfolding dec_state_def
    proof (intro conjI)
      show "bodies rt4 = B" using b2 by (simp add: rt4_def rt3_def)
      show "\<forall>x. x \<notin> set os \<longrightarrow> gc_heap rt4 x = H x"
        using s1 p(1) by (auto simp: rt4_def rt3_def rt2_def remove_gc_object_def dec_state_def)
      show "counted (set os) g (\<lambda>x. x \<in> insert p V) rt4"
        using c2 by (simp add: counted_def rt4_def rt3_def remove_gc_object_def)
      show "gc_obj_list rt4 = filter (\<lambda>x. \<not> (x \<in> insert p V \<and> g x = 0)) os"
        using s1 os True
        by (auto simp: rt4_def rt3_def rt2_def remove_gc_object_def dec_state_def remove1_filter intro!: filter_cong)
      show "distinct (tmp_obj_list rt4)" using s1 nt by (simp add: tmp dec_state_def)
      show "set (tmp_obj_list rt4) = {x \<in> set os. x \<in> insert p V \<and> g x = 0}"
        using s1 True p by (auto simp: tmp dec_state_def)
      show "gc_zero_ref_count_list rt4 = []" "phase rt4 = GC_PHASE_NONE"
        using s1 by (simp_all add: rt4_def rt3_def rt2_def remove_gc_object_def dec_state_def)
    qed
    with run show ?thesis by (auto simp: g_def)
  next
    case False
    then have run: "gc_decref_one p rt = Some rt2"
      using ob r1 r2 ob1 k by (simp add: gc_decref_one_def rt2_def Let_def)
    have "filter (\<lambda>x. \<not> (x \<in> V \<and> g x = 0)) os = filter (\<lambda>x. \<not> (x \<in> insert p V \<and> g x = 0)) os"
      using False by (intro filter_cong) auto
    moreover have "{x \<in> set os. x \<in> V \<and> g x = 0} = {x \<in> set os. x \<in> insert p V \<and> g x = 0}"
      using False by auto
    ultimately have "dec_state os H B (insert p V) g rt2"
      using s1 c2 b2 p(1) by (auto simp: dec_state_def rt2_def)
    with run show ?thesis by (auto simp: g_def)
  qed
qed

lemma decref_from_state:
  assumes "distinct (vis @ rest)" "dec_state (vis @ rest) H B (set vis) (\<lambda>x. e x + inn (kids_of B) (set rest) x) rt"
    "\<And>q. q \<in> set rest \<Longrightarrow> set (kids_of B q) \<subseteq> set (vis @ rest)"
  shows "\<exists>rt'. gc_decref_from rt (list_first rest) = Some rt' \<and> dec_state (vis @ rest) H B (set (vis @ rest)) e rt'"
  using assms
proof (induction rest arbitrary: vis rt)
  case Nil
  then show ?case by (simp add: gc_decref_from.simps)
next
  case (Cons p rest)
  let ?f = "\<lambda>x. e x + inn (kids_of B) (set (p # rest)) x"
  have d: "p \<notin> set rest" "p \<notin> set vis" using Cons.prems(1) by auto
  have f: "?f x = e x + inn (kids_of B) (set rest) x + count_list (kids_of B p) x" for x using d by simp
  have le: "count_list (kids_of B p) x \<le> ?f x" for x unfolding f by simp
  have "set (kids_of B p) \<subseteq> set (vis @ p # rest)" using Cons.prems(3) [of p] by simp
  from decref_one_state [OF Cons.prems(2,1) _ d(2) this le] obtain rt1 where
    r: "gc_decref_one p rt = Some rt1"
    and s1: "dec_state (vis @ p # rest) H B (insert p (set vis)) (\<lambda>x. ?f x - count_list (kids_of B p) x) rt1"
    by auto
  have "(\<lambda>x. ?f x - count_list (kids_of B p) x) = (\<lambda>x. e x + inn (kids_of B) (set rest) x)"
    unfolding f by simp
  with s1 have s2: "dec_state ((vis @ [p]) @ rest) H B (set (vis @ [p])) (\<lambda>x. e x + inn (kids_of B) (set rest) x) rt1"
    by simp
  have "filter (\<lambda>x. \<not> (x \<in> set vis \<and> ?f x = 0)) (p # rest) = p # rest"
    using Cons.prems(1) by (intro filter_True) auto
  then have "gc_obj_list rt = filter (\<lambda>x. \<not> (x \<in> set vis \<and> ?f x = 0)) vis @ p # rest"
    using Cons.prems(2) unfolding dec_state_def by (metis filter_append)
  then have n: "list_next (gc_obj_list rt) p = list_first rest"
    using d(2) by (simp add: list_next_append)
  have k: "set (kids_of B q) \<subseteq> set ((vis @ [p]) @ rest)" if "q \<in> set rest" for q
    using Cons.prems(3) [of q] that by auto
  have dist: "distinct ((vis @ [p]) @ rest)" using Cons.prems(1) by simp
  from Cons.IH [OF dist s2 k] obtain rt' where
    "gc_decref_from rt1 (list_first rest) = Some rt'" "dec_state ((vis @ [p]) @ rest) H B (set ((vis @ [p]) @ rest)) e rt'"
    by auto
  then show ?case using r n by (subst gc_decref_from.simps) simp
qed

section \<open>Scanning\<close>

definition scan_state :: "addr set \<Rightarrow> (addr \<rightharpoonup> gc_obj) \<Rightarrow> (addr \<rightharpoonup> gc_body) \<Rightarrow> (addr \<Rightarrow> nat) \<Rightarrow> addr set \<Rightarrow> gc_rt \<Rightarrow> bool" where
  "scan_state S H B f V rt = (bodies rt = B \<and> (\<forall>x. x \<notin> S \<longrightarrow> gc_heap rt x = H x) \<and>
     (\<forall>x\<in>S. \<exists>ob. gc_heap rt x = Some ob \<and> ref_count ob = f x \<and> (x \<in> V \<longrightarrow> \<not> gc_mark ob)) \<and>
     distinct (gc_obj_list rt) \<and> set (gc_obj_list rt) = {x \<in> S. f x > 0} \<and>
     distinct (tmp_obj_list rt) \<and> set (tmp_obj_list rt) = {x \<in> S. f x = 0} \<and>
     gc_zero_ref_count_list rt = [] \<and> phase rt = GC_PHASE_NONE)"

lemma incref_child_state:
  assumes s: "scan_state S H B f V rt" and c: "c \<in> S"
  shows "\<exists>rt' ys. gc_scan_incref_child c rt = Some rt' \<and> scan_state S H B (f(c := f c + 1)) V rt' \<and>
    gc_obj_list rt' = gc_obj_list rt @ ys"
proof -
  obtain ob where ob: "gc_heap rt c = Some ob" "ref_count ob = f c" "c \<in> V \<longrightarrow> \<not> gc_mark ob"
    using s c(1) by (auto simp: scan_state_def)
  define rt1 where "rt1 = set_count c ob (f c + 1) rt"
  have b1: "bodies rt1 = B" using s bodies_set_count [OF ob(1)] by (simp add: rt1_def scan_state_def)
  show ?thesis
  proof (cases "f c = 0")
    case True
    define rt2 where "rt2 = remove_gc_object c rt1"
    define rt3 where "rt3 = rt2\<lparr>gc_obj_list := gc_obj_list rt2 @ [c]\<rparr>"
    define rt4 where "rt4 = rt3\<lparr>gc_heap := (gc_heap rt3)(c \<mapsto> ob\<lparr>ref_count := f c + 1, gc_mark := False\<rparr>)\<rparr>"
    have "gc_heap rt3 c = Some (ob\<lparr>ref_count := f c + 1\<rparr>)"
      by (simp add: rt3_def rt2_def rt1_def remove_gc_object_def set_count_def)
    then have "set_mark c False rt3 = Some rt4" by (simp add: set_mark_def rt4_def)
    then have run: "gc_scan_incref_child c rt = Some rt4"
      using ob True by (simp add: gc_scan_incref_child_def rt1_def rt2_def rt3_def Let_def)
    have nl: "c \<notin> set (gc_obj_list rt)" using s True by (simp add: scan_state_def)
    have lst: "gc_obj_list rt4 = gc_obj_list rt @ [c]"
      using nl by (simp add: rt4_def rt3_def rt2_def rt1_def remove_gc_object_def set_count_def remove1_idem)
    have dt: "distinct (tmp_obj_list rt)" using s by (simp add: scan_state_def)
    have tmp: "tmp_obj_list rt4 = filter (\<lambda>x. x \<noteq> c) (tmp_obj_list rt)"
      using remove1_filter [OF dt] by (simp add: rt4_def rt3_def rt2_def rt1_def remove_gc_object_def set_count_def)
    have "scan_state S H B (f(c := f c + 1)) V rt4"
      unfolding scan_state_def lst tmp
    proof (intro conjI)
      show "bodies rt4 = B"
        using s ob(1) by (auto simp: bodies_def rt4_def rt3_def rt2_def rt1_def remove_gc_object_def set_count_def scan_state_def)
      show "\<forall>x. x \<notin> S \<longrightarrow> gc_heap rt4 x = H x"
        using s c by (auto simp: scan_state_def rt4_def rt3_def rt2_def rt1_def remove_gc_object_def set_count_def)
      show "\<forall>x\<in>S. \<exists>ob. gc_heap rt4 x = Some ob \<and> ref_count ob = (f(c := f c + 1)) x \<and> (x \<in> V \<longrightarrow> \<not> gc_mark ob)"
        using s by (auto simp: scan_state_def rt4_def rt3_def rt2_def rt1_def remove_gc_object_def set_count_def)
      show "gc_zero_ref_count_list rt4 = []" "phase rt4 = GC_PHASE_NONE"
        using s by (simp_all add: rt4_def rt3_def rt2_def rt1_def remove_gc_object_def set_count_def scan_state_def)
    qed (use s nl True c in \<open>auto simp: scan_state_def\<close>)
    with run lst show ?thesis by blast
  next
    case False
    then have run: "gc_scan_incref_child c rt = Some rt1"
      using ob by (simp add: gc_scan_incref_child_def rt1_def Let_def)
    have "scan_state S H B (f(c := f c + 1)) V rt1"
      using s ob False b1 c by (auto simp: scan_state_def rt1_def set_count_def)
    moreover have "gc_obj_list rt1 = gc_obj_list rt @ []" by (simp add: rt1_def set_count_def)
    ultimately show ?thesis using run by blast
  qed
qed

lemma incref_children_state:
  assumes "scan_state S H B f V rt" "set cs \<subseteq> S"
  shows "\<exists>rt' ys. mark_each gc_scan_incref_child cs rt = Some rt' \<and>
    scan_state S H B (\<lambda>x. f x + count_list cs x) V rt' \<and> gc_obj_list rt' = gc_obj_list rt @ ys"
  using assms
proof (induction cs arbitrary: rt f)
  case (Cons c cs)
  from incref_child_state [OF Cons.prems(1), of c] Cons.prems(2) obtain rt1 ys where
    r: "gc_scan_incref_child c rt = Some rt1" "scan_state S H B (f(c := f c + 1)) V rt1"
      "gc_obj_list rt1 = gc_obj_list rt @ ys" by auto
  have "(\<lambda>x. (f(c := f c + 1)) x + count_list cs x) = (\<lambda>x. f x + count_list (c # cs) x)"
    by (rule ext) simp
  with Cons.IH [OF r(2)] Cons.prems(2) r(1,3) show ?case by auto
qed auto

lemma scan_one_state:
  assumes s: "scan_state S H B f V rt" and p: "p \<in> S" "f p > 0" and k: "set (kids_of B p) \<subseteq> S"
  shows "\<exists>rt' ys. gc_scan_one p rt = Some rt' \<and>
    scan_state S H B (\<lambda>x. f x + count_list (kids_of B p) x) (insert p V) rt' \<and> gc_obj_list rt' = gc_obj_list rt @ ys"
proof -
  obtain ob where ob: "gc_heap rt p = Some ob" "ref_count ob = f p"
    using s p by (auto simp: scan_state_def)
  define rt1 where "rt1 = rt\<lparr>gc_heap := (gc_heap rt)(p \<mapsto> ob\<lparr>gc_mark := False\<rparr>)\<rparr>"
  have "B p = Some (body ob)" using s ob(1) by (auto simp: scan_state_def bodies_def)
  then have kk: "mark_children (body ob) = kids_of B p" by (simp add: kids_of_def)
  have "bodies rt1 = B" using s ob(1) by (auto simp: scan_state_def bodies_def rt1_def)
  then have "scan_state S H B f (insert p V) rt1" using s ob p(1) by (auto simp: scan_state_def rt1_def)
  from incref_children_state [OF this k] obtain rt' ys where
    "mark_each gc_scan_incref_child (kids_of B p) rt1 = Some rt'"
    "scan_state S H B (\<lambda>x. f x + count_list (kids_of B p) x) (insert p V) rt'" "gc_obj_list rt' = gc_obj_list rt1 @ ys"
    by blast
  moreover have "gc_scan_one p rt = mark_each gc_scan_incref_child (kids_of B p) rt1"
    using ob p(2) by (simp add: gc_scan_one_def set_mark_def rt1_def kk)
  ultimately show ?thesis by (auto simp: rt1_def)
qed

text \<open>The objects that are reachable from one with a reference from outside.\<close>

inductive reach_from :: "(addr \<Rightarrow> addr list) \<Rightarrow> addr set \<Rightarrow> (addr \<Rightarrow> nat) \<Rightarrow> addr \<Rightarrow> bool" for K S e where
  root: "p \<in> S \<Longrightarrow> e p > 0 \<Longrightarrow> reach_from K S e p"
| child: "reach_from K S e p \<Longrightarrow> c \<in> set (K p) \<Longrightarrow> reach_from K S e c"

definition live_set :: "(addr \<Rightarrow> addr list) \<Rightarrow> addr set \<Rightarrow> (addr \<Rightarrow> nat) \<Rightarrow> addr set" where
  "live_set K S e = {p. reach_from K S e p}"

lemma scan_from_state:
  assumes fin: "finite S" and closed: "\<And>q. q \<in> S \<Longrightarrow> set (kids_of B q) \<subseteq> S"
  shows "\<lbrakk>scan_state S H B (\<lambda>x. e x + inn (kids_of B) (set vis) x) (set vis) rt; gc_obj_list rt = vis @ rest;
      \<And>x. x \<in> set (gc_obj_list rt) \<Longrightarrow> reach_from (kids_of B) S e x\<rbrakk> \<Longrightarrow>
    \<exists>rt'. gc_scan_from rt (list_first rest) = Some rt' \<and>
      scan_state S H B (\<lambda>x. e x + inn (kids_of B) (set (gc_obj_list rt')) x) (set (gc_obj_list rt')) rt' \<and>
      (\<forall>x \<in> set (gc_obj_list rt'). reach_from (kids_of B) S e x)"
proof (induction "card S - length vis" arbitrary: vis rest rt rule: less_induct)
  case less
  show ?case
  proof (cases rest)
    case Nil
    then show ?thesis using less.prems by (simp add: gc_scan_from.simps)
  next
    case (Cons p rest1)
    let ?f = "\<lambda>x. e x + inn (kids_of B) (set vis) x"
    have dist: "distinct (vis @ p # rest1)" and set: "set (vis @ p # rest1) = {x \<in> S. ?f x > 0}"
      using less.prems(1,2) Cons by (auto simp: scan_state_def)
    have p: "p \<in> S" "?f p > 0" using set by auto
    from scan_one_state [OF less.prems(1) p closed [OF p(1)]] obtain rt1 ys where
      r: "gc_scan_one p rt = Some rt1"
        "scan_state S H B (\<lambda>x. ?f x + count_list (kids_of B p) x) (insert p (set vis)) rt1"
        "gc_obj_list rt1 = gc_obj_list rt @ ys" by blast
    have "(\<lambda>x. ?f x + count_list (kids_of B p) x) = (\<lambda>x. e x + inn (kids_of B) (set (vis @ [p])) x)"
      using dist by (intro ext) simp
    with r(2) have s1: "scan_state S H B (\<lambda>x. e x + inn (kids_of B) (set (vis @ [p])) x) (set (vis @ [p])) rt1" by simp
    have l1: "gc_obj_list rt1 = (vis @ [p]) @ rest1 @ ys" using r(3) less.prems(2) Cons by simp
    then have n: "list_next (gc_obj_list rt1) p = list_first (rest1 @ ys)"
      using dist by (simp add: list_next_append)
    have reach: "reach_from (kids_of B) S e x" if "x \<in> set (gc_obj_list rt1)" for x
    proof -
      have "x \<in> S" "e x + inn (kids_of B) (set (vis @ [p])) x > 0"
        using s1 that by (auto simp: scan_state_def)
      then consider "e x > 0" | q where "q \<in> set (vis @ [p])" "x \<in> set (kids_of B q)"
        using inn_pos [of "set (vis @ [p])" "kids_of B" x] by auto
      then show ?thesis
      proof cases
        case 1
        then show ?thesis using \<open>x \<in> S\<close> by (rule reach_from.root [rotated])
      next
        case 2
        have "q \<in> set (gc_obj_list rt)" using 2(1) less.prems(2) Cons by auto
        from reach_from.child [OF less.prems(3) [OF this] 2(2)] show ?thesis .
      qed
    qed
    have "length (vis @ [p]) \<le> card S"
      using card_mono [OF fin, of "set (vis @ [p])"] dist set by (auto simp: distinct_card)
    then have "card S - length (vis @ [p]) < card S - length vis" by simp
    from less.hyps [OF this s1 l1 reach] obtain rt' where
      "gc_scan_from rt1 (list_first (rest1 @ ys)) = Some rt'"
      "scan_state S H B (\<lambda>x. e x + inn (kids_of B) (set (gc_obj_list rt')) x) (set (gc_obj_list rt')) rt'"
      "\<forall>x \<in> set (gc_obj_list rt'). reach_from (kids_of B) S e x" by blast
    then show ?thesis using r(1) n Cons by (intro exI [of _ rt']) (subst gc_scan_from.simps, simp)
  qed
qed

lemma live_set_final:
  assumes "finite S" "scan_state S H B (\<lambda>x. e x + inn (kids_of B) (set (gc_obj_list rt)) x) V rt"
    and "\<forall>x \<in> set (gc_obj_list rt). reach_from (kids_of B) S e x"
    and closed: "\<And>q. q \<in> S \<Longrightarrow> set (kids_of B q) \<subseteq> S"
  shows "set (gc_obj_list rt) = live_set (kids_of B) S e"
proof
  show "set (gc_obj_list rt) \<subseteq> live_set (kids_of B) S e" using assms(3) by (auto simp: live_set_def)
  have mem: "x \<in> set (gc_obj_list rt) \<longleftrightarrow> x \<in> S \<and> e x + inn (kids_of B) (set (gc_obj_list rt)) x > 0" for x
    using assms(2) by (auto simp: scan_state_def)
  have "x \<in> set (gc_obj_list rt)" if "reach_from (kids_of B) S e x" for x
    using that
  proof induction
    case (root p)
    then show ?case using mem by simp
  next
    case (child p c)
    then have "inn (kids_of B) (set (gc_obj_list rt)) c > 0" using inn_pos by blast
    moreover have "c \<in> S" using child closed mem by blast
    ultimately show ?case using mem by simp
  qed
  then show "live_set (kids_of B) S e \<subseteq> set (gc_obj_list rt)" by (auto simp: live_set_def)
qed

section \<open>Restoring the counts of the rest\<close>

text \<open>States that differ in the counts only.\<close>

definition rest_state :: "addr set \<Rightarrow> (addr \<Rightarrow> nat) \<Rightarrow> gc_rt \<Rightarrow> gc_rt \<Rightarrow> bool" where
  "rest_state S f rt0 rt = (bodies rt = bodies rt0 \<and> gc_obj_list rt = gc_obj_list rt0 \<and>
     tmp_obj_list rt = tmp_obj_list rt0 \<and> gc_zero_ref_count_list rt = gc_zero_ref_count_list rt0 \<and> phase rt = phase rt0 \<and>
     (\<forall>x. x \<notin> S \<longrightarrow> gc_heap rt x = gc_heap rt0 x) \<and>
     (\<forall>x\<in>S. \<exists>ob ob0. gc_heap rt x = Some ob \<and> gc_heap rt0 x = Some ob0 \<and> ref_count ob = f x \<and> gc_mark ob = gc_mark ob0))"

lemma incref2_children_state:
  assumes "rest_state S f rt0 rt" "set cs \<subseteq> S"
  shows "\<exists>rt'. mark_each gc_scan_incref_child2 cs rt = Some rt' \<and> rest_state S (\<lambda>x. f x + count_list cs x) rt0 rt'"
  using assms
proof (induction cs arbitrary: rt f)
  case (Cons c cs)
  obtain ob where ob: "gc_heap rt c = Some ob" "ref_count ob = f c"
    using Cons.prems by (auto simp: rest_state_def)
  have "rest_state S (f(c := f c + 1)) rt0 (set_count c ob (f c + 1) rt)"
    using Cons.prems ob bodies_set_count [OF ob(1), of "f c + 1"]
    by (auto simp: rest_state_def set_count_def)
  from Cons.IH [OF this] Cons.prems(2) obtain rt' where
    r: "mark_each gc_scan_incref_child2 cs (set_count c ob (f c + 1) rt) = Some rt'"
      "rest_state S (\<lambda>x. (f(c := f c + 1)) x + count_list cs x) rt0 rt'" by auto
  have "(\<lambda>x. (f(c := f c + 1)) x + count_list cs x) = (\<lambda>x. f x + count_list (c # cs) x)"
    by (rule ext) simp
  with r(2) have "rest_state S (\<lambda>x. f x + count_list (c # cs) x) rt0 rt'" by (simp only:)
  moreover have "mark_each gc_scan_incref_child2 (c # cs) rt = Some rt'"
    using r(1) ob by (simp add: gc_scan_incref_child2_def [of c])
  ultimately show ?case by blast
qed auto

lemma restore_state:
  assumes "rest_state S f rt0 rt" "distinct ps" "set ps \<subseteq> S"
    and "\<And>q. q \<in> S \<Longrightarrow> set (kids_of (bodies rt0) q) \<subseteq> S"
  shows "\<exists>rt'. gc_restore ps rt = Some rt' \<and> rest_state S (\<lambda>x. f x + inn (kids_of (bodies rt0)) (set ps) x) rt0 rt'"
  using assms(1-3)
proof (induction ps arbitrary: rt f)
  case (Cons p ps)
  obtain ob where ob: "gc_heap rt p = Some ob" using Cons.prems by (auto simp: rest_state_def)
  have "bodies rt p = Some (body ob)" using ob by (simp add: bodies_def)
  then have "bodies rt0 p = Some (body ob)" using Cons.prems(1) by (simp add: rest_state_def)
  then have k: "mark_children (body ob) = kids_of (bodies rt0) p" by (simp add: kids_of_def)
  have "set (kids_of (bodies rt0) p) \<subseteq> S" using assms(4) Cons.prems(3) by simp
  from incref2_children_state [OF Cons.prems(1) this] obtain rt1 where
    r: "mark_each gc_scan_incref_child2 (kids_of (bodies rt0) p) rt = Some rt1"
      "rest_state S (\<lambda>x. f x + count_list (kids_of (bodies rt0) p) x) rt0 rt1" by blast
  from Cons.IH [OF r(2)] Cons.prems(2,3) obtain rt' where
    r2: "gc_restore ps rt1 = Some rt'"
      "rest_state S (\<lambda>x. f x + count_list (kids_of (bodies rt0) p) x + inn (kids_of (bodies rt0)) (set ps) x) rt0 rt'" by auto
  have "(\<lambda>x. f x + count_list (kids_of (bodies rt0) p) x + inn (kids_of (bodies rt0)) (set ps) x) =
      (\<lambda>x. f x + inn (kids_of (bodies rt0)) (set (p # ps)) x)"
    using Cons.prems(2) by (intro ext) simp
  with r2 show ?case using ob r(1) k by simp
qed auto

section \<open>Both phases\<close>

definition rc :: "gc_rt \<Rightarrow> addr \<Rightarrow> nat" where
  "rc rt p = (case gc_heap rt p of Some ob \<Rightarrow> ref_count ob | None \<Rightarrow> 0)"

text \<open>The references to an object that are not those of the objects on the list.\<close>

definition outside :: "gc_rt \<Rightarrow> addr \<Rightarrow> nat" where
  "outside rt p = rc rt p - inn (kids_of (bodies rt)) (set (gc_obj_list rt)) p"

definition gc_live :: "gc_rt \<Rightarrow> addr set" where
  "gc_live rt = live_set (kids_of (bodies rt)) (set (gc_obj_list rt)) (outside rt)"

text \<open>The kinds of objects that the references of a body lead to.\<close>

fun is_shape :: "gc_body \<Rightarrow> bool" where
  "is_shape (Shape _) = True" | "is_shape _ = False"

fun is_var_ref :: "gc_body \<Rightarrow> bool" where
  "is_var_ref (VarRef _) = True" | "is_var_ref (OpenVarRef _) = True" | "is_var_ref _ = False"

fun is_context :: "gc_body \<Rightarrow> bool" where
  "is_context (Context _ _ _) = True" | "is_context _ = False"

definition refers :: "(addr \<rightharpoonup> gc_body) \<Rightarrow> (gc_body \<Rightarrow> bool) \<Rightarrow> addr \<Rightarrow> bool" where
  "refers B k a = (case B a of Some b \<Rightarrow> k b | None \<Rightarrow> False)"

definition val_ok :: "(addr \<rightharpoonup> gc_body) \<Rightarrow> jsv \<Rightarrow> bool" where
  "val_ok B v = (\<forall>a \<in> set (JS_MarkValue v). refers B (\<lambda>b. \<not> owned_type b) a)"

definition opt_ok :: "(addr \<rightharpoonup> gc_body) \<Rightarrow> (gc_body \<Rightarrow> bool) \<Rightarrow> addr option \<Rightarrow> bool" where
  "opt_ok B k r = (case r of Some a \<Rightarrow> refers B k a | None \<Rightarrow> True)"

fun prop_ok :: "(addr \<rightharpoonup> gc_body) \<Rightarrow> prop_slot \<Rightarrow> bool" where
  "prop_ok B DeletedProp = True"
| "prop_ok B (DataProp v) = val_ok B v"
| "prop_ok B (GetSetProp g s) = (opt_ok B (\<lambda>b. \<not> owned_type b) g \<and> opt_ok B (\<lambda>b. \<not> owned_type b) s)"
| "prop_ok B (VarRefProp a) = refers B is_var_ref a"
| "prop_ok B (AutoInitProp realm) = refers B is_context realm"

fun class_ok :: "(addr \<rightharpoonup> gc_body) \<Rightarrow> class_data \<Rightarrow> bool" where
  "class_ok B PlainObject = True"
| "class_ok B (ArrayData vs) = list_all (val_ok B) vs"
| "class_ok B (ObjectData v) = val_ok B v"
| "class_ok B (CFunction realm) = opt_ok B is_context realm"
| "class_ok B (BytecodeFunction home b var_refs) =
     (opt_ok B (\<lambda>b. \<not> owned_type b) home \<and>
      (case b of None \<Rightarrow> True
       | Some b \<Rightarrow> refers B (\<lambda>b. \<not> owned_type b) b \<and> list_all (opt_ok B is_var_ref) var_refs))"
| "class_ok B (BoundFunction f this args) = (val_ok B f \<and> val_ok B this \<and> list_all (val_ok B) args)"
| "class_ok B (ForInIterator v) = val_ok B v"
| "class_ok B (OtherClass vs) = list_all (val_ok B) vs"

fun body_ok :: "(addr \<rightharpoonup> gc_body) \<Rightarrow> gc_body \<Rightarrow> bool" where
  "body_ok B (JSObject sh props cls w) = (refers B is_shape sh \<and> list_all (prop_ok B) props \<and> class_ok B cls)"
| "body_ok B (FunctionBytecode cpool realm) = (list_all (val_ok B) cpool \<and> opt_ok B is_context realm)"
| "body_ok B (VarRef v) = val_ok B v"
| "body_ok B (OpenVarRef f) = opt_ok B (\<lambda>b. \<not> owned_type b) f"
| "body_ok B (AsyncFunction completed func this stack r0 r1) =
     ((completed \<or> val_ok B func \<and> val_ok B this \<and>
         (case stack of Some vs \<Rightarrow> list_all (val_ok B) vs | None \<Rightarrow> True)) \<and>
      val_ok B r0 \<and> val_ok B r1)"
| "body_ok B (Shape proto) = opt_ok B (\<lambda>b. \<not> owned_type b) proto"
| "body_ok B (Context mods vals shapes) =
     (list_all (refers B (\<lambda>b. \<not> owned_type b)) mods \<and> list_all (val_ok B) vals \<and> list_all (opt_ok B is_shape) shapes)"
| "body_ok B (ModuleDef attrs exports vals) =
     (list_all (val_ok B) attrs \<and> list_all (opt_ok B is_var_ref) exports \<and> list_all (val_ok B) vals)"

text \<open>A function that is running has a stack that the collector does not see.\<close>

fun running :: "gc_body \<Rightarrow> bool" where
  "running (AsyncFunction completed func this stack r0 r1) = (\<not> completed \<and> stack = None)"
| "running _ = False"

text \<open>
  Between two collections: counts that cover the references, references to objects of the
  right kinds only, a reference from outside to every running function, and of the memory
  that is on no list only objects that are kept for their weak references.
\<close>

definition gc_wf :: "gc_rt \<Rightarrow> bool" where
  "gc_wf rt = (distinct (gc_obj_list rt) \<and> gc_zero_ref_count_list rt = [] \<and> phase rt = GC_PHASE_NONE \<and>
     (\<forall>p \<in> set (gc_obj_list rt). \<exists>ob. gc_heap rt p = Some ob \<and> \<not> gc_mark ob \<and> 0 < ref_count ob \<and>
        inn (kids_of (bodies rt)) (set (gc_obj_list rt)) p \<le> ref_count ob \<and>
        set (mark_children (body ob)) \<subseteq> set (gc_obj_list rt) \<and> body_ok (bodies rt) (body ob) \<and>
        (running (body ob) \<longrightarrow> inn (kids_of (bodies rt)) (set (gc_obj_list rt)) p < ref_count ob)) \<and>
     (\<forall>p ob. gc_heap rt p = Some ob \<and> p \<notin> set (gc_obj_list rt) \<longrightarrow> \<not> owned_type (body ob)))"

definition marked_state :: "gc_rt \<Rightarrow> gc_rt \<Rightarrow> bool" where
  "marked_state rt rt' = (bodies rt' = bodies rt \<and>
     distinct (gc_obj_list rt') \<and> set (gc_obj_list rt') = gc_live rt \<and>
     distinct (tmp_obj_list rt') \<and> set (tmp_obj_list rt') = set (gc_obj_list rt) - gc_live rt \<and>
     gc_zero_ref_count_list rt' = [] \<and> phase rt' = GC_PHASE_NONE \<and>
     (\<forall>p \<in> set (gc_obj_list rt). rc rt' p = rc rt p) \<and>
     (\<forall>p. p \<notin> set (gc_obj_list rt) \<longrightarrow> gc_heap rt' p = gc_heap rt p) \<and>
     (\<forall>p \<in> gc_live rt. \<exists>ob. gc_heap rt' p = Some ob \<and> \<not> gc_mark ob))"

lemma gc_wf_kids:
  assumes "gc_wf rt" "q \<in> set (gc_obj_list rt)"
  shows "set (kids_of (bodies rt) q) \<subseteq> set (gc_obj_list rt)"
proof -
  obtain ob where ob: "gc_heap rt q = Some ob" "set (mark_children (body ob)) \<subseteq> set (gc_obj_list rt)"
    using assms by (auto simp: gc_wf_def)
  then show ?thesis by (simp add: kids_of_def bodies_def)
qed

lemma live_in_list: "gc_wf rt \<Longrightarrow> gc_live rt \<subseteq> set (gc_obj_list rt)"
proof -
  assume w: "gc_wf rt"
  have "x \<in> set (gc_obj_list rt)" if "reach_from (kids_of (bodies rt)) (set (gc_obj_list rt)) (outside rt) x" for x
    using that gc_wf_kids [OF w] by induction auto
  then show ?thesis by (auto simp: gc_live_def live_set_def)
qed

lemma split_sets: "X = {x \<in> S. P x} \<Longrightarrow> Y = {x \<in> S. \<not> P x} \<Longrightarrow> Y = S - X"
  by blast

lemma gc_mark_phases:
  assumes w: "gc_wf rt"
  shows "\<exists>rt1 rt2. gc_decref rt = Some rt1 \<and> gc_scan rt1 = Some rt2 \<and> marked_state rt rt2"
proof -
  define os where "os = gc_obj_list rt"
  define B where "B = bodies rt"
  define e where "e = outside rt"
  define H where "H = gc_heap rt"
  define rt0 where "rt0 = rt\<lparr>tmp_obj_list := []\<rparr>"
  have closed: "set (kids_of B q) \<subseteq> set os" if "q \<in> set os" for q
    using gc_wf_kids [OF w] that by (simp add: B_def os_def)
  have sum: "rc rt x = e x + inn (kids_of B) (set os) x" if "x \<in> set os" for x
    using w that by (force simp: gc_wf_def e_def outside_def rc_def B_def os_def)
  have dist: "distinct ([] @ os)" using w by (simp add: gc_wf_def os_def)
  have "counted (set os) (\<lambda>x. e x + inn (kids_of B) (set os) x) (\<lambda>x. x \<in> {}) rt0"
    unfolding counted_def
  proof
    fix x assume x: "x \<in> set os"
    then obtain ob where "gc_heap rt x = Some ob" "\<not> gc_mark ob" using w by (auto simp: gc_wf_def os_def)
    then show "\<exists>ob. gc_heap rt0 x = Some ob \<and> ref_count ob = e x + inn (kids_of B) (set os) x \<and> gc_mark ob = (x \<in> {})"
      using sum [OF x] by (simp add: rt0_def rc_def)
  qed
  then have "dec_state ([] @ os) H B (set []) (\<lambda>x. e x + inn (kids_of B) (set os) x) rt0"
    using w by (simp add: dec_state_def rt0_def B_def os_def gc_wf_def H_def)
  from decref_from_state [OF dist this] closed obtain rt1 where
    r1: "gc_decref_from rt0 (list_first os) = Some rt1" and s1: "dec_state os H B (set os) e rt1" by auto
  have run1: "gc_decref rt = Some rt1" using r1 by (simp add: gc_decref_def rt0_def os_def)
  have sc: "scan_state (set os) H B (\<lambda>x. e x + inn (kids_of B) (set []) x) (set []) rt1"
    using s1 dist by (fastforce simp: scan_state_def dec_state_def counted_def)
  have reach: "reach_from (kids_of B) (set os) e x" if "x \<in> set (gc_obj_list rt1)" for x
    using that s1 by (auto simp: dec_state_def intro: reach_from.root)
  from scan_from_state [OF finite_set closed sc _ reach, of "gc_obj_list rt1"] obtain rt2 where
    r2: "gc_scan_from rt1 (list_first (gc_obj_list rt1)) = Some rt2" and
    s2: "scan_state (set os) H B (\<lambda>x. e x + inn (kids_of B) (set (gc_obj_list rt2)) x) (set (gc_obj_list rt2)) rt2" and
    l2: "\<forall>x \<in> set (gc_obj_list rt2). reach_from (kids_of B) (set os) e x" by auto
  have live: "set (gc_obj_list rt2) = gc_live rt"
    using live_set_final [OF finite_set s2 l2 closed] by (simp add: gc_live_def B_def os_def e_def)
  have b2: "bodies rt2 = B" using s2 by (simp add: scan_state_def)
  let ?f = "\<lambda>x. e x + inn (kids_of B) (set (gc_obj_list rt2)) x"
  have sets: "set (gc_obj_list rt2) = {x \<in> set os. ?f x > 0}" "set (tmp_obj_list rt2) = {x \<in> set os. ?f x = 0}"
    using s2 by (simp_all only: scan_state_def)
  from sets(2) have "set (tmp_obj_list rt2) = {x \<in> set os. \<not> ?f x > 0}" by (simp only: not_gr_zero)
  from split_sets [OF sets(1) this] have "set (tmp_obj_list rt2) = set os - set (gc_obj_list rt2)" .
  then have tmp: "set (tmp_obj_list rt2) = set os - gc_live rt" by (simp only: live)
  have dtmp: "distinct (tmp_obj_list rt2)" using s2 by (simp add: scan_state_def)
  have "rest_state (set os) (\<lambda>x. e x + inn (kids_of B) (gc_live rt) x) rt2 rt2"
    using s2 live by (fastforce simp: rest_state_def scan_state_def)
  from restore_state [OF this dtmp] tmp closed obtain rt3 where
    r3: "gc_restore (tmp_obj_list rt2) rt2 = Some rt3" and
    s3: "rest_state (set os) (\<lambda>x. e x + inn (kids_of B) (gc_live rt) x + inn (kids_of B) (set os - gc_live rt) x) rt2 rt3"
    by (auto simp: b2)
  have all: "inn (kids_of B) (gc_live rt) x + inn (kids_of B) (set os - gc_live rt) x = inn (kids_of B) (set os) x" for x
  proof -
    have "gc_live rt \<union> (set os - gc_live rt) = set os" using live_in_list [OF w] by (auto simp: os_def)
    then show ?thesis
      using inn_union [of "gc_live rt" "set os - gc_live rt" "kids_of B" x] live by (metis Diff_disjoint List.finite_set finite_Diff)
  qed
  define g where "g = (\<lambda>x. e x + inn (kids_of B) (gc_live rt) x + inn (kids_of B) (set os - gc_live rt) x)"
  have s4: "rest_state (set os) g rt2 rt3" using s3 by (simp only: g_def)
  have count: "rc rt3 x = rc rt x" if "x \<in> set os" for x
  proof -
    have "rc rt3 x = g x" using s4 that by (auto simp: rest_state_def rc_def)
    then show ?thesis using sum [OF that] all [of x] by (simp add: g_def)
  qed
  have marks: "\<exists>ob. gc_heap rt3 p = Some ob \<and> \<not> gc_mark ob" if "p \<in> gc_live rt" for p
  proof -
    have "p \<in> set os" using that live_in_list [OF w] by (auto simp: os_def)
    then show ?thesis using s2 s4 that live by (fastforce simp: rest_state_def scan_state_def)
  qed
  have frame: "\<forall>x. x \<notin> set os \<longrightarrow> gc_heap rt3 x = gc_heap rt x"
    using s4 s2 by (simp add: rest_state_def scan_state_def H_def)
  have "marked_state rt rt3"
    using s4 s2 frame b2 live tmp dtmp count marks
    by (simp add: marked_state_def rest_state_def scan_state_def B_def os_def)
  moreover have "gc_scan rt1 = Some rt3" using r2 r3 by (simp add: gc_scan_def)
  ultimately show ?thesis using run1 by blast
qed

end
