(* ===== verification/Gc_Free.thy ===== *)
theory Gc_Free
  imports Gc_Mark
begin

text \<open>
  The last phase of the collector.  The functions that free an object release its references
  one after the other; \<open>release_all\<close> is the common form of them.  The invariant \<open>cyc\<close> says
  what holds between two releases: \<open>U\<close> are the objects whose references are all still held,
  \<open>P\<close> those that are being freed, and \<open>w\<close> counts the references of \<open>P\<close> yet to be released.
\<close>

section \<open>Releasing a list of references\<close>

datatype rel = RVal jsv | RAsync addr | RShape addr | RVar addr | RCtx addr

fun rel_addrs :: "rel \<Rightarrow> addr list" where
  "rel_addrs (RVal v) = JS_MarkValue v"
| "rel_addrs (RAsync a) = [a]"
| "rel_addrs (RShape a) = [a]"
| "rel_addrs (RVar a) = [a]"
| "rel_addrs (RCtx a) = [a]"

fun release :: "rel \<Rightarrow> gc_rt \<Rightarrow> gc_rt option" where
  "release (RVal v) rt = free_value_nested v rt"
| "release (RAsync a) rt = async_func_free a rt"
| "release (RShape a) rt = js_free_shape a rt"
| "release (RVar a) rt = free_var_ref (Some a) rt"
| "release (RCtx a) rt = JS_FreeContext a rt"

fun release_all :: "rel list \<Rightarrow> gc_rt \<Rightarrow> gc_rt option" where
  "release_all [] rt = Some rt"
| "release_all (r # rs) rt = Option.bind (release r rt) (release_all rs)"

lemma release_all_append:
  "release_all (rs @ ss) rt = Option.bind (release_all rs rt) (release_all ss)"
  by (induction rs arbitrary: rt) (auto split: Option.bind_split)

definition opt_rel :: "(addr \<Rightarrow> rel) \<Rightarrow> addr option \<Rightarrow> rel list" where
  "opt_rel k r = (case r of Some a \<Rightarrow> [k a] | None \<Rightarrow> [])"

abbreviation RRef :: "addr \<Rightarrow> rel" where
  "RRef a \<equiv> RVal (JRef a)"

fun prop_refs :: "prop_slot \<Rightarrow> rel list" where
  "prop_refs DeletedProp = []"
| "prop_refs (DataProp v) = [RVal v]"
| "prop_refs (GetSetProp g s) = opt_rel RRef g @ opt_rel RRef s"
| "prop_refs (VarRefProp a) = [RVar a]"
| "prop_refs (AutoInitProp realm) = [RCtx realm]"

fun class_refs :: "class_data \<Rightarrow> rel list" where
  "class_refs PlainObject = []"
| "class_refs (ArrayData vs) = map RVal vs"
| "class_refs (ObjectData v) = [RVal v]"
| "class_refs (CFunction realm) = opt_rel RCtx realm"
| "class_refs (BytecodeFunction home b var_refs) = opt_rel RRef home @
     (case b of None \<Rightarrow> [] | Some b \<Rightarrow> concat (map (opt_rel RVar) var_refs) @ [RRef b])"
| "class_refs (BoundFunction f this args) = RVal f # RVal this # map RVal args"
| "class_refs (ForInIterator v) = [RVal v]"
| "class_refs (OtherClass vs) = map RVal vs"

text \<open>The references of a body, in the order in which they are released.\<close>

fun body_refs :: "gc_body \<Rightarrow> rel list" where
  "body_refs (JSObject sh props cls w) = concat (map prop_refs props) @ [RShape sh] @ class_refs cls"
| "body_refs (FunctionBytecode cpool realm) = map RVal cpool @ opt_rel RCtx realm"
| "body_refs (VarRef v) = [RVal v]"
| "body_refs (OpenVarRef f) = opt_rel RAsync f"
| "body_refs (AsyncFunction completed func this stack r0 r1) =
     (if completed then [] else (case stack of Some vs \<Rightarrow> map RVal vs | None \<Rightarrow> []) @ [RVal func, RVal this]) @
     [RVal r0, RVal r1]"
| "body_refs (Shape proto) = opt_rel RRef proto"
| "body_refs (Context mods vals shapes) = map RRef mods @ map RVal vals @ concat (map (opt_rel RShape) shapes)"
| "body_refs (ModuleDef attrs exports vals) = map RVal attrs @ concat (map (opt_rel RVar) exports) @ map RVal vals"

lemma bind_release_Nil [simp]: "Option.bind r (release_all []) = r"
  by (cases r) simp_all

lemma free_values_release: "free_values vs rt = release_all (map RVal vs) rt"
  by (induction vs arbitrary: rt) (auto split: Option.bind_split)

lemma free_shapes_release: "free_shapes ss rt = release_all (concat (map (opt_rel RShape) ss)) rt"
  by (induction ss arbitrary: rt) (auto simp: release_all_append opt_rel_def split: option.split Option.bind_split)

lemma free_var_refs_release: "free_var_refs rs rt = release_all (concat (map (opt_rel RVar) rs)) rt"
  by (induction rs arbitrary: rt)
    (auto simp: release_all_append opt_rel_def free_var_ref_def [of None] split: option.split Option.bind_split)

lemma opt_value_release:
  "(case r of Some a \<Rightarrow> free_value_nested (JRef a) rt | None \<Rightarrow> Some rt) = release_all (opt_rel RRef r) rt"
  by (simp add: opt_rel_def split: option.split)

lemma free_realm_release: "free_realm r rt = release_all (opt_rel RCtx r) rt"
  by (simp add: free_realm_def opt_rel_def split: option.split)

lemma free_property_release: "free_property pr rt = release_all (prop_refs pr) rt"
  by (cases pr) (simp_all add: release_all_append opt_value_release)

lemma free_properties_release: "free_properties prs rt = release_all (concat (map prop_refs prs)) rt"
  by (induction prs arbitrary: rt) (auto simp: release_all_append free_property_release split: Option.bind_split)

lemma class_finalizer_release: "class_finalizer cls rt = release_all (class_refs cls) rt"
  by (cases cls)
    (auto simp: free_values_release free_realm_release opt_value_release free_var_refs_release release_all_append
      split: option.split Option.bind_split)

text \<open>Marking and freeing agree: a body releases exactly the references that are marked.\<close>

definition rels_count :: "rel list \<Rightarrow> addr \<Rightarrow> nat" where
  "rels_count rs x = count_list (concat (map rel_addrs rs)) x"

lemma rels_count_simps [simp]:
  "rels_count [] x = 0"
  "rels_count (r # rs) x = count_list (rel_addrs r) x + rels_count rs x"
  "rels_count (rs @ ss) x = rels_count rs x + rels_count ss x"
  by (simp_all add: rels_count_def)

lemma rels_count_opt: "(\<And>a. rel_addrs (k a) = [a]) \<Longrightarrow>
    rels_count (opt_rel k r) x = count_list (case r of Some a \<Rightarrow> [a] | None \<Rightarrow> []) x"
  by (simp add: opt_rel_def split: option.split)

lemma rels_count_vals: "rels_count (map RVal vs) x = count_list (concat (map JS_MarkValue vs)) x"
  by (induction vs) simp_all

lemma rels_count_refs: "rels_count (map RRef as) x = count_list as x"
  by (induction as) simp_all

lemma rels_count_opts: "(\<And>a. rel_addrs (k a) = [a]) \<Longrightarrow>
    rels_count (concat (map (opt_rel k) rs)) x = count_list (concat (map (\<lambda>r. case r of Some a \<Rightarrow> [a] | None \<Rightarrow> []) rs)) x"
  by (induction rs) (simp_all add: rels_count_opt)

lemmas rels_counts = rels_count_opt rels_count_vals rels_count_refs rels_count_opts

lemma rels_count_prop: "rels_count (prop_refs pr) x = count_list (mark_prop pr) x"
  by (cases pr) (simp_all add: rels_counts)

lemma rels_count_props: "rels_count (concat (map prop_refs prs)) x = count_list (concat (map mark_prop prs)) x"
  by (induction prs) (simp_all add: rels_count_prop)

lemma rels_count_class: "rels_count (class_refs cls) x = count_list (class_mark cls) x"
  by (cases cls) (auto simp: rels_counts split: option.split)

lemma rels_count_body: "\<not> running b \<Longrightarrow> rels_count (body_refs b) x = count_list (mark_children b) x"
  by (cases b)
    (auto simp: rels_counts rels_count_props rels_count_class JS_MarkContext_def js_mark_module_def_def split: option.split)

section \<open>The invariant\<close>

definition own :: "gc_rt \<Rightarrow> addr \<Rightarrow> bool" where
  "own rt0 = refers (bodies rt0) owned_type"

definition dead :: "gc_rt \<Rightarrow> addr set" where
  "dead rt0 = set (gc_obj_list rt0) - gc_live rt0"

definition weak :: "gc_rt \<Rightarrow> addr \<Rightarrow> nat" where
  "weak rt0 x = (case bodies rt0 x of Some b \<Rightarrow> weakrefs b | None \<Rightarrow> 0)"

text \<open>A context may have lost modules.\<close>

definition body_le :: "gc_body \<Rightarrow> gc_body \<Rightarrow> bool" where
  "body_le b b0 = (b = b0 \<or> (\<exists>mods mods0 vals shapes.
     b = Context mods vals shapes \<and> b0 = Context mods0 vals shapes \<and> set mods \<subseteq> set mods0))"

abbreviation kids :: "gc_rt \<Rightarrow> addr \<Rightarrow> addr list" where
  "kids rt \<equiv> kids_of (bodies rt)"

definition cyc :: "gc_rt \<Rightarrow> addr set \<Rightarrow> addr set \<Rightarrow> addr set \<Rightarrow> (addr \<Rightarrow> nat) \<Rightarrow> gc_rt \<Rightarrow> bool" where
  "cyc rt0 N U P w rt = (
     phase rt = GC_PHASE_REMOVE_CYCLES \<and>
     gc_live rt0 \<subseteq> U \<and> U \<subseteq> set (gc_obj_list rt0) \<and> P \<subseteq> dead rt0 \<and> P \<inter> U = {} \<and>
     (\<forall>x\<in>U. \<exists>ob. gc_heap rt x = Some ob \<and> ref_count ob = outside rt0 x + inn (kids rt) U x + w x \<and>
        (own rt0 x \<and> x \<notin> N \<longrightarrow> 0 < ref_count ob)) \<and>
     (\<forall>x\<in>gc_live rt0. \<exists>ob. gc_heap rt x = Some ob \<and> bodies rt0 x = Some (body ob) \<and> \<not> gc_mark ob) \<and>
     (\<forall>x\<in>P. \<exists>ob. gc_heap rt x = Some ob \<and> inn (kids rt) U x + w x \<le> ref_count ob) \<and>
     (\<forall>x\<in>dead rt0 - U - P. case gc_heap rt x of
          None \<Rightarrow> inn (kids rt) U x + w x = 0 \<and> weak rt0 x = 0
        | Some ob \<Rightarrow> inn (kids rt) U x + w x \<le> ref_count ob \<and> \<not> own rt0 x \<and> x \<in> set (gc_zero_ref_count_list rt)) \<and>
     (\<forall>x\<in>set (gc_obj_list rt0). \<forall>ob. gc_heap rt x = Some ob \<longrightarrow> (\<exists>b0. bodies rt0 x = Some b0 \<and> body_le (body ob) b0)) \<and>
     (\<forall>x. x \<notin> set (gc_obj_list rt0) \<longrightarrow> gc_heap rt x = gc_heap rt0 x) \<and>
     distinct (gc_obj_list rt) \<and> set (gc_obj_list rt) = gc_live rt0 \<and>
     distinct (tmp_obj_list rt @ gc_zero_ref_count_list rt) \<and>
     set (tmp_obj_list rt) \<union> set (gc_zero_ref_count_list rt) = {x \<in> dead rt0. gc_heap rt x \<noteq> None} \<and>
     set (tmp_obj_list rt) \<subseteq> U \<union> P \<and>
     (\<forall>x\<in>set (gc_zero_ref_count_list rt). own rt0 x \<or> x \<notin> U \<union> P))"

lemma cyc_unreleased:
  assumes "cyc rt0 N U P w rt" "x \<in> U"
  shows "\<exists>ob. gc_heap rt x = Some ob \<and> ref_count ob = outside rt0 x + inn (kids rt) U x + w x \<and>
    (own rt0 x \<and> x \<notin> N \<longrightarrow> 0 < ref_count ob)"
  using assms unfolding cyc_def by (elim conjE) (erule (1) bspec)

lemma cyc_live:
  assumes "cyc rt0 N U P w rt" "x \<in> gc_live rt0"
  shows "\<exists>ob. gc_heap rt x = Some ob \<and> bodies rt0 x = Some (body ob) \<and> \<not> gc_mark ob"
  using assms unfolding cyc_def by (elim conjE) (erule (1) bspec)

lemma cyc_progress:
  assumes "cyc rt0 N U P w rt" "x \<in> P"
  shows "\<exists>ob. gc_heap rt x = Some ob \<and> inn (kids rt) U x + w x \<le> ref_count ob"
  using assms unfolding cyc_def by (elim conjE) (erule (1) bspec)

lemma cyc_released:
  assumes "cyc rt0 N U P w rt" "x \<in> dead rt0 - U - P"
  shows "case gc_heap rt x of None \<Rightarrow> inn (kids rt) U x + w x = 0 \<and> weak rt0 x = 0
    | Some ob \<Rightarrow> inn (kids rt) U x + w x \<le> ref_count ob \<and> \<not> own rt0 x \<and> x \<in> set (gc_zero_ref_count_list rt)"
  using assms unfolding cyc_def by (elim conjE) (erule (1) bspec)

lemma cyc_body:
  assumes "cyc rt0 N U P w rt" "x \<in> set (gc_obj_list rt0)" "gc_heap rt x = Some ob"
  shows "\<exists>b0. bodies rt0 x = Some b0 \<and> body_le (body ob) b0"
  using assms unfolding cyc_def by (elim conjE) blast

lemma cyc_sets:
  assumes "cyc rt0 N U P w rt"
  shows "gc_live rt0 \<subseteq> U" "U \<subseteq> set (gc_obj_list rt0)" "P \<subseteq> dead rt0" "P \<inter> U = {}"
    "phase rt = GC_PHASE_REMOVE_CYCLES"
  using assms by (simp_all add: cyc_def)

lemma cyc_lists:
  assumes "cyc rt0 N U P w rt"
  shows "distinct (gc_obj_list rt)" "set (gc_obj_list rt) = gc_live rt0"
    "distinct (tmp_obj_list rt @ gc_zero_ref_count_list rt)"
    "set (tmp_obj_list rt) \<union> set (gc_zero_ref_count_list rt) = {x \<in> dead rt0. gc_heap rt x \<noteq> None}"
    "set (tmp_obj_list rt) \<subseteq> U \<union> P"
    "\<forall>x\<in>set (gc_zero_ref_count_list rt). own rt0 x \<or> x \<notin> U \<union> P"
    "\<forall>x. x \<notin> set (gc_obj_list rt0) \<longrightarrow> gc_heap rt x = gc_heap rt0 x"
  using assms unfolding cyc_def by - (elim conjE, assumption)+

lemma finite_U: "cyc rt0 N U P w rt \<Longrightarrow> finite U"
  by (rule finite_subset [OF cyc_sets(2)]) simp_all

lemma cyc_count:
  assumes c: "cyc rt0 N U P w rt" and a: "a \<in> set (gc_obj_list rt0)" "0 < w a"
  shows "\<exists>ob. gc_heap rt a = Some ob \<and> w a \<le> ref_count ob"
proof -
  consider "a \<in> U" | "a \<in> P" | "a \<in> dead rt0 - U - P"
    using cyc_sets(1) [OF c] a(1) by (auto simp: dead_def)
  then show ?thesis
  proof cases
    case 1
    from cyc_unreleased [OF c this] show ?thesis by force
  next
    case 2
    from cyc_progress [OF c this] show ?thesis by force
  next
    case 3
    from cyc_released [OF c this] show ?thesis using a(2) by (auto split: option.splits)
  qed
qed

definition one :: "addr \<Rightarrow> addr \<Rightarrow> nat" where
  "one a x = (if x = a then 1 else 0)"

lemma count_list_single [simp]: "count_list [a] x = one a x"
  by (simp add: one_def)

text \<open>One reference less.\<close>

lemma cyc_dec:
  assumes c: "cyc rt0 {} U P (\<lambda>x. one a x + w x) rt" and a: "a \<in> set (gc_obj_list rt0)"
  shows "\<exists>ob. gc_heap rt a = Some ob \<and> 0 < ref_count ob \<and>
    cyc rt0 {a} U P w (set_count a ob (ref_count ob - 1) rt) \<and>
    (own rt0 a \<longrightarrow> 0 < ref_count ob - 1 \<longrightarrow> cyc rt0 {} U P w (set_count a ob (ref_count ob - 1) rt)) \<and>
    (\<not> own rt0 a \<longrightarrow> cyc rt0 {} U P w (set_count a ob (ref_count ob - 1) rt))"
proof -
  have "0 < one a a + w a" by (simp add: one_def)
  from cyc_count [OF c a this] obtain ob where ob: "gc_heap rt a = Some ob" "one a a + w a \<le> ref_count ob" by blast
  define rt1 where "rt1 = set_count a ob (ref_count ob - 1) rt"
  have pos: "0 < ref_count ob" using ob(2) by (simp add: one_def)
  have b: "bodies rt1 = bodies rt" unfolding rt1_def by (rule bodies_set_count [OF ob(1)])
  have h: "gc_heap rt1 x = (if x = a then Some (ob\<lparr>ref_count := ref_count ob - 1\<rparr>) else gc_heap rt x)" for x
    by (simp add: rt1_def set_count_def)
  have lists: "gc_obj_list rt1 = gc_obj_list rt" "tmp_obj_list rt1 = tmp_obj_list rt"
    "gc_zero_ref_count_list rt1 = gc_zero_ref_count_list rt" "phase rt1 = phase rt"
    by (simp_all add: rt1_def set_count_def)
  have gen: "cyc rt0 N U P w rt1" if n: "\<And>x. x \<in> U \<Longrightarrow> own rt0 x \<Longrightarrow> x \<notin> N \<Longrightarrow> x = a \<Longrightarrow> 0 < ref_count ob - 1" for N
    unfolding cyc_def lists b
  proof (intro conjI)
    show "\<forall>x\<in>U. \<exists>ob. gc_heap rt1 x = Some ob \<and> ref_count ob = outside rt0 x + inn (kids rt) U x + w x \<and>
        (own rt0 x \<and> x \<notin> N \<longrightarrow> 0 < ref_count ob)"
    proof
      fix x assume x: "x \<in> U"
      from cyc_unreleased [OF c this] obtain o1 where o1: "gc_heap rt x = Some o1"
          "ref_count o1 = outside rt0 x + inn (kids rt) U x + (one a x + w x)" "own rt0 x \<longrightarrow> 0 < ref_count o1" by auto
      show "\<exists>ob. gc_heap rt1 x = Some ob \<and> ref_count ob = outside rt0 x + inn (kids rt) U x + w x \<and>
        (own rt0 x \<and> x \<notin> N \<longrightarrow> 0 < ref_count ob)"
        using o1 ob n [OF x] by (cases "x = a") (auto simp: h one_def)
    qed
    show "\<forall>x\<in>gc_live rt0. \<exists>ob. gc_heap rt1 x = Some ob \<and> bodies rt0 x = Some (body ob) \<and> \<not> gc_mark ob"
      using cyc_live [OF c] ob(1) by (force simp: h)
    show "\<forall>x\<in>P. \<exists>ob. gc_heap rt1 x = Some ob \<and> inn (kids rt) U x + w x \<le> ref_count ob"
    proof
      fix x assume x: "x \<in> P"
      from cyc_progress [OF c this] obtain o1 where
        "gc_heap rt x = Some o1" "inn (kids rt) U x + (one a x + w x) \<le> ref_count o1" by blast
      then show "\<exists>ob. gc_heap rt1 x = Some ob \<and> inn (kids rt) U x + w x \<le> ref_count ob"
        using ob(1) by (cases "x = a") (auto simp: h one_def)
    qed
    show "\<forall>x\<in>dead rt0 - U - P. case gc_heap rt1 x of None \<Rightarrow> inn (kids rt) U x + w x = 0 \<and> weak rt0 x = 0
        | Some ob \<Rightarrow> inn (kids rt) U x + w x \<le> ref_count ob \<and> \<not> own rt0 x \<and> x \<in> set (gc_zero_ref_count_list rt)"
    proof
      fix x assume x: "x \<in> dead rt0 - U - P"
      from cyc_released [OF c this] show "case gc_heap rt1 x of None \<Rightarrow> inn (kids rt) U x + w x = 0 \<and> weak rt0 x = 0
        | Some ob \<Rightarrow> inn (kids rt) U x + w x \<le> ref_count ob \<and> \<not> own rt0 x \<and> x \<in> set (gc_zero_ref_count_list rt)"
        using ob(1) by (cases "x = a") (auto simp: h one_def split: option.splits)
    qed
    show "\<forall>x\<in>set (gc_obj_list rt0). \<forall>ob. gc_heap rt1 x = Some ob \<longrightarrow> (\<exists>b0. bodies rt0 x = Some b0 \<and> body_le (body ob) b0)"
      using cyc_body [OF c] ob(1) by (auto simp: h)
    show "\<forall>x. x \<notin> set (gc_obj_list rt0) \<longrightarrow> gc_heap rt1 x = gc_heap rt0 x"
      using cyc_lists(7) [OF c] a by (auto simp: h)
    show "set (tmp_obj_list rt) \<union> set (gc_zero_ref_count_list rt) = {x \<in> dead rt0. gc_heap rt1 x \<noteq> None}"
      using cyc_lists(4) [OF c] ob(1) by (auto simp: h)
  qed (use cyc_sets [OF c] cyc_lists [OF c] in simp_all)
  show ?thesis
    using ob(1) pos gen [of "{a}"] gen [of "{}"] by (auto simp: rt1_def)
qed

section \<open>Freeing an object\<close>

lemma inn_remove: "finite U \<Longrightarrow> a \<in> U \<Longrightarrow> inn K U x = count_list (K a) x + inn K (U - {a}) x"
  by (simp add: inn_def sum.remove)

lemma inn_cong: "(\<And>q. q \<in> Q \<Longrightarrow> K q = K1 q) \<Longrightarrow> inn K Q x = inn K1 Q x"
  by (simp add: inn_def)

lemma inn_mono: "finite Q \<Longrightarrow> Q1 \<subseteq> Q \<Longrightarrow> (\<And>q. q \<in> Q1 \<Longrightarrow> count_list (K1 q) x \<le> count_list (K q) x) \<Longrightarrow> inn K1 Q1 x \<le> inn K Q x"
  unfolding inn_def
  by (rule order_trans [OF sum_mono sum_mono2]) auto

text \<open>All references of an object become references to be released.\<close>

lemma cyc_begin:
  assumes c: "cyc rt0 N U P w rt" and N: "N \<subseteq> {a}" and a: "a \<in> U" "a \<in> dead rt0" and e: "outside rt0 a = 0"
  shows "cyc rt0 {} (U - {a}) (insert a P) (\<lambda>x. count_list (kids rt a) x + w x) rt"
proof -
  let ?w = "\<lambda>x. count_list (kids rt a) x + w x"
  have in_eq: "inn (kids rt) U x + w x = inn (kids rt) (U - {a}) x + ?w x" for x
    using inn_remove [OF finite_U [OF c] a(1)] by simp
  have live: "gc_live rt0 \<subseteq> U - {a}" using cyc_sets(1) [OF c] a(2) by (auto simp: dead_def)
  show ?thesis
    unfolding cyc_def
  proof (intro conjI)
    show "\<forall>x\<in>U - {a}. \<exists>ob. gc_heap rt x = Some ob \<and>
        ref_count ob = outside rt0 x + inn (kids rt) (U - {a}) x + ?w x \<and> (own rt0 x \<and> x \<notin> {} \<longrightarrow> 0 < ref_count ob)"
      using cyc_unreleased [OF c] in_eq N by (fastforce simp: add.assoc)
    show "\<forall>x\<in>gc_live rt0. \<exists>ob. gc_heap rt x = Some ob \<and> bodies rt0 x = Some (body ob) \<and> \<not> gc_mark ob"
      using cyc_live [OF c] by blast
    show "\<forall>x\<in>insert a P. \<exists>ob. gc_heap rt x = Some ob \<and> inn (kids rt) (U - {a}) x + ?w x \<le> ref_count ob"
      using cyc_progress [OF c] cyc_unreleased [OF c a(1)] in_eq e by fastforce
    show "\<forall>x\<in>dead rt0 - (U - {a}) - insert a P. case gc_heap rt x of None \<Rightarrow> inn (kids rt) (U - {a}) x + ?w x = 0 \<and> weak rt0 x = 0
        | Some ob \<Rightarrow> inn (kids rt) (U - {a}) x + ?w x \<le> ref_count ob \<and> \<not> own rt0 x \<and> x \<in> set (gc_zero_ref_count_list rt)"
    proof
      fix x assume "x \<in> dead rt0 - (U - {a}) - insert a P"
      then have "x \<in> dead rt0 - U - P" by auto
      from cyc_released [OF c this] show "case gc_heap rt x of None \<Rightarrow> inn (kids rt) (U - {a}) x + ?w x = 0 \<and> weak rt0 x = 0
        | Some ob \<Rightarrow> inn (kids rt) (U - {a}) x + ?w x \<le> ref_count ob \<and> \<not> own rt0 x \<and> x \<in> set (gc_zero_ref_count_list rt)"
        unfolding in_eq .
    qed
    show "\<forall>x\<in>set (gc_obj_list rt0). \<forall>ob. gc_heap rt x = Some ob \<longrightarrow> (\<exists>b0. bodies rt0 x = Some b0 \<and> body_le (body ob) b0)"
      using cyc_body [OF c] by blast
    show "set (tmp_obj_list rt) \<subseteq> U - {a} \<union> insert a P" using cyc_lists(5) [OF c] by auto
    show "\<forall>x\<in>set (gc_zero_ref_count_list rt). own rt0 x \<or> x \<notin> U - {a} \<union> insert a P"
      using cyc_lists(6) [OF c] a(1) by auto
  qed (use cyc_sets [OF c] live a(2) cyc_lists [OF c] in auto)
qed

text \<open>The end of the freeing of an object: its memory goes, or is kept on the list.\<close>

lemma cyc_end_free:
  assumes c: "cyc rt0 {} U P w rt" and a: "a \<in> P" and z: "inn (kids rt) U a + w a = 0" "weak rt0 a = 0"
  shows "cyc rt0 {} U (P - {a}) w (js_free_rt_gc a (remove_gc_object a rt))"
proof -
  define rt1 where "rt1 = js_free_rt_gc a (remove_gc_object a rt)"
  have ad: "a \<in> dead rt0" "a \<notin> U" using cyc_sets(3,4) [OF c] a by auto
  have h: "gc_heap rt1 x = (if x = a then None else gc_heap rt x)" for x
    by (simp add: rt1_def js_free_rt_gc_def remove_gc_object_def)
  have k: "inn (kids rt1) U x = inn (kids rt) U x" for x
    using ad(2) by (intro inn_cong) (auto simp: kids_of_def bodies_def h)
  have lists: "gc_obj_list rt1 = gc_obj_list rt" "tmp_obj_list rt1 = filter (\<lambda>x. x \<noteq> a) (tmp_obj_list rt)"
    "gc_zero_ref_count_list rt1 = filter (\<lambda>x. x \<noteq> a) (gc_zero_ref_count_list rt)" "phase rt1 = phase rt"
  proof -
    have "a \<notin> set (gc_obj_list rt)" using ad(1) cyc_lists(2) [OF c] by (simp add: dead_def)
    then show "gc_obj_list rt1 = gc_obj_list rt"
      by (simp add: rt1_def js_free_rt_gc_def remove_gc_object_def remove1_idem)
    have "distinct (tmp_obj_list rt)" "distinct (gc_zero_ref_count_list rt)" using cyc_lists(3) [OF c] by simp_all
    then show "tmp_obj_list rt1 = filter (\<lambda>x. x \<noteq> a) (tmp_obj_list rt)"
      "gc_zero_ref_count_list rt1 = filter (\<lambda>x. x \<noteq> a) (gc_zero_ref_count_list rt)"
      by (simp_all add: rt1_def js_free_rt_gc_def remove_gc_object_def remove1_filter)
    show "phase rt1 = phase rt" by (simp add: rt1_def js_free_rt_gc_def remove_gc_object_def)
  qed
  have "cyc rt0 {} U (P - {a}) w rt1"
    unfolding cyc_def k lists
  proof (intro conjI)
    show "\<forall>x\<in>U. \<exists>ob. gc_heap rt1 x = Some ob \<and> ref_count ob = outside rt0 x + inn (kids rt) U x + w x \<and>
        (own rt0 x \<and> x \<notin> {} \<longrightarrow> 0 < ref_count ob)"
      using cyc_unreleased [OF c] ad(2) by (auto simp: h)
    show "\<forall>x\<in>gc_live rt0. \<exists>ob. gc_heap rt1 x = Some ob \<and> bodies rt0 x = Some (body ob) \<and> \<not> gc_mark ob"
      using cyc_live [OF c] ad(1) by (auto simp: h dead_def)
    show "\<forall>x\<in>P - {a}. \<exists>ob. gc_heap rt1 x = Some ob \<and> inn (kids rt) U x + w x \<le> ref_count ob"
      using cyc_progress [OF c] by (auto simp: h)
    show "\<forall>x\<in>dead rt0 - U - (P - {a}). case gc_heap rt1 x of None \<Rightarrow> inn (kids rt) U x + w x = 0 \<and> weak rt0 x = 0
        | Some ob \<Rightarrow> inn (kids rt) U x + w x \<le> ref_count ob \<and> \<not> own rt0 x \<and>
            x \<in> set (filter (\<lambda>x. x \<noteq> a) (gc_zero_ref_count_list rt))"
    proof
      fix x assume x: "x \<in> dead rt0 - U - (P - {a})"
      show "case gc_heap rt1 x of None \<Rightarrow> inn (kids rt) U x + w x = 0 \<and> weak rt0 x = 0
        | Some ob \<Rightarrow> inn (kids rt) U x + w x \<le> ref_count ob \<and> \<not> own rt0 x \<and>
            x \<in> set (filter (\<lambda>x. x \<noteq> a) (gc_zero_ref_count_list rt))"
      proof (cases "x = a")
        case True
        then show ?thesis using z by (simp add: h)
      next
        case False
        with x have "x \<in> dead rt0 - U - P" by auto
        from cyc_released [OF c this] show ?thesis using False by (simp add: h split: option.splits)
      qed
    qed
    show "\<forall>x\<in>set (gc_obj_list rt0). \<forall>ob. gc_heap rt1 x = Some ob \<longrightarrow> (\<exists>b0. bodies rt0 x = Some b0 \<and> body_le (body ob) b0)"
      using cyc_body [OF c] by (auto simp: h split: if_splits)
    show "\<forall>x. x \<notin> set (gc_obj_list rt0) \<longrightarrow> gc_heap rt1 x = gc_heap rt0 x"
      using cyc_lists(7) [OF c] ad(1) by (auto simp: h dead_def)
    show "set (filter (\<lambda>x. x \<noteq> a) (tmp_obj_list rt)) \<union> set (filter (\<lambda>x. x \<noteq> a) (gc_zero_ref_count_list rt)) =
        {x \<in> dead rt0. gc_heap rt1 x \<noteq> None}"
      using cyc_lists(4) [OF c] by (auto simp: h)
    show "set (filter (\<lambda>x. x \<noteq> a) (tmp_obj_list rt)) \<subseteq> U \<union> (P - {a})" using cyc_lists(5) [OF c] by auto
    show "distinct (filter (\<lambda>x. x \<noteq> a) (tmp_obj_list rt) @ filter (\<lambda>x. x \<noteq> a) (gc_zero_ref_count_list rt))"
      using cyc_lists(3) [OF c] by auto
  qed (use cyc_sets [OF c] cyc_lists [OF c] in auto)
  then show ?thesis by (simp add: rt1_def)
qed

lemma cyc_end_keep:
  assumes c: "cyc rt0 {} U P w rt" and a: "a \<in> P" "\<not> own rt0 a" and rt1: "rt1 = remove_gc_object a rt"
  shows "cyc rt0 {} U (P - {a}) w (rt1\<lparr>gc_zero_ref_count_list := gc_zero_ref_count_list rt1 @ [a]\<rparr>)"
proof -
  define rt2 where "rt2 = rt1\<lparr>gc_zero_ref_count_list := gc_zero_ref_count_list rt1 @ [a]\<rparr>"
  have ad: "a \<in> dead rt0" "a \<notin> U" using cyc_sets(3,4) [OF c] a by auto
  have h: "gc_heap rt2 = gc_heap rt" by (simp add: rt2_def rt1 remove_gc_object_def)
  have b: "bodies rt2 = bodies rt" by (simp add: rt2_def rt1)
  have an: "a \<notin> set (gc_obj_list rt)" using ad(1) cyc_lists(2) [OF c] by (simp add: dead_def)
  have d: "distinct (tmp_obj_list rt)" "distinct (gc_zero_ref_count_list rt)" using cyc_lists(3) [OF c] by simp_all
  have lists: "gc_obj_list rt2 = gc_obj_list rt" "tmp_obj_list rt2 = filter (\<lambda>x. x \<noteq> a) (tmp_obj_list rt)"
    "gc_zero_ref_count_list rt2 = filter (\<lambda>x. x \<noteq> a) (gc_zero_ref_count_list rt) @ [a]" "phase rt2 = phase rt"
    using an d by (simp_all add: rt2_def rt1 remove_gc_object_def remove1_idem remove1_filter)
  obtain oa where oa: "gc_heap rt a = Some oa" "inn (kids rt) U a + w a \<le> ref_count oa"
    using cyc_progress [OF c a(1)] by blast
  have "cyc rt0 {} U (P - {a}) w rt2"
    unfolding cyc_def h b lists
  proof (intro conjI)
    show "\<forall>x\<in>U. \<exists>ob. gc_heap rt x = Some ob \<and> ref_count ob = outside rt0 x + inn (kids rt) U x + w x \<and>
        (own rt0 x \<and> x \<notin> {} \<longrightarrow> 0 < ref_count ob)"
      using cyc_unreleased [OF c] by blast
    show "\<forall>x\<in>gc_live rt0. \<exists>ob. gc_heap rt x = Some ob \<and> bodies rt0 x = Some (body ob) \<and> \<not> gc_mark ob"
      using cyc_live [OF c] by blast
    show "\<forall>x\<in>P - {a}. \<exists>ob. gc_heap rt x = Some ob \<and> inn (kids rt) U x + w x \<le> ref_count ob"
      using cyc_progress [OF c] by blast
    show "\<forall>x\<in>dead rt0 - U - (P - {a}). case gc_heap rt x of None \<Rightarrow> inn (kids rt) U x + w x = 0 \<and> weak rt0 x = 0
        | Some ob \<Rightarrow> inn (kids rt) U x + w x \<le> ref_count ob \<and> \<not> own rt0 x \<and>
            x \<in> set (filter (\<lambda>x. x \<noteq> a) (gc_zero_ref_count_list rt) @ [a])"
    proof
      fix x assume x: "x \<in> dead rt0 - U - (P - {a})"
      show "case gc_heap rt x of None \<Rightarrow> inn (kids rt) U x + w x = 0 \<and> weak rt0 x = 0
        | Some ob \<Rightarrow> inn (kids rt) U x + w x \<le> ref_count ob \<and> \<not> own rt0 x \<and>
            x \<in> set (filter (\<lambda>x. x \<noteq> a) (gc_zero_ref_count_list rt) @ [a])"
      proof (cases "x = a")
        case True
        then show ?thesis using oa a(2) by simp
      next
        case False
        with x have "x \<in> dead rt0 - U - P" by auto
        from cyc_released [OF c this] show ?thesis using False by (simp split: option.splits)
      qed
    qed
    show "\<forall>x\<in>set (gc_obj_list rt0). \<forall>ob. gc_heap rt x = Some ob \<longrightarrow> (\<exists>b0. bodies rt0 x = Some b0 \<and> body_le (body ob) b0)"
      using cyc_body [OF c] by blast
    show "set (filter (\<lambda>x. x \<noteq> a) (tmp_obj_list rt)) \<union> set (filter (\<lambda>x. x \<noteq> a) (gc_zero_ref_count_list rt) @ [a]) =
        {x \<in> dead rt0. gc_heap rt x \<noteq> None}"
      using cyc_lists(4) [OF c] oa(1) ad(1) by auto
    show "set (filter (\<lambda>x. x \<noteq> a) (tmp_obj_list rt)) \<subseteq> U \<union> (P - {a})" using cyc_lists(5) [OF c] by auto
    show "\<forall>x\<in>set (filter (\<lambda>x. x \<noteq> a) (gc_zero_ref_count_list rt) @ [a]). own rt0 x \<or> x \<notin> U \<union> (P - {a})"
      using cyc_lists(6) [OF c] ad(2) by auto
    show "distinct (filter (\<lambda>x. x \<noteq> a) (tmp_obj_list rt) @ filter (\<lambda>x. x \<noteq> a) (gc_zero_ref_count_list rt) @ [a])"
      using cyc_lists(3) [OF c] by auto
  qed (use cyc_sets [OF c] cyc_lists [OF c] in auto)
  then show ?thesis by (simp add: rt2_def)
qed

section \<open>Releasing keeps the invariant\<close>

lemma body_le_refl [simp]: "body_le b b"
  by (simp add: body_le_def)

lemma body_le_kind:
  assumes "body_le b b0"
  shows "owned_type b = owned_type b0" "is_shape b = is_shape b0" "is_var_ref b = is_var_ref b0"
    "is_context b = is_context b0" "running b = running b0" "weakrefs b = weakrefs b0"
    "set (mark_children b) \<subseteq> set (mark_children b0)" "body_ok B b0 \<Longrightarrow> body_ok B b"
  using assms by (auto simp: body_le_def JS_MarkContext_def list_all_iff) (meson subsetD)?

fun rel_kind :: "(addr \<rightharpoonup> gc_body) \<Rightarrow> rel \<Rightarrow> bool" where
  "rel_kind B (RVal v) = val_ok B v"
| "rel_kind B (RAsync a) = refers B (\<lambda>b. \<not> owned_type b) a"
| "rel_kind B (RShape a) = refers B is_shape a"
| "rel_kind B (RVar a) = refers B is_var_ref a"
| "rel_kind B (RCtx a) = refers B is_context a"

lemma val_ok_ref: "val_ok B (JRef a) = refers B (\<lambda>b. \<not> owned_type b) a"
  by (simp add: val_ok_def)

lemma opt_rel_kind:
  assumes "opt_ok B k r" "\<And>a. refers B k a \<Longrightarrow> rel_kind B (c a)"
  shows "\<forall>x\<in>set (opt_rel c r). rel_kind B x"
  using assms by (auto simp: opt_rel_def opt_ok_def split: option.splits)

lemma opts_rel_kind:
  assumes "list_all (opt_ok B k) rs" "\<And>a. refers B k a \<Longrightarrow> rel_kind B (c a)"
  shows "\<forall>x\<in>set (concat (map (opt_rel c) rs)). rel_kind B x"
  using assms(1) by (induction rs) (auto dest: opt_rel_kind [OF _ assms(2)])

lemma vals_kind: "list_all (val_ok B) vs \<Longrightarrow> \<forall>x\<in>set (map RVal vs). rel_kind B x"
  by (auto simp: list_all_iff)

lemma prop_refs_kind: "prop_ok B pr \<Longrightarrow> \<forall>x\<in>set (prop_refs pr). rel_kind B x"
  by (cases pr) (auto simp: val_ok_ref dest: opt_rel_kind [where c = RRef])

lemma class_refs_kind: "class_ok B cls \<Longrightarrow> \<forall>x\<in>set (class_refs cls). rel_kind B x"
proof (cases cls)
  case (BytecodeFunction home b vrs)
  assume a: "class_ok B cls"
  then have "opt_ok B (\<lambda>b. \<not> owned_type b) home" by (simp add: BytecodeFunction)
  then have "\<forall>x\<in>set (opt_rel RRef home). rel_kind B x"
    using opt_rel_kind [of B "\<lambda>b. \<not> owned_type b" home RRef] by (simp add: val_ok_ref)
  then show ?thesis using a opts_rel_kind [of B is_var_ref vrs RVar]
    by (cases b) (auto simp: BytecodeFunction val_ok_ref)
next
  case (CFunction realm)
  assume "class_ok B cls"
  then show ?thesis unfolding CFunction by (auto dest: opt_rel_kind [where c = RCtx])
qed (auto simp: list_all_iff)

lemma body_refs_kind: "body_ok B b \<Longrightarrow> \<forall>x\<in>set (body_refs b). rel_kind B x"
proof (cases b)
  case (JSObject sh props cls w)
  assume "body_ok B b"
  then show ?thesis
    using prop_refs_kind class_refs_kind by (auto simp: JSObject list_all_iff)
next
  case (FunctionBytecode cpool realm)
  assume "body_ok B b"
  then show ?thesis using opt_rel_kind [of B is_context realm RCtx] by (auto simp: FunctionBytecode list_all_iff)
next
  case (OpenVarRef f)
  assume "body_ok B b"
  then show ?thesis using opt_rel_kind [of B "\<lambda>b. \<not> owned_type b" f RAsync] by (auto simp: OpenVarRef)
next
  case (Shape proto)
  assume "body_ok B b"
  then show ?thesis using opt_rel_kind [of B "\<lambda>b. \<not> owned_type b" proto RRef] by (auto simp: Shape val_ok_ref)
next
  case (Context mods vals shapes)
  assume "body_ok B b"
  then show ?thesis using opts_rel_kind [of B is_shape shapes RShape]
    by (auto simp: Context list_all_iff val_ok_ref)
next
  case (ModuleDef attrs exports vals)
  assume "body_ok B b"
  then show ?thesis using opts_rel_kind [of B is_var_ref exports RVar]
    by (auto simp: ModuleDef list_all_iff)
qed (auto simp: list_all_iff split: option.splits)

text \<open>An object that is being freed does not meet another of its own kind, but for values.\<close>

fun rel_clear :: "(addr \<rightharpoonup> gc_body) \<Rightarrow> addr set \<Rightarrow> rel \<Rightarrow> bool" where
  "rel_clear B P (RShape a) = (\<forall>x\<in>P. \<not> refers B is_shape x)"
| "rel_clear B P (RVar a) = (\<forall>x\<in>P. \<not> refers B is_var_ref x)"
| "rel_clear B P (RCtx a) = (\<forall>x\<in>P. \<not> refers B is_context x \<and> \<not> refers B is_shape x)"
| "rel_clear B P _ = True"

definition keeps :: "gc_rt \<Rightarrow> addr set \<Rightarrow> addr set \<Rightarrow> (addr \<Rightarrow> nat) \<Rightarrow> gc_rt \<Rightarrow> gc_rt option \<Rightarrow> bool" where
  "keeps rt0 U P w rt res = (\<exists>rt' U'. res = Some rt' \<and> cyc rt0 {} U' P w rt' \<and> U' \<subseteq> U \<and>
     (\<forall>x\<in>U' \<union> P. bodies rt' x = bodies rt x))"

definition rel_spec :: "gc_rt \<Rightarrow> addr set \<Rightarrow> rel \<Rightarrow> bool" where
  "rel_spec rt0 P r = (\<forall>U w rt. cyc rt0 {} U P (\<lambda>x. count_list (rel_addrs r) x + w x) rt \<longrightarrow> keeps rt0 U P w rt (release r rt))"

lemma release_all_keeps:
  assumes "\<forall>r\<in>set rs. rel_spec rt0 P r" "cyc rt0 {} U P (\<lambda>x. rels_count rs x + w x) rt"
  shows "keeps rt0 U P w rt (release_all rs rt)"
  using assms
proof (induction rs arbitrary: U rt)
  case Nil
  then show ?case by (auto simp: keeps_def)
next
  case (Cons r rs)
  have "cyc rt0 {} U P (\<lambda>x. count_list (rel_addrs r) x + (rels_count rs x + w x)) rt"
    using Cons.prems(2) by (simp add: add.assoc)
  with Cons.prems(1) have "keeps rt0 U P (\<lambda>x. rels_count rs x + w x) rt (release r rt)"
    by (simp add: rel_spec_def)
  then obtain rt1 U1 where r: "release r rt = Some rt1" "cyc rt0 {} U1 P (\<lambda>x. rels_count rs x + w x) rt1" "U1 \<subseteq> U"
    "\<forall>x\<in>U1 \<union> P. bodies rt1 x = bodies rt x" by (auto simp: keeps_def)
  from Cons.IH [OF _ r(2)] Cons.prems(1) obtain rt2 U2 where "release_all rs rt1 = Some rt2" "cyc rt0 {} U2 P w rt2"
    "U2 \<subseteq> U1" "\<forall>x\<in>U2 \<union> P. bodies rt2 x = bodies rt1 x" by (auto simp: keeps_def)
  then have "release_all (r # rs) rt = Some rt2 \<and> cyc rt0 {} U2 P w rt2 \<and> U2 \<subseteq> U \<and>
      (\<forall>x\<in>U2 \<union> P. bodies rt2 x = bodies rt x)" using r by auto
  then show ?case unfolding keeps_def by blast
qed

lemma keeps_dec:
  assumes "gc_heap rt a = Some ob" "cyc rt0 {} U P w (set_count a ob n rt)"
  shows "keeps rt0 U P w rt (Some (set_count a ob n rt))"
  unfolding keeps_def using assms(2) bodies_set_count [OF assms(1)] by auto

text \<open>A reference to an object that is not freed at once.\<close>

lemma own_not_refers: "refers (bodies rt0) (\<lambda>b. \<not> owned_type b) a \<Longrightarrow> \<not> own rt0 a"
  by (auto simp: refers_def own_def split: option.splits)

lemma free_value_spec:
  assumes "val_ok (bodies rt0) v" "set (rel_addrs (RVal v)) \<subseteq> set (gc_obj_list rt0)"
  shows "rel_spec rt0 P (RVal v)"
  unfolding rel_spec_def
proof (intro allI impI)
  fix U w rt
  assume c: "cyc rt0 {} U P (\<lambda>x. count_list (rel_addrs (RVal v)) x + w x) rt"
  show "keeps rt0 U P w rt (release (RVal v) rt)"
  proof (cases v)
    case JPrim
    then show ?thesis using c by (auto simp: keeps_def free_value_nested_def)
  next
    case (JRef a)
    have a: "a \<in> set (gc_obj_list rt0)" "\<not> own rt0 a" using assms by (simp_all add: JRef val_ok_ref own_not_refers)
    have "cyc rt0 {} U P (\<lambda>x. one a x + w x) rt" using c by (simp add: JRef del: count_list.simps)
    from cyc_dec [OF this a(1)] a(2) obtain ob where
      ob: "gc_heap rt a = Some ob" "0 < ref_count ob" "cyc rt0 {} U P w (set_count a ob (ref_count ob - 1) rt)" by blast
    have "release (RVal v) rt = Some (set_count a ob (ref_count ob - 1) rt)"
      using ob cyc_sets(5) [OF c] by (simp add: free_value_nested_def JRef Let_def)
    then show ?thesis using keeps_dec [OF ob(1,3)] by simp
  qed
qed

lemma async_func_free_spec:
  assumes "refers (bodies rt0) (\<lambda>b. \<not> owned_type b) a" "a \<in> set (gc_obj_list rt0)"
  shows "rel_spec rt0 P (RAsync a)"
  unfolding rel_spec_def
proof (intro allI impI)
  fix U w rt
  assume c: "cyc rt0 {} U P (\<lambda>x. count_list (rel_addrs (RAsync a)) x + w x) rt"
  have "cyc rt0 {} U P (\<lambda>x. one a x + w x) rt" using c by (simp del: count_list.simps)
  from cyc_dec [OF this assms(2)] own_not_refers [OF assms(1)] obtain ob where
    ob: "gc_heap rt a = Some ob" "0 < ref_count ob" "cyc rt0 {} U P w (set_count a ob (ref_count ob - 1) rt)" by blast
  have "release (RAsync a) rt = Some (set_count a ob (ref_count ob - 1) rt)"
    using ob cyc_sets(5) [OF c] by (simp add: async_func_free_def Let_def)
  then show "keeps rt0 U P w rt (release (RAsync a) rt)" using keeps_dec [OF ob(1,3)] by simp
qed

text \<open>A live object keeps a reference.\<close>

lemma live_pos:
  assumes c: "cyc rt0 N U P w rt" and x: "x \<in> gc_live rt0"
  shows "0 < outside rt0 x + inn (kids rt) U x"
proof -
  from x have "reach_from (kids rt0) (set (gc_obj_list rt0)) (outside rt0) x" by (simp add: gc_live_def live_set_def)
  then show ?thesis
  proof cases
    case (child q)
    then have q: "q \<in> gc_live rt0" by (simp add: gc_live_def live_set_def)
    have "kids rt q = kids rt0 q" using cyc_live [OF c q] by (auto simp: kids_of_def bodies_def)
    then have "x \<in> set (kids rt q)" using child(2) by simp
    moreover have "q \<in> U" using cyc_sets(1) [OF c] q by (rule subsetD)
    ultimately have "\<exists>q\<in>U. x \<in> set (kids rt q)" by (rule bexI)
    then show ?thesis using inn_pos [OF finite_U [OF c]] by simp
  qed simp
qed

lemma dead_outside: "x \<in> dead rt0 \<Longrightarrow> outside rt0 x = 0"
  using reach_from.root [of x "set (gc_obj_list rt0)" "outside rt0"]
  by (auto simp: dead_def gc_live_def live_set_def)

text \<open>The functions for the other kinds free what loses its last reference.\<close>

definition free_last :: "addr \<Rightarrow> gc_rt \<Rightarrow> gc_rt option" where
  "free_last a rt = do {
     ob \<leftarrow> gc_heap rt a;
     _ \<leftarrow> gc_assert (ref_count ob > 0);
     let rt1 = set_count a ob (ref_count ob - 1) rt in
     if ref_count ob - 1 = 0 then do {
       rt2 \<leftarrow> release_all (body_refs (body ob)) rt1;
       Some (js_free_rt_gc a (remove_gc_object a rt2)) }
     else Some rt1 }"

lemma own_weak: "own rt0 a \<Longrightarrow> weak rt0 a = 0"
  by (auto simp: own_def refers_def weak_def split: option.splits elim: owned_type.elims)

lemma free_last_spec:
  assumes c: "cyc rt0 {} U P (\<lambda>x. one a x + w x) rt" and a: "a \<in> set (gc_obj_list rt0)" "own rt0 a" "a \<notin> P"
    and run: "\<And>b b0. bodies rt0 a = Some b0 \<Longrightarrow> body_le b b0 \<Longrightarrow> \<not> running b \<and> (\<forall>r\<in>set (body_refs b). rel_spec rt0 (insert a P) r)"
  shows "keeps rt0 U P w rt (free_last a rt)"
proof -
  obtain ob where
    ob: "gc_heap rt a = Some ob" "0 < ref_count ob" and
    c1: "cyc rt0 {a} U P w (set_count a ob (ref_count ob - 1) rt)" and
    c2: "own rt0 a \<longrightarrow> 0 < ref_count ob - 1 \<longrightarrow> cyc rt0 {} U P w (set_count a ob (ref_count ob - 1) rt)"
    using cyc_dec [OF c a(1)] by (elim exE conjE) (rule that)
  define rt1 where "rt1 = set_count a ob (ref_count ob - 1) rt"
  show ?thesis
  proof (cases "ref_count ob - 1 = 0")
    case False
    then have "free_last a rt = Some rt1" using ob by (simp add: free_last_def rt1_def Let_def)
    then show ?thesis using keeps_dec [OF ob(1)] c2 a(2) False by (simp add: rt1_def)
  next
    case True
    have b1: "bodies rt1 = bodies rt" unfolding rt1_def by (rule bodies_set_count [OF ob(1)])
    have h1: "gc_heap rt1 a = Some (ob\<lparr>ref_count := 0\<rparr>)" using True by (simp add: rt1_def set_count_def)
    have c1: "cyc rt0 {a} U P w rt1" using c1 by (simp add: rt1_def)
    have dead: "a \<in> dead rt0" and U: "a \<in> U"
    proof -
      show U: "a \<in> U"
      proof (rule ccontr)
        assume n: "a \<notin> U"
        then have "a \<in> dead rt0 - U - P" using a cyc_sets(1) [OF c] by (auto simp: dead_def)
        from cyc_released [OF c this] ob(1) a(2) show False by simp
      qed
      show "a \<in> dead rt0"
      proof (rule ccontr)
        assume "a \<notin> dead rt0"
        then have "a \<in> gc_live rt0" using a(1) by (simp add: dead_def)
        from live_pos [OF c1 this] cyc_unreleased [OF c1 U] h1 show False by simp
      qed
    qed
    have zero: "inn (kids rt1) U a = 0" "w a = 0" using cyc_unreleased [OF c1 U] h1 by simp_all
    define b where "b = body ob"
    have kb: "kids rt1 a = mark_children b" by (simp add: kids_of_def bodies_def h1 b_def)
    obtain b0 where b0: "bodies rt0 a = Some b0" "body_le b b0" using cyc_body [OF c1 a(1) h1] by (auto simp: b_def)
    note run = run [OF b0]
    have "cyc rt0 {} (U - {a}) (insert a P) (\<lambda>x. rels_count (body_refs b) x + w x) rt1"
      using cyc_begin [OF c1 subset_refl U dead dead_outside [OF dead]] run
      by (simp add: kb rels_count_body)
    from release_all_keeps [OF conjunct2 [OF run] this] obtain rt2 U2 where
      r2: "release_all (body_refs b) rt1 = Some rt2" "cyc rt0 {} U2 (insert a P) w rt2" "U2 \<subseteq> U - {a}"
        "\<forall>x\<in>U2 \<union> insert a P. bodies rt2 x = bodies rt1 x" by (auto simp: keeps_def)
    have "inn (kids rt2) U2 a \<le> inn (kids rt1) U a"
      using r2(3,4) finite_U [OF c1] by (intro inn_mono) (auto simp: kids_of_def)
    then have z: "inn (kids rt2) U2 a + w a = 0" using zero by simp
    define rt3 where "rt3 = js_free_rt_gc a (remove_gc_object a rt2)"
    have "cyc rt0 {} U2 (insert a P - {a}) w rt3"
      unfolding rt3_def by (rule cyc_end_free [OF r2(2) _ z own_weak [OF a(2)]]) simp
    then have c3: "cyc rt0 {} U2 P w rt3" using a(3) by simp
    have "bodies rt3 x = bodies rt x" if "x \<in> U2 \<union> P" for x
    proof -
      have "x \<noteq> a" using that a(3) r2(3) by auto
      then have "bodies rt3 x = bodies rt2 x" by (simp add: rt3_def bodies_def js_free_rt_gc_def remove_gc_object_def)
      then show ?thesis using r2(4) that b1 by simp
    qed
    moreover have "free_last a rt = Some rt3"
      using ob True r2(1) [unfolded b_def rt1_def] by (simp add: free_last_def rt3_def Let_def)
    ultimately show ?thesis using c3 r2(3) unfolding keeps_def by blast
  qed
qed

lemma js_free_shape_last:
  "gc_heap rt a = Some ob \<Longrightarrow> is_shape (body ob) \<Longrightarrow> js_free_shape a rt = free_last a rt"
  by (cases "body ob")
    (auto simp: js_free_shape_def js_free_shape0_def free_last_def set_count_def Let_def opt_value_release [symmetric])

lemma free_var_ref_last:
  "gc_heap rt a = Some ob \<Longrightarrow> is_var_ref (body ob) \<Longrightarrow> free_var_ref (Some a) rt = free_last a rt"
  by (cases "body ob")
    (auto simp: free_var_ref_def free_last_def Let_def opt_rel_def split: option.split)

lemma JS_FreeContext_last:
  "gc_heap rt a = Some ob \<Longrightarrow> is_context (body ob) \<Longrightarrow> JS_FreeContext a rt = free_last a rt"
  by (cases "body ob")
    (auto simp: JS_FreeContext_def free_last_def Let_def free_values_release free_shapes_release release_all_append
      comp_def split: Option.bind_split)

lemma body_refs_ok:
  assumes w: "gc_wf rt0" and a: "a \<in> set (gc_obj_list rt0)" "bodies rt0 a = Some b0" "body_le b b0" "\<not> running b"
    and r: "r \<in> set (body_refs b)"
  shows "rel_kind (bodies rt0) r" "set (rel_addrs r) \<subseteq> set (gc_obj_list rt0)"
proof -
  obtain ob where ob: "gc_heap rt0 a = Some ob" "body_ok (bodies rt0) (body ob)"
      "set (mark_children (body ob)) \<subseteq> set (gc_obj_list rt0)"
    using w a(1) by (auto simp: gc_wf_def)
  have b0: "b0 = body ob" using a(2) ob(1) by (simp add: bodies_def)
  have "body_ok (bodies rt0) b" using body_le_kind(8) [OF a(3)] ob(2) b0 by simp
  from body_refs_kind [OF this] show "rel_kind (bodies rt0) r" using r by blast
  have "x \<in> set (mark_children b)" if "x \<in> set (rel_addrs r)" for x
  proof -
    have "x \<in> set (concat (map rel_addrs (body_refs b)))" using r that by auto
    then have "rels_count (body_refs b) x \<noteq> 0" unfolding rels_count_def by (simp only: count_list_0_iff not_not)
    then show ?thesis using rels_count_body [OF a(4), of x] by (metis count_list_0_iff)
  qed
  then show "set (rel_addrs r) \<subseteq> set (gc_obj_list rt0)" using body_le_kind(7) [OF a(3)] ob(3) b0 by blast
qed

definition value_rel :: "rel \<Rightarrow> bool" where
  "value_rel r = (case r of RVal v \<Rightarrow> True | RAsync a \<Rightarrow> True | _ \<Rightarrow> False)"

lemma value_rel_spec:
  "value_rel r \<Longrightarrow> rel_kind (bodies rt0) r \<Longrightarrow> set (rel_addrs r) \<subseteq> set (gc_obj_list rt0) \<Longrightarrow> rel_spec rt0 P r"
  by (cases r) (simp_all add: value_rel_def free_value_spec async_func_free_spec)

lemma rel_head:
  assumes "cyc rt0 {} U P (\<lambda>x. one a x + w x) rt" "a \<in> set (gc_obj_list rt0)"
  shows "\<exists>ob b0. gc_heap rt a = Some ob \<and> bodies rt0 a = Some b0 \<and> body_le (body ob) b0"
proof -
  have "0 < one a a + w a" by (simp add: one_def)
  from cyc_count [OF assms this] obtain ob where ob: "gc_heap rt a = Some ob" by blast
  from cyc_body [OF assms this] ob show ?thesis by blast
qed

text \<open>The references of an owned object, when the kinds of its references are known.\<close>

lemma last_spec:
  assumes w: "gc_wf rt0" and a: "a \<in> set (gc_obj_list rt0)" "own rt0 a" "a \<notin> P"
    and k: "rel_addrs r = [a]"
    and eq: "\<And>rt ob b0. gc_heap rt a = Some ob \<Longrightarrow> bodies rt0 a = Some b0 \<Longrightarrow> body_le (body ob) b0 \<Longrightarrow> release r rt = free_last a rt"
    and run: "\<And>b b0 r. bodies rt0 a = Some b0 \<Longrightarrow> body_le b b0 \<Longrightarrow> r \<in> set (body_refs b) \<Longrightarrow> rel_kind (bodies rt0) r \<Longrightarrow>
      set (rel_addrs r) \<subseteq> set (gc_obj_list rt0) \<Longrightarrow> rel_spec rt0 (insert a P) r"
  shows "rel_spec rt0 P r"
  unfolding rel_spec_def
proof (intro allI impI)
  fix U w1 rt
  assume "cyc rt0 {} U P (\<lambda>x. count_list (rel_addrs r) x + w1 x) rt"
  then have c: "cyc rt0 {} U P (\<lambda>x. one a x + w1 x) rt" by (simp only: k count_list_single)
  from rel_head [OF c a(1)] obtain ob b0 where ob: "gc_heap rt a = Some ob" "bodies rt0 a = Some b0" "body_le (body ob) b0"
    by blast
  have "keeps rt0 U P w1 rt (free_last a rt)"
  proof (rule free_last_spec [OF c a])
    fix b b0
    assume b: "bodies rt0 a = Some b0" "body_le b b0"
    have "owned_type b0" using a(2) b(1) by (simp add: own_def refers_def)
    then have nr: "\<not> running b" using body_le_kind(1) [OF b(2)] by (cases b) auto
    then show "\<not> running b \<and> (\<forall>r\<in>set (body_refs b). rel_spec rt0 (insert a P) r)"
      using run [OF b] body_refs_ok [OF w a(1) b nr] by blast
  qed
  then show "keeps rt0 U P w1 rt (release r rt)" using eq [OF ob] by simp
qed

lemma kind_own:
  "refers (bodies rt0) is_shape a \<Longrightarrow> own rt0 a" "refers (bodies rt0) is_var_ref a \<Longrightarrow> own rt0 a"
  "refers (bodies rt0) is_context a \<Longrightarrow> own rt0 a"
  by (auto simp: refers_def own_def split: option.splits elim: is_shape.elims is_var_ref.elims is_context.elims)

lemma shape_spec:
  assumes w: "gc_wf rt0" and a: "a \<in> set (gc_obj_list rt0)" "refers (bodies rt0) is_shape a"
    and P: "\<forall>x\<in>P. \<not> refers (bodies rt0) is_shape x"
  shows "rel_spec rt0 P (RShape a)"
proof (rule last_spec [OF w a(1) kind_own(1) [OF a(2)]])
  show "a \<notin> P" using a(2) P by blast
  show "release (RShape a) rt = free_last a rt"
    if "gc_heap rt a = Some ob" "bodies rt0 a = Some b0" "body_le (body ob) b0" for rt ob b0
    using js_free_shape_last [OF that(1)] a(2) that body_le_kind(2) [OF that(3)] by (simp add: refers_def)
  show "rel_spec rt0 (insert a P) r"
    if h: "bodies rt0 a = Some b0" "body_le b b0" "r \<in> set (body_refs b)" "rel_kind (bodies rt0) r"
      "set (rel_addrs r) \<subseteq> set (gc_obj_list rt0)" for b b0 r
  proof (rule value_rel_spec [OF _ h(4,5)])
    have "is_shape b" using a(2) h(1) body_le_kind(2) [OF h(2)] by (simp add: refers_def)
    then show "value_rel r" using h(3) by (cases b) (auto simp: opt_rel_def value_rel_def split: option.splits)
  qed
qed simp

lemma var_ref_spec:
  assumes w: "gc_wf rt0" and a: "a \<in> set (gc_obj_list rt0)" "refers (bodies rt0) is_var_ref a"
    and P: "\<forall>x\<in>P. \<not> refers (bodies rt0) is_var_ref x"
  shows "rel_spec rt0 P (RVar a)"
proof (rule last_spec [OF w a(1) kind_own(2) [OF a(2)]])
  show "a \<notin> P" using a(2) P by blast
  show "release (RVar a) rt = free_last a rt"
    if "gc_heap rt a = Some ob" "bodies rt0 a = Some b0" "body_le (body ob) b0" for rt ob b0
    using free_var_ref_last [OF that(1)] a(2) that body_le_kind(3) [OF that(3)] by (simp add: refers_def)
  show "rel_spec rt0 (insert a P) r"
    if h: "bodies rt0 a = Some b0" "body_le b b0" "r \<in> set (body_refs b)" "rel_kind (bodies rt0) r"
      "set (rel_addrs r) \<subseteq> set (gc_obj_list rt0)" for b b0 r
  proof (rule value_rel_spec [OF _ h(4,5)])
    have "is_var_ref b" using a(2) h(1) body_le_kind(3) [OF h(2)] by (simp add: refers_def)
    then show "value_rel r" using h(3) by (cases b) (auto simp: opt_rel_def value_rel_def split: option.splits)
  qed
qed simp

lemma context_spec:
  assumes w: "gc_wf rt0" and a: "a \<in> set (gc_obj_list rt0)" "refers (bodies rt0) is_context a"
    and P: "\<forall>x\<in>P. \<not> refers (bodies rt0) is_context x \<and> \<not> refers (bodies rt0) is_shape x"
  shows "rel_spec rt0 P (RCtx a)"
proof (rule last_spec [OF w a(1) kind_own(3) [OF a(2)]])
  show "a \<notin> P" using a(2) P by blast
  show "release (RCtx a) rt = free_last a rt"
    if "gc_heap rt a = Some ob" "bodies rt0 a = Some b0" "body_le (body ob) b0" for rt ob b0
    using JS_FreeContext_last [OF that(1)] a(2) that body_le_kind(4) [OF that(3)] by (simp add: refers_def)
  show "rel_spec rt0 (insert a P) r"
    if h: "bodies rt0 a = Some b0" "body_le b b0" "r \<in> set (body_refs b)" "rel_kind (bodies rt0) r"
      "set (rel_addrs r) \<subseteq> set (gc_obj_list rt0)" for b b0 r
  proof -
    have b: "is_context b" using a(2) h(1) body_le_kind(4) [OF h(2)] by (simp add: refers_def)
    then consider "value_rel r" | s where "r = RShape s"
      using h(3) by (cases b) (auto simp: opt_rel_def value_rel_def split: option.splits)
    then show ?thesis
    proof cases
      case 1
      then show ?thesis by (rule value_rel_spec [OF _ h(4,5)])
    next
      case 2
      have "\<not> refers (bodies rt0) is_shape a"
        using a(2) by (auto simp: refers_def split: option.splits elim: is_context.elims)
      then show ?thesis using shape_spec [OF w] h(4,5) P by (simp add: 2)
    qed
  qed
qed simp

lemma rel_spec_all:
  assumes "gc_wf rt0" "rel_kind (bodies rt0) r" "set (rel_addrs r) \<subseteq> set (gc_obj_list rt0)"
    and "\<forall>x\<in>P. \<not> own rt0 x"
  shows "rel_spec rt0 P r"
proof (cases "value_rel r")
  case True
  then show ?thesis using assms(2,3) by (rule value_rel_spec)
next
  case False
  have "\<forall>x\<in>P. \<not> refers (bodies rt0) is_shape x \<and> \<not> refers (bodies rt0) is_var_ref x \<and> \<not> refers (bodies rt0) is_context x"
    using assms(4) kind_own by blast
  then show ?thesis
    using False assms shape_spec var_ref_spec context_spec by (cases r) (simp_all add: value_rel_def)
qed

end
