(* ===== verification/Gc_Cycles.thy ===== *)
theory Gc_Cycles
  imports Gc_Free
begin

text \<open>
  The loops of \<open>gc_free_cycles\<close>: every dead object that is not owned by another is freed,
  the owned ones go with their owners, and what is kept goes at the end.
\<close>

abbreviation no_refs :: "addr \<Rightarrow> nat" where
  "no_refs \<equiv> \<lambda>x. 0"

section \<open>Freeing one object\<close>

lemma free_or_keep_spec:
  assumes c: "cyc rt0 {} U {p} no_refs rt" and p: "\<not> own rt0 p" "weak rt0 p = 0"
  shows "\<exists>rt'. free_or_keep p rt = Some rt' \<and> cyc rt0 {} U {} no_refs rt'"
proof -
  obtain ob where ob: "gc_heap rt p = Some ob" "inn (kids rt) U p \<le> ref_count ob"
    using cyc_progress [OF c, of p] by auto
  have ph: "phase rt = GC_PHASE_REMOVE_CYCLES" using cyc_sets(5) [OF c] .
  show ?thesis
  proof (cases "ref_count ob = 0")
    case True
    then have "free_or_keep p rt = Some (js_free_rt_gc p (remove_gc_object p rt))"
      using ob ph by (simp add: free_or_keep_def Let_def)
    moreover have "cyc rt0 {} U ({p} - {p}) no_refs (js_free_rt_gc p (remove_gc_object p rt))"
      by (rule cyc_end_free [OF c]) (use ob True p in auto)
    ultimately show ?thesis by auto
  next
    case False
    define rt1 where "rt1 = remove_gc_object p rt"
    have "free_or_keep p rt = Some (rt1\<lparr>gc_zero_ref_count_list := gc_zero_ref_count_list rt1 @ [p]\<rparr>)"
      using ob ph False by (simp add: free_or_keep_def rt1_def Let_def)
    moreover have "cyc rt0 {} U ({p} - {p}) no_refs (rt1\<lparr>gc_zero_ref_count_list := gc_zero_ref_count_list rt1 @ [p]\<rparr>)"
      by (rule cyc_end_keep [OF c _ p(1) rt1_def]) simp
    ultimately show ?thesis by auto
  qed
qed

lemma live_closed:
  assumes "gc_wf rt0" "x \<in> gc_live rt0" "c \<in> set (kids rt0 x)"
  shows "c \<in> gc_live rt0"
  using assms(2,3) reach_from.child by (fastforce simp: gc_live_def live_set_def)

text \<open>A module leaves the list of its context, which cannot be live.\<close>

lemma cyc_unlink:
  assumes w: "gc_wf rt0" and c: "cyc rt0 {} U {p} no_refs rt"
  shows "cyc rt0 {} U {p} no_refs (unlink_module p rt)"
proof -
  define rt1 where "rt1 = unlink_module p rt"
  define g where "g = (\<lambda>ob :: gc_obj. case body ob of
      Context mods vals shapes \<Rightarrow> ob\<lparr>body := Context (filter (\<lambda>m. m \<noteq> p) mods) vals shapes\<rparr> | _ \<Rightarrow> ob)"
  have p: "p \<in> dead rt0" "p \<notin> U" using cyc_sets(3,4) [OF c] by auto
  have h: "gc_heap rt1 x = map_option g (gc_heap rt x)" for x
    by (simp add: rt1_def unlink_module_def g_def split: option.split)
  have g: "ref_count (g ob) = ref_count ob" "gc_mark (g ob) = gc_mark ob" "body_le (body (g ob)) (body ob)" for ob
    by (auto simp: g_def body_le_def split: gc_body.split)
  have le_trans: "body_le x z" if "body_le x y" "body_le y z" for x y z
    using that by (auto simp: body_le_def)
  have count: "count_list (mark_children (body (g ob))) x \<le> count_list (mark_children (body ob)) x" for ob x
  proof (cases "body ob")
    case (Context mods vals shapes)
    have "count_list (filter (\<lambda>m. m \<noteq> p) mods) x \<le> count_list mods x" by (induction mods) auto
    then show ?thesis by (simp add: g_def Context JS_MarkContext_def)
  qed (simp_all add: g_def)
  have count_eq: "count_list (mark_children (body (g ob))) x = count_list (mark_children (body ob)) x" if "x \<noteq> p" for ob x
  proof (cases "body ob")
    case (Context mods vals shapes)
    have "count_list (filter (\<lambda>m. m \<noteq> p) mods) x = count_list mods x" using that by (induction mods) auto
    then show ?thesis by (simp add: g_def Context JS_MarkContext_def)
  qed (simp_all add: g_def)
  have kid: "kids rt1 q = (case gc_heap rt q of None \<Rightarrow> [] | Some ob \<Rightarrow> mark_children (body (g ob)))" for q
    by (simp add: kids_of_def bodies_def h split: option.split)
  have kid0: "kids rt q = (case gc_heap rt q of None \<Rightarrow> [] | Some ob \<Rightarrow> mark_children (body ob))" for q
    by (simp add: kids_of_def bodies_def split: option.split)
  have le: "inn (kids rt1) U x \<le> inn (kids rt) U x" for x
    using finite_U [OF c] by (intro inn_mono) (auto simp: kid kid0 count split: option.split)
  have eq: "inn (kids rt1) U x = inn (kids rt) U x" if "x \<noteq> p" for x
    unfolding inn_def by (rule sum.cong) (auto simp: kid kid0 count_eq [OF that] split: option.split)
  have lists: "gc_obj_list rt1 = gc_obj_list rt" "tmp_obj_list rt1 = tmp_obj_list rt"
    "gc_zero_ref_count_list rt1 = gc_zero_ref_count_list rt" "phase rt1 = phase rt"
    by (simp_all add: rt1_def unlink_module_def)
  have "cyc rt0 {} U {p} no_refs rt1"
    unfolding cyc_def lists
  proof (intro conjI)
    show "\<forall>x\<in>U. \<exists>ob. gc_heap rt1 x = Some ob \<and> ref_count ob = outside rt0 x + inn (kids rt1) U x + 0 \<and>
        (own rt0 x \<and> x \<notin> {} \<longrightarrow> 0 < ref_count ob)"
    proof
      fix x assume x: "x \<in> U"
      then have "x \<noteq> p" using p(2) by auto
      then show "\<exists>ob. gc_heap rt1 x = Some ob \<and> ref_count ob = outside rt0 x + inn (kids rt1) U x + 0 \<and>
        (own rt0 x \<and> x \<notin> {} \<longrightarrow> 0 < ref_count ob)"
        using cyc_unreleased [OF c x] by (auto simp: h g eq)
    qed
    show "\<forall>x\<in>gc_live rt0. \<exists>ob. gc_heap rt1 x = Some ob \<and> bodies rt0 x = Some (body ob) \<and> \<not> gc_mark ob"
    proof
      fix x assume x: "x \<in> gc_live rt0"
      from cyc_live [OF c x] obtain ob where ob: "gc_heap rt x = Some ob" "bodies rt0 x = Some (body ob)" "\<not> gc_mark ob"
        by blast
      have "p \<notin> set (kids rt0 x)" using live_closed [OF w x] p(1) by (auto simp: dead_def)
      then have "p \<notin> set (mark_children (body ob))" using ob(2) by (simp add: kids_of_def)
      then have "body (g ob) = body ob"
        by (auto simp: g_def JS_MarkContext_def filter_id_conv split: gc_body.split)
      then show "\<exists>ob. gc_heap rt1 x = Some ob \<and> bodies rt0 x = Some (body ob) \<and> \<not> gc_mark ob"
        using ob by (simp add: h g)
    qed
    show "\<forall>x\<in>{p}. \<exists>ob. gc_heap rt1 x = Some ob \<and> inn (kids rt1) U x + 0 \<le> ref_count ob"
      using cyc_progress [OF c, of p] le [of p] by (auto simp: h g)
    show "\<forall>x\<in>dead rt0 - U - {p}. case gc_heap rt1 x of None \<Rightarrow> inn (kids rt1) U x + 0 = 0 \<and> weak rt0 x = 0
        | Some ob \<Rightarrow> inn (kids rt1) U x + 0 \<le> ref_count ob \<and> \<not> own rt0 x \<and> x \<in> set (gc_zero_ref_count_list rt)"
    proof
      fix x assume x: "x \<in> dead rt0 - U - {p}"
      then have "x \<noteq> p" by auto
      with cyc_released [OF c x] show "case gc_heap rt1 x of None \<Rightarrow> inn (kids rt1) U x + 0 = 0 \<and> weak rt0 x = 0
        | Some ob \<Rightarrow> inn (kids rt1) U x + 0 \<le> ref_count ob \<and> \<not> own rt0 x \<and> x \<in> set (gc_zero_ref_count_list rt)"
        by (auto simp: h g eq split: option.splits)
    qed
    show "\<forall>x\<in>set (gc_obj_list rt0). \<forall>ob. gc_heap rt1 x = Some ob \<longrightarrow> (\<exists>b0. bodies rt0 x = Some b0 \<and> body_le (body ob) b0)"
      using cyc_body [OF c] g(3) le_trans by (fastforce simp: h)
    show "\<forall>x. x \<notin> set (gc_obj_list rt0) \<longrightarrow> gc_heap rt1 x = gc_heap rt0 x"
    proof (intro allI impI)
      fix x assume x: "x \<notin> set (gc_obj_list rt0)"
      have e: "gc_heap rt x = gc_heap rt0 x" using cyc_lists(7) [OF c] x by blast
      have "g ob = ob" if "gc_heap rt0 x = Some ob" for ob
      proof -
        have "\<not> owned_type (body ob)" using w x that by (auto simp: gc_wf_def)
        then show ?thesis by (cases "body ob") (auto simp: g_def)
      qed
      then show "gc_heap rt1 x = gc_heap rt0 x" by (cases "gc_heap rt0 x") (auto simp: h e)
    qed
    show "set (tmp_obj_list rt) \<union> set (gc_zero_ref_count_list rt) = {x \<in> dead rt0. gc_heap rt1 x \<noteq> None}"
      using cyc_lists(4) [OF c] by (simp add: h)
  qed (use cyc_sets [OF c] cyc_lists [OF c] in simp_all)
  then show ?thesis by (simp add: rt1_def)
qed

lemma dead_not_running:
  assumes w: "gc_wf rt0" and p: "p \<in> dead rt0" and b: "bodies rt0 p = Some b0" "body_le b b0"
  shows "\<not> running b"
proof
  assume "running b"
  then have "running b0" using body_le_kind(5) [OF b(2)] by simp
  moreover obtain ob0 where "gc_heap rt0 p = Some ob0"
    "running (body ob0) \<longrightarrow> inn (kids rt0) (set (gc_obj_list rt0)) p < ref_count ob0"
    using w p by (auto simp: gc_wf_def dead_def)
  ultimately have "0 < outside rt0 p" using b(1) by (auto simp: bodies_def outside_def rc_def)
  then show False using dead_outside [OF p] by simp
qed

text \<open>All references of an object of the list are released, and then the object ends.\<close>

lemma free_refs:
  assumes w: "gc_wf rt0" and c: "cyc rt0 {} U {} no_refs rt" and p: "p \<in> U" "p \<in> dead rt0" "\<not> own rt0 p"
    and ob: "gc_heap rt p = Some ob"
  shows "\<exists>rt' U'. release_all (body_refs (body ob)) rt = Some rt' \<and> cyc rt0 {} U' {p} no_refs rt' \<and> U' \<subseteq> U - {p} \<and>
    bodies rt' p = Some (body ob)"
proof -
  have in_list: "p \<in> set (gc_obj_list rt0)" using p(2) by (simp add: dead_def)
  obtain b0 where b0: "bodies rt0 p = Some b0" "body_le (body ob) b0" using cyc_body [OF c in_list ob] by blast
  note nr = dead_not_running [OF w p(2) b0]
  have k: "kids rt p = mark_children (body ob)" using ob by (simp add: kids_of_def bodies_def)
  have c1: "cyc rt0 {} (U - {p}) {p} (\<lambda>x. rels_count (body_refs (body ob)) x + 0) rt"
    using cyc_begin [OF c _ p(1,2) dead_outside [OF p(2)]] by (simp add: k rels_count_body [OF nr])
  have "\<forall>r\<in>set (body_refs (body ob)). rel_spec rt0 {p} r"
    using rel_spec_all [OF w] body_refs_ok [OF w in_list b0 nr] p(3) by blast
  from release_all_keeps [OF this c1] obtain rt' U' where
    "release_all (body_refs (body ob)) rt = Some rt'" "cyc rt0 {} U' {p} no_refs rt'" "U' \<subseteq> U - {p}"
    "bodies rt' p = bodies rt p" by (auto simp: keeps_def)
  moreover have "bodies rt p = Some (body ob)" using ob by (simp add: bodies_def)
  ultimately show ?thesis by auto
qed

lemma free_object_end:
  assumes c: "cyc rt0 {} U {p} no_refs rt" and p: "\<not> own rt0 p" and ob: "gc_heap rt p = Some ob"
  shows "cyc rt0 {} U {} no_refs
    (let rt1 = remove_gc_object p rt in
     if ref_count ob = 0 \<and> weak rt0 p = 0 then js_free_rt_gc p rt1
     else rt1\<lparr>gc_zero_ref_count_list := gc_zero_ref_count_list rt1 @ [p]\<rparr>)"
proof (cases "ref_count ob = 0 \<and> weak rt0 p = 0")
  case True
  then have "inn (kids rt) U p = 0" using cyc_progress [OF c, of p] ob by simp
  then have "cyc rt0 {} U ({p} - {p}) no_refs (js_free_rt_gc p (remove_gc_object p rt))"
    by (intro cyc_end_free [OF c]) (use True in auto)
  then show ?thesis using True by (simp add: Let_def)
next
  case False
  define rt1 where "rt1 = remove_gc_object p rt"
  have "cyc rt0 {} U ({p} - {p}) no_refs (rt1\<lparr>gc_zero_ref_count_list := gc_zero_ref_count_list rt1 @ [p]\<rparr>)"
    by (rule cyc_end_keep [OF c _ p rt1_def]) simp
  then show ?thesis using False by (auto simp: Let_def rt1_def)
qed

lemma free_gc_object_spec:
  assumes w: "gc_wf rt0" and c: "cyc rt0 {} U {} no_refs rt" and p: "p \<in> U" "p \<in> dead rt0" "\<not> own rt0 p"
  shows "\<exists>rt' U'. free_gc_object p rt = Some rt' \<and> cyc rt0 {} U' {} no_refs rt' \<and> U' \<subseteq> U - {p}"
proof -
  have in_list: "p \<in> set (gc_obj_list rt0)" using p(2) by (simp add: dead_def)
  obtain ob where ob: "gc_heap rt p = Some ob" using cyc_unreleased [OF c p(1)] by blast
  obtain b0 where b0: "bodies rt0 p = Some b0" "body_le (body ob) b0" using cyc_body [OF c in_list ob] by blast
  have no: "\<not> owned_type (body ob)" using p(3) b0 body_le_kind(1) [OF b0(2)] by (simp add: own_def refers_def)
  have wk: "weak rt0 p = weakrefs (body ob)" using b0 body_le_kind(6) [OF b0(2)] by (simp add: weak_def)
  from free_refs [OF w c p ob] obtain rt1 U1 where
    r: "release_all (body_refs (body ob)) rt = Some rt1" "cyc rt0 {} U1 {p} no_refs rt1" "U1 \<subseteq> U - {p}"
      "bodies rt1 p = Some (body ob)" by blast
  obtain o1 where o1: "gc_heap rt1 p = Some o1" using cyc_progress [OF r(2), of p] by auto
  have ph: "phase rt = GC_PHASE_REMOVE_CYCLES" using cyc_sets(5) [OF c] .
  show ?thesis
  proof (cases "body ob")
    case (JSObject sh props cls wc)
    define rt2 where "rt2 = (let rt2 = remove_gc_object p rt1 in
        if ref_count o1 = 0 \<and> weak rt0 p = 0 then js_free_rt_gc p rt2
        else rt2\<lparr>gc_zero_ref_count_list := gc_zero_ref_count_list rt2 @ [p]\<rparr>)"
    from r(1) obtain y1 y2 where y: "release_all (concat (map prop_refs props)) rt = Some y1"
        "js_free_shape sh y1 = Some y2" "release_all (class_refs cls) y2 = Some rt1"
      by (auto simp: JSObject release_all_append bind_eq_Some_conv)
    have "free_gc_object p rt = Some rt2"
      using ob o1 ph wk
      by (simp add: free_gc_object_def JSObject free_object_def free_properties_release class_finalizer_release
          y rt2_def Let_def)
    moreover have "cyc rt0 {} U1 {} no_refs rt2"
      unfolding rt2_def by (rule free_object_end [OF r(2) p(3) o1])
    ultimately show ?thesis using r(3) by blast
  next
    case (FunctionBytecode cpool realm)
    have "free_gc_object p rt = free_or_keep p rt1"
      using ob r(1)
      by (auto simp: free_gc_object_def FunctionBytecode free_function_bytecode_def free_values_release
          free_realm_release release_all_append bind_eq_Some_conv)
    then show ?thesis using free_or_keep_spec [OF r(2) p(3)] wk r(3) by (auto simp: FunctionBytecode)
  next
    case (AsyncFunction completed func this stack r0 r1)
    note nr = dead_not_running [OF w p(2) b0]
    have "free_gc_object p rt = free_or_keep p rt1"
      using ob r(1) nr
      by (cases completed)
        (auto simp: free_gc_object_def AsyncFunction async_func_free_obj_def async_func_free_frame_def free_values_release
          release_all_append bind_eq_Some_conv)
    then show ?thesis using free_or_keep_spec [OF r(2) p(3)] wk r(3) by (auto simp: AsyncFunction)
  next
    case (ModuleDef attrs exports vals)
    have "free_gc_object p rt = free_or_keep p (unlink_module p rt1)"
      using ob r(1)
      by (auto simp: free_gc_object_def ModuleDef js_free_module_def_def free_values_release
          free_var_refs_release release_all_append bind_eq_Some_conv)
    then show ?thesis using free_or_keep_spec [OF cyc_unlink [OF w r(2)] p(3)] wk r(3) by (auto simp: ModuleDef)
  qed (use no in simp_all)
qed

section \<open>The loops\<close>

lemma cyc_move_owned:
  assumes c: "cyc rt0 {} U {} no_refs rt" and p: "p \<in> set (tmp_obj_list rt)" "own rt0 p" and rt1: "rt1 = remove_gc_object p rt"
  shows "cyc rt0 {} U {} no_refs (rt1\<lparr>gc_zero_ref_count_list := gc_zero_ref_count_list rt1 @ [p]\<rparr>)"
proof -
  define rt2 where "rt2 = rt1\<lparr>gc_zero_ref_count_list := gc_zero_ref_count_list rt1 @ [p]\<rparr>"
  have b: "bodies rt2 = bodies rt" by (simp add: rt2_def rt1)
  have h: "gc_heap rt2 = gc_heap rt" by (simp add: rt2_def rt1 remove_gc_object_def)
  have d: "distinct (tmp_obj_list rt)" "p \<notin> set (gc_zero_ref_count_list rt)"
    using cyc_lists(3) [OF c] p(1) by auto
  have "p \<in> dead rt0" using cyc_lists(4) [OF c] p(1) by blast
  then have "p \<notin> set (gc_obj_list rt)" using cyc_lists(2) [OF c] by (simp add: dead_def)
  then have lists: "gc_obj_list rt2 = gc_obj_list rt" "tmp_obj_list rt2 = filter (\<lambda>x. x \<noteq> p) (tmp_obj_list rt)"
    "gc_zero_ref_count_list rt2 = gc_zero_ref_count_list rt @ [p]" "phase rt2 = phase rt"
    using d by (simp_all add: rt2_def rt1 remove_gc_object_def remove1_idem remove1_filter)
  have "cyc rt0 {} U {} no_refs rt2"
    unfolding cyc_def h b lists
  proof (intro conjI)
    show "\<forall>x\<in>U. \<exists>ob. gc_heap rt x = Some ob \<and> ref_count ob = outside rt0 x + inn (kids rt) U x + 0 \<and>
        (own rt0 x \<and> x \<notin> {} \<longrightarrow> 0 < ref_count ob)"
      using cyc_unreleased [OF c] by blast
    show "\<forall>x\<in>gc_live rt0. \<exists>ob. gc_heap rt x = Some ob \<and> bodies rt0 x = Some (body ob) \<and> \<not> gc_mark ob"
      using cyc_live [OF c] by blast
    show "\<forall>x\<in>dead rt0 - U - {}. case gc_heap rt x of None \<Rightarrow> inn (kids rt) U x + 0 = 0 \<and> weak rt0 x = 0
        | Some ob \<Rightarrow> inn (kids rt) U x + 0 \<le> ref_count ob \<and> \<not> own rt0 x \<and> x \<in> set (gc_zero_ref_count_list rt @ [p])"
      using cyc_released [OF c] by (force split: option.splits)
    show "\<forall>x\<in>set (gc_obj_list rt0). \<forall>ob. gc_heap rt x = Some ob \<longrightarrow> (\<exists>b0. bodies rt0 x = Some b0 \<and> body_le (body ob) b0)"
      using cyc_body [OF c] by blast
    show "distinct (filter (\<lambda>x. x \<noteq> p) (tmp_obj_list rt) @ gc_zero_ref_count_list rt @ [p])"
      using cyc_lists(3) [OF c] d(2) by auto
    show "set (filter (\<lambda>x. x \<noteq> p) (tmp_obj_list rt)) \<union> set (gc_zero_ref_count_list rt @ [p]) =
        {x \<in> dead rt0. gc_heap rt x \<noteq> None}"
      using cyc_lists(4) [OF c] p(1) by auto
    show "set (filter (\<lambda>x. x \<noteq> p) (tmp_obj_list rt)) \<subseteq> U \<union> {}" using cyc_lists(5) [OF c] by auto
    show "\<forall>x\<in>set (gc_zero_ref_count_list rt @ [p]). own rt0 x \<or> x \<notin> U \<union> {}"
      using cyc_lists(6) [OF c] p(2) by auto
  qed (use cyc_sets [OF c] cyc_lists [OF c] in simp_all)
  then show ?thesis by (simp add: rt2_def)
qed

lemma gc_free_tmp_ends:
  assumes w: "gc_wf rt0"
  shows "cyc rt0 {} (fst z) {} no_refs (snd z) \<Longrightarrow>
    \<exists>rt' U'. gc_free_tmp (snd z) = Some rt' \<and> cyc rt0 {} U' {} no_refs rt' \<and> tmp_obj_list rt' = []"
proof (induction z rule: lex_induct [of "\<lambda>z. card (fst z)" "\<lambda>z. length (tmp_obj_list (snd z))"])
  case (1 z)
  obtain U rt where z: "z = (U, rt)" by (cases z)
  have c: "cyc rt0 {} U {} no_refs rt" using 1(2) by (simp add: z)
  show ?case
  proof (cases "tmp_obj_list rt")
    case Nil
    then have "gc_free_tmp rt = Some rt" by (simp add: gc_free_tmp.simps)
    then show ?thesis using c Nil z by auto
  next
    case (Cons p ps)
    have p: "p \<in> U" "p \<in> dead rt0" using cyc_lists(4,5) [OF c] Cons by auto
    then have in_list: "p \<in> set (gc_obj_list rt0)" by (simp add: dead_def)
    obtain ob where ob: "gc_heap rt p = Some ob" using cyc_unreleased [OF c p(1)] by blast
    have o: "owned_type (body ob) = own rt0 p"
      using cyc_body [OF c in_list ob] body_le_kind(1) by (auto simp: own_def refers_def)
    show ?thesis
    proof (cases "own rt0 p")
      case True
      define rt1 where "rt1 = remove_gc_object p rt"
      define rt2 where "rt2 = rt1\<lparr>gc_zero_ref_count_list := gc_zero_ref_count_list rt1 @ [p]\<rparr>"
      have c2: "cyc rt0 {} U {} no_refs rt2"
        unfolding rt2_def by (rule cyc_move_owned [OF c _ True rt1_def]) (simp add: Cons)
      have "length (tmp_obj_list rt2) < length (tmp_obj_list rt)"
        by (simp add: rt2_def rt1_def remove_gc_object_def Cons)
      with 1(1) [of "(U, rt2)"] c2 obtain rt' U' where
        "gc_free_tmp rt2 = Some rt'" "cyc rt0 {} U' {} no_refs rt'" "tmp_obj_list rt' = []" by (auto simp: z)
      moreover have "gc_free_tmp rt = gc_free_tmp rt2"
        using ob o True by (subst gc_free_tmp.simps) (simp add: Cons rt2_def rt1_def Let_def)
      ultimately show ?thesis by (auto simp: z)
    next
      case False
      from free_gc_object_spec [OF w c p False] obtain rt2 U2 where
        r: "free_gc_object p rt = Some rt2" "cyc rt0 {} U2 {} no_refs rt2" "U2 \<subseteq> U - {p}" by blast
      have "card U2 < card U"
        using r(3) p(1) finite_U [OF c] by (intro psubset_card_mono) auto
      with 1(1) [of "(U2, rt2)"] r(2) obtain rt' U' where
        "gc_free_tmp rt2 = Some rt'" "cyc rt0 {} U' {} no_refs rt'" "tmp_obj_list rt' = []" by (auto simp: z)
      moreover have "gc_free_tmp rt = gc_free_tmp rt2"
        using ob o False r(1) by (subst gc_free_tmp.simps) (simp add: Cons)
      ultimately show ?thesis by (auto simp: z)
    qed
  qed
qed

text \<open>Among the owned objects only contexts own others, which are shapes.\<close>

lemma owned_child:
  assumes w: "gc_wf rt0" and q: "q \<in> set (gc_obj_list rt0)" "own rt0 q" and x: "x \<in> set (kids rt0 q)" "own rt0 x"
  shows "refers (bodies rt0) is_context q \<and> refers (bodies rt0) is_shape x"
proof -
  obtain ob where ob: "gc_heap rt0 q = Some ob" "body_ok (bodies rt0) (body ob)"
    using w q(1) by (auto simp: gc_wf_def)
  have b: "bodies rt0 q = Some (body ob)" using ob(1) by (simp add: bodies_def)
  have x1: "x \<in> set (mark_children (body ob))" using x(1) b by (simp add: kids_of_def)
  have no: "\<not> refers (bodies rt0) (\<lambda>b. \<not> owned_type b) x" using x(2) own_not_refers by blast
  show ?thesis
  proof (cases "body ob")
    case (Context mods vals shapes)
    have "refers (bodies rt0) is_shape x"
      using x1 no ob(2)
      by (auto simp: Context JS_MarkContext_def list_all_iff val_ok_def opt_ok_def split: option.splits)
    then show ?thesis using b by (simp add: refers_def Context)
  qed (use x1 no ob(2) q(2) b in \<open>auto simp: val_ok_def opt_ok_def own_def refers_def split: option.splits\<close>)
qed

lemma all_released:
  assumes w: "gc_wf rt0" and c: "cyc rt0 {} U {} no_refs rt" and t: "tmp_obj_list rt = []"
  shows "U = gc_live rt0"
proof -
  have own: "own rt0 x" if "x \<in> U \<inter> dead rt0" for x
  proof -
    have "gc_heap rt x \<noteq> None" using cyc_unreleased [OF c, of x] that by auto
    then have "x \<in> set (gc_zero_ref_count_list rt)" using cyc_lists(4) [OF c] that t by auto
    then show ?thesis using cyc_lists(6) [OF c] that by auto
  qed
  have parent: "\<exists>q \<in> U \<inter> dead rt0. x \<in> set (kids rt0 q)" if x: "x \<in> U \<inter> dead rt0" for x
  proof -
    have "outside rt0 x = 0" using x dead_outside by auto
    then have "0 < inn (kids rt) U x" using cyc_unreleased [OF c, of x] own [OF x] x by auto
    then obtain q where q: "q \<in> U" "x \<in> set (kids rt q)" using inn_pos [OF finite_U [OF c]] by blast
    obtain ob where ob: "gc_heap rt q = Some ob" using cyc_unreleased [OF c q(1)] by blast
    have ql: "q \<in> set (gc_obj_list rt0)" using q(1) cyc_sets(2) [OF c] by auto
    obtain b0 where b0: "bodies rt0 q = Some b0" "body_le (body ob) b0" using cyc_body [OF c ql ob] by blast
    have "x \<in> set (mark_children (body ob))" using q(2) ob by (simp add: kids_of_def bodies_def)
    then have k: "x \<in> set (kids rt0 q)" using body_le_kind(7) [OF b0(2)] b0(1) by (auto simp: kids_of_def)
    have "q \<notin> gc_live rt0" using live_closed [OF w _ k] x by (auto simp: dead_def)
    then show ?thesis using q(1) ql k by (auto simp: dead_def)
  qed
  have "U \<inter> dead rt0 = {}"
  proof (rule ccontr)
    assume "U \<inter> dead rt0 \<noteq> {}"
    then obtain x where x: "x \<in> U \<inter> dead rt0" by blast
    from parent [OF x] obtain q where q: "q \<in> U \<inter> dead rt0" "x \<in> set (kids rt0 q)" by blast
    from parent [OF q(1)] obtain q2 where q2: "q2 \<in> U \<inter> dead rt0" "q \<in> set (kids rt0 q2)" by blast
    have "refers (bodies rt0) is_context q" "refers (bodies rt0) is_shape q"
      using owned_child [OF w _ own [OF q(1)] q(2) own [OF x]] owned_child [OF w _ own [OF q2(1)] q2(2) own [OF q(1)]]
        q(1) q2(1) by (auto simp: dead_def)
    then show False by (auto simp: refers_def split: option.splits elim: is_context.elims)
  qed
  then show ?thesis using cyc_sets(1,2) [OF c] by (auto simp: dead_def)
qed

lemma gc_free_zero_spec:
  assumes "distinct ps" "\<forall>p\<in>set ps. \<exists>ob. gc_heap rt p = Some ob \<and> \<not> owned_type (body ob)"
  shows "\<exists>rt'. gc_free_zero ps rt = Some rt' \<and> gc_obj_list rt' = gc_obj_list rt \<and> tmp_obj_list rt' = tmp_obj_list rt \<and>
    phase rt' = phase rt \<and>
    (\<forall>x. gc_heap rt' x = (if x \<in> set ps then (case gc_heap rt x of
         Some ob \<Rightarrow> if weakrefs (body ob) \<noteq> 0 then Some (ob\<lparr>gc_mark := False\<rparr>) else None | None \<Rightarrow> None)
       else gc_heap rt x))"
  using assms
proof (induction ps arbitrary: rt)
  case (Cons p ps)
  obtain ob where ob: "gc_heap rt p = Some ob" "\<not> owned_type (body ob)" using Cons.prems by auto
  define rt1 where "rt1 = (if weakrefs (body ob) \<noteq> 0 then rt\<lparr>gc_heap := (gc_heap rt)(p \<mapsto> ob\<lparr>gc_mark := False\<rparr>)\<rparr> else js_free_rt_gc p rt)"
  have h: "gc_heap rt1 x = (if x = p then (if weakrefs (body ob) \<noteq> 0 then Some (ob\<lparr>gc_mark := False\<rparr>) else None) else gc_heap rt x)" for x
    by (simp add: rt1_def js_free_rt_gc_def)
  have l: "gc_obj_list rt1 = gc_obj_list rt" "tmp_obj_list rt1 = tmp_obj_list rt" "phase rt1 = phase rt"
    by (simp_all add: rt1_def js_free_rt_gc_def)
  have run: "gc_free_zero (p # ps) rt = gc_free_zero ps rt1"
    using ob by (simp add: rt1_def set_mark_def)
  have "\<forall>q\<in>set ps. \<exists>ob. gc_heap rt1 q = Some ob \<and> \<not> owned_type (body ob)"
    using Cons.prems by (auto simp: h)
  from Cons.IH [OF _ this] Cons.prems(1) obtain rt' where r:
    "gc_free_zero ps rt1 = Some rt'" "gc_obj_list rt' = gc_obj_list rt1" "tmp_obj_list rt' = tmp_obj_list rt1" "phase rt' = phase rt1"
    "\<forall>x. gc_heap rt' x = (if x \<in> set ps then (case gc_heap rt1 x of
         Some ob \<Rightarrow> if weakrefs (body ob) \<noteq> 0 then Some (ob\<lparr>gc_mark := False\<rparr>) else None | None \<Rightarrow> None)
       else gc_heap rt1 x)" by auto
  have hp: "gc_heap rt' x = (if x \<in> set (p # ps) then (case gc_heap rt x of
         Some ob \<Rightarrow> if weakrefs (body ob) \<noteq> 0 then Some (ob\<lparr>gc_mark := False\<rparr>) else None | None \<Rightarrow> None)
       else gc_heap rt x)" for x
    using r(5) Cons.prems(1) ob(1) by (cases "x = p") (simp_all add: h)
  have "gc_free_zero (p # ps) rt = Some rt'" using run r(1) by (simp only:)
  moreover have "gc_obj_list rt' = gc_obj_list rt" "tmp_obj_list rt' = tmp_obj_list rt" "phase rt' = phase rt"
    using r(2-4) l by (simp_all only:)
  ultimately show ?case using hp by blast
qed simp

section \<open>The whole collection\<close>

text \<open>After the marking phases everything is still to be released.\<close>

lemma cyc_start:
  assumes w: "gc_wf rt0" and m: "marked_state rt0 rt"
  shows "cyc rt0 {} (set (gc_obj_list rt0)) {} no_refs (rt\<lparr>phase := GC_PHASE_REMOVE_CYCLES\<rparr>)"
proof -
  let ?rt = "rt\<lparr>phase := GC_PHASE_REMOVE_CYCLES\<rparr>"
  have b: "bodies ?rt = bodies rt0" using m by (simp add: marked_state_def)
  have heap0: "\<exists>ob ob0. gc_heap rt x = Some ob \<and> gc_heap rt0 x = Some ob0 \<and> body ob = body ob0 \<and>
      ref_count ob = ref_count ob0 \<and> 0 < ref_count ob0 \<and>
      ref_count ob0 = outside rt0 x + inn (kids rt0) (set (gc_obj_list rt0)) x" if x: "x \<in> set (gc_obj_list rt0)" for x
  proof -
    obtain ob0 where ob0: "gc_heap rt0 x = Some ob0" "0 < ref_count ob0" "inn (kids rt0) (set (gc_obj_list rt0)) x \<le> ref_count ob0"
      using w x by (auto simp: gc_wf_def)
    have "bodies rt x = bodies rt0 x" using m by (simp add: marked_state_def)
    then obtain ob where ob: "gc_heap rt x = Some ob" "body ob = body ob0" using ob0(1) by (auto simp: bodies_def)
    have "rc rt x = rc rt0 x" using m x by (simp add: marked_state_def)
    then have "ref_count ob = ref_count ob0" using ob ob0 by (simp add: rc_def)
    moreover have "ref_count ob0 = outside rt0 x + inn (kids rt0) (set (gc_obj_list rt0)) x"
      using ob0 by (simp add: outside_def rc_def)
    ultimately show ?thesis using ob ob0 by blast
  qed
  show ?thesis
    unfolding cyc_def b
  proof (intro conjI)
    show "\<forall>x\<in>set (gc_obj_list rt0). \<exists>ob. gc_heap ?rt x = Some ob \<and>
        ref_count ob = outside rt0 x + inn (kids rt0) (set (gc_obj_list rt0)) x + 0 \<and> (own rt0 x \<and> x \<notin> {} \<longrightarrow> 0 < ref_count ob)"
      using heap0 by fastforce
    show "\<forall>x\<in>gc_live rt0. \<exists>ob. gc_heap ?rt x = Some ob \<and> bodies rt0 x = Some (body ob) \<and> \<not> gc_mark ob"
    proof
      fix x assume x: "x \<in> gc_live rt0"
      then obtain ob where ob: "gc_heap rt x = Some ob" "\<not> gc_mark ob" using m by (auto simp: marked_state_def)
      have "bodies rt0 x = bodies rt x" using m by (simp add: marked_state_def)
      then show "\<exists>ob. gc_heap ?rt x = Some ob \<and> bodies rt0 x = Some (body ob) \<and> \<not> gc_mark ob"
        using ob by (simp add: bodies_def)
    qed
    show "\<forall>x\<in>set (gc_obj_list rt0). \<forall>ob. gc_heap ?rt x = Some ob \<longrightarrow> (\<exists>b0. bodies rt0 x = Some b0 \<and> body_le (body ob) b0)"
      using heap0 by (fastforce simp: bodies_def)
    have out: "gc_heap rt x = gc_heap rt0 x" if x: "x \<notin> set (gc_obj_list rt0)" for x
      using m x by (simp add: marked_state_def)
    show "\<forall>x. x \<notin> set (gc_obj_list rt0) \<longrightarrow> gc_heap ?rt x = gc_heap rt0 x" using out by simp
    show "set (tmp_obj_list ?rt) \<union> set (gc_zero_ref_count_list ?rt) = {x \<in> dead rt0. gc_heap ?rt x \<noteq> None}"
      using m heap0 by (fastforce simp: marked_state_def dead_def)
  qed (use m live_in_list [OF w] in \<open>auto simp: marked_state_def dead_def\<close>)
qed

end
