(* ===== verification/Gc_Props.thy ===== *)
theory Gc_Props
  imports Gc_Cycles
begin

text \<open>
  What the cycle collector promises: it frees exactly the objects that cannot be reached from a
  reference outside the heap, and leaves the heap well formed.
\<close>

section \<open>The bodies of live objects stay well formed\<close>











section \<open>The phases together\<close>





section \<open>Properties\<close>

text \<open>C8: The marking phases of the collector find exactly the garbage: on every well formed heap
  \<open>gc_decref\<close> and \<open>gc_scan\<close> end without a failed assertion, \<open>tmp_obj_list\<close> holds the objects
  that cannot be reached from an object with a reference from outside the heap, each once,
  \<open>gc_obj_list\<close> the others, and all reference counts and all bodies are what they were.\<close>

theorem gc_scan_finds_garbage:
  assumes "gc_wf rt"
  shows "\<exists>rt1 rt2. gc_decref rt = Some rt1 \<and> gc_scan rt1 = Some rt2 \<and>
    distinct (gc_obj_list rt2) \<and> set (gc_obj_list rt2) = gc_live rt \<and>
    distinct (tmp_obj_list rt2) \<and> set (tmp_obj_list rt2) = set (gc_obj_list rt) - gc_live rt \<and>
    (\<forall>p \<in> set (gc_obj_list rt). rc rt2 p = rc rt p) \<and> bodies rt2 = bodies rt"
  using gc_mark_phases [OF assms] by (auto simp: marked_state_def)


text \<open>A heap with a live object (0), the shape of all objects (1), and a cycle of two objects that
  nobody refers to (2 and 3), the second of which has a weak reference.\<close>

definition cycle_heap :: gc_rt where
  "cycle_heap = \<lparr>gc_heap = [0 \<mapsto> \<lparr>ref_count = 1, gc_mark = False, body = JSObject 1 [] PlainObject 0\<rparr>,
       1 \<mapsto> \<lparr>ref_count = 3, gc_mark = False, body = Shape None\<rparr>,
       2 \<mapsto> \<lparr>ref_count = 1, gc_mark = False, body = JSObject 1 [DataProp (JRef 3)] PlainObject 0\<rparr>,
       3 \<mapsto> \<lparr>ref_count = 1, gc_mark = False, body = JSObject 1 [DataProp (JRef 2)] PlainObject 1\<rparr>],
     gc_obj_list = [0, 1, 2, 3], gc_zero_ref_count_list = [], tmp_obj_list = [], phase = GC_PHASE_NONE\<rparr>"

lemma cycle_heap_wf: "gc_wf cycle_heap"
  by (auto simp: gc_wf_def cycle_heap_def inn_def kids_of_def bodies_def refers_def val_ok_def opt_ok_def split: if_splits)

lemma cycle_heap_live: "gc_live cycle_heap = {0, 1}"
proof -
  have out: "outside cycle_heap 0 = 1" "outside cycle_heap 1 = 0" "outside cycle_heap 2 = 0" "outside cycle_heap 3 = 0"
    by (simp_all add: outside_def rc_def inn_def cycle_heap_def kids_of_def bodies_def)
  have k: "kids cycle_heap 0 = [1]" "kids cycle_heap 1 = []"
    by (simp_all add: cycle_heap_def kids_of_def bodies_def)
  have "x \<in> {0, 1}" if "reach_from (kids cycle_heap) (set (gc_obj_list cycle_heap)) (outside cycle_heap) x" for x
    using that by induction (use out k in \<open>auto simp: cycle_heap_def\<close>)
  moreover have r0: "reach_from (kids cycle_heap) (set (gc_obj_list cycle_heap)) (outside cycle_heap) 0"
    by (rule reach_from.root) (use out in \<open>simp_all add: cycle_heap_def\<close>)
  moreover have "reach_from (kids cycle_heap) (set (gc_obj_list cycle_heap)) (outside cycle_heap) 1"
    by (rule reach_from.child [OF r0]) (simp add: k)
  ultimately show ?thesis by (auto simp: gc_live_def live_set_def)
qed

theorem gc_scan_finds_garbage_witness:
  "\<exists>rt1 rt2. gc_decref cycle_heap = Some rt1 \<and> gc_scan rt1 = Some rt2 \<and> set (tmp_obj_list rt2) = {2, 3}"
proof -
  have "set (gc_obj_list cycle_heap) - gc_live cycle_heap = {2, 3}"
    by (auto simp: cycle_heap_live) (auto simp: cycle_heap_def)
  then show ?thesis using gc_scan_finds_garbage [OF cycle_heap_wf] by auto
qed


end
