(* ===== verification/JsRope.thy ===== *)
theory JsRope
  imports JsString
begin

text \<open>
  String ropes of \<open>src/src/core/quickjs.c\<close>: reading, comparing, hashing, linearizing,
  concatenating and rebalancing.  A value is a string (\<open>JSString\<close>, with its width flag) or a
  rope (\<open>JSStringRope\<close>) with the length, width and depth that the code stores in it.

  Reference counts are not followed; where the code looks at one it is an argument.  The
  recursion of \<open>js_new_string_rope\<close> through \<open>js_rebalancee_string_rope\<close> has a number of
  levels as its argument, and running out of them is the outcome \<open>None\<close>, like a failed
  \<open>assert\<close> or an access outside an array.
\<close>

section \<open>Strings and ropes\<close>

datatype jstr = Str bool js_string | Rope nat bool nat jstr jstr

definition JS_STRING_ROPE_SHORT_LEN :: nat where "JS_STRING_ROPE_SHORT_LEN = 512"

definition JS_STRING_ROPE_SHORT2_LEN :: nat where "JS_STRING_ROPE_SHORT2_LEN = 8192"

definition JS_STRING_ROPE_MAX_DEPTH :: nat where "JS_STRING_ROPE_MAX_DEPTH = 60"

fun string_rope_get_len :: "jstr \<Rightarrow> nat" where
  "string_rope_get_len (Str w us) = length us"
| "string_rope_get_len (Rope len w d l r) = len"

fun rope_wide :: "jstr \<Rightarrow> bool" where
  "rope_wide (Str w us) = w"
| "rope_wide (Rope len w d l r) = w"

fun rope_depth :: "jstr \<Rightarrow> nat" where
  "rope_depth (Str w us) = 0"
| "rope_depth (Rope len w d l r) = d"

text \<open>Reading beyond a string is \<open>None\<close>.\<close>

fun string_rope_get :: "jstr \<Rightarrow> nat \<Rightarrow> u16 option" where
  "string_rope_get (Str w us) idx = rd us idx"
| "string_rope_get (Rope len w d l r) idx =
     (if idx < string_rope_get_len l then string_rope_get l idx
      else string_rope_get r (idx - string_rope_get_len l))"

section \<open>Hashing\<close>

fun hash_units :: "js_string \<Rightarrow> u32 \<Rightarrow> u32" where
  "hash_units [] h = h"
| "hash_units (u # us) h = hash_units us (h * 263 + ucast u)"

fun hash_string_rope :: "jstr \<Rightarrow> u32 \<Rightarrow> u32" where
  "hash_string_rope (Str w us) h = hash_units us h"
| "hash_string_rope (Rope len w d l r) h = hash_string_rope r (hash_string_rope l h)"

section \<open>Comparing\<close>

text \<open>The strings of a rope in order, with the stack of the ropes still to visit.\<close>

fun rope_iter_descend :: "jstr \<Rightarrow> jstr list \<Rightarrow> (js_string \<times> jstr list) option" where
  "rope_iter_descend (Str w us) stk = Some (us, stk)"
| "rope_iter_descend (Rope len w d l r) stk =
     (if length stk < JS_STRING_ROPE_MAX_DEPTH then rope_iter_descend l (r # stk) else None)"

definition string_rope_iter_init :: "jstr \<Rightarrow> jstr list" where
  "string_rope_iter_init v = [v]"

definition string_rope_iter_next :: "jstr list \<Rightarrow> (js_string option \<times> jstr list) option" where
  "string_rope_iter_next stk = (case stk of
       [] \<Rightarrow> Some (None, [])
     | v # stk' \<Rightarrow> do { (p, stk1) \<leftarrow> rope_iter_descend v stk'; Some (Some p, stk1) })"

text \<open>
  The difference of the first units that differ; \<open>memcmp\<close> promises only its sign for
  narrow strings, and only the sign is looked at.
\<close>

fun units_diff :: "js_string \<Rightarrow> js_string \<Rightarrow> int" where
  "units_diff (x # xs) (y # ys) = (if x = y then units_diff xs ys else uint x - uint y)"
| "units_diff _ _ = 0"

definition js_string_memcmp :: "js_string \<Rightarrow> nat \<Rightarrow> js_string \<Rightarrow> nat \<Rightarrow> nat \<Rightarrow> int option" where
  "js_string_memcmp p1 pos1 p2 pos2 len =
     do { xs \<leftarrow> grab p1 pos1 len; ys \<leftarrow> grab p2 pos2 len; Some (units_diff xs ys) }"

definition js_string_eq :: "js_string \<Rightarrow> js_string \<Rightarrow> bool option" where
  "js_string_eq p1 p2 =
     (if length p1 \<noteq> length p2 then Some False
      else do { res \<leftarrow> js_string_memcmp p1 0 p2 0 (length p1); Some (res = 0) })"

definition js_string_compare :: "js_string \<Rightarrow> js_string \<Rightarrow> int option" where
  "js_string_compare p1 p2 = do {
     res \<leftarrow> js_string_memcmp p1 0 p2 0 (min (length p1) (length p2));
     Some (if res = 0 then (if length p1 = length p2 then 0 else if length p1 < length p2 then - 1 else 1) else res) }"

fun rope_nodes :: "jstr \<Rightarrow> nat" where
  "rope_nodes (Str w us) = 1"
| "rope_nodes (Rope len w d l r) = 1 + rope_nodes l + rope_nodes r"

definition iter_nodes :: "js_string option \<Rightarrow> jstr list \<Rightarrow> nat" where
  "iter_nodes p stk = of_bool (p \<noteq> None) + sum_list (map rope_nodes stk)"

lemma rope_nodes_pos [simp]: "0 < rope_nodes v"
  by (cases v) simp_all

lemma descend_nodes:
  "rope_iter_descend v stk = Some (p, stk1) \<Longrightarrow>
   sum_list (map rope_nodes stk1) < rope_nodes v + sum_list (map rope_nodes stk)"
  by (induction v arbitrary: stk) (fastforce split: if_splits)+

lemma iter_next_nodes:
  "string_rope_iter_next stk = Some (q, stk1) \<Longrightarrow> iter_nodes q stk1 < iter_nodes (Some p) stk"
  by (cases stk) (auto simp: string_rope_iter_next_def iter_nodes_def dest!: descend_nodes split: bind_splits)

text \<open>
  The loop of \<open>js_string_rope_compare\<close>: the current strings with their positions, of which
  \<open>rope_advance\<close> moves one.
\<close>

definition rope_advance ::
  "js_string \<Rightarrow> nat \<Rightarrow> jstr list \<Rightarrow> (js_string option \<times> nat \<times> jstr list) option" where
  "rope_advance p pos it =
     (if pos \<ge> length p then do { (q, it1) \<leftarrow> string_rope_iter_next it; Some (q, 0, it1) }
      else Some (Some p, pos, it))"

lemma advance_nodes:
  assumes "rope_advance p pos it = Some (q, pos', it')"
  shows "iter_nodes q it' \<le> iter_nodes (Some p) it" "length p \<le> pos \<Longrightarrow> iter_nodes q it' < iter_nodes (Some p) it"
  using assms by (auto simp: rope_advance_def dest!: iter_next_nodes [where p = p] split: if_splits bind_splits)

lemma compare_loop_decreases:
  assumes "len \<noteq> 0" "l = min (min (length p1 - pos1) (length p2 - pos2)) len"
    "Some (q1, pos1', it1') = rope_advance p1 (pos1 + l) it1"
    "Some (q2, pos2', it2') = rope_advance p2 (pos2 + l) it2"
  shows "iter_nodes q1 it1' + iter_nodes q2 it2' + len - l < iter_nodes (Some p1) it1 + iter_nodes (Some p2) it2 + len"
proof -
  have "length p1 \<le> pos1 + l \<or> length p2 \<le> pos2 + l \<or> len - l < len"
    using assms(1,2) by auto
  then show ?thesis using advance_nodes [OF assms(3) [symmetric]] advance_nodes [OF assms(4) [symmetric]] by auto
qed

function rope_compare_loop ::
  "nat \<Rightarrow> js_string option \<Rightarrow> nat \<Rightarrow> jstr list \<Rightarrow> js_string option \<Rightarrow> nat \<Rightarrow> jstr list \<Rightarrow> int option" where
  "rope_compare_loop len (Some p1) pos1 it1 (Some p2) pos2 it2 =
     (if len = 0 then Some 0
      else let l = min (min (length p1 - pos1) (length p2 - pos2)) len in
        case js_string_memcmp p1 pos1 p2 pos2 l of
          None \<Rightarrow> None
        | Some res \<Rightarrow>
            if res \<noteq> 0 then Some res
            else case (rope_advance p1 (pos1 + l) it1, rope_advance p2 (pos2 + l) it2) of
              (Some (q1, pos1', it1'), Some (q2, pos2', it2')) \<Rightarrow>
                rope_compare_loop (len - l) q1 pos1' it1' q2 pos2' it2'
            | _ \<Rightarrow> None)"
| "rope_compare_loop len None pos1 it1 q2 pos2 it2 = (if len = 0 then Some 0 else None)"
| "rope_compare_loop len (Some p1) pos1 it1 None pos2 it2 = (if len = 0 then Some 0 else None)"
  by pat_completeness auto

termination
  by (relation "measure (\<lambda>(len, q1, pos1, it1, q2, pos2, it2). iter_nodes q1 it1 + iter_nodes q2 it2 + len)")
    (auto intro: compare_loop_decreases [OF _ refl])

declare rope_compare_loop.simps [simp del]

definition js_string_rope_compare :: "jstr \<Rightarrow> jstr \<Rightarrow> bool \<Rightarrow> int option" where
  "js_string_rope_compare op1 op2 eq_only =
     (let len1 = string_rope_get_len op1; len2 = string_rope_get_len op2 in
      if eq_only \<and> len1 \<noteq> len2 then Some 1
      else do {
        (p1, it1) \<leftarrow> string_rope_iter_next (string_rope_iter_init op1);
        (p2, it2) \<leftarrow> string_rope_iter_next (string_rope_iter_init op2);
        res \<leftarrow> rope_compare_loop (min len1 len2) p1 0 it1 p2 0 it2;
        Some (if res \<noteq> 0 then res else if len1 = len2 then 0 else if len1 < len2 then - 1 else 1) })"

section \<open>Linearizing\<close>

text \<open>
  A \<open>StringBuffer\<close>: the units written, the room in units, the width.  After an error, which
  is \<open>NULL\<close> here, no function does anything with the buffer.  \<open>slack\<close> gives the bytes that a
  reallocation yields beyond those asked for.
\<close>

record strbuf =
  sb_units :: js_string
  sb_size :: nat
  sb_wide :: bool

definition js_alloc_string :: "malloc_funcs \<Rightarrow> nat \<Rightarrow> bool \<Rightarrow> nat js" where
  "js_alloc_string mf max_len wide = js_malloc mf (16 + (if wide then 2 * max_len else max_len + 1))"

definition string_buffer_init2 :: "malloc_funcs \<Rightarrow> nat \<Rightarrow> bool \<Rightarrow> strbuf js" where
  "string_buffer_init2 mf n wide =
     js_bind (js_alloc_string mf n wide) (\<lambda>_. js_return \<lparr>sb_units = [], sb_size = n, sb_wide = wide\<rparr>)"

definition sb_widen :: "malloc_funcs \<Rightarrow> (nat \<Rightarrow> nat) \<Rightarrow> strbuf \<Rightarrow> nat \<Rightarrow> strbuf js" where
  "sb_widen mf slack b n =
     js_try (js_realloc mf (16 + 2 * n)) (js_free b)
       (\<lambda>_. js_return (b\<lparr>sb_size := n + slack (16 + 2 * n) div 2, sb_wide := True\<rparr>))"

definition string_buffer_realloc :: "malloc_funcs \<Rightarrow> (nat \<Rightarrow> nat) \<Rightarrow> strbuf \<Rightarrow> nat \<Rightarrow> u16 \<Rightarrow> strbuf js" where
  "string_buffer_realloc mf slack b new_len c =
     (if new_len > JS_STRING_LEN_MAX then js_throw string_too_long
      else let new_size = min (max new_len (sb_size b * 3 div 2)) JS_STRING_LEN_MAX in
        if \<not> sb_wide b \<and> c \<ge> 0x100 then sb_widen mf slack b new_size
        else let nbytes = 16 + (if sb_wide b then 2 * new_size else new_size + 1) in
          js_try (js_realloc mf nbytes) (js_free b)
            (\<lambda>_. js_return (b\<lparr>sb_size :=
               min (new_size + (if sb_wide b then slack nbytes div 2 else slack nbytes)) JS_STRING_LEN_MAX\<rparr>)))"

definition string_buffer_write8 :: "malloc_funcs \<Rightarrow> (nat \<Rightarrow> nat) \<Rightarrow> strbuf \<Rightarrow> js_string \<Rightarrow> strbuf js" where
  "string_buffer_write8 mf slack b us =
     js_bind (if length (sb_units b) + length us > sb_size b
              then string_buffer_realloc mf slack b (length (sb_units b) + length us) 0
              else js_return b)
       (\<lambda>b. js_return (b\<lparr>sb_units := sb_units b @ us\<rparr>))"

definition string_buffer_write16 :: "malloc_funcs \<Rightarrow> (nat \<Rightarrow> nat) \<Rightarrow> strbuf \<Rightarrow> js_string \<Rightarrow> strbuf js" where
  "string_buffer_write16 mf slack b us =
     (let c = foldl (OR) 0 us in
      js_bind (if length (sb_units b) + length us > sb_size b
               then string_buffer_realloc mf slack b (length (sb_units b) + length us) c
               else if \<not> sb_wide b \<and> c \<ge> 0x100 then sb_widen mf slack b (sb_size b)
               else js_return b)
        (\<lambda>b. js_return (b\<lparr>sb_units := sb_units b @ (if sb_wide b then us else map (\<lambda>u. u AND 0xFF) us)\<rparr>)))"

definition string_buffer_concat :: "malloc_funcs \<Rightarrow> (nat \<Rightarrow> nat) \<Rightarrow> strbuf \<Rightarrow> bool \<Rightarrow> js_string \<Rightarrow> nat \<Rightarrow> nat \<Rightarrow> strbuf js" where
  "string_buffer_concat mf slack b wide us from to =
     (if to \<le> from then js_return b
      else js_bind (js_lift (grab us from (to - from))) (\<lambda>vs.
        if wide then string_buffer_write16 mf slack b vs else string_buffer_write8 mf slack b vs))"

fun string_buffer_concat_value :: "malloc_funcs \<Rightarrow> (nat \<Rightarrow> nat) \<Rightarrow> strbuf \<Rightarrow> jstr \<Rightarrow> strbuf js" where
  "string_buffer_concat_value mf slack b (Str w us) = string_buffer_concat mf slack b w us 0 (length us)"
| "string_buffer_concat_value mf slack b (Rope len w d l r) =
     js_bind (string_buffer_concat_value mf slack b l) (\<lambda>b. string_buffer_concat_value mf slack b r)"

definition strbuf_end :: "malloc_funcs \<Rightarrow> strbuf \<Rightarrow> jstr js" where
  "strbuf_end mf b =
     (if sb_units b = [] then js_bind (js_free b) (\<lambda>_. js_return (Str False []))
      else if length (sb_units b) < sb_size b then
        (\<lambda>rt. Some (Ret (Str (sb_wide b) (sb_units b)),
           snd (js_realloc_rt mf (16 + (if sb_wide b then 2 * length (sb_units b) else length (sb_units b) + 1)) rt)))
      else js_return (Str (sb_wide b) (sb_units b)))"

text \<open>The string, and what the rope is for those that still refer to it.\<close>

definition js_linearize_string_rope ::
  "malloc_funcs \<Rightarrow> (nat \<Rightarrow> nat) \<Rightarrow> nat \<Rightarrow> jstr \<Rightarrow> (jstr \<times> jstr) js" where
  "js_linearize_string_rope mf slack ref_count rope = (case rope of
       Str w us \<Rightarrow> (\<lambda>rt. None)
     | Rope len w d l r \<Rightarrow>
         (if (case r of Str w2 us2 \<Rightarrow> us2 = [] | _ \<Rightarrow> False) then js_return (l, rope)
          else js_bind (string_buffer_init2 mf len w) (\<lambda>b.
            js_bind (string_buffer_concat_value mf slack b rope) (\<lambda>b.
            js_bind (strbuf_end mf b) (\<lambda>ret.
            js_return (ret, if ref_count > 1 then Rope len w d ret (Str False []) else rope))))))"

section \<open>Concatenation\<close>

definition JS_ConcatString1 :: "malloc_funcs \<Rightarrow> bool \<Rightarrow> js_string \<Rightarrow> bool \<Rightarrow> js_string \<Rightarrow> jstr js" where
  "JS_ConcatString1 mf w1 us1 w2 us2 =
     (let len = length us1 + length us2 in
      if len > JS_STRING_LEN_MAX then js_throw string_too_long
      else js_bind (js_alloc_string mf len (w1 \<or> w2)) (\<lambda>_. js_return (Str (w1 \<or> w2) (us1 @ us2))))"

text \<open>
  In place when the first string has no other reference and room for the second, or there is
  nothing to append.
\<close>

definition JS_ConcatStringInPlace :: "nat \<Rightarrow> nat \<Rightarrow> bool \<Rightarrow> js_string \<Rightarrow> jstr \<Rightarrow> jstr option" where
  "JS_ConcatStringInPlace ref_count size1 w1 us1 op2 = (case op2 of
       Rope _ _ _ _ _ \<Rightarrow> None
     | Str w2 us2 \<Rightarrow>
         (if us2 = [] then Some (Str w1 us1)
          else if ref_count \<noteq> 1 then None
          else if w1 then
            (if size1 \<ge> 16 + 2 * (length us1 + length us2) then Some (Str w1 (us1 @ us2)) else None)
          else if \<not> w2 \<and> size1 \<ge> 16 + length us1 + length us2 + 1 then Some (Str w1 (us1 @ us2))
          else None))"

definition JS_ConcatString2 :: "malloc_funcs \<Rightarrow> nat \<Rightarrow> nat \<Rightarrow> jstr \<Rightarrow> jstr \<Rightarrow> jstr js" where
  "JS_ConcatString2 mf ref_count size1 op1 op2 = (case (op1, op2) of
       (Str w1 us1, Str w2 us2) \<Rightarrow>
         (case JS_ConcatStringInPlace ref_count size1 w1 us1 op2 of
            Some s \<Rightarrow> js_return s
          | None \<Rightarrow> JS_ConcatString1 mf w1 us1 w2 us2)
     | _ \<Rightarrow> (\<lambda>rt. None))"

text \<open>A call whose failure the caller handles: \<open>h\<close> runs with the exception pending.\<close>

definition js_either :: "'a js \<Rightarrow> 'b js \<Rightarrow> ('a \<Rightarrow> 'b js) \<Rightarrow> 'b js" where
  "js_either m h k = (\<lambda>rt. case m rt of
       None \<Rightarrow> None
     | Some (Null, rt1) \<Rightarrow> h rt1
     | Some (Ret x, rt1) \<Rightarrow> k x rt1)"

definition js_exception :: "'a js" where
  "js_exception = (\<lambda>rt. Some (Null, rt))"

definition ROPE_N_BUCKETS :: nat where "ROPE_N_BUCKETS = 44"

definition rope_bucket_len :: "nat list" where
  "rope_bucket_len =
     [1, 2, 3, 5, 8, 13, 21, 34, 55, 89, 144, 233, 377, 610, 987, 1597, 2584, 4181, 6765, 10946,
      17711, 28657, 46368, 75025, 121393, 196418, 317811, 514229, 832040, 1346269, 2178309, 3524578,
      5702887, 9227465, 14930352, 24157817, 39088169, 63245986, 102334155, 165580141,
      267914296, 433494437, 701408733, 1134903170]"

type_synonym rope_buckets = "jstr option list"

text \<open>
  The function \<open>js_new_string_rope\<close> is the argument \<open>nr\<close> of the functions that it is
  mutually recursive with.  The loops over the index \<open>i\<close> of a bucket go through the list of the
  buckets from \<open>i\<close> on; an index beyond the table is \<open>None\<close>.  The result says whether
  all went well, and gives the buckets in any case.
\<close>

definition keep_bucket :: "jstr option \<Rightarrow> (bool \<times> rope_buckets) js \<Rightarrow> (bool \<times> rope_buckets) js" where
  "keep_bucket b m = js_bind m (\<lambda>(ok, bs). js_return (ok, b # bs))"

fun place_rope :: "(jstr \<Rightarrow> jstr \<Rightarrow> jstr js) \<Rightarrow> rope_buckets \<Rightarrow> jstr \<Rightarrow> (bool \<times> rope_buckets) js" where
  "place_rope nr [] a = (\<lambda>rt. None)"
| "place_rope nr (None # bs) a = js_return (True, Some a # bs)"
| "place_rope nr (Some b # bs) a =
     js_either (nr b a) (js_return (False, None # bs)) (\<lambda>a. keep_bucket None (place_rope nr bs a))"

text \<open>\<open>fs\<close> is \<open>rope_bucket_len\<close> from \<open>i + 1\<close> on.\<close>

fun insert_leaf ::
  "(jstr \<Rightarrow> jstr \<Rightarrow> jstr js) \<Rightarrow> nat \<Rightarrow> nat list \<Rightarrow> rope_buckets \<Rightarrow> jstr option \<Rightarrow> jstr \<Rightarrow> (bool \<times> rope_buckets) js" where
  "insert_leaf nr len (f # fs) (b # bs) a val =
     (if len \<ge> f then
        (case b of
           None \<Rightarrow> keep_bucket None (insert_leaf nr len fs bs a val)
         | Some b \<Rightarrow>
             (case a of
                None \<Rightarrow> keep_bucket None (insert_leaf nr len fs bs (Some b) val)
              | Some a \<Rightarrow> js_either (nr b a) (js_return (False, None # bs))
                  (\<lambda>a. keep_bucket None (insert_leaf nr len fs bs (Some a) val))))
      else
        (case a of
           None \<Rightarrow> place_rope nr (b # bs) val
         | Some a \<Rightarrow> js_either (nr a val) (js_return (False, b # bs)) (\<lambda>a. place_rope nr (b # bs) a)))"
| "insert_leaf nr len _ _ a val = (\<lambda>rt. None)"

text \<open>The results of the two recursive calls are not looked at.\<close>

fun js_rebalancee_string_rope_rec ::
  "(jstr \<Rightarrow> jstr \<Rightarrow> jstr js) \<Rightarrow> rope_buckets \<Rightarrow> jstr \<Rightarrow> (bool \<times> rope_buckets) js" where
  "js_rebalancee_string_rope_rec nr bs (Str w us) =
     (if us = [] then js_return (True, bs)
      else insert_leaf nr (length us) (tl rope_bucket_len) bs None (Str w us))"
| "js_rebalancee_string_rope_rec nr bs (Rope len w d l r) =
     js_bind (js_rebalancee_string_rope_rec nr bs l) (\<lambda>(_, bs).
     js_bind (js_rebalancee_string_rope_rec nr bs r) (\<lambda>(_, bs). js_return (True, bs)))"

fun collect_ropes :: "(jstr \<Rightarrow> jstr \<Rightarrow> jstr js) \<Rightarrow> rope_buckets \<Rightarrow> jstr option \<Rightarrow> jstr option js" where
  "collect_ropes nr [] a = js_return a"
| "collect_ropes nr (None # bs) a = collect_ropes nr bs a"
| "collect_ropes nr (Some b # bs) None = collect_ropes nr bs (Some b)"
| "collect_ropes nr (Some b # bs) (Some a) = js_bind (nr b a) (\<lambda>a. collect_ropes nr bs (Some a))"

definition js_rebalancee_string_rope :: "(jstr \<Rightarrow> jstr \<Rightarrow> jstr js) \<Rightarrow> jstr \<Rightarrow> jstr js" where
  "js_rebalancee_string_rope nr rope =
     js_bind (js_rebalancee_string_rope_rec nr (replicate ROPE_N_BUCKETS None) rope) (\<lambda>(ok, bs).
     if \<not> ok then js_exception
     else js_bind (collect_ropes nr bs None) (\<lambda>a.
       case a of None \<Rightarrow> js_return (Str False []) | Some a \<Rightarrow> js_return a))"

fun js_new_string_rope :: "malloc_funcs \<Rightarrow> nat \<Rightarrow> jstr \<Rightarrow> jstr \<Rightarrow> jstr js" where
  "js_new_string_rope mf 0 op1 op2 = (\<lambda>rt. None)"
| "js_new_string_rope mf (Suc n) op1 op2 =
     (let len = string_rope_get_len op1 + string_rope_get_len op2;
          d = max (rope_depth op1) (rope_depth op2) + 1;
          r = Rope len (rope_wide op1 \<or> rope_wide op2) d op1 op2
      in if len > JS_STRING_LEN_MAX then js_throw string_too_long
         else js_bind (js_malloc mf 48) (\<lambda>_.
           if d > JS_STRING_ROPE_MAX_DEPTH then js_rebalancee_string_rope (js_new_string_rope mf n) r
           else js_return r))"

text \<open>
  The arguments of \<open>JS_ConcatString\<close> are converted to strings by \<open>to_string\<close> when they are
  none; \<open>refs\<close> and \<open>size1\<close> are the reference count and the usable size of the first
  string.  A string that the code has just duplicated has two references or more.
\<close>

definition concat_strings :: "malloc_funcs \<Rightarrow> nat \<Rightarrow> nat \<Rightarrow> nat \<Rightarrow> jstr \<Rightarrow> jstr \<Rightarrow> jstr js" where
  "concat_strings mf n refs size1 op1 op2 = (case (op1, op2) of
       (Str w1 us1, Str w2 us2) \<Rightarrow>
         (if us2 = [] then js_return op1
          else if length us2 \<le> JS_STRING_ROPE_SHORT_LEN \<and> length us1 \<le> JS_STRING_ROPE_SHORT2_LEN
          then JS_ConcatString2 mf refs size1 op1 op2
          else js_new_string_rope mf n op1 op2)
     | (Rope len w d l r, Str w2 us2) \<Rightarrow>
         (if us2 = [] then js_return op1
          else if length us2 \<le> JS_STRING_ROPE_SHORT_LEN \<and>
             (case r of Str w3 us3 \<Rightarrow> length us3 \<le> JS_STRING_ROPE_SHORT_LEN | _ \<Rightarrow> False)
          then js_bind (JS_ConcatString2 mf 2 0 r op2) (\<lambda>val. js_new_string_rope mf n l val)
          else js_new_string_rope mf n op1 op2)
     | (Str w1 us1, Rope len w d l r) \<Rightarrow>
         (if us1 = [] then js_return op2
          else if (case l of Str w3 us3 \<Rightarrow> length us3 \<le> JS_STRING_ROPE_SHORT_LEN | _ \<Rightarrow> False)
          then js_bind (JS_ConcatString2 mf refs size1 op1 l) (\<lambda>val. js_new_string_rope mf n val r)
          else js_new_string_rope mf n op1 op2)
     | _ \<Rightarrow> js_new_string_rope mf n op1 op2)"

definition JS_ConcatString ::
  "('v \<Rightarrow> jstr js) \<Rightarrow> malloc_funcs \<Rightarrow> nat \<Rightarrow> nat \<Rightarrow> nat \<Rightarrow> jstr + 'v \<Rightarrow> jstr + 'v \<Rightarrow> jstr js" where
  "JS_ConcatString to_string mf n refs size1 op1 op2 =
     js_bind (case op1 of Inl s \<Rightarrow> js_return s | Inr v \<Rightarrow> to_string v) (\<lambda>s1.
     js_bind (case op2 of Inl s \<Rightarrow> js_return s | Inr v \<Rightarrow> to_string v) (\<lambda>s2.
     concat_strings mf n refs size1 s1 s2))"

end
