(* ===== verification/JsRope_Proofs.thy ===== *)
theory JsRope_Proofs
  imports JsRope
begin

text \<open>
  What the rope operations compute, against the units of a rope in order: reading, hashing,
  comparing and linearizing.
\<close>

section \<open>The units of a rope\<close>

fun rope_units :: "jstr \<Rightarrow> js_string" where
  "rope_units (Str w us) = us"
| "rope_units (Rope len w d l r) = rope_units l @ rope_units r"

fun rope_wf :: "jstr \<Rightarrow> bool" where
  "rope_wf (Str w us) = (length us \<le> JS_STRING_LEN_MAX \<and> (w \<or> (\<forall>u \<in> set us. u < 0x100)))"
| "rope_wf (Rope len w d l r) = (rope_wf l \<and> rope_wf r \<and> len = length (rope_units l) + length (rope_units r) \<and>
     len \<le> JS_STRING_LEN_MAX \<and> (rope_wide l \<or> rope_wide r \<longrightarrow> w) \<and> max (rope_depth l) (rope_depth r) < d)"

lemma rope_len [simp]: "rope_wf v \<Longrightarrow> string_rope_get_len v = length (rope_units v)"
  by (cases v) simp_all

lemma string_rope_get_nth: "rope_wf v \<Longrightarrow> string_rope_get v idx = rd (rope_units v) idx"
  by (induction v arbitrary: idx) (auto simp: rd_def nth_append)

lemma hash_units_append: "hash_units (xs @ ys) h = hash_units ys (hash_units xs h)"
  by (induction xs arbitrary: h) simp_all

lemma hash_string_rope_units: "hash_string_rope v h = hash_units (rope_units v) h"
  by (induction v arbitrary: h) (simp_all add: hash_units_append)

section \<open>Comparing\<close>

lemma units_diff_append:
  "length xs = length ys \<Longrightarrow>
   units_diff (xs @ xs') (ys @ ys') = (if units_diff xs ys \<noteq> 0 then units_diff xs ys else units_diff xs' ys')"
  by (induction xs ys rule: list_induct2) (auto simp: word_uint_eq_iff)

lemma units_diff_0: "length xs = length ys \<Longrightarrow> units_diff xs ys = 0 \<longleftrightarrow> xs = ys"
  by (induction xs ys rule: list_induct2) (auto simp: word_uint_eq_iff)

lemma units_diff_lexordp:
  "length xs = length ys \<Longrightarrow>
   sgn (units_diff xs ys) = (if xs = ys then 0 else if ord_class.lexordp xs ys then - 1 else 1)"
proof (induction xs ys rule: list_induct2)
  case (Cons x xs y ys)
  have "sgn (uint x - uint y) = (if x = y then 0 else if x < y then - 1 else 1)"
    by (auto simp: word_less_def word_uint_eq_iff)
  then show ?case using Cons by (auto simp: not_less_iff_gr_or_eq)
qed simp

fun stk_ok :: "jstr list \<Rightarrow> bool" where
  "stk_ok [] = True"
| "stk_ok (v # stk) = (rope_wf v \<and> rope_depth v + length stk \<le> JS_STRING_ROPE_MAX_DEPTH \<and> stk_ok stk)"

definition stk_units :: "jstr list \<Rightarrow> js_string" where
  "stk_units stk = concat (map rope_units stk)"

lemma stk_units_simps [simp]: "stk_units [] = []" "stk_units (v # stk) = rope_units v @ stk_units stk"
  by (simp_all add: stk_units_def)

lemma descend_spec:
  "rope_wf v \<Longrightarrow> rope_depth v + length stk \<le> JS_STRING_ROPE_MAX_DEPTH \<Longrightarrow> stk_ok stk \<Longrightarrow>
   \<exists>p stk1. rope_iter_descend v stk = Some (p, stk1) \<and> stk_ok stk1 \<and> p @ stk_units stk1 = rope_units v @ stk_units stk"
proof (induction v arbitrary: stk)
  case (Rope len w d l r)
  have "length stk < JS_STRING_ROPE_MAX_DEPTH" using Rope.prems by simp
  moreover have "\<exists>p stk1. rope_iter_descend l (r # stk) = Some (p, stk1) \<and> stk_ok stk1 \<and>
      p @ stk_units stk1 = rope_units l @ stk_units (r # stk)"
    by (rule Rope.IH(1)) (use Rope.prems in auto)
  ultimately show ?case by auto
qed simp

definition rem_units :: "js_string option \<Rightarrow> nat \<Rightarrow> jstr list \<Rightarrow> js_string" where
  "rem_units q pos stk = (case q of None \<Rightarrow> [] | Some p \<Rightarrow> drop pos p) @ stk_units stk"

definition pos_ok :: "js_string option \<Rightarrow> nat \<Rightarrow> jstr list \<Rightarrow> bool" where
  "pos_ok q pos stk = (stk_ok stk \<and> (case q of None \<Rightarrow> stk = [] | Some p \<Rightarrow> pos \<le> length p))"

lemma iter_next_spec:
  assumes "stk_ok stk"
  shows "\<exists>q stk1. string_rope_iter_next stk = Some (q, stk1) \<and> pos_ok q 0 stk1 \<and> rem_units q 0 stk1 = stk_units stk"
proof (cases stk)
  case (Cons v stk')
  then obtain p stk1 where "rope_iter_descend v stk' = Some (p, stk1)" "stk_ok stk1"
    "p @ stk_units stk1 = rope_units v @ stk_units stk'"
    using assms descend_spec [of v stk'] by auto
  then show ?thesis using Cons by (auto simp: string_rope_iter_next_def rem_units_def pos_ok_def)
qed (simp add: string_rope_iter_next_def rem_units_def pos_ok_def)

lemma advance_spec:
  assumes "stk_ok stk" "pos \<le> length p"
  shows "\<exists>q pos' stk1. rope_advance p pos stk = Some (q, pos', stk1) \<and> pos_ok q pos' stk1 \<and>
     rem_units q pos' stk1 = drop pos p @ stk_units stk"
proof (cases "length p \<le> pos")
  case True
  from iter_next_spec [OF assms(1)] obtain q stk1 where
    "string_rope_iter_next stk = Some (q, stk1)" "pos_ok q 0 stk1" "rem_units q 0 stk1 = stk_units stk" by blast
  then show ?thesis using True by (simp add: rope_advance_def)
qed (simp add: rope_advance_def assms rem_units_def pos_ok_def)

lemma take_split:
  "l \<le> length (drop pos p) \<Longrightarrow> l \<le> len \<Longrightarrow>
   take len (drop pos p @ zs) = take l (drop pos p) @ take (len - l) (drop (pos + l) p @ zs)"
proof -
  assume "l \<le> length (drop pos p)" "l \<le> len"
  then have "take len (drop pos p @ zs) = take l (drop pos p @ zs) @ take (len - l) (drop l (drop pos p @ zs))"
    by (metis le_add_diff_inverse take_add)
  then show ?thesis using \<open>l \<le> length (drop pos p)\<close> by (simp add: add.commute)
qed

lemma compare_loop_spec:
  assumes "pos_ok q1 pos1 it1" "pos_ok q2 pos2 it2"
    "len \<le> length (rem_units q1 pos1 it1)" "len \<le> length (rem_units q2 pos2 it2)"
  shows "rope_compare_loop len q1 pos1 it1 q2 pos2 it2 =
     Some (units_diff (take len (rem_units q1 pos1 it1)) (take len (rem_units q2 pos2 it2)))"
  using assms
proof (induction len q1 pos1 it1 q2 pos2 it2 rule: rope_compare_loop.induct)
  case (1 len p1 pos1 it1 p2 pos2 it2)
  define l where "l = min (min (length p1 - pos1) (length p2 - pos2)) len"
  show ?case
  proof (cases "len = 0")
    case False
    have pos: "pos1 + l \<le> length p1" "pos2 + l \<le> length p2" "l \<le> len" "stk_ok it1" "stk_ok it2"
      using "1.prems"(1,2) by (auto simp: pos_ok_def l_def)
    obtain q1 p1' st1 where a1: "rope_advance p1 (pos1 + l) it1 = Some (q1, p1', st1)" "pos_ok q1 p1' st1"
      "rem_units q1 p1' st1 = drop (pos1 + l) p1 @ stk_units it1" using advance_spec [OF pos(4,1)] by blast
    obtain q2 p2' st2 where a2: "rope_advance p2 (pos2 + l) it2 = Some (q2, p2', st2)" "pos_ok q2 p2' st2"
      "rem_units q2 p2' st2 = drop (pos2 + l) p2 @ stk_units it2" using advance_spec [OF pos(5,2)] by blast
    define x1 x2 where "x1 = take l (drop pos1 p1)" and "x2 = take l (drop pos2 p2)"
    have cmp: "js_string_memcmp p1 pos1 p2 pos2 l = Some (units_diff x1 x2)"
      using pos by (simp add: js_string_memcmp_def grab_inside x1_def x2_def)
    have len: "length x1 = l" "length x2 = l" using pos by (simp_all add: x1_def x2_def)
    have t1: "take len (rem_units (Some p1) pos1 it1) = x1 @ take (len - l) (rem_units q1 p1' st1)"
      and t2: "take len (rem_units (Some p2) pos2 it2) = x2 @ take (len - l) (rem_units q2 p2' st2)"
      using take_split [of l pos1 p1 len "stk_units it1"] take_split [of l pos2 p2 len "stk_units it2"] pos
      unfolding a1(3) a2(3) x1_def x2_def by (simp_all add: rem_units_def del: take_append)
    have m: "len - l \<le> length (rem_units q1 p1' st1)" "len - l \<le> length (rem_units q2 p2' st2)"
      using "1.prems"(3,4) pos unfolding a1(3) a2(3) by (simp_all add: rem_units_def)
    show ?thesis
    proof (cases "units_diff x1 x2 = 0")
      case True
      have "rope_compare_loop (len - l) q1 p1' st1 q2 p2' st2 =
          Some (units_diff (take (len - l) (rem_units q1 p1' st1)) (take (len - l) (rem_units q2 p2' st2)))"
        by (rule "1.IH" [OF False l_def cmp _ refl a1(1) refl refl a2(1) refl refl a1(2) a2(2) m]) (simp add: True)
      then show ?thesis using False True unfolding t1 t2
        by (simp add: rope_compare_loop.simps l_def [symmetric] cmp a1(1) a2(1) units_diff_append len)
    next
      case nz: False
      then show ?thesis using False unfolding t1 t2
        by (simp add: rope_compare_loop.simps l_def [symmetric] cmp units_diff_append len)
    qed
  qed (simp add: rope_compare_loop.simps)
qed (simp_all add: rope_compare_loop.simps pos_ok_def rem_units_def)

definition rope_ok :: "jstr \<Rightarrow> bool" where
  "rope_ok v = (rope_wf v \<and> rope_depth v \<le> JS_STRING_ROPE_MAX_DEPTH)"

lemma iter_init_spec:
  assumes "rope_ok v"
  shows "\<exists>q stk. string_rope_iter_next (string_rope_iter_init v) = Some (q, stk) \<and> pos_ok q 0 stk \<and>
     rem_units q 0 stk = rope_units v"
  using iter_next_spec [of "[v]"] assms by (simp add: string_rope_iter_init_def rope_ok_def)

lemma rope_compare_spec:
  assumes "rope_ok a" "rope_ok b"
  shows "js_string_rope_compare a b eq_only = Some (
    let xs = rope_units a; ys = rope_units b; n = min (length xs) (length ys) in
    if eq_only \<and> length xs \<noteq> length ys then 1
    else if take n xs \<noteq> take n ys then units_diff (take n xs) (take n ys)
    else if length xs = length ys then 0 else if length xs < length ys then - 1 else 1)"
proof -
  obtain q1 it1 where 1: "string_rope_iter_next (string_rope_iter_init a) = Some (q1, it1)" "pos_ok q1 0 it1"
    "rem_units q1 0 it1 = rope_units a" using iter_init_spec [OF assms(1)] by blast
  obtain q2 it2 where 2: "string_rope_iter_next (string_rope_iter_init b) = Some (q2, it2)" "pos_ok q2 0 it2"
    "rem_units q2 0 it2 = rope_units b" using iter_init_spec [OF assms(2)] by blast
  define n where "n = min (length (rope_units a)) (length (rope_units b))"
  have "rope_compare_loop n q1 0 it1 q2 0 it2 = Some (units_diff (take n (rope_units a)) (take n (rope_units b)))"
    using compare_loop_spec [OF 1(2) 2(2), of n] 1(3) 2(3) by (simp add: n_def)
  moreover have "units_diff (take n (rope_units a)) (take n (rope_units b)) = 0 \<longleftrightarrow>
      take n (rope_units a) = take n (rope_units b)"
    by (rule units_diff_0) (simp add: n_def)
  moreover have "string_rope_get_len a = length (rope_units a)" "string_rope_get_len b = length (rope_units b)"
    using assms by (simp_all add: rope_ok_def)
  ultimately show ?thesis using 1(1) 2(1) by (simp add: js_string_rope_compare_def Let_def n_def)
qed

lemma lexordp_take:
  fixes xs ys :: js_string
  assumes "n = min (length xs) (length ys)" "take n xs \<noteq> take n ys"
  shows "ord_class.lexordp xs ys \<longleftrightarrow> ord_class.lexordp (take n xs) (take n ys)"
  using assms(2) unfolding assms(1)
proof (induction xs arbitrary: ys)
  case (Cons x xs)
  then show ?case by (cases ys) auto
qed simp

lemma lexordp_prefix:
  fixes xs ys :: js_string
  assumes "n = min (length xs) (length ys)" "take n xs = take n ys" "xs \<noteq> ys"
  shows "ord_class.lexordp xs ys \<longleftrightarrow> length xs < length ys"
  using assms(2,3) unfolding assms(1)
proof (induction xs arbitrary: ys)
  case Nil
  then show ?case by (cases ys) auto
next
  case (Cons x xs)
  then show ?case by (cases ys) auto
qed

section \<open>Linearizing\<close>

text \<open>A buffer of the right size and width takes the units as they are.\<close>

lemma concat_value_spec:
  "rope_wf v \<Longrightarrow> (rope_wide v \<Longrightarrow> sb_wide b) \<Longrightarrow>
   length (sb_units b) + length (rope_units v) \<le> sb_size b \<Longrightarrow>
   string_buffer_concat_value mf slack b v = js_return (b\<lparr>sb_units := sb_units b @ rope_units v\<rparr>)"
proof (induction v arbitrary: b)
  case (Str w us)
  then show ?case
    by (cases "us = []") (simp_all add: string_buffer_concat_def string_buffer_write8_def string_buffer_write16_def
      js_bind_def js_try_def js_return_def js_lift_def grab_inside Let_def fun_eq_iff)
next
  case (Rope len w d l r)
  have "string_buffer_concat_value mf slack b l = js_return (b\<lparr>sb_units := sb_units b @ rope_units l\<rparr>)"
    by (rule Rope.IH(1)) (use Rope.prems in auto)
  moreover have "string_buffer_concat_value mf slack (b\<lparr>sb_units := sb_units b @ rope_units l\<rparr>) r =
      js_return (b\<lparr>sb_units := sb_units b @ rope_units l @ rope_units r\<rparr>)"
    using Rope.IH(2) [of "b\<lparr>sb_units := sb_units b @ rope_units l\<rparr>"] Rope.prems by simp
  ultimately show ?case by (simp add: js_bind_def js_try_def js_return_def fun_eq_iff)
qed

text \<open>The runtime state after one allocation.\<close>

lemma js_malloc_cases:
  obtains "js_malloc mf n rt = Some (Null, rt\<lparr>mseq := mseq rt + 1, exc := Some (InternalError ''out of memory'')\<rparr>)"
      "\<not> mf_ok mf (mseq rt) n"
  | "js_malloc mf n rt = Some (Ret (mseq rt), rt\<lparr>mseq := mseq rt + 1, live := live rt + 1\<rparr>)" "mf_ok mf (mseq rt) n"
  by (cases "mf_ok mf (mseq rt) n")
    (simp_all add: js_malloc_def js_malloc_rt_def JS_ThrowOutOfMemory_def js_throw_def)

lemma js_bind_return [simp]: "js_bind (js_return x) k = k x"
  by (simp add: js_bind_def js_try_def js_return_def)

lemma js_bind_assoc: "js_bind (js_bind m k) h = js_bind m (\<lambda>x. js_bind (k x) h)"
  by (auto simp: js_bind_def js_try_def js_return_def fun_eq_iff split: option.splits prod.splits ret.splits)

lemma linearize_unfold:
  assumes "rope_wf (Rope len w d l r)" "\<not> (case r of Str w2 us2 \<Rightarrow> us2 = [] | _ \<Rightarrow> False)"
  shows "js_linearize_string_rope mf slack refs (Rope len w d l r) =
    js_bind (js_alloc_string mf len w) (\<lambda>_.
    js_bind (strbuf_end mf \<lparr>sb_units = rope_units l @ rope_units r, sb_size = len, sb_wide = w\<rparr>) (\<lambda>ret.
    js_return (ret, if refs > 1 then Rope len w d ret (Str False []) else Rope len w d l r)))"
proof -
  have "string_buffer_concat_value mf slack \<lparr>sb_units = [], sb_size = len, sb_wide = w\<rparr> (Rope len w d l r) =
      js_return \<lparr>sb_units = rope_units l @ rope_units r, sb_size = len, sb_wide = w\<rparr>"
    using concat_value_spec [of "Rope len w d l r" "\<lparr>sb_units = [], sb_size = len, sb_wide = w\<rparr>" mf slack] assms(1) by simp
  then show ?thesis
    unfolding js_linearize_string_rope_def jstr.case if_not_P [OF assms(2)] string_buffer_init2_def
    by (simp add: js_bind_assoc del: string_buffer_concat_value.simps)
qed

lemma strbuf_end_spec:
  assumes "length us = n"
  shows "strbuf_end mf \<lparr>sb_units = us, sb_size = n, sb_wide = w\<rparr> =
     (if us = [] then js_bind (js_free \<lparr>sb_units = us, sb_size = n, sb_wide = w\<rparr>) (\<lambda>_. js_return (Str False []))
      else js_return (Str w us))"
  using assms by (simp add: strbuf_end_def)

end
