(* ===== verification/JsRope_Balance.thy ===== *)
theory JsRope_Balance
  imports JsRope_Proofs
begin

text \<open>
  Rebalancing.  Bucket \<open>i\<close> holds a rope of at least \<open>rope_bucket_len ! i\<close> units and of depth at
  most \<open>2 * i\<close>: with fewer than \<open>rope_bucket_len ! 30\<close> units in all, no rope of the
  rebalancing is deeper than 59, and the recursion ends at once.
\<close>

section \<open>What an operation promises\<close>

text \<open>
  \<open>rope_sat mf I P m\<close>: \<open>m\<close> ends, keeps a pending exception pending, fails with an exception and
  only when the allocator does, and otherwise returns a value with \<open>I\<close>, which has
  \<open>P\<close> too unless an exception is pending.
\<close>

definition rope_sat :: "malloc_funcs \<Rightarrow> ('a \<Rightarrow> bool) \<Rightarrow> ('a \<Rightarrow> bool) \<Rightarrow> 'a js \<Rightarrow> bool" where
  "rope_sat mf I P m = (\<forall>rt. \<exists>r rt'. m rt = Some (r, rt') \<and> (exc rt \<noteq> None \<longrightarrow> exc rt' \<noteq> None) \<and>
     (\<not> mf_may_fail mf \<longrightarrow> r \<noteq> Null \<and> exc rt' = exc rt) \<and>
     (case r of Null \<Rightarrow> exc rt' \<noteq> None | Ret x \<Rightarrow> I x \<and> (exc rt' = None \<longrightarrow> P x)))"

named_theorems rope_rules \<open>rules for the contracts of rope operations\<close>

lemma rope_sat_cases:
  assumes "rope_sat mf I P m"
  obtains (null) rt' where "m rt = Some (Null, rt')" "exc rt' \<noteq> None" "mf_may_fail mf"
  | (ret) x rt' where "m rt = Some (Ret x, rt')" "I x" "exc rt' = None \<longrightarrow> P x \<and> exc rt = None"
      "mf_may_fail mf \<or> exc rt' = exc rt"
proof -
  from assms obtain r rt' where "m rt = Some (r, rt')" "exc rt \<noteq> None \<longrightarrow> exc rt' \<noteq> None"
    "\<not> mf_may_fail mf \<longrightarrow> r \<noteq> Null \<and> exc rt' = exc rt"
    "case r of Null \<Rightarrow> exc rt' \<noteq> None | Ret x \<Rightarrow> I x \<and> (exc rt' = None \<longrightarrow> P x)"
    unfolding rope_sat_def by blast
  then show thesis using null ret by (cases r) auto
qed

lemma rope_sat_return [rope_rules]: "I x \<Longrightarrow> P x \<Longrightarrow> rope_sat mf I P (js_return x)"
  by (simp add: rope_sat_def js_return_def)

lemma rope_sat_malloc [rope_rules]: "rope_sat mf (\<lambda>_. True) (\<lambda>_. True) (js_malloc mf n)"
  unfolding rope_sat_def
proof
  fix rt
  show "\<exists>r rt'. js_malloc mf n rt = Some (r, rt') \<and> (exc rt \<noteq> None \<longrightarrow> exc rt' \<noteq> None) \<and>
     (\<not> mf_may_fail mf \<longrightarrow> r \<noteq> Null \<and> exc rt' = exc rt) \<and>
     (case r of Null \<Rightarrow> exc rt' \<noteq> None | Ret x \<Rightarrow> True \<and> (exc rt' = None \<longrightarrow> True))"
    by (cases rule: js_malloc_cases [of mf n rt]) (auto simp: mf_may_fail_def)
qed

lemma rope_sat_mono:
  "rope_sat mf I P m \<Longrightarrow> (\<And>x. I x \<Longrightarrow> I' x) \<Longrightarrow> (\<And>x. I x \<Longrightarrow> P x \<Longrightarrow> P' x) \<Longrightarrow> rope_sat mf I' P' m"
  by (unfold rope_sat_def, elim all_forward ex_forward) (auto split: ret.splits)

lemma rope_sat_bind:
  assumes "rope_sat mf I1 P1 m" "\<And>x. I1 x \<Longrightarrow> rope_sat mf I (\<lambda>y. P1 x \<longrightarrow> P y) (k x)"
  shows "rope_sat mf I P (js_bind m k)"
  unfolding rope_sat_def
proof
  fix rt
  show "\<exists>r rt'. js_bind m k rt = Some (r, rt') \<and> (exc rt \<noteq> None \<longrightarrow> exc rt' \<noteq> None) \<and>
     (\<not> mf_may_fail mf \<longrightarrow> r \<noteq> Null \<and> exc rt' = exc rt) \<and>
     (case r of Null \<Rightarrow> exc rt' \<noteq> None | Ret x \<Rightarrow> I x \<and> (exc rt' = None \<longrightarrow> P x))"
  proof (cases rule: rope_sat_cases [OF assms(1), of rt])
    case (1 rt1)
    then show ?thesis by (simp add: js_bind_def js_try_def js_return_def)
  next
    case (2 x rt1)
    show ?thesis
      by (cases rule: rope_sat_cases [OF assms(2) [OF 2(2)], of rt1]) (use 2 in \<open>auto simp: js_bind_def js_try_def\<close>)
  qed
qed

lemma rope_sat_either:
  assumes "rope_sat mf I1 P1 m" "I y" "\<And>x. I1 x \<Longrightarrow> rope_sat mf I (\<lambda>y. P1 x \<longrightarrow> P y) (k x)"
  shows "rope_sat mf I P (js_either m (js_return y) k)"
  unfolding rope_sat_def
proof
  fix rt
  show "\<exists>r rt'. js_either m (js_return y) k rt = Some (r, rt') \<and> (exc rt \<noteq> None \<longrightarrow> exc rt' \<noteq> None) \<and>
     (\<not> mf_may_fail mf \<longrightarrow> r \<noteq> Null \<and> exc rt' = exc rt) \<and>
     (case r of Null \<Rightarrow> exc rt' \<noteq> None | Ret x \<Rightarrow> I x \<and> (exc rt' = None \<longrightarrow> P x))"
  proof (cases rule: rope_sat_cases [OF assms(1), of rt])
    case (1 rt1)
    then show ?thesis using assms(2) by (auto simp: js_either_def js_return_def)
  next
    case (2 x rt1)
    show ?thesis
      by (cases rule: rope_sat_cases [OF assms(3) [OF 2(2)], of rt1]) (use 2 in \<open>auto simp: js_either_def\<close>)
  qed
qed

section \<open>The table\<close>

definition ROPE_SAFE_LEN :: nat where "ROPE_SAFE_LEN = 2178309"

lemma bucket_table:
  "length rope_bucket_len = 44" "rope_bucket_len ! 0 = 1"
  by (simp_all add: rope_bucket_len_def)

lemma bucket_shape:
  "successively (\<lambda>a b. b \<le> 2 * a) rope_bucket_len" "sorted rope_bucket_len"
  "rope_bucket_len ! 30 = ROPE_SAFE_LEN"
  by (simp_all add: rope_bucket_len_def ROPE_SAFE_LEN_def)

lemma bucket_step: "i < 43 \<Longrightarrow> rope_bucket_len ! Suc i \<le> 2 * rope_bucket_len ! i"
  using bucket_shape(1) by (simp add: successively_conv_nth bucket_table)

lemma bucket_index:
  assumes "i < 44" "rope_bucket_len ! i \<le> n" "n < ROPE_SAFE_LEN"
  shows "i \<le> 29"
proof (rule ccontr)
  assume "\<not> i \<le> 29"
  then have "rope_bucket_len ! 30 \<le> rope_bucket_len ! i"
    using bucket_shape(2) assms(1) by (intro sorted_nth_mono) (simp_all add: bucket_table)
  then show False using assms(2,3) by (simp add: bucket_shape(3))
qed

section \<open>Buckets\<close>

definition opt_units :: "jstr option \<Rightarrow> js_string" where
  "opt_units a = (case a of None \<Rightarrow> [] | Some v \<Rightarrow> rope_units v)"

lemma opt_units_simps [simp]: "opt_units None = []" "opt_units (Some v) = rope_units v"
  by (simp_all add: opt_units_def)

text \<open>The units of the buckets, those with the greater index first, and what bucket \<open>i\<close> may hold.\<close>

fun bucket_units :: "rope_buckets \<Rightarrow> js_string" where
  "bucket_units [] = []"
| "bucket_units (b # bs) = bucket_units bs @ opt_units b"

fun buckets_ok :: "nat \<Rightarrow> rope_buckets \<Rightarrow> bool" where
  "buckets_ok i [] = True"
| "buckets_ok i (b # bs) = ((case b of None \<Rightarrow> True | Some v \<Rightarrow>
       rope_wf v \<and> rope_bucket_len ! i \<le> length (rope_units v) \<and> rope_depth v \<le> 2 * i) \<and> buckets_ok (Suc i) bs)"

definition filled :: "nat \<Rightarrow> rope_buckets \<Rightarrow> nat \<Rightarrow> bool \<times> rope_buckets \<Rightarrow> bool" where
  "filled i bs n = (\<lambda>(ok, bs'). buckets_ok i bs' \<and> length bs' = length bs \<and>
     length (bucket_units bs') \<le> length (bucket_units bs) + n)"

definition filled_with :: "rope_buckets \<Rightarrow> js_string \<Rightarrow> bool \<times> rope_buckets \<Rightarrow> bool" where
  "filled_with bs us = (\<lambda>(ok, bs'). ok \<and> bucket_units bs' = bucket_units bs @ us)"

definition joins :: "malloc_funcs \<Rightarrow> (jstr \<Rightarrow> jstr \<Rightarrow> jstr js) \<Rightarrow> bool" where
  "joins mf nr = (\<forall>a b. rope_wf a \<longrightarrow> rope_wf b \<longrightarrow> rope_depth a \<le> 59 \<longrightarrow> rope_depth b \<le> 59 \<longrightarrow>
     length (rope_units a) + length (rope_units b) < ROPE_SAFE_LEN \<longrightarrow>
     rope_sat mf (\<lambda>r. rope_wf r \<and> rope_depth r = max (rope_depth a) (rope_depth b) + 1 \<and>
       rope_units r = rope_units a @ rope_units b) (\<lambda>_. True) (nr a b))"

lemma joinsD:
  "joins mf nr \<Longrightarrow> rope_wf a \<Longrightarrow> rope_wf b \<Longrightarrow> rope_depth a \<le> 59 \<Longrightarrow> rope_depth b \<le> 59 \<Longrightarrow>
     length (rope_units a) + length (rope_units b) < ROPE_SAFE_LEN \<Longrightarrow>
     rope_sat mf (\<lambda>r. rope_wf r \<and> rope_depth r = max (rope_depth a) (rope_depth b) + 1 \<and>
       rope_units r = rope_units a @ rope_units b) (\<lambda>_. True) (nr a b)"
  unfolding joins_def by blast

lemma rope_sat_keep:
  assumes "rope_sat mf I P m" "\<And>ok bs. I (ok, bs) \<Longrightarrow> I' (ok, b # bs)" "\<And>ok bs. P (ok, bs) \<Longrightarrow> P' (ok, b # bs)"
  shows "rope_sat mf I' P' (keep_bucket b m)"
  unfolding keep_bucket_def
  by (rule rope_sat_bind [OF assms(1)]) (auto intro!: rope_sat_return assms(2,3) split: prod.split)

lemma place_sat:
  assumes nr: "joins mf nr"
  shows "i < 44 \<Longrightarrow> i + length bs = 44 \<Longrightarrow> buckets_ok i bs \<Longrightarrow> rope_wf a \<Longrightarrow> rope_depth a \<le> 2 * i \<Longrightarrow>
    rope_bucket_len ! i \<le> length (rope_units a) \<Longrightarrow>
    length (bucket_units bs) + length (rope_units a) < ROPE_SAFE_LEN \<Longrightarrow>
    rope_sat mf (filled i bs (length (rope_units a))) (filled_with bs (rope_units a)) (place_rope nr bs a)"
proof (induction bs arbitrary: i a)
  case (Cons b bs)
  have i: "i \<le> 29" using bucket_index [of i "length (rope_units a)"] Cons.prems by simp
  show ?case
  proof (cases b)
    case None
    then show ?thesis using Cons.prems by (auto intro!: rope_sat_return simp: filled_def filled_with_def)
  next
    case (Some v)
    have step: "rope_sat mf (\<lambda>r. rope_wf r \<and> rope_depth r = max (rope_depth v) (rope_depth a) + 1 \<and>
        rope_units r = rope_units v @ rope_units a) (\<lambda>_. True) (nr v a)"
      by (rule joinsD [OF nr]) (use Cons.prems Some i in auto)
    have nxt: "rope_bucket_len ! Suc i \<le> 2 * rope_bucket_len ! i" using bucket_step i by simp
    show ?thesis unfolding Some place_rope.simps
    proof (rule rope_sat_either [OF step])
      show "filled i (Some v # bs) (length (rope_units a)) (False, None # bs)"
        using Cons.prems Some by (auto simp: filled_def)
    next
      fix r assume r: "rope_wf r \<and> rope_depth r = max (rope_depth v) (rope_depth a) + 1 \<and>
        rope_units r = rope_units v @ rope_units a"
      have "rope_sat mf (filled (Suc i) bs (length (rope_units r))) (filled_with bs (rope_units r)) (place_rope nr bs r)"
        by (rule Cons.IH) (use Cons.prems Some i r nxt in auto)
      then show "rope_sat mf (filled i (Some v # bs) (length (rope_units a)))
          (\<lambda>y. True \<longrightarrow> filled_with (Some v # bs) (rope_units a) y) (keep_bucket None (place_rope nr bs r))"
        by (rule rope_sat_keep) (use r in \<open>auto simp: filled_def filled_with_def\<close>)
    qed
  qed
qed simp

text \<open>What the first loop carries: the ropes of the buckets before \<open>i\<close>, joined.\<close>

definition carried :: "nat \<Rightarrow> jstr option \<Rightarrow> bool" where
  "carried i a = (case a of None \<Rightarrow> True | Some v \<Rightarrow> rope_wf v \<and> rope_depth v < 2 * i \<and> rope_depth v \<le> 59)"

lemma join_carried:
  assumes "joins mf nr" "rope_wf v" "rope_depth v \<le> 2 * i" "i \<le> 29" "carried i (Some u)"
    "length (rope_units v) + length (rope_units u) < ROPE_SAFE_LEN"
  shows "rope_sat mf (\<lambda>r. carried (Suc i) (Some r) \<and> rope_units r = rope_units v @ rope_units u) (\<lambda>_. True) (nr v u)"
proof (rule rope_sat_mono)
  show "rope_sat mf (\<lambda>r. rope_wf r \<and> rope_depth r = max (rope_depth v) (rope_depth u) + 1 \<and>
       rope_units r = rope_units v @ rope_units u) (\<lambda>_. True) (nr v u)"
    by (rule joinsD) (use assms in \<open>auto simp: carried_def\<close>)
qed (use assms in \<open>auto simp: carried_def\<close>)

text \<open>The end of the first loop: the string joins what has been carried and finds its place.\<close>

lemma settle_sat:
  assumes nr: "joins mf nr" and i: "i < 44" "i \<le> 29" "i + length bs = 44" "buckets_ok i bs" "carried i a"
    and val: "rope_wf val" "rope_depth val = 0" "rope_bucket_len ! i \<le> length (rope_units val)"
    and total: "length (bucket_units bs) + length (opt_units a) + length (rope_units val) < ROPE_SAFE_LEN"
  shows "rope_sat mf (filled i bs (length (opt_units a) + length (rope_units val)))
      (filled_with bs (opt_units a @ rope_units val))
      (case a of None \<Rightarrow> place_rope nr bs val
       | Some a \<Rightarrow> js_either (nr a val) (js_return (False, bs)) (\<lambda>a. place_rope nr bs a))"
proof -
  have go: "rope_sat mf (filled i bs (length (rope_units c))) (filled_with bs (rope_units c)) (place_rope nr bs c)"
    if "rope_wf c" "rope_depth c \<le> 2 * i" "rope_units c = opt_units a @ rope_units val" for c
    by (rule place_sat [OF nr]) (use i val total that in auto)
  show ?thesis
  proof (cases a)
    case None
    then show ?thesis using go [of val] val by simp
  next
    case a: (Some u)
    have "rope_sat mf (\<lambda>r. rope_wf r \<and> rope_depth r = max (rope_depth u) (rope_depth val) + 1 \<and>
        rope_units r = rope_units u @ rope_units val) (\<lambda>_. True) (nr u val)"
      by (rule joinsD [OF nr]) (use i val total a in \<open>auto simp: carried_def\<close>)
    then show ?thesis unfolding a option.case
    proof (rule rope_sat_either)
      fix r assume r: "rope_wf r \<and> rope_depth r = max (rope_depth u) (rope_depth val) + 1 \<and>
          rope_units r = rope_units u @ rope_units val"
      then show "rope_sat mf (filled i bs (length (opt_units (Some u)) + length (rope_units val)))
          (\<lambda>y. True \<longrightarrow> filled_with bs (opt_units (Some u) @ rope_units val) y) (place_rope nr bs r)"
        using go [of r] i(5) val a by (simp add: carried_def)
    qed (use i in \<open>auto simp: filled_def\<close>)
  qed
qed

lemma insert_up:
  assumes nr: "joins mf nr" and i: "i \<le> 29" "buckets_ok i (b # bs)" "carried i a"
    and go: "\<And>c. carried (Suc i) c \<Longrightarrow> opt_units c = opt_units b @ opt_units a \<Longrightarrow> rope_sat mf I P (k c)"
    and fail: "\<And>v. b = Some v \<Longrightarrow> I (False, None # bs)"
    and total: "length (opt_units b) + length (opt_units a) < ROPE_SAFE_LEN"
  shows "rope_sat mf I P
     (case b of None \<Rightarrow> k a
      | Some b \<Rightarrow> (case a of None \<Rightarrow> k (Some b)
          | Some a \<Rightarrow> js_either (nr b a) (js_return (False, None # bs)) (\<lambda>a. k (Some a))))"
proof (cases b)
  case None
  have "carried (Suc i) a" using i(3) by (auto simp: carried_def split: option.splits)
  from go [OF this] show ?thesis using None by simp
next
  case b: (Some v)
  show ?thesis
  proof (cases a)
    case None
    have "carried (Suc i) b" using i b by (auto simp: carried_def)
    from go [OF this] show ?thesis using None b by simp
  next
    case a: (Some u)
    have "rope_sat mf (\<lambda>r. carried (Suc i) (Some r) \<and> rope_units r = rope_units v @ rope_units u) (\<lambda>_. True) (nr v u)"
      by (rule join_carried [OF nr]) (use i b a total in auto)
    then show ?thesis unfolding a b option.case
    proof (rule rope_sat_either)
      fix r assume "carried (Suc i) (Some r) \<and> rope_units r = rope_units v @ rope_units u"
      then show "rope_sat mf I (\<lambda>y. True \<longrightarrow> P y) (k (Some r))" using go [of "Some r"] a b by simp
    qed (use fail b in auto)
  qed
qed

lemma insert_sat:
  assumes nr: "joins mf nr"
  shows "i < 44 \<Longrightarrow> i + length bs = 44 \<Longrightarrow> fs = drop (Suc i) rope_bucket_len \<Longrightarrow> buckets_ok i bs \<Longrightarrow> carried i a \<Longrightarrow>
    rope_wf val \<Longrightarrow> rope_depth val = 0 \<Longrightarrow> rope_bucket_len ! i \<le> length (rope_units val) \<Longrightarrow>
    length (bucket_units bs) + length (opt_units a) + length (rope_units val) < ROPE_SAFE_LEN \<Longrightarrow>
    rope_sat mf (filled i bs (length (opt_units a) + length (rope_units val)))
      (filled_with bs (opt_units a @ rope_units val)) (insert_leaf nr (length (rope_units val)) fs bs a val)"
proof (induction bs arbitrary: i fs a)
  case (Cons b bs)
  let ?fs = "drop (Suc (Suc i)) rope_bucket_len"
  have i: "i \<le> 29" using bucket_index [of i "length (rope_units val)"] Cons.prems by simp
  then have fs: "fs = rope_bucket_len ! Suc i # ?fs"
    using Cons.prems(3) by (simp add: Cons_nth_drop_Suc [symmetric] bucket_table)
  show ?case
  proof (cases "rope_bucket_len ! Suc i \<le> length (rope_units val)")
    case up: True
    have "rope_sat mf (filled i (b # bs) (length (opt_units a) + length (rope_units val)))
        (filled_with (b # bs) (opt_units a @ rope_units val))
        (keep_bucket None (insert_leaf nr (length (rope_units val)) ?fs bs c val))"
      if "carried (Suc i) c" "opt_units c = opt_units b @ opt_units a" for c
    proof (rule rope_sat_keep)
      show "rope_sat mf (filled (Suc i) bs (length (opt_units c) + length (rope_units val)))
          (filled_with bs (opt_units c @ rope_units val)) (insert_leaf nr (length (rope_units val)) ?fs bs c val)"
        by (rule Cons.IH) (use Cons.prems i up that in auto)
    qed (use that in \<open>auto simp: filled_def filled_with_def\<close>)
    from insert_up [OF nr i Cons.prems(4,5) this] show ?thesis
      using up Cons.prems(4,9) unfolding fs by (simp add: filled_def)
  next
    case False
    then show ?thesis using settle_sat [OF nr Cons.prems(1) i Cons.prems(2,4-9)] unfolding fs by simp
  qed
qed simp

section \<open>Rebalancing a rope\<close>

lemma rec_sat:
  assumes nr: "joins mf nr"
  shows "rope_wf v \<Longrightarrow> length bs = 44 \<Longrightarrow> buckets_ok 0 bs \<Longrightarrow>
    length (bucket_units bs) + length (rope_units v) < ROPE_SAFE_LEN \<Longrightarrow>
    rope_sat mf (\<lambda>x. filled 0 bs (length (rope_units v)) x \<and> (fst x \<or> 0 = rope_depth v)) (filled_with bs (rope_units v))
      (js_rebalancee_string_rope_rec nr bs v)"
proof (induction v arbitrary: bs)
  case (Str w us)
  show ?case
  proof (cases "us = []")
    case True
    then show ?thesis using Str by (auto intro!: rope_sat_return simp: filled_def filled_with_def)
  next
    case False
    have "rope_sat mf (filled 0 bs (length (opt_units None) + length (rope_units (Str w us))))
      (filled_with bs (opt_units None @ rope_units (Str w us)))
      (insert_leaf nr (length (rope_units (Str w us))) (tl rope_bucket_len) bs None (Str w us))"
      by (rule insert_sat [OF nr])
        (use Str False in \<open>auto simp: bucket_table carried_def drop_Suc Suc_le_eq\<close>)
    then show ?thesis using False by (auto elim!: rope_sat_mono)
  qed
next
  case (Rope len w d l r)
  have 1: "rope_sat mf (\<lambda>x. filled 0 bs (length (rope_units l)) x \<and> (fst x \<or> 0 = rope_depth l)) (filled_with bs (rope_units l))
      (js_rebalancee_string_rope_rec nr bs l)"
    by (rule Rope.IH(1)) (use Rope.prems in auto)
  have 2: "rope_sat mf (\<lambda>x. filled 0 bs1 (length (rope_units r)) x \<and> (fst x \<or> 0 = rope_depth r)) (filled_with bs1 (rope_units r))
      (js_rebalancee_string_rope_rec nr bs1 r)" if "filled 0 bs (length (rope_units l)) (ok, bs1)" for ok bs1
    by (rule Rope.IH(2)) (use Rope.prems that in \<open>auto simp: filled_def\<close>)
  show ?case unfolding js_rebalancee_string_rope_rec.simps
    by (rule rope_sat_bind [OF 1], clarsimp, rule rope_sat_bind [OF 2])
      (auto intro!: rope_sat_return simp: filled_def filled_with_def)
qed

lemma collect_sat:
  "joins mf nr \<Longrightarrow> i + length bs = 44 \<Longrightarrow> buckets_ok i bs \<Longrightarrow> carried i a \<Longrightarrow>
    length (bucket_units bs) + length (opt_units a) < ROPE_SAFE_LEN \<Longrightarrow>
    rope_sat mf (\<lambda>r. carried 44 r \<and> opt_units r = bucket_units bs @ opt_units a) (\<lambda>_. True) (collect_ropes nr bs a)"
proof (induction nr bs a arbitrary: i rule: collect_ropes.induct)
  case (1 nr a)
  then show ?case by (auto intro!: rope_sat_return)
next
  case (2 nr bs a)
  have "carried (Suc i) a" using "2.prems" by (auto simp: carried_def split: option.splits)
  then show ?case using "2.IH" [of "Suc i"] "2.prems" by simp
next
  case (3 nr b bs)
  have "i \<le> 29" using bucket_index [of i "length (rope_units b)"] "3.prems" by simp
  then have "carried (Suc i) (Some b)" using "3.prems" by (auto simp: carried_def)
  then show ?case using "3.IH" [of "Suc i"] "3.prems" by simp
next
  case (4 nr b bs a)
  have i: "i \<le> 29" using bucket_index [of i "length (rope_units b)"] "4.prems" by simp
  have "rope_sat mf (\<lambda>r. carried (Suc i) (Some r) \<and> rope_units r = rope_units b @ rope_units a) (\<lambda>_. True) (nr b a)"
    by (rule join_carried [OF "4.prems"(1)]) (use "4.prems" i in auto)
  then show ?case unfolding collect_ropes.simps
  proof (rule rope_sat_bind)
    fix r assume r: "carried (Suc i) (Some r) \<and> rope_units r = rope_units b @ rope_units a"
    have "rope_sat mf (\<lambda>s. carried 44 s \<and> opt_units s = bucket_units bs @ opt_units (Some r)) (\<lambda>_. True)
        (collect_ropes nr bs (Some r))"
      by (rule "4.IH" [where i = "Suc i"]) (use "4.prems" r in auto)
    then show "rope_sat mf (\<lambda>s. carried 44 s \<and> opt_units s = bucket_units (Some b # bs) @ opt_units (Some a))
        (\<lambda>y. True \<longrightarrow> True) (collect_ropes nr bs (Some r))"
      using r by simp
  qed
qed

lemma empty_buckets: "buckets_ok i (replicate n None)" "bucket_units (replicate n None) = []"
  by (induction n arbitrary: i) simp_all

lemma rebalance_sat:
  assumes nr: "joins mf nr" and v: "rope_wf v" "0 < rope_depth v" "length (rope_units v) < ROPE_SAFE_LEN"
  shows "rope_sat mf rope_ok (\<lambda>r. rope_units r = rope_units v) (js_rebalancee_string_rope nr v)"
proof -
  let ?bs = "replicate ROPE_N_BUCKETS None"
  have rec: "rope_sat mf (\<lambda>x. filled 0 ?bs (length (rope_units v)) x \<and> (fst x \<or> 0 = rope_depth v))
      (filled_with ?bs (rope_units v)) (js_rebalancee_string_rope_rec nr ?bs v)"
    by (rule rec_sat [OF nr]) (use v in \<open>simp_all add: empty_buckets ROPE_N_BUCKETS_def\<close>)
  have fin: "rope_sat mf rope_ok (\<lambda>r. filled_with ?bs (rope_units v) (True, bs) \<longrightarrow> rope_units r = rope_units v)
     (js_bind (collect_ropes nr bs None) (\<lambda>a. case a of None \<Rightarrow> js_return (Str False []) | Some a \<Rightarrow> js_return a))"
    if bs: "filled 0 ?bs (length (rope_units v)) (True, bs)" for bs
  proof -
    have "rope_sat mf (\<lambda>r. carried 44 r \<and> opt_units r = bucket_units bs @ opt_units None) (\<lambda>_. True) (collect_ropes nr bs None)"
      by (rule collect_sat [OF nr, where i = 0]) (use bs v(3) in \<open>simp_all add: filled_def ROPE_N_BUCKETS_def empty_buckets carried_def\<close>)
    then show ?thesis
    proof (rule rope_sat_bind)
      fix a assume "carried 44 a \<and> opt_units a = bucket_units bs @ opt_units None"
      then show "rope_sat mf rope_ok (\<lambda>y. True \<longrightarrow> filled_with ?bs (rope_units v) (True, bs) \<longrightarrow> rope_units y = rope_units v)
          (case a of None \<Rightarrow> js_return (Str False []) | Some a \<Rightarrow> js_return a)"
        by (cases a) (auto intro!: rope_sat_return
          simp: carried_def rope_ok_def filled_with_def empty_buckets JS_STRING_ROPE_MAX_DEPTH_def)
    qed
  qed
  show ?thesis unfolding js_rebalancee_string_rope_def
    by (rule rope_sat_bind [OF rec]) (use v(2) fin in auto)
qed

section \<open>Concatenation\<close>

lemma new_rope_wf:
  assumes "rope_wf a" "rope_wf b" "length (rope_units a) + length (rope_units b) \<le> JS_STRING_LEN_MAX"
  shows "rope_wf (Rope (string_rope_get_len a + string_rope_get_len b) (rope_wide a \<or> rope_wide b)
    (max (rope_depth a) (rope_depth b) + 1) a b)"
  using assms by simp

lemma joins_new_string_rope: "joins mf (js_new_string_rope mf (Suc n))"
  unfolding joins_def
proof (intro allI impI)
  fix a b assume ab: "rope_wf a" "rope_wf b" "rope_depth a \<le> 59" "rope_depth b \<le> 59"
    "length (rope_units a) + length (rope_units b) < ROPE_SAFE_LEN"
  then show "rope_sat mf (\<lambda>r. rope_wf r \<and> rope_depth r = max (rope_depth a) (rope_depth b) + 1 \<and>
       rope_units r = rope_units a @ rope_units b) (\<lambda>_. True) (js_new_string_rope mf (Suc n) a b)"
    by (auto intro!: rope_sat_bind [OF rope_sat_malloc] rope_sat_return
      simp: Let_def JS_STRING_LEN_MAX_def ROPE_SAFE_LEN_def JS_STRING_ROPE_MAX_DEPTH_def)
qed

lemma new_string_rope_sat:
  assumes "rope_ok a" "rope_ok b" "length (rope_units a) + length (rope_units b) < ROPE_SAFE_LEN"
  shows "rope_sat mf rope_ok (\<lambda>r. rope_units r = rope_units a @ rope_units b) (js_new_string_rope mf (Suc (Suc n)) a b)"
proof -
  have ab: "rope_wf a" "rope_wf b" using assms by (simp_all add: rope_ok_def)
  define d where "d = max (rope_depth a) (rope_depth b) + 1"
  define v where "v = Rope (string_rope_get_len a + string_rope_get_len b) (rope_wide a \<or> rope_wide b) d a b"
  have len: "length (rope_units a) + length (rope_units b) \<le> JS_STRING_LEN_MAX"
    using assms(3) by (simp add: JS_STRING_LEN_MAX_def ROPE_SAFE_LEN_def)
  have v: "rope_wf v" "rope_depth v = d" "rope_units v = rope_units a @ rope_units b"
    using new_rope_wf [OF ab len] by (simp_all add: v_def d_def)
  have "rope_sat mf rope_ok (\<lambda>r. rope_units r = rope_units a @ rope_units b)
      (if d > JS_STRING_ROPE_MAX_DEPTH then js_rebalancee_string_rope (js_new_string_rope mf (Suc n)) v else js_return v)"
    using rebalance_sat [OF joins_new_string_rope v(1)] v assms(3)
    by (auto intro!: rope_sat_return simp: rope_ok_def d_def)
  then show ?thesis
    unfolding js_new_string_rope.simps(2) Let_def d_def [symmetric] v_def [symmetric]
    using len ab by (auto intro!: rope_sat_bind [OF rope_sat_malloc])
qed

end
