(* ===== verification/JsRope_Props.thy ===== *)
theory JsRope_Props
  imports JsRope_Balance
begin

text \<open>The properties of string ropes, and a rope whose rebalancing never ends.\<close>

section \<open>A rope that cannot be rebalanced\<close>

text \<open>
  The leaves 1, 2, 1, 3, 1, 5, 1, 8, and so on, in the tree that the rebalancing makes of them:
  each further pair of leaves adds two to its depth.
\<close>

definition zeros :: "nat \<Rightarrow> jstr" where
  "zeros n = Str False (replicate n 0)"



































lemma zeros_simps [simp]: "string_rope_get_len (zeros n) = n" "\<not> rope_wide (zeros n)" "rope_depth (zeros n) = 0"
  by (simp_all add: zeros_def)






section \<open>Concatenation\<close>

lemma concat2_sat:
  assumes "rope_wf (Str w1 us1)" "rope_wf (Str w2 us2)" "length us1 + length us2 < ROPE_SAFE_LEN"
  shows "rope_sat mf (\<lambda>s. rope_ok s \<and> rope_units s = us1 @ us2) (\<lambda>_. True) (JS_ConcatString2 mf refs size1 (Str w1 us1) (Str w2 us2))"
proof -
  have len: "length us1 + length us2 \<le> JS_STRING_LEN_MAX"
    using assms(3) by (simp add: ROPE_SAFE_LEN_def JS_STRING_LEN_MAX_def)
  have 1: "rope_sat mf (\<lambda>s. rope_ok s \<and> rope_units s = us1 @ us2) (\<lambda>_. True) (JS_ConcatString1 mf w1 us1 w2 us2)"
    using assms(1,2) len unfolding JS_ConcatString1_def js_alloc_string_def
    by (auto intro!: rope_sat_bind [OF rope_sat_malloc] rope_sat_return simp: rope_ok_def Let_def)
  show ?thesis
  proof (cases "JS_ConcatStringInPlace refs size1 w1 us1 (Str w2 us2)")
    case None
    then show ?thesis using 1 by (simp add: JS_ConcatString2_def)
  next
    case (Some s)
    then have "rope_ok s \<and> rope_units s = us1 @ us2"
      using assms(1,2) len by (auto simp: JS_ConcatStringInPlace_def rope_ok_def split: if_splits)
    then show ?thesis using Some by (auto intro!: rope_sat_return simp: JS_ConcatString2_def)
  qed
qed

lemma concat_strings_sat:
  assumes ok: "rope_ok a" "rope_ok b" and len: "length (rope_units a) + length (rope_units b) < ROPE_SAFE_LEN"
  shows "rope_sat mf rope_ok (\<lambda>s. rope_units s = rope_units a @ rope_units b) (concat_strings mf (Suc (Suc n)) refs size1 a b)"
proof -
  have new: "rope_sat mf rope_ok (\<lambda>s. rope_units s = rope_units a @ rope_units b) (js_new_string_rope mf (Suc (Suc n)) a b)"
    by (rule new_string_rope_sat [OF ok len])
  show ?thesis
  proof (cases a)
    case a: (Str w1 us1)
    show ?thesis
    proof (cases b)
      case b: (Str w2 us2)
      have "rope_sat mf rope_ok (\<lambda>s. rope_units s = rope_units a @ rope_units b) (JS_ConcatString2 mf refs size1 a b)"
        using concat2_sat [of w1 us1 w2 us2 mf refs size1] ok len unfolding a b by (auto simp: rope_ok_def elim!: rope_sat_mono)
      then show ?thesis using ok new by (auto simp: concat_strings_def a b intro!: rope_sat_return)
    next
      case b: (Rope lenb w d l r)
      have "rope_sat mf rope_ok (\<lambda>s. rope_units s = rope_units a @ rope_units b)
          (js_bind (JS_ConcatString2 mf refs size1 a l) (\<lambda>val. js_new_string_rope mf (Suc (Suc n)) val r))" if l: "l = Str w3 us3" for w3 us3
        unfolding a l
      proof (rule rope_sat_bind [OF concat2_sat])
        fix x assume "rope_ok x \<and> rope_units x = us1 @ us3"
        then show "rope_sat mf rope_ok (\<lambda>y. True \<longrightarrow> rope_units y = rope_units (Str w1 us1) @ rope_units b)
            (js_new_string_rope mf (Suc (Suc n)) x r)"
          using new_string_rope_sat [of x r mf n] ok len by (simp add: a b l rope_ok_def)
      qed (use ok len in \<open>auto simp: a b l rope_ok_def\<close>)
      then show ?thesis using ok new by (auto simp: concat_strings_def a b simp del: js_new_string_rope.simps intro!: rope_sat_return split: jstr.split)
    qed
  next
    case a: (Rope lena w d l r)
    show ?thesis
    proof (cases b)
      case b: (Str w2 us2)
      have "rope_sat mf rope_ok (\<lambda>s. rope_units s = rope_units a @ rope_units b)
          (js_bind (JS_ConcatString2 mf 2 0 r b) (\<lambda>val. js_new_string_rope mf (Suc (Suc n)) l val))" if r: "r = Str w3 us3" for w3 us3
        unfolding b r
      proof (rule rope_sat_bind [OF concat2_sat])
        fix x assume "rope_ok x \<and> rope_units x = us3 @ us2"
        then show "rope_sat mf rope_ok (\<lambda>y. True \<longrightarrow> rope_units y = rope_units a @ rope_units (Str w2 us2))
            (js_new_string_rope mf (Suc (Suc n)) l x)"
          using new_string_rope_sat [of l x mf n] ok len by (simp add: a b r rope_ok_def)
      qed (use ok len in \<open>auto simp: a b r rope_ok_def\<close>)
      then show ?thesis using ok new by (auto simp: concat_strings_def a b simp del: js_new_string_rope.simps intro!: rope_sat_return split: jstr.split)
    qed (use new a in \<open>simp add: concat_strings_def\<close>)
  qed
qed

section \<open>Properties\<close>

text \<open>C9: Concatenation is correct and ends for strings of fewer than 2178309 units in all: two levels
  of recursion are enough, the result is a well formed rope of depth at most 60, and its units
  are those of the two strings unless an exception is pending; there is none as long as no
  allocation fails.\<close>

theorem JS_ConcatString_correct:
  assumes "rope_ok a" and "rope_ok b" and "length (rope_units a) + length (rope_units b) < 2178309" and "exc rt = None"
  shows "\<exists>r rt'. JS_ConcatString to_string mf (Suc (Suc n)) refs size1 (Inl a) (Inl b) rt = Some (r, rt') \<and>
    (\<not> mf_may_fail mf \<longrightarrow> r \<noteq> Null \<and> exc rt' = None) \<and>
    (case r of Null \<Rightarrow> exc rt' \<noteq> None
     | Ret s \<Rightarrow> rope_ok s \<and> (exc rt' = None \<longrightarrow> rope_units s = rope_units a @ rope_units b))"
proof -
  have "rope_sat mf rope_ok (\<lambda>s. rope_units s = rope_units a @ rope_units b)
      (JS_ConcatString to_string mf (Suc (Suc n)) refs size1 (Inl a) (Inl b))"
    using concat_strings_sat [OF assms(1,2)] assms(3) by (simp add: JS_ConcatString_def ROPE_SAFE_LEN_def)
  then show ?thesis
    by (cases rule: rope_sat_cases [of _ _ _ _ rt]) (use assms(4) in auto)
qed


theorem JS_ConcatString_correct_witness:
  "\<exists>r rt'. JS_ConcatString (\<lambda>_ :: unit. js_exception) good_mf 2 1 0 (Inl (Str False [104, 105])) (Inl (Str True [0x20AC])) rt0 = Some (r, rt') \<and>
    r \<noteq> Null \<and> exc rt' = None"
proof -
  have "rope_ok (Str False [104, 105])" "rope_ok (Str True [0x20AC])"
    by (simp_all add: rope_ok_def JS_STRING_LEN_MAX_def)
  moreover have "length (rope_units (Str False [104, 105])) + length (rope_units (Str True [0x20AC])) < 2178309" by simp
  moreover have "exc rt0 = None" by (simp add: rt0_def)
  ultimately obtain r rt' where "JS_ConcatString (\<lambda>_ :: unit. js_exception) good_mf (Suc (Suc 0)) 1 0 (Inl (Str False [104, 105])) (Inl (Str True [0x20AC])) rt0 = Some (r, rt')"
      "r \<noteq> Null" "exc rt' = None"
    using JS_ConcatString_correct [of "Str False [104, 105]" "Str True [0x20AC]" rt0 "\<lambda>_ :: unit. js_exception" good_mf 0 1 0] good_mf_ok by blast
  then show ?thesis unfolding numeral_2_eq_2 by blast
qed

text \<open>C11: Comparing ropes piece by piece is comparing their units: the walk over the two ropes never
  overflows its stacks, the result has the sign of the lexicographic comparison, and the
  comparison for equality gives 0 exactly for equal units.\<close>

theorem js_string_rope_compare_correct:
  assumes "rope_ok a" and "rope_ok b"
  shows "\<exists>c e. js_string_rope_compare a b False = Some c \<and> js_string_rope_compare a b True = Some e \<and>
    sgn c = (if rope_units a = rope_units b then 0 else if ord_class.lexordp (rope_units a) (rope_units b) then - 1 else 1) \<and>
    (e = 0 \<longleftrightarrow> rope_units a = rope_units b)"
proof -
  define xs ys where "xs = rope_units a" and "ys = rope_units b"
  define n where "n = min (length xs) (length ys)"
  define c where "c = (if take n xs \<noteq> take n ys then units_diff (take n xs) (take n ys)
    else if length xs = length ys then 0 else if length xs < length ys then - 1 else 1)"
  have r: "js_string_rope_compare a b False = Some c"
    "js_string_rope_compare a b True = Some (if length xs \<noteq> length ys then 1 else c)"
    unfolding rope_compare_spec [OF assms] by (simp_all add: xs_def ys_def c_def n_def Let_def)
  have same: "xs = ys \<longleftrightarrow> take n xs = take n ys \<and> length xs = length ys" by (auto simp: n_def)
  have "sgn c = (if xs = ys then 0 else if ord_class.lexordp xs ys then - 1 else 1)"
  proof (cases "take n xs = take n ys")
    case True
    then show ?thesis using same lexordp_prefix [OF n_def True] by (auto simp: c_def)
  next
    case False
    then have "xs \<noteq> ys" by auto
    then show ?thesis
      using False lexordp_take [OF n_def False] units_diff_lexordp [of "take n xs" "take n ys"] by (simp add: c_def n_def)
  qed
  moreover have "c = 0 \<longleftrightarrow> xs = ys"
  proof (cases "take n xs = take n ys")
    case True
    then have "c = 0 \<longleftrightarrow> length xs = length ys" by (simp add: c_def)
    then show ?thesis using True by (simp only: same simp_thms)
  next
    case False
    have "length (take n xs) = length (take n ys)" by (simp add: n_def)
    from units_diff_0 [OF this] have "c \<noteq> 0" using False by (simp add: c_def)
    then show ?thesis using False by (simp only: same simp_thms)
  qed
  moreover have "(if length xs \<noteq> length ys then 1 else c) = 0 \<longleftrightarrow> xs = ys"
    using \<open>c = 0 \<longleftrightarrow> xs = ys\<close> by (cases "length xs = length ys") auto
  ultimately show ?thesis using r unfolding xs_def ys_def by blast
qed

theorem js_string_rope_compare_correct_witness:
  "\<exists>c e. js_string_rope_compare (Rope 3 False 1 (Str False [1]) (Str False [2, 3])) (Rope 3 True 1 (Str True [1, 2]) (Str False [4])) False = Some c \<and>
    js_string_rope_compare (Rope 3 False 1 (Str False [1]) (Str False [2, 3])) (Rope 3 True 1 (Str True [1, 2]) (Str False [4])) True = Some e \<and>
    sgn c = - 1 \<and> e \<noteq> 0"
proof -
  have "rope_ok (Rope 3 False 1 (Str False [1]) (Str False [2, 3]))" "rope_ok (Rope 3 True 1 (Str True [1, 2]) (Str False [4]))"
    by (simp_all add: rope_ok_def JS_STRING_LEN_MAX_def JS_STRING_ROPE_MAX_DEPTH_def)
  from js_string_rope_compare_correct [OF this] obtain c e where
    "js_string_rope_compare (Rope 3 False 1 (Str False [1]) (Str False [2, 3])) (Rope 3 True 1 (Str True [1, 2]) (Str False [4])) False = Some c"
    "js_string_rope_compare (Rope 3 False 1 (Str False [1]) (Str False [2, 3])) (Rope 3 True 1 (Str True [1, 2]) (Str False [4])) True = Some e"
    "sgn c = (if [1, 2, 3 :: u16] = [1, 2, 4] then 0 else if ord_class.lexordp [1, 2, 3 :: u16] [1, 2, 4] then - 1 else 1)"
    "e = 0 \<longleftrightarrow> [1, 2, 3 :: u16] = [1, 2, 4]" by auto
  then show ?thesis by simp
qed



end
