(* ===== verification/Spec2Isabelle.thy ===== *)
theory Spec2Isabelle
  imports Cutils_Proofs Utf8 RQSort_Order CharRange_Proofs BigInt_Props Buffer_Props ListHead EventLoop_Props
    Gc_Props JsRope_Props
begin

text \<open>
  A verification library of qnode: a QuickJS based JavaScript runtime with a set of
  Node.js compatible modules.

  The program.  \<open>src/src/core/quickjs.c\<close> is the engine; \<open>src/src/deps\<close> holds the
  libraries under it (\<open>cutils\<close>, \<open>libunicode\<close>, \<open>libregexp\<close>, \<open>dtoa\<close>, \<open>list.h\<close>);
  \<open>src/src/lib\<close> holds the native modules (\<open>quickjs-libc.c\<close> with the event loop,
  \<open>buffer.c\<close>, \<open>fs.c\<close>, \<open>child_process.c\<close>, \<open>process.c\<close>, \<open>timers.c\<close>);
  \<open>src/src/qnode.c\<close> is the command line driver that installs them.

  The theories.
    \<^item> \<open>QPrelude\<close>: machine integers, bounded memory objects (an access outside an
      object is \<open>None\<close>, so "returns \<open>Some\<close>" includes memory safety), byte strings.
    \<^item> \<open>Cutils\<close>, \<open>Cutils_Proofs\<close>: the C string helpers, the growable buffer \<open>DynBuf\<close>
      over an allocator whose contract is the locale \<open>allocator\<close>, byte swaps and
      surrogates of \<open>cutils.c\<close> and \<open>cutils.h\<close>.
    \<^item> \<open>Utf8\<close>: \<open>unicode_to_utf8\<close> and \<open>unicode_from_utf8\<close>, inverse to each other.
    \<^item> \<open>RQSort\<close>, \<open>RQSort_Proofs\<close>, \<open>RQSort_Order\<close>: \<open>rqsort\<close> with its explicit stack,
      its heapsort fallback and its exchange routines; safe for every comparison
      function, and sorting under the contract \<open>preorder_cmp\<close>.
    \<^item> \<open>CharRange\<close>, \<open>CharRange_Proofs\<close>: the character sets of \<open>libunicode.c\<close>, a client
      of the allocator contract and (through \<open>point_cmp\<close>) of the comparison contract.
    \<^item> \<open>MpLimb\<close>, \<open>MpDiv\<close>: the \<open>mp_\<close> functions of \<open>quickjs.c\<close> on arrays of 64-bit limbs,
      up to the normalised long division with its precomputed inverse.
    \<^item> \<open>JsMem\<close>: allocation and exceptions as the engine's code sees them, over the
      embedder's function table, which is a parameter that may fail any request; the
      contract \<open>js_sat\<close> says of an operation that it is memory safe, what it returns, what it
      may throw and how many blocks it leaves allocated.
    \<^item> \<open>BigInt\<close> (every \<open>js_bigint_\<close> operation), \<open>BigInt_Core\<close> (the value \<open>sval\<close> and the
      normal form), \<open>BigInt_Arith\<close>, \<open>BigInt_Bits\<close>, \<open>BigInt_Div\<close>, \<open>BigInt_Pow\<close>,
      \<open>BigInt_Float\<close>, \<open>BigInt_FloatCmp\<close> (one group of contracts each, against \<open>int\<close> and \<open>real\<close>).
    \<^item> \<open>Digits\<close>, \<open>Dtoa\<close>: numerals, and the integer printers of \<open>dtoa.c\<close>;
      \<open>BigInt_String\<close>, \<open>BigInt_Read\<close>, \<open>BigInt_Print\<close>: BigInts from and to text in every
      radix; \<open>BigInt_Props\<close>: what the component promises as a whole.
    \<^item> \<open>JsString\<close>: the strings of the engine as lists of UTF-16 units, and
      \<open>JS_NewStringLen\<close> and \<open>JS_ToCStringLen2\<close> from and to UTF-8.
    \<^item> \<open>JsRope\<close>: strings and ropes as trees with the length, width and depth that the code
      stores: reading, hashing, comparing, linearizing, concatenating and rebalancing.
      \<open>JsRope_Proofs\<close> (reading, hashing and comparing are those of the units),
      \<open>JsRope_Balance\<close> (the buckets of the rebalancing: bucket \<open>i\<close> has at least
      \<open>rope_bucket_len ! i\<close> units and depth at most \<open>2 * i\<close>), \<open>JsRope_Props\<close>.  Reference
      counts are arguments where the code looks at one.
    \<^item> \<open>Buffer\<close> (the codecs and views of \<open>buffer.c\<close>), \<open>Buffer_Codec\<close> (hex and base64 are
      inverse to their decoders), \<open>Buffer_Ops\<close> (every method and the method table),
      \<open>Buffer_Safe\<close>, \<open>Buffer_Contracts\<close> and \<open>Buffer_Methods\<close> (the contract of every method
      over \<open>js_sat\<close>), \<open>Buffer_Props\<close>.  Parameters: the engine's conversions of a value to a
      number or a string and its property reads, taken to be pure; the C data pointer that a
      method keeps while such a conversion runs script code is not followed, nor is an
      allocation failure in the conversion of an argument string.
    \<^item> \<open>ListHead\<close>: the intrusive lists of \<open>list.h\<close> over a store of nodes with pointers; the
      contracts \<open>intrusive_queue\<close> and \<open>intrusive_list\<close> and their interpretation.
    \<^item> \<open>EventLoop\<close>: timers, descriptor, signal and worker message handlers, rejected
      promises, the job queue, \<open>js_os_poll\<close>, \<open>js_std_loop\<close> and \<open>js_std_await\<close> of
      \<open>quickjs-libc.c\<close>.  What a called function does is a list of operations of the
      interface, given by the parameter \<open>script\<close>; the clock, \<open>select\<close>, signals, posted
      messages and the allocator are parameters too, indexed by the calls made so far.
      \<open>EventLoop_Proofs\<close> (the invariant), \<open>EventLoop_Progress\<close> (every expired timer gets its
      turn), \<open>EventLoop_End\<close> (the loop ends), \<open>EventLoop_Props\<close>.
    \<^item> \<open>Gc\<close>: reference counts and the cycle collector of \<open>quickjs.c\<close>: the heap of GC objects
      with the references in their bodies, marking, \<open>gc_decref\<close>, \<open>gc_scan\<close>,
      \<open>gc_free_cycles\<close>, the functions that free each kind of object and the release of a
      reference; a use of released memory, a negative count and a failed assertion are \<open>None\<close>.
      \<open>Gc_Mark\<close> (the marking phases compute reachability), \<open>Gc_Free\<close> and \<open>Gc_Cycles\<close>
      (freeing a garbage cycle member by member releases every reference once),
      \<open>Gc_Props\<close>.  A class of a builtin is the list of values that its mark function and its
      finalizer visit; the removal of weak entries is a parameter; atoms and open frames
      other than those of async functions are not followed.

  Conventions.  A C pointer into an object is the object's list of cells and an index;
  a returned error code is the first component of the result; sizes are words where
  the code tests for wrap-around and natural numbers with an explicit bound elsewhere
  (\<open>CR_MAX\<close> for the \<open>int\<close> counters of a character range).  Loops are recursive functions
  with termination proofs, or \<open>partial_function (option)\<close>s for which termination is part of
  the theorem.  The one bound on recursion is the number of levels of \<open>js_new_string_rope\<close>
  through \<open>js_rebalancee_string_rope\<close>: running out of it is \<open>None\<close>, two levels are enough
  for fewer than 2178309 units, and for some longer strings no number is.  Signed machine
  arithmetic wraps around.

  Not modelled: the engine's parser, bytecode interpreter and object model, the
  regular expression compiler, the Unicode tables and the bindings that only call the
  operating system.
\<close>

end
